(* ===== verification/Prelude.thy ===== *)
theory Prelude
  imports Complex_Main "HOL-Library.List_Lexorder" "HOL-Library.Char_ord" "HOL-Library.Multiset"
begin

section \<open>Shared vocabulary of the development\<close>

text \<open>
  Types, fact collections and list lemmas the component theories share.

  A Go \<open>string\<close> is a sequence of bytes, and a HOL \<open>char\<close> is one byte, so a Go string is
  modelled by \<open>string\<close> (a \<open>char list\<close>) and \<open>len\<close> by \<open>length\<close>. Go compares strings byte by
  byte; \<open>HOL-Library.List_Lexorder\<close> over \<open>HOL-Library.Char_ord\<close> is that order, so \<open>sort\<close> on
  strings is \<open>sort.Strings\<close> and \<open>slices.Sort\<close>.
\<close>

named_theorems accounting \<open>what the work meters charge\<close>
named_theorems verdict_simps \<open>the verdict of an evaluator operation, free of its bookkeeping\<close>
named_theorems frame \<open>the fields of a state an operation leaves alone\<close>

type_synonym bytes = string

subsection \<open>Association lists as Go maps\<close>

text \<open>
  A decoded Go \<open>map[string]any\<close> is an association list with distinct keys. Nothing in the code
  observes a map's iteration order except through a sum, a set or a sort, so the order of the
  list carries no meaning; the theorems that matter say so.
\<close>

lemma map_of_SomeD_set: "map_of m k = Some v \<Longrightarrow> (k, v) \<in> set m"
  by (rule map_of_SomeD)

lemma map_of_distinct_iff:
  "distinct (map fst m) \<Longrightarrow> map_of m k = Some v \<longleftrightarrow> (k, v) \<in> set m"
  by (metis map_of_SomeD map_of_is_SomeI)

lemma map_of_cong_set:
  assumes "distinct (map fst m)" "distinct (map fst m')" "set m = set m'"
  shows "map_of m = map_of m'"
  using assms by (intro ext) (metis map_of_eq_None_iff map_of_distinct_iff not_Some_eq image_set)

subsection \<open>Lists of strings as Go sets\<close>

text \<open>\<open>addUnique\<close> is the append the code guards with \<open>slices.Contains\<close>.\<close>

definition addUnique :: "'a list \<Rightarrow> 'a \<Rightarrow> 'a list" where
  "addUnique xs x = (if x \<in> set xs then xs else xs @ [x])"

definition uniqueList :: "'a list \<Rightarrow> 'a list" where
  "uniqueList xs = foldl addUnique [] xs"

lemma set_addUnique [simp]: "set (addUnique xs x) = insert x (set xs)"
  by (auto simp: addUnique_def)

lemma distinct_addUnique [simp]: "distinct (addUnique xs x) \<longleftrightarrow> distinct xs"
  by (auto simp: addUnique_def)

lemma set_foldl_addUnique [simp]: "set (foldl addUnique acc xs) = set acc \<union> set xs"
  by (induction xs arbitrary: acc) auto

lemma distinct_foldl_addUnique [simp]: "distinct (foldl addUnique acc xs) \<longleftrightarrow> distinct acc"
  by (induction xs arbitrary: acc) auto

lemma set_uniqueList [simp]: "set (uniqueList xs) = set xs"
  by (simp add: uniqueList_def)

lemma distinct_uniqueList [simp]: "distinct (uniqueList xs)"
  by (simp add: uniqueList_def)

text \<open>A sorted duplicate-free list is determined by its elements.\<close>

lemma sorted_distinct_determined:
  fixes xs ys :: "'a::linorder list"
  assumes "sorted xs" "distinct xs" "sorted ys" "distinct ys" "set xs = set ys"
  shows "xs = ys"
  using assms by (simp add: sorted_distinct_set_unique)

lemma sort_determined_by_set:
  fixes xs ys :: "'a::linorder list"
  assumes "distinct xs" "distinct ys" "set xs = set ys"
  shows "sort xs = sort ys"
  using assms by (intro sorted_distinct_determined) auto

subsection \<open>Splitting strings\<close>

text \<open>\<open>strings.Split\<close> with a one-byte separator: one more part than separators.\<close>

fun splitOn :: "char \<Rightarrow> string \<Rightarrow> string list" where
  "splitOn c [] = [[]]"
| "splitOn c (x # xs) =
     (if x = c then [] # splitOn c xs
      else (case splitOn c xs of [] \<Rightarrow> [[x]] | p # ps \<Rightarrow> (x # p) # ps))"

lemma splitOn_nonempty [simp]: "splitOn c s \<noteq> []"
  by (induction s) (auto split: list.splits)

lemma splitOn_no_sep: "c \<notin> set s \<Longrightarrow> splitOn c s = [s]"
  by (induction s) auto

lemma splitOn_append: "c \<notin> set s \<Longrightarrow> splitOn c (s @ c # rest) = s # splitOn c rest"
  by (induction s) (auto split: list.splits)

lemma splitOn_parts: "p \<in> set (splitOn c s) \<Longrightarrow> c \<notin> set p"
  by (induction s arbitrary: p) (auto split: list.splits if_splits)

text \<open>\<open>strings.Join\<close>.\<close>

fun joinWith :: "string \<Rightarrow> string list \<Rightarrow> string" where
  "joinWith sep [] = []"
| "joinWith sep [s] = s"
| "joinWith sep (s # t # ts) = s @ sep @ joinWith sep (t # ts)"

lemma joinWith_Cons: "joinWith sep (p # ps) = p @ concat (map (\<lambda>q. sep @ q) ps)"
  by (induction ps arbitrary: p) auto

text \<open>\<open>strings.Cut\<close> with a one-byte separator.\<close>

definition cutAt :: "char \<Rightarrow> string \<Rightarrow> string \<times> string \<times> bool" where
  "cutAt c s =
     (case dropWhile (\<lambda>x. x \<noteq> c) s of
        [] \<Rightarrow> (s, [], False)
      | _ # rest \<Rightarrow> (takeWhile (\<lambda>x. x \<noteq> c) s, rest, True))"

lemma cutAt_no_sep: "c \<notin> set s \<Longrightarrow> cutAt c s = (s, [], False)"
proof -
  assume "c \<notin> set s"
  then have "dropWhile (\<lambda>x. x \<noteq> c) s = []" by (auto simp: dropWhile_eq_Nil_conv)
  then show ?thesis by (simp only: cutAt_def list.case)
qed

lemma cutAt_append: "c \<notin> set s \<Longrightarrow> cutAt c (s @ c # rest) = (s, rest, True)"
proof -
  assume h: "c \<notin> set s"
  then have "takeWhile (\<lambda>x. x \<noteq> c) (s @ c # rest) = s"
    and "dropWhile (\<lambda>x. x \<noteq> c) (s @ c # rest) = c # rest"
    by (auto simp: takeWhile_append dropWhile_append)
  then show ?thesis by (simp add: cutAt_def)
qed

subsection \<open>Decimal digits\<close>

definition isDigit :: "char \<Rightarrow> bool" where
  "isDigit c \<longleftrightarrow> CHR ''0'' \<le> c \<and> c \<le> CHR ''9''"

definition digitVal :: "char \<Rightarrow> nat" where
  "digitVal c = of_char c - 48"

definition digitChar :: "nat \<Rightarrow> char" where
  "digitChar d = char_of (d + 48)"

definition digitsVal :: "string \<Rightarrow> nat" where
  "digitsVal s = foldl (\<lambda>n c. 10 * n + digitVal c) 0 s"

text \<open>The decimal spelling Go prints for an integer (\<open>strconv.Itoa\<close>, \<open>big.Int.String\<close>).\<close>

fun natString :: "nat \<Rightarrow> string" where
  "natString n = (if n < 10 then [digitChar n] else natString (n div 10) @ [digitChar (n mod 10)])"

declare natString.simps [simp del]

definition intString :: "int \<Rightarrow> string" where
  "intString i = (if i < 0 then CHR ''-'' # natString (nat (- i)) else natString (nat i))"

lemma isDigit_iff: "isDigit c \<longleftrightarrow> 48 \<le> (of_char c :: nat) \<and> (of_char c :: nat) \<le> 57"
  by (simp add: isDigit_def less_eq_char_def)

lemma isDigit_digitChar [simp]: "d < 10 \<Longrightarrow> isDigit (digitChar d)"
  by (simp add: isDigit_iff digitChar_def)

lemma digitVal_digitChar [simp]: "d < 10 \<Longrightarrow> digitVal (digitChar d) = d"
  by (simp add: digitVal_def digitChar_def)

lemma digitVal_lt: "isDigit c \<Longrightarrow> digitVal c < 10"
  by (auto simp: isDigit_iff digitVal_def)

lemma digitChar_digitVal [simp]: "isDigit c \<Longrightarrow> digitChar (digitVal c) = c"
  by (simp add: isDigit_iff digitVal_def digitChar_def)

lemma digitsVal_Nil [simp]: "digitsVal [] = 0"
  by (simp add: digitsVal_def)

lemma digitsVal_snoc [simp]: "digitsVal (s @ [c]) = 10 * digitsVal s + digitVal c"
  by (simp add: digitsVal_def)

lemma digitsVal_append: "digitsVal (s @ t) = digitsVal s * 10 ^ length t + digitsVal t"
  by (induction t rule: rev_induct) (simp_all add: algebra_simps flip: append_assoc)

lemma digitsVal_singleton [simp]: "digitsVal [c] = digitVal c"
  by (simp add: digitsVal_def)

lemma digitsVal_Cons: "digitsVal (c # s) = digitVal c * 10 ^ length s + digitsVal s"
  using digitsVal_append[of "[c]" s] by simp

lemma digitsVal_lt: "list_all isDigit s \<Longrightarrow> digitsVal s < 10 ^ length s"
proof (induction s rule: rev_induct)
  case (snoc c s)
  then have "digitsVal s < 10 ^ length s" "digitVal c < 10" by (auto simp: digitVal_lt)
  then show ?case by (simp add: algebra_simps)
qed simp

lemma natString_nonempty [simp]: "natString n \<noteq> []"
  by (subst natString.simps) simp

lemma digitsVal_natString [simp]: "digitsVal (natString n) = n"
proof (induction n rule: natString.induct)
  case (1 n)
  then show ?case by (cases "n < 10") (auto simp: natString.simps[of n])
qed

lemma natString_digits: "list_all isDigit (natString n)"
proof (induction n rule: natString.induct)
  case (1 n)
  then show ?case by (cases "n < 10") (auto simp: natString.simps[of n])
qed

lemma natString_inject [simp]: "natString m = natString n \<longleftrightarrow> m = n"
  by (metis digitsVal_natString)

lemma digit0: "digitChar 0 = CHR ''0''"
  by code_simp

lemma digitVal_eq_0: "isDigit c \<Longrightarrow> digitVal c = 0 \<longleftrightarrow> c = CHR ''0''"
  by (metis digit0 digitChar_digitVal digitVal_digitChar zero_less_numeral)

lemma natString_head: "n > 0 \<Longrightarrow> hd (natString n) \<noteq> CHR ''0''"
proof (induction n rule: natString.induct)
  case (1 n)
  show ?case
  proof (cases "n < 10")
    case True
    with "1.prems" show ?thesis
      by (simp add: natString.simps[of n])
         (metis digitVal_digitChar digitVal_eq_0 isDigit_digitChar less_numeral_extra(3))
  next
    case False
    with 1 have "hd (natString (n div 10)) \<noteq> CHR ''0''" by simp
    with False show ?thesis by (simp add: natString.simps[of n])
  qed
qed

lemma natString_0: "natString 0 = ''0''"
  by (simp add: natString.simps digit0)

text \<open>A digit string without a leading zero is the spelling of its own value.\<close>

lemma natString_digitsVal:
  assumes "list_all isDigit s" "s \<noteq> []" "hd s \<noteq> CHR ''0'' \<or> length s = 1"
  shows "natString (digitsVal s) = s"
  using assms
proof (induction s rule: rev_induct)
  case (snoc c s)
  then have c: "isDigit c" by simp
  show ?case
  proof (cases "s = []")
    case True
    with c show ?thesis by (simp add: natString.simps digitVal_lt)
  next
    case False
    with snoc.prems have nz: "hd s \<noteq> CHR ''0''" and ds: "list_all isDigit s" by auto
    with False snoc.IH have IH: "natString (digitsVal s) = s" by simp
    have "digitsVal s > 0"
    proof (rule ccontr)
      assume "\<not> digitsVal s > 0"
      then have "s = ''0''" using IH natString_0 by simp
      with nz show False by simp
    qed
    with c IH show ?thesis
      by (subst natString.simps) (auto simp: digitVal_lt)
  qed
qed simp

lemma natString_minus_free: "CHR ''-'' \<notin> set (natString n)"
  using natString_digits[of n] by (auto simp: list_all_iff isDigit_iff)

lemma intString_inject [simp]: "intString i = intString j \<longleftrightarrow> i = j"
proof
  assume h: "intString i = intString j"
  show "i = j"
  proof (cases "i < 0"; cases "j < 0")
    assume "i < 0" "\<not> j < 0"
    with h show ?thesis
      by (simp add: intString_def) (metis list.set_intros(1) natString_minus_free)
  next
    assume "\<not> i < 0" "j < 0"
    with h show ?thesis
      by (simp add: intString_def) (metis list.set_intros(1) natString_minus_free)
  qed (use h in \<open>auto simp: intString_def\<close>)
qed simp

subsection \<open>Indexed lists\<close>

text \<open>A list with its indices, as \<open>range\<close> walks it.\<close>

definition indexed :: "'a list \<Rightarrow> (nat \<times> 'a) list" where
  "indexed xs = zip [0..<length xs] xs"

lemma indexed_empty:
  "concat (map (\<lambda>(i, x). f i x) (indexed xs)) = [] \<longleftrightarrow> (\<forall>(i, x) \<in> set (indexed xs). f i x = [])"
  by auto

lemma indexed_set: "x \<in> set xs \<longleftrightarrow> (\<exists>i. (i, x) \<in> set (indexed xs))"
  by (auto simp: indexed_def set_zip in_set_conv_nth)

lemma map_snd_indexed [simp]: "map snd (indexed xs) = xs"
  by (simp add: indexed_def)

lemma filter_none: "filter P xs = [] \<longleftrightarrow> (\<forall>x \<in> set xs. \<not> P x)"
  by (induction xs) auto

end
