(* ===== verification/Json_Value.thy ===== *)
theory Json_Value
  imports Prelude
begin

section \<open>Decoded JSON documents\<close>

text \<open>
  The values \<open>carrier.Decode\<close> returns, which every later component reads: \<open>nil\<close>, \<open>bool\<close>,
  \<open>string\<close>, \<open>json.Number\<close> (the number's token, never a float), \<open>[]any\<close> and
  \<open>map[string]any\<close>. The code's type assertions with a comma-ok become the readers below; a
  missing map key reads as \<open>nil\<close>, which is \<open>JNull\<close>.
\<close>

datatype json =
    JNull
  | JBool bool
  | JString string
  | JNumber string
  | JArray "json list"
  | JObject "(string \<times> json) list"

type_synonym object = "(string \<times> json) list"

text \<open>\<open>m[k]\<close> on a \<open>map[string]any\<close>: the zero value \<open>nil\<close> when the key is absent.\<close>

definition jget :: "object \<Rightarrow> string \<Rightarrow> json" where
  "jget m k = (case map_of m k of None \<Rightarrow> JNull | Some v \<Rightarrow> v)"

definition hasMember :: "object \<Rightarrow> string \<Rightarrow> bool" where
  "hasMember m k \<longleftrightarrow> map_of m k \<noteq> None"

text \<open>\<open>asArray\<close>: \<open>items, _ := value.([]any)\<close>.\<close>

fun asArray :: "json \<Rightarrow> json list" where
  "asArray (JArray xs) = xs"
| "asArray _ = []"

fun asObject :: "json \<Rightarrow> object option" where
  "asObject (JObject m) = Some m"
| "asObject _ = None"

fun asString :: "json \<Rightarrow> string option" where
  "asString (JString s) = Some s"
| "asString _ = None"

text \<open>\<open>object, _ := value.(map[string]any)\<close>: a nil map reads as one with no member.\<close>

definition objectOrNil :: "json \<Rightarrow> object" where
  "objectOrNil v = (case asObject v of None \<Rightarrow> [] | Some m \<Rightarrow> m)"

text \<open>\<open>text, _ := value.(string)\<close>: the empty string when it is no string.\<close>

definition stringOrEmpty :: "json \<Rightarrow> string" where
  "stringOrEmpty v = (case asString v of None \<Rightarrow> [] | Some s \<Rightarrow> s)"

text \<open>\<open>flag, _ := value.(bool)\<close>.\<close>

fun boolOrFalse :: "json \<Rightarrow> bool" where
  "boolOrFalse (JBool b) = b"
| "boolOrFalse _ = False"

fun jsonType :: "json \<Rightarrow> string" where
  "jsonType JNull = ''null''"
| "jsonType (JBool _) = ''boolean''"
| "jsonType (JString _) = ''string''"
| "jsonType (JNumber _) = ''number''"
| "jsonType (JObject _) = ''object''"
| "jsonType (JArray _) = ''array''"

text \<open>\<open>sortedMembers\<close>: a map's keys in byte order.\<close>

definition sortedMembers :: "object \<Rightarrow> string list" where
  "sortedMembers m = sort (map fst m)"

text \<open>\<open>copyObject\<close> followed by one assignment \<open>projected[k] = v\<close>.\<close>

definition setMember :: "object \<Rightarrow> string \<Rightarrow> json \<Rightarrow> object" where
  "setMember m k v = (if hasMember m k then map (\<lambda>(x, w). (x, if x = k then v else w)) m
                      else m @ [(k, v)])"

text \<open>A decoded document: every object's member names are distinct, at every depth.\<close>

fun jsonWf :: "json \<Rightarrow> bool" where
  "jsonWf (JArray xs) = list_all jsonWf xs"
| "jsonWf (JObject m) = (distinct (map fst m) \<and> list_all (\<lambda>p. jsonWf (snd p)) m)"
| "jsonWf _ = True"

subsection \<open>Readers\<close>

lemma jget_Nil [simp]: "jget [] k = JNull"
  by (simp add: jget_def)

lemma jget_Cons [simp]: "jget ((k', v) # m) k = (if k' = k then v else jget m k)"
  by (simp add: jget_def)

lemma hasMember_Nil [simp]: "hasMember [] k = False"
  by (simp add: hasMember_def)

lemma hasMember_Cons [simp]: "hasMember ((k', v) # m) k = (k' = k \<or> hasMember m k)"
  by (auto simp: hasMember_def)

lemma hasMember_iff: "hasMember m k \<longleftrightarrow> k \<in> fst ` set m"
  by (simp add: hasMember_def map_of_eq_None_iff)

lemma jget_absent: "\<not> hasMember m k \<Longrightarrow> jget m k = JNull"
  by (auto simp: hasMember_def jget_def split: option.splits)

lemma asArray_JArray_iff: "x \<in> set (asArray v) \<Longrightarrow> \<exists>xs. v = JArray xs \<and> x \<in> set xs"
  by (cases v) auto

lemma asObject_Some [simp]: "asObject v = Some m \<longleftrightarrow> v = JObject m"
  by (cases v) auto

lemma asString_Some [simp]: "asString v = Some s \<longleftrightarrow> v = JString s"
  by (cases v) auto

lemma objectOrNil_JObject [simp]: "objectOrNil (JObject m) = m"
  by (simp add: objectOrNil_def)

lemma stringOrEmpty_simps [simp]:
  "stringOrEmpty (JString s) = s" "stringOrEmpty JNull = []" "stringOrEmpty (JBool b) = []"
  "stringOrEmpty (JNumber t) = []" "stringOrEmpty (JArray xs) = []" "stringOrEmpty (JObject m) = []"
  by (simp_all add: stringOrEmpty_def)

lemma jget_append_new: "\<not> hasMember m k \<Longrightarrow> jget (m @ [(k, v)]) k' = (if k' = k then v else jget m k')"
  by (induction m) auto

lemma jget_map_update:
  "jget (map (\<lambda>(x, w). (x, if x = k then v else w)) m) k' =
     (if k' = k \<and> hasMember m k then v else jget m k')"
  by (induction m) auto

lemma jget_setMember [simp]: "jget (setMember m k v) k' = (if k' = k then v else jget m k')"
  by (simp add: setMember_def jget_append_new jget_map_update)

lemma hasMember_append [simp]: "hasMember (m @ m') k \<longleftrightarrow> hasMember m k \<or> hasMember m' k"
  by (induction m) auto

lemma hasMember_map_update [simp]:
  "hasMember (map (\<lambda>(x, w). (x, f x w)) m) k' \<longleftrightarrow> hasMember m k'"
  by (induction m) auto

lemma hasMember_setMember [simp]: "hasMember (setMember m k v) k' \<longleftrightarrow> k' = k \<or> hasMember m k'"
  by (auto simp: setMember_def)

lemma jsonWf_jget: "jsonWf (JObject m) \<Longrightarrow> jsonWf (jget m k)"
  by (auto simp: jget_def list_all_iff split: option.splits dest: map_of_SomeD_set)

lemma jsonWf_asArray: "jsonWf v \<Longrightarrow> x \<in> set (asArray v) \<Longrightarrow> jsonWf x"
  by (cases v) (auto simp: list_all_iff)

subsection \<open>Sizes, for recursion over documents\<close>

lemma size_list_member: "x \<in> set xs \<Longrightarrow> size x \<le> size_list size xs"
  by (induction xs) auto

lemma size_member_lt:
  assumes "(k, v) \<in> set m" shows "size (v :: json) < size (JObject m)"
  using assms by (induction m) auto

lemma size_element_lt:
  assumes "x \<in> set xs" shows "size (x :: json) < size (JArray xs)"
  using assms by (induction xs) auto

lemma size_jget_lt: "size (jget m k) < size (JObject m)"
proof (cases "map_of m k")
  case (Some v)
  then show ?thesis using size_member_lt[of k v m] by (simp add: jget_def map_of_SomeD)
qed (simp add: jget_def)

lemma size_jget_le: "size (jget m k) \<le> size_list (size_prod (\<lambda>x. 0) size) m"
  using size_jget_lt[of m k] by (simp only: json.size)

lemma size_asArray_jget:
  assumes "x \<in> set (asArray (jget m k))"
  shows "size x < size (JObject m)"
proof -
  obtain xs where "jget m k = JArray xs" "x \<in> set xs"
    using asArray_JArray_iff[OF assms] by blast
  then have "size x < size (jget m k)" by (metis size_element_lt)
  also have "\<dots> < size (JObject m)" by (rule size_jget_lt)
  finally show ?thesis .
qed

lemma size_array_jget:
  assumes "jget m k = JArray xs"
  shows "size_list size xs < size (JObject m)"
  using size_jget_le[of m k] assms by simp

end
