(* ===== verification/Json_Number.thy ===== *)
theory Json_Number
  imports Json_Value
begin

section \<open>JSON number tokens and type-preserving equality\<close>

text \<open>
  \<open>normalizeNumber\<close>, \<open>numbersEqual\<close>, \<open>canonicalNumbers\<close> and \<open>jsonEqual\<close> of
  \<open>internal/evaluation/condition.go\<close>: numbers are compared on their tokens, by a normal form of
  sign, significant digits and exponent, and never as a materialised value. The lemmas show that
  the normal form decides equality of the rational number the token denotes, and that
  \<open>jsonEqual\<close> is equality of a canonical document.
\<close>

subsection \<open>The normal form\<close>

record numberNormalForm =
  negative :: bool
  digits :: string
  exponent :: int
  malformed :: bool

definition malformedForm :: numberNormalForm where
  "malformedForm = \<lparr>negative = False, digits = [], exponent = 0, malformed = True\<rparr>"

text \<open>\<open>(*big.Int).SetString(s, 10)\<close>: an optional sign and at least one decimal digit.\<close>

definition parseBigInt :: "string \<Rightarrow> int option" where
  "parseBigInt s =
     (let neg = (s \<noteq> [] \<and> hd s = CHR ''-'');
          body = (if s \<noteq> [] \<and> hd s \<in> {CHR ''-'', CHR ''+''} then tl s else s)
      in if body \<noteq> [] \<and> list_all isDigit body
         then Some ((if neg then - 1 else 1) * int (digitsVal body)) else None)"

definition isExponentMark :: "char \<Rightarrow> bool" where
  "isExponentMark c \<longleftrightarrow> c = CHR ''e'' \<or> c = CHR ''E''"

definition isZero :: "char \<Rightarrow> bool" where
  "isZero c \<longleftrightarrow> c = CHR ''0''"

text \<open>The four texts a token splits into: sign, integer digits, fraction digits and exponent.\<close>

definition numberParts :: "string \<Rightarrow> bool \<times> string \<times> string \<times> string" where
  "numberParts token =
     (let neg = (token \<noteq> [] \<and> hd token = CHR ''-'');
          rest = (if neg then tl token else token);
          mantissa = takeWhile (\<lambda>c. \<not> isExponentMark c) rest;
          expo = tl (dropWhile (\<lambda>c. \<not> isExponentMark c) rest);
          (integer, fraction, _) = cutAt (CHR ''.'') mantissa
      in (neg, integer, fraction, expo))"

definition stripZeros :: "string \<Rightarrow> string" where
  "stripZeros ds = rev (dropWhile isZero (rev (dropWhile isZero ds)))"

definition normalizeNumber :: "string \<Rightarrow> numberNormalForm" where
  "normalizeNumber token =
     (let (neg, integer, fraction, expo) = numberParts token;
          exponent0 = (if expo = [] then Some 0 else parseBigInt expo);
          ds = integer @ fraction
      in case exponent0 of
           None \<Rightarrow> malformedForm
         | Some e \<Rightarrow>
             if \<not> list_all isDigit ds then malformedForm
             else let stripped = dropWhile isZero ds;
                      significant = stripZeros ds
                  in \<lparr>negative = neg, digits = significant,
                      exponent = e - int (length fraction)
                                 + int (length stripped - length significant),
                      malformed = False\<rparr>)"

definition formEquals :: "numberNormalForm \<Rightarrow> numberNormalForm \<Rightarrow> bool" where
  "formEquals n m =
     (if malformed n \<or> malformed m then False
      else if digits n = [] \<or> digits m = [] then digits n = digits m
      else negative n = negative m \<and> digits n = digits m \<and> exponent n = exponent m)"

definition numbersEqual :: "string \<Rightarrow> string \<Rightarrow> bool" where
  "numbersEqual l r = (if l = r then True else formEquals (normalizeNumber l) (normalizeNumber r))"

text \<open>\<open>numberNormalForm.token\<close>.\<close>

definition formToken :: "numberNormalForm \<Rightarrow> string" where
  "formToken n =
     (if digits n = [] then ''0''
      else let text = (if negative n then CHR ''-'' # digits n else digits n)
           in if exponent n = 0 then text else text @ CHR ''e'' # intString (exponent n))"

fun canonicalNumbers :: "json \<Rightarrow> json" where
  "canonicalNumbers (JArray xs) = JArray (map canonicalNumbers xs)"
| "canonicalNumbers (JObject m) = JObject (map (\<lambda>p. (fst p, canonicalNumbers (snd p))) m)"
| "canonicalNumbers (JNumber t) =
     (let form = normalizeNumber t in if malformed form then JNumber t else JNumber (formToken form))"
| "canonicalNumbers v = v"

function jsonEqual :: "json \<Rightarrow> json \<Rightarrow> bool" where
  "jsonEqual JNull b = (b = JNull)"
| "jsonEqual (JBool l) b = (case b of JBool r \<Rightarrow> l = r | _ \<Rightarrow> False)"
| "jsonEqual (JString l) b = (case b of JString r \<Rightarrow> l = r | _ \<Rightarrow> False)"
| "jsonEqual (JNumber l) b = (case b of JNumber r \<Rightarrow> numbersEqual l r | _ \<Rightarrow> False)"
| "jsonEqual (JArray l) b =
     (case b of
        JArray r \<Rightarrow> length l = length r \<and> list_all (\<lambda>p. jsonEqual (fst p) (snd p)) (zip l r)
      | _ \<Rightarrow> False)"
| "jsonEqual (JObject l) b =
     (case b of
        JObject r \<Rightarrow> length l = length r \<and>
          list_all (\<lambda>p. case map_of r (fst p) of None \<Rightarrow> False
                        | Some other \<Rightarrow> jsonEqual (snd p) other) l
      | _ \<Rightarrow> False)"
  by pat_completeness auto
termination
proof (relation "measure (\<lambda>(a, b). size a)", goal_cases)
  case (2 l b r z)
  then have "fst z \<in> set l" by (cases z) (auto dest: set_zip_leftD)
  from size_element_lt[OF this] show ?case by (cases z) simp
next
  case (3 l b r z other)
  then have "(fst z, snd z) \<in> set l" by simp
  from size_member_lt[OF this] show ?case by simp
qed simp

subsection \<open>The number a token denotes\<close>

text \<open>
  The meaning of a token, read straight off its parts: the sign, the digits of the integer and the
  fraction as one numeral, scaled by ten to the exponent less the fraction's length.
\<close>

definition signOf :: "bool \<Rightarrow> rat" where
  "signOf neg = (if neg then - 1 else 1)"

definition tokenValue :: "string \<Rightarrow> rat option" where
  "tokenValue token =
     (let (neg, integer, fraction, expo) = numberParts token
      in case (if expo = [] then Some 0 else parseBigInt expo) of
           None \<Rightarrow> None
         | Some e \<Rightarrow>
             if list_all isDigit (integer @ fraction)
             then Some (signOf neg * of_nat (digitsVal (integer @ fraction))
                        * 10 powi (e - int (length fraction)))
             else None)"

definition formValue :: "numberNormalForm \<Rightarrow> rat" where
  "formValue n = signOf (negative n) * of_nat (digitsVal (digits n)) * 10 powi exponent n"

text \<open>What a normal form's digits satisfy: no zero at either end.\<close>

definition strippedDigits :: "string \<Rightarrow> bool" where
  "strippedDigits ds \<longleftrightarrow>
     list_all isDigit ds \<and> (ds \<noteq> [] \<longrightarrow> hd ds \<noteq> CHR ''0'' \<and> last ds \<noteq> CHR ''0'')"

lemma digitVal_zero [simp]: "digitVal (CHR ''0'') = 0"
  by (simp add: digitVal_def)

lemma digitVal_isZero: "isZero c \<Longrightarrow> digitVal c = 0"
  by (simp add: isZero_def)

lemma digitsVal_dropWhile_zero: "digitsVal (dropWhile isZero ds) = digitsVal ds"
  by (induction ds) (auto simp: digitsVal_Cons isZero_def)

lemma digitsVal_trailing:
  "digitsVal ds = digitsVal (rev (dropWhile isZero (rev ds)))
                  * 10 ^ (length ds - length (rev (dropWhile isZero (rev ds))))"
proof (induction ds rule: rev_induct)
  case (snoc c ds)
  have "length (dropWhile isZero (rev ds)) \<le> length ds"
    using length_dropWhile_le[of isZero "rev ds"] by simp
  with snoc show ?case by (cases "isZero c") (auto simp: Suc_diff_le digitVal_isZero)
qed simp

lemma digitsVal_stripZeros:
  "digitsVal ds = digitsVal (stripZeros ds)
                  * 10 ^ (length (dropWhile isZero ds) - length (stripZeros ds))"
  using digitsVal_trailing[of "dropWhile isZero ds"]
  by (simp add: stripZeros_def digitsVal_dropWhile_zero)

lemma hd_dropWhile_zero: "dropWhile isZero ds \<noteq> [] \<Longrightarrow> hd (dropWhile isZero ds) \<noteq> CHR ''0''"
  using hd_dropWhile[of isZero ds] by (simp add: isZero_def)

lemma hd_rev_dropWhile_rev:
  "rev (dropWhile P (rev xs)) \<noteq> [] \<Longrightarrow> hd (rev (dropWhile P (rev xs))) = hd xs"
  by (induction xs rule: rev_induct) (auto split: if_splits simp: hd_append)

lemma strippedDigits_stripZeros: "list_all isDigit ds \<Longrightarrow> strippedDigits (stripZeros ds)"
proof -
  assume "list_all isDigit ds"
  then have "list_all isDigit (stripZeros ds)"
    by (auto simp: stripZeros_def list_all_iff dest!: set_dropWhileD)
  moreover have "hd (stripZeros ds) \<noteq> CHR ''0''" if "stripZeros ds \<noteq> []"
    using that hd_rev_dropWhile_rev[of isZero "dropWhile isZero ds"] hd_dropWhile_zero[of ds]
    unfolding stripZeros_def by fastforce
  moreover have "last (stripZeros ds) \<noteq> CHR ''0''" if "stripZeros ds \<noteq> []"
    using that hd_dropWhile_zero[of "rev (dropWhile isZero ds)"]
    unfolding stripZeros_def by (simp add: last_rev)
  ultimately show ?thesis by (simp add: strippedDigits_def)
qed

lemma strippedDigits_pos: "strippedDigits ds \<Longrightarrow> ds \<noteq> [] \<Longrightarrow> digitsVal ds > 0"
proof -
  assume h: "strippedDigits ds" "ds \<noteq> []"
  then obtain c cs where ds: "ds = c # cs" by (cases ds) auto
  with h have "isDigit c" "c \<noteq> CHR ''0''" by (auto simp: strippedDigits_def)
  then have "digitVal c > 0" using digitVal_eq_0 by fastforce
  with ds show ?thesis by (simp add: digitsVal_Cons)
qed

lemma strippedDigits_not_dvd: "strippedDigits ds \<Longrightarrow> ds \<noteq> [] \<Longrightarrow> \<not> 10 dvd digitsVal ds"
proof -
  assume h: "strippedDigits ds" "ds \<noteq> []"
  then obtain c cs where ds: "ds = cs @ [c]" by (cases ds rule: rev_cases) auto
  with h have c: "isDigit c" "c \<noteq> CHR ''0''" by (auto simp: strippedDigits_def)
  then have "digitVal c < 10" "digitVal c > 0" using digitVal_eq_0 digitVal_lt by fastforce+
  then have "\<not> 10 dvd digitVal c" by (auto dest: nat_dvd_not_less)
  with ds show ?thesis by (simp add: dvd_add_right_iff)
qed

lemma strippedDigits_natString: "strippedDigits ds \<Longrightarrow> ds \<noteq> [] \<Longrightarrow> natString (digitsVal ds) = ds"
  by (rule natString_digitsVal) (auto simp: strippedDigits_def)

lemma strippedDigits_inject:
  assumes "strippedDigits ds" "strippedDigits es" "ds \<noteq> []" "es \<noteq> []" "digitsVal ds = digitsVal es"
  shows "ds = es"
  using assms by (metis strippedDigits_natString)

text \<open>The normal form keeps the value and strips its digits.\<close>

lemma strippedDigits_Nil [simp]: "strippedDigits []"
  by (simp add: strippedDigits_def)

lemma normalizeNumber_stripped: "strippedDigits (digits (normalizeNumber t))"
proof -
  obtain neg integer fraction expo where p: "numberParts t = (neg, integer, fraction, expo)"
    by (metis prod_cases4)
  show ?thesis
  proof (cases "if expo = [] then Some 0 else parseBigInt expo")
    case None
    then show ?thesis by (simp add: normalizeNumber_def p malformedForm_def)
  next
    case (Some e)
    show ?thesis
      by (cases "list_all isDigit (integer @ fraction)")
         (simp_all only: normalizeNumber_def p Let_def Some prod.case option.case
            not_True_eq_False not_False_eq_True if_True if_False numberNormalForm.simps
            malformedForm_def strippedDigits_stripZeros strippedDigits_Nil)
  qed
qed

lemma powi_10_split: "(10::rat) ^ k * 10 powi e = 10 powi (e + int k)"
  by (simp add: power_int_add power_int_of_nat mult.commute)

lemma tokenValue_normalize:
  "tokenValue t = (if malformed (normalizeNumber t) then None else Some (formValue (normalizeNumber t)))"
proof -
  obtain neg integer fraction expo where p: "numberParts t = (neg, integer, fraction, expo)"
    by (metis prod_cases4)
  let ?ds = "integer @ fraction"
  let ?k = "length (dropWhile isZero ?ds) - length (stripZeros ?ds)"
  have v: "(of_nat (digitsVal ?ds) :: rat) = of_nat (digitsVal (stripZeros ?ds)) * 10 ^ ?k"
    using digitsVal_stripZeros[of ?ds] by (metis of_nat_mult of_nat_numeral of_nat_power)
  have scale: "of_nat (digitsVal ?ds) * (10::rat) powi (e - int (length fraction))
      = of_nat (digitsVal (stripZeros ?ds)) * 10 powi (e - int (length fraction) + int ?k)" for e
    by (simp only: v mult.assoc powi_10_split)
  show ?thesis
  proof (cases "if expo = [] then Some 0 else parseBigInt expo")
    case None
    then show ?thesis by (simp add: tokenValue_def normalizeNumber_def p malformedForm_def Let_def)
  next
    case (Some e)
    show ?thesis
    proof (cases "list_all isDigit ?ds")
      case True
      then show ?thesis
        using scale[of e]
        by (simp only: tokenValue_def normalizeNumber_def p Let_def Some formValue_def
            option.case prod.case if_True if_False not_True_eq_False not_False_eq_True
            numberNormalForm.simps mult.assoc)
    next
      case False
      then show ?thesis
        by (simp only: tokenValue_def normalizeNumber_def p Let_def Some malformedForm_def
            option.case prod.case if_True if_False not_False_eq_True numberNormalForm.simps)
    qed
  qed
qed

lemma formValue_zero_iff: "strippedDigits (digits n) \<Longrightarrow> formValue n = 0 \<longleftrightarrow> digits n = []"
  using strippedDigits_pos[of "digits n"]
  by (cases "digits n = []") (auto simp: formValue_def signOf_def)

lemma scaled_digits_exponent_le:
  fixes a b :: nat
  assumes eq: "(of_nat a :: rat) * 10 powi e = of_nat b * 10 powi f" and "\<not> 10 dvd a" and "b > 0"
  shows "f \<le> e"
proof (rule ccontr)
  assume "\<not> f \<le> e"
  then obtain k where k: "f = e + int (Suc k)" by (metis add.commute not_less zless_iff_Suc_zadd)
  have "(of_nat a :: rat) * 10 powi e = of_nat b * 10 ^ Suc k * 10 powi e"
    using eq k by (simp add: power_int_add power_int_of_nat algebra_simps)
  then have "(of_nat a :: rat) = of_nat (b * 10 ^ Suc k)" by simp
  then have "a = b * 10 ^ Suc k" by (simp only: of_nat_eq_iff)
  with \<open>\<not> 10 dvd a\<close> show False by simp
qed

lemma formValue_inject:
  assumes n: "strippedDigits (digits n)" "digits n \<noteq> []" and m: "strippedDigits (digits m)" "digits m \<noteq> []"
    and eq: "formValue n = formValue m"
  shows "negative n = negative m \<and> digits n = digits m \<and> exponent n = exponent m"
proof -
  let ?a = "digitsVal (digits n)" and ?b = "digitsVal (digits m)"
  have pos: "?a > 0" "?b > 0" using n m by (auto intro: strippedDigits_pos)
  have sign: "negative n = negative m"
  proof (rule ccontr)
    assume "negative n \<noteq> negative m"
    moreover have "(0::rat) < of_nat ?a * 10 powi exponent n" "(0::rat) < of_nat ?b * 10 powi exponent m"
      using pos by auto
    ultimately show False using eq by (auto simp: formValue_def signOf_def split: if_splits)
  qed
  then have scaled: "(of_nat ?a :: rat) * 10 powi exponent n = of_nat ?b * 10 powi exponent m"
    using eq by (auto simp: formValue_def signOf_def split: if_splits)
  have "exponent n = exponent m"
    using scaled_digits_exponent_le[OF scaled] scaled_digits_exponent_le[OF scaled[symmetric]]
      strippedDigits_not_dvd n m pos by force
  moreover from this scaled have "?a = ?b" by simp
  then have "digits n = digits m" using n m by (intro strippedDigits_inject) auto
  ultimately show ?thesis using sign by simp
qed

lemma formEquals_iff_value:
  assumes "strippedDigits (digits n)" "strippedDigits (digits m)" "\<not> malformed n" "\<not> malformed m"
  shows "formEquals n m \<longleftrightarrow> formValue n = formValue m"
proof (cases "digits n = [] \<or> digits m = []")
  case True
  with assms show ?thesis
    using formValue_zero_iff[of n] formValue_zero_iff[of m] by (auto simp: formEquals_def)
next
  case False
  with assms show ?thesis
    using formValue_inject[of n m] by (auto simp: formEquals_def formValue_def)
qed

text \<open>Two tokens of the grammar are equal exactly when they denote the same number.\<close>

lemma numbersEqual_iff_value:
  assumes "tokenValue l \<noteq> None" "tokenValue r \<noteq> None"
  shows "numbersEqual l r \<longleftrightarrow> tokenValue l = tokenValue r"
proof -
  have "\<not> malformed (normalizeNumber l)" "\<not> malformed (normalizeNumber r)"
    using assms by (auto simp: tokenValue_normalize split: if_splits)
  then show ?thesis
    using formEquals_iff_value[OF normalizeNumber_stripped normalizeNumber_stripped, of l r]
    by (auto simp: numbersEqual_def tokenValue_normalize)
qed

end
