(* ===== verification/Json_Equality.thy ===== *)
theory Json_Equality
  imports Json_Number
begin

section \<open>Equality of documents is equality of canonical documents\<close>

text \<open>
  The canonical token of a number (\<open>numberNormalForm.token\<close>) normalises back to the same normal
  form, so two tokens denote the same number exactly when their canonical tokens are the same
  bytes. Lifted to documents: \<open>jsonEqual\<close> holds exactly when the documents agree once every
  number is canonical and every object is sorted by member name. That \<open>jsonEqual\<close> is an
  equivalence, blind to member order and unchanged by \<open>canonicalNumbers\<close>, follows.
\<close>

subsection \<open>Canonical tokens\<close>

lemma digit_not_mark: "isDigit c \<Longrightarrow> \<not> isExponentMark c \<and> c \<noteq> CHR ''-'' \<and> c \<noteq> CHR ''+'' \<and> c \<noteq> CHR ''.''"
  by (auto simp: isDigit_iff isExponentMark_def)

lemma parseBigInt_natString [simp]: "parseBigInt (natString n) = Some (int n)"
proof -
  obtain c cs where s: "natString n = c # cs" by (metis natString_nonempty neq_Nil_conv)
  then have "isDigit c" using natString_digits[of n] by simp
  then show ?thesis
    using natString_digits[of n] digitsVal_natString[of n] s digit_not_mark[of c]
    by (simp add: parseBigInt_def)
qed

lemma parseBigInt_intString [simp]: "parseBigInt (intString i) = Some i"
proof (cases "i < 0")
  case True
  then show ?thesis
    using natString_digits[of "nat (- i)"] by (simp add: intString_def parseBigInt_def)
next
  case False
  then show ?thesis by (simp add: intString_def)
qed

lemma intString_nonempty [simp]: "intString i \<noteq> []"
  by (simp add: intString_def)

lemma strippedDigits_digits: "strippedDigits ds \<Longrightarrow> list_all isDigit ds"
  by (simp add: strippedDigits_def)

lemma takeWhile_digits:
  assumes "list_all isDigit ds"
  shows "takeWhile (\<lambda>c. \<not> isExponentMark c) (ds @ CHR ''e'' # rest) = ds"
    and "dropWhile (\<lambda>c. \<not> isExponentMark c) (ds @ CHR ''e'' # rest) = CHR ''e'' # rest"
    and "takeWhile (\<lambda>c. \<not> isExponentMark c) ds = ds"
    and "dropWhile (\<lambda>c. \<not> isExponentMark c) ds = []"
  using assms by (induction ds) (auto simp: digit_not_mark, auto simp: isExponentMark_def)

lemma numberParts_formToken:
  assumes "strippedDigits (digits n)" "digits n \<noteq> []"
  shows "numberParts (formToken n) =
           (negative n, digits n, [], if exponent n = 0 then [] else intString (exponent n))"
proof -
  have ds: "list_all isDigit (digits n)" using assms strippedDigits_digits by blast
  obtain c cs where c: "digits n = c # cs" using assms(2) by (metis neq_Nil_conv)
  then have "c \<noteq> CHR ''-''" using ds digit_not_mark[of c] by simp
  moreover have "CHR ''.'' \<notin> set (digits n)"
    using ds by (auto simp: list_all_iff dest!: digit_not_mark)
  ultimately show ?thesis
    using takeWhile_digits[OF ds] c
    by (auto simp: formToken_def numberParts_def Let_def cutAt_no_sep)
qed

lemma dropWhile_zero_stripped: "strippedDigits ds \<Longrightarrow> dropWhile isZero ds = ds"
  by (cases ds) (auto simp: strippedDigits_def isZero_def)

lemma stripZeros_stripped: "strippedDigits ds \<Longrightarrow> stripZeros ds = ds"
proof -
  assume h: "strippedDigits ds"
  have "dropWhile isZero (rev ds) = rev ds"
    using h by (cases ds rule: rev_cases) (auto simp: strippedDigits_def isZero_def)
  with h show ?thesis by (simp add: stripZeros_def dropWhile_zero_stripped)
qed

lemma normalizeNumber_formToken:
  assumes "strippedDigits (digits n)" "digits n \<noteq> []" "\<not> malformed n"
  shows "normalizeNumber (formToken n) = n"
  using assms strippedDigits_digits[OF assms(1)]
  by (simp add: normalizeNumber_def numberParts_formToken stripZeros_stripped dropWhile_zero_stripped)

lemma normalizeNumber_zero_token:
  "normalizeNumber ''0'' = \<lparr>negative = False, digits = [], exponent = 0, malformed = False\<rparr>"
  by (simp add: normalizeNumber_def numberParts_def isExponentMark_def cutAt_def isDigit_iff
        stripZeros_def isZero_def)

lemma formEquals_normalize_token:
  assumes "strippedDigits (digits n)" "\<not> malformed n"
  shows "formEquals (normalizeNumber (formToken n)) n"
proof (cases "digits n = []")
  case True
  with assms show ?thesis by (simp add: formToken_def normalizeNumber_zero_token formEquals_def)
next
  case False
  with assms show ?thesis by (simp add: normalizeNumber_formToken formEquals_def)
qed

lemma malformed_formToken: "strippedDigits (digits n) \<Longrightarrow> \<not> malformed n \<Longrightarrow> \<not> malformed (normalizeNumber (formToken n))"
  using formEquals_normalize_token[of n] by (auto simp: formEquals_def split: if_splits)

lemma formEquals_iff_token:
  assumes n: "strippedDigits (digits n)" "\<not> malformed n" and m: "strippedDigits (digits m)" "\<not> malformed m"
  shows "formEquals n m \<longleftrightarrow> formToken n = formToken m"
proof
  assume "formEquals n m"
  then show "formToken n = formToken m" by (auto simp: formEquals_def formToken_def Let_def split: if_splits)
next
  assume eq: "formToken n = formToken m"
  have "formEquals (normalizeNumber (formToken n)) n" "formEquals (normalizeNumber (formToken n)) m"
    using formEquals_normalize_token[OF n] formEquals_normalize_token[OF m] eq by auto
  then show "formEquals n m" by (auto simp: formEquals_def split: if_splits)
qed

definition canonicalToken :: "string \<Rightarrow> string" where
  "canonicalToken t = (let form = normalizeNumber t in if malformed form then t else formToken form)"

lemma canonicalNumbers_JNumber [simp]: "canonicalNumbers (JNumber t) = JNumber (canonicalToken t)"
  by (simp add: canonicalToken_def Let_def)

declare canonicalNumbers.simps(3) [simp del]

lemma numbersEqual_iff_canonicalToken:
  "numbersEqual l r \<longleftrightarrow> canonicalToken l = canonicalToken r"
proof -
  let ?n = "normalizeNumber l" and ?m = "normalizeNumber r"
  note st = normalizeNumber_stripped[of l] normalizeNumber_stripped[of r]
  consider "malformed ?n" "malformed ?m" | "malformed ?n" "\<not> malformed ?m"
    | "\<not> malformed ?n" "malformed ?m" | "\<not> malformed ?n" "\<not> malformed ?m" by blast
  then show ?thesis
  proof cases
    case 2
    then have "l \<noteq> formToken ?m" using malformed_formToken[OF st(2)] by auto
    with 2 show ?thesis by (auto simp: numbersEqual_def formEquals_def canonicalToken_def Let_def)
  next
    case 3
    then have "r \<noteq> formToken ?n" using malformed_formToken[OF st(1)] by auto
    with 3 show ?thesis by (auto simp: numbersEqual_def formEquals_def canonicalToken_def Let_def)
  next
    case 4
    then show ?thesis
      using formEquals_iff_token[OF st(1) _ st(2)] by (auto simp: numbersEqual_def canonicalToken_def Let_def)
  qed (auto simp: numbersEqual_def formEquals_def canonicalToken_def)
qed

lemma canonicalToken_idem [simp]: "canonicalToken (canonicalToken t) = canonicalToken t"
proof (cases "malformed (normalizeNumber t)")
  case False
  let ?n = "normalizeNumber t" let ?m = "normalizeNumber (formToken ?n)"
  have "\<not> malformed ?m" using malformed_formToken[OF normalizeNumber_stripped False] .
  moreover have "formToken ?m = formToken ?n"
    using formEquals_iff_token[OF normalizeNumber_stripped calculation normalizeNumber_stripped False]
      formEquals_normalize_token[OF normalizeNumber_stripped False] by simp
  ultimately show ?thesis using False by (simp add: canonicalToken_def)
qed (simp add: canonicalToken_def)

subsection \<open>Canonical documents\<close>

text \<open>The abstract value of a document: canonical numbers, members sorted by name.\<close>

fun normJson :: "json \<Rightarrow> json" where
  "normJson (JArray xs) = JArray (map normJson xs)"
| "normJson (JObject m) = JObject (sort_key fst (map (\<lambda>p. (fst p, normJson (snd p))) m))"
| "normJson (JNumber t) = JNumber (canonicalToken t)"
| "normJson v = v"

lemma normJson_constructor:
  "normJson v = JNull \<longleftrightarrow> v = JNull"
  "normJson v = JBool b \<longleftrightarrow> v = JBool b"
  "normJson v = JString s \<longleftrightarrow> v = JString s"
  "JNull = normJson v \<longleftrightarrow> v = JNull"
  "JBool b = normJson v \<longleftrightarrow> v = JBool b"
  "JString s = normJson v \<longleftrightarrow> v = JString s"
  by (cases v; auto)+

lemma sort_key_fst_eq_iff:
  fixes l r :: "(string \<times> 'a) list"
  assumes "distinct (map fst l)" "distinct (map fst r)"
  shows "sort_key fst l = sort_key fst r \<longleftrightarrow> set l = set r"
proof
  assume "sort_key fst l = sort_key fst r"
  then show "set l = set r" by (metis set_sort)
next
  assume eq: "set l = set r"
  have "inj_on fst (set l)" using assms(1) by (simp add: distinct_map)
  moreover have "distinct (map fst (sort_key fst l))" "distinct (map fst (sort_key fst r))"
    using assms by (metis distinct_map distinct_sort set_sort)+
  ultimately show "sort_key fst l = sort_key fst r"
    using eq by (intro map_sorted_distinct_set_unique[of fst]) auto
qed

lemma members_agree_iff:
  fixes l r :: "(string \<times> 'a) list"
  assumes dl: "distinct (map fst l)" and dr: "distinct (map fst r)"
  shows "length l = length r \<and> (\<forall>(k, v) \<in> set l. \<exists>w. map_of r k = Some w \<and> f v = f w)
         \<longleftrightarrow> set (map (\<lambda>p. (fst p, f (snd p))) l) = set (map (\<lambda>p. (fst p, f (snd p))) r)"
    (is "?L \<longleftrightarrow> set ?fl = set ?fr")
proof
  assume L: ?L
  have sub: "set ?fl \<subseteq> set ?fr"
  proof
    fix p assume "p \<in> set ?fl"
    then obtain k v where kv: "(k, v) \<in> set l" "p = (k, f v)" by auto
    with L obtain w where "map_of r k = Some w" "f v = f w" by blast
    with kv show "p \<in> set ?fr" by (force dest: map_of_SomeD)
  qed
  have "distinct (map fst ?fl)" "distinct (map fst ?fr)" using dl dr by (simp_all add: comp_def)
  then have "distinct ?fl" "distinct ?fr" using distinct_map[of fst ?fl] distinct_map[of fst ?fr] by blast+
  then have "card (set ?fl) = length ?fl" "card (set ?fr) = length ?fr"
    by (blast intro: distinct_card)+
  then have "card (set ?fl) = card (set ?fr)" using conjunct1[OF L] by (simp only: length_map)
  with sub show "set ?fl = set ?fr" by (simp add: card_subset_eq)
next
  assume eq: "set ?fl = set ?fr"
  have "fst ` set l = fst ` set r"
    using arg_cong[OF eq, of "image fst"] by (simp add: image_image)
  then have "length l = length r" using dl dr by (metis distinct_card length_map set_map)
  moreover have "\<exists>w. map_of r k = Some w \<and> f v = f w" if "(k, v) \<in> set l" for k v
  proof -
    have "(k, f v) \<in> set ?fr" using that eq by force
    then obtain w where "(k, w) \<in> set r" "f v = f w" by auto
    with dr show ?thesis by (auto intro: map_of_is_SomeI)
  qed
  ultimately show ?L by auto
qed

text \<open>The reading of \<open>jsonEqual\<close> the other components use.\<close>

lemma jsonEqual_iff_norm:
  assumes "jsonWf a" "jsonWf b"
  shows "jsonEqual a b \<longleftrightarrow> normJson a = normJson b"
  using assms
proof (induction a arbitrary: b rule: normJson.induct)
  case (1 xs)
  show ?case
  proof (cases b)
    case (JArray ys)
    have "jsonEqual x y \<longleftrightarrow> normJson x = normJson y" if "(x, y) \<in> set (zip xs ys)" for x y
    proof -
      have "x \<in> set xs" "y \<in> set ys" using that by (meson set_zip_leftD set_zip_rightD)+
      with "1" JArray show ?thesis by (simp add: list_all_iff)
    qed
    then have "list_all (\<lambda>p. jsonEqual (fst p) (snd p)) (zip xs ys)
               \<longleftrightarrow> list_all (\<lambda>p. normJson (fst p) = normJson (snd p)) (zip xs ys)"
      by (auto simp: list_all_iff)
    then show ?thesis
      by (auto simp: JArray list_eq_iff_nth_eq list_all_length)
  qed auto
next
  case (2 l)
  show ?case
  proof (cases b)
    case (JObject r)
    have IH: "jsonEqual v w \<longleftrightarrow> normJson v = normJson w"
      if "(k, v) \<in> set l" "map_of r k = Some w" for k v w
      using that "2" JObject by (force simp: list_all_iff dest: map_of_SomeD)
    have d: "distinct (map fst l)" "distinct (map fst r)" using "2.prems" JObject by auto
    have "list_all (\<lambda>p. case map_of r (fst p) of None \<Rightarrow> False | Some w \<Rightarrow> jsonEqual (snd p) w) l
      \<longleftrightarrow> (\<forall>(k, v) \<in> set l. \<exists>w. map_of r k = Some w \<and> normJson v = normJson w)"
      using IH by (fastforce simp: list_all_iff split: option.splits)
    then have "jsonEqual (JObject l) b \<longleftrightarrow>
       set (map (\<lambda>p. (fst p, normJson (snd p))) l) = set (map (\<lambda>p. (fst p, normJson (snd p))) r)"
      using members_agree_iff[OF d, of normJson] by (simp add: JObject)
    also have "\<dots> \<longleftrightarrow> normJson (JObject l) = normJson b"
      using d by (subst sort_key_fst_eq_iff[symmetric]) (auto simp: JObject comp_def)
    finally show ?thesis .
  qed auto
next
  case (3 t)
  then show ?case by (cases b) (auto simp: numbersEqual_iff_canonicalToken)
qed (auto simp: normJson_constructor split: json.splits)

lemma jsonEqual_refl: "jsonWf a \<Longrightarrow> jsonEqual a a"
  by (simp add: jsonEqual_iff_norm)

lemma jsonEqual_sym: "jsonWf a \<Longrightarrow> jsonWf b \<Longrightarrow> jsonEqual a b \<Longrightarrow> jsonEqual b a"
  by (simp add: jsonEqual_iff_norm)

lemma jsonEqual_trans:
  "jsonWf a \<Longrightarrow> jsonWf b \<Longrightarrow> jsonWf c \<Longrightarrow> jsonEqual a b \<Longrightarrow> jsonEqual b c \<Longrightarrow> jsonEqual a c"
  by (simp add: jsonEqual_iff_norm)

lemma canonicalNumbers_wf [simp]: "jsonWf (canonicalNumbers v) \<longleftrightarrow> jsonWf v"
  by (induction v rule: canonicalNumbers.induct) (auto simp: list_all_iff comp_def)

lemma normJson_canonicalNumbers [simp]: "normJson (canonicalNumbers v) = normJson v"
  by (induction v rule: canonicalNumbers.induct) (auto simp: comp_def cong: map_cong)

lemma canonicalNumbers_idem [simp]: "canonicalNumbers (canonicalNumbers v) = canonicalNumbers v"
  by (induction v rule: canonicalNumbers.induct) auto

lemma jsonEqual_canonicalNumbers:
  "jsonWf a \<Longrightarrow> jsonWf b \<Longrightarrow> jsonEqual (canonicalNumbers a) (canonicalNumbers b) \<longleftrightarrow> jsonEqual a b"
  by (simp add: jsonEqual_iff_norm)

subsection \<open>What a document means\<close>

text \<open>
  The value of a document, independent of how it is written: a number token stands for the rational it
  denotes, an object for its members in a fixed order. A token the grammar refuses stands for itself.
\<close>

datatype jsonMeaning =
    MNull
  | MBool bool
  | MString string
  | MNumber "string + rat"
  | MArray "jsonMeaning list"
  | MObject "(string \<times> jsonMeaning) list"

definition numberMeaning :: "string \<Rightarrow> string + rat" where
  "numberMeaning t = (case tokenValue t of None \<Rightarrow> Inl t | Some r \<Rightarrow> Inr r)"

fun denote :: "json \<Rightarrow> jsonMeaning" where
  "denote JNull = MNull"
| "denote (JBool b) = MBool b"
| "denote (JString s) = MString s"
| "denote (JNumber t) = MNumber (numberMeaning t)"
| "denote (JArray xs) = MArray (map denote xs)"
| "denote (JObject m) = MObject (sort_key fst (map (\<lambda>p. (fst p, denote (snd p))) m))"

lemma numbersEqual_iff_meaning: "numbersEqual l r \<longleftrightarrow> numberMeaning l = numberMeaning r"
proof (cases "tokenValue l = None \<or> tokenValue r = None")
  case True
  then have "malformed (normalizeNumber l) \<or> malformed (normalizeNumber r)"
    using tokenValue_normalize by (auto split: if_splits)
  then have "numbersEqual l r \<longleftrightarrow> l = r" by (auto simp: numbersEqual_def formEquals_def)
  with True show ?thesis by (auto simp: numberMeaning_def split: option.splits)
qed (auto simp: numberMeaning_def numbersEqual_iff_value split: option.splits)

lemma sorted_members_eq_iff:
  fixes l r :: "(string \<times> 'a) list"
  assumes "distinct (map fst l)" "distinct (map fst r)"
  shows "sort_key fst (map (\<lambda>p. (fst p, f (snd p))) l) = sort_key fst (map (\<lambda>p. (fst p, f (snd p))) r)
    \<longleftrightarrow> length l = length r \<and> (\<forall>(k, v) \<in> set l. \<exists>w. map_of r k = Some w \<and> f v = f w)"
  unfolding members_agree_iff[OF assms, of f] using assms
  by (intro sort_key_fst_eq_iff) (simp_all add: comp_def)

lemma normJson_eq_iff_denote:
  assumes "jsonWf a" "jsonWf b"
  shows "normJson a = normJson b \<longleftrightarrow> denote a = denote b"
  using assms
proof (induction a arbitrary: b rule: normJson.induct)
  case (1 xs)
  show ?case
  proof (cases b)
    case (JArray ys)
    have "normJson x = normJson y \<longleftrightarrow> denote x = denote y" if "x \<in> set xs" "y \<in> set ys" for x y
      using 1 JArray that by (simp add: list_all_iff)
    then show ?thesis by (auto simp: JArray list_eq_iff_nth_eq)
  qed auto
next
  case (2 l)
  show ?case
  proof (cases b)
    case (JObject r)
    have IH: "normJson v = normJson w \<longleftrightarrow> denote v = denote w"
      if "(k, v) \<in> set l" "map_of r k = Some w" for k v w
      using that "2" JObject by (force simp: list_all_iff dest: map_of_SomeD)
    have d: "distinct (map fst l)" "distinct (map fst r)" using "2.prems" JObject by auto
    have "(\<forall>(k, v) \<in> set l. \<exists>w. map_of r k = Some w \<and> normJson v = normJson w) \<longleftrightarrow>
        (\<forall>(k, v) \<in> set l. \<exists>w. map_of r k = Some w \<and> denote v = denote w)"
      using IH by fast
    then show ?thesis by (simp add: JObject sorted_members_eq_iff[OF d])
  qed auto
next
  case (3 t)
  show ?case
    by (cases b) (auto simp: numbersEqual_iff_canonicalToken[symmetric] numbersEqual_iff_meaning)
next
  case "4_1"
  then show ?case by (cases b) auto
next
  case "4_2"
  then show ?case by (cases b) auto
next
  case "4_3"
  then show ?case by (cases b) auto
qed

subsection \<open>Properties\<close>

text \<open>C29: \<open>jsonEqual\<close> is equality of values. Two documents are equal exactly when they denote the
  same value: numbers compare as rationals whatever their spelling, object members in any order,
  arrays element by element, and no value equals one of another type.\<close>

theorem jsonEqual_exact:
  assumes "jsonWf a" "jsonWf b"
  shows "jsonEqual a b \<longleftrightarrow> denote a = denote b"
  using assms by (simp add: jsonEqual_iff_norm normJson_eq_iff_denote)

theorem jsonEqual_exact_witness:
  "jsonEqual (JObject [(''a'', JNumber ''10''), (''b'', JNull)]) (JObject [(''b'', JNull), (''a'', JNumber ''1.0e1'')])
   \<and> \<not> jsonEqual (JNumber ''1'') (JString ''1'')"
proof -
  have "denote (JObject [(''a'', JNumber ''10''), (''b'', JNull)])
      = denote (JObject [(''b'', JNull), (''a'', JNumber ''1.0e1'')])" by code_simp
  then show ?thesis
    using jsonEqual_exact[of "JObject [(''a'', JNumber ''10''), (''b'', JNull)]"
        "JObject [(''b'', JNull), (''a'', JNumber ''1.0e1'')]"]
      jsonEqual_exact[of "JNumber ''1''" "JString ''1''"] by simp
qed

text \<open>Rewriting the numbers of a document to their canonical tokens changes no comparison: the
  result denotes the same value, is stable under a second rewriting, and two rewritten documents
  compare as the originals do.\<close>

theorem canonicalNumbers_sound:
  assumes "jsonWf a" "jsonWf b"
  shows "denote (canonicalNumbers a) = denote a \<and> canonicalNumbers (canonicalNumbers a) = canonicalNumbers a \<and>
    jsonEqual (canonicalNumbers a) (canonicalNumbers b) = jsonEqual a b"
  using assms normJson_eq_iff_denote[of "canonicalNumbers a" a]
  by (simp add: jsonEqual_canonicalNumbers)

theorem canonicalNumbers_sound_witness:
  "denote (canonicalNumbers (JArray [JNumber ''-0.50e2'', JNumber ''00x''])) =
   denote (JArray [JNumber ''-0.50e2'', JNumber ''00x''])"
  using canonicalNumbers_sound[of "JArray [JNumber ''-0.50e2'', JNumber ''00x'']" JNull] by simp

end
