(* ===== verification/Decimal.thy ===== *)
theory Decimal
  imports Json_Equality
begin

section \<open>Decimal strings\<close>

text \<open>
  The decimal half of \<open>internal/evaluation/condition.go\<close>: the grammar a value must satisfy to be
  ordered (\<open>decimalPattern\<close>), its reading as an exact number (\<open>decimalValue\<close>), the ordered
  comparison (\<open>decimalCompare\<close>), the identity key (\<open>DecimalKey\<close>) and the writer
  (\<open>DecimalString\<close>). A \<open>*big.Rat\<close> is a \<open>rat\<close>; the writer takes the numerator and denominator
  the caller's value holds, which need not be reduced. The reader is limited: \<open>SetString\<close> refuses what has
  more than a million digits after the point and is not zero. The lemmas show that the writer is exact
  and refuses exactly the numbers with no finite expansion, and that the reader reads back what was
  written up to its limit and no further.
\<close>

subsection \<open>Reading\<close>

text \<open>\<open>^-?(0|[1-9][0-9]*)(\.[0-9]+)?$\<close>\<close>

definition decimalPattern :: "string \<Rightarrow> bool" where
  "decimalPattern s =
     (let body = (if s \<noteq> [] \<and> hd s = CHR ''-'' then tl s else s);
          integer = takeWhile isDigit body;
          rest = dropWhile isDigit body
      in (integer = ''0'' \<or> integer \<noteq> [] \<and> hd integer \<noteq> CHR ''0'')
         \<and> (rest = [] \<or> hd rest = CHR ''.'' \<and> tl rest \<noteq> [] \<and> list_all isDigit (tl rest)))"

text \<open>The number a text of that grammar denotes, and the digits after its point.\<close>

definition ratOfDecimal :: "string \<Rightarrow> rat" where
  "ratOfDecimal s =
     (let neg = (s \<noteq> [] \<and> hd s = CHR ''-'');
          body = (if neg then tl s else s);
          (integer, fraction, _) = cutAt (CHR ''.'') body
      in signOf neg * of_nat (digitsVal (integer @ fraction)) / 10 ^ length fraction)"

definition fractionDigits :: "string \<Rightarrow> nat" where
  "fractionDigits s = (case cutAt (CHR ''.'') s of (_, fraction, _) \<Rightarrow> length fraction)"

text \<open>\<open>SetString\<close> itself: its scanner settles a zero mantissa first, and refuses a power of five above
  a million, which is how it counts the digits after the point.\<close>

definition ratExponentLimit :: int where "ratExponentLimit = 1000000"

definition ratSetString :: "string \<Rightarrow> rat option" where
  "ratSetString s =
     (if ratOfDecimal s \<noteq> 0 \<and> int (fractionDigits s) > ratExponentLimit then None else Some (ratOfDecimal s))"

fun decimalValue :: "json \<Rightarrow> rat option" where
  "decimalValue (JString s) = (if decimalPattern s then ratSetString s else None)"
| "decimalValue _ = None"

text \<open>\<open>factValue.Cmp(operandValue)\<close>: -1, 0 or 1, when both sides are decimals.\<close>

definition ratCmp :: "rat \<Rightarrow> rat \<Rightarrow> int" where
  "ratCmp x y = (if x < y then - 1 else if x = y then 0 else 1)"

definition decimalCompare :: "json \<Rightarrow> json \<Rightarrow> int option" where
  "decimalCompare left operand =
     (case decimalValue left of
        None \<Rightarrow> None
      | Some x \<Rightarrow> (case decimalValue operand of None \<Rightarrow> None | Some y \<Rightarrow> Some (ratCmp x y)))"

text \<open>\<open>orderedOperators\<close> and \<open>OrderedOperator\<close>.\<close>

definition OrderedOperator :: "string \<Rightarrow> bool" where
  "OrderedOperator op \<longleftrightarrow>
     op \<in> {''greater-than'', ''greater-than-or-equal'', ''less-than'', ''less-than-or-equal''}"

text \<open>\<open>big.Rat.RatString\<close>: the numerator alone when the denominator is one.\<close>

definition ratString :: "rat \<Rightarrow> string" where
  "ratString r = (let (n, d) = quotient_of r
                  in if d = 1 then intString n else intString n @ CHR ''/'' # intString d)"

definition DecimalKey :: "json \<Rightarrow> string option" where
  "DecimalKey v = map_option ratString (decimalValue v)"

subsection \<open>Writing\<close>

text \<open>The inner loop of \<open>DecimalString\<close>: divide a factor out and count how often it went.\<close>

function stripFactor :: "nat \<Rightarrow> nat \<Rightarrow> nat \<times> nat" where
  "stripFactor f d =
     (if f < 2 \<or> d = 0 \<or> d mod f \<noteq> 0 then (d, 0)
      else let (q, e) = stripFactor f (d div f) in (q, Suc e))"
  by pat_completeness auto
termination
  by (relation "measure snd") auto

declare stripFactor.simps [simp del]

definition decimalDigits :: "nat \<Rightarrow> nat \<Rightarrow> string" where
  "decimalDigits scale n =
     (let ds = natString n; padded = replicate (Suc scale - length ds) (CHR ''0'') @ ds
      in if scale = 0 then ds
         else take (length padded - scale) padded @ CHR ''.'' # drop (length padded - scale) padded)"

definition DecimalString :: "(int \<times> int) option \<Rightarrow> string option" where
  "DecimalString value =
     (case value of
        None \<Rightarrow> None
      | Some (num, den) \<Rightarrow>
          if den = 0 then None
          else let (n, d) = Rat.normalize (num, den);
                   (d1, twos) = stripFactor 2 (nat d);
                   (d2, fives) = stripFactor 5 d1;
                   scale = max twos fives
               in if d2 \<noteq> 1 then None
                  else let scaled = sgn n * (\<bar>n\<bar> * 10 ^ scale div d)
                       in Some ((if scaled < 0 then ''-'' else []) @ decimalDigits scale (nat \<bar>scaled\<bar>)))"

subsection \<open>The comparison\<close>

lemma ratCmp_simps [simp]:
  "ratCmp x y > 0 \<longleftrightarrow> x > y" "ratCmp x y \<ge> 0 \<longleftrightarrow> x \<ge> y" "ratCmp x y < 0 \<longleftrightarrow> x < y"
  "ratCmp x y \<le> 0 \<longleftrightarrow> x \<le> y" "ratCmp x y = 0 \<longleftrightarrow> x = y"
  by (auto simp: ratCmp_def)

lemma decimalCompare_Some:
  "decimalCompare a b = Some c \<longleftrightarrow>
     (\<exists>x y. decimalValue a = Some x \<and> decimalValue b = Some y \<and> c = ratCmp x y)"
  by (auto simp: decimalCompare_def split: option.splits)

lemma ratSetString_Some:
  "ratSetString s = Some x \<longleftrightarrow> x = ratOfDecimal s \<and> (x = 0 \<or> int (fractionDigits s) \<le> ratExponentLimit)"
  by (auto simp: ratSetString_def)

lemma decimalValue_string:
  "decimalValue v = Some x \<Longrightarrow> \<exists>s. v = JString s \<and> decimalPattern s \<and> x = ratOfDecimal s"
  by (cases v) (auto simp: ratSetString_Some split: if_splits)

lemma ratString_inject: "ratString r = ratString s \<Longrightarrow> r = s"
proof -
  have slash: "CHR ''/'' \<notin> set (intString i)" for i
    using natString_digits[of "nat \<bar>i\<bar>"] natString_digits[of "nat (- i)"] natString_digits[of "nat i"]
    by (auto simp: intString_def list_all_iff isDigit_iff)
  assume eq: "ratString r = ratString s"
  obtain n d m e where q: "quotient_of r = (n, d)" "quotient_of s = (m, e)" by (meson surj_pair)
  have "n = m \<and> d = e"
  proof (cases "d = 1"; cases "e = 1")
    assume "d \<noteq> 1" "e \<noteq> 1"
    then have "intString n @ CHR ''/'' # intString d = intString m @ CHR ''/'' # intString e"
      using eq q by (simp add: ratString_def)
    then have "cutAt (CHR ''/'') (intString n @ CHR ''/'' # intString d) =
               cutAt (CHR ''/'') (intString m @ CHR ''/'' # intString e)" by simp
    then show ?thesis by (simp add: cutAt_append slash)
  next
    assume "d = 1" "e \<noteq> 1"
    then have "intString n = intString m @ CHR ''/'' # intString e" using eq q by (simp add: ratString_def)
    then show ?thesis using slash[of n] by simp
  next
    assume "d \<noteq> 1" "e = 1"
    then have "intString m = intString n @ CHR ''/'' # intString d" using eq q by (simp add: ratString_def)
    then show ?thesis using slash[of m] by simp
  qed (use eq q in \<open>simp add: ratString_def\<close>)
  then show "r = s" using q by (metis quotient_of_inject)
qed

lemma DecimalKey_eq_iff:
  assumes "DecimalKey a = Some k" "DecimalKey b = Some l"
  shows "k = l \<longleftrightarrow> decimalCompare a b = Some 0"
  using assms by (auto simp: DecimalKey_def decimalCompare_def dest: ratString_inject)

subsection \<open>The writer and the reader are inverses\<close>

lemma stripFactor_spec:
  assumes "2 \<le> f" "0 < d" "stripFactor f d = (q, e)"
  shows "d = f ^ e * q \<and> \<not> f dvd q"
  using assms
proof (induction f d arbitrary: q e rule: stripFactor.induct)
  case (1 f d)
  show ?case
  proof (cases "d mod f = 0")
    case False
    with "1.prems" show ?thesis by (auto simp: stripFactor.simps[of f d] dvd_eq_mod_eq_0)
  next
    case True
    obtain q' e' where r: "stripFactor f (d div f) = (q', e')" by (meson surj_pair)
    have "0 < d div f" using True "1.prems" by (auto simp: div_eq_0_iff dest: mod_less)
    then have "d div f = f ^ e' * q' \<and> \<not> f dvd q'" using True "1.prems" r
      by (intro "1.IH") auto
    moreover have "d = f * (d div f)" using True by auto
    moreover have "q = q'" "e = Suc e'" using True "1.prems" r by (auto simp: stripFactor.simps[of f d])
    ultimately show ?thesis by (metis mult.assoc power_Suc)
  qed
qed

lemma dvd_5: "g dvd (5::nat) \<Longrightarrow> g = 1 \<or> g = 5"
proof -
  assume g: "g dvd 5"
  then have "g \<le> 5" by (simp add: dvd_imp_le)
  then have "g = 0 \<or> g = 1 \<or> g = 2 \<or> g = 3 \<or> g = 4 \<or> g = 5" by auto
  then show ?thesis using g by (elim disjE) simp_all
qed

lemma coprime_5: "\<not> 5 dvd (d::nat) \<Longrightarrow> coprime d 5"
  using dvd_5[of "gcd d 5"] by (metis coprime_iff_gcd_eq_1 gcd_dvd1 gcd_dvd2)

text \<open>What the two loops leave of a denominator, and the scale they settle on.\<close>

lemma decimal_scale:
  fixes d :: nat
  assumes d: "0 < d" and s2: "stripFactor 2 d = (d1, a)" and s5: "stripFactor 5 d1 = (d2, b)"
  shows "d = 2 ^ a * 5 ^ b * d2"
    and "d2 = 1 \<Longrightarrow> d dvd 10 ^ k \<longleftrightarrow> max a b \<le> k"
    and "d2 \<noteq> 1 \<Longrightarrow> \<not> d dvd 10 ^ k"
proof -
  have 2: "d = 2 ^ a * d1" "\<not> 2 dvd d1" using stripFactor_spec[OF _ d s2] by auto
  then have d1: "0 < d1" using d by (cases "d1 = 0") auto
  have 5: "d1 = 5 ^ b * d2" "\<not> 5 dvd d2" using stripFactor_spec[OF _ d1 s5] by auto
  show eq: "d = 2 ^ a * 5 ^ b * d2" using 2 5 by (simp add: mult.assoc)
  have odd: "\<not> 2 dvd d2" using 2 5 by auto
  have ten: "(10::nat) ^ k = 2 ^ k * 5 ^ k" by (simp flip: power_mult_distrib)
  show "d dvd 10 ^ k \<longleftrightarrow> max a b \<le> k" if "d2 = 1"
  proof
    assume "d dvd 10 ^ k"
    then have "2 ^ a dvd (2::nat) ^ k * 5 ^ k" "5 ^ b dvd (2::nat) ^ k * 5 ^ k"
      using eq that ten by (auto elim: dvd_trans[rotated])
    moreover have "coprime ((2::nat) ^ a) (5 ^ k)" "coprime ((5::nat) ^ b) (2 ^ k)"
      using coprime_5[of 2] by (simp_all add: coprime_commute)
    ultimately have "(2::nat) ^ a dvd 2 ^ k" "(5::nat) ^ b dvd 5 ^ k"
      by (metis coprime_dvd_mult_left_iff, metis coprime_dvd_mult_right_iff)
    then show "max a b \<le> k" by (simp add: power_dvd_imp_le)
  next
    assume "max a b \<le> k"
    then have "(2::nat) ^ a dvd 2 ^ k" "(5::nat) ^ b dvd 5 ^ k" by (auto intro: le_imp_power_dvd)
    then show "d dvd 10 ^ k" using eq that ten by (simp add: mult_dvd_mono)
  qed
  show "\<not> d dvd 10 ^ k" if "d2 \<noteq> 1"
  proof
    assume "d dvd 10 ^ k"
    then have "d2 dvd (2::nat) ^ k * 5 ^ k" using eq ten by (metis dvd_mult_right mult.commute)
    moreover have "coprime d2 (2 ^ k)" "coprime d2 (5 ^ k)"
      using odd coprime_5[OF 5(2)] by (simp_all add: coprime_right_2_iff_odd)
    ultimately have "is_unit d2" by (metis coprime_common_divisor coprime_mult_right_iff dvd_refl)
    with that show False by simp
  qed
qed

text \<open>A spelling of the grammar, read part by part.\<close>

definition wholePart :: "string \<Rightarrow> bool" where
  "wholePart ds \<longleftrightarrow> ds \<noteq> [] \<and> list_all isDigit ds \<and> (ds = ''0'' \<or> hd ds \<noteq> CHR ''0'')"

lemma takeWhile_all_digits:
  assumes "list_all isDigit ds"
  shows "takeWhile isDigit (ds @ CHR ''.'' # rest) = ds"
    and "dropWhile isDigit (ds @ CHR ''.'' # rest) = CHR ''.'' # rest"
    and "takeWhile isDigit ds = ds" and "dropWhile isDigit ds = []"
  using assms by (induction ds) (auto simp: isDigit_iff)

lemma digits_no_dot: "list_all isDigit ds \<Longrightarrow> CHR ''.'' \<notin> set ds"
  by (auto simp: list_all_iff isDigit_iff)

lemma wholePart_head: "wholePart ds \<Longrightarrow> hd ds \<noteq> CHR ''-''"
  by (cases ds) (auto simp: wholePart_def isDigit_iff)

lemma read_whole:
  assumes "wholePart ds"
  shows "decimalPattern ((if neg then ''-'' else []) @ ds)"
    and "ratOfDecimal ((if neg then ''-'' else []) @ ds) = signOf neg * of_nat (digitsVal ds)"
proof -
  have ds: "list_all isDigit ds" "ds \<noteq> []" "ds = ''0'' \<or> hd ds \<noteq> CHR ''0''"
    using assms by (auto simp: wholePart_def)
  note t = takeWhile_all_digits(3,4)[OF ds(1)]
  show "decimalPattern ((if neg then ''-'' else []) @ ds)"
    using ds wholePart_head[OF assms] by (auto simp: decimalPattern_def t list_all_iff)
  show "ratOfDecimal ((if neg then ''-'' else []) @ ds) = signOf neg * of_nat (digitsVal ds)"
    using ds wholePart_head[OF assms] digits_no_dot[OF ds(1)]
    by (simp add: ratOfDecimal_def cutAt_no_sep)
qed

lemma read_fraction:
  assumes "wholePart ds" "list_all isDigit fs" "fs \<noteq> []"
  shows "decimalPattern ((if neg then ''-'' else []) @ ds @ CHR ''.'' # fs)"
    and "ratOfDecimal ((if neg then ''-'' else []) @ ds @ CHR ''.'' # fs)
         = signOf neg * of_nat (digitsVal (ds @ fs)) / 10 ^ length fs"
proof -
  have ds: "list_all isDigit ds" "ds \<noteq> []" "ds = ''0'' \<or> hd ds \<noteq> CHR ''0''"
    using assms by (auto simp: wholePart_def)
  note t = takeWhile_all_digits(1,2)[OF ds(1)]
  show "decimalPattern ((if neg then ''-'' else []) @ ds @ CHR ''.'' # fs)"
    using ds assms(2,3) wholePart_head[OF assms(1)] by (auto simp: decimalPattern_def t)
  show "ratOfDecimal ((if neg then ''-'' else []) @ ds @ CHR ''.'' # fs)
         = signOf neg * of_nat (digitsVal (ds @ fs)) / 10 ^ length fs"
    using ds wholePart_head[OF assms(1)] digits_no_dot[OF ds(1)]
    by (simp add: ratOfDecimal_def cutAt_append)
qed

lemma digitsVal_replicate_zero [simp]: "digitsVal (replicate k (CHR ''0'') @ ds) = digitsVal ds"
  by (induction k) (simp_all add: digitsVal_Cons)

lemma wholePart_natString: "wholePart (natString n)"
  using natString_digits[of n] natString_head[of n] natString_0
  by (cases "n = 0") (auto simp: wholePart_def)

lemma wholePart_take:
  assumes "wholePart ds" "ds \<noteq> ''0''" "0 < k" shows "wholePart (take k ds)"
  using assms by (cases ds; cases k) (auto simp: wholePart_def list_all_iff dest: in_set_takeD)

lemma natString_zero_iff [simp]: "natString n = ''0'' \<longleftrightarrow> n = 0"
  by (metis natString_0 natString_inject)

lemma padded_parts:
  fixes n scale :: nat
  defines "ds \<equiv> natString n"
  defines "padded \<equiv> replicate (Suc scale - length ds) (CHR ''0'') @ ds"
  assumes "0 < scale"
  shows "wholePart (take (length padded - scale) padded)"
    and "list_all isDigit (drop (length padded - scale) padded)"
    and "length (drop (length padded - scale) padded) = scale"
    and "digitsVal padded = n"
proof -
  have all: "list_all isDigit padded"
    using natString_digits[of n] by (auto simp: padded_def ds_def list_all_iff isDigit_iff)
  show "wholePart (take (length padded - scale) padded)"
  proof (cases "length ds < Suc scale")
    case True
    then have "take (length padded - scale) padded = ''0''"
      by (simp add: padded_def Suc_diff_le take_Cons')
    then show ?thesis by (simp add: wholePart_def isDigit_iff)
  next
    case False
    then have p: "padded = ds" by (simp add: padded_def)
    have "ds \<noteq> ''0''" using False assms(3) by auto
    with False show ?thesis unfolding p
      by (intro wholePart_take) (auto simp: ds_def wholePart_natString)
  qed
  show "list_all isDigit (drop (length padded - scale) padded)"
    using all by (auto simp: list_all_iff dest: in_set_dropD)
  show "length (drop (length padded - scale) padded) = scale" by (simp add: padded_def)
  show "digitsVal padded = n" by (simp add: padded_def ds_def)
qed

lemma fractionDigits_parts:
  "list_all isDigit ds \<Longrightarrow> fractionDigits ((if neg then ''-'' else []) @ ds) = 0"
  "list_all isDigit ds \<Longrightarrow> fractionDigits ((if neg then ''-'' else []) @ ds @ CHR ''.'' # fs) = length fs"
  using digits_no_dot[of ds] cutAt_append[of "CHR ''.''" "CHR ''-'' # ds" fs]
  by (auto simp: fractionDigits_def cutAt_no_sep cutAt_append)

lemma read_decimalDigits:
  shows "decimalPattern ((if neg then ''-'' else []) @ decimalDigits scale n)"
    and "ratOfDecimal ((if neg then ''-'' else []) @ decimalDigits scale n)
         = signOf neg * of_nat n / 10 ^ scale"
    and "fractionDigits ((if neg then ''-'' else []) @ decimalDigits scale n) = scale"
proof -
  have "decimalPattern ((if neg then ''-'' else []) @ decimalDigits scale n)
        \<and> ratOfDecimal ((if neg then ''-'' else []) @ decimalDigits scale n)
          = signOf neg * of_nat n / 10 ^ scale
        \<and> fractionDigits ((if neg then ''-'' else []) @ decimalDigits scale n) = scale"
  proof (cases "scale = 0")
    case True
    then show ?thesis
      using read_whole[OF wholePart_natString, of neg n] fractionDigits_parts(1)[OF natString_digits, of neg n]
      by (simp add: decimalDigits_def)
  next
    case False
    then have s: "0 < scale" by simp
    let ?p = "replicate (Suc scale - length (natString n)) (CHR ''0'') @ natString n"
    let ?k = "length ?p - scale"
    note parts = padded_parts[OF s, of n]
    have ne: "drop ?k ?p \<noteq> []" using parts(3) s by force
    have whole: "list_all isDigit (take ?k ?p)" using parts(1) by (simp add: wholePart_def)
    have "decimalDigits scale n = take ?k ?p @ CHR ''.'' # drop ?k ?p"
      using s by (simp add: decimalDigits_def Let_def)
    moreover have "digitsVal (take ?k ?p @ drop ?k ?p) = n" using parts(4) by (simp only: append_take_drop_id)
    ultimately show ?thesis
      using read_fraction[OF parts(1,2) ne, of neg] fractionDigits_parts(2)[OF whole, of neg "drop ?k ?p"] parts(3)
      by (simp only:)
  qed
  then show "decimalPattern ((if neg then ''-'' else []) @ decimalDigits scale n)"
    and "ratOfDecimal ((if neg then ''-'' else []) @ decimalDigits scale n)
         = signOf neg * of_nat n / 10 ^ scale"
    and "fractionDigits ((if neg then ''-'' else []) @ decimalDigits scale n) = scale" by blast+
qed

text \<open>What \<open>DecimalString\<close> computes, unfolded once.\<close>

lemma DecimalString_cases:
  assumes "den \<noteq> 0" and norm: "Rat.normalize (num, den) = (n, d)"
    and s2: "stripFactor 2 (nat d) = (d1, a)" and s5: "stripFactor 5 d1 = (d2, b)"
  shows "DecimalString (Some (num, den)) =
    (if d2 \<noteq> 1 then None
     else let scaled = sgn n * (\<bar>n\<bar> * 10 ^ max a b div d)
          in Some ((if scaled < 0 then ''-'' else []) @ decimalDigits (max a b) (nat \<bar>scaled\<bar>)))"
  using assms by (simp add: DecimalString_def Let_def)

lemma normalize_facts:
  assumes "den \<noteq> 0" "Rat.normalize (num, den) = (n, d)"
  shows "0 < d" and "coprime n d" and "Fract num den = Fract n d"
  using assms normalize_denom_pos normalize_coprime normalize_eq by (metis, metis, metis)

lemma scaled_value:
  fixes n d :: int
  assumes d: "0 < d" and dvd: "d dvd 10 ^ k"
  defines "scaled \<equiv> sgn n * (\<bar>n\<bar> * 10 ^ k div d)"
  shows "scaled * d = n * 10 ^ k" and "scaled < 0 \<longleftrightarrow> n < 0"
proof -
  obtain c where c: "(10::int) ^ k = d * c" using dvd by blast
  then have cpos: "0 < c" using d by (metis zero_less_mult_pos zero_less_numeral zero_less_power)
  have s: "scaled = n * c"
    using d by (simp add: scaled_def c mult.left_commute[of _ d] sgn_mult_abs flip: mult.assoc)
  show "scaled * d = n * 10 ^ k" by (simp add: s c)
  show "scaled < 0 \<longleftrightarrow> n < 0" using cpos by (simp add: s mult_less_0_iff)
qed

text \<open>When a power of ten makes a reduced fraction whole.\<close>

lemma scaled_whole_iff:
  assumes "den \<noteq> 0" "Rat.normalize (num, den) = (n, d)"
  shows "Fract num den * 10 ^ k \<in> \<int> \<longleftrightarrow> nat d dvd 10 ^ k"
proof -
  note facts = normalize_facts[OF assms]
  have q: "Fract num den * 10 ^ k = of_int (n * 10 ^ k) / of_int d"
    using facts(3) by (simp add: Fract_of_int_quotient)
  have "(of_int (n * 10 ^ k) / of_int d :: rat) \<in> \<int> \<longleftrightarrow> d dvd n * 10 ^ k"
  proof
    assume "(of_int (n * 10 ^ k) / of_int d :: rat) \<in> \<int>"
    then obtain z where "(of_int (n * 10 ^ k) / of_int d :: rat) = of_int z" by (auto elim: Ints_cases)
    then have "(of_int (n * 10 ^ k) :: rat) = of_int (z * d)" using facts(1) by (simp add: field_simps)
    then show "d dvd n * 10 ^ k" by (simp only: of_int_eq_iff) simp
  next
    assume "d dvd n * 10 ^ k"
    then obtain c where c: "n * 10 ^ k = d * c" by blast
    show "(of_int (n * 10 ^ k) / of_int d :: rat) \<in> \<int>"
      unfolding c using facts(1) by simp
  qed
  also have "d dvd n * 10 ^ k \<longleftrightarrow> d dvd 10 ^ k"
    using facts(2) by (simp add: coprime_commute coprime_dvd_mult_right_iff)
  also have "\<dots> \<longleftrightarrow> nat d dvd 10 ^ k"
    using facts(1) by (metis int_dvd_int_iff int_nat_eq of_nat_numeral of_nat_power order_less_imp_le)
  finally show ?thesis by (simp only: q)
qed

text \<open>What the writer writes: a text of the grammar that denotes the number, at the fewest digits.\<close>

lemma DecimalString_denotes:
  assumes out: "DecimalString (Some (num, den)) = Some s"
  shows "decimalPattern s" and "ratOfDecimal s = Fract num den"
    and "Fract num den * 10 ^ k \<in> \<int> \<longleftrightarrow> fractionDigits s \<le> k"
proof -
  have den: "den \<noteq> 0" using out by (auto simp: DecimalString_def)
  obtain n d where nd: "Rat.normalize (num, den) = (n, d)" by (meson surj_pair)
  note facts = normalize_facts[OF den nd]
  obtain d1 a where s2: "stripFactor 2 (nat d) = (d1, a)" by (meson surj_pair)
  obtain d2 b where s5: "stripFactor 5 d1 = (d2, b)" by (meson surj_pair)
  let ?k = "max a b"
  define scaled where "scaled = sgn n * (\<bar>n\<bar> * 10 ^ ?k div d)"
  have dpos: "0 < nat d" using facts by simp
  from out DecimalString_cases[OF den nd s2 s5]
  have d2: "d2 = 1" and s: "s = (if scaled < 0 then ''-'' else []) @ decimalDigits ?k (nat \<bar>scaled\<bar>)"
    by (auto simp: scaled_def Let_def split: if_splits)
  have "nat d dvd 10 ^ ?k" using decimal_scale(2)[OF dpos s2 s5 d2, of ?k] by simp
  then have "int (nat d) dvd int (10 ^ ?k)" by (simp only: int_dvd_int_iff)
  then have "d dvd 10 ^ ?k" using facts(1) by simp
  note sv = scaled_value[OF facts(1) this, of n, folded scaled_def]
  have read: "ratOfDecimal s = signOf (scaled < 0) * of_nat (nat \<bar>scaled\<bar>) / 10 ^ ?k" "fractionDigits s = ?k"
    and pat: "decimalPattern s"
    unfolding s by (rule read_decimalDigits)+
  then have "ratOfDecimal s = of_int scaled / 10 ^ ?k" by (auto simp: signOf_def)
  also have "\<dots> = of_int n / of_int d"
    using sv(1) facts(1) by (simp add: frac_eq_eq) (metis mult.commute of_int_mult of_int_numeral of_int_power)
  also have "\<dots> = Fract num den" using facts(3) by (simp add: Fract_of_int_quotient)
  finally show "ratOfDecimal s = Fract num den" .
  show "decimalPattern s" by (rule pat)
  show "Fract num den * 10 ^ k \<in> \<int> \<longleftrightarrow> fractionDigits s \<le> k"
    using scaled_whole_iff[OF den nd] decimal_scale(2)[OF dpos s2 s5 d2] read(2) by simp
qed

lemma DecimalString_reads_back:
  assumes "DecimalString (Some (num, den)) = Some s"
  shows "decimalValue (JString s) =
    (if Fract num den = 0 \<or> int (fractionDigits s) \<le> ratExponentLimit then Some (Fract num den) else None)"
  using DecimalString_denotes(1,2)[OF assms] by (auto simp: ratSetString_def)

text \<open>It refuses exactly the numbers no finite decimal expansion denotes.\<close>

lemma DecimalString_refuses_iff:
  assumes den: "den \<noteq> 0"
  shows "DecimalString (Some (num, den)) = None \<longleftrightarrow> \<not> (\<exists>k. Fract num den * 10 ^ k \<in> \<int>)"
proof -
  obtain n d where nd: "Rat.normalize (num, den) = (n, d)" by (meson surj_pair)
  obtain d1 a where s2: "stripFactor 2 (nat d) = (d1, a)" by (meson surj_pair)
  obtain d2 b where s5: "stripFactor 5 d1 = (d2, b)" by (meson surj_pair)
  have dpos: "0 < nat d" using normalize_facts[OF den nd] by simp
  have "DecimalString (Some (num, den)) = None \<longleftrightarrow> d2 \<noteq> 1"
    using DecimalString_cases[OF den nd s2 s5] by (simp add: Let_def)
  also have "\<dots> \<longleftrightarrow> \<not> (\<exists>k. nat d dvd 10 ^ k)"
    using decimal_scale(2,3)[OF dpos s2 s5] by blast
  finally show ?thesis by (simp only: scaled_whole_iff[OF den nd])
qed

text \<open>So the writer goes further than the reader: the number \<open>1/10^n\<close> has a spelling for every \<open>n\<close>, and
  above the limit of the reader that spelling is no decimal to it.\<close>

lemma DecimalString_beyond_reader:
  assumes "ratExponentLimit < int n"
  obtains s where "DecimalString (Some (1, 10 ^ n)) = Some s" "decimalPattern s" "decimalValue (JString s) = None"
proof -
  let ?q = "Fract 1 (10 ^ n)"
  have q: "?q = 1 / 10 ^ n" by (simp add: Fract_of_int_quotient)
  have "?q * 10 ^ n \<in> \<int>" by (simp add: q)
  with DecimalString_refuses_iff[of "10 ^ n" 1] obtain s where s: "DecimalString (Some (1, 10 ^ n)) = Some s" by fastforce
  note d = DecimalString_denotes[OF s]
  have "n \<le> k" if "?q * 10 ^ k \<in> \<int>" for k
  proof (rule ccontr)
    assume "\<not> n \<le> k"
    then obtain j where j: "n = k + Suc j" by (metis add_Suc_right less_imp_Suc_add not_le)
    have "?q * 10 ^ k = 1 / 10 ^ Suc j" unfolding q by (simp add: j power_add)
    moreover have "(1::rat) < 10 ^ Suc j" by (rule one_less_power) simp_all
    ultimately have "0 < ?q * 10 ^ k" "?q * 10 ^ k < 1" by (simp_all del: power_Suc)
    with that show False by (metis Ints_cases of_int_0_less_iff of_int_less_1_iff int_one_le_iff_zero_less not_less)
  qed
  with d(3)[of "fractionDigits s"] have "n \<le> fractionDigits s" by simp
  moreover have "?q \<noteq> 0" by (simp add: q)
  ultimately show thesis using that[OF s d(1)] DecimalString_reads_back[OF s] assms by simp
qed

subsection \<open>Properties\<close>

text \<open>C30: \<open>DecimalString\<close> is exact. It refuses exactly the fractions no finite decimal expansion
  denotes, reduced or not. What it writes is a text of the decimal grammar that denotes the number, at
  the fewest digits after the point that do; and \<open>DecimalValue\<close> reads that number back, unless it is
  not zero and takes more than a million such digits, when it reads nothing.\<close>

theorem DecimalString_exact:
  assumes "den \<noteq> 0"
  shows "case DecimalString (Some (num, den)) of
      Some s \<Rightarrow> decimalPattern s \<and> ratOfDecimal s = Fract num den \<and>
        (\<forall>k. (Fract num den * 10 ^ k \<in> \<int>) = (fractionDigits s \<le> k)) \<and>
        decimalValue (JString s) =
          (if Fract num den = 0 \<or> int (fractionDigits s) \<le> 1000000 then Some (Fract num den) else None)
    | None \<Rightarrow> \<not> (\<exists>k. Fract num den * 10 ^ k \<in> \<int>)"
proof (cases "DecimalString (Some (num, den))")
  case None
  then show ?thesis using DecimalString_refuses_iff[OF assms, of num] by simp
next
  case (Some s)
  from DecimalString_denotes[OF Some] DecimalString_reads_back[OF Some] Some show ?thesis
    by (simp add: ratExponentLimit_def)
qed

theorem DecimalString_exact_witness:
  "decimalValue (JString ''-0.05'') = Some (Fract (- 3) 60) \<and> (Fract (- 3) 60 :: rat) * 10 ^ 2 \<in> \<int>"
proof -
  have s: "DecimalString (Some (- 3, 60)) = Some ''-0.05''" "fractionDigits ''-0.05'' = 2" by code_simp+
  with DecimalString_exact[of 60 "- 3"] show ?thesis by (simp only: option.case) simp
qed

text \<open>Two decimal strings have the same identity key exactly when the ordered comparison calls
  them equal, so keyed grouping and comparison never disagree.\<close>

theorem DecimalKey_identity:
  assumes "decimalValue a = Some x" "decimalValue b = Some y"
  shows "(DecimalKey a = DecimalKey b \<longleftrightarrow> decimalCompare a b = Some 0) \<and>
    decimalCompare a b = Some (if x < y then - 1 else if x = y then 0 else 1)"
  using assms DecimalKey_eq_iff[of a "ratString x" b "ratString y"]
  by (simp add: DecimalKey_def decimalCompare_def ratCmp_def)

theorem DecimalKey_identity_witness:
  "DecimalKey (JString ''1.50'') = DecimalKey (JString ''1.5'')"
proof -
  have "decimalValue (JString ''1.50'') = Some (3 / 2)" "decimalValue (JString ''1.5'') = Some (3 / 2)"
    by code_simp+
  from DecimalKey_identity[OF this] show ?thesis by simp
qed

end
