(* ===== verification/Utf8.thy ===== *)
theory Utf8
  imports Prelude
begin

section \<open>UTF-8 strings as the code reads them\<close>

text \<open>
  Go's reading of a string as runes (\<open>for _, r := range s\<close>, \<open>[]rune(s)\<close>), its writing of a rune
  (\<open>strings.Builder.WriteRune\<close>), \<open>utf8.ValidString\<close> and \<open>utf16.Encode\<close>, on byte strings. A byte that
  starts no well-formed sequence reads as U+FFFD and advances one byte, as the language says.
\<close>

abbreviation runeError :: nat where "runeError \<equiv> 65533"

abbreviation byteOf :: "char \<Rightarrow> nat" where "byteOf c \<equiv> of_char c"

definition between :: "nat \<Rightarrow> nat \<Rightarrow> nat \<Rightarrow> bool" where
  "between lo hi b \<longleftrightarrow> lo \<le> b \<and> b \<le> hi"

text \<open>The range of the second byte, which excludes overlong forms and surrogates.\<close>

definition secondLow :: "nat \<Rightarrow> nat" where
  "secondLow b0 = (if b0 = 224 then 160 else if b0 = 240 then 144 else 128)"

definition secondHigh :: "nat \<Rightarrow> nat" where
  "secondHigh b0 = (if b0 = 237 then 159 else if b0 = 244 then 143 else 191)"

text \<open>One step of the range loop: the rune and the bytes it advances.\<close>

definition decodeRune :: "string \<Rightarrow> nat \<times> nat" where
  "decodeRune s =
     (case s of
        [] \<Rightarrow> (runeError, 0)
      | c0 # r0 \<Rightarrow>
        (let b0 = byteOf c0 in
         if b0 < 128 then (b0, 1)
         else if between 194 223 b0 then
           (case r0 of
              c1 # _ \<Rightarrow> if between 128 191 (byteOf c1)
                        then ((b0 mod 32) * 64 + byteOf c1 mod 64, 2) else (runeError, 1)
            | _ \<Rightarrow> (runeError, 1))
         else if between 224 239 b0 then
           (case r0 of
              c1 # c2 # _ \<Rightarrow>
                if between (secondLow b0) (secondHigh b0) (byteOf c1) \<and> between 128 191 (byteOf c2)
                then ((b0 mod 16) * 4096 + (byteOf c1 mod 64) * 64 + byteOf c2 mod 64, 3)
                else (runeError, 1)
            | _ \<Rightarrow> (runeError, 1))
         else if between 240 244 b0 then
           (case r0 of
              c1 # c2 # c3 # _ \<Rightarrow>
                if between (secondLow b0) (secondHigh b0) (byteOf c1)
                   \<and> between 128 191 (byteOf c2) \<and> between 128 191 (byteOf c3)
                then ((b0 mod 8) * 262144 + (byteOf c1 mod 64) * 4096 + (byteOf c2 mod 64) * 64
                      + byteOf c3 mod 64, 4)
                else (runeError, 1)
            | _ \<Rightarrow> (runeError, 1))
         else (runeError, 1)))"

lemma decodeRune_width: "s \<noteq> [] \<Longrightarrow> 0 < snd (decodeRune s)"
  by (auto simp: decodeRune_def Let_def split: list.splits)

function runes :: "string \<Rightarrow> nat list" where
  "runes s = (if s = [] then [] else fst (decodeRune s) # runes (drop (snd (decodeRune s)) s))"
  by pat_completeness auto
termination
  by (relation "measure length") (auto intro!: diff_less simp: decodeRune_width)

declare runes.simps [simp del]

function validUtf8 :: "string \<Rightarrow> bool" where
  "validUtf8 s = (if s = [] then True
                  else decodeRune s \<noteq> (runeError, 1) \<and> validUtf8 (drop (snd (decodeRune s)) s))"
  by pat_completeness auto
termination
  by (relation "measure length") (auto intro!: diff_less simp: decodeRune_width)

declare validUtf8.simps [simp del]

text \<open>The Unicode scalar values.\<close>

definition scalar :: "nat \<Rightarrow> bool" where
  "scalar r \<longleftrightarrow> r < 55296 \<or> between 57344 1114111 r"

definition encodeScalar :: "nat \<Rightarrow> string" where
  "encodeScalar r =
     (if r < 128 then [char_of r]
      else if r < 2048 then [char_of (192 + r div 64), char_of (128 + r mod 64)]
      else if r < 65536 then
        [char_of (224 + r div 4096), char_of (128 + r div 64 mod 64), char_of (128 + r mod 64)]
      else [char_of (240 + r div 262144), char_of (128 + r div 4096 mod 64),
            char_of (128 + r div 64 mod 64), char_of (128 + r mod 64)])"

text \<open>\<open>WriteRune\<close>: anything that is no scalar value is written as U+FFFD.\<close>

definition encodeRune :: "nat \<Rightarrow> string" where
  "encodeRune r = encodeScalar (if scalar r then r else runeError)"

definition utf16Rune :: "nat \<Rightarrow> nat list" where
  "utf16Rune r =
     (if r < 55296 \<or> 57344 \<le> r \<and> r < 65536 then [r]
      else if 65536 \<le> r \<and> r \<le> 1114111
      then [55296 + (r - 65536) div 1024, 56320 + (r - 65536) mod 1024]
      else [runeError])"

text \<open>\<open>utf16.Encode([]rune(s))\<close>.\<close>

definition utf16Units :: "string \<Rightarrow> nat list" where
  "utf16Units s = concat (map utf16Rune (runes s))"

subsection \<open>One rune there and back\<close>

lemma byteOf_lt [simp]: "byteOf c < 256"
  by (metis of_char_mod_256 mod_less_divisor zero_less_numeral)

lemma byteOf_char_of [simp]: "n < 256 \<Longrightarrow> byteOf (char_of n) = n"
  by simp

lemma char_of_byteOf_eq: "byteOf c = n \<Longrightarrow> char_of n = c"
  by (metis char_of_char)

lemma base64:
  fixes x y :: nat assumes "y < 64"
  shows "(x * 64 + y) div 64 = x" "(x * 64 + y) mod 64 = y"
  using assms by auto

lemma encode2:
  assumes "between 194 223 b0" "between 128 191 b1"
  defines "r \<equiv> (b0 mod 32) * 64 + b1 mod 64"
  shows "128 \<le> r" "r < 2048" "192 + r div 64 = b0" "128 + r mod 64 = b1"
proof -
  define x where "x = b0 - 192" define y where "y = b1 - 128"
  have b: "b0 = 192 + x" "b1 = 128 + y" "2 \<le> x" "x < 32" "y < 64"
    using assms(1,2) by (auto simp: x_def y_def between_def)
  then have r: "r = x * 64 + y" by (simp add: r_def mod_add_left_eq[symmetric])
  show "128 \<le> r" "r < 2048" "192 + r div 64 = b0" "128 + r mod 64 = b1" using b by (auto simp: r)
qed

lemma encode3:
  assumes "between 224 239 b0" "between (secondLow b0) (secondHigh b0) b1" "between 128 191 b2"
  defines "r \<equiv> (b0 mod 16) * 4096 + (b1 mod 64) * 64 + b2 mod 64"
  shows "2048 \<le> r" "r < 65536" "scalar r" "224 + r div 4096 = b0" "128 + r div 64 mod 64 = b1"
    "128 + r mod 64 = b2"
proof -
  define x where "x = b0 - 224" define y where "y = b1 - 128" define z where "z = b2 - 128"
  have b: "b0 = 224 + x" "b1 = 128 + y" "b2 = 128 + z" "x < 16" "y < 64" "z < 64"
      "x = 0 \<Longrightarrow> 32 \<le> y" "x = 13 \<Longrightarrow> y < 32"
    using assms(1-3) by (auto simp: x_def y_def z_def between_def secondLow_def secondHigh_def split: if_splits)
  then have r: "r = x * 4096 + y * 64 + z" by (simp add: r_def mod_add_left_eq[symmetric])
  show "2048 \<le> r" "r < 65536" using b by (auto simp: r) (cases "x = 0"; simp)
  have "x < 13 \<or> x = 13 \<or> 14 \<le> x" by auto
  then show "scalar r" using b by (auto simp: r scalar_def between_def)
  have r': "r = (x * 64 + y) * 64 + z" by (simp add: r)
  show "224 + r div 4096 = b0" using b by (auto simp: r)
  show "128 + r div 64 mod 64 = b1" "128 + r mod 64 = b2"
    using b by (simp_all only: r' base64)
qed

lemma encode4:
  assumes "between 240 244 b0" "between (secondLow b0) (secondHigh b0) b1" "between 128 191 b2" "between 128 191 b3"
  defines "r \<equiv> (b0 mod 8) * 262144 + (b1 mod 64) * 4096 + (b2 mod 64) * 64 + b3 mod 64"
  shows "65536 \<le> r" "r \<le> 1114111" "240 + r div 262144 = b0" "128 + r div 4096 mod 64 = b1"
    "128 + r div 64 mod 64 = b2" "128 + r mod 64 = b3"
proof -
  define x where "x = b0 - 240" define y where "y = b1 - 128"
  define z where "z = b2 - 128" define w where "w = b3 - 128"
  have b: "b0 = 240 + x" "b1 = 128 + y" "b2 = 128 + z" "b3 = 128 + w" "x \<le> 4" "y < 64" "z < 64" "w < 64"
      "x = 0 \<Longrightarrow> 16 \<le> y" "x = 4 \<Longrightarrow> y < 16"
    using assms(1-4)
    by (auto simp: x_def y_def z_def w_def between_def secondLow_def secondHigh_def split: if_splits)
  then have r: "r = x * 262144 + y * 4096 + z * 64 + w" by (simp add: r_def mod_add_left_eq[symmetric])
  have "x = 0 \<or> 1 \<le> x" by auto
  then show "65536 \<le> r" using b by (auto simp: r)
  have "x = 4 \<or> x \<le> 3" using b by auto
  then show "r \<le> 1114111" using b by (auto simp: r)
  have r': "r = ((x * 64 + y) * 64 + z) * 64 + w" by (simp add: r)
  have "r div 4096 = r div 64 div 64" by (simp add: div_mult2_eq[symmetric])
  also have "\<dots> = x * 64 + y" using b by (simp only: r' base64)
  finally have r2: "r div 4096 = x * 64 + y" .
  show "240 + r div 262144 = b0" using b by (auto simp: r)
  show "128 + r div 4096 mod 64 = b1" using b by (simp only: r2 base64)
  show "128 + r div 64 mod 64 = b2" "128 + r mod 64 = b3" using b by (simp_all only: r' base64)
qed

text \<open>The range step, by the class of the first byte.\<close>

lemma decodeRune_1: "byteOf c0 < 128 \<Longrightarrow> decodeRune (c0 # r0) = (byteOf c0, 1)"
  by (simp add: decodeRune_def)

lemma decodeRune_2: "between 194 223 (byteOf c0) \<Longrightarrow> decodeRune (c0 # r0) =
  (case r0 of
     c1 # _ \<Rightarrow> if between 128 191 (byteOf c1)
               then ((byteOf c0 mod 32) * 64 + byteOf c1 mod 64, 2) else (runeError, 1)
   | _ \<Rightarrow> (runeError, 1))"
  by (simp add: decodeRune_def between_def Let_def)

lemma decodeRune_3: "between 224 239 (byteOf c0) \<Longrightarrow> decodeRune (c0 # r0) =
  (case r0 of
     c1 # c2 # _ \<Rightarrow>
       if between (secondLow (byteOf c0)) (secondHigh (byteOf c0)) (byteOf c1) \<and> between 128 191 (byteOf c2)
       then ((byteOf c0 mod 16) * 4096 + (byteOf c1 mod 64) * 64 + byteOf c2 mod 64, 3)
       else (runeError, 1)
   | _ \<Rightarrow> (runeError, 1))"
  by (simp add: decodeRune_def between_def Let_def)

lemma decodeRune_4: "between 240 244 (byteOf c0) \<Longrightarrow> decodeRune (c0 # r0) =
  (case r0 of
     c1 # c2 # c3 # _ \<Rightarrow>
       if between (secondLow (byteOf c0)) (secondHigh (byteOf c0)) (byteOf c1)
          \<and> between 128 191 (byteOf c2) \<and> between 128 191 (byteOf c3)
       then ((byteOf c0 mod 8) * 262144 + (byteOf c1 mod 64) * 4096 + (byteOf c2 mod 64) * 64
             + byteOf c3 mod 64, 4)
       else (runeError, 1)
   | _ \<Rightarrow> (runeError, 1))"
  by (simp add: decodeRune_def between_def Let_def)

lemma decodeRune_other:
  "\<not> byteOf c0 < 128 \<Longrightarrow> \<not> between 194 223 (byteOf c0) \<Longrightarrow> \<not> between 224 239 (byteOf c0) \<Longrightarrow>
   \<not> between 240 244 (byteOf c0) \<Longrightarrow> decodeRune (c0 # r0) = (runeError, 1)"
  by (simp add: decodeRune_def)

text \<open>A rune read without error is written back as the bytes it was read from.\<close>

lemma decodeRune_encode:
  assumes "decodeRune (c0 # r0) = (r, w)" "(r, w) \<noteq> (runeError, 1)"
  shows "scalar r \<and> encodeScalar r = take w (c0 # r0) \<and> w = length (encodeScalar r)"
proof -
  consider "byteOf c0 < 128" | "between 194 223 (byteOf c0)" | "between 224 239 (byteOf c0)"
    | "between 240 244 (byteOf c0)"
    using assms decodeRune_other[of c0 r0] by fastforce
  then show ?thesis
  proof cases
    case 1
    then show ?thesis using assms by (auto simp: decodeRune_1 encodeScalar_def scalar_def)
  next
    case 2
    then obtain c1 r1 where r0: "r0 = c1 # r1" and c1: "between 128 191 (byteOf c1)"
      and r: "r = (byteOf c0 mod 32) * 64 + byteOf c1 mod 64" "w = 2"
      using assms by (cases r0) (auto simp: decodeRune_2 split: if_splits)
    note e = encode2[OF 2 c1, folded r(1)]
    then show ?thesis by (simp add: encodeScalar_def r(2) r0 scalar_def)
  next
    case 3
    then obtain c1 c2 r2 where r0: "r0 = c1 # c2 # r2"
      and c: "between (secondLow (byteOf c0)) (secondHigh (byteOf c0)) (byteOf c1)" "between 128 191 (byteOf c2)"
      and r: "r = (byteOf c0 mod 16) * 4096 + (byteOf c1 mod 64) * 64 + byteOf c2 mod 64" "w = 3"
      using assms by (cases r0; cases "tl r0") (auto simp: decodeRune_3 split: if_splits)
    note e = encode3[OF 3 c, folded r(1)]
    then show ?thesis by (simp add: encodeScalar_def r(2) r0)
  next
    case 4
    then obtain c1 c2 c3 r3 where r0: "r0 = c1 # c2 # c3 # r3"
      and c: "between (secondLow (byteOf c0)) (secondHigh (byteOf c0)) (byteOf c1)"
        "between 128 191 (byteOf c2)" "between 128 191 (byteOf c3)"
      and r: "r = (byteOf c0 mod 8) * 262144 + (byteOf c1 mod 64) * 4096 + (byteOf c2 mod 64) * 64
                  + byteOf c3 mod 64" "w = 4"
      using assms by (cases r0; cases "tl r0"; cases "tl (tl r0)") (auto simp: decodeRune_4 split: if_splits)
    note e = encode4[OF 4 c, folded r(1)]
    then show ?thesis by (simp add: encodeScalar_def r(2) r0 scalar_def between_def)
  qed
qed

lemma low_bits:
  fixes x :: nat
  shows "x < 32 \<Longrightarrow> (192 + x) mod 32 = x" "x < 64 \<Longrightarrow> (128 + x) mod 64 = x"
    "x < 16 \<Longrightarrow> (224 + x) mod 16 = x" "x < 8 \<Longrightarrow> (240 + x) mod 8 = x"
  using mod_mult_self2[of x 32 6] mod_mult_self2[of x 64 2] mod_mult_self2[of x 16 14]
    mod_mult_self2[of x 8 30]
  by (simp_all add: add.commute)

text \<open>A scalar value written is read back, whatever follows it.\<close>

lemma decodeRune_encodeScalar:
  assumes "scalar r"
  shows "decodeRune (encodeScalar r @ rest) = (r, length (encodeScalar r))"
proof -
  consider "r < 128" | "128 \<le> r" "r < 2048" | "2048 \<le> r" "r < 65536" | "65536 \<le> r" by linarith
  then show ?thesis
  proof cases
    case 1
    then show ?thesis by (simp add: encodeScalar_def decodeRune_1)
  next
    case 2
    define x y where "x = r div 64" and "y = r mod 64"
    have r: "r = x * 64 + y" "2 \<le> x" "x < 32" "y < 64" using 2 by (auto simp: x_def y_def)
    have b: "between 194 223 (192 + x)" using r by (simp add: between_def)
    have e: "encodeScalar r = [char_of (192 + x), char_of (128 + y)]"
      using 2 by (simp add: encodeScalar_def x_def y_def)
    have v: "byteOf (char_of (192 + x)) = 192 + x" "byteOf (char_of (128 + y)) = 128 + y"
      using r(2-4) by simp_all
    have c: "between 128 191 (128 + y)" using r(4) by (simp add: between_def)
    show ?thesis unfolding e unfolding r(1)
      by (simp only: append_Cons list.case decodeRune_2 v b c low_bits(1)[OF r(3)] low_bits(2)[OF r(4)])
         simp
  next
    case 3
    define x y z where "x = r div 4096" and "y = r div 64 mod 64" and "z = r mod 64"
    have "r div 64 = x * 64 + y" by (simp add: x_def y_def div_mult2_eq[of r 64 64, simplified])
    then have r: "r = (x * 64 + y) * 64 + z" by (metis div_mult_mod_eq z_def)
    have b: "x < 16" "y < 64" "z < 64" using 3 by (auto simp: x_def y_def z_def)
    have b2: "x = 0 \<Longrightarrow> 32 \<le> y" using r 3 b by simp
    have b3: "x = 13 \<Longrightarrow> y < 32" using r assms b by (simp add: scalar_def between_def)
    have e: "encodeScalar r = [char_of (224 + x), char_of (128 + y), char_of (128 + z)]"
      using 3 by (simp add: encodeScalar_def x_def y_def z_def)
    have bt: "between 224 239 (224 + x)"
      "between (secondLow (224 + x)) (secondHigh (224 + x)) (128 + y)" "between 128 191 (128 + z)"
      using b b2 b3 by (auto simp: between_def secondLow_def secondHigh_def)
    have v: "byteOf (char_of (224 + x)) = 224 + x" "byteOf (char_of (128 + y)) = 128 + y"
        "byteOf (char_of (128 + z)) = 128 + z"
      using b by simp_all
    show ?thesis unfolding e unfolding r(1)
      by (simp only: append_Cons list.case decodeRune_3 v bt low_bits(3)[OF b(1)]
            low_bits(2)[OF b(2)] low_bits(2)[OF b(3)]) simp
  next
    case 4
    then have r4: "r \<le> 1114111" using assms by (simp add: scalar_def between_def)
    define x y z w where "x = r div 262144" and "y = r div 4096 mod 64" and "z = r div 64 mod 64"
      and "w = r mod 64"
    have "r div 64 div 64 div 64 = x" by (simp add: x_def div_mult2_eq[symmetric])
    moreover have "r div 64 div 64 mod 64 = y" by (simp add: y_def div_mult2_eq[symmetric])
    ultimately have "r div 64 div 64 = x * 64 + y" by (metis div_mult_mod_eq)
    then have "r div 64 = (x * 64 + y) * 64 + z" by (metis div_mult_mod_eq z_def)
    then have r: "r = ((x * 64 + y) * 64 + z) * 64 + w" by (metis div_mult_mod_eq w_def)
    have b: "y < 64" "z < 64" "w < 64" by (simp_all add: y_def z_def w_def)
    have b5: "x \<le> 4" using r4 r by simp
    have b2: "x = 0 \<Longrightarrow> 16 \<le> y" using r 4 b by simp
    have b3: "x = 4 \<Longrightarrow> y < 16" using r r4 b by simp
    have e: "encodeScalar r = [char_of (240 + x), char_of (128 + y), char_of (128 + z), char_of (128 + w)]"
      using 4 by (simp add: encodeScalar_def x_def y_def z_def w_def)
    have bt: "between 240 244 (240 + x)"
      "between (secondLow (240 + x)) (secondHigh (240 + x)) (128 + y)" "between 128 191 (128 + z)"
      "between 128 191 (128 + w)"
      using b b2 b3 b5 by (auto simp: between_def secondLow_def secondHigh_def)
    have v: "byteOf (char_of (240 + x)) = 240 + x" "byteOf (char_of (128 + y)) = 128 + y"
        "byteOf (char_of (128 + z)) = 128 + z" "byteOf (char_of (128 + w)) = 128 + w"
      using b b5 by simp_all
    have x8: "x < 8" using b5 by simp
    show ?thesis unfolding e unfolding r
      by (simp only: append_Cons list.case decodeRune_4 v bt low_bits(4)[OF x8]
            low_bits(2)[OF b(1)] low_bits(2)[OF b(2)] low_bits(2)[OF b(3)]) simp
  qed
qed

lemma encodeScalar_nonempty [simp]: "encodeScalar r \<noteq> []"
  by (simp add: encodeScalar_def)

lemma encodeScalar_not_error: "scalar r \<Longrightarrow> (r, length (encodeScalar r)) \<noteq> (runeError, 1)"
  by (auto simp: encodeScalar_def)

lemma runes_Nil [simp]: "runes [] = []"
  by (simp add: runes.simps)

lemma validUtf8_Nil [simp]: "validUtf8 []"
  by (simp add: validUtf8.simps)

lemma runes_encodeScalar [simp]: "scalar r \<Longrightarrow> runes (encodeScalar r @ t) = r # runes t"
  by (subst runes.simps) (simp add: decodeRune_encodeScalar)

lemma validUtf8_encodeScalar [simp]: "scalar r \<Longrightarrow> validUtf8 (encodeScalar r @ t) \<longleftrightarrow> validUtf8 t"
  by (subst validUtf8.simps) (use encodeScalar_not_error[of r] in \<open>simp add: decodeRune_encodeScalar\<close>)

text \<open>A well-formed string is the writing of its runes, and those are scalar values.\<close>

lemma validUtf8_cases:
  assumes "validUtf8 s" "s \<noteq> []"
  obtains r t where "scalar r" "s = encodeScalar r @ t" "validUtf8 t"
proof -
  obtain c0 r0 where s: "s = c0 # r0" using assms(2) by (cases s) auto
  obtain r w where d: "decodeRune s = (r, w)" by (meson surj_pair)
  have "decodeRune s \<noteq> (runeError, 1) \<and> validUtf8 (drop (snd (decodeRune s)) s)"
    using iffD1[OF validUtf8.simps assms(1)] assms(2) by simp
  then have ne: "(r, w) \<noteq> (runeError, 1)" and t: "validUtf8 (drop w s)"
    unfolding d by (auto simp only: snd_conv)
  have "scalar r \<and> encodeScalar r = take w s \<and> w = length (encodeScalar r)"
    using decodeRune_encode[of c0 r0 r w, folded s, OF d ne] .
  then show thesis using that[of r "drop w s"] t by (metis append_take_drop_id)
qed

lemma validUtf8_induct [consumes 1, case_names Nil rune]:
  assumes "validUtf8 s" "P []"
    and "\<And>r t. scalar r \<Longrightarrow> validUtf8 t \<Longrightarrow> P t \<Longrightarrow> P (encodeScalar r @ t)"
  shows "P s"
  using assms(1)
proof (induction "length s" arbitrary: s rule: less_induct)
  case less
  show ?case
  proof (cases "s = []")
    case False
    with less.prems obtain r t where rt: "scalar r" "s = encodeScalar r @ t" "validUtf8 t"
      by (rule validUtf8_cases)
    then have "P t" using less.hyps by (simp add: less_Suc_eq_le)
    with rt assms(3) show ?thesis by blast
  qed (simp add: assms(2))
qed

lemma runes_scalar: "validUtf8 s \<Longrightarrow> list_all scalar (runes s)"
  by (induction rule: validUtf8_induct) auto

lemma concat_encode_runes: "validUtf8 s \<Longrightarrow> concat (map encodeRune (runes s)) = s"
  by (induction rule: validUtf8_induct) (auto simp: encodeRune_def)

lemma runes_append: "validUtf8 s \<Longrightarrow> runes (s @ t) = runes s @ runes t"
  by (induction rule: validUtf8_induct) auto

lemma validUtf8_append: "validUtf8 s \<Longrightarrow> validUtf8 (s @ t) \<longleftrightarrow> validUtf8 t"
  by (induction rule: validUtf8_induct) auto

text \<open>What \<open>encoding/json\<close> does to a text it reads: a byte that is not part of UTF-8 becomes the
  replacement character.\<close>

definition coerceUtf8 :: "string \<Rightarrow> string" where
  "coerceUtf8 s = concat (map encodeRune (runes s))"

lemma coerceUtf8_valid [simp]: "validUtf8 s \<Longrightarrow> coerceUtf8 s = s"
  by (simp add: coerceUtf8_def concat_encode_runes)

lemma validUtf8_encodeRunes: "validUtf8 (concat (map encodeRune rs))"
proof (induction rs)
  case (Cons r rs)
  have "scalar (if scalar r then r else runeError)" by (auto simp: scalar_def between_def)
  with Cons show ?case by (simp add: encodeRune_def)
qed simp

lemma validUtf8_coerce [simp]: "validUtf8 (coerceUtf8 s)"
  by (simp add: coerceUtf8_def validUtf8_encodeRunes)

lemma runes_inject: "validUtf8 s \<Longrightarrow> validUtf8 t \<Longrightarrow> runes s = runes t \<longleftrightarrow> s = t"
  by (metis concat_encode_runes)

lemma ascii_encode: "byteOf c < 128 \<Longrightarrow> scalar (byteOf c) \<and> encodeScalar (byteOf c) = [c]"
  by (simp add: scalar_def encodeScalar_def)

lemma runes_ascii_Cons: "byteOf c < 128 \<Longrightarrow> runes (c # s) = byteOf c # runes s"
  using runes_encodeScalar[of "byteOf c" s] ascii_encode[of c] by simp

lemma validUtf8_ascii_Cons: "byteOf c < 128 \<Longrightarrow> validUtf8 (c # s) \<longleftrightarrow> validUtf8 s"
  using validUtf8_encodeScalar[of "byteOf c" s] ascii_encode[of c] by simp

lemma validUtf8_ascii: "list_all (\<lambda>c. byteOf c < 128) s \<Longrightarrow> validUtf8 s"
  by (induction s) (simp_all add: validUtf8_ascii_Cons)

lemma validUtf8_digits: "list_all isDigit ds \<Longrightarrow> validUtf8 ds"
  by (rule validUtf8_ascii) (auto simp: list_all_iff isDigit_iff)

lemma validUtf8_natString [simp]: "validUtf8 (natString n)"
  by (rule validUtf8_digits) (rule natString_digits)

subsection \<open>UTF-16 code units\<close>

lemma utf16Rune_prefix:
  assumes "scalar r" "scalar q" "utf16Rune r @ u = utf16Rune q @ v"
  shows "r = q \<and> u = v"
proof -
  have pair: "r = q \<and> u = v" if "65536 \<le> r" "65536 \<le> q"
  proof -
    have "(r - 65536) div 1024 = (q - 65536) div 1024" "(r - 65536) mod 1024 = (q - 65536) mod 1024" "u = v"
      using that assms by (auto simp: utf16Rune_def scalar_def between_def)
    then have "r - 65536 = q - 65536" "u = v" by (metis div_mult_mod_eq, simp)
    with that show ?thesis by simp
  qed
  have lead: "55296 \<le> hd (utf16Rune x) \<and> hd (utf16Rune x) < 57344 \<longleftrightarrow> 65536 \<le> x" if "scalar x" for x
    using that by (auto simp: utf16Rune_def scalar_def between_def)
  have single: "utf16Rune x = [x]" if "scalar x" "\<not> 65536 \<le> x" for x
    using that by (auto simp: utf16Rune_def scalar_def between_def)
  have ne: "utf16Rune x \<noteq> []" for x by (simp add: utf16Rune_def)
  have "hd (utf16Rune r) = hd (utf16Rune q)" using assms(3) ne by (metis hd_append2)
  then have "65536 \<le> r \<longleftrightarrow> 65536 \<le> q" using lead assms by metis
  then show ?thesis using pair single assms by (cases "65536 \<le> r") auto
qed

lemma utf16_concat_inject:
  "list_all scalar rs \<Longrightarrow> list_all scalar qs \<Longrightarrow>
   concat (map utf16Rune rs) = concat (map utf16Rune qs) \<Longrightarrow> rs = qs"
proof (induction rs arbitrary: qs)
  case Nil
  then show ?case by (cases qs) (auto simp: utf16Rune_def split: if_splits)
next
  case (Cons r rs)
  show ?case
  proof (cases qs)
    case Nil
    with Cons.prems show ?thesis by (auto simp: utf16Rune_def split: if_splits)
  next
    case (Cons q qs')
    with Cons.prems have "r = q \<and> concat (map utf16Rune rs) = concat (map utf16Rune qs')"
      by (intro utf16Rune_prefix) auto
    with Cons.IH[of qs'] Cons.prems Cons show ?thesis by simp
  qed
qed

lemma utf16Units_inject: "validUtf8 s \<Longrightarrow> validUtf8 t \<Longrightarrow> utf16Units s = utf16Units t \<longleftrightarrow> s = t"
  using utf16_concat_inject[of "runes s" "runes t"] runes_scalar runes_inject
  by (auto simp: utf16Units_def)

end
