(* ===== verification/Pointer.thy ===== *)
theory Pointer
  imports Json_Value Utf8
begin

section \<open>JSON Pointers\<close>

text \<open>
  \<open>compilePointer\<close>, \<open>compiledPointer.resolve\<close>, \<open>arrayIndex\<close>, \<open>PointerTokens\<close> and
  \<open>resolvePointer\<close> of \<open>internal/evaluation/condition.go\<close>, and \<open>Pointer\<close> of
  \<open>internal/carrier/decode.go\<close>, which writes what the others read.
\<close>

record compiledPointer =
  tokens :: "string list"
  ptrBytes :: nat
  rooted :: bool

text \<open>\<open>strings.ReplaceAll\<close> of a two-byte text by one byte, left to right.\<close>

fun replacePair :: "char \<Rightarrow> char \<Rightarrow> char \<Rightarrow> string \<Rightarrow> string" where
  "replacePair a b c (x # y # xs) =
     (if x = a \<and> y = b then c # replacePair a b c xs else x # replacePair a b c (y # xs))"
| "replacePair a b c xs = xs"

definition unescapeToken :: "string \<Rightarrow> string" where
  "unescapeToken token =
     replacePair (CHR ''~'') (CHR ''0'') (CHR ''~'')
       (replacePair (CHR ''~'') (CHR ''1'') (CHR ''/'') token)"

definition compilePointer :: "string \<Rightarrow> compiledPointer" where
  "compilePointer pointer =
     (if pointer = [] then \<lparr>tokens = [], ptrBytes = 0, rooted = True\<rparr>
      else if hd pointer \<noteq> CHR ''/'' then \<lparr>tokens = [], ptrBytes = 0, rooted = False\<rparr>
      else let raw = splitOn (CHR ''/'') (tl pointer); ts = map unescapeToken raw
           in \<lparr>tokens = ts, ptrBytes = sum_list (map length ts), rooted = True\<rparr>)"

text \<open>\<open>arrayIndex\<close>; \<open>strconv.Atoi\<close> refuses what a 64-bit \<open>int\<close> cannot hold.\<close>

definition maxInt :: nat where
  "maxInt = 9223372036854775807"

definition arrayIndex :: "string \<Rightarrow> nat \<Rightarrow> nat option" where
  "arrayIndex token len =
     (if token = [] \<or> token = ''-'' then None
      else if length token > 1 \<and> hd token = CHR ''0'' then None
      else if \<not> list_all isDigit token then None
      else if maxInt < digitsVal token \<or> len \<le> digitsVal token then None
      else Some (digitsVal token))"

fun resolveTokens :: "string list \<Rightarrow> json \<Rightarrow> json option" where
  "resolveTokens [] current = Some current"
| "resolveTokens (token # rest) current =
     (case current of
        JObject container \<Rightarrow>
          (case map_of container token of None \<Rightarrow> None | Some value \<Rightarrow> resolveTokens rest value)
      | JArray container \<Rightarrow>
          (case arrayIndex token (length container) of
             None \<Rightarrow> None
           | Some index \<Rightarrow> resolveTokens rest (container ! index))
      | _ \<Rightarrow> None)"

definition resolveCompiled :: "compiledPointer \<Rightarrow> json \<Rightarrow> json option" where
  "resolveCompiled p document = (if \<not> rooted p then None else resolveTokens (tokens p) document)"

definition resolvePointer :: "json \<Rightarrow> string \<Rightarrow> json option" where
  "resolvePointer document pointer = resolveCompiled (compilePointer pointer) document"

definition PointerTokens :: "string \<Rightarrow> string list option" where
  "PointerTokens pointer =
     (let compiled = compilePointer pointer in if rooted compiled then Some (tokens compiled) else None)"

text \<open>\<open>carrier.Pointer\<close>: one \<open>/\<close> and the escaped runes of each part.\<close>

definition escapeRune :: "nat \<Rightarrow> string" where
  "escapeRune r = (if r = 126 then ''~0'' else if r = 47 then ''~1'' else encodeRune r)"

definition Pointer :: "string list \<Rightarrow> string" where
  "Pointer parts = concat (map (\<lambda>part. CHR ''/'' # concat (map escapeRune (runes part))) parts)"

subsection \<open>Escaping and unescaping\<close>

definition escapeByte :: "char \<Rightarrow> string" where
  "escapeByte c = (if c = CHR ''~'' then ''~0'' else if c = CHR ''/'' then ''~1'' else [c])"

lemma replacePair_skip: "x \<noteq> a \<Longrightarrow> replacePair a b c (x # xs) = x # replacePair a b c xs"
  by (cases xs) auto

lemma encodeScalar_high: "scalar r \<Longrightarrow> 128 \<le> r \<Longrightarrow> c \<in> set (encodeScalar r) \<Longrightarrow> 128 \<le> byteOf c"
  by (auto simp: encodeScalar_def scalar_def between_def split: if_splits)

lemma escape_ascii_chars: "c = CHR ''~'' \<longleftrightarrow> byteOf c = 126" "c = CHR ''/'' \<longleftrightarrow> byteOf c = 47"
proof -
  have "byteOf (CHR ''~'') = 126" "byteOf (CHR ''/'') = 47" by simp_all
  then show "c = CHR ''~'' \<longleftrightarrow> byteOf c = 126" "c = CHR ''/'' \<longleftrightarrow> byteOf c = 47"
    by (metis char_of_char)+
qed

lemma escapeByte_high: "128 \<le> byteOf c \<Longrightarrow> escapeByte c = [c]"
  by (auto simp: escapeByte_def)

lemma escapeBytes_high:
  "list_all (\<lambda>c. 128 \<le> byteOf c) cs \<Longrightarrow> concat (map escapeByte cs) = cs"
  by (induction cs) (auto simp: escapeByte_high)

lemma escapeRune_bytes: "scalar r \<Longrightarrow> escapeRune r = concat (map escapeByte (encodeScalar r))"
proof (cases "r < 128")
  case True
  then have b: "byteOf (char_of r) = r" by simp
  from True have "encodeScalar r = [char_of r]" by (simp add: encodeScalar_def)
  moreover assume "scalar r"
  ultimately show ?thesis
    using b by (simp add: escapeRune_def encodeRune_def escapeByte_def escape_ascii_chars)
next
  case False
  assume s: "scalar r"
  with False have "list_all (\<lambda>c. 128 \<le> byteOf c) (encodeScalar r)"
    using encodeScalar_high[OF s] by (auto simp: list_all_iff)
  with False s show ?thesis by (simp add: escapeRune_def encodeRune_def escapeBytes_high)
qed

lemma escape_runes: "validUtf8 s \<Longrightarrow> concat (map escapeRune (runes s)) = concat (map escapeByte s)"
  by (induction rule: validUtf8_induct) (auto simp: escapeRune_bytes)

lemma unescape_escape: "unescapeToken (concat (map escapeByte s)) = s"
proof -
  have 1: "replacePair (CHR ''~'') (CHR ''1'') (CHR ''/'') (concat (map escapeByte s)) =
        concat (map (\<lambda>c. if c = CHR ''~'' then ''~0'' else [c]) s)" for s
    by (induction s) (auto simp: escapeByte_def replacePair_skip)
  have 2: "replacePair (CHR ''~'') (CHR ''0'') (CHR ''~'')
        (concat (map (\<lambda>c. if c = CHR ''~'' then ''~0'' else [c]) s)) = s" for s
    by (induction s) (auto simp: replacePair_skip)
  show ?thesis by (simp add: unescapeToken_def 1 2)
qed

lemma escape_no_slash: "CHR ''/'' \<notin> set (concat (map escapeByte s))"
  by (induction s) (auto simp: escapeByte_def)

lemma splitOn_escaped:
  "ps \<noteq> [] \<Longrightarrow> list_all (\<lambda>p. CHR ''/'' \<notin> set p) ps \<Longrightarrow>
   splitOn (CHR ''/'') (tl (concat (map (\<lambda>p. CHR ''/'' # p) ps))) = ps"
proof (induction ps)
  case (Cons p ps)
  show ?case
  proof (cases ps)
    case Nil
    with Cons.prems show ?thesis by (simp add: splitOn_no_sep)
  next
    case (Cons q qs)
    with Cons.IH Cons.prems show ?thesis by (simp add: splitOn_append)
  qed
qed simp

lemma Pointer_bytes:
  "list_all validUtf8 parts \<Longrightarrow>
   Pointer parts = concat (map (\<lambda>p. CHR ''/'' # p) (map (\<lambda>p. concat (map escapeByte p)) parts))"
  by (induction parts) (auto simp: Pointer_def escape_runes)

lemma compilePointer_Pointer:
  assumes "list_all validUtf8 parts"
  shows "tokens (compilePointer (Pointer parts)) = parts \<and> rooted (compilePointer (Pointer parts))"
proof (cases parts)
  case Nil
  then show ?thesis by (simp add: Pointer_def compilePointer_def)
next
  case (Cons p ps)
  let ?es = "map (\<lambda>p. concat (map escapeByte p)) parts"
  have e: "Pointer parts = concat (map (\<lambda>p. CHR ''/'' # p) ?es)" by (rule Pointer_bytes[OF assms])
  have h: "Pointer parts \<noteq> []" "hd (Pointer parts) = CHR ''/''"
    using Cons by (auto simp: Pointer_def)
  have "splitOn (CHR ''/'') (tl (Pointer parts)) = ?es"
    unfolding e using Cons escape_no_slash by (intro splitOn_escaped) (auto simp: list_all_iff)
  then show ?thesis using h by (simp add: compilePointer_def Let_def unescape_escape comp_def)
qed

subsection \<open>Bounds\<close>

lemma length_replacePair: "length (replacePair a b c s) \<le> length s"
  by (induction a b c s rule: replacePair.induct) auto

lemma length_unescapeToken: "length (unescapeToken s) \<le> length s"
  unfolding unescapeToken_def using length_replacePair by (rule order_trans) (rule length_replacePair)

lemma length_splitOn: "length (splitOn c s) + sum_list (map length (splitOn c s)) = length s + 1"
  by (induction s) (auto split: list.splits)

lemma unescape_bytes: "sum_list (map (length \<circ> unescapeToken) raw) \<le> sum_list (map length raw)"
  by (rule sum_list_mono) (simp add: length_unescapeToken)

text \<open>The tokens and their bytes are within the length of the text they were compiled from.\<close>

lemma compilePointer_bounds:
  "length (tokens (compilePointer pointer)) + ptrBytes (compilePointer pointer) \<le> length pointer"
proof (cases "pointer = [] \<or> hd pointer \<noteq> CHR ''/''")
  case False
  then obtain s where s: "pointer = CHR ''/'' # s" by (cases pointer) auto
  have "length (splitOn (CHR ''/'') s) + sum_list (map (length \<circ> unescapeToken) (splitOn (CHR ''/'') s)) \<le> length s + 1"
    using unescape_bytes[of "splitOn (CHR ''/'') s"] length_splitOn[of "CHR ''/''" s] by linarith
  then show ?thesis by (simp add: s compilePointer_def Let_def comp_def)
qed (auto simp: compilePointer_def)

lemma ptrBytes_compilePointer:
  "ptrBytes (compilePointer p) = sum_list (map length (tokens (compilePointer p)))"
  by (simp add: compilePointer_def Let_def)

subsection \<open>Array indices\<close>

lemma minus_not_digit: "\<not> isDigit (CHR ''-'')"
  by (simp add: isDigit_iff)

lemma arrayIndex_Some_iff:
  "len \<le> maxInt + 1 \<Longrightarrow> arrayIndex token len = Some i \<longleftrightarrow> token = natString i \<and> i < len"
proof
  assume l: "len \<le> maxInt + 1" and a: "arrayIndex token len = Some i"
  then have t: "token \<noteq> []" "list_all isDigit token" "hd token \<noteq> CHR ''0'' \<or> length token = 1"
      "i = digitsVal token" "i < len"
    by (auto simp: arrayIndex_def split: if_splits)
      (metis One_nat_def Suc_lessI length_greater_0_conv)+
  with natString_digitsVal[OF t(2,1,3)] show "token = natString i \<and> i < len" by simp
next
  assume l: "len \<le> maxInt + 1" and a: "token = natString i \<and> i < len"
  have ne: "natString i \<noteq> ''-''"
    using natString_digits[of i] minus_not_digit by auto
  have "\<not> (length (natString i) > 1 \<and> hd (natString i) = CHR ''0'')"
    using natString_head[of i] by (cases "i = 0") (auto simp: natString_0)
  with a l ne natString_digits[of i] show "arrayIndex token len = Some i"
    by (simp add: arrayIndex_def)
qed

lemma arrayIndex_lt: "arrayIndex token len = Some i \<Longrightarrow> i < len"
  by (auto simp: arrayIndex_def split: if_splits)

subsection \<open>Resolution\<close>

lemma resolveTokens_append:
  "resolveTokens (ts @ us) v = Option.bind (resolveTokens ts v) (resolveTokens us)"
  by (induction ts v rule: resolveTokens.induct) (auto split: json.splits option.splits)

lemma size_resolveTokens: "resolveTokens ts v = Some w \<Longrightarrow> size w \<le> size v"
proof (induction ts v rule: resolveTokens.induct)
  case (2 token rest current)
  show ?case
  proof (cases current)
    case (JArray xs)
    with "2.prems" obtain i where i: "arrayIndex token (length xs) = Some i" "resolveTokens rest (xs ! i) = Some w"
      by (auto split: option.splits)
    then have "size w \<le> size (xs ! i)" using "2.IH"(1)[OF JArray i] by simp
    also have "\<dots> < size current"
      using size_element_lt[of "xs ! i" xs] arrayIndex_lt[OF i(1)] JArray by simp
    finally show ?thesis by simp
  next
    case (JObject m)
    with "2.prems" obtain x where x: "map_of m token = Some x" "resolveTokens rest x = Some w"
      by (auto split: option.splits)
    then have "size w \<le> size x" using "2.IH"(2)[OF JObject x] by simp
    also have "\<dots> < size current"
      using size_member_lt[of token x m] map_of_SomeD[OF x(1)] JObject by simp
    finally show ?thesis by simp
  qed (use "2.prems" in auto)
qed simp

lemma jsonWf_resolveTokens: "resolveTokens ts v = Some w \<Longrightarrow> jsonWf v \<Longrightarrow> jsonWf w"
proof (induction ts v rule: resolveTokens.induct)
  case (2 token rest current)
  show ?case
  proof (cases current)
    case (JArray xs)
    with "2.prems" obtain i where i: "arrayIndex token (length xs) = Some i" "resolveTokens rest (xs ! i) = Some w"
      by (auto split: option.splits)
    moreover from this JArray "2.prems" have "jsonWf (xs ! i)"
      using arrayIndex_lt nth_mem by (fastforce simp: list_all_iff)
    ultimately show ?thesis using "2.IH"(1)[OF JArray i] by simp
  next
    case (JObject m)
    with 2 show ?thesis by (fastforce split: option.splits simp: list_all_iff dest: map_of_SomeD)
  qed (use "2.prems" in auto)
qed simp

lemma jsonWf_resolvePointer: "resolvePointer v p = Some w \<Longrightarrow> jsonWf v \<Longrightarrow> jsonWf w"
  by (auto simp: resolvePointer_def resolveCompiled_def jsonWf_resolveTokens split: if_splits)

text \<open>Appending a part to a pointer reads one member or element further.\<close>

lemma resolvePointer_snoc:
  assumes "list_all validUtf8 parts" "validUtf8 part"
  shows "resolvePointer document (Pointer (parts @ [part])) =
         Option.bind (resolvePointer document (Pointer parts)) (resolveTokens [part])"
  using compilePointer_Pointer[of "parts @ [part]"] compilePointer_Pointer[of parts] assms
  by (simp add: resolvePointer_def resolveCompiled_def resolveTokens_append)

subsection \<open>Properties\<close>

text \<open>What \<open>carrier.Pointer\<close> writes for a location, \<open>PointerTokens\<close> reads back as that
  location: escaping and unescaping are inverse on well-formed UTF-8 member names, \<open>~\<close> and \<open>/\<close>
  included.\<close>

theorem PointerTokens_Pointer:
  assumes "list_all validUtf8 parts"
  shows "PointerTokens (Pointer parts) = Some parts"
  using compilePointer_Pointer[OF assms] by (simp add: PointerTokens_def Let_def)

theorem PointerTokens_Pointer_witness:
  "PointerTokens (Pointer [''a/b'', ''m~n'', [], ''0'']) = Some [''a/b'', ''m~n'', [], ''0'']"
  by (rule PointerTokens_Pointer) (simp add: validUtf8_ascii_Cons)

text \<open>An array-reference token is admitted exactly when it is the decimal spelling of an
  index in range: no sign, no leading zero, no \<open>-\<close>, no overflow.\<close>

theorem arrayIndex_exact:
  assumes "len \<le> maxInt + 1"
  shows "arrayIndex token len = Some i \<longleftrightarrow> token = natString i \<and> i < len"
  using arrayIndex_Some_iff[OF assms] .

theorem arrayIndex_exact_witness:
  "arrayIndex ''10'' 12 = Some 10 \<and> arrayIndex ''00'' 12 \<noteq> Some 0"
proof -
  have s: "natString 10 = ''10''" "natString 0 = ''0''" by code_simp+
  show ?thesis
    using arrayIndex_exact[of 12 "''10''" 10] arrayIndex_exact[of 12 "''00''" 0]
    by (simp add: s maxInt_def)
qed

end
