(* ===== verification/Meter.thy ===== *)
theory Meter
  imports Prelude
begin

section \<open>Work meters\<close>

text \<open>
  The evaluator of \<open>internal/evaluation/quantifier.go\<close> and the comparability check of
  \<open>internal/evaluation/comparable.go\<close> each carry a work budget behind the same \<open>charge\<close>: add
  the units, note an overrun, report whether the budget still holds. The interface below is that
  contract. A client that charges in steps and stops at the first overrun has, whatever its shape,
  overrun exactly when the whole sum does; \<open>accounts\<close> states this for one state change and
  \<open>accounts_then\<close> composes it.
\<close>

locale meter =
  fixes charge :: "nat \<Rightarrow> 's \<Rightarrow> bool \<times> 's"
    and total :: "'s \<Rightarrow> nat"
    and limit :: "'s \<Rightarrow> nat"
    and over :: "'s \<Rightarrow> bool"
  assumes charge_total: "total (snd (charge u s)) = total s + u"
    and charge_limit: "limit (snd (charge u s)) = limit s"
    and charge_over: "over (snd (charge u s)) \<longleftrightarrow> over s \<or> limit s < total s + u"
    and charge_reports: "fst (charge u s) \<longleftrightarrow> \<not> over (snd (charge u s))"
begin

text \<open>A state that has not overrun: what was charged is within the limit.\<close>

definition within_limit :: "'s \<Rightarrow> bool" where
  "within_limit s \<longleftrightarrow> \<not> over s \<and> total s \<le> limit s"

text \<open>From \<open>s\<close> to \<open>t\<close>, \<open>n\<close> units were due: charged when they fit, an overrun when they do not.\<close>

definition accounts :: "'s \<Rightarrow> 's \<Rightarrow> nat \<Rightarrow> bool" where
  "accounts s t n \<longleftrightarrow>
     limit t = limit s \<and> (over t \<longleftrightarrow> limit s < total s + n) \<and> (\<not> over t \<longrightarrow> total t = total s + n)"

lemma accounts_charge: "within_limit s \<Longrightarrow> accounts s (snd (charge u s)) u"
  by (auto simp: accounts_def within_limit_def charge_total charge_limit charge_over)

lemma accounts_zero: "within_limit s \<Longrightarrow> total t = total s \<Longrightarrow> limit t = limit s \<Longrightarrow> over t = over s \<Longrightarrow> accounts s t 0"
  by (auto simp: accounts_def within_limit_def)

lemma accounts_within: "accounts s t n \<Longrightarrow> \<not> over t \<Longrightarrow> within_limit t"
  by (auto simp: accounts_def within_limit_def)

lemma accounts_stop: "accounts s t n \<Longrightarrow> over t \<Longrightarrow> limit v = limit t \<Longrightarrow> over v \<Longrightarrow> accounts s v (n + k)"
  by (auto simp: accounts_def)

lemma accounts_then: "accounts s t n \<Longrightarrow> \<not> over t \<Longrightarrow> accounts t v k \<Longrightarrow> accounts s v (n + k)"
  by (auto simp: accounts_def)

lemma charge_within: "within_limit s \<Longrightarrow> fst (charge u s) \<longleftrightarrow> total s + u \<le> limit s"
  by (auto simp: within_limit_def charge_reports charge_over)

text \<open>Charging a list of amounts, stopping at the first overrun.\<close>

primrec chargeAll :: "nat list \<Rightarrow> 's \<Rightarrow> bool \<times> 's" where
  "chargeAll [] s = (\<not> over s, s)"
| "chargeAll (u # us) s = (let (ok, t) = charge u s in if ok then chargeAll us t else (False, t))"

lemma accounts_chargeAll:
  "within_limit s \<Longrightarrow> accounts s (snd (chargeAll us s)) (sum_list us)"
proof (induction us arbitrary: s)
  case Nil
  then show ?case by (simp add: accounts_zero)
next
  case (Cons u us)
  obtain ok t where c: "charge u s = (ok, t)" by (meson surj_pair)
  then have a: "accounts s t u" using accounts_charge[OF Cons.prems, of u] by simp
  have ok: "ok \<longleftrightarrow> \<not> over t" using charge_reports[of u s] c by simp
  show ?case
  proof (cases ok)
    case True
    with ok a have "accounts t (snd (chargeAll us t)) (sum_list us)"
      using Cons.IH accounts_within by blast
    with a ok True show ?thesis using accounts_then by (fastforce simp: c)
  next
    case False
    with a ok show ?thesis using accounts_stop[OF a] by (simp add: c)
  qed
qed

text \<open>Whether a list of amounts overruns depends on its sum alone, so not on its order.\<close>

lemma chargeAll_permute:
  assumes "within_limit s" "mset us = mset vs"
  shows "over (snd (chargeAll us s)) \<longleftrightarrow> over (snd (chargeAll vs s))"
proof -
  have "sum_list us = sum_list vs" using assms(2) by (metis sum_mset_sum_list)
  then show ?thesis
    using accounts_chargeAll[OF assms(1), of us] accounts_chargeAll[OF assms(1), of vs]
    by (simp add: accounts_def)
qed

end

end
