(* ===== verification/Evaluator.thy ===== *)
theory Evaluator
  imports Json_Number Decimal Pointer Meter
begin

section \<open>The condition evaluator\<close>

text \<open>
  \<open>internal/evaluation/condition.go\<close>, \<open>quantifier.go\<close> and \<open>limits.go\<close>: the three-valued condition
  language, the compiled-pointer cache, the causes and mismatches one stage records, and the work
  accounting every condition tree is charged with before it runs. A method on \<open>*evaluator\<close> is a
  function from the evaluator's state to its result and the state it leaves.
\<close>

subsection \<open>Three-valued results\<close>

datatype tri = triFalse | triTrue | triUnknown

definition triString :: "tri \<Rightarrow> string" where
  "triString t = (case t of triTrue \<Rightarrow> ''true'' | triFalse \<Rightarrow> ''false'' | triUnknown \<Rightarrow> ''unknown'')"

definition triFromBool :: "bool \<Rightarrow> tri" where
  "triFromBool b = (if b then triTrue else triFalse)"

subsection \<open>What one stage records\<close>

record UnknownCause =
  ucPath :: "string option"
  ucRequirement :: string
  ucWithin :: "string option"
  ucCause :: string
  ucFactType :: string

record TypeMismatch =
  tmPath :: string
  tmWithin :: "string option"
  tmOperator :: string
  tmFactType :: string
  tmOperandTypes :: "string list"

record UnmetEvidence =
  ueRequirement :: string
  ueState :: string

record evaluator =
  evidence :: "string \<Rightarrow> tri option"
  quantifiers :: bool
  outcomeValues :: bool
  budget :: nat
  charged :: nat
  exceeded :: bool
  pointers :: "string \<Rightarrow> compiledPointer option"
  causes :: "UnknownCause list"
  mismatches :: "TypeMismatch list"
  collectionFailure :: "UnknownCause option"
  unmetEvidence :: "UnmetEvidence list"

text \<open>The composite literals \<open>result.UnknownCause{...}\<close> of the code.\<close>

definition causeOnly :: "string \<Rightarrow> UnknownCause" where
  "causeOnly c = \<lparr>ucPath = None, ucRequirement = [], ucWithin = None, ucCause = c, ucFactType = []\<rparr>"

definition causeAt :: "string \<Rightarrow> string \<Rightarrow> string \<Rightarrow> UnknownCause" where
  "causeAt path c kind =
     \<lparr>ucPath = Some path, ucRequirement = [], ucWithin = None, ucCause = c, ucFactType = kind\<rparr>"

definition causeRequirement :: "string \<Rightarrow> string \<Rightarrow> UnknownCause" where
  "causeRequirement name c =
     \<lparr>ucPath = None, ucRequirement = name, ucWithin = None, ucCause = c, ucFactType = []\<rparr>"

definition noteUnknown :: "UnknownCause \<Rightarrow> evaluator \<Rightarrow> evaluator" where
  "noteUnknown c e = e\<lparr>causes := causes e @ [c]\<rparr>"

definition unknownWith :: "UnknownCause \<Rightarrow> evaluator \<Rightarrow> tri \<times> evaluator" where
  "unknownWith c e = (triUnknown, noteUnknown c e)"

definition keepCausesIf :: "nat \<Rightarrow> tri \<times> evaluator \<Rightarrow> tri \<times> evaluator" where
  "keepCausesIf mark r =
     (let (verdict, e) = r
      in (verdict, if verdict \<noteq> triUnknown \<and> length (causes e) > mark
                   then e\<lparr>causes := take mark (causes e)\<rparr> else e))"

subsection \<open>The compiled-pointer cache\<close>

definition compiled :: "string \<Rightarrow> evaluator \<Rightarrow> compiledPointer \<times> evaluator" where
  "compiled pointer e =
     (case pointers e pointer of
        Some c \<Rightarrow> (c, e)
      | None \<Rightarrow> let c = compilePointer pointer in (c, e\<lparr>pointers := (pointers e)(pointer \<mapsto> c)\<rparr>))"

definition resolve :: "json \<Rightarrow> string \<Rightarrow> evaluator \<Rightarrow> json option \<times> evaluator" where
  "resolve document pointer e =
     (let (c, e') = compiled pointer e in (resolveCompiled c document, e'))"

subsection \<open>Fact conditions\<close>

definition dedupKinds :: "json list \<Rightarrow> string list" where
  "dedupKinds operands = uniqueList (map jsonType operands)"

definition noteTypeMismatch ::
  "string \<Rightarrow> string \<Rightarrow> json \<Rightarrow> json list \<Rightarrow> evaluator \<Rightarrow> evaluator" where
  "noteTypeMismatch path operator value operands e =
     (if operands = [] then e
      else let kinds = dedupKinds operands
           in if jsonType value \<in> set kinds then e
              else e\<lparr>mismatches := mismatches e @
                      [\<lparr>tmPath = path, tmWithin = None, tmOperator = operator,
                        tmFactType = jsonType value, tmOperandTypes = kinds\<rparr>]\<rparr>)"

definition orderedVerdict :: "string \<Rightarrow> int \<Rightarrow> bool" where
  "orderedVerdict operator comparison =
     (if operator = ''greater-than'' then comparison > 0
      else if operator = ''greater-than-or-equal'' then comparison \<ge> 0
      else if operator = ''less-than'' then comparison < 0
      else comparison \<le> 0)"

definition evalFact :: "object \<Rightarrow> json \<Rightarrow> evaluator \<Rightarrow> tri \<times> evaluator" where
  "evalFact condition doc e =
     (case asString (jget condition ''path'') of
        None \<Rightarrow> unknownWith (causeOnly ''unsupported'') e
      | Some path \<Rightarrow>
        (case resolve doc path e of
           (None, e1) \<Rightarrow> unknownWith (causeAt path ''absent'' []) e1
         | (Some value, e1) \<Rightarrow>
           (let operand = jget condition ''value'';
                operator = stringOrEmpty (jget condition ''operator'')
            in if OrderedOperator operator then
                 (case decimalCompare value operand of
                    None \<Rightarrow> unknownWith (causeAt path ''not-comparable'' (jsonType value)) e1
                  | Some comparison \<Rightarrow> (triFromBool (orderedVerdict operator comparison), e1))
               else if operator = ''equals'' then
                 (triFromBool (jsonEqual value operand), noteTypeMismatch path operator value [operand] e1)
               else if operator = ''not-equals'' then
                 (triFromBool (\<not> jsonEqual value operand), noteTypeMismatch path operator value [operand] e1)
               else if operator = ''in'' then
                 (case operand of
                    JArray items \<Rightarrow>
                      (triFromBool (list_ex (jsonEqual value) items),
                       noteTypeMismatch path operator value items e1)
                  | _ \<Rightarrow> unknownWith (causeAt path ''unsupported'' []) e1)
               else unknownWith (causeAt path ''unsupported'' []) e1)))"

definition evidencePresent :: "object \<Rightarrow> evaluator \<Rightarrow> tri \<times> evaluator" where
  "evidencePresent condition e =
     (case asString (jget condition ''evidenceRequirement'') of
        None \<Rightarrow> unknownWith (causeOnly ''unsupported'') e
      | Some name \<Rightarrow>
        (case evidence e name of
           None \<Rightarrow> unknownWith (causeRequirement name ''unknown'') e
         | Some presence \<Rightarrow>
             if presence = triUnknown then unknownWith (causeRequirement name ''unknown'') e
             else (presence, e)))"

subsection \<open>Draft RFC 0008 aggregates\<close>

definition selectArray :: "object \<Rightarrow> json \<Rightarrow> evaluator \<Rightarrow> json list option \<times> evaluator" where
  "selectArray node doc e =
     (case asString (jget node ''path'') of
        None \<Rightarrow> (None, e\<lparr>collectionFailure := Some (causeOnly ''unsupported'')\<rparr>)
      | Some path \<Rightarrow>
        (case resolve doc path e of
           (None, e1) \<Rightarrow> (None, e1\<lparr>collectionFailure := Some (causeAt path ''absent'' [])\<rparr>)
         | (Some selected, e1) \<Rightarrow>
           (case selected of
              JArray elements \<Rightarrow> (Some elements, e1)
            | _ \<Rightarrow> (None, e1\<lparr>collectionFailure :=
                             Some (causeAt path ''not-an-array'' (jsonType selected))\<rparr>))))"

text \<open>The labelling half of \<open>withinCollection\<close>.\<close>

definition labelCause :: "string \<Rightarrow> UnknownCause \<Rightarrow> UnknownCause" where
  "labelCause collection c =
     (if ucWithin c = None \<and> ucPath c \<noteq> None then c\<lparr>ucWithin := Some collection\<rparr> else c)"

definition labelMismatch :: "string \<Rightarrow> TypeMismatch \<Rightarrow> TypeMismatch" where
  "labelMismatch collection m = (if tmWithin m = None then m\<lparr>tmWithin := Some collection\<rparr> else m)"

definition labelFrom :: "nat \<Rightarrow> ('a \<Rightarrow> 'a) \<Rightarrow> 'a list \<Rightarrow> 'a list" where
  "labelFrom mark f xs = take mark xs @ map f (drop mark xs)"

definition withinCollection ::
  "object \<Rightarrow> (evaluator \<Rightarrow> tri \<times> evaluator) \<Rightarrow> evaluator \<Rightarrow> tri \<times> evaluator" where
  "withinCollection node run e =
     (let collection = stringOrEmpty (jget node ''path'');
          causeMark = length (causes e);
          mismatchMark = length (mismatches e);
          (verdict, e1) = run (e\<lparr>collectionFailure := None\<rparr>);
          e2 = e1\<lparr>causes := labelFrom causeMark (labelCause collection) (causes e1),
                  mismatches := labelFrom mismatchMark (labelMismatch collection) (mismatches e1)\<rparr>;
          e3 = (case collectionFailure e2 of
                  None \<Rightarrow> e2
                | Some failure \<Rightarrow> (noteUnknown failure e2)\<lparr>collectionFailure := None\<rparr>)
      in keepCausesIf causeMark (verdict, e3))"

lemma withinCollection_cong [fundef_cong]:
  "node = node' \<Longrightarrow> e = e' \<Longrightarrow> (\<And>x. run x = run' x) \<Longrightarrow>
   withinCollection node run e = withinCollection node' run' e'"
  by (simp add: withinCollection_def)

text \<open>The loop of \<open>uniform\<close>: the elected representative and whether a member lacked \<open>at\<close>.\<close>

fun uniformMembers ::
  "string \<Rightarrow> json list \<Rightarrow> json option \<Rightarrow> bool \<Rightarrow> evaluator \<Rightarrow> tri \<times> evaluator" where
  "uniformMembers atPath [] representative missing e =
     (if missing then unknownWith (causeAt atPath ''absent'' []) e else (triTrue, e))"
| "uniformMembers atPath (member # rest) representative missing e =
     (case resolve member atPath e of
        (None, e1) \<Rightarrow> uniformMembers atPath rest representative True e1
      | (Some value, e1) \<Rightarrow>
        (let canonical = canonicalNumbers value
         in case representative of
              None \<Rightarrow> uniformMembers atPath rest (Some canonical) missing e1
            | Some elected \<Rightarrow>
                if \<not> jsonEqual elected canonical then (triFalse, e1)
                else uniformMembers atPath rest representative missing e1))"

definition uniform :: "object \<Rightarrow> json \<Rightarrow> evaluator \<Rightarrow> tri \<times> evaluator" where
  "uniform node doc e =
     (case asString (jget node ''at'') of
        None \<Rightarrow> unknownWith (causeOnly ''unsupported'') e
      | Some atPath \<Rightarrow>
        (case selectArray node doc e of
           (None, e1) \<Rightarrow> (triUnknown, e1)
         | (Some members, e1) \<Rightarrow>
             if members = [] then (triTrue, e1) else uniformMembers atPath members None False e1))"

definition dominantOf :: "object \<Rightarrow> tri" where
  "dominantOf node = (if jget node ''op'' = JString ''every'' then triFalse else triTrue)"

definition vacuousOf :: "object \<Rightarrow> tri" where
  "vacuousOf node = (if jget node ''op'' = JString ''every'' then triTrue else triFalse)"

subsection \<open>The condition walk\<close>

lemma condition_sizes:
  "2 * size (jget m k) < Suc (Suc (2 * size_list (size_prod (\<lambda>x. 0) size) m))"
  "2 * size (jget m k) < Suc (2 * size_list (size_prod (\<lambda>x. 0) size) m)"
  "jget m k = JArray xs \<Longrightarrow>
   2 * size_list size xs < Suc (Suc (2 * size_list (size_prod (\<lambda>x. 0) size) m))"
  using size_jget_le[of m k] by auto

function (sequential)
  condition :: "json \<Rightarrow> json \<Rightarrow> evaluator \<Rightarrow> tri \<times> evaluator"
  and allItems :: "json list \<Rightarrow> json \<Rightarrow> bool \<Rightarrow> evaluator \<Rightarrow> tri \<times> evaluator"
  and anyItems :: "json list \<Rightarrow> json \<Rightarrow> bool \<Rightarrow> evaluator \<Rightarrow> tri \<times> evaluator"
  and quantifyItems :: "object \<Rightarrow> json list \<Rightarrow> bool \<Rightarrow> evaluator \<Rightarrow> tri \<times> evaluator"
where
  "condition (JObject m) doc e =
     (case asString (jget m ''op'') of
        None \<Rightarrow> unknownWith (causeOnly ''unsupported'') e
      | Some op \<Rightarrow>
        if op = ''literal'' then
          (case jget m ''value'' of
             JBool value \<Rightarrow> (triFromBool value, e)
           | _ \<Rightarrow> unknownWith (causeOnly ''unsupported'') e)
        else if op = ''all'' then
          keepCausesIf (length (causes e))
            (case jget m ''conditions'' of JArray items \<Rightarrow> allItems items doc False e | _ \<Rightarrow> (triUnknown, e))
        else if op = ''any'' then
          keepCausesIf (length (causes e))
            (case jget m ''conditions'' of JArray items \<Rightarrow> anyItems items doc False e | _ \<Rightarrow> (triUnknown, e))
        else if op = ''not'' then
          (case condition (jget m ''condition'') doc e of
             (triTrue, e1) \<Rightarrow> (triFalse, e1)
           | (triFalse, e1) \<Rightarrow> (triTrue, e1)
           | (triUnknown, e1) \<Rightarrow> (triUnknown, e1))
        else if op = ''fact'' then evalFact m doc e
        else if op = ''evidence-present'' then evidencePresent m e
        else if op = ''exists'' \<or> op = ''every'' then
          (if \<not> quantifiers e then unknownWith (causeOnly ''unsupported'') e
           else withinCollection m
                  (\<lambda>x. case selectArray m doc x of
                         (None, x1) \<Rightarrow> (triUnknown, x1)
                       | (Some elements, x1) \<Rightarrow> quantifyItems m elements False x1) e)
        else if op = ''uniform'' then
          (if \<not> quantifiers e then unknownWith (causeOnly ''unsupported'') e
           else withinCollection m (uniform m doc) e)
        else unknownWith (causeOnly ''unsupported'') e)"
| "condition node doc e = unknownWith (causeOnly ''unsupported'') e"
| "allItems [] doc sawUnknown e = (if sawUnknown then triUnknown else triTrue, e)"
| "allItems (item # items) doc sawUnknown e =
     (case condition item doc e of
        (triFalse, e1) \<Rightarrow> (triFalse, e1)
      | (triUnknown, e1) \<Rightarrow> allItems items doc True e1
      | (triTrue, e1) \<Rightarrow> allItems items doc sawUnknown e1)"
| "anyItems [] doc sawUnknown e = (if sawUnknown then triUnknown else triFalse, e)"
| "anyItems (item # items) doc sawUnknown e =
     (case condition item doc e of
        (triTrue, e1) \<Rightarrow> (triTrue, e1)
      | (triUnknown, e1) \<Rightarrow> anyItems items doc True e1
      | (triFalse, e1) \<Rightarrow> anyItems items doc sawUnknown e1)"
| "quantifyItems m [] sawUnknown e = (if sawUnknown then triUnknown else vacuousOf m, e)"
| "quantifyItems m (element # elements) sawUnknown e =
     (case condition (jget m ''where'') element e of
        (verdict, e1) \<Rightarrow>
          if verdict = dominantOf m then (dominantOf m, e1)
          else quantifyItems m elements (sawUnknown \<or> verdict = triUnknown) e1)"
  by pat_completeness auto
termination
  by (relation "measures
        [\<lambda>x. case x of Inl (Inl (n, _)) \<Rightarrow> 2 * size n | Inl (Inr (items, _)) \<Rightarrow> 2 * size_list size items
                     | Inr (Inl (items, _)) \<Rightarrow> 2 * size_list size items
                     | Inr (Inr (m, _)) \<Rightarrow> 2 * size (JObject m) - 1,
         \<lambda>x. case x of Inr (Inr (_, elements, _)) \<Rightarrow> length elements + 1 | _ \<Rightarrow> 0]")
     (auto simp: condition_sizes)

end
