(* ===== verification/Accounting.thy ===== *)
theory Accounting
  imports Evaluator
begin

section \<open>Work accounting and stages\<close>

text \<open>
  \<open>charge\<close>, \<open>chargePointer\<close>, \<open>preflight\<close>, \<open>valueUnits\<close> and \<open>evaluate\<close> of
  \<open>internal/evaluation/quantifier.go\<close> and \<open>evaluateStage\<close> of \<open>condition.go\<close>. Work units are
  natural numbers: the admitted documents bound every sum far below a 64-bit \<open>int\<close>.
\<close>

subsection \<open>Sizes of values\<close>

fun valueUnits :: "json \<Rightarrow> nat" where
  "valueUnits (JArray xs) = 1 + sum_list (map valueUnits xs)"
| "valueUnits (JObject m) = 1 + sum_list (map (\<lambda>p. length (fst p) + valueUnits (snd p)) m)"
| "valueUnits (JString s) = 1 + length s"
| "valueUnits (JNumber t) = 1 + length t"
| "valueUnits (JBool b) = 1"
| "valueUnits JNull = 1"

subsection \<open>Charging\<close>

definition charge :: "nat \<Rightarrow> evaluator \<Rightarrow> bool \<times> evaluator" where
  "charge units e =
     (let total = charged e + units;
          over = exceeded e \<or> budget e < total
      in (\<not> over, e\<lparr>charged := total, exceeded := over\<rparr>))"

definition pointerSteps :: "compiledPointer \<Rightarrow> nat" where
  "pointerSteps c = max 1 (length (tokens c)) + ptrBytes c"

definition chargePointer :: "string \<Rightarrow> evaluator \<Rightarrow> bool \<times> evaluator" where
  "chargePointer path e =
     (case pointers e path of
        Some c \<Rightarrow> charge (pointerSteps c) e
      | None \<Rightarrow>
        (let (ok, e1) = charge (1 + length path) e
         in if \<not> ok then (False, e1)
            else let (c, e2) = compiled path e1 in charge (pointerSteps c) e2))"

text \<open>The member loop of \<open>uniform\<close>: \<open>None\<close> when a charge overran, else the count of resolved
  values and the largest of them.\<close>

fun preflightMembers ::
  "string \<Rightarrow> json list \<Rightarrow> nat \<Rightarrow> nat \<Rightarrow> evaluator \<Rightarrow> (nat \<times> nat) option \<times> evaluator" where
  "preflightMembers atPath [] resolvedValues largest e = (Some (resolvedValues, largest), e)"
| "preflightMembers atPath (member # rest) resolvedValues largest e =
     (let (ok, e1) = chargePointer atPath e
      in if \<not> ok then (None, e1)
         else (case resolve member atPath e1 of
                 (None, e2) \<Rightarrow> preflightMembers atPath rest resolvedValues largest e2
               | (Some value, e2) \<Rightarrow>
                 (let units = valueUnits value;
                      largest' = (if units > largest then units else largest);
                      (ok2, e3) = charge units e2
                  in if \<not> ok2 then (None, e3)
                     else preflightMembers atPath rest (resolvedValues + 1) largest' e3)))"

definition preflightFact :: "object \<Rightarrow> json \<Rightarrow> evaluator \<Rightarrow> evaluator" where
  "preflightFact m doc e =
     (let (ok, e1) = charge 1 e
      in if \<not> ok then e1
         else let path = stringOrEmpty (jget m ''path''); (ok2, e2) = chargePointer path e1
              in if \<not> ok2 then e2
                 else let (value, e3) = resolve doc path e2;
                          selected = (case value of None \<Rightarrow> 0 | Some v \<Rightarrow> valueUnits v);
                          comparisons = (if jget m ''operator'' = JString ''in''
                                         then length (asArray (jget m ''value'')) else 1)
                      in snd (charge (comparisons * selected + valueUnits (jget m ''value'')) e3))"

text \<open>\<open>elements, _ := e.selectArray(...)\<close>: no elements when it does not resolve.\<close>

definition elementsOf :: "json list option \<Rightarrow> json list" where
  "elementsOf r = (case r of None \<Rightarrow> [] | Some xs \<Rightarrow> xs)"

definition preflightUniform :: "object \<Rightarrow> json \<Rightarrow> evaluator \<Rightarrow> evaluator" where
  "preflightUniform m doc e =
     (let (ok, e1) = charge 1 e
      in if \<not> ok then e1
         else let (ok2, e2) = chargePointer (stringOrEmpty (jget m ''path'')) e1
              in if \<not> ok2 then e2
                 else let (members, e3) = selectArray m doc e2
                      in (case preflightMembers (stringOrEmpty (jget m ''at'')) (elementsOf members) 0 0 e3 of
                            (None, e4) \<Rightarrow> e4
                          | (Some (resolvedValues, largest), e4) \<Rightarrow>
                              if resolvedValues > 1 then snd (charge ((resolvedValues - 1) * largest) e4)
                              else e4))"

function (sequential)
  preflight :: "json \<Rightarrow> json \<Rightarrow> evaluator \<Rightarrow> evaluator"
  and preflightItems :: "json list \<Rightarrow> json \<Rightarrow> evaluator \<Rightarrow> evaluator"
  and preflightElements :: "object \<Rightarrow> json list \<Rightarrow> evaluator \<Rightarrow> evaluator"
where
  "preflight (JObject m) doc e =
     (if exceeded e then e
      else case asString (jget m ''op'') of
        None \<Rightarrow> snd (charge 1 e)
      | Some op \<Rightarrow>
        if op = ''not'' then
          (let (ok, e1) = charge 1 e in if ok then preflight (jget m ''condition'') doc e1 else e1)
        else if op = ''all'' \<or> op = ''any'' then
          (let (ok, e1) = charge 1 e
           in if \<not> ok then e1
              else case jget m ''conditions'' of JArray items \<Rightarrow> preflightItems items doc e1 | _ \<Rightarrow> e1)
        else if op = ''fact'' then preflightFact m doc e
        else if op = ''evidence-present'' then
          snd (charge (1 + length (stringOrEmpty (jget m ''evidenceRequirement''))) e)
        else if op = ''exists'' \<or> op = ''every'' then
          (let (ok, e1) = charge 1 e
           in if \<not> ok then e1
              else let (ok2, e2) = chargePointer (stringOrEmpty (jget m ''path'')) e1
                   in if \<not> ok2 then e2
                      else let (elements, e3) = selectArray m doc e2
                           in preflightElements m (elementsOf elements) e3)
        else if op = ''uniform'' then preflightUniform m doc e
        else snd (charge 1 e))"
| "preflight node doc e = (if exceeded e then e else snd (charge 1 e))"
| "preflightItems [] doc e = e"
| "preflightItems (child # children) doc e =
     (let e1 = preflight child doc e in if exceeded e1 then e1 else preflightItems children doc e1)"
| "preflightElements m [] e = e"
| "preflightElements m (element # elements) e =
     (let e1 = preflight (jget m ''where'') element e
      in if exceeded e1 then e1 else preflightElements m elements e1)"
  by pat_completeness auto
termination
  by (relation "measures
        [\<lambda>x. case x of Inl (n, _) \<Rightarrow> 2 * size n | Inr (Inl (items, _)) \<Rightarrow> 2 * size_list size items
                     | Inr (Inr (m, _)) \<Rightarrow> 2 * size (JObject m) - 1,
         \<lambda>x. case x of Inr (Inr (_, elements, _)) \<Rightarrow> length elements + 1 | _ \<Rightarrow> 0]")
     (auto simp: condition_sizes)

subsection \<open>One stage\<close>

definition evaluate :: "json \<Rightarrow> json \<Rightarrow> evaluator \<Rightarrow> tri \<times> evaluator" where
  "evaluate node doc e =
     (let e1 = preflight node doc e
      in if exceeded e1 then (triUnknown, e1) else condition node doc e1)"

record causeKey =
  ckPathSet :: bool
  ckWithinSet :: bool
  ckPath :: string
  ckRequirement :: string
  ckWithin :: string
  ckCause :: string
  ckFactType :: string

record mismatchKey =
  mkWithinSet :: bool
  mkPath :: string
  mkWithin :: string
  mkOperator :: string
  mkFactType :: string
  mkOperandTypes :: string

definition textOf :: "string option \<Rightarrow> string" where
  "textOf t = (case t of None \<Rightarrow> [] | Some s \<Rightarrow> s)"

definition keyOfCause :: "UnknownCause \<Rightarrow> causeKey" where
  "keyOfCause c =
     \<lparr>ckPathSet = (ucPath c \<noteq> None), ckWithinSet = (ucWithin c \<noteq> None), ckPath = textOf (ucPath c),
      ckRequirement = ucRequirement c, ckWithin = textOf (ucWithin c), ckCause = ucCause c,
      ckFactType = ucFactType c\<rparr>"

definition keyOfMismatch :: "TypeMismatch \<Rightarrow> mismatchKey" where
  "keyOfMismatch m =
     \<lparr>mkWithinSet = (tmWithin m \<noteq> None), mkPath = tmPath m, mkWithin = textOf (tmWithin m),
      mkOperator = tmOperator m, mkFactType = tmFactType m,
      mkOperandTypes = joinWith [CHR 0x00] (tmOperandTypes m)\<rparr>"

text \<open>The two loops of \<open>evaluateStage\<close>: keep a record whose key was not seen before.\<close>

fun keepFirst :: "('a \<Rightarrow> 'k) \<Rightarrow> 'k list \<Rightarrow> 'a list \<Rightarrow> 'a list" where
  "keepFirst key seen [] = []"
| "keepFirst key seen (x # xs) =
     (if key x \<in> set seen then keepFirst key seen xs else x # keepFirst key (key x # seen) xs)"

definition evaluateStage ::
  "json \<Rightarrow> json \<Rightarrow> evaluator \<Rightarrow> (tri \<times> UnknownCause list \<times> TypeMismatch list) \<times> evaluator" where
  "evaluateStage node doc e =
     (let (verdict, e1) = evaluate node doc (e\<lparr>causes := [], mismatches := []\<rparr>);
          kept = (if verdict = triUnknown \<and> \<not> exceeded e1 then keepFirst keyOfCause [] (causes e1) else []);
          recorded = keepFirst keyOfMismatch [] (mismatches e1)
      in ((verdict, kept, recorded), e1\<lparr>causes := [], mismatches := []\<rparr>))"

subsection \<open>The evaluator's meter\<close>

interpretation em: meter charge charged budget exceeded
  by unfold_locales (auto simp: charge_def Let_def)

lemma charge_frame [simp, frame]:
  "evidence (snd (charge u e)) = evidence e" "quantifiers (snd (charge u e)) = quantifiers e"
  "outcomeValues (snd (charge u e)) = outcomeValues e" "pointers (snd (charge u e)) = pointers e"
  "causes (snd (charge u e)) = causes e" "mismatches (snd (charge u e)) = mismatches e"
  "unmetEvidence (snd (charge u e)) = unmetEvidence e"
  "collectionFailure (snd (charge u e)) = collectionFailure e"
  by (simp_all add: charge_def Let_def)

end
