(* ===== verification/Disposition.thy ===== *)
theory Disposition
  imports Json_Value Utf8
begin

section \<open>Portable dispositions\<close>

text \<open>
  \<open>internal/result/result.go\<close> and \<open>internal/result/contract.go\<close>: the evaluator contract, the
  disposition with its handoff, and the gate every disposition passes on its way to bytes. An
  \<open>error\<close> result is \<open>Some\<close> of the rule it names.
\<close>

subsection \<open>Evaluator contracts\<close>

record EvaluatorContract =
  ecSpecVersion :: string
  ecProfile :: string

definition EvaluatorSpecVersion :: string where
  "EvaluatorSpecVersion = ''0.2.0-draft''"

definition LegacyEvaluatorContract :: EvaluatorContract where
  "LegacyEvaluatorContract = \<lparr>ecSpecVersion = EvaluatorSpecVersion, ecProfile = []\<rparr>"

definition Core030EvaluatorContract :: EvaluatorContract where
  "Core030EvaluatorContract = \<lparr>ecSpecVersion = ''0.3.0'', ecProfile = ''base''\<rparr>"

definition Version :: "EvaluatorContract \<Rightarrow> string" where
  "Version c = (if ecSpecVersion c = [] then EvaluatorSpecVersion else ecSpecVersion c)"

datatype dispositionError =
    UnsupportedContract | UnsupportedProfile | ProfileNotDeclared
  | ValueInCore03 | RoutesNotAdmitted | TooManyRoutes | RoutedState | BadRouteTarget
  | BadKind | BadHandoffState | BadReason string
  | OutcomeIdMissing | OutcomeIdPresent | ReasonsWithOutcome | ReasonsEmpty | NotApplicableReasons
  | TriggeredByState | TriggerNotRetained string | DirectRequest
  | ValueWithoutOutcome | ValueEmpty | BadValueName string | BadValueText string | BadValueType string

definition validateContract :: "EvaluatorContract \<Rightarrow> dispositionError option" where
  "validateContract c =
     (if Version c \<noteq> EvaluatorSpecVersion \<and> Version c \<noteq> ''0.3.0'' then Some UnsupportedContract
      else if ecProfile c \<noteq> [] \<and> ecProfile c \<noteq> ''base'' then Some UnsupportedProfile
      else if Version c \<noteq> ''0.3.0'' \<and> ecProfile c \<noteq> [] then Some ProfileNotDeclared
      else None)"

subsection \<open>The disposition\<close>

record HandoffTarget =
  htKind :: string
  htName :: string

text \<open>\<open>Routes\<close> is nil for a pack without routes and non-nil, possibly empty, for a routed one.\<close>

record Handoff =
  hState :: string
  hTriggeredBy :: "string list"
  hRoutes :: "HandoffTarget list option"

record Disposition =
  dContract :: EvaluatorContract
  dKind :: string
  dOutcomeID :: string
  dReasons :: "string list"
  dHandoff :: Handoff
  dValue :: "object option"

definition ReasonExceptionEscalation :: string where
  "ReasonExceptionEscalation = ''exception-escalation''"

definition dispositionKinds :: "string list" where
  "dispositionKinds = [''outcome'', ''not-applicable'', ''unresolved'']"

definition handoffStates :: "string list" where
  "handoffStates = [''none'', ''requested'']"

definition dispositionReasons :: "string list" where
  "dispositionReasons = [''not-applicable'', ''missing-required-evidence'', ''unknown'', ''conflict'',
     ''no-match'', ReasonExceptionEscalation]"

text \<open>\<open>sortedSet\<close>: duplicate-free and in byte order.\<close>

definition sortedSet :: "string list \<Rightarrow> string list" where
  "sortedSet values = sort (uniqueList values)"

definition isLower :: "char \<Rightarrow> bool" where
  "isLower c \<longleftrightarrow> CHR ''a'' \<le> c \<and> c \<le> CHR ''z''"

definition isUpper :: "char \<Rightarrow> bool" where
  "isUpper c \<longleftrightarrow> CHR ''A'' \<le> c \<and> c \<le> CHR ''Z''"

definition OutcomeValueName :: "string \<Rightarrow> bool" where
  "OutcomeValueName name =
     (case name of
        [] \<Rightarrow> False
      | c # rest \<Rightarrow> if \<not> isLower c then False
                   else list_all (\<lambda>x. \<not> (\<not> (isLower x \<or> isUpper x) \<and> \<not> isDigit x)) rest)"

text \<open>The loop of \<open>validateValue\<close> over the sorted names.\<close>

fun validateMembers :: "object \<Rightarrow> string list \<Rightarrow> dispositionError option" where
  "validateMembers m [] = None"
| "validateMembers m (name # names) =
     (if \<not> OutcomeValueName name then Some (BadValueName name)
      else (case jget m name of
              JBool _ \<Rightarrow> validateMembers m names
            | JString member \<Rightarrow>
                if \<not> validUtf8 member then Some (BadValueText name) else validateMembers m names
            | _ \<Rightarrow> Some (BadValueType name)))"

definition validateValue :: "Disposition \<Rightarrow> dispositionError option" where
  "validateValue d =
     (case dValue d of
        None \<Rightarrow> None
      | Some m \<Rightarrow>
          if dKind d \<noteq> ''outcome'' then Some ValueWithoutOutcome
          else if m = [] then Some ValueEmpty
          else validateMembers m (sortedMembers m))"

definition admittedTarget :: "HandoffTarget \<Rightarrow> bool" where
  "admittedTarget t \<longleftrightarrow> \<not> (htKind t \<notin> {''human-role'', ''queue'', ''system''} \<or> htName t = [])"

text \<open>The route rules of \<open>validate\<close>, applied only to a routed disposition.\<close>

definition validateRoutes :: "Disposition \<Rightarrow> dispositionError option" where
  "validateRoutes d =
     (case hRoutes (dHandoff d) of
        None \<Rightarrow> None
      | Some routes \<Rightarrow>
          if Version (dContract d) \<noteq> ''0.3.0'' then Some RoutesNotAdmitted
          else if length routes > 8 then Some TooManyRoutes
          else if (length routes > 0) \<noteq> (hState (dHandoff d) = ''requested'') then Some RoutedState
          else if \<not> list_all admittedTarget routes then Some BadRouteTarget
          else None)"

definition validateKind :: "Disposition \<Rightarrow> string list \<Rightarrow> dispositionError option" where
  "validateKind d reasons =
     (if dKind d = ''outcome'' then
        (if dOutcomeID d = [] then Some OutcomeIdMissing
         else if reasons \<noteq> [] then Some ReasonsWithOutcome else None)
      else (if dOutcomeID d \<noteq> [] then Some OutcomeIdPresent
            else if reasons = [] then Some ReasonsEmpty else None))"

text \<open>The first error of two checks in order.\<close>

definition orElse :: "'e option \<Rightarrow> 'e option \<Rightarrow> 'e option" where
  "orElse a b = (case a of Some e \<Rightarrow> Some e | None \<Rightarrow> b)"

definition validateHandoff :: "Disposition \<Rightarrow> string list \<Rightarrow> dispositionError option" where
  "validateHandoff d reasons =
     (let h = dHandoff d in
      if (hState h = ''requested'') \<noteq> (length (hTriggeredBy h) > 0) then Some TriggeredByState
      else (case List.find (\<lambda>t. t \<notin> set reasons) (hTriggeredBy h) of
              Some t \<Rightarrow> Some (TriggerNotRetained t)
            | None \<Rightarrow>
                if \<not> (Version (dContract d) = ''0.3.0'' \<and> hRoutes h \<noteq> None \<and> hState h = ''none'')
                   \<and> (ReasonExceptionEscalation \<in> set reasons)
                     \<noteq> (ReasonExceptionEscalation \<in> set (hTriggeredBy h))
                then Some DirectRequest else None))"

definition dispositionValidate :: "Disposition \<Rightarrow> dispositionError option" where
  "dispositionValidate d =
     (let reasons = sortedSet (dReasons d) in
      orElse (validateContract (dContract d))
     (orElse (if Version (dContract d) = ''0.3.0'' \<and> dValue d \<noteq> None then Some ValueInCore03 else None)
     (orElse (validateRoutes d)
     (orElse (if dKind d \<notin> set dispositionKinds then Some BadKind else None)
     (orElse (if hState (dHandoff d) \<notin> set handoffStates then Some BadHandoffState else None)
     (orElse (map_option BadReason (List.find (\<lambda>r. r \<notin> set dispositionReasons) reasons))
     (orElse (validateKind d reasons)
     (orElse (if dKind d = ''not-applicable'' \<and> (length reasons \<noteq> 1 \<or> hd reasons \<noteq> ''not-applicable'')
              then Some NotApplicableReasons else None)
     (orElse (validateHandoff d reasons)
             (validateValue d))))))))))"

subsection \<open>What a legal disposition is\<close>

definition legalValue :: "object \<Rightarrow> bool" where
  "legalValue m \<longleftrightarrow>
     m \<noteq> [] \<and> (\<forall>name \<in> fst ` set m. OutcomeValueName name \<and>
        ((\<exists>b. jget m name = JBool b) \<or> (\<exists>s. jget m name = JString s \<and> validUtf8 s)))"

text \<open>Section 8.3 of JPS Core, with the value member of draft RFC 0016, as one statement about the
  disposition alone.\<close>

definition legalDisposition :: "Disposition \<Rightarrow> bool" where
  "legalDisposition d \<longleftrightarrow>
     (let c = dContract d; h = dHandoff d; rs = set (dReasons d); ts = set (hTriggeredBy h) in
      validateContract c = None \<and>
      (dKind d = ''outcome'' \<or> dKind d = ''not-applicable'' \<or> dKind d = ''unresolved'') \<and>
      (hState h = ''none'' \<or> hState h = ''requested'') \<and>
      rs \<subseteq> set dispositionReasons \<and>
      (dKind d = ''outcome'' \<longleftrightarrow> dOutcomeID d \<noteq> []) \<and>
      (dKind d = ''outcome'' \<longleftrightarrow> rs = {}) \<and>
      (dKind d = ''not-applicable'' \<longrightarrow> rs = {''not-applicable''}) \<and>
      (hState h = ''requested'' \<longleftrightarrow> ts \<noteq> {}) \<and> ts \<subseteq> rs \<and>
      (Version c = ''0.3.0'' \<and> hRoutes h \<noteq> None \<and> hState h = ''none'' \<or>
       (ReasonExceptionEscalation \<in> rs \<longleftrightarrow> ReasonExceptionEscalation \<in> ts)) \<and>
      (\<forall>routes. hRoutes h = Some routes \<longrightarrow>
         Version c = ''0.3.0'' \<and> length routes \<le> 8 \<and> (routes \<noteq> [] \<longleftrightarrow> hState h = ''requested'') \<and>
         (\<forall>t \<in> set routes. admittedTarget t)) \<and>
      (\<forall>m. dValue d = Some m \<longrightarrow> Version c \<noteq> ''0.3.0'' \<and> dKind d = ''outcome'' \<and> legalValue m))"

lemma orElse_None [simp]: "orElse a b = None \<longleftrightarrow> a = None \<and> b = None"
  by (simp add: orElse_def split: option.splits)

lemma set_sortedSet [simp]: "set (sortedSet xs) = set xs"
  by (simp add: sortedSet_def)

lemma sortedSet_canonical [simp]: "sorted (sortedSet xs)" "distinct (sortedSet xs)"
  by (simp_all add: sortedSet_def)

lemma sortedSet_eq_iff: "sortedSet xs = sortedSet ys \<longleftrightarrow> set xs = set ys"
  by (metis set_sortedSet sortedSet_canonical sorted_distinct_set_unique)

lemma sortedSet_empty [simp]: "sortedSet xs = [] \<longleftrightarrow> xs = []"
  by (metis set_sortedSet set_empty)

lemma sortedSet_singleton:
  "length (sortedSet xs) = 1 \<and> hd (sortedSet xs) = x \<longleftrightarrow> set xs = {x}"
proof
  assume h: "length (sortedSet xs) = 1 \<and> hd (sortedSet xs) = x"
  then have "sortedSet xs = [x]" by (cases "sortedSet xs") auto
  then show "set xs = {x}" using set_sortedSet[of xs] by simp
next
  assume h: "set xs = {x}"
  have "sortedSet xs = sortedSet [x]" using h by (simp add: sortedSet_eq_iff)
  also have "\<dots> = [x]" by (simp add: sortedSet_def uniqueList_def addUnique_def)
  finally show "length (sortedSet xs) = 1 \<and> hd (sortedSet xs) = x" by simp
qed

lemma find_None: "List.find P xs = None \<longleftrightarrow> (\<forall>x \<in> set xs. \<not> P x)"
  by (auto simp: find_None_iff)

lemma validateMembers_None:
  "validateMembers m names = None \<longleftrightarrow>
     (\<forall>name \<in> set names. OutcomeValueName name \<and>
        ((\<exists>b. jget m name = JBool b) \<or> (\<exists>s. jget m name = JString s \<and> validUtf8 s)))"
  by (induction names) (auto split: json.splits)

lemma validateValue_None:
  "validateValue d = None \<longleftrightarrow> (\<forall>m. dValue d = Some m \<longrightarrow> dKind d = ''outcome'' \<and> legalValue m)"
  by (auto simp: validateValue_def legalValue_def validateMembers_None sortedMembers_def split: option.splits)

lemma validateRoutes_None:
  "validateRoutes d = None \<longleftrightarrow>
     (\<forall>routes. hRoutes (dHandoff d) = Some routes \<longrightarrow>
         Version (dContract d) = ''0.3.0'' \<and> length routes \<le> 8 \<and>
         (routes \<noteq> [] \<longleftrightarrow> hState (dHandoff d) = ''requested'') \<and> (\<forall>t \<in> set routes. admittedTarget t))"
  by (auto simp: validateRoutes_def list_all_iff split: option.splits if_splits)

lemma validateHandoff_None:
  "validateHandoff d reasons = None \<longleftrightarrow>
     (let h = dHandoff d in
      (hState h = ''requested'' \<longleftrightarrow> hTriggeredBy h \<noteq> []) \<and> set (hTriggeredBy h) \<subseteq> set reasons \<and>
      (Version (dContract d) = ''0.3.0'' \<and> hRoutes h \<noteq> None \<and> hState h = ''none'' \<or>
       (ReasonExceptionEscalation \<in> set reasons \<longleftrightarrow> ReasonExceptionEscalation \<in> set (hTriggeredBy h))))"
  by (auto simp: validateHandoff_def Let_def find_None split: option.splits if_splits)
     (auto simp: find_Some_iff dest: nth_mem)

lemma validateKind_None:
  "validateKind d reasons = None \<longleftrightarrow>
     (dKind d = ''outcome'' \<longleftrightarrow> dOutcomeID d \<noteq> []) \<and> (dKind d = ''outcome'' \<longleftrightarrow> reasons = [])"
  by (auto simp: validateKind_def)

lemma dispositionValidate_None: "dispositionValidate d = None \<longleftrightarrow> legalDisposition d"
proof -
  have kinds: "dKind d \<in> set dispositionKinds \<longleftrightarrow>
      dKind d = ''outcome'' \<or> dKind d = ''not-applicable'' \<or> dKind d = ''unresolved''"
    by (simp add: dispositionKinds_def)
  have states: "x \<in> set handoffStates \<longleftrightarrow> x = ''none'' \<or> x = ''requested''" for x
    by (simp add: handoffStates_def)
  have reasons: "map_option BadReason (List.find (\<lambda>r. r \<notin> set dispositionReasons) (sortedSet (dReasons d))) = None
      \<longleftrightarrow> set (dReasons d) \<subseteq> set dispositionReasons"
    by (auto simp: find_None)
  have na: "(dKind d = ''not-applicable'' \<and> (length (sortedSet (dReasons d)) \<noteq> 1 \<or>
       hd (sortedSet (dReasons d)) \<noteq> ''not-applicable'')) \<longleftrightarrow>
      \<not> (dKind d = ''not-applicable'' \<longrightarrow> set (dReasons d) = {''not-applicable''})"
    using sortedSet_singleton[of "dReasons d" "''not-applicable''"] by blast
  have opt: "(if b then Some e else None) = None \<longleftrightarrow> \<not> b" for b and e :: dispositionError by simp
  have val: "(\<forall>m. dValue d = Some m \<longrightarrow> Version (dContract d) \<noteq> ''0.3.0'' \<and> dKind d = ''outcome'' \<and> legalValue m)
      \<longleftrightarrow> \<not> (Version (dContract d) = ''0.3.0'' \<and> dValue d \<noteq> None) \<and>
          (\<forall>m. dValue d = Some m \<longrightarrow> dKind d = ''outcome'' \<and> legalValue m)"
    by (cases "dValue d") auto
  show ?thesis
    unfolding dispositionValidate_def legalDisposition_def Let_def orElse_None opt validateRoutes_None
      validateHandoff_None validateKind_None validateValue_None kinds states reasons na
      set_sortedSet sortedSet_empty set_empty val
    by argo
qed

subsection \<open>Properties\<close>

text \<open>C24: the gate of \<open>Disposition.validate\<close>, with its ordered early returns, admits exactly the
  dispositions that satisfy every rule of section 8.3 about a disposition alone: the closed
  vocabularies, the presence rules, the subset rule, the direct request and the route rules.\<close>

theorem dispositionValidate_exact:
  "dispositionValidate d = None \<longleftrightarrow> legalDisposition d"
  by (rule dispositionValidate_None)

end
