(* ===== verification/Resolve.thy ===== *)
theory Resolve
  imports Accounting Disposition
begin

section \<open>The resolution walk\<close>

text \<open>
  \<open>internal/evaluation/resolve.go\<close>, the resolution step of \<open>rfc0016.go\<close> and
  \<open>contributors.go\<close>: section 8 of JPS Core over one conformant pack. The Go maps
  \<open>reasons\<close>, \<open>suppressed\<close>, \<open>forced\<close> and \<open>candidates\<close> are sets; each is a duplicate-free list here,
  read only by membership, by size and, for a singleton, by its element.
\<close>

subsection \<open>Reasons, failures and the trace\<close>

definition ReasonNotApplicable :: string where "ReasonNotApplicable = ''not-applicable''"
definition ReasonMissingEvidence :: string where "ReasonMissingEvidence = ''missing-required-evidence''"
definition ReasonUnknown :: string where "ReasonUnknown = ''unknown''"
definition ReasonConflict :: string where "ReasonConflict = ''conflict''"
definition ReasonNoMatch :: string where "ReasonNoMatch = ''no-match''"

lemmas reason_defs = ReasonNotApplicable_def ReasonMissingEvidence_def ReasonUnknown_def
  ReasonConflict_def ReasonNoMatch_def ReasonExceptionEscalation_def

text \<open>A \<open>Failure\<close> without its message text.\<close>

record Failure =
  fProfile :: string
  fClass :: string
  fPhase :: string
  fCode :: string
  fExitCode :: nat

definition ExitInvalid :: nat where "ExitInvalid = 1"
definition ExitUnsupported :: nat where "ExitUnsupported = 2"
definition ExitInvocation :: nat where "ExitInvocation = 3"
definition ExitIO :: nat where "ExitIO = 4"
definition ExitInternal :: nat where "ExitInternal = 5"

definition ClassPackNotConformant :: string where "ClassPackNotConformant = ''pack-not-conformant''"
definition ClassMalformedInput :: string where "ClassMalformedInput = ''malformed-input''"
definition ClassUnsupportedRequiredExtension :: string where
  "ClassUnsupportedRequiredExtension = ''unsupported-required-extension''"
definition ClassResourceExhaustion :: string where "ClassResourceExhaustion = ''resource-exhaustion''"
definition PhasePreflight :: string where "PhasePreflight = ''preflight''"
definition PhaseEvaluation :: string where "PhaseEvaluation = ''evaluation''"

definition workLimitFailure :: "evaluator \<Rightarrow> Failure" where
  "workLimitFailure e =
     \<lparr>fProfile = [], fClass = ClassResourceExhaustion, fPhase = PhaseEvaluation,
      fCode = ''JPS-RESOURCE-EVALUATION-WORK-LIMIT'', fExitCode = ExitIO\<rparr>"

record TraceEntry =
  teStage :: string
  teID :: string
  teCondition :: string
  teEffect :: string
  teOutcome :: string
  teSuppressed :: bool
  teOnUnknown :: string
  teSkipped :: bool
  teUnknownCauses :: "UnknownCause list"
  teTypeMismatches :: "TypeMismatch list"

definition traceEntry :: "string \<Rightarrow> string \<Rightarrow> string \<Rightarrow> TraceEntry" where
  "traceEntry stage ident cond =
     \<lparr>teStage = stage, teID = ident, teCondition = cond, teEffect = [], teOutcome = [],
      teSuppressed = False, teOnUnknown = [], teSkipped = False, teUnknownCauses = [],
      teTypeMismatches = []\<rparr>"

definition stageEntry ::
  "string \<Rightarrow> string \<Rightarrow> tri \<Rightarrow> UnknownCause list \<Rightarrow> TypeMismatch list \<Rightarrow> TraceEntry" where
  "stageEntry stage ident verdict cs ms =
     (traceEntry stage ident (triString verdict))\<lparr>teUnknownCauses := cs, teTypeMismatches := ms\<rparr>"

record resolver =
  rPack :: object
  rFacts :: json
  rEval :: evaluator
  rReasons :: "string list"
  rDirect :: bool
  rTrace :: "TraceEntry list"

definition addReason :: "string \<Rightarrow> resolver \<Rightarrow> resolver" where
  "addReason reason r = r\<lparr>rReasons := addUnique (rReasons r) reason\<rparr>"

definition addTrace :: "TraceEntry \<Rightarrow> resolver \<Rightarrow> resolver" where
  "addTrace entry r = r\<lparr>rTrace := rTrace r @ [entry]\<rparr>"

text \<open>\<open>r.eval.evaluateStage(node, facts)\<close>.\<close>

definition runStage ::
  "json \<Rightarrow> resolver \<Rightarrow> (tri \<times> UnknownCause list \<times> TypeMismatch list) \<times> resolver" where
  "runStage node r = (let (v, e) = evaluateStage node (rFacts r) (rEval r) in (v, r\<lparr>rEval := e\<rparr>))"

subsection \<open>The disposition\<close>

fun addTriggers :: "string list \<Rightarrow> json list \<Rightarrow> string list \<Rightarrow> string list" where
  "addTriggers reasons [] triggeredBy = triggeredBy"
| "addTriggers reasons (trigger # rest) triggeredBy =
     (case trigger of
        JString name \<Rightarrow>
          if name \<in> set reasons \<and> name \<notin> set triggeredBy then addTriggers reasons rest (triggeredBy @ [name])
          else addTriggers reasons rest triggeredBy
      | _ \<Rightarrow> addTriggers reasons rest triggeredBy)"

definition routeTarget :: "object \<Rightarrow> HandoffTarget" where
  "routeTarget holder =
     (let target = objectOrNil (jget holder ''target'')
      in \<lparr>htKind = stringOrEmpty (jget target ''kind''), htName = stringOrEmpty (jget target ''name'')\<rparr>)"

definition routeSelected :: "string list \<Rightarrow> object \<Rightarrow> bool" where
  "routeSelected reasons route =
     (if \<not> hasMember route ''triggers'' then True
      else list_ex (\<lambda>raw. stringOrEmpty raw \<in> set reasons) (asArray (jget route ''triggers'')))"

definition dispositionOf :: "resolver \<Rightarrow> string \<Rightarrow> string \<Rightarrow> Disposition \<times> HandoffTarget option" where
  "dispositionOf r kind outcomeID =
     (let escalation = asObject (jget (rPack r) ''escalation'');
          routes = (case jget (objectOrNil (jget (rPack r) ''escalation'')) ''routes'' of
                      JArray xs \<Rightarrow> Some xs | _ \<Rightarrow> None);
          noneHandoff = \<lparr>hState = ''none'', hTriggeredBy = [], hRoutes = map_option (\<lambda>_. []) routes\<rparr>;
          d = \<lparr>dContract = \<lparr>ecSpecVersion = [], ecProfile = []\<rparr>, dKind = kind, dOutcomeID = outcomeID,
               dReasons = [], dHandoff = noneHandoff, dValue = None\<rparr>
      in if kind = ''outcome'' then (d, None)
         else
           let d = d\<lparr>dReasons := sort (rReasons r)\<rparr>;
               listed = (case escalation of
                           None \<Rightarrow> []
                         | Some m \<Rightarrow> addTriggers (rReasons r) (asArray (jget m ''triggers'')) []);
               triggeredBy = (if rDirect r \<and> ReasonExceptionEscalation \<notin> set listed
                              then listed @ [ReasonExceptionEscalation] else listed)
           in if triggeredBy = [] then (d, None)
              else case routes of
                Some raws \<Rightarrow>
                  (let selected = map routeTarget (filter (routeSelected (rReasons r)) (map objectOrNil raws))
                   in if selected = [] then (d\<lparr>dHandoff := noneHandoff\<rparr>, None)
                      else (d\<lparr>dHandoff := \<lparr>hState = ''requested'', hTriggeredBy = sort triggeredBy,
                                           hRoutes = Some selected\<rparr>\<rparr>, None))
              | None \<Rightarrow>
                  (d\<lparr>dHandoff := \<lparr>hState = ''requested'', hTriggeredBy = sort triggeredBy, hRoutes = None\<rparr>\<rparr>,
                   case escalation of
                     None \<Rightarrow> None
                   | Some m \<Rightarrow> (case jget m ''target'' of JObject _ \<Rightarrow> Some (routeTarget m) | _ \<Rightarrow> None)))"

text \<open>What \<open>resolve\<close> returns beside the evaluator's state: an error or a disposition, and the trace.\<close>

type_synonym resolution = "(Failure + Disposition \<times> HandoffTarget option) \<times> resolver"

definition dispose :: "resolver \<Rightarrow> string \<Rightarrow> string \<Rightarrow> resolution" where
  "dispose r kind outcomeID = (Inr (dispositionOf r kind outcomeID), r)"

definition failed :: "resolver \<Rightarrow> resolution" where
  "failed r = (Inl (workLimitFailure (rEval r)), r)"

subsection \<open>Draft RFC 0016: the resolution step\<close>

definition OutcomeValuesExtension :: string where
  "OutcomeValuesExtension = ''org.judgmentpack.outcome-values''"

definition valueDeclaration :: "json \<Rightarrow> json option" where
  "valueDeclaration entry =
     (let extensions = objectOrNil (jget (objectOrNil entry) ''extensions'')
      in map_of extensions OutcomeValuesExtension)"

definition admittedValue :: "string \<Rightarrow> json \<Rightarrow> bool" where
  "admittedValue declared v =
     (if declared = ''string'' then asString v \<noteq> None
      else if declared = ''decimal'' then (case v of JString text \<Rightarrow> decimalPattern text | _ \<Rightarrow> False)
      else if declared = ''boolean'' then (case v of JBool _ \<Rightarrow> True | _ \<Rightarrow> False)
      else False)"

definition searchUnits :: "json list \<Rightarrow> nat" where
  "searchUnits outcomes =
     sum_list (map (\<lambda>entry. 1 + length (stringOrEmpty (jget (objectOrNil entry) ''id''))) outcomes)"

fun declaredValues :: "json list \<Rightarrow> string \<Rightarrow> object option" where
  "declaredValues [] outcomeID = None"
| "declaredValues (entry # rest) outcomeID =
     (if stringOrEmpty (jget (objectOrNil entry) ''id'') \<noteq> outcomeID then declaredValues rest outcomeID
      else case valueDeclaration entry of None \<Rightarrow> None | Some declaration \<Rightarrow> asObject declaration)"

text \<open>One pass of the loop of \<open>resolveValues\<close>: the selected value, or \<open>None\<close> when a charge overran.\<close>

definition selectValue :: "object \<Rightarrow> resolver \<Rightarrow> json option \<times> resolver" where
  "selectValue source r =
     (case asString (jget source ''fromFact'') of
        None \<Rightarrow> (Some (jget source ''constant''), r)
      | Some pointer \<Rightarrow>
        (let (ok, e1) = chargePointer pointer (rEval r)
         in if \<not> ok then (None, r\<lparr>rEval := e1\<rparr>)
            else let (selected, e2) = resolve (rFacts r) pointer e1
                 in case selected of
                      None \<Rightarrow> (Some JNull, r\<lparr>rEval := e2\<rparr>)
                    | Some v \<Rightarrow>
                        (let (ok2, e3) = charge (valueUnits v) e2
                         in if \<not> ok2 then (None, r\<lparr>rEval := e3\<rparr>) else (Some v, r\<lparr>rEval := e3\<rparr>))))"

fun resolveNames ::
  "object \<Rightarrow> string \<Rightarrow> string list \<Rightarrow> object \<Rightarrow> bool \<Rightarrow> resolver \<Rightarrow> object option \<times> resolver" where
  "resolveNames declaration outcomeID [] resolved whole r =
     (if whole then Some resolved else None, r)"
| "resolveNames declaration outcomeID (name # names) resolved whole r =
     (let source = objectOrNil (jget declaration name);
          declared = stringOrEmpty (jget source ''type'')
      in case selectValue source r of
           (None, r1) \<Rightarrow> (None, r1)
         | (Some v, r1) \<Rightarrow>
             (let entry = (traceEntry ''outcome-value'' name ''resolved'')\<lparr>teOutcome := outcomeID\<rparr>
              in if admittedValue declared v
                 then resolveNames declaration outcomeID names (resolved @ [(name, v)]) whole
                        (addTrace entry r1)
                 else resolveNames declaration outcomeID names resolved False
                        (addTrace (entry\<lparr>teCondition := ''unresolved''\<rparr>) r1)))"

text \<open>The outer option is the report of completeness, the inner one a nil map.\<close>

definition resolveValues :: "string \<Rightarrow> resolver \<Rightarrow> object option option \<times> resolver" where
  "resolveValues outcomeID r =
     (let outcomes = asArray (jget (rPack r) ''outcomes'');
          (ok, e1) = charge (searchUnits outcomes) (rEval r); r1 = r\<lparr>rEval := e1\<rparr>
      in if \<not> ok then (None, r1)
         else case declaredValues outcomes outcomeID of
           None \<Rightarrow> (Some None, r1)
         | Some declaration \<Rightarrow>
             (let (ok2, e2) = charge (valueUnits (JObject declaration)) e1; r2 = r1\<lparr>rEval := e2\<rparr>
              in if \<not> ok2 then (None, r2)
                 else let (v, r3) = resolveNames declaration outcomeID (sortedMembers declaration) [] True r2
                      in (map_option Some v, r3)))"

definition produce :: "resolver \<Rightarrow> string \<Rightarrow> resolution" where
  "produce r outcomeID =
     (if \<not> outcomeValues (rEval r) then dispose r ''outcome'' outcomeID
      else let (v, r1) = resolveValues outcomeID r
           in if exceeded (rEval r1) then failed r1
              else case v of
                None \<Rightarrow> dispose (addReason ReasonUnknown r1) ''unresolved'' []
              | Some values \<Rightarrow>
                  (let (d, target) = dispositionOf r1 ''outcome'' outcomeID
                   in (Inr (d\<lparr>dValue := values\<rparr>, target), r1)))"

subsection \<open>Section 8\<close>

definition routeWork :: "object \<Rightarrow> nat" where
  "routeWork pack =
     (case jget pack ''escalation'' of
        JObject escalation \<Rightarrow>
          sum_list (map (\<lambda>item. 1 + length (asArray (jget (objectOrNil item) ''triggers'')))
                        (asArray (jget escalation ''routes'')))
      | _ \<Rightarrow> 0)"

definition iterationWork :: "object \<Rightarrow> nat" where
  "iterationWork pack =
     length (asArray (jget pack ''evidenceRequirements'')) + length (asArray (jget pack ''exceptions''))
     + length (asArray (jget pack ''rules'')) + routeWork pack"

text \<open>A member absent from a Go map reads as its zero value, and the zero \<open>tri\<close> is false.\<close>

definition presenceOf :: "evaluator \<Rightarrow> string \<Rightarrow> tri" where
  "presenceOf e ident = (case evidence e ident of None \<Rightarrow> triFalse | Some p \<Rightarrow> p)"

text \<open>Step 2: the loop over the declared requirements.\<close>

fun requirementsLoop ::
  "json list \<Rightarrow> bool \<times> bool \<Rightarrow> evaluator \<Rightarrow> (bool \<times> bool) \<times> evaluator" where
  "requirementsLoop [] flags e = (flags, e)"
| "requirementsLoop (entry # rest) (requiredFalse, requiredUnknown) e =
     (case entry of
        JObject requirement \<Rightarrow>
          if \<not> boolOrFalse (jget requirement ''required'')
          then requirementsLoop rest (requiredFalse, requiredUnknown) e
          else let ident = stringOrEmpty (jget requirement ''id'')
               in (case presenceOf e ident of
                     triFalse \<Rightarrow> requirementsLoop rest (True, requiredUnknown)
                       (e\<lparr>unmetEvidence := unmetEvidence e @ [\<lparr>ueRequirement = ident, ueState = ''absent''\<rparr>]\<rparr>)
                   | triUnknown \<Rightarrow> requirementsLoop rest (requiredFalse, True)
                       (e\<lparr>unmetEvidence := unmetEvidence e @ [\<lparr>ueRequirement = ident, ueState = ''unknown''\<rparr>]\<rparr>)
                   | triTrue \<Rightarrow> requirementsLoop rest (requiredFalse, requiredUnknown) e)
      | _ \<Rightarrow> requirementsLoop rest (requiredFalse, requiredUnknown) e)"

definition requirements :: "resolver \<Rightarrow> resolver" where
  "requirements r =
     (let ((requiredFalse, requiredUnknown), e) =
            requirementsLoop (asArray (jget (rPack r) ''evidenceRequirements'')) (False, False) (rEval r);
          r1 = r\<lparr>rEval := e\<rparr>
      in if requiredFalse then addReason ReasonMissingEvidence r1
         else if requiredUnknown then addReason ReasonUnknown r1 else r1)"

text \<open>Steps 3 and 4: one exception, with the sets \<open>suppressed\<close> and \<open>forced\<close>.\<close>

definition exceptionEffect ::
  "object \<Rightarrow> tri \<Rightarrow> TraceEntry \<Rightarrow> resolver \<Rightarrow> string list \<Rightarrow> string list
   \<Rightarrow> resolver \<times> string list \<times> string list" where
  "exceptionEffect exception verdict entry r suppressed forced =
     (case verdict of
        triUnknown \<Rightarrow>
          (let onUnknown = stringOrEmpty (jget exception ''onUnknown'');
               r1 = (if onUnknown = ''escalate'' then addReason ReasonUnknown r else r)
           in (addTrace (entry\<lparr>teOnUnknown := onUnknown\<rparr>) r1, suppressed, forced))
      | triTrue \<Rightarrow>
          (let effect = stringOrEmpty (jget exception ''effect''); entry1 = entry\<lparr>teEffect := effect\<rparr>
           in if effect = ''suppress-rule'' then
                (case jget exception ''targetRule'' of
                   JString target \<Rightarrow> (addTrace entry1 r, addUnique suppressed target, forced)
                 | _ \<Rightarrow> (addTrace entry1 r, suppressed, forced))
              else if effect = ''force-outcome'' then
                (case jget exception ''outcome'' of
                   JString outcome \<Rightarrow>
                     (addTrace (entry1\<lparr>teOutcome := outcome\<rparr>) r, suppressed, addUnique forced outcome)
                 | _ \<Rightarrow> (addTrace entry1 r, suppressed, forced))
              else if effect = ''escalate'' then
                (addTrace entry1 (addReason ReasonExceptionEscalation (r\<lparr>rDirect := True\<rparr>)), suppressed, forced)
              else (addTrace entry1 r, suppressed, forced))
      | triFalse \<Rightarrow> (addTrace entry r, suppressed, forced))"

text \<open>The loop; \<open>None\<close> is the return on a reached work limit.\<close>

fun exceptionsLoop ::
  "json list \<Rightarrow> resolver \<Rightarrow> string list \<Rightarrow> string list
   \<Rightarrow> (string list \<times> string list) option \<times> resolver" where
  "exceptionsLoop [] r suppressed forced = (Some (suppressed, forced), r)"
| "exceptionsLoop (entry # rest) r suppressed forced =
     (case entry of
        JObject exception \<Rightarrow>
          (let ((verdict, cs, ms), r1) = runStage (jget exception ''when'') r
           in if exceeded (rEval r1) then (None, r1)
              else let e = stageEntry ''exception'' (stringOrEmpty (jget exception ''id'')) verdict cs ms;
                       (r2, suppressed2, forced2) = exceptionEffect exception verdict e r1 suppressed forced
                   in exceptionsLoop rest r2 suppressed2 forced2)
      | _ \<Rightarrow> exceptionsLoop rest r suppressed forced)"

definition ruleEffect ::
  "object \<Rightarrow> tri \<Rightarrow> TraceEntry \<Rightarrow> resolver \<Rightarrow> string list \<Rightarrow> resolver \<times> string list" where
  "ruleEffect rule verdict entry r candidates =
     (case verdict of
        triTrue \<Rightarrow>
          (case jget rule ''outcome'' of
             JString outcome \<Rightarrow> (addTrace (entry\<lparr>teOutcome := outcome\<rparr>) r, addUnique candidates outcome)
           | _ \<Rightarrow> (addTrace entry r, candidates))
      | triUnknown \<Rightarrow>
          (let onUnknown = stringOrEmpty (jget rule ''onUnknown'');
               r1 = (if onUnknown = ''escalate'' then addReason ReasonUnknown r else r)
           in (addTrace (entry\<lparr>teOnUnknown := onUnknown\<rparr>) r1, candidates))
      | triFalse \<Rightarrow> (addTrace entry r, candidates))"

fun rulesLoop ::
  "json list \<Rightarrow> string list \<Rightarrow> resolver \<Rightarrow> string list \<Rightarrow> string list option \<times> resolver" where
  "rulesLoop [] suppressed r candidates = (Some candidates, r)"
| "rulesLoop (entry # rest) suppressed r candidates =
     (case entry of
        JObject rule \<Rightarrow>
          (let ident = stringOrEmpty (jget rule ''id'') in
           if ident \<in> set suppressed then
             rulesLoop rest suppressed
               (addTrace ((traceEntry ''rule'' ident ''not-evaluated'')\<lparr>teSuppressed := True\<rparr>) r) candidates
           else
             (let ((verdict, cs, ms), r1) = runStage (jget rule ''when'') r
              in if exceeded (rEval r1) then (None, r1)
                 else let (r2, candidates2) =
                            ruleEffect rule verdict (stageEntry ''rule'' ident verdict cs ms) r1 candidates
                      in rulesLoop rest suppressed r2 candidates2))
      | _ \<Rightarrow> rulesLoop rest suppressed r candidates)"

text \<open>Step 6 records every rule as skipped.\<close>

definition skipRules :: "json list \<Rightarrow> resolver \<Rightarrow> resolver" where
  "skipRules rules r =
     foldl (\<lambda>r entry. case entry of
              JObject rule \<Rightarrow>
                addTrace ((traceEntry ''rule'' (stringOrEmpty (jget rule ''id'')) ''not-evaluated'')
                          \<lparr>teSkipped := True\<rparr>) r
            | _ \<Rightarrow> r) r rules"

definition unresolved :: "resolver \<Rightarrow> resolution" where
  "unresolved r = dispose r ''unresolved'' []"

text \<open>Steps 9 and 10.\<close>

definition decideCandidates :: "string list \<Rightarrow> resolver \<Rightarrow> resolution" where
  "decideCandidates candidates r =
     (let r1 = (if length candidates > 1 then addReason ReasonConflict r else r)
      in if rReasons r1 \<noteq> [] then unresolved r1
         else if length candidates = 1 then produce r1 (hd candidates)
         else case jget (rPack r1) ''fallbackOutcome'' of
                JString fallback \<Rightarrow> produce r1 fallback
              | _ \<Rightarrow> unresolved (addReason ReasonNoMatch r1))"

text \<open>Steps 6 to 8, once no blocking state was discovered.\<close>

definition decideForced :: "string list \<Rightarrow> string list \<Rightarrow> resolver \<Rightarrow> resolution" where
  "decideForced suppressed forced r =
     (let r1 = (if length forced > 1 then addReason ReasonConflict r else r)
      in if rReasons r1 \<noteq> [] then unresolved r1
         else if length forced = 1 then
           produce (skipRules (asArray (jget (rPack r1) ''rules'')) r1) (hd forced)
         else case rulesLoop (asArray (jget (rPack r1) ''rules'')) suppressed r1 [] of
                (None, r2) \<Rightarrow> failed r2
              | (Some candidates, r2) \<Rightarrow> decideCandidates candidates r2)"

text \<open>Steps 2 to 5, for an applicable pack.\<close>

definition applicable :: "resolver \<Rightarrow> resolution" where
  "applicable r =
     (let r1 = requirements r
      in case exceptionsLoop (asArray (jget (rPack r1) ''exceptions'')) r1 [] [] of
           (None, r2) \<Rightarrow> failed r2
         | (Some (suppressed, forced), r2) \<Rightarrow> decideForced suppressed forced r2)"

definition newResolver :: "object \<Rightarrow> json \<Rightarrow> evaluator \<Rightarrow> resolver" where
  "newResolver pack facts e =
     \<lparr>rPack = pack, rFacts = facts, rEval = e, rReasons = [], rDirect = False, rTrace = []\<rparr>"

text \<open>Step 1: the verdict of an authored applicability, recorded; \<open>None\<close> on a reached limit.\<close>

definition applicability :: "resolver \<Rightarrow> tri option \<times> resolver" where
  "applicability r =
     (case map_of (rPack r) ''applicability'' of
        None \<Rightarrow> (Some triTrue, r)
      | Some node \<Rightarrow>
          (let ((verdict, cs, ms), r1) = runStage node r
           in if exceeded (rEval r1) then (None, r1)
              else (Some verdict, addTrace (stageEntry ''applicability'' [] verdict cs ms) r1)))"

definition resolvePack :: "object \<Rightarrow> json \<Rightarrow> evaluator \<Rightarrow> resolution" where
  "resolvePack pack facts e =
     (let (ok, e1) = charge (iterationWork pack) e; r = newResolver pack facts e1
      in if \<not> ok then failed r
         else case applicability r of
                (None, r1) \<Rightarrow> failed r1
              | (Some triFalse, r1) \<Rightarrow> dispose (addReason ReasonNotApplicable r1) ''not-applicable'' []
              | (Some triUnknown, r1) \<Rightarrow> dispose (addReason ReasonUnknown r1) ''unresolved'' []
              | (Some triTrue, r1) \<Rightarrow> applicable r1)"

subsection \<open>Contributors\<close>

record Contributor =
  coKind :: string
  coID :: string

fun contributorsOf :: "string \<Rightarrow> TraceEntry list \<Rightarrow> Contributor list" where
  "contributorsOf outcomeID [] = []"
| "contributorsOf outcomeID (entry # rest) =
     (if teCondition entry \<noteq> ''true'' \<or> teSuppressed entry \<or> teSkipped entry \<or> teOutcome entry \<noteq> outcomeID
      then contributorsOf outcomeID rest
      else if teStage entry = ''rule''
      then \<lparr>coKind = ''rule'', coID = teID entry\<rparr> # contributorsOf outcomeID rest
      else if teStage entry = ''exception'' \<and> teEffect entry = ''force-outcome''
      then \<lparr>coKind = ''forcing-exception'', coID = teID entry\<rparr> # contributorsOf outcomeID rest
      else contributorsOf outcomeID rest)"

definition contributorKey :: "Contributor \<Rightarrow> string list" where
  "contributorKey c = [coKind c, coID c]"

definition outcomeContributors :: "Disposition \<Rightarrow> TraceEntry list \<Rightarrow> Contributor list" where
  "outcomeContributors d trace =
     (if dKind d \<noteq> ''outcome'' then []
      else sort_key contributorKey (contributorsOf (dOutcomeID d) trace))"

end
