(* ===== verification/Kleene.thy ===== *)
theory Kleene
  imports Accounting
begin

section \<open>What a condition means\<close>

text \<open>
  The reference semantics of the condition language, free of evaluation order, caches and
  bookkeeping: strong three-valued logic as minimum and maximum in the order
  false < unknown < true, a declarative \<open>uniform\<close>, and for every condition the causes an unknown
  verdict has.
\<close>

subsection \<open>The truth order\<close>

instantiation tri :: linorder
begin

definition truthRank :: "tri \<Rightarrow> nat" where
  "truthRank t = (case t of triFalse \<Rightarrow> 0 | triUnknown \<Rightarrow> 1 | triTrue \<Rightarrow> 2)"

definition less_eq_tri :: "tri \<Rightarrow> tri \<Rightarrow> bool" where
  "less_eq_tri s t \<longleftrightarrow> truthRank s \<le> truthRank t"

definition less_tri :: "tri \<Rightarrow> tri \<Rightarrow> bool" where
  "less_tri s t \<longleftrightarrow> truthRank s < truthRank t"

instance
  by standard (auto simp: less_eq_tri_def less_tri_def truthRank_def split: tri.splits)

end

lemma tri_order_simps [simp]:
  "triFalse \<le> t" "t \<le> triTrue" "t \<le> triFalse \<longleftrightarrow> t = triFalse" "triTrue \<le> t \<longleftrightarrow> t = triTrue"
  "triUnknown \<le> t \<longleftrightarrow> t \<noteq> triFalse" "t \<le> triUnknown \<longleftrightarrow> t \<noteq> triTrue"
  by (cases t; simp add: less_eq_tri_def truthRank_def)+

definition kleeneAll :: "tri list \<Rightarrow> tri" where
  "kleeneAll ts = foldr min ts triTrue"

definition kleeneAny :: "tri list \<Rightarrow> tri" where
  "kleeneAny ts = foldr max ts triFalse"

definition negTri :: "tri \<Rightarrow> tri" where
  "negTri t = (case t of triTrue \<Rightarrow> triFalse | triFalse \<Rightarrow> triTrue | triUnknown \<Rightarrow> triUnknown)"

lemma kleeneAll_simps [simp]: "kleeneAll [] = triTrue" "kleeneAll (t # ts) = min t (kleeneAll ts)"
  by (simp_all add: kleeneAll_def)

lemma kleeneAny_simps [simp]: "kleeneAny [] = triFalse" "kleeneAny (t # ts) = max t (kleeneAny ts)"
  by (simp_all add: kleeneAny_def)

lemma min_tri [simp]:
  "min triFalse t = triFalse" "min triTrue t = t" "min t triTrue = t" "min t triFalse = triFalse"
  by (auto simp: min_def)

lemma max_tri [simp]:
  "max triFalse t = t" "max triTrue t = triTrue" "max t triTrue = triTrue" "max t triFalse = t"
  by (auto simp: max_def)

text \<open>The cases \<open>all\<close> and \<open>any\<close> are written by in the code.\<close>

lemma kleeneAll_cases:
  "kleeneAll ts = (if triFalse \<in> set ts then triFalse else if triUnknown \<in> set ts then triUnknown else triTrue)"
proof (induction ts)
  case (Cons t ts)
  then show ?case by (cases t) (auto simp: min_def)
qed simp

lemma kleeneAny_cases:
  "kleeneAny ts = (if triTrue \<in> set ts then triTrue else if triUnknown \<in> set ts then triUnknown else triFalse)"
proof (induction ts)
  case (Cons t ts)
  then show ?case by (cases t) (auto simp: max_def)
qed simp

lemma kleeneAll_set: "set ts = set us \<Longrightarrow> kleeneAll ts = kleeneAll us"
  by (simp add: kleeneAll_cases)

lemma kleeneAny_set: "set ts = set us \<Longrightarrow> kleeneAny ts = kleeneAny us"
  by (simp add: kleeneAny_cases)

lemma negTri_simps [simp]: "negTri triTrue = triFalse" "negTri triFalse = triTrue" "negTri triUnknown = triUnknown"
  by (simp_all add: negTri_def)

lemma negTri_invol [simp]: "negTri (negTri t) = t"
  by (cases t) simp_all

lemma negTri_min: "negTri (min s t) = max (negTri s) (negTri t)"
  by (cases s; cases t) (simp_all add: min_def max_def)

lemma negTri_kleeneAll: "negTri (kleeneAll ts) = kleeneAny (map negTri ts)"
  by (induction ts) (simp_all add: negTri_min)

subsection \<open>Leaves\<close>

text \<open>A leaf's verdict with the cause it records when that is unknown.\<close>

definition unsupported :: "tri \<times> UnknownCause list" where
  "unsupported = (triUnknown, [causeOnly ''unsupported''])"

definition literalResult :: "object \<Rightarrow> tri \<times> UnknownCause list" where
  "literalResult m = (case jget m ''value'' of JBool b \<Rightarrow> (triFromBool b, []) | _ \<Rightarrow> unsupported)"

definition factResult :: "object \<Rightarrow> json \<Rightarrow> tri \<times> UnknownCause list" where
  "factResult m doc =
     (case asString (jget m ''path'') of
        None \<Rightarrow> unsupported
      | Some path \<Rightarrow>
        (case resolvePointer doc path of
           None \<Rightarrow> (triUnknown, [causeAt path ''absent'' []])
         | Some value \<Rightarrow>
           (let operand = jget m ''value''; operator = stringOrEmpty (jget m ''operator'')
            in if OrderedOperator operator then
                 (case decimalCompare value operand of
                    None \<Rightarrow> (triUnknown, [causeAt path ''not-comparable'' (jsonType value)])
                  | Some c \<Rightarrow> (triFromBool (orderedVerdict operator c), []))
               else if operator = ''equals'' then (triFromBool (jsonEqual value operand), [])
               else if operator = ''not-equals'' then (triFromBool (\<not> jsonEqual value operand), [])
               else if operator = ''in'' \<and> operand = JArray (asArray operand)
               then (triFromBool (\<exists>item \<in> set (asArray operand). jsonEqual value item), [])
               else (triUnknown, [causeAt path ''unsupported'' []]))))"

definition evidenceResult :: "(string \<Rightarrow> tri option) \<Rightarrow> object \<Rightarrow> tri \<times> UnknownCause list" where
  "evidenceResult ev m =
     (case asString (jget m ''evidenceRequirement'') of
        None \<Rightarrow> unsupported
      | Some name \<Rightarrow>
          if ev name = None \<or> ev name = Some triUnknown
          then (triUnknown, [causeRequirement name ''unknown'']) else (the (ev name), []))"

text \<open>What an aggregate's collection pointer selects, or the cause when that is no array.\<close>

definition collectionOf :: "object \<Rightarrow> json \<Rightarrow> UnknownCause + json list" where
  "collectionOf m doc =
     (case asString (jget m ''path'') of
        None \<Rightarrow> Inl (causeOnly ''unsupported'')
      | Some path \<Rightarrow>
        (case resolvePointer doc path of
           None \<Rightarrow> Inl (causeAt path ''absent'' [])
         | Some (JArray xs) \<Rightarrow> Inr xs
         | Some v \<Rightarrow> Inl (causeAt path ''not-an-array'' (jsonType v))))"

text \<open>\<open>uniform\<close> by its clauses: unequal resolved values make it false, a missing one unknown.\<close>

definition uniformVerdict :: "string \<Rightarrow> json list \<Rightarrow> tri" where
  "uniformVerdict atPath members =
     (let values = List.map_filter (\<lambda>x. resolvePointer x atPath) members
      in if \<exists>v \<in> set values. \<exists>w \<in> set values. \<not> jsonEqual v w then triFalse
         else if \<exists>x \<in> set members. resolvePointer x atPath = None then triUnknown
         else triTrue)"

definition uniformResult :: "object \<Rightarrow> json \<Rightarrow> tri \<times> UnknownCause list" where
  "uniformResult m doc =
     (case asString (jget m ''at'') of
        None \<Rightarrow> unsupported
      | Some atPath \<Rightarrow>
        (case collectionOf m doc of
           Inl failure \<Rightarrow> (triUnknown, [failure])
         | Inr members \<Rightarrow>
             (uniformVerdict atPath members,
              if uniformVerdict atPath members = triUnknown
              then [labelCause (stringOrEmpty (jget m ''path'')) (causeAt atPath ''absent'' [])] else [])))"

subsection \<open>The verdict of a condition\<close>

lemma size_condition_item: "jget m k = JArray xs \<Longrightarrow> x \<in> set xs \<Longrightarrow> size x < size (JObject m)"
  using size_asArray_jget[of x m k] by simp

function (sequential) meaning :: "bool \<Rightarrow> (string \<Rightarrow> tri option) \<Rightarrow> json \<Rightarrow> json \<Rightarrow> tri" where
  "meaning q ev (JObject m) doc =
     (case asString (jget m ''op'') of
        None \<Rightarrow> triUnknown
      | Some op \<Rightarrow>
        if op = ''literal'' then fst (literalResult m)
        else if op = ''all'' then
          (case jget m ''conditions'' of
             JArray cs \<Rightarrow> kleeneAll (map (\<lambda>c. meaning q ev c doc) cs) | _ \<Rightarrow> triUnknown)
        else if op = ''any'' then
          (case jget m ''conditions'' of
             JArray cs \<Rightarrow> kleeneAny (map (\<lambda>c. meaning q ev c doc) cs) | _ \<Rightarrow> triUnknown)
        else if op = ''not'' then negTri (meaning q ev (jget m ''condition'') doc)
        else if op = ''fact'' then fst (factResult m doc)
        else if op = ''evidence-present'' then fst (evidenceResult ev m)
        else if op = ''exists'' \<and> q then
          (case collectionOf m doc of
             Inl _ \<Rightarrow> triUnknown | Inr xs \<Rightarrow> kleeneAny (map (meaning q ev (jget m ''where'')) xs))
        else if op = ''every'' \<and> q then
          (case collectionOf m doc of
             Inl _ \<Rightarrow> triUnknown | Inr xs \<Rightarrow> kleeneAll (map (meaning q ev (jget m ''where'')) xs))
        else if op = ''uniform'' \<and> q then fst (uniformResult m doc)
        else triUnknown)"
| "meaning q ev node doc = triUnknown"
  by pat_completeness auto
termination
  by (relation "measure (\<lambda>(q, ev, n, d). size n)")
     (simp_all only: in_measure case_prod_conv wf_measure size_condition_item size_jget_lt)

text \<open>The leaves an unknown verdict came from.\<close>

function (sequential) causesOf :: "bool \<Rightarrow> (string \<Rightarrow> tri option) \<Rightarrow> json \<Rightarrow> json \<Rightarrow> UnknownCause list" where
  "causesOf q ev (JObject m) doc =
     (if meaning q ev (JObject m) doc \<noteq> triUnknown then []
      else case asString (jget m ''op'') of
        None \<Rightarrow> [causeOnly ''unsupported'']
      | Some op \<Rightarrow>
        if op = ''literal'' then snd (literalResult m)
        else if op = ''all'' \<or> op = ''any'' then
          (case jget m ''conditions'' of
             JArray cs \<Rightarrow> concat (map (\<lambda>c. causesOf q ev c doc) cs) | _ \<Rightarrow> [])
        else if op = ''not'' then causesOf q ev (jget m ''condition'') doc
        else if op = ''fact'' then snd (factResult m doc)
        else if op = ''evidence-present'' then snd (evidenceResult ev m)
        else if (op = ''exists'' \<or> op = ''every'') \<and> q then
          (case collectionOf m doc of
             Inl failure \<Rightarrow> [failure]
           | Inr xs \<Rightarrow> map (labelCause (stringOrEmpty (jget m ''path'')))
                          (concat (map (causesOf q ev (jget m ''where'')) xs)))
        else if op = ''uniform'' \<and> q then snd (uniformResult m doc)
        else [causeOnly ''unsupported''])"
| "causesOf q ev node doc = [causeOnly ''unsupported'']"
  by pat_completeness auto
termination
  by (relation "measure (\<lambda>(q, ev, n, d). size n)")
     (simp_all only: in_measure case_prod_conv wf_measure size_condition_item size_jget_lt)

lemma causesOf_decided: "meaning q ev node doc \<noteq> triUnknown \<Longrightarrow> causesOf q ev node doc = []"
  by (cases node) simp_all

end
