(* ===== verification/Verdict.thy ===== *)
theory Verdict
  imports Kleene Json_Equality
begin

section \<open>The evaluator implements the reference semantics\<close>

text \<open>
  The condition walk, with its cache, its short-circuits and its cause truncation, returns what
  \<open>meaning\<close> says and records what \<open>causesOf\<close> says.
\<close>

subsection \<open>What every operation keeps\<close>

definition coherent :: "evaluator \<Rightarrow> bool" where
  "coherent e \<longleftrightarrow> (\<forall>p c. pointers e p = Some c \<longrightarrow> c = compilePointer p)"

text \<open>Everything but the cache and the records is unchanged, and the cache only grows.\<close>

definition keeps :: "evaluator \<Rightarrow> evaluator \<Rightarrow> bool" where
  "keeps e e' \<longleftrightarrow>
     evidence e' = evidence e \<and> quantifiers e' = quantifiers e \<and> outcomeValues e' = outcomeValues e \<and>
     budget e' = budget e \<and> charged e' = charged e \<and> exceeded e' = exceeded e \<and>
     unmetEvidence e' = unmetEvidence e \<and> coherent e' \<and> pointers e \<subseteq>\<^sub>m pointers e'"

lemma keeps_refl: "coherent e \<Longrightarrow> keeps e e"
  by (simp add: keeps_def)

lemma keeps_trans: "keeps e e1 \<Longrightarrow> keeps e1 e2 \<Longrightarrow> keeps e e2"
  by (auto simp: keeps_def intro: map_le_trans)

lemma keeps_coherent: "keeps e e' \<Longrightarrow> coherent e'"
  by (simp add: keeps_def)

lemma keeps_fields: "keeps e e' \<Longrightarrow> evidence e' = evidence e \<and> quantifiers e' = quantifiers e"
  by (simp add: keeps_def)

lemma coherent_update [simp]:
  "coherent (e\<lparr>causes := c\<rparr>) = coherent e" "coherent (e\<lparr>mismatches := m\<rparr>) = coherent e"
  "coherent (e\<lparr>collectionFailure := f\<rparr>) = coherent e" "coherent (e\<lparr>charged := u\<rparr>) = coherent e"
  "coherent (e\<lparr>exceeded := b\<rparr>) = coherent e"
  by (simp_all add: coherent_def)

lemma keeps_update:
  "keeps e e' \<Longrightarrow> keeps e (e'\<lparr>causes := c\<rparr>)" "keeps e e' \<Longrightarrow> keeps e (e'\<lparr>mismatches := m\<rparr>)"
  "keeps e e' \<Longrightarrow> keeps e (e'\<lparr>collectionFailure := f\<rparr>)"
  by (simp_all add: keeps_def)

lemma keeps_update_left:
  "keeps (e\<lparr>collectionFailure := f\<rparr>) e' \<longleftrightarrow> keeps e e'" "keeps (e\<lparr>causes := c\<rparr>) e' \<longleftrightarrow> keeps e e'"
  "keeps (e\<lparr>mismatches := m\<rparr>) e' \<longleftrightarrow> keeps e e'"
  by (simp_all add: keeps_def)

text \<open>An outcome: the verdict, and the causes it appended to those already recorded.\<close>

definition outcome :: "tri \<Rightarrow> UnknownCause list \<Rightarrow> evaluator \<Rightarrow> tri \<times> evaluator \<Rightarrow> bool" where
  "outcome v cs e r \<longleftrightarrow>
     fst r = v \<and> keeps e (snd r) \<and> causes (snd r) = causes e @ cs \<and>
     (collectionFailure e = None \<longrightarrow> collectionFailure (snd r) = None) \<and>
     (\<exists>ms. mismatches (snd r) = mismatches e @ ms)"

lemma outcome_unknownWith: "coherent e \<Longrightarrow> outcome triUnknown [c] e (unknownWith c e)"
  by (auto simp: outcome_def unknownWith_def noteUnknown_def keeps_refl intro: keeps_update)

lemma outcome_same: "coherent e \<Longrightarrow> outcome v [] e (v, e)"
  by (simp add: outcome_def keeps_refl)

lemma outcome_pure:
  assumes "coherent e" "r = (v, cs)" "v = triUnknown \<longrightarrow> (\<exists>c. cs = [c])" "v \<noteq> triUnknown \<longrightarrow> cs = []"
  shows "outcome (fst r) (snd r) e (if v = triUnknown then unknownWith (hd cs) e else (v, e))"
  using assms by (auto intro: outcome_unknownWith outcome_same)

subsection \<open>Resolution\<close>

lemma compiled_result:
  assumes "coherent e"
  shows "fst (compiled p e) = compilePointer p" "keeps e (snd (compiled p e))"
    "causes (snd (compiled p e)) = causes e" "mismatches (snd (compiled p e)) = mismatches e"
    "collectionFailure (snd (compiled p e)) = collectionFailure e"
    "pointers (snd (compiled p e)) = (pointers e)(p \<mapsto> compilePointer p)"
  using assms
  by (auto simp: compiled_def Let_def coherent_def keeps_def map_le_def fun_upd_idem split: option.splits)

lemma resolve_result:
  assumes "coherent e"
  shows "fst (resolve doc p e) = resolvePointer doc p" "keeps e (snd (resolve doc p e))"
    "causes (snd (resolve doc p e)) = causes e" "mismatches (snd (resolve doc p e)) = mismatches e"
    "collectionFailure (snd (resolve doc p e)) = collectionFailure e"
    "pointers (snd (resolve doc p e)) = (pointers e)(p \<mapsto> compilePointer p)"
  using compiled_result[OF assms, of p]
  by (auto simp: resolve_def resolvePointer_def split_beta Let_def)

lemma outcome_after:
  assumes "keeps e e1" "causes e1 = causes e" "mismatches e1 = mismatches e"
    "collectionFailure e1 = collectionFailure e" "outcome v cs e1 r"
  shows "outcome v cs e r"
  using assms by (auto simp: outcome_def intro: keeps_trans)

lemma outcome_noteTypeMismatch:
  assumes "coherent e" shows "outcome v [] e (v, noteTypeMismatch path operator value operands e)"
  using assms by (auto simp: outcome_def noteTypeMismatch_def Let_def keeps_refl intro: keeps_update)

lemma fact_operand: "operand = JArray (asArray operand) \<longleftrightarrow> (\<exists>xs. operand = JArray xs)"
  by (cases operand) auto

lemma evalFact_outcome:
  assumes "coherent e"
  shows "outcome (fst (factResult m doc)) (snd (factResult m doc)) e (evalFact m doc e)"
proof (cases "jget m ''path''")
  case (JString path)
  obtain r e1 where r: "resolve doc path e = (r, e1)" by (meson surj_pair)
  note res = resolve_result[OF assms, of doc path, unfolded r, simplified]
  have c: "coherent e1" using res(2) by (rule keeps_coherent)
  note lift = outcome_after[OF res(2) res(3) res(4) res(5)]
  note leaf = lift[OF outcome_unknownWith[OF c]] lift[OF outcome_same[OF c]] lift[OF outcome_noteTypeMismatch[OF c]]
  show ?thesis
  proof (cases r)
    case None
    with JString res(1) show ?thesis by (simp add: evalFact_def factResult_def r leaf)
  next
    case (Some val)
    define operand where "operand = jget m ''value''"
    define operator where "operator = stringOrEmpty (jget m ''operator'')"
    have e: "evalFact m doc e =
      (if OrderedOperator operator then
                 (case decimalCompare val operand of
                    None \<Rightarrow> unknownWith (causeAt path ''not-comparable'' (jsonType val)) e1
                  | Some comparison \<Rightarrow> (triFromBool (orderedVerdict operator comparison), e1))
               else if operator = ''equals'' then
                 (triFromBool (jsonEqual val operand), noteTypeMismatch path operator val [operand] e1)
               else if operator = ''not-equals'' then
                 (triFromBool (\<not> jsonEqual val operand), noteTypeMismatch path operator val [operand] e1)
               else if operator = ''in'' then
                 (case operand of
                    JArray items \<Rightarrow>
                      (triFromBool (list_ex (jsonEqual val) items),
                       noteTypeMismatch path operator val items e1)
                  | _ \<Rightarrow> unknownWith (causeAt path ''unsupported'' []) e1)
               else unknownWith (causeAt path ''unsupported'' []) e1)"
      unfolding operand_def operator_def using JString Some by (simp add: evalFact_def r Let_def)
    have f: "factResult m doc =
      (if OrderedOperator operator then
                 (case decimalCompare val operand of
                    None \<Rightarrow> (triUnknown, [causeAt path ''not-comparable'' (jsonType val)])
                  | Some c \<Rightarrow> (triFromBool (orderedVerdict operator c), []))
               else if operator = ''equals'' then (triFromBool (jsonEqual val operand), [])
               else if operator = ''not-equals'' then (triFromBool (\<not> jsonEqual val operand), [])
               else if operator = ''in'' \<and> operand = JArray (asArray operand)
               then (triFromBool (\<exists>item \<in> set (asArray operand). jsonEqual val item), [])
               else (triUnknown, [causeAt path ''unsupported'' []]))"
      unfolding operand_def operator_def using JString Some res(1) by (simp add: factResult_def Let_def)
    show ?thesis unfolding e f
      by (auto simp: leaf list_ex_iff split: option.splits json.splits)
  qed
qed (use assms in \<open>simp_all add: evalFact_def factResult_def unsupported_def outcome_unknownWith\<close>)

lemma evidencePresent_outcome:
  assumes "coherent e"
  shows "outcome (fst (evidenceResult (evidence e) m)) (snd (evidenceResult (evidence e) m)) e (evidencePresent m e)"
  using assms
  by (auto simp: evidencePresent_def evidenceResult_def unsupported_def outcome_unknownWith outcome_same
      split: option.splits)

subsection \<open>Aggregates\<close>

lemma selectArray_result:
  assumes "coherent e" "collectionFailure e = None"
  shows "keeps e (snd (selectArray m doc e))" "causes (snd (selectArray m doc e)) = causes e"
    "mismatches (snd (selectArray m doc e)) = mismatches e"
    "(case collectionOf m doc of
        Inl f \<Rightarrow> fst (selectArray m doc e) = None \<and> collectionFailure (snd (selectArray m doc e)) = Some f
      | Inr xs \<Rightarrow> fst (selectArray m doc e) = Some xs \<and> collectionFailure (snd (selectArray m doc e)) = None)"
proof -
  have "keeps e (snd (selectArray m doc e)) \<and> causes (snd (selectArray m doc e)) = causes e \<and>
    mismatches (snd (selectArray m doc e)) = mismatches e \<and>
    (case collectionOf m doc of
        Inl f \<Rightarrow> fst (selectArray m doc e) = None \<and> collectionFailure (snd (selectArray m doc e)) = Some f
      | Inr xs \<Rightarrow> fst (selectArray m doc e) = Some xs \<and> collectionFailure (snd (selectArray m doc e)) = None)"
  proof (cases "asString (jget m ''path'')")
    case None
    then show ?thesis using assms by (simp add: selectArray_def collectionOf_def keeps_refl keeps_update)
  next
    case (Some path)
    obtain r e1 where r: "resolve doc path e = (r, e1)" by (meson surj_pair)
    note res = resolve_result[OF assms(1), of doc path, unfolded r, simplified]
    show ?thesis
    proof (cases r)
      case None
      with res Some r show ?thesis by (simp add: selectArray_def collectionOf_def keeps_update flip: res(1))
    next
      case v: (Some v)
      with res Some r assms(2) show ?thesis
        by (cases v) (simp_all add: selectArray_def collectionOf_def keeps_update flip: res(1))
    qed
  qed
  then show "keeps e (snd (selectArray m doc e))" "causes (snd (selectArray m doc e)) = causes e"
    "mismatches (snd (selectArray m doc e)) = mismatches e"
    "(case collectionOf m doc of
        Inl f \<Rightarrow> fst (selectArray m doc e) = None \<and> collectionFailure (snd (selectArray m doc e)) = Some f
      | Inr xs \<Rightarrow> fst (selectArray m doc e) = Some xs \<and> collectionFailure (snd (selectArray m doc e)) = None)"
    by blast+
qed

lemma collectionOf_wf:
  assumes "collectionOf m doc = Inr xs" "jsonWf doc" "x \<in> set xs" shows "jsonWf x"
proof -
  from assms(1) obtain path where "resolvePointer doc path = Some (JArray xs)"
    by (auto simp: collectionOf_def split: option.splits json.splits)
  then have "jsonWf (JArray xs)" using assms(2) by (rule jsonWf_resolvePointer)
  with assms(3) show ?thesis by (simp add: list_all_iff)
qed

text \<open>Wrapping an aggregate labels what its elements recorded and adds its own failure.\<close>

lemma labelFrom_append: "labelFrom (length xs) f (xs @ ys) = xs @ map f ys"
  by (simp add: labelFrom_def)

definition aggregateCauses :: "object \<Rightarrow> tri \<Rightarrow> UnknownCause list \<Rightarrow> UnknownCause option \<Rightarrow> UnknownCause list" where
  "aggregateCauses m v cs failure =
     (if v \<noteq> triUnknown then []
      else map (labelCause (stringOrEmpty (jget m ''path''))) cs @ (case failure of None \<Rightarrow> [] | Some f \<Rightarrow> [f]))"

lemma withinCollection_outcome:
  assumes "run (e\<lparr>collectionFailure := None\<rparr>) = (v, e1)" "keeps e e1" "causes e1 = causes e @ cs"
    "\<exists>ms. mismatches e1 = mismatches e @ ms"
  shows "outcome v (aggregateCauses m v cs (collectionFailure e1)) e (withinCollection m run e)"
  using assms
  by (cases "collectionFailure e1")
     (auto simp: withinCollection_def keepCausesIf_def outcome_def Let_def labelFrom_append
       noteUnknown_def keeps_update aggregateCauses_def)

lemma keepCausesIf_outcome:
  assumes "fst r = v" "keeps e (snd r)" "v = triUnknown \<Longrightarrow> causes (snd r) = causes e @ cs"
    "\<exists>new. causes (snd r) = causes e @ new" "v \<noteq> triUnknown \<Longrightarrow> cs = []"
    "collectionFailure e = None \<longrightarrow> collectionFailure (snd r) = None" "\<exists>ms. mismatches (snd r) = mismatches e @ ms"
  shows "outcome v cs e (keepCausesIf (length (causes e)) r)"
  using assms by (cases r; cases "v = triUnknown") (auto simp: keepCausesIf_def outcome_def keeps_update)

subsection \<open>The loops\<close>

text \<open>A loop's outcome: its causes are those of every item unless it stopped at the dominant one.\<close>

definition loopOutcome :: "tri \<Rightarrow> UnknownCause list \<Rightarrow> evaluator \<Rightarrow> tri \<times> evaluator \<Rightarrow> bool" where
  "loopOutcome v cs e r \<longleftrightarrow>
     fst r = v \<and> keeps e (snd r) \<and> (v = triUnknown \<longrightarrow> causes (snd r) = causes e @ cs) \<and>
     (\<exists>new. causes (snd r) = causes e @ new) \<and>
     (collectionFailure e = None \<longrightarrow> collectionFailure (snd r) = None) \<and>
     (\<exists>ms. mismatches (snd r) = mismatches e @ ms)"

lemma keepCausesIf_loop:
  assumes "loopOutcome v cs e r" "v = triUnknown \<Longrightarrow> cs' = cs" "v \<noteq> triUnknown \<Longrightarrow> cs' = []"
  shows "outcome v cs' e (keepCausesIf (length (causes e)) r)"
  using assms by (intro keepCausesIf_outcome) (auto simp: loopOutcome_def)

lemma loopOutcome_of: "outcome v cs e r \<Longrightarrow> loopOutcome v cs e r"
  by (auto simp: loopOutcome_def outcome_def)

lemma loopOutcome_then:
  assumes "outcome v1 cs1 e (v1, e1)" "loopOutcome v cs e1 r"
  shows "loopOutcome v (cs1 @ cs) e r"
  using assms by (auto simp: loopOutcome_def outcome_def intro: keeps_trans)

lemma loopOutcome_stop: "outcome v cs e r \<Longrightarrow> v \<noteq> triUnknown \<Longrightarrow> loopOutcome v cs' e r"
  by (auto simp: loopOutcome_def outcome_def)

definition agrees :: "json \<Rightarrow> json \<Rightarrow> bool" where
  "agrees node doc \<longleftrightarrow>
     (\<forall>e. coherent e \<longrightarrow>
          outcome (meaning (quantifiers e) (evidence e) node doc)
                  (causesOf (quantifiers e) (evidence e) node doc) e (condition node doc e))"

lemma agrees_cases:
  assumes "agrees node doc" "coherent e" "condition node doc e = (v, e1)"
  shows "v = meaning (quantifiers e) (evidence e) node doc"
    and "outcome v (causesOf (quantifiers e) (evidence e) node doc) e (v, e1)" "coherent e1"
    and "quantifiers e1 = quantifiers e" "evidence e1 = evidence e"
proof -
  have o: "outcome (meaning (quantifiers e) (evidence e) node doc)
                  (causesOf (quantifiers e) (evidence e) node doc) e (v, e1)"
    using assms by (metis agrees_def)
  then show v: "v = meaning (quantifiers e) (evidence e) node doc" by (simp add: outcome_def)
  show "outcome v (causesOf (quantifiers e) (evidence e) node doc) e (v, e1)" using o v by simp
  show "coherent e1" "quantifiers e1 = quantifiers e" "evidence e1 = evidence e"
    using o by (simp_all add: outcome_def keeps_def)
qed

lemma allItems_outcome:
  assumes "\<And>item. item \<in> set items \<Longrightarrow> agrees item doc" "coherent e"
  shows "loopOutcome
           (let v = kleeneAll (map (\<lambda>c. meaning (quantifiers e) (evidence e) c doc) items)
            in if saw then min triUnknown v else v)
           (concat (map (\<lambda>c. causesOf (quantifiers e) (evidence e) c doc) items)) e
           (allItems items doc saw e)"
  using assms
proof (induction items arbitrary: saw e)
  case Nil
  then show ?case by (auto simp: min_def intro!: loopOutcome_of outcome_same)
next
  case (Cons item items)
  obtain v e1 where c: "condition item doc e = (v, e1)" by (meson surj_pair)
  note h = agrees_cases[OF Cons.prems(1)[OF list.set_intros(1)] Cons.prems(2) c]
  note IH = Cons.IH[of e1, OF Cons.prems(1)[OF list.set_intros(2)] h(3), unfolded h(4,5)]
  show ?case
  proof (cases v)
    case triFalse
    with c h(1) loopOutcome_stop[OF h(2)] show ?thesis by (simp add: min_def)
  next
    case triTrue
    with c h(1) loopOutcome_then[OF h(2) IH[of saw]] show ?thesis by (simp add: Let_def)
  next
    case triUnknown
    with c h(1) loopOutcome_then[OF h(2) IH[of True]] show ?thesis by (simp add: Let_def min.left_commute)
  qed
qed

lemma anyItems_outcome:
  assumes "\<And>item. item \<in> set items \<Longrightarrow> agrees item doc" "coherent e"
  shows "loopOutcome
           (let v = kleeneAny (map (\<lambda>c. meaning (quantifiers e) (evidence e) c doc) items)
            in if saw then max triUnknown v else v)
           (concat (map (\<lambda>c. causesOf (quantifiers e) (evidence e) c doc) items)) e
           (anyItems items doc saw e)"
  using assms
proof (induction items arbitrary: saw e)
  case Nil
  then show ?case by (auto simp: max_def intro!: loopOutcome_of outcome_same)
next
  case (Cons item items)
  obtain v e1 where c: "condition item doc e = (v, e1)" by (meson surj_pair)
  note h = agrees_cases[OF Cons.prems(1)[OF list.set_intros(1)] Cons.prems(2) c]
  note IH = Cons.IH[of e1, OF Cons.prems(1)[OF list.set_intros(2)] h(3), unfolded h(4,5)]
  show ?case
  proof (cases v)
    case triTrue
    with c h(1) loopOutcome_stop[OF h(2)] show ?thesis by (simp add: max_def)
  next
    case triFalse
    with c h(1) loopOutcome_then[OF h(2) IH[of saw]] show ?thesis by (simp add: Let_def)
  next
    case triUnknown
    with c h(1) loopOutcome_then[OF h(2) IH[of True]] show ?thesis by (simp add: Let_def max.left_commute)
  qed
qed

lemma quantifyItems_outcome:
  assumes "\<And>x. x \<in> set xs \<Longrightarrow> agrees (jget m ''where'') x" "coherent e"
  shows "loopOutcome
           (let vs = map (meaning (quantifiers e) (evidence e) (jget m ''where'')) xs
            in if jget m ''op'' = JString ''every'' then (if saw then min triUnknown (kleeneAll vs) else kleeneAll vs)
               else (if saw then max triUnknown (kleeneAny vs) else kleeneAny vs))
           (concat (map (causesOf (quantifiers e) (evidence e) (jget m ''where'')) xs)) e
           (quantifyItems m xs saw e)"
  using assms
proof (induction xs arbitrary: saw e)
  case Nil
  then show ?case by (auto simp: min_def max_def vacuousOf_def intro!: loopOutcome_of outcome_same)
next
  case (Cons x xs)
  obtain v e1 where c: "condition (jget m ''where'') x e = (v, e1)" by (meson surj_pair)
  note h = agrees_cases[OF Cons.prems(1)[OF list.set_intros(1)] Cons.prems(2) c]
  note IH = Cons.IH[of e1, OF Cons.prems(1)[OF list.set_intros(2)] h(3), unfolded h(4,5)]
  note stop = loopOutcome_stop[OF h(2)] and go = loopOutcome_then[OF h(2) IH]
  show ?case
  proof (cases "jget m ''op'' = JString ''every''")
    case True
    then show ?thesis
      using c h(1) stop go[of saw] go[of True]
      by (cases v; cases saw) (simp_all add: Let_def dominantOf_def min.left_commute)
  next
    case False
    then show ?thesis
      using c h(1) stop go[of saw] go[of True]
      by (cases v; cases saw) (simp_all add: Let_def dominantOf_def max.left_commute)
  qed
qed

subsection \<open>Uniform\<close>

definition memberOutcome :: "string \<Rightarrow> tri \<Rightarrow> evaluator \<Rightarrow> tri \<times> evaluator \<Rightarrow> bool" where
  "memberOutcome atPath v e r \<longleftrightarrow>
     fst r = v \<and> keeps e (snd r) \<and>
     causes (snd r) = causes e @ (if v = triUnknown then [causeAt atPath ''absent'' []] else []) \<and>
     mismatches (snd r) = mismatches e \<and> collectionFailure (snd r) = collectionFailure e"

lemma memberOutcome_after:
  assumes "coherent e" "memberOutcome atPath v (snd (resolve doc p e)) r"
  shows "memberOutcome atPath v e r"
  using assms resolve_result[OF assms(1), of doc p] by (auto simp: memberOutcome_def intro: keeps_trans)

definition resolvedAt :: "string \<Rightarrow> json list \<Rightarrow> json set" where
  "resolvedAt atPath ms = {v. \<exists>x \<in> set ms. resolvePointer x atPath = Some v}"

definition missingAt :: "string \<Rightarrow> json list \<Rightarrow> bool" where
  "missingAt atPath ms \<longleftrightarrow> (\<exists>x \<in> set ms. resolvePointer x atPath = None)"

lemma resolvedAt_simps [simp]:
  "resolvedAt p [] = {}"
  "resolvePointer x p = Some v \<Longrightarrow> resolvedAt p (x # ms) = insert v (resolvedAt p ms)"
  "resolvePointer x p = None \<Longrightarrow> resolvedAt p (x # ms) = resolvedAt p ms"
  by (auto simp: resolvedAt_def)

lemma missingAt_simps [simp]:
  "missingAt p [] = False"
  "resolvePointer x p = Some v \<Longrightarrow> missingAt p (x # ms) = missingAt p ms"
  "resolvePointer x p = None \<Longrightarrow> missingAt p (x # ms) = True"
  by (auto simp: missingAt_def)

lemma resolvedAt_wf: "list_all jsonWf ms \<Longrightarrow> v \<in> resolvedAt p ms \<Longrightarrow> jsonWf v"
  by (auto simp: resolvedAt_def list_all_iff intro: jsonWf_resolvePointer)

lemma uniformMembers_elected:
  assumes "list_all jsonWf ms" "jsonWf rep" "coherent e"
  shows "memberOutcome atPath
           (if \<exists>w \<in> resolvedAt atPath ms. normJson rep \<noteq> normJson w then triFalse
            else if missing \<or> missingAt atPath ms then triUnknown else triTrue) e
           (uniformMembers atPath ms (Some (canonicalNumbers rep)) missing e)"
  using assms
proof (induction ms arbitrary: missing e)
  case Nil
  then show ?case
    by (auto simp: memberOutcome_def unknownWith_def noteUnknown_def keeps_refl intro: keeps_update)
next
  case (Cons x ms)
  obtain r e1 where r: "resolve x atPath e = (r, e1)" by (meson surj_pair)
  note res = resolve_result[OF Cons.prems(3), of x atPath, unfolded r, simplified]
  note after = memberOutcome_after[OF Cons.prems(3), of atPath _ x atPath, unfolded r, simplified]
  have c: "coherent e1" using res(2) by (rule keeps_coherent)
  have wf: "list_all jsonWf ms" "jsonWf x" using Cons.prems by auto
  note IH = after[OF Cons.IH[OF wf(1) Cons.prems(2) c]]
  show ?case
  proof (cases r)
    case None
    with res(1) have rn: "resolvePointer x atPath = None" by simp
    with IH[of True] r None show ?thesis by (simp cong: if_cong)
  next
    case (Some v)
    with res(1) have rv: "resolvePointer x atPath = Some v" by simp
    then have wv: "jsonWf v" using wf(2) by (rule jsonWf_resolvePointer)
    have eq: "jsonEqual (canonicalNumbers rep) (canonicalNumbers v) \<longleftrightarrow> normJson rep = normJson v"
      using jsonEqual_iff_norm[of "canonicalNumbers rep" "canonicalNumbers v"] Cons.prems(2) wv by simp
    show ?thesis
    proof (cases "normJson rep = normJson v")
      case True
      with IH[of missing] rv r Some eq show ?thesis by (simp cong: if_cong)
    next
      case False
      have "memberOutcome atPath triFalse e (triFalse, e1)"
        using after[of triFalse "(triFalse, e1)"] c by (simp add: memberOutcome_def keeps_refl)
      with False rv r Some eq show ?thesis by simp
    qed
  qed
qed

lemma uniformMembers_none:
  assumes "list_all jsonWf ms" "coherent e"
  shows "memberOutcome atPath
           (if \<exists>v \<in> resolvedAt atPath ms. \<exists>w \<in> resolvedAt atPath ms. normJson v \<noteq> normJson w then triFalse
            else if missing \<or> missingAt atPath ms then triUnknown else triTrue) e
           (uniformMembers atPath ms None missing e)"
  using assms
proof (induction ms arbitrary: missing e)
  case Nil
  then show ?case
    by (auto simp: memberOutcome_def unknownWith_def noteUnknown_def keeps_refl intro: keeps_update)
next
  case (Cons x ms)
  obtain r e1 where r: "resolve x atPath e = (r, e1)" by (meson surj_pair)
  note res = resolve_result[OF Cons.prems(2), of x atPath, unfolded r, simplified]
  note after = memberOutcome_after[OF Cons.prems(2), of atPath _ x atPath, unfolded r, simplified]
  have c: "coherent e1" using res(2) by (rule keeps_coherent)
  have wf: "list_all jsonWf ms" "jsonWf x" using Cons.prems by auto
  show ?case
  proof (cases r)
    case None
    with res(1) have rn: "resolvePointer x atPath = None" by simp
    with after[OF Cons.IH[OF wf(1) c, of True]] r None show ?thesis by (simp cong: if_cong)
  next
    case (Some v)
    with res(1) have rv: "resolvePointer x atPath = Some v" by simp
    then have wv: "jsonWf v" using wf(2) by (rule jsonWf_resolvePointer)
    have "(\<exists>a \<in> insert v (resolvedAt atPath ms). \<exists>w \<in> insert v (resolvedAt atPath ms). normJson a \<noteq> normJson w)
          \<longleftrightarrow> (\<exists>w \<in> resolvedAt atPath ms. normJson v \<noteq> normJson w)" by (metis insert_iff)
    moreover have "uniformMembers atPath (x # ms) None missing e =
        uniformMembers atPath ms (Some (canonicalNumbers v)) missing e1" using r Some by simp
    ultimately show ?thesis
      using after[OF uniformMembers_elected[OF wf(1) wv c, of atPath missing]]
      by (simp only: resolvedAt_simps(2)[OF rv] missingAt_simps(2)[OF rv])
  qed
qed

lemma set_values: "set (List.map_filter (\<lambda>x. resolvePointer x p) ms) = resolvedAt p ms"
  by (force simp: map_filter_def resolvedAt_def)

lemma uniformVerdict_norm:
  assumes "list_all jsonWf ms"
  shows "uniformVerdict p ms =
           (if \<exists>v \<in> resolvedAt p ms. \<exists>w \<in> resolvedAt p ms. normJson v \<noteq> normJson w then triFalse
            else if missingAt p ms then triUnknown else triTrue)"
proof -
  have "jsonEqual v w \<longleftrightarrow> normJson v = normJson w" if "v \<in> resolvedAt p ms" "w \<in> resolvedAt p ms" for v w
    using jsonEqual_iff_norm resolvedAt_wf[OF assms] that by blast
  then have "(\<exists>v \<in> resolvedAt p ms. \<exists>w \<in> resolvedAt p ms. \<not> jsonEqual v w) \<longleftrightarrow>
      (\<exists>v \<in> resolvedAt p ms. \<exists>w \<in> resolvedAt p ms. normJson v \<noteq> normJson w)" by blast
  then show ?thesis unfolding uniformVerdict_def Let_def set_values missingAt_def by presburger
qed

lemma uniform_outcome:
  assumes "coherent e" "jsonWf doc"
  shows "outcome (fst (uniformResult m doc)) (snd (uniformResult m doc)) e (withinCollection m (uniform m doc) e)"
proof -
  define e0 where "e0 = e\<lparr>collectionFailure := None\<rparr>"
  have c0: "coherent e0" and f0: "collectionFailure e0 = None" using assms(1) by (simp_all add: e0_def)
  have k0: "keeps e x = keeps e0 x" for x by (simp add: e0_def keeps_update_left)
  note within = withinCollection_outcome[of "uniform m doc" e, folded e0_def, unfolded k0]
  show ?thesis
  proof (cases "asString (jget m ''at'')")
    case None
    then have u: "uniform m doc e0 = unknownWith (causeOnly ''unsupported'') e0" by (simp add: uniform_def)
    have "outcome triUnknown (aggregateCauses m triUnknown [causeOnly ''unsupported''] None) e
            (withinCollection m (uniform m doc) e)"
      using within[of triUnknown "noteUnknown (causeOnly ''unsupported'') e0" "[causeOnly ''unsupported'']" m] c0 f0
      by (simp add: u unknownWith_def noteUnknown_def keeps_refl keeps_update) (simp add: e0_def)
    with None show ?thesis
      by (simp add: uniformResult_def unsupported_def aggregateCauses_def labelCause_def causeOnly_def)
  next
    case (Some atPath)
    obtain r e1 where s: "selectArray m doc e0 = (r, e1)" by (meson surj_pair)
    note sel = selectArray_result[OF c0 f0, of m doc, unfolded s, simplified]
    show ?thesis
    proof (cases "collectionOf m doc")
      case (Inl failure)
      with sel(4) have r: "r = None" "collectionFailure e1 = Some failure" by simp_all
      then have u: "uniform m doc e0 = (triUnknown, e1)" using Some s by (simp add: uniform_def)
      from within[OF u sel(1), of "[]" m] sel(2,3) r Some Inl show ?thesis
        by (simp add: e0_def aggregateCauses_def uniformResult_def)
    next
      case (Inr ms)
      with sel(4) have r: "r = Some ms" "collectionFailure e1 = None" by simp_all
      have wf: "list_all jsonWf ms" using collectionOf_wf[OF Inr assms(2)] by (simp add: list_all_iff)
      have c1: "coherent e1" using sel(1) by (rule keeps_coherent)
      obtain v e2 where m2: "uniformMembers atPath ms None False e1 = (v, e2)" by (meson surj_pair)
      have mo: "memberOutcome atPath (uniformVerdict atPath ms) e1 (v, e2)"
        using uniformMembers_none[OF wf c1, of atPath False]
        by (simp only: uniformVerdict_norm[OF wf] m2 simp_thms)
      have u: "uniform m doc e0 = (v, e2)"
        using Some s r m2 by (auto simp: uniform_def split: if_splits)
      have v: "v = uniformVerdict atPath ms" using mo by (simp add: memberOutcome_def)
      have k2: "keeps e0 e2" using mo sel(1) by (auto simp only: memberOutcome_def snd_conv intro: keeps_trans)
      have cs: "causes e2 = causes e @ (if v = triUnknown then [causeAt atPath ''absent'' []] else [])"
        using mo sel(2) v by (simp add: memberOutcome_def e0_def)
      have ms: "mismatches e2 = mismatches e" using mo sel(3) by (simp add: memberOutcome_def e0_def)
      have f2: "collectionFailure e2 = None" using mo r(2) by (simp add: memberOutcome_def)
      from within[OF u k2 cs[folded] exI[of _ "[]"], of m] ms f2 v Some Inr show ?thesis
        by (auto simp: aggregateCauses_def uniformResult_def)
    qed
  qed
qed

subsection \<open>Quantifiers\<close>

definition quantifyRun :: "object \<Rightarrow> json \<Rightarrow> evaluator \<Rightarrow> tri \<times> evaluator" where
  "quantifyRun m doc x = (case selectArray m doc x of
       (None, x1) \<Rightarrow> (triUnknown, x1)
     | (Some elements, x1) \<Rightarrow> quantifyItems m elements False x1)"

lemma quantify_outcome:
  assumes c: "coherent e" and wf: "jsonWf doc"
    and IH: "\<And>x. jsonWf x \<Longrightarrow> agrees (jget m ''where'') x"
    and op: "jget m ''op'' = JString op" "op = ''exists'' \<or> op = ''every''" and q: "quantifiers e"
  shows "outcome (meaning (quantifiers e) (evidence e) (JObject m) doc)
           (causesOf (quantifiers e) (evidence e) (JObject m) doc) e
           (withinCollection m (quantifyRun m doc) e)"
proof -
  define e0 where "e0 = e\<lparr>collectionFailure := None\<rparr>"
  have c0: "coherent e0" and f0: "collectionFailure e0 = None" using c by (simp_all add: e0_def)
  have k0: "keeps e x = keeps e0 x" for x by (simp add: e0_def keeps_update_left)
  note within = withinCollection_outcome[of "quantifyRun m doc" e, folded e0_def, unfolded k0]
  obtain r e1 where s: "selectArray m doc e0 = (r, e1)" by (meson surj_pair)
  note sel = selectArray_result[OF c0 f0, of m doc, unfolded s, simplified]
  have c1: "coherent e1" using sel(1) by (rule keeps_coherent)
  let ?mean = "meaning (quantifiers e) (evidence e)"
  show ?thesis
  proof (cases "collectionOf m doc")
    case (Inl failure)
    with sel(4) have r: "r = None" "collectionFailure e1 = Some failure" by simp_all
    then have u: "quantifyRun m doc e0 = (triUnknown, e1)" using s by (simp add: quantifyRun_def)
    have mu: "?mean (JObject m) doc = triUnknown" using op q Inl by auto
    have cu: "causesOf (quantifiers e) (evidence e) (JObject m) doc = [failure]"
      using op q Inl mu by auto
    from within[OF u sel(1), of "[]" m] sel(2,3) r show ?thesis unfolding mu cu
      by (simp add: e0_def aggregateCauses_def)
  next
    case (Inr xs)
    with sel(4) have r: "r = Some xs" "collectionFailure e1 = None" by simp_all
    obtain v e2 where l: "quantifyItems m xs False e1 = (v, e2)" by (meson surj_pair)
    then have u: "quantifyRun m doc e0 = (v, e2)" using s r by (simp add: quantifyRun_def)
    have fe: "quantifiers e1 = quantifiers e" "evidence e1 = evidence e"
      using sel(1) by (simp_all add: keeps_def e0_def)
    have ag: "agrees (jget m ''where'') x" if "x \<in> set xs" for x
      using IH collectionOf_wf[OF Inr wf that] by blast
    note lo = quantifyItems_outcome[of xs m e1 False, OF ag c1, unfolded l fe, simplified Let_def if_False]
    have v: "v = ?mean (JObject m) doc"
      using lo op q Inr by (auto simp: loopOutcome_def)
    let ?cs = "concat (map (causesOf (quantifiers e) (evidence e) (jget m ''where'')) xs)"
    have k2: "keeps e0 e2"
      using lo sel(1) by (auto simp only: loopOutcome_def snd_conv intro: keeps_trans)
    have cs: "v = triUnknown \<Longrightarrow> causes e2 = causes e @ ?cs"
      using lo sel(2) v op q Inr by (auto simp: loopOutcome_def e0_def)
    have ex: "\<exists>new. causes e2 = causes e @ new" using lo sel(2) by (auto simp: loopOutcome_def e0_def)
    have ms: "\<exists>ms. mismatches e2 = mismatches e @ ms" using lo sel(3) by (auto simp: loopOutcome_def e0_def)
    have f2: "collectionFailure e2 = None" using lo r(2) by (simp add: loopOutcome_def)
    show ?thesis
    proof (cases "v = triUnknown")
      case True
      have cu: "causesOf (quantifiers e) (evidence e) (JObject m) doc =
                map (labelCause (stringOrEmpty (jget m ''path''))) ?cs"
        using op q Inr v True by auto
      from within[OF u k2 cs[OF True] ms, of m] f2 True v show ?thesis
        unfolding cu by (simp add: aggregateCauses_def)
    next
      case False
      obtain new where "causes e2 = causes e @ new" using ex by blast
      from within[OF u k2 this ms, of m] f2 False v show ?thesis
        by (simp add: aggregateCauses_def causesOf_decided)
    qed
  qed
qed

subsection \<open>The walk\<close>

lemma condition_quantify:
  "jget m ''op'' = JString op \<Longrightarrow> op = ''exists'' \<or> op = ''every'' \<Longrightarrow> quantifiers e \<Longrightarrow>
   condition (JObject m) doc e = withinCollection m (quantifyRun m doc) e"
  by (auto simp: quantifyRun_def[abs_def])

lemma outcome_not:
  assumes "outcome v cs e r" "(v = triUnknown \<or> cs = [])"
  shows "outcome (negTri v) cs e (case r of (triTrue, e1) \<Rightarrow> (triFalse, e1)
           | (triFalse, e1) \<Rightarrow> (triTrue, e1) | (triUnknown, e1) \<Rightarrow> (triUnknown, e1))"
  using assms by (cases r; cases v) (auto simp: outcome_def)

lemma nine_cases:
  "A \<or> B \<or> C \<or> D \<or> E \<or> F \<or> G \<or> H \<or> \<not> (A \<or> B \<or> C \<or> D \<or> E \<or> F \<or> G \<or> H)"
  by blast

lemma agrees_object:
  assumes IH: "\<And>n x. size n < size (JObject m) \<Longrightarrow> jsonWf x \<Longrightarrow> agrees n x" and wf: "jsonWf doc"
    and op: "jget m ''op'' = JString op" and c: "coherent e"
  shows "outcome (meaning (quantifiers e) (evidence e) (JObject m) doc)
           (causesOf (quantifiers e) (evidence e) (JObject m) doc) e (condition (JObject m) doc e)"
proof -
  have items: "agrees n doc" if "jget m k = JArray cs" "n \<in> set cs" for n k cs
    using IH wf size_condition_item[OF that] by blast
  consider "op = ''literal''" | "op = ''all''" | "op = ''any''" | "op = ''not''" | "op = ''fact''"
    | "op = ''evidence-present''" | "(op = ''exists'' \<or> op = ''every'') \<and> quantifiers e"
    | "op = ''uniform'' \<and> quantifiers e"
    | "\<not> (op = ''literal'' \<or> op = ''all'' \<or> op = ''any'' \<or> op = ''not'' \<or> op = ''fact''
        \<or> op = ''evidence-present'' \<or> (op = ''exists'' \<or> op = ''every'') \<and> quantifiers e
        \<or> op = ''uniform'' \<and> quantifiers e)"
    by atomize_elim (rule nine_cases)
  then show ?thesis
  proof cases
    case 1
    then show ?thesis
      using op c by (cases "jget m ''value''")
        (auto simp: literalResult_def unsupported_def outcome_unknownWith outcome_same triFromBool_def)
  next
    case 2
    show ?thesis
    proof (cases "jget m ''conditions''")
      case (JArray cs)
      have lo: "loopOutcome (meaning (quantifiers e) (evidence e) (JObject m) doc)
          (concat (map (\<lambda>c. causesOf (quantifiers e) (evidence e) c doc) cs)) e (allItems cs doc False e)"
        using allItems_outcome[of cs doc e False, OF items[OF JArray] c] op 2 JArray by simp
      have cu: "meaning (quantifiers e) (evidence e) (JObject m) doc = triUnknown \<Longrightarrow>
          causesOf (quantifiers e) (evidence e) (JObject m) doc =
          concat (map (\<lambda>c. causesOf (quantifiers e) (evidence e) c doc) cs)"
        using op 2 JArray by simp
      have cd: "condition (JObject m) doc e = keepCausesIf (length (causes e)) (allItems cs doc False e)"
        using op 2 JArray by simp
      show ?thesis unfolding cd by (rule keepCausesIf_loop[OF lo cu causesOf_decided])
    qed (use op 2 c in \<open>auto simp: keepCausesIf_def outcome_same\<close>)
  next
    case 3
    show ?thesis
    proof (cases "jget m ''conditions''")
      case (JArray cs)
      have lo: "loopOutcome (meaning (quantifiers e) (evidence e) (JObject m) doc)
          (concat (map (\<lambda>c. causesOf (quantifiers e) (evidence e) c doc) cs)) e (anyItems cs doc False e)"
        using anyItems_outcome[of cs doc e False, OF items[OF JArray] c] op 3 JArray by simp
      have cu: "meaning (quantifiers e) (evidence e) (JObject m) doc = triUnknown \<Longrightarrow>
          causesOf (quantifiers e) (evidence e) (JObject m) doc =
          concat (map (\<lambda>c. causesOf (quantifiers e) (evidence e) c doc) cs)"
        using op 3 JArray by simp
      have cd: "condition (JObject m) doc e = keepCausesIf (length (causes e)) (anyItems cs doc False e)"
        using op 3 JArray by simp
      show ?thesis unfolding cd by (rule keepCausesIf_loop[OF lo cu causesOf_decided])
    qed (use op 3 c in \<open>auto simp: keepCausesIf_def outcome_same\<close>)
  next
    case 4
    let ?n = "jget m ''condition''"
    have "agrees ?n doc" using IH[OF size_jget_lt wf] .
    then have o: "outcome (meaning (quantifiers e) (evidence e) ?n doc)
        (causesOf (quantifiers e) (evidence e) ?n doc) e (condition ?n doc e)"
      using c by (simp add: agrees_def)
    have neg: "negTri t \<noteq> triUnknown \<longleftrightarrow> t \<noteq> triUnknown" for t by (cases t) simp_all
    show ?thesis using outcome_not[OF o] causesOf_decided[of _ _ ?n doc] op 4 neg by auto
  next
    case 5
    have "snd (factResult m doc) = []" if "fst (factResult m doc) \<noteq> triUnknown"
      using that by (auto simp: factResult_def unsupported_def Let_def split: option.splits if_splits)
    with evalFact_outcome[OF c, of m doc] op 5 show ?thesis by auto
  next
    case 6
    have "snd (evidenceResult (evidence e) m) = []" if "fst (evidenceResult (evidence e) m) \<noteq> triUnknown"
      using that by (auto simp: evidenceResult_def unsupported_def split: option.splits if_splits)
    with evidencePresent_outcome[OF c, of m] op 6 show ?thesis by auto
  next
    case 7
    then show ?thesis
      using quantify_outcome[OF c wf IH[OF size_jget_lt] op] condition_quantify[OF op] by simp
  next
    case 8
    have "snd (uniformResult m doc) = []" if "fst (uniformResult m doc) \<noteq> triUnknown"
      using that by (auto simp: uniformResult_def unsupported_def split: option.splits sum.splits if_splits)
    with uniform_outcome[OF c wf, of m] op 8 show ?thesis by auto
  next
    case 9
    with op c show ?thesis by (auto simp: outcome_unknownWith)
  qed
qed

lemma condition_agrees: "jsonWf doc \<Longrightarrow> agrees node doc"
proof (induction "size node" arbitrary: node doc rule: less_induct)
  case less
  show ?case
  proof (cases node)
    case (JObject m)
    have IH: "\<And>n x. size n < size (JObject m) \<Longrightarrow> jsonWf x \<Longrightarrow> agrees n x" using less.hyps JObject by blast
    show ?thesis
    proof (cases "asString (jget m ''op'')")
      case None
      then show ?thesis using JObject by (auto simp: agrees_def outcome_unknownWith)
    next
      case (Some op)
      then have "jget m ''op'' = JString op" by simp
      from agrees_object[OF IH less.prems this] show ?thesis unfolding JObject agrees_def by blast
    qed
  qed (auto simp: agrees_def outcome_unknownWith)
qed

end
