(* ===== verification/Cost.thy ===== *)
theory Cost
  imports Verdict
begin

section \<open>The accounting model\<close>

text \<open>
  The closed form of the work accounting documented on \<open>evaluate\<close>: units summed over the nodes
  and the elements present, plus one scan of each distinct authored pointer. \<open>preflight\<close>, which
  charges step by step and stops at the first overrun, is shown to implement it.
\<close>

subsection \<open>The cost of a condition\<close>

definition stepsOf :: "string \<Rightarrow> nat" where
  "stepsOf path = pointerSteps (compilePointer path)"

definition elementsAt :: "object \<Rightarrow> json \<Rightarrow> json list" where
  "elementsAt m doc = (case collectionOf m doc of Inl _ \<Rightarrow> [] | Inr xs \<Rightarrow> xs)"

definition selectedUnits :: "string \<Rightarrow> json \<Rightarrow> nat" where
  "selectedUnits path doc = (case resolvePointer doc path of None \<Rightarrow> 0 | Some v \<Rightarrow> valueUnits v)"

definition factUnits :: "object \<Rightarrow> json \<Rightarrow> nat" where
  "factUnits m doc =
     (let path = stringOrEmpty (jget m ''path'');
          comparisons = (if jget m ''operator'' = JString ''in''
                         then length (asArray (jget m ''value'')) else 1)
      in 1 + stepsOf path + comparisons * selectedUnits path doc + valueUnits (jget m ''value''))"

text \<open>The units of the resolved members, and the reread term.\<close>

definition memberValues :: "string \<Rightarrow> json list \<Rightarrow> nat list" where
  "memberValues atPath ms = map valueUnits (List.map_filter (\<lambda>x. resolvePointer x atPath) ms)"

definition rereadUnits :: "nat list \<Rightarrow> nat" where
  "rereadUnits us = (length us - 1) * foldr max us 0"

definition uniformUnits :: "object \<Rightarrow> json \<Rightarrow> nat" where
  "uniformUnits m doc =
     (let atPath = stringOrEmpty (jget m ''at''); ms = elementsAt m doc; us = memberValues atPath ms
      in 1 + stepsOf (stringOrEmpty (jget m ''path'')) + length ms * stepsOf atPath + sum_list us
         + rereadUnits us)"

function (sequential) unitsOf :: "json \<Rightarrow> json \<Rightarrow> nat" where
  "unitsOf (JObject m) doc =
     (case asString (jget m ''op'') of
        None \<Rightarrow> 1
      | Some op \<Rightarrow>
        if op = ''not'' then 1 + unitsOf (jget m ''condition'') doc
        else if op = ''all'' \<or> op = ''any'' then
          (case jget m ''conditions'' of
             JArray cs \<Rightarrow> 1 + sum_list (map (\<lambda>c. unitsOf c doc) cs) | _ \<Rightarrow> 1)
        else if op = ''fact'' then factUnits m doc
        else if op = ''evidence-present'' then 1 + length (stringOrEmpty (jget m ''evidenceRequirement''))
        else if op = ''exists'' \<or> op = ''every'' then
          1 + stepsOf (stringOrEmpty (jget m ''path''))
          + sum_list (map (unitsOf (jget m ''where'')) (elementsAt m doc))
        else if op = ''uniform'' then uniformUnits m doc
        else 1)"
| "unitsOf node doc = 1"
  by pat_completeness auto
termination
  by (relation "measure (\<lambda>(n, d). size n)")
     (simp_all only: in_measure case_prod_conv wf_measure size_condition_item size_jget_lt)

text \<open>The authored pointers a preflight reaches.\<close>

function (sequential) pointersOf :: "json \<Rightarrow> json \<Rightarrow> string list" where
  "pointersOf (JObject m) doc =
     (case asString (jget m ''op'') of
        None \<Rightarrow> []
      | Some op \<Rightarrow>
        if op = ''not'' then pointersOf (jget m ''condition'') doc
        else if op = ''all'' \<or> op = ''any'' then
          (case jget m ''conditions'' of
             JArray cs \<Rightarrow> concat (map (\<lambda>c. pointersOf c doc) cs) | _ \<Rightarrow> [])
        else if op = ''fact'' then [stringOrEmpty (jget m ''path'')]
        else if op = ''exists'' \<or> op = ''every'' then
          stringOrEmpty (jget m ''path'') # concat (map (pointersOf (jget m ''where'')) (elementsAt m doc))
        else if op = ''uniform'' then
          stringOrEmpty (jget m ''path'')
          # (if elementsAt m doc = [] then [] else [stringOrEmpty (jget m ''at'')])
        else [])"
| "pointersOf node doc = []"
  by pat_completeness auto
termination
  by (relation "measure (\<lambda>(n, d). size n)")
     (simp_all only: in_measure case_prod_conv wf_measure size_condition_item size_jget_lt)

text \<open>The scans still due: each distinct pointer not yet in the cache, once.\<close>

definition scanUnits :: "string set \<Rightarrow> string set \<Rightarrow> nat" where
  "scanUnits known ps = (\<Sum>p \<in> ps - known. 1 + length p)"

lemma scanUnits_empty [simp]: "scanUnits known {} = 0"
  by (simp add: scanUnits_def)

lemma scanUnits_union:
  assumes "finite ps" "finite qs"
  shows "scanUnits known (ps \<union> qs) = scanUnits known ps + scanUnits (known \<union> ps) qs"
proof -
  have "(ps \<union> qs) - known = (ps - known) \<union> (qs - (known \<union> ps))" by blast
  then show ?thesis unfolding scanUnits_def using assms by (simp add: sum.union_disjoint Int_def)
qed

lemma scanUnits_new: "p \<notin> known \<Longrightarrow> scanUnits known {p} = 1 + length p"
proof -
  assume "p \<notin> known"
  then have "{p} - known = {p}" by auto
  then show ?thesis by (simp add: scanUnits_def)
qed

subsection \<open>What one charging step does\<close>

definition fresh :: "evaluator \<Rightarrow> bool" where
  "fresh e \<longleftrightarrow> em.within_limit e \<and> coherent e"

text \<open>From \<open>e\<close> to \<open>e'\<close>, \<open>u\<close> units and the scans of the pointers \<open>ps\<close> were due.\<close>

definition spends :: "evaluator \<Rightarrow> evaluator \<Rightarrow> nat \<Rightarrow> string set \<Rightarrow> bool" where
  "spends e e' u ps \<longleftrightarrow>
     em.accounts e e' (u + scanUnits (dom (pointers e)) ps) \<and> coherent e' \<and>
     (\<not> exceeded e' \<longrightarrow> dom (pointers e') = dom (pointers e) \<union> ps) \<and>
     evidence e' = evidence e \<and> quantifiers e' = quantifiers e \<and> outcomeValues e' = outcomeValues e \<and>
     causes e' = causes e \<and> mismatches e' = mismatches e \<and> unmetEvidence e' = unmetEvidence e"

lemma spends_fresh: "spends e e' u ps \<Longrightarrow> \<not> exceeded e' \<Longrightarrow> fresh e'"
  by (auto simp: spends_def fresh_def intro: em.accounts_within)

lemma spends_then:
  assumes "spends e e1 u ps" "\<not> exceeded e1" "spends e1 e2 v qs" "finite ps" "finite qs"
  shows "spends e e2 (u + v) (ps \<union> qs)"
proof -
  have a: "em.accounts e e1 (u + scanUnits (dom (pointers e)) ps)"
    and b: "em.accounts e1 e2 (v + scanUnits (dom (pointers e) \<union> ps) qs)"
    using assms(1-3) by (simp_all add: spends_def)
  have "u + v + scanUnits (dom (pointers e)) (ps \<union> qs) =
        (u + scanUnits (dom (pointers e)) ps) + (v + scanUnits (dom (pointers e) \<union> ps) qs)"
    by (simp add: scanUnits_union[OF assms(4,5)])
  then have "em.accounts e e2 (u + v + scanUnits (dom (pointers e)) (ps \<union> qs))"
    using em.accounts_then[OF a assms(2) b] by (simp only:)
  then show ?thesis using assms(1-3) by (auto simp: spends_def)
qed

lemma spends_stop:
  assumes "spends e e1 u ps" "exceeded e1" "finite ps" "finite qs"
  shows "spends e e1 (u + v) (ps \<union> qs)"
proof -
  have a: "em.accounts e e1 (u + scanUnits (dom (pointers e)) ps)" using assms(1) by (simp add: spends_def)
  have "u + v + scanUnits (dom (pointers e)) (ps \<union> qs) =
        (u + scanUnits (dom (pointers e)) ps) + (v + scanUnits (dom (pointers e) \<union> ps) qs)"
    by (simp add: scanUnits_union[OF assms(3,4)])
  then have "em.accounts e e1 (u + v + scanUnits (dom (pointers e)) (ps \<union> qs))"
    using em.accounts_stop[OF a assms(2) refl assms(2)] by (simp only:)
  then show ?thesis using assms(1,2) by (auto simp: spends_def)
qed

lemma spends_refl: "fresh e \<Longrightarrow> spends e e 0 {}"
  by (simp add: spends_def fresh_def em.accounts_zero)

lemma spends_failure: "spends e (e'\<lparr>collectionFailure := f\<rparr>) u ps \<longleftrightarrow> spends e e' u ps"
  by (simp add: spends_def em.accounts_def)

lemma charge_spends:
  assumes "fresh e"
  shows "spends e (snd (charge u e)) u {}" "fst (charge u e) \<longleftrightarrow> \<not> exceeded (snd (charge u e))"
  using assms em.accounts_charge[of e u] em.charge_reports[of u e]
  by (auto simp: spends_def fresh_def coherent_def)

lemma compiled_spends_frame:
  "exceeded (snd (compiled p e)) = exceeded e"
  by (simp add: compiled_def Let_def split: option.splits)

lemma scan_spends:
  assumes "fresh e" "pointers e p = None" "charge (1 + length p) e = (True, e1)"
  shows "spends e (snd (compiled p e1)) 0 {p}" "\<not> exceeded (snd (compiled p e1))"
proof -
  have s: "spends e e1 (1 + length p) {}" and n: "\<not> exceeded e1"
    using charge_spends[OF assms(1), of "1 + length p"] assms(3) by simp_all
  have p1: "pointers e1 = pointers e" by (metis charge_frame(4) assms(3) snd_conv)
  have c: "compiled p e1 = (compilePointer p, e1\<lparr>pointers := (pointers e)(p \<mapsto> compilePointer p)\<rparr>)"
    using assms(2) p1 by (simp add: compiled_def Let_def)
  have "p \<notin> dom (pointers e)" using assms(2) by auto
  then have "scanUnits (dom (pointers e)) {p} = 1 + length p" by (rule scanUnits_new)
  with s show "spends e (snd (compiled p e1)) 0 {p}"
    by (auto simp: c spends_def em.accounts_def coherent_def p1)
  show "\<not> exceeded (snd (compiled p e1))" using n by (simp add: c)
qed

lemma chargePointer_spends:
  assumes "fresh e"
  shows "spends e (snd (chargePointer p e)) (stepsOf p) {p}"
    and "fst (chargePointer p e) \<longleftrightarrow> \<not> exceeded (snd (chargePointer p e))"
proof -
  have "spends e (snd (chargePointer p e)) (stepsOf p) {p} \<and>
        (fst (chargePointer p e) \<longleftrightarrow> \<not> exceeded (snd (chargePointer p e)))"
  proof (cases "pointers e p")
    case (Some c)
    with assms have c: "c = compilePointer p" by (simp add: fresh_def coherent_def)
    have "scanUnits (dom (pointers e)) {p} = 0" using Some by (auto simp: scanUnits_def)
    moreover have "insert p (dom (pointers e)) = dom (pointers e)" using Some by auto
    ultimately show ?thesis
      using charge_spends[OF assms, of "stepsOf p"] Some
      by (auto simp: chargePointer_def stepsOf_def c spends_def)
  next
    case None
    obtain ok e1 where c: "charge (1 + length p) e = (ok, e1)" by (meson surj_pair)
    show ?thesis
    proof (cases ok)
      case True
      from c True have c': "charge (1 + length p) e = (True, e1)" by simp
      note sc = scan_spends[OF assms None c']
      have p1: "pointers e1 = pointers e" by (metis charge_frame(4) c snd_conv)
      have cc: "fst (compiled p e1) = compilePointer p"
        using None p1 by (simp add: compiled_def Let_def)
      note f = spends_fresh[OF sc]
      have "spends e (snd (charge (stepsOf p) (snd (compiled p e1)))) (stepsOf p) {p}"
        using spends_then[OF sc charge_spends(1)[OF f, of "stepsOf p"]] by simp
      then show ?thesis
        using charge_spends(2)[OF f, of "stepsOf p"] None c True cc
        by (simp add: chargePointer_def stepsOf_def split_beta)
    next
      case False
      have "spends e e1 (1 + length p) {}" "exceeded e1"
        using charge_spends[OF assms, of "1 + length p"] c False by simp_all
      moreover have "p \<notin> dom (pointers e)" using None by auto
      ultimately have "spends e e1 (stepsOf p) {p}"
        by (auto simp: spends_def em.accounts_def scanUnits_new)
      with c False None \<open>exceeded e1\<close> show ?thesis by (simp add: chargePointer_def)
    qed
  qed
  then show "spends e (snd (chargePointer p e)) (stepsOf p) {p}"
    "fst (chargePointer p e) \<longleftrightarrow> \<not> exceeded (snd (chargePointer p e))" by blast+
qed

subsection \<open>Charged resolutions\<close>

text \<open>A pointer already charged resolves from the cache and leaves the state alone.\<close>

lemma resolve_known:
  assumes "coherent e" "p \<in> dom (pointers e)"
  shows "resolve doc p e = (resolvePointer doc p, e)"
  using assms
  by (auto simp: resolve_def compiled_def resolvePointer_def coherent_def split: option.splits)

lemma selectArray_known:
  assumes "coherent e" "stringOrEmpty (jget m ''path'') \<in> dom (pointers e)"
  shows "elementsOf (fst (selectArray m doc e)) = elementsAt m doc"
    and "\<exists>f. snd (selectArray m doc e) = e\<lparr>collectionFailure := f\<rparr>"
proof -
  have same: "\<exists>f. e = e\<lparr>collectionFailure := f\<rparr>" by (rule exI[of _ "collectionFailure e"]) simp
  have "elementsOf (fst (selectArray m doc e)) = elementsAt m doc
      \<and> (\<exists>f. snd (selectArray m doc e) = e\<lparr>collectionFailure := f\<rparr>)"
  proof (cases "asString (jget m ''path'')")
    case None
    then show ?thesis by (auto simp: selectArray_def elementsAt_def collectionOf_def elementsOf_def)
  next
    case (Some path)
    then have p: "stringOrEmpty (jget m ''path'') = path" by (simp add: stringOrEmpty_def)
    note r = resolve_known[OF assms[unfolded p], of doc]
    show ?thesis
    proof (cases "resolvePointer doc path")
      case None
      with Some r show ?thesis
        by (auto simp: selectArray_def elementsAt_def collectionOf_def elementsOf_def)
    next
      case v: (Some v)
      with Some r same show ?thesis
        by (cases v) (auto simp: selectArray_def elementsAt_def collectionOf_def elementsOf_def)
    qed
  qed
  then show "elementsOf (fst (selectArray m doc e)) = elementsAt m doc"
    and "\<exists>f. snd (selectArray m doc e) = e\<lparr>collectionFailure := f\<rparr>" by blast+
qed

lemma fresh_failure: "fresh (e\<lparr>collectionFailure := f\<rparr>) = fresh e"
  by (simp add: fresh_def em.within_limit_def)

lemma spends_failure_left: "spends (e\<lparr>collectionFailure := f\<rparr>) e' u ps \<longleftrightarrow> spends e e' u ps"
  by (simp add: spends_def em.accounts_def)

subsection \<open>The members of a uniform\<close>

lemma memberValues_simps [simp]:
  "memberValues p [] = []"
  "resolvePointer x p = Some v \<Longrightarrow> memberValues p (x # ms) = valueUnits v # memberValues p ms"
  "resolvePointer x p = None \<Longrightarrow> memberValues p (x # ms) = memberValues p ms"
  by (simp_all add: memberValues_def map_filter_def)

definition memberScans :: "string \<Rightarrow> json list \<Rightarrow> string set" where
  "memberScans atPath ms = (if ms = [] then {} else {atPath})"

lemma memberScans_simps [simp]: "memberScans p [] = {}" "memberScans p (x # ms) = {p}"
  by (simp_all add: memberScans_def)

lemma finite_memberScans [simp]: "finite (memberScans p ms)"
  by (simp add: memberScans_def)

lemma insert_memberScans [simp]: "insert p (memberScans p ms) = {p}" "{p} \<union> memberScans p ms = {p}"
  by (auto simp: memberScans_def)

lemma preflightMembers_spends:
  assumes "fresh e"
  shows "spends e (snd (preflightMembers p ms n big e))
           (length ms * stepsOf p + sum_list (memberValues p ms)) (memberScans p ms)
       \<and> fst (preflightMembers p ms n big e) =
           (if exceeded (snd (preflightMembers p ms n big e)) then None
            else Some (n + length (memberValues p ms), max big (foldr max (memberValues p ms) 0)))"
  using assms
proof (induction ms arbitrary: n big e)
  case Nil
  then show ?case
    by (simp add: spends_refl fresh_def em.within_limit_def)
next
  case (Cons x ms)
  obtain ok e1 where c: "chargePointer p e = (ok, e1)" by (meson surj_pair)
  note s1 = chargePointer_spends[OF Cons.prems, of p, unfolded c fst_conv snd_conv]
  show ?case
  proof (cases ok)
    case False
    with s1(2) have x: "exceeded e1" by simp
    from spends_stop[OF s1(1) x, of "{}" "length ms * stepsOf p + sum_list (memberValues p (x # ms))"]
    have "spends e e1 (length (x # ms) * stepsOf p + sum_list (memberValues p (x # ms))) {p}"
      by (simp add: add.assoc)
    with False x c show ?thesis by simp
  next
    case True
    with s1(2) have x: "\<not> exceeded e1" by simp
    note f1 = spends_fresh[OF s1(1) x]
    have k: "p \<in> dom (pointers e1)" "coherent e1"
      using s1(1) x by (auto simp: spends_def)
    note r = resolve_known[OF k(2,1), of x]
    show ?thesis
    proof (cases "resolvePointer x p")
      case None
      note IH = Cons.IH[OF f1, of n big]
      have "spends e (snd (preflightMembers p ms n big e1))
              (stepsOf p + (length ms * stepsOf p + sum_list (memberValues p ms))) ({p} \<union> memberScans p ms)"
        by (rule spends_then[OF s1(1) x conjunct1[OF IH]]) simp_all
      with IH None r c True show ?thesis by (simp add: add.assoc)
    next
      case (Some v)
      obtain ok2 e2 where c2: "charge (valueUnits v) e1 = (ok2, e2)" by (meson surj_pair)
      note s2 = charge_spends[OF f1, of "valueUnits v", unfolded c2 fst_conv snd_conv]
      note s12 = spends_then[OF s1(1) x s2(1) finite.emptyI[THEN finite.insertI] finite.emptyI]
      show ?thesis
      proof (cases ok2)
        case False
        with s2(2) have x2: "exceeded e2" by simp
        from spends_stop[OF s12 x2, of "{}" "length ms * stepsOf p + sum_list (memberValues p ms)"]
        have "spends e e2 (length (x # ms) * stepsOf p + sum_list (memberValues p (x # ms))) {p}"
          using Some by (simp add: algebra_simps)
        with False x2 c True r Some c2 show ?thesis by simp
      next
        case True2: True
        with s2(2) have x2: "\<not> exceeded e2" by simp
        let ?big = "if valueUnits v > big then valueUnits v else big"
        note IH = Cons.IH[OF spends_fresh[OF s12 x2], of "n + 1" ?big]
        have "spends e (snd (preflightMembers p ms (n + 1) ?big e2))
              (stepsOf p + valueUnits v + (length ms * stepsOf p + sum_list (memberValues p ms)))
              ({p} \<union> {} \<union> memberScans p ms)"
          by (rule spends_then[OF s12 x2 conjunct1[OF IH]]) simp_all
        then have sp: "spends e (snd (preflightMembers p ms (n + 1) ?big e2))
              (length (x # ms) * stepsOf p + sum_list (memberValues p (x # ms))) (memberScans p (x # ms))"
          using Some by (simp add: algebra_simps)
        have e: "preflightMembers p (x # ms) n big e = preflightMembers p ms (n + 1) ?big e2"
          using c True r Some c2 True2 by (simp add: Let_def)
        have b: "?big = max big (valueUnits v)" by (simp add: max_def)
        show ?thesis unfolding e using sp IH Some by (simp add: b max.assoc)
      qed
    qed
  qed
qed

subsection \<open>The whole tree\<close>

definition costs :: "json \<Rightarrow> json \<Rightarrow> bool" where
  "costs node doc \<longleftrightarrow>
     (\<forall>e. fresh e \<longrightarrow> spends e (preflight node doc e) (unitsOf node doc) (set (pointersOf node doc)))"

lemma fresh_not_exceeded: "fresh e \<Longrightarrow> \<not> exceeded e"
  by (simp add: fresh_def em.within_limit_def)

lemma preflightItems_spends:
  assumes "\<And>n. n \<in> set items \<Longrightarrow> costs n doc" "fresh e"
  shows "spends e (preflightItems items doc e) (sum_list (map (\<lambda>c. unitsOf c doc) items))
           (set (concat (map (\<lambda>c. pointersOf c doc) items)))"
  using assms
proof (induction items arbitrary: e)
  case (Cons c items)
  have s: "spends e (preflight c doc e) (unitsOf c doc) (set (pointersOf c doc))"
    using Cons.prems by (auto simp: costs_def)
  show ?case
  proof (cases "exceeded (preflight c doc e)")
    case True
    from spends_stop[OF s this finite_set finite_set[of "concat (map (\<lambda>c. pointersOf c doc) items)"]] True show ?thesis by (simp add: Let_def)
  next
    case False
    note IH = Cons.IH[OF Cons.prems(1)[OF list.set_intros(2)] spends_fresh[OF s False]]
    from spends_then[OF s False IH finite_set finite_set] False show ?thesis by (simp add: Let_def)
  qed
qed (simp add: spends_refl)

lemma preflightElements_spends:
  assumes "\<And>x. x \<in> set xs \<Longrightarrow> costs (jget m ''where'') x" "fresh e"
  shows "spends e (preflightElements m xs e) (sum_list (map (unitsOf (jget m ''where'')) xs))
           (set (concat (map (pointersOf (jget m ''where'')) xs)))"
  using assms
proof (induction xs arbitrary: e)
  case (Cons x xs)
  let ?w = "jget m ''where''"
  have s: "spends e (preflight ?w x e) (unitsOf ?w x) (set (pointersOf ?w x))"
    using Cons.prems by (auto simp: costs_def)
  show ?case
  proof (cases "exceeded (preflight ?w x e)")
    case True
    from spends_stop[OF s this finite_set finite_set[of "concat (map (pointersOf ?w) xs)"]] True show ?thesis by (simp add: Let_def)
  next
    case False
    note IH = Cons.IH[OF Cons.prems(1)[OF list.set_intros(2)] spends_fresh[OF s False]]
    from spends_then[OF s False IH finite_set finite_set] False show ?thesis by (simp add: Let_def)
  qed
qed (simp add: spends_refl)

text \<open>The node's own unit and its pointer, which every fact and aggregate starts with.\<close>

lemma node_pointer_spends:
  assumes "fresh e" "charge 1 e = (True, e1)" "chargePointer p e1 = (ok, e2)"
  shows "spends e e2 (1 + stepsOf p) {p}" "ok \<longleftrightarrow> \<not> exceeded e2"
    "ok \<Longrightarrow> p \<in> dom (pointers e2)" "ok \<Longrightarrow> fresh e2"
proof -
  note s1 = charge_spends[OF assms(1), of 1, unfolded assms(2) fst_conv snd_conv]
  then have n1: "\<not> exceeded e1" by simp
  note s2 = chargePointer_spends[OF spends_fresh[OF s1(1) n1], of p, unfolded assms(3) fst_conv snd_conv]
  show s: "spends e e2 (1 + stepsOf p) {p}" using spends_then[OF s1(1) n1 s2(1)] by simp
  show o: "ok \<longleftrightarrow> \<not> exceeded e2" using s2(2) .
  show "ok \<Longrightarrow> p \<in> dom (pointers e2)" using s o by (auto simp: spends_def)
  show "ok \<Longrightarrow> fresh e2" using spends_fresh[OF s] o by blast
qed

lemma node_stop:
  assumes "fresh e" "charge u e = (False, e1)" "finite ps"
  shows "spends e e1 (u + v) ps"
  using spends_stop[OF charge_spends(1)[OF assms(1), of u], of ps v] charge_spends(2)[OF assms(1), of u] assms(2,3)
  by simp

lemma pointer_stop:
  assumes "spends e e2 u {p}" "exceeded e2" "finite ps" "p \<in> ps"
  shows "spends e e2 (u + v) ps"
  using spends_stop[OF assms(1,2), of ps v] assms(3,4) by (simp add: insert_absorb)

lemma preflightFact_spends:
  assumes "fresh e"
  shows "spends e (preflightFact m doc e) (factUnits m doc) {stringOrEmpty (jget m ''path'')}"
proof -
  let ?p = "stringOrEmpty (jget m ''path'')"
  let ?rest = "(if jget m ''operator'' = JString ''in'' then length (asArray (jget m ''value'')) else 1)
               * selectedUnits ?p doc + valueUnits (jget m ''value'')"
  have u: "factUnits m doc = 1 + stepsOf ?p + ?rest" by (simp add: factUnits_def Let_def)
  obtain ok e1 where c1: "charge 1 e = (ok, e1)" by (meson surj_pair)
  obtain ok2 e2 where c2: "chargePointer ?p e1 = (ok2, e2)" by (meson surj_pair)
  show ?thesis
  proof (cases ok)
    case False
    with node_stop[OF assms, of 1 e1 "{?p}" "stepsOf ?p + ?rest"] c1 show ?thesis
      by (simp add: preflightFact_def u)
  next
    case True
    note np = node_pointer_spends[OF assms _ c2] c1 True
    show ?thesis
    proof (cases ok2)
      case False
      with pointer_stop[OF np(1)] np c1 c2 True show ?thesis by (simp add: preflightFact_def u)
    next
      case True2: True
      have f: "fresh e2" and k: "?p \<in> dom (pointers e2)" and s: "spends e e2 (1 + stepsOf ?p) {?p}"
        and n: "\<not> exceeded e2" using np True2 c1 True by auto
      have r: "resolve doc ?p e2 = (resolvePointer doc ?p, e2)"
        using resolve_known[OF _ k] f by (simp add: fresh_def)
      have "spends e (snd (charge ?rest e2)) (1 + stepsOf ?p + ?rest) ({?p} \<union> {})"
        by (rule spends_then[OF s n charge_spends(1)[OF f]]) simp_all
      then show ?thesis
        using c1 c2 True True2 r by (simp add: preflightFact_def u selectedUnits_def)
    qed
  qed
qed

lemma memberScans_set: "set (if xs = [] then [] else [p]) = memberScans p xs"
  by (simp add: memberScans_def)

lemma preflightUniform_spends:
  assumes "fresh e"
  shows "spends e (preflightUniform m doc e) (uniformUnits m doc)
           ({stringOrEmpty (jget m ''path'')} \<union> memberScans (stringOrEmpty (jget m ''at'')) (elementsAt m doc))"
proof -
  let ?p = "stringOrEmpty (jget m ''path'')" and ?a = "stringOrEmpty (jget m ''at'')"
  let ?ms = "elementsAt m doc"
  let ?us = "memberValues ?a ?ms"
  let ?P = "{?p} \<union> memberScans ?a ?ms"
  have u: "uniformUnits m doc = 1 + stepsOf ?p + (length ?ms * stepsOf ?a + sum_list ?us) + rereadUnits ?us"
    by (simp add: uniformUnits_def Let_def)
  obtain ok e1 where c1: "charge 1 e = (ok, e1)" by (meson surj_pair)
  obtain ok2 e2 where c2: "chargePointer ?p e1 = (ok2, e2)" by (meson surj_pair)
  show ?thesis
  proof (cases "ok \<and> ok2")
    case False
    show ?thesis
    proof (cases ok)
      case False
      with node_stop[OF assms, of 1 e1 ?P "stepsOf ?p + (length ?ms * stepsOf ?a + sum_list ?us) + rereadUnits ?us"] c1
      show ?thesis by (simp add: preflightUniform_def u add.assoc)
    next
      case ok: True
      note np = node_pointer_spends[OF assms _ c2]
      have "spends e e2 (1 + stepsOf ?p + (length ?ms * stepsOf ?a + sum_list ?us + rereadUnits ?us)) ?P"
        using pointer_stop[OF np(1), of ?P] np(2) c1 ok False by simp
      with c1 c2 ok False show ?thesis by (simp add: preflightUniform_def u add.assoc)
    qed
  next
    case True
    note np = node_pointer_spends[OF assms _ c2]
    have f: "fresh e2" and k: "?p \<in> dom (pointers e2)" and s: "spends e e2 (1 + stepsOf ?p) {?p}"
      and n: "\<not> exceeded e2" using np c1 True by auto
    obtain r e3 where sa: "selectArray m doc e2 = (r, e3)" by (meson surj_pair)
    obtain g where g: "e3 = e2\<lparr>collectionFailure := g\<rparr>" and el: "elementsOf r = ?ms"
      using selectArray_known[of e2 m doc] f k sa by (auto simp: fresh_def)
    have f3: "fresh e3" using f by (simp add: g fresh_failure)
    obtain q e4 where pm: "preflightMembers ?a ?ms 0 0 e3 = (q, e4)" by (meson surj_pair)
    note pmr = preflightMembers_spends[OF f3, of ?a ?ms 0 0, unfolded pm fst_conv snd_conv]
    have s4: "spends e e4 (1 + stepsOf ?p + (length ?ms * stepsOf ?a + sum_list ?us)) ?P"
      using spends_then[OF s n, of e4 "length ?ms * stepsOf ?a + sum_list ?us" "memberScans ?a ?ms"]
        conjunct1[OF pmr] by (simp add: g spends_failure_left)
    have st: "preflightUniform m doc e = (case q of None \<Rightarrow> e4 | Some (n, big) \<Rightarrow>
        if n > 1 then snd (charge ((n - 1) * big) e4) else e4)"
      using c1 c2 True sa el pm by (simp add: preflightUniform_def split: option.splits)
    show ?thesis
    proof (cases "exceeded e4")
      case True
      with pmr have "q = None" by simp
      moreover have "spends e e4 (1 + stepsOf ?p + (length ?ms * stepsOf ?a + sum_list ?us) + rereadUnits ?us) ?P"
        using spends_stop[OF s4 True, of "{}" "rereadUnits ?us"] by simp
      ultimately show ?thesis by (simp add: st u)
    next
      case False
      with pmr have q: "q = Some (length ?us, foldr max ?us 0)" by simp
      note f4 = spends_fresh[OF s4 False]
      show ?thesis
      proof (cases "length ?us > 1")
        case True
        with q spends_then[OF s4 False charge_spends(1)[OF f4, of "rereadUnits ?us"]] show ?thesis
          by (simp add: st u rereadUnits_def)
      next
        case short: False
        then have "rereadUnits ?us = 0" by (cases "?us") (auto simp: rereadUnits_def)
        with q short s4 show ?thesis by (simp add: st u)
      qed
    qed
  qed
qed

lemma costs_leaf:
  assumes "\<And>e. preflight node doc e = (if exceeded e then e else snd (charge u e))"
    "unitsOf node doc = u" "pointersOf node doc = []"
  shows "costs node doc"
  unfolding costs_def assms(1,2,3)
  using charge_spends(1)[of _ u] fresh_not_exceeded by auto

lemma costs_not:
  assumes "jget m ''op'' = JString ''not''" "costs (jget m ''condition'') doc"
  shows "costs (JObject m) doc"
  unfolding costs_def
proof (intro allI impI)
  fix e assume f: "fresh e"
  let ?n = "jget m ''condition''"
  obtain ok e1 where c: "charge 1 e = (ok, e1)" by (meson surj_pair)
  note s1 = charge_spends[OF f, of 1, unfolded c fst_conv snd_conv]
  show "spends e (preflight (JObject m) doc e) (unitsOf (JObject m) doc) (set (pointersOf (JObject m) doc))"
  proof (cases ok)
    case True
    then have n: "\<not> exceeded e1" using s1 by simp
    have "spends e1 (preflight ?n doc e1) (unitsOf ?n doc) (set (pointersOf ?n doc))"
      using assms(2) spends_fresh[OF s1(1) n] by (simp add: costs_def)
    from spends_then[OF s1(1) n this finite.emptyI finite_set] show ?thesis
      using assms(1) c True fresh_not_exceeded[OF f] by simp
  next
    case False
    from node_stop[OF f c[unfolded False[THEN eq_False[THEN iffD2]]] finite_set] show ?thesis
      using assms(1) c False fresh_not_exceeded[OF f] by simp
  qed
qed

lemma costs_items:
  assumes "jget m ''op'' = JString op" "op = ''all'' \<or> op = ''any''"
    and cs: "jget m ''conditions'' = JArray cs" "\<And>n. n \<in> set cs \<Longrightarrow> costs n doc"
  shows "costs (JObject m) doc"
  unfolding costs_def
proof (intro allI impI)
  fix e assume f: "fresh e"
  obtain ok e1 where c: "charge 1 e = (ok, e1)" by (meson surj_pair)
  note s1 = charge_spends[OF f, of 1, unfolded c fst_conv snd_conv]
  have u: "unitsOf (JObject m) doc = 1 + sum_list (map (\<lambda>c. unitsOf c doc) cs)"
    and p: "pointersOf (JObject m) doc = concat (map (\<lambda>c. pointersOf c doc) cs)"
    and pf: "preflight (JObject m) doc e = (if ok then preflightItems cs doc e1 else e1)"
    using assms(1,2) cs(1) c fresh_not_exceeded[OF f] by auto
  show "spends e (preflight (JObject m) doc e) (unitsOf (JObject m) doc) (set (pointersOf (JObject m) doc))"
  proof (cases ok)
    case True
    then have n: "\<not> exceeded e1" using s1 by simp
    note it = preflightItems_spends[of cs doc, OF cs(2) spends_fresh[OF s1(1) n]]
    from spends_then[OF s1(1) n it finite.emptyI finite_set] True show ?thesis
      unfolding u p pf by simp
  next
    case False
    then have c': "charge 1 e = (False, e1)" using c by simp
    from node_stop[OF f c' finite_set[of "concat (map (\<lambda>c. pointersOf c doc) cs)"]] False
    show ?thesis unfolding u p pf by simp
  qed
qed

lemma costs_quantifier:
  assumes op: "jget m ''op'' = JString op" "op = ''exists'' \<or> op = ''every''"
    and w: "\<And>x. costs (jget m ''where'') x"
  shows "costs (JObject m) doc"
  unfolding costs_def
proof (intro allI impI)
  fix e assume f: "fresh e"
  let ?p = "stringOrEmpty (jget m ''path'')" and ?w = "jget m ''where''"
  let ?xs = "elementsAt m doc"
  let ?U = "sum_list (map (unitsOf ?w) ?xs)" and ?Q = "set (concat (map (pointersOf ?w) ?xs))"
  have u: "unitsOf (JObject m) doc = 1 + stepsOf ?p + ?U"
    and p: "set (pointersOf (JObject m) doc) = {?p} \<union> ?Q"
    using op by auto
  obtain ok e1 where c1: "charge 1 e = (ok, e1)" by (meson surj_pair)
  obtain ok2 e2 where c2: "chargePointer ?p e1 = (ok2, e2)" by (meson surj_pair)
  obtain r e3 where sa: "selectArray m doc e2 = (r, e3)" by (meson surj_pair)
  have pf: "preflight (JObject m) doc e =
      (if \<not> ok then e1 else if \<not> ok2 then e2 else preflightElements m (elementsOf r) e3)"
    using op c1 c2 sa fresh_not_exceeded[OF f] by auto
  show "spends e (preflight (JObject m) doc e) (unitsOf (JObject m) doc) (set (pointersOf (JObject m) doc))"
  proof (cases ok)
    case False
    then have c': "charge 1 e = (False, e1)" using c1 by simp
    from node_stop[OF f c', of "{?p} \<union> ?Q" "stepsOf ?p + ?U"] False show ?thesis
      unfolding u p pf by (simp add: add.assoc)
  next
    case True
    then have c': "charge 1 e = (True, e1)" using c1 by simp
    note np = node_pointer_spends[OF f c' c2]
    show ?thesis
    proof (cases ok2)
      case False
      with pointer_stop[OF np(1), of "{?p} \<union> ?Q" ?U] np(2) True show ?thesis
        unfolding u p pf by simp
    next
      case True2: True
      then have n: "\<not> exceeded e2" and f2: "fresh e2" and k: "?p \<in> dom (pointers e2)"
        using np by auto
      obtain g where g: "e3 = e2\<lparr>collectionFailure := g\<rparr>" and el: "elementsOf r = ?xs"
        using selectArray_known[of e2 m doc] f2 k sa by (auto simp: fresh_def)
      have f3: "fresh e3" using f2 by (simp add: g fresh_failure)
      have "spends e2 (preflightElements m ?xs e3) ?U ?Q"
        using preflightElements_spends[of ?xs m, OF w f3] by (simp add: g spends_failure_left)
      from spends_then[OF np(1) n this] True True2 show ?thesis
        unfolding u p pf by (simp add: el)
    qed
  qed
qed

lemma costs_object:
  assumes IH: "\<And>n x. size n < size (JObject m) \<Longrightarrow> costs n x" and op: "jget m ''op'' = JString op"
  shows "costs (JObject m) doc"
proof -
  consider "op = ''not''" | "op = ''all'' \<or> op = ''any''" | "op = ''fact''" | "op = ''evidence-present''"
    | "op = ''exists'' \<or> op = ''every''" | "op = ''uniform''"
    | "\<not> (op = ''not'' \<or> op = ''all'' \<or> op = ''any'' \<or> op = ''fact'' \<or> op = ''evidence-present''
         \<or> op = ''exists'' \<or> op = ''every'' \<or> op = ''uniform'')" by argo
  then show ?thesis
  proof cases
    case 1
    with costs_not IH[OF size_jget_lt] op show ?thesis by simp
  next
    case 2
    show ?thesis
    proof (cases "jget m ''conditions''")
      case (JArray cs)
      from costs_items[OF op 2 JArray] IH size_condition_item[OF JArray] show ?thesis by blast
    qed (rule costs_leaf[of _ _ 1]; use op 2 in \<open>auto simp: Let_def split_beta split: json.splits\<close>)+
  next
    case 3
    then have "preflight (JObject m) doc e = preflightFact m doc e" if "fresh e" for e
      using op fresh_not_exceeded[OF that] by simp
    with 3 op preflightFact_spends show ?thesis by (simp add: costs_def)
  next
    case 4
    with op show ?thesis by (intro costs_leaf[of _ _ "1 + length (stringOrEmpty (jget m ''evidenceRequirement''))"]) auto
  next
    case 5
    with costs_quantifier[OF op] IH[OF size_jget_lt] show ?thesis by blast
  next
    case 6
    then have "preflight (JObject m) doc e = preflightUniform m doc e" if "fresh e" for e
      using op fresh_not_exceeded[OF that] by simp
    moreover have "set (pointersOf (JObject m) doc) = {stringOrEmpty (jget m ''path'')} \<union>
        memberScans (stringOrEmpty (jget m ''at'')) (elementsAt m doc)"
      using 6 op by (simp add: memberScans_def)
    moreover have "unitsOf (JObject m) doc = uniformUnits m doc" using 6 op by simp
    ultimately show ?thesis using preflightUniform_spends unfolding costs_def by presburger
  next
    case 7
    with op show ?thesis by (intro costs_leaf[of _ _ 1]) auto
  qed
qed

lemma preflight_costs: "costs node doc"
proof (induction "size node" arbitrary: node doc rule: less_induct)
  case less
  show ?case
  proof (cases node)
    case (JObject m)
    show ?thesis
    proof (cases "asString (jget m ''op'')")
      case None
      then show ?thesis unfolding JObject by (intro costs_leaf[of _ _ 1]) auto
    next
      case (Some op)
      with less.hyps show ?thesis unfolding JObject by (intro costs_object[of m op]) auto
    qed
  qed (auto intro!: costs_leaf[of _ _ 1])
qed

end
