(* ===== verification/Evaluation_Laws.thy ===== *)
theory Evaluation_Laws
  imports Cost
begin

section \<open>Properties of the evaluator\<close>

text \<open>
  What a stage of an evaluation may rely on: the verdict and its causes are those of the reference
  semantics, the charge is the documented sum and does not depend on order, and evaluating a
  charged condition scans no pointer that was not charged.
\<close>

subsection \<open>An evaluator at the start of an evaluation\<close>

text \<open>The composite literal of \<open>EvaluateAdmitted\<close>.\<close>

definition newEvaluator :: "(string \<Rightarrow> tri option) \<Rightarrow> bool \<Rightarrow> bool \<Rightarrow> nat \<Rightarrow> evaluator" where
  "newEvaluator presence q values limit =
     \<lparr>evidence = presence, quantifiers = q, outcomeValues = values, budget = limit, charged = 0,
      exceeded = False, pointers = Map.empty, causes = [], mismatches = [],
      collectionFailure = None, unmetEvidence = []\<rparr>"

lemma newEvaluator_fresh [simp]: "fresh (newEvaluator ev q v b)" "coherent (newEvaluator ev q v b)"
  by (simp_all add: fresh_def em.within_limit_def coherent_def newEvaluator_def)

lemma newEvaluator_fields [simp]:
  "evidence (newEvaluator ev q v b) = ev" "quantifiers (newEvaluator ev q v b) = q"
  "outcomeValues (newEvaluator ev q v b) = v" "budget (newEvaluator ev q v b) = b"
  "charged (newEvaluator ev q v b) = 0" "exceeded (newEvaluator ev q v b) = False"
  "pointers (newEvaluator ev q v b) = Map.empty" "causes (newEvaluator ev q v b) = []"
  "unmetEvidence (newEvaluator ev q v b) = []"
  by (simp_all add: newEvaluator_def)

subsection \<open>Which pointers a condition scans\<close>

definition scansWithin :: "evaluator \<Rightarrow> evaluator \<Rightarrow> string set \<Rightarrow> bool" where
  "scansWithin e e' ps \<longleftrightarrow> dom (pointers e') \<subseteq> dom (pointers e) \<union> ps"

lemma scansWithin_refl: "scansWithin e e ps"
  by (auto simp: scansWithin_def)

lemma scansWithin_then: "scansWithin e e1 ps \<Longrightarrow> scansWithin e1 e2 qs \<Longrightarrow> scansWithin e e2 (ps \<union> qs)"
  unfolding scansWithin_def by blast

lemma scansWithin_mono: "scansWithin e e' ps \<Longrightarrow> ps \<subseteq> qs \<Longrightarrow> scansWithin e e' qs"
  by (auto simp: scansWithin_def)

lemma pointers_update [simp]:
  "pointers (snd (unknownWith c e)) = pointers e" "pointers (noteUnknown c e) = pointers e"
  "pointers (noteTypeMismatch p o1 v ops e) = pointers e"
  "pointers (snd (keepCausesIf n r)) = pointers (snd r)"
  by (simp_all add: unknownWith_def noteUnknown_def noteTypeMismatch_def keepCausesIf_def Let_def split_beta)

lemma resolve_scans: "scansWithin e (snd (resolve doc p e)) {p}"
  by (auto simp: scansWithin_def resolve_def compiled_def Let_def split: option.splits)

lemma evalFact_scans: "scansWithin e (snd (evalFact m doc e)) {stringOrEmpty (jget m ''path'')}"
proof (cases "asString (jget m ''path'')")
  case (Some path)
  obtain r e1 where r: "resolve doc path e = (r, e1)" by (meson surj_pair)
  have "pointers (snd (evalFact m doc e)) = pointers e1"
    using Some r by (auto simp: evalFact_def Let_def split: option.splits json.splits)
  with resolve_scans[of e doc path] Some r show ?thesis by (simp add: scansWithin_def)
qed (auto simp: evalFact_def scansWithin_def)

lemma withinCollection_pointers:
  "pointers (snd (withinCollection m run e)) = pointers (snd (run (e\<lparr>collectionFailure := None\<rparr>)))"
  by (simp add: withinCollection_def Let_def split_beta split: option.splits)

lemma selectArray_scans: "scansWithin e (snd (selectArray m doc e)) {stringOrEmpty (jget m ''path'')}"
proof (cases "asString (jget m ''path'')")
  case (Some path)
  obtain r e1 where r: "resolve doc path e = (r, e1)" by (meson surj_pair)
  have "pointers (snd (selectArray m doc e)) = pointers e1"
    using Some r by (auto simp: selectArray_def split: option.splits json.splits)
  with resolve_scans[of e doc path] Some r show ?thesis by (simp add: scansWithin_def)
qed (auto simp: selectArray_def scansWithin_def)

lemma uniformMembers_scans:
  "scansWithin e (snd (uniformMembers p ms rep missing e)) (memberScans p ms)"
proof (induction p ms rep missing e rule: uniformMembers.induct)
  case (1 p rep missing e)
  then show ?case by (simp add: scansWithin_def)
next
  case (2 p x ms rep missing e)
  obtain r e1 where r: "resolve x p e = (r, e1)" by (meson surj_pair)
  have s: "scansWithin e e1 {p}" using resolve_scans[of e x p] r by simp
  have sub: "{p} \<union> memberScans p ms = memberScans p (x # ms)" by simp
  note go = scansWithin_then[OF s, of _ "memberScans p ms", unfolded sub]
  show ?case
  proof (cases r)
    case None
    with 2(1)[of r e1] go r show ?thesis by simp
  next
    case (Some v)
    then show ?thesis
      using 2(2)[of r e1 v] 2(3)[of r e1 v] go s r
      by (auto simp: Let_def split: option.splits)
  qed
qed

lemma uniform_scans:
  assumes "coherent e" "collectionFailure e = None"
  shows "scansWithin e (snd (uniform m doc e))
     ({stringOrEmpty (jget m ''path'')} \<union> memberScans (stringOrEmpty (jget m ''at'')) (elementsAt m doc))"
proof (cases "asString (jget m ''at'')")
  case (Some p)
  then have at: "stringOrEmpty (jget m ''at'') = p" by simp
  obtain r e1 where r: "selectArray m doc e = (r, e1)" by (meson surj_pair)
  have s: "scansWithin e e1 {stringOrEmpty (jget m ''path'')}" using selectArray_scans[of e m doc] r by simp
  show ?thesis
  proof (cases r)
    case None
    with Some r s show ?thesis by (auto simp: uniform_def scansWithin_def)
  next
    case v: (Some ms)
    have "elementsAt m doc = ms"
      using selectArray_result(4)[OF assms, of m doc] r v by (auto simp: elementsAt_def split: sum.splits)
    with Some r s v scansWithin_then[OF s uniformMembers_scans[of e1 p ms None False]]
    show ?thesis by (auto simp: uniform_def at scansWithin_def)
  qed
qed (auto simp: uniform_def scansWithin_def)

definition scansCharged :: "json \<Rightarrow> json \<Rightarrow> bool" where
  "scansCharged node doc \<longleftrightarrow>
     (\<forall>e. coherent e \<longrightarrow> scansWithin e (snd (condition node doc e)) (set (pointersOf node doc)))"

lemma scansCharged_items:
  assumes "\<And>n. n \<in> set items \<Longrightarrow> scansCharged n doc \<and> agrees n doc" "coherent e"
  shows "scansWithin e (snd (allItems items doc saw e)) (set (concat (map (\<lambda>c. pointersOf c doc) items)))
       \<and> scansWithin e (snd (anyItems items doc saw e)) (set (concat (map (\<lambda>c. pointersOf c doc) items)))"
  using assms
proof (induction items arbitrary: saw e)
  case (Cons c items)
  obtain v e1 where r: "condition c doc e = (v, e1)" by (meson surj_pair)
  have s: "scansWithin e e1 (set (pointersOf c doc))"
    using Cons.prems r by (fastforce simp: scansCharged_def)
  have c1: "coherent e1" using agrees_cases(3)[OF _ Cons.prems(2) r] Cons.prems(1) by simp
  note IH = Cons.IH[OF Cons.prems(1)[OF list.set_intros(2)] c1]
  note go = scansWithin_then[OF s conjunct1[OF IH]] scansWithin_then[OF s conjunct2[OF IH]]
  note stop = scansWithin_mono[OF s, of "set (concat (map (\<lambda>c. pointersOf c doc) (c # items)))"]
  show ?case using r stop go by (cases v) auto
qed (simp add: scansWithin_refl)

lemma scansCharged_elements:
  assumes "\<And>x. x \<in> set xs \<Longrightarrow> scansCharged (jget m ''where'') x \<and> agrees (jget m ''where'') x" "coherent e"
  shows "scansWithin e (snd (quantifyItems m xs saw e)) (set (concat (map (pointersOf (jget m ''where'')) xs)))"
  using assms
proof (induction xs arbitrary: saw e)
  case (Cons x xs)
  let ?w = "jget m ''where''"
  obtain v e1 where r: "condition ?w x e = (v, e1)" by (meson surj_pair)
  have s: "scansWithin e e1 (set (pointersOf ?w x))"
    using Cons.prems r by (fastforce simp: scansCharged_def)
  have c1: "coherent e1" using agrees_cases(3)[OF _ Cons.prems(2) r] Cons.prems(1) by simp
  note IH = Cons.IH[OF Cons.prems(1)[OF list.set_intros(2)] c1]
  note go = scansWithin_then[OF s IH]
  note stop = scansWithin_mono[OF s, of "set (concat (map (pointersOf ?w) (x # xs)))"]
  show ?case using r stop go by auto
qed (simp add: scansWithin_refl)

lemma condition_scans:
  "jsonWf doc \<Longrightarrow> scansCharged node doc"
proof (induction "size node" arbitrary: node doc rule: less_induct)
  case less
  show ?case
  proof (cases node)
    case (JObject m)
    have sub: "scansCharged n x \<and> agrees n x" if "size n < size (JObject m)" "jsonWf x" for n x
      using less.hyps JObject that condition_agrees by blast
    show ?thesis
    proof (cases "asString (jget m ''op'')")
      case None
      then show ?thesis using JObject by (simp add: scansCharged_def scansWithin_refl scansWithin_def)
    next
      case (Some op)
      then have op: "jget m ''op'' = JString op" by simp
      show ?thesis unfolding JObject scansCharged_def
      proof (intro allI impI)
        fix e assume c: "coherent e"
        let ?e0 = "e\<lparr>collectionFailure := None\<rparr>"
        have c0: "coherent ?e0" "collectionFailure ?e0 = None" using c by simp_all
        consider "op = ''all'' \<or> op = ''any''" | "op = ''not''" | "op = ''fact''"
          | "(op = ''exists'' \<or> op = ''every'') \<and> quantifiers e" | "op = ''uniform'' \<and> quantifiers e"
          | "\<not> (op = ''all'' \<or> op = ''any'' \<or> op = ''not'' \<or> op = ''fact'' \<or>
               (op = ''exists'' \<or> op = ''every'') \<and> quantifiers e \<or> op = ''uniform'' \<and> quantifiers e)"
          by argo
        then show "scansWithin e (snd (condition (JObject m) doc e)) (set (pointersOf (JObject m) doc))"
        proof cases
          case 1
          show ?thesis
          proof (cases "jget m ''conditions''")
            case (JArray cs)
            have "scansCharged n doc \<and> agrees n doc" if "n \<in> set cs" for n
              using sub size_condition_item[OF JArray that] less.prems by blast
            from scansCharged_items[OF this c, of cs False] 1 op JArray show ?thesis
              by (auto simp: scansWithin_def)
          qed (use 1 op in \<open>auto simp: scansWithin_def\<close>)
        next
          case 2
          have "scansCharged (jget m ''condition'') doc" using sub[OF size_jget_lt less.prems] by blast
          then have "scansWithin e (snd (condition (jget m ''condition'') doc e))
              (set (pointersOf (jget m ''condition'') doc))" using c by (simp add: scansCharged_def)
          with 2 op show ?thesis by (auto simp: split_beta split: tri.splits prod.splits)
        next
          case 3
          with op evalFact_scans[of e m doc] show ?thesis by simp
        next
          case 4
          obtain r e1 where r: "selectArray m doc ?e0 = (r, e1)" by (meson surj_pair)
          have s: "scansWithin e e1 {stringOrEmpty (jget m ''path'')}"
            using selectArray_scans[of ?e0 m doc] r by (simp add: scansWithin_def)
          have c1: "coherent e1" using selectArray_result(1)[OF c0, of m doc] r by (simp add: keeps_def)
          have e: "pointers (snd (condition (JObject m) doc e)) =
              pointers (case r of None \<Rightarrow> e1 | Some xs \<Rightarrow> snd (quantifyItems m xs False e1))"
            using condition_quantify[OF op] 4 r by (simp add: withinCollection_pointers quantifyRun_def split: option.splits)
          have p: "set (pointersOf (JObject m) doc) = {stringOrEmpty (jget m ''path'')} \<union>
              set (concat (map (pointersOf (jget m ''where'')) (elementsAt m doc)))" using op 4 by auto
          show ?thesis
          proof (cases r)
            case None
            with s e p show ?thesis by (auto simp: scansWithin_def)
          next
            case v: (Some xs)
            have x: "collectionOf m doc = Inr xs"
              using selectArray_result(4)[OF c0, of m doc] r v by (auto split: sum.splits)
            have "scansCharged (jget m ''where'') x \<and> agrees (jget m ''where'') x" if "x \<in> set xs" for x
              using sub[OF size_jget_lt] collectionOf_wf[OF x less.prems that] by blast
            from scansWithin_then[OF s scansCharged_elements[OF this c1, of xs False]] e v x show ?thesis
              unfolding p by (simp add: elementsAt_def scansWithin_def)
          qed
        next
          case 5
          have "scansWithin e (snd (condition (JObject m) doc e))
             ({stringOrEmpty (jget m ''path'')} \<union> memberScans (stringOrEmpty (jget m ''at'')) (elementsAt m doc))"
            using uniform_scans[OF c0, of m doc] 5 op by (simp add: scansWithin_def withinCollection_pointers)
          then show ?thesis using 5 op by (auto simp: memberScans_def split: if_splits)
        next
          case 6
          then have "pointers (snd (condition (JObject m) doc e)) = pointers e"
            using op by (auto simp: evidencePresent_def split: json.splits option.splits)
          then show ?thesis by (auto simp: scansWithin_def)
        qed
      qed
    qed
  qed (simp_all add: scansCharged_def scansWithin_def)
qed

subsection \<open>Order\<close>

lemma elementsAt_Inr [simp]: "collectionOf m doc = Inr xs \<Longrightarrow> elementsAt m doc = xs"
  by (simp add: elementsAt_def)

lemma sum_list_mset: "mset xs = mset ys \<Longrightarrow> sum_list (map f xs) = (sum_list (map f ys) :: nat)"
  by (metis mset_map sum_mset_sum_list)

lemma foldr_max_mset:
  fixes us vs :: "nat list"
  assumes "mset us = mset vs" shows "foldr max us 0 = foldr max vs 0"
proof -
  have m: "foldr max us 0 = Max (insert 0 (set us))" for us :: "nat list"
    by (induction us) (simp_all add: insert_commute max.left_commute)
  show ?thesis unfolding m using mset_eq_setD[OF assms] by simp
qed

lemma memberValues_mset: "mset xs = mset ys \<Longrightarrow> mset (memberValues p xs) = mset (memberValues p ys)"
  by (simp add: memberValues_def map_filter_def)

lemma unitsOf_permute:
  assumes op: "jget m ''op'' = JString op" "op = ''exists'' \<or> op = ''every'' \<or> op = ''uniform''"
    and x: "collectionOf m doc = Inr xs" "collectionOf m doc' = Inr ys" "mset xs = mset ys"
  shows "unitsOf (JObject m) doc = unitsOf (JObject m) doc'"
    "set (pointersOf (JObject m) doc) = set (pointersOf (JObject m) doc')"
proof -
  note mv = memberValues_mset[OF x(3), of "stringOrEmpty (jget m ''at'')"]
  have "length xs = length ys" using x(3) by (metis size_mset)
  moreover have "rereadUnits (memberValues (stringOrEmpty (jget m ''at'')) xs) =
      rereadUnits (memberValues (stringOrEmpty (jget m ''at'')) ys)"
    unfolding rereadUnits_def using foldr_max_mset[OF mv] mv by (metis size_mset)
  moreover have "sum_list (memberValues (stringOrEmpty (jget m ''at'')) xs) =
      sum_list (memberValues (stringOrEmpty (jget m ''at'')) ys)" using sum_list_mset[OF mv, of id] by simp
  moreover have e: "xs = [] \<longleftrightarrow> ys = []" using calculation(1) by auto
  ultimately have u: "uniformUnits m doc = uniformUnits m doc'"
    using x(1,2) by (simp add: uniformUnits_def Let_def)
  have w: "sum_list (map (unitsOf (jget m ''where'')) xs) = sum_list (map (unitsOf (jget m ''where'')) ys)"
    by (rule sum_list_mset[OF x(3)])
  consider "op = ''exists'' \<or> op = ''every''" | "op = ''uniform''" using op(2) by argo
  then show "unitsOf (JObject m) doc = unitsOf (JObject m) doc'"
  proof cases
    case 1
    with op(1) x(1,2) w show ?thesis by auto
  next
    case 2
    with op(1) u show ?thesis by simp
  qed
  consider "op = ''exists'' \<or> op = ''every''" | "op = ''uniform''" using op(2) by argo
  then show "set (pointersOf (JObject m) doc) = set (pointersOf (JObject m) doc')"
  proof cases
    case 1
    have "set (concat (map (pointersOf (jget m ''where'')) xs)) = set (concat (map (pointersOf (jget m ''where'')) ys))"
      using mset_eq_setD[OF x(3)] by simp
    with 1 op(1) x(1,2) show ?thesis by auto
  next
    case 2
    with op(1) x(1,2) e show ?thesis by auto
  qed
qed

lemma uniformVerdict_set: "set xs = set ys \<Longrightarrow> uniformVerdict p xs = uniformVerdict p ys"
  unfolding uniformVerdict_def Let_def set_values resolvedAt_def by presburger

lemma meaning_permute:
  assumes op: "jget m ''op'' = JString op" "op = ''exists'' \<or> op = ''every'' \<or> op = ''uniform''"
    and x: "collectionOf m doc = Inr xs" "collectionOf m doc' = Inr ys" "set xs = set ys"
  shows "meaning q ev (JObject m) doc = meaning q ev (JObject m) doc'"
proof -
  have s: "set (map (meaning q ev (jget m ''where'')) xs) = set (map (meaning q ev (jget m ''where'')) ys)"
    using x(3) by simp
  consider "op = ''exists''" | "op = ''every''" | "op = ''uniform''" using op(2) by argo
  then show ?thesis
  proof cases
    case 1
    with op(1) x(1,2) kleeneAny_set[OF s] show ?thesis by (cases q) simp_all
  next
    case 2
    with op(1) x(1,2) kleeneAll_set[OF s] show ?thesis by (cases q) simp_all
  next
    case 3
    with op(1) x(1,2) uniformVerdict_set[OF x(3)] show ?thesis by (simp add: uniformResult_def split: option.splits)
  qed
qed

subsection \<open>Stages\<close>

lemma keyOfCause_inject: "keyOfCause c = keyOfCause d \<longleftrightarrow> c = d"
  by (cases c; cases d) (auto simp: keyOfCause_def textOf_def split: option.splits)

lemma keepFirst_spec:
  "inj key \<Longrightarrow> distinct (keepFirst key seen xs) \<and> set (keepFirst key seen xs) = {x \<in> set xs. key x \<notin> set seen}"
proof (induction xs arbitrary: seen)
  case (Cons x xs)
  then show ?case using Cons.IH[of "key x # seen"] Cons.IH[of seen] by (auto dest: injD)
qed simp

text \<open>A condition whose \<open>all\<close> and \<open>any\<close> nodes hold arrays, as the schema requires.\<close>

function (sequential) shaped :: "json \<Rightarrow> bool" where
  "shaped (JObject m) =
     (case asString (jget m ''op'') of
        None \<Rightarrow> True
      | Some op \<Rightarrow>
        if op = ''all'' \<or> op = ''any'' then
          (case jget m ''conditions'' of JArray cs \<Rightarrow> (\<forall>c \<in> set cs. shaped c) | _ \<Rightarrow> False)
        else if op = ''not'' then shaped (jget m ''condition'')
        else if op = ''exists'' \<or> op = ''every'' then shaped (jget m ''where'')
        else True)"
| "shaped node = True"
  by pat_completeness auto
termination
  by (relation "measure size")
     (simp_all only: in_measure wf_measure size_condition_item size_jget_lt)

lemma kleene_unknown:
  assumes "kleeneAll (map f xs) = triUnknown \<or> kleeneAny (map f xs) = triUnknown"
  shows "\<exists>x \<in> set xs. f x = triUnknown"
proof -
  have "triUnknown \<in> set (map f xs)"
    using assms by (auto simp only: kleeneAll_cases kleeneAny_cases tri.distinct split: if_splits)
  then obtain x where "x \<in> set xs" "triUnknown = f x" by auto
  then show ?thesis by metis
qed

lemma negTri_unknown [simp]: "negTri t = triUnknown \<longleftrightarrow> t = triUnknown"
  by (cases t) simp_all

lemma unknown_explained:
  "shaped node \<Longrightarrow> meaning q ev node doc = triUnknown \<Longrightarrow> causesOf q ev node doc \<noteq> []"
proof (induction "size node" arbitrary: node doc rule: less_induct)
  case less
  show ?case
  proof (cases node)
    case (JObject m)
    have IH: "shaped n \<Longrightarrow> meaning q ev n x = triUnknown \<Longrightarrow> causesOf q ev n x \<noteq> []"
      if "size n < size (JObject m)" for n x using less.hyps JObject that by blast
    have sh: "shaped (JObject m)" and un: "meaning q ev (JObject m) doc = triUnknown"
      using less.prems JObject by simp_all
    show ?thesis
    proof (cases "asString (jget m ''op'')")
      case (Some op)
      then have op: "jget m ''op'' = JString op" by simp
      consider "op = ''literal''" | "op = ''all'' \<or> op = ''any''" | "op = ''not''" | "op = ''fact''"
        | "op = ''evidence-present''" | "(op = ''exists'' \<or> op = ''every'') \<and> q" | "op = ''uniform'' \<and> q"
        | "\<not> (op = ''literal'' \<or> op = ''all'' \<or> op = ''any'' \<or> op = ''not'' \<or> op = ''fact'' \<or>
             op = ''evidence-present'' \<or> (op = ''exists'' \<or> op = ''every'') \<and> q \<or> op = ''uniform'' \<and> q)"
        by argo
      then have "causesOf q ev (JObject m) doc \<noteq> []"
      proof cases
        case 1
        with un op show ?thesis
          by (auto simp: literalResult_def unsupported_def triFromBool_def split: json.splits if_splits)
      next
        case 2
        then obtain cs where cs: "jget m ''conditions'' = JArray cs" "\<forall>c \<in> set cs. shaped c"
          using sh op by (auto split: json.splits)
        have "kleeneAll (map (\<lambda>c. meaning q ev c doc) cs) = triUnknown \<or>
            kleeneAny (map (\<lambda>c. meaning q ev c doc) cs) = triUnknown"
          using un op 2 cs(1) by auto
        then obtain c where c: "c \<in> set cs" "meaning q ev c doc = triUnknown" using kleene_unknown by blast
        then have "causesOf q ev c doc \<noteq> []" using IH size_condition_item[OF cs(1)] cs(2) by blast
        with un op 2 cs(1) c(1) show ?thesis by auto
      next
        case 3
        then have "shaped (jget m ''condition'')" "meaning q ev (jget m ''condition'') doc = triUnknown"
          using un op sh by simp_all
        then have "causesOf q ev (jget m ''condition'') doc \<noteq> []" by (rule IH[OF size_jget_lt])
        with un op 3 show ?thesis by simp
      next
        case 4
        with un op show ?thesis
          by (auto simp: factResult_def unsupported_def triFromBool_def Let_def split: option.splits if_splits)
      next
        case 5
        with un op show ?thesis
          by (auto simp: evidenceResult_def unsupported_def split: option.splits if_splits)
      next
        case 6
        show ?thesis
        proof (cases "collectionOf m doc")
          case (Inr xs)
          have "kleeneAll (map (meaning q ev (jget m ''where'')) xs) = triUnknown \<or>
              kleeneAny (map (meaning q ev (jget m ''where'')) xs) = triUnknown"
            using un op 6 Inr by auto
          then obtain x where x: "x \<in> set xs" "meaning q ev (jget m ''where'') x = triUnknown"
            using kleene_unknown by blast
          have "shaped (jget m ''where'')" using sh op 6 by auto
          from IH[OF size_jget_lt this x(2)] have cx: "causesOf q ev (jget m ''where'') x \<noteq> []" .
          have "causesOf q ev (JObject m) doc = map (labelCause (stringOrEmpty (jget m ''path'')))
              (concat (map (causesOf q ev (jget m ''where'')) xs))"
            using un op 6 Inr by auto
          with cx x(1) show ?thesis by auto
        qed (use un op 6 in auto)
      next
        case 7
        with un op show ?thesis
          by (auto simp: uniformResult_def unsupported_def split: option.splits sum.splits if_splits)
      next
        case 8
        with un op show ?thesis by auto
      qed
      then show ?thesis unfolding JObject .
    qed (use JObject in simp)
  qed simp_all
qed

lemma condition_outcome:
  assumes "coherent e" "jsonWf doc"
  shows "outcome (meaning (quantifiers e) (evidence e) node doc)
           (causesOf (quantifiers e) (evidence e) node doc) e (condition node doc e)"
  using condition_agrees[OF assms(2)] assms(1) by (simp add: agrees_def)

lemma preflight_spends:
  "fresh e \<Longrightarrow> spends e (preflight node doc e) (unitsOf node doc) (set (pointersOf node doc))"
  using preflight_costs by (simp add: costs_def)

text \<open>A stage on a fresh evaluator.\<close>

lemma evaluate_cases:
  fixes node :: json
  assumes "fresh e" "jsonWf doc"
  defines "e1 \<equiv> preflight node doc e"
  shows "if exceeded e1 then evaluate node doc e = (triUnknown, e1)
         else outcome (meaning (quantifiers e) (evidence e) node doc)
                (causesOf (quantifiers e) (evidence e) node doc) e1 (evaluate node doc e)"
proof -
  have s: "spends e e1 (unitsOf node doc) (set (pointersOf node doc))"
    unfolding e1_def by (rule preflight_spends[OF assms(1)])
  then have "coherent e1" "quantifiers e1 = quantifiers e" "evidence e1 = evidence e" by (simp_all add: spends_def)
  with condition_outcome[OF _ assms(2), of e1 node] show ?thesis
    by (simp add: evaluate_def Let_def flip: e1_def)
qed

lemma evaluateStage_result:
  assumes "fresh e" "jsonWf doc" "evaluateStage node doc e = ((v, cs, ms), e')" "\<not> exceeded e'"
  shows "v = meaning (quantifiers e) (evidence e) node doc" "fresh e'" "evidence e' = evidence e"
    "quantifiers e' = quantifiers e" "outcomeValues e' = outcomeValues e" "budget e' = budget e"
    "unmetEvidence e' = unmetEvidence e"
    "charged e' = charged e + unitsOf node doc + scanUnits (dom (pointers e)) (set (pointersOf node doc))"
    "dom (pointers e') = dom (pointers e) \<union> set (pointersOf node doc)"
proof -
  let ?e = "e\<lparr>causes := [], mismatches := []\<rparr>"
  obtain w e1 where r: "evaluate node doc ?e = (w, e1)" by (meson surj_pair)
  have f: "fresh ?e" using assms(1) by (simp add: fresh_def em.within_limit_def)
  have s: "spends ?e (preflight node doc ?e) (unitsOf node doc) (set (pointersOf node doc))"
    by (rule preflight_spends[OF f])
  have v: "v = w" and e': "e' = e1\<lparr>causes := [], mismatches := []\<rparr>"
    using assms(3) r by (auto simp: evaluateStage_def Let_def)
  note c = evaluate_cases[OF f assms(2), of node, unfolded r]
  have n: "\<not> exceeded (preflight node doc ?e)" using c e' assms(4) by (auto split: if_splits)
  have o: "outcome (meaning (quantifiers e) (evidence e) node doc)
      (causesOf (quantifiers e) (evidence e) node doc) (preflight node doc ?e) (w, e1)"
    using c n by simp
  then show "v = meaning (quantifiers e) (evidence e) node doc" by (simp add: v outcome_def)
  have k: "keeps (preflight node doc ?e) e1" using o by (simp add: outcome_def)
  note fp = spends_fresh[OF s n]
  show "fresh e'" using k fp by (simp add: e' fresh_def em.within_limit_def keeps_def)
  have sp: "evidence (preflight node doc ?e) = evidence e \<and> quantifiers (preflight node doc ?e) = quantifiers e \<and>
      outcomeValues (preflight node doc ?e) = outcomeValues e \<and> budget (preflight node doc ?e) = budget e \<and>
      unmetEvidence (preflight node doc ?e) = unmetEvidence e \<and>
      charged (preflight node doc ?e) = charged e + unitsOf node doc + scanUnits (dom (pointers e)) (set (pointersOf node doc))
      \<and> dom (pointers (preflight node doc ?e)) = dom (pointers e) \<union> set (pointersOf node doc)"
    using s n by (simp add: spends_def em.accounts_def)
  then show "evidence e' = evidence e" "quantifiers e' = quantifiers e" "outcomeValues e' = outcomeValues e"
    "budget e' = budget e" "unmetEvidence e' = unmetEvidence e"
    "charged e' = charged e + unitsOf node doc + scanUnits (dom (pointers e)) (set (pointersOf node doc))"
    using k by (simp_all add: e' keeps_def)
  have "dom (pointers e1) = dom (pointers (preflight node doc ?e))"
  proof
    show "dom (pointers (preflight node doc ?e)) \<subseteq> dom (pointers e1)"
      using k by (simp add: keeps_def map_le_implies_dom_le)
    have "scansWithin (preflight node doc ?e) e1 (set (pointersOf node doc))"
      using condition_scans[OF assms(2), of node] fp r n
      by (simp add: scansCharged_def fresh_def evaluate_def Let_def split: prod.splits)
         (metis snd_conv)
    then show "dom (pointers e1) \<subseteq> dom (pointers (preflight node doc ?e))"
      using sp by (auto simp: scansWithin_def)
  qed
  with sp show "dom (pointers e') = dom (pointers e) \<union> set (pointersOf node doc)" by (simp add: e')
qed

lemma evaluateStage_exceeded:
  assumes "fresh e" "jsonWf doc" "evaluateStage node doc e = (res, e')"
  shows "exceeded e' \<longleftrightarrow>
    budget e < charged e + unitsOf node doc + scanUnits (dom (pointers e)) (set (pointersOf node doc))"
proof -
  let ?e = "e\<lparr>causes := [], mismatches := []\<rparr>"
  obtain w e1 where r: "evaluate node doc ?e = (w, e1)" by (meson surj_pair)
  have f: "fresh ?e" using assms(1) by (simp add: fresh_def em.within_limit_def)
  have s: "spends ?e (preflight node doc ?e) (unitsOf node doc) (set (pointersOf node doc))"
    by (rule preflight_spends[OF f])
  have e': "e' = e1\<lparr>causes := [], mismatches := []\<rparr>"
    using assms(3) r by (auto simp: evaluateStage_def Let_def)
  note c = evaluate_cases[OF f assms(2), of node, unfolded r]
  have "exceeded e1 = exceeded (preflight node doc ?e)"
    using c by (auto simp: outcome_def keeps_def split: if_splits)
  with s show ?thesis by (simp add: e' spends_def em.accounts_def add.assoc)
qed

subsection \<open>Properties\<close>

text \<open>C5: the evaluator implements three-valued logic. Whatever the short-circuits, the pointer
  cache and the truncation of causes do, the verdict of a condition is the one the reference
  semantics gives and the causes it leaves are exactly the leaves that verdict came from.\<close>

theorem condition_refines_meaning:
  assumes "coherent e" "jsonWf doc" "condition node doc e = (v, e')"
  shows "v = meaning (quantifiers e) (evidence e) node doc \<and>
    causes e' = causes e @ causesOf (quantifiers e) (evidence e) node doc \<and>
    evidence e' = evidence e \<and> charged e' = charged e \<and> exceeded e' = exceeded e"
  using condition_outcome[OF assms(1,2), of node] assms(3) by (simp add: outcome_def keeps_def)

definition sampleUniform :: json where
  "sampleUniform = JObject [(''op'', JString ''uniform''), (''path'', JString ''/a''), (''at'', JString [])]"

definition sampleFacts :: json where
  "sampleFacts = JObject [(''a'', JArray [JNumber ''10'', JNumber ''1e1'', JNumber ''10.0''])]"

theorem condition_refines_meaning_witness:
  "fst (condition sampleUniform sampleFacts (newEvaluator Map.empty True False 100)) = triTrue"
proof -
  obtain v e' where r: "condition sampleUniform sampleFacts (newEvaluator Map.empty True False 100) = (v, e')"
    by (meson surj_pair)
  have "jsonWf sampleFacts" by (simp add: sampleFacts_def)
  from condition_refines_meaning[OF newEvaluator_fresh(2) this r]
  have "v = meaning True Map.empty sampleUniform sampleFacts" by simp
  moreover have "meaning True Map.empty sampleUniform sampleFacts = triTrue" by code_simp
  ultimately show ?thesis using r by simp
qed

text \<open>C23: the preflight charges exactly the documented sum: the budget is exceeded if and only if the
  condition's units plus one scan of each distinct uncached pointer do not fit, and otherwise the
  charge grows by precisely that amount, whatever the tree's shape.\<close>

theorem preflight_exact:
  fixes node doc :: json
  assumes "coherent e" "\<not> exceeded e" "charged e \<le> budget e"
  shows "let due = unitsOf node doc + scanUnits (dom (pointers e)) (set (pointersOf node doc)) in
    (exceeded (preflight node doc e) \<longleftrightarrow> budget e < charged e + due) \<and>
    (exceeded (preflight node doc e) \<or> charged (preflight node doc e) = charged e + due)"
proof -
  have "fresh e" using assms(1-3) by (simp add: fresh_def em.within_limit_def)
  from preflight_spends[OF this, of node doc] show ?thesis
    by (auto simp: spends_def em.accounts_def Let_def)
qed

theorem preflight_exact_witness:
  "exceeded (preflight sampleUniform sampleFacts (newEvaluator Map.empty True False 31)) \<and>
   \<not> exceeded (preflight sampleUniform sampleFacts (newEvaluator Map.empty True False 32))"
proof -
  have u: "unitsOf sampleUniform sampleFacts = 28" by code_simp
  have p: "pointersOf sampleUniform sampleFacts = [''/a'', []]" by code_simp
  show ?thesis
    using preflight_exact[OF newEvaluator_fresh(2), of Map.empty True False 31 sampleUniform sampleFacts]
      preflight_exact[OF newEvaluator_fresh(2), of Map.empty True False 32 sampleUniform sampleFacts]
    by (simp add: u p scanUnits_def)
qed

text \<open>The charge of an aggregate is the same under any permutation of the elements of its
  collection: two documents whose collections hold the same elements in different orders are
  charged alike, and exceed the budget alike.\<close>

theorem preflight_permutation_invariant:
  assumes "coherent e" "\<not> exceeded e" "charged e \<le> budget e"
    and "jget m ''op'' \<in> {JString ''exists'', JString ''every'', JString ''uniform''}"
    and "collectionOf m doc = Inr xs" "collectionOf m doc' = Inr ys" "mset xs = mset ys"
  shows "exceeded (preflight (JObject m) doc e) = exceeded (preflight (JObject m) doc' e) \<and>
    (exceeded (preflight (JObject m) doc e) \<or>
     charged (preflight (JObject m) doc e) = charged (preflight (JObject m) doc' e))"
proof -
  have f: "fresh e" using assms(1-3) by (simp add: fresh_def em.within_limit_def)
  obtain op where "jget m ''op'' = JString op" "op = ''exists'' \<or> op = ''every'' \<or> op = ''uniform''"
    using assms(4) by auto
  note p = unitsOf_permute[OF this assms(5-7)]
  show ?thesis
    using preflight_spends[OF f, of "JObject m" doc] preflight_spends[OF f, of "JObject m" doc']
    unfolding p by (cases "exceeded (preflight (JObject m) doc e)") (simp_all add: spends_def em.accounts_def)
qed

definition sampleEvery :: object where
  "sampleEvery = [(''op'', JString ''every''), (''path'', JString []),
     (''where'', JObject [(''op'', JString ''fact''), (''path'', JString []),
       (''operator'', JString ''equals''), (''value'', JBool True)])]"

theorem preflight_permutation_invariant_witness:
  "exceeded (preflight (JObject sampleEvery) (JArray [JBool True, JString ''long'']) (newEvaluator Map.empty True False 20))
   = exceeded (preflight (JObject sampleEvery) (JArray [JString ''long'', JBool True]) (newEvaluator Map.empty True False 20))"
proof (rule preflight_permutation_invariant[THEN conjunct1])
  show "jget sampleEvery ''op'' \<in> {JString ''exists'', JString ''every'', JString ''uniform''}"
    by (simp add: sampleEvery_def)
  show "collectionOf sampleEvery (JArray [JBool True, JString ''long'']) = Inr [JBool True, JString ''long'']"
    by code_simp
  show "collectionOf sampleEvery (JArray [JString ''long'', JBool True]) = Inr [JString ''long'', JBool True]"
    by code_simp
qed (simp_all add: add_mset_commute)

text \<open>The verdict of an aggregate depends only on the set of elements its collection holds:
  neither their order nor duplicates change it.\<close>

theorem aggregate_verdict_set_invariant:
  assumes "coherent e" "jsonWf doc" "jsonWf doc'"
    and "jget m ''op'' \<in> {JString ''exists'', JString ''every'', JString ''uniform''}"
    and "collectionOf m doc = Inr xs" "collectionOf m doc' = Inr ys" "set xs = set ys"
  shows "fst (condition (JObject m) doc e) = fst (condition (JObject m) doc' e)"
proof -
  obtain op where "jget m ''op'' = JString op" "op = ''exists'' \<or> op = ''every'' \<or> op = ''uniform''"
    using assms(4) by auto
  from meaning_permute[OF this assms(5-7)] show ?thesis
    using condition_outcome[OF assms(1,2), of "JObject m"] condition_outcome[OF assms(1,3), of "JObject m"]
    by (simp only: outcome_def)
qed

theorem aggregate_verdict_set_invariant_witness:
  "fst (condition (JObject sampleEvery) (JArray [JBool True, JNull, JNull]) (newEvaluator Map.empty True False 20))
   = fst (condition (JObject sampleEvery) (JArray [JNull, JBool True]) (newEvaluator Map.empty True False 20))"
proof (rule aggregate_verdict_set_invariant)
  show "jget sampleEvery ''op'' \<in> {JString ''exists'', JString ''every'', JString ''uniform''}"
    by (simp add: sampleEvery_def)
  show "collectionOf sampleEvery (JArray [JBool True, JNull, JNull]) = Inr [JBool True, JNull, JNull]"
    by code_simp
  show "collectionOf sampleEvery (JArray [JNull, JBool True]) = Inr [JNull, JBool True]"
    by code_simp
qed auto

text \<open>Evaluating a condition whose preflight fitted the budget scans no pointer the preflight did
  not charge: the evaluation leaves the pointer cache and the charge as the preflight left them.\<close>

theorem evaluate_scans_only_charged:
  assumes "coherent e" "\<not> exceeded e" "charged e \<le> budget e" "jsonWf doc"
    and "\<not> exceeded (preflight node doc e)"
  shows "pointers (snd (evaluate node doc e)) = pointers (preflight node doc e) \<and>
    charged (snd (evaluate node doc e)) = charged (preflight node doc e)"
proof (rule conjI)
  have f: "fresh e" using assms(1-3) by (simp add: fresh_def em.within_limit_def)
  let ?e1 = "preflight node doc e"
  have s: "spends e ?e1 (unitsOf node doc) (set (pointersOf node doc))" by (rule preflight_spends[OF f])
  have ev: "evaluate node doc e = condition node doc ?e1" using assms(5) by (simp add: evaluate_def Let_def)
  have c: "coherent ?e1" and d: "set (pointersOf node doc) \<subseteq> dom (pointers ?e1)"
    using s assms(5) by (auto simp: spends_def)
  have "dom (pointers (snd (condition node doc ?e1))) \<subseteq> dom (pointers ?e1)"
    using condition_scans[OF assms(4), of node] c d by (fastforce simp: scansCharged_def scansWithin_def)
  moreover have k: "keeps ?e1 (snd (condition node doc ?e1))"
    using condition_outcome[OF c assms(4)] by (simp add: outcome_def)
  ultimately show "pointers (snd (evaluate node doc e)) = pointers ?e1"
    unfolding ev keeps_def by (metis map_le_antisym map_le_def subsetD)
  show "charged (snd (evaluate node doc e)) = charged ?e1" using k by (simp add: ev keeps_def)
qed

theorem evaluate_scans_only_charged_witness:
  "pointers (snd (evaluate sampleUniform sampleFacts (newEvaluator Map.empty True False 100)))
   = pointers (preflight sampleUniform sampleFacts (newEvaluator Map.empty True False 100))"
proof (rule evaluate_scans_only_charged[THEN conjunct1])
  have "exceeded (preflight sampleUniform sampleFacts (newEvaluator Map.empty True False 100)) = False"
    by code_simp
  then show "\<not> exceeded (preflight sampleUniform sampleFacts (newEvaluator Map.empty True False 100))" by simp
qed (simp_all add: sampleFacts_def)

text \<open>C27: what one stage records explains its verdict. Within the budget, the recorded causes are
  distinct and are exactly the leaves the unknown verdict came from; they are empty when the verdict
  is decided and, for a schema-shaped condition, never empty when it is unknown. A stage leaves the
  recording lists empty for the next one.\<close>

theorem evaluateStage_explains:
  assumes "coherent e" "\<not> exceeded e" "charged e \<le> budget e" "jsonWf doc"
    and "evaluateStage node doc e = ((v, cs, ms), e')"
  shows "(if exceeded e' then v = triUnknown \<and> cs = []
     else v = meaning (quantifiers e) (evidence e) node doc \<and> distinct cs \<and>
       set cs = set (causesOf (quantifiers e) (evidence e) node doc) \<and>
       (v \<noteq> triUnknown \<longrightarrow> cs = []) \<and> (v = triUnknown \<and> shaped node \<longrightarrow> cs \<noteq> [])) \<and>
    causes e' = [] \<and> mismatches e' = []"
proof -
  let ?e = "e\<lparr>causes := [], mismatches := []\<rparr>"
  let ?m = "meaning (quantifiers e) (evidence e) node doc" and ?c = "causesOf (quantifiers e) (evidence e) node doc"
  obtain w e1 where r: "evaluate node doc ?e = (w, e1)" by (meson surj_pair)
  have f: "fresh ?e" using assms(1-3) by (simp add: fresh_def em.within_limit_def)
  have s: "spends ?e (preflight node doc ?e) (unitsOf node doc) (set (pointersOf node doc))"
    by (rule preflight_spends[OF f])
  have v: "v = w" "cs = (if w = triUnknown \<and> \<not> exceeded e1 then keepFirst keyOfCause [] (causes e1) else [])"
    and e': "e' = e1\<lparr>causes := [], mismatches := []\<rparr>"
    using assms(5) r by (auto simp: evaluateStage_def Let_def)
  have inj: "inj keyOfCause" by (simp add: inj_def keyOfCause_inject)
  note c = evaluate_cases[OF f assms(4), of node, unfolded r]
  have un: "shaped node \<longrightarrow> ?m = triUnknown \<longrightarrow> ?c \<noteq> []" using unknown_explained by blast
  have decided: "\<not> exceeded e' \<longrightarrow> v = ?m \<and> distinct cs \<and> set cs = set ?c \<and> (v \<noteq> triUnknown \<longrightarrow> cs = []) \<and>
      (v = triUnknown \<and> shaped node \<longrightarrow> cs \<noteq> [])"
  proof
    assume n: "\<not> exceeded e'"
    then have "\<not> exceeded (preflight node doc ?e)" using c e' by (auto split: if_splits)
    with c have o: "outcome ?m ?c (preflight node doc ?e) (w, e1)" by simp
    moreover have "causes (preflight node doc ?e) = []" using s by (simp add: spends_def)
    ultimately have w: "w = ?m" "causes e1 = ?c" by (simp_all add: outcome_def)
    have k: "distinct (keepFirst keyOfCause [] ?c)" "set (keepFirst keyOfCause [] ?c) = set ?c"
      using keepFirst_spec[OF inj, of "[]" ?c] by auto
    have "keepFirst keyOfCause [] ?c \<noteq> []" if "?c \<noteq> []" using k(2) that by (metis set_empty)
    then show "v = ?m \<and> distinct cs \<and> set cs = set ?c \<and> (v \<noteq> triUnknown \<longrightarrow> cs = []) \<and>
      (v = triUnknown \<and> shaped node \<longrightarrow> cs \<noteq> [])"
      using v w n e' k un causesOf_decided[of "quantifiers e" "evidence e" node doc] by auto
  qed
  have "exceeded e' \<longrightarrow> v = triUnknown \<and> cs = []"
  proof
    assume x: "exceeded e'"
    have "exceeded (preflight node doc ?e)"
      using c x e' by (auto simp: outcome_def keeps_def split: if_splits)
    with c v x e' show "v = triUnknown \<and> cs = []" by simp
  qed
  with decided show ?thesis by (simp add: e')
qed

theorem evaluateStage_explains_witness:
  "fst (snd (fst (evaluateStage (JObject sampleEvery) (JString ''x'') (newEvaluator Map.empty True False 50)))) \<noteq> []"
proof -
  obtain v cs ms e' where r: "evaluateStage (JObject sampleEvery) (JString ''x'') (newEvaluator Map.empty True False 50)
      = ((v, cs, ms), e')" by (metis prod.exhaust)
  have "exceeded (snd (evaluateStage (JObject sampleEvery) (JString ''x'') (newEvaluator Map.empty True False 50))) = False"
    by code_simp
  then have n: "\<not> exceeded e'" using r by simp
  have m: "meaning True Map.empty (JObject sampleEvery) (JString ''x'') = triUnknown" by code_simp
  have sh: "shaped (JObject sampleEvery)" by (simp add: sampleEvery_def)
  from evaluateStage_explains[OF newEvaluator_fresh(2) _ _ _ r] n m sh r show ?thesis by simp
qed

end
