(* ===== verification/Section8.thy ===== *)
theory Section8
  imports Resolve Evaluation_Laws
begin

section \<open>Section 8 as a pure function\<close>

text \<open>
  What JPS Core section 8 decides, from the verdicts of the authored conditions alone: the sets of
  suppressed rules, forced outcomes, candidates and reasons, with no order, charge or trace. The
  resolution walk is shown to implement it.
\<close>

subsection \<open>The specification\<close>

type_synonym verdicts = "json \<Rightarrow> tri"

definition whenOf :: "object \<Rightarrow> json" where
  "whenOf x = jget x ''when''"

definition stringAt :: "object \<Rightarrow> string \<Rightarrow> string list" where
  "stringAt x k = (case jget x k of JString s \<Rightarrow> [s] | _ \<Rightarrow> [])"

definition objects :: "json list \<Rightarrow> object list" where
  "objects entries = List.map_filter asObject entries"

definition escalatesUnknown :: "verdicts \<Rightarrow> object \<Rightarrow> bool" where
  "escalatesUnknown V x \<longleftrightarrow> V (whenOf x) = triUnknown \<and> stringOrEmpty (jget x ''onUnknown'') = ''escalate''"

definition hasEffect :: "verdicts \<Rightarrow> string \<Rightarrow> object \<Rightarrow> bool" where
  "hasEffect V effect x \<longleftrightarrow> V (whenOf x) = triTrue \<and> stringOrEmpty (jget x ''effect'') = effect"

definition suppressedBy :: "verdicts \<Rightarrow> object list \<Rightarrow> string set" where
  "suppressedBy V xs = \<Union> ((\<lambda>x. if hasEffect V ''suppress-rule'' x then set (stringAt x ''targetRule'') else {}) ` set xs)"

definition forcedBy :: "verdicts \<Rightarrow> object list \<Rightarrow> string set" where
  "forcedBy V xs = \<Union> ((\<lambda>x. if hasEffect V ''force-outcome'' x then set (stringAt x ''outcome'') else {}) ` set xs)"

definition exceptionReasons :: "verdicts \<Rightarrow> object list \<Rightarrow> string set" where
  "exceptionReasons V xs =
     (if \<exists>x \<in> set xs. escalatesUnknown V x then {ReasonUnknown} else {}) \<union>
     (if \<exists>x \<in> set xs. hasEffect V ''escalate'' x then {ReasonExceptionEscalation} else {})"

definition activeRules :: "string set \<Rightarrow> object list \<Rightarrow> object list" where
  "activeRules S rules = filter (\<lambda>x. stringOrEmpty (jget x ''id'') \<notin> S) rules"

definition candidatesOf :: "verdicts \<Rightarrow> object list \<Rightarrow> string set" where
  "candidatesOf V rules = \<Union> ((\<lambda>x. if V (whenOf x) = triTrue then set (stringAt x ''outcome'') else {}) ` set rules)"

definition ruleReasons :: "verdicts \<Rightarrow> object list \<Rightarrow> string set" where
  "ruleReasons V rules = (if \<exists>x \<in> set rules. escalatesUnknown V x then {ReasonUnknown} else {})"

text \<open>Two different outcomes are a conflict.\<close>

definition conflictOf :: "string set \<Rightarrow> string set" where
  "conflictOf S = (if \<exists>a \<in> S. \<exists>b \<in> S. a \<noteq> b then {ReasonConflict} else {})"

definition requiredPresence :: "(string \<Rightarrow> tri option) \<Rightarrow> object list \<Rightarrow> tri set" where
  "requiredPresence ev reqs =
     (\<lambda>x. case ev (stringOrEmpty (jget x ''id'')) of None \<Rightarrow> triFalse | Some p \<Rightarrow> p)
     ` {x \<in> set reqs. boolOrFalse (jget x ''required'')}"

definition evidenceReasons :: "(string \<Rightarrow> tri option) \<Rightarrow> object list \<Rightarrow> string set" where
  "evidenceReasons ev reqs =
     (if triFalse \<in> requiredPresence ev reqs then {ReasonMissingEvidence}
      else if triUnknown \<in> requiredPresence ev reqs then {ReasonUnknown} else {})"

datatype decision = Produced string | NotApplicable | Unresolved "string set"

definition membersOf :: "object \<Rightarrow> string \<Rightarrow> object list" where
  "membersOf pack k = objects (asArray (jget pack k))"

text \<open>Steps 6 to 10, given the suppressed rules.\<close>

definition decideRules :: "verdicts \<Rightarrow> object \<Rightarrow> string set \<Rightarrow> decision" where
  "decideRules V pack S =
     (let rules = activeRules S (membersOf pack ''rules''); C = candidatesOf V rules;
          reasons = ruleReasons V rules \<union> conflictOf C
      in if reasons \<noteq> {} then Unresolved reasons
         else if C \<noteq> {} then Produced (the_elem C)
         else case jget pack ''fallbackOutcome'' of
                JString fallback \<Rightarrow> Produced fallback
              | _ \<Rightarrow> Unresolved {ReasonNoMatch})"

definition section8 :: "(string \<Rightarrow> tri option) \<Rightarrow> verdicts \<Rightarrow> object \<Rightarrow> decision" where
  "section8 ev V pack =
     (case (case map_of pack ''applicability'' of None \<Rightarrow> triTrue | Some node \<Rightarrow> V node) of
        triFalse \<Rightarrow> NotApplicable
      | triUnknown \<Rightarrow> Unresolved {ReasonUnknown}
      | triTrue \<Rightarrow>
        (let xs = membersOf pack ''exceptions''; F = forcedBy V xs;
             blocked = evidenceReasons ev (membersOf pack ''evidenceRequirements'')
                       \<union> exceptionReasons V xs \<union> conflictOf F
         in if blocked \<noteq> {} then Unresolved blocked
            else if F \<noteq> {} then Produced (the_elem F)
            else decideRules V pack (suppressedBy V xs)))"

text \<open>The decision a disposition states.\<close>

definition decisionOf :: "Disposition \<Rightarrow> decision" where
  "decisionOf d = (if dKind d = ''outcome'' then Produced (dOutcomeID d)
                   else if dKind d = ''not-applicable'' then NotApplicable else Unresolved (set (dReasons d)))"

subsection \<open>Contributors\<close>

definition forcingContributors :: "verdicts \<Rightarrow> string \<Rightarrow> object list \<Rightarrow> Contributor list" where
  "forcingContributors V o1 xs =
     map (\<lambda>x. \<lparr>coKind = ''forcing-exception'', coID = stringOrEmpty (jget x ''id'')\<rparr>)
       (filter (\<lambda>x. hasEffect V ''force-outcome'' x \<and> stringOrEmpty (jget x ''outcome'') = o1) xs)"

definition ruleContributors :: "verdicts \<Rightarrow> string \<Rightarrow> object list \<Rightarrow> Contributor list" where
  "ruleContributors V o1 rules =
     map (\<lambda>x. \<lparr>coKind = ''rule'', coID = stringOrEmpty (jget x ''id'')\<rparr>)
       (filter (\<lambda>x. V (whenOf x) = triTrue \<and> stringOrEmpty (jget x ''outcome'') = o1) rules)"

text \<open>What contributes to a produced outcome: the true exceptions that force it, or else the true
  rules that are not suppressed and name it.\<close>

definition contributions :: "verdicts \<Rightarrow> object \<Rightarrow> string \<Rightarrow> Contributor list" where
  "contributions V pack o1 =
     (let xs = membersOf pack ''exceptions'' in
      forcingContributors V o1 xs @
      (if forcedBy V xs = {}
       then ruleContributors V o1 (activeRules (suppressedBy V xs) (membersOf pack ''rules'')) else []))"

lemma contributorsOf_append: "contributorsOf o1 (xs @ ys) = contributorsOf o1 xs @ contributorsOf o1 ys"
  by (induction xs) auto

subsection \<open>The walk keeps its invariant\<close>

lemma objects_simps [simp]:
  "objects [] = []" "objects (JObject m # xs) = m # objects xs" "objects (JNull # xs) = objects xs"
  "objects (JBool b # xs) = objects xs" "objects (JString s # xs) = objects xs"
  "objects (JNumber t # xs) = objects xs" "objects (JArray ys # xs) = objects xs"
  by (simp_all add: objects_def map_filter_def)

text \<open>What every step keeps while the budget holds.\<close>

definition live :: "object \<Rightarrow> json \<Rightarrow> (string \<Rightarrow> tri option) \<Rightarrow> bool \<Rightarrow> bool \<Rightarrow> resolver \<Rightarrow> bool" where
  "live pack facts ev q ov r \<longleftrightarrow>
     fresh (rEval r) \<and> evidence (rEval r) = ev \<and> quantifiers (rEval r) = q \<and> outcomeValues (rEval r) = ov \<and>
     rPack r = pack \<and> rFacts r = facts \<and> jsonWf facts \<and> distinct (rReasons r) \<and>
     set (rReasons r) \<subseteq> set dispositionReasons \<and>
     (rDirect r \<longleftrightarrow> ReasonExceptionEscalation \<in> set (rReasons r))"

lemma live_addTrace [simp]: "live p f ev q ov (addTrace t r) = live p f ev q ov r"
  by (simp add: live_def addTrace_def)

lemma reasons_admitted [simp]:
  "ReasonUnknown \<in> set dispositionReasons" "ReasonConflict \<in> set dispositionReasons"
  "ReasonNoMatch \<in> set dispositionReasons" "ReasonMissingEvidence \<in> set dispositionReasons"
  "ReasonNotApplicable \<in> set dispositionReasons" "ReasonExceptionEscalation \<in> set dispositionReasons"
  by (simp_all add: dispositionReasons_def reason_defs)

lemma live_addReason [simp]:
  "live p f ev q ov r \<Longrightarrow> reason \<noteq> ReasonExceptionEscalation \<Longrightarrow> reason \<in> set dispositionReasons \<Longrightarrow>
   live p f ev q ov (addReason reason r)"
  by (auto simp: live_def addReason_def)

lemma live_escalation [simp]:
  "live p f ev q ov r \<Longrightarrow> live p f ev q ov (addReason ReasonExceptionEscalation (r\<lparr>rDirect := True\<rparr>))"
  by (auto simp: live_def addReason_def)

lemma reasons_distinct [simp]:
  "ReasonUnknown \<noteq> ReasonExceptionEscalation" "ReasonConflict \<noteq> ReasonExceptionEscalation"
  "ReasonNoMatch \<noteq> ReasonExceptionEscalation" "ReasonMissingEvidence \<noteq> ReasonExceptionEscalation"
  "ReasonNotApplicable \<noteq> ReasonExceptionEscalation"
  by (simp_all add: reason_defs)

lemma addTrace_fields [simp]:
  "rReasons (addTrace t r) = rReasons r" "rEval (addTrace t r) = rEval r" "rPack (addTrace t r) = rPack r"
  "rTrace (addTrace t r) = rTrace r @ [t]" "rDirect (addTrace t r) = rDirect r" "rFacts (addTrace t r) = rFacts r"
  by (simp_all add: addTrace_def)

lemma addReason_fields [simp]:
  "set (rReasons (addReason c r)) = insert c (set (rReasons r))" "rEval (addReason c r) = rEval r"
  "rPack (addReason c r) = rPack r" "rTrace (addReason c r) = rTrace r" "rDirect (addReason c r) = rDirect r"
  "rFacts (addReason c r) = rFacts r"
  by (simp_all add: addReason_def)

definition verdictOf :: "bool \<Rightarrow> (string \<Rightarrow> tri option) \<Rightarrow> json \<Rightarrow> verdicts" where
  "verdictOf q ev facts node = meaning q ev node facts"

lemma runStage_live:
  assumes "live pack facts ev q ov r" "runStage node r = ((v, cs, ms), r1)" "\<not> exceeded (rEval r1)"
  shows "v = verdictOf q ev facts node" "live pack facts ev q ov r1" "rReasons r1 = rReasons r"
    "rTrace r1 = rTrace r"
proof -
  obtain e1 where e: "evaluateStage node facts (rEval r) = ((v, cs, ms), e1)" and r1: "r1 = r\<lparr>rEval := e1\<rparr>"
    using assms(1,2) by (auto simp: runStage_def live_def split: prod.splits)
  have n: "\<not> exceeded e1" and f: "fresh (rEval r)" and w: "jsonWf facts"
    using assms(1,3) r1 by (simp_all add: live_def)
  note s = evaluateStage_result[OF f w e n]
  show "v = verdictOf q ev facts node" using s(1) assms(1) by (simp add: verdictOf_def live_def)
  show "live pack facts ev q ov r1" using s(2-5) assms(1) by (simp add: live_def r1)
  show "rReasons r1 = rReasons r" "rTrace r1 = rTrace r" by (simp_all add: r1)
qed

lemma runStage_frame: "runStage node r = (v, r1) \<Longrightarrow> rReasons r1 = rReasons r \<and> rTrace r1 = rTrace r"
  by (auto simp: runStage_def split: prod.splits)

lemma live_not_exceeded: "live p f ev q ov r \<Longrightarrow> \<not> exceeded (rEval r)"
  by (auto simp: live_def dest: fresh_not_exceeded)

subsection \<open>Evidence\<close>

lemma requirementsLoop_flags:
  "fst (requirementsLoop reqs flags e) =
     (fst flags \<or> triFalse \<in> requiredPresence (evidence e) (objects reqs),
      snd flags \<or> triUnknown \<in> requiredPresence (evidence e) (objects reqs))
   \<and> (\<exists>u. snd (requirementsLoop reqs flags e) = e\<lparr>unmetEvidence := u\<rparr>)"
proof (induction reqs arbitrary: flags e)
  case Nil
  have "\<exists>u. e = e\<lparr>unmetEvidence := u\<rparr>" by (rule exI[of _ "unmetEvidence e"]) simp
  then show ?case by (simp add: requiredPresence_def)
next
  case (Cons entry rest)
  obtain a b where fl: "flags = (a, b)" by (cases flags)
  show ?case
  proof (cases entry)
    case (JObject x)
    let ?id = "stringOrEmpty (jget x ''id'')"
    have ins: "requiredPresence ev (x # objects rest) =
      (if boolOrFalse (jget x ''required'')
       then insert (case ev ?id of None \<Rightarrow> triFalse | Some p \<Rightarrow> p) (requiredPresence ev (objects rest))
       else requiredPresence ev (objects rest))" for ev
      by (auto simp: requiredPresence_def)
    show ?thesis
    proof (cases "boolOrFalse (jget x ''required'')")
      case False
      with Cons.IH[of "(a, b)" e] JObject ins fl show ?thesis by simp
    next
      case True
      let ?u = "\<lambda>st. e\<lparr>unmetEvidence := unmetEvidence e @ [\<lparr>ueRequirement = ?id, ueState = st\<rparr>]\<rparr>"
      note IH = Cons.IH[of "(True, b)" "?u ''absent''"] Cons.IH[of "(a, True)" "?u ''unknown''"]
        Cons.IH[of "(a, b)" e]
      show ?thesis
        using True JObject ins fl IH
        by (cases "presenceOf e ?id") (auto simp: Let_def presenceOf_def[symmetric])
    qed
  qed (use Cons.IH[of "(a, b)" e] fl in simp_all)
qed

lemma requirements_live:
  assumes "live pack facts ev q ov r" "rReasons r = []"
  shows "live pack facts ev q ov (requirements r)"
    "set (rReasons (requirements r)) = evidenceReasons ev (membersOf pack ''evidenceRequirements'')"
    "rTrace (requirements r) = rTrace r"
proof -
  let ?reqs = "asArray (jget pack ''evidenceRequirements'')"
  obtain a b e1 where l: "requirementsLoop ?reqs (False, False) (rEval r) = ((a, b), e1)"
    by (metis surj_pair)
  note f = requirementsLoop_flags[of ?reqs "(False, False)" "rEval r", unfolded l]
  obtain u where u: "e1 = (rEval r)\<lparr>unmetEvidence := u\<rparr>" using f by auto
  have lv: "live pack facts ev q ov (r\<lparr>rEval := e1\<rparr>)"
    using assms(1) by (simp add: live_def u fresh_def em.within_limit_def coherent_def)
  have p: "rPack r = pack" "evidence (rEval r) = ev" using assms(1) by (simp_all add: live_def)
  have q: "requirements r = (if a then addReason ReasonMissingEvidence (r\<lparr>rEval := e1\<rparr>)
      else if b then addReason ReasonUnknown (r\<lparr>rEval := e1\<rparr>) else r\<lparr>rEval := e1\<rparr>)"
    by (simp add: requirements_def p l Let_def)
  show "live pack facts ev q ov (requirements r)" using lv by (simp add: q)
  show "set (rReasons (requirements r)) = evidenceReasons ev (membersOf pack ''evidenceRequirements'')"
    using f p assms(2) by (auto simp: q evidenceReasons_def membersOf_def)
  show "rTrace (requirements r) = rTrace r" by (simp add: q)
qed

subsection \<open>Exceptions\<close>

lemma set_stringAt: "set (stringAt x k) = {s. jget x k = JString s}"
  by (auto simp: stringAt_def split: json.splits)

lemma triString_true [simp]: "triString t = ''true'' \<longleftrightarrow> t = triTrue"
  by (cases t) (simp_all add: triString_def)

lemma stageEntry_fields [simp]:
  "teStage (stageEntry st i v cs ms) = st" "teID (stageEntry st i v cs ms) = i"
  "teCondition (stageEntry st i v cs ms) = triString v" "teOutcome (stageEntry st i v cs ms) = []"
  "teSuppressed (stageEntry st i v cs ms) = False" "teSkipped (stageEntry st i v cs ms) = False"
  "teEffect (stageEntry st i v cs ms) = []"
  by (simp_all add: stageEntry_def traceEntry_def)

text \<open>The effect of one exception on the sets, the reasons and what is attributed to it.\<close>

lemma exceptionEffect_live:
  assumes "live pack facts ev q ov r" "V (whenOf x) = v"
    and "exceptionEffect x v (stageEntry ''exception'' (stringOrEmpty (jget x ''id'')) v cs ms) r S F = (r2, S2, F2)"
  shows "live pack facts ev q ov r2"
    "set S2 = set S \<union> suppressedBy V [x]" "set F2 = set F \<union> forcedBy V [x]"
    "distinct F \<Longrightarrow> distinct F2"
    "set (rReasons r2) = set (rReasons r) \<union> exceptionReasons V [x]"
    "contributorsOf o1 (rTrace r2) = contributorsOf o1 (rTrace r) @ forcingContributors V o1 [x]"
proof -
  let ?P = "live pack facts ev q ov r2 \<and> set S2 = set S \<union> suppressedBy V [x] \<and>
    set F2 = set F \<union> forcedBy V [x] \<and> (distinct F \<longrightarrow> distinct F2) \<and>
    set (rReasons r2) = set (rReasons r) \<union> exceptionReasons V [x] \<and>
    contributorsOf o1 (rTrace r2) = contributorsOf o1 (rTrace r) @ forcingContributors V o1 [x]"
  note defs = exceptionEffect_def suppressedBy_def forcedBy_def exceptionReasons_def hasEffect_def
      escalatesUnknown_def forcingContributors_def contributorsOf_append triString_def set_stringAt
  have ?P
  proof (cases v)
    case triFalse
    with assms show ?thesis by (auto simp: defs)
  next
    case triUnknown
    with assms show ?thesis by (auto simp: defs Let_def split: if_splits)
  next
    case triTrue
    define eff where "eff = stringOrEmpty (jget x ''effect'')"
    consider "eff = ''suppress-rule''" | "eff = ''force-outcome''" | "eff = ''escalate''"
      | "eff \<noteq> ''suppress-rule''" "eff \<noteq> ''force-outcome''" "eff \<noteq> ''escalate''" by blast
    then show ?thesis
    proof cases
      case 1
      with assms triTrue show ?thesis
        by (cases "jget x ''targetRule''") (auto simp: defs eff_def[symmetric])
    next
      case 2
      with assms triTrue show ?thesis
        by (cases "jget x ''outcome''") (auto simp: defs eff_def[symmetric])
    next
      case 3
      with assms triTrue show ?thesis by (auto simp: defs eff_def[symmetric])
    next
      case 4
      with assms triTrue show ?thesis by (auto simp: defs eff_def[symmetric])
    qed
  qed
  then show "live pack facts ev q ov r2" "set S2 = set S \<union> suppressedBy V [x]"
    "set F2 = set F \<union> forcedBy V [x]" "distinct F \<Longrightarrow> distinct F2"
    "set (rReasons r2) = set (rReasons r) \<union> exceptionReasons V [x]"
    "contributorsOf o1 (rTrace r2) = contributorsOf o1 (rTrace r) @ forcingContributors V o1 [x]"
    by blast+
qed

lemma exception_sets_Cons:
  "suppressedBy V (x # xs) = suppressedBy V [x] \<union> suppressedBy V xs"
  "forcedBy V (x # xs) = forcedBy V [x] \<union> forcedBy V xs"
  "exceptionReasons V (x # xs) = exceptionReasons V [x] \<union> exceptionReasons V xs"
  "forcingContributors V o1 (x # xs) = forcingContributors V o1 [x] @ forcingContributors V o1 xs"
  by (auto simp: suppressedBy_def forcedBy_def exceptionReasons_def forcingContributors_def)

lemma exception_sets_Nil [simp]:
  "suppressedBy V [] = {}" "forcedBy V [] = {}" "exceptionReasons V [] = {}" "forcingContributors V o1 [] = []"
  by (auto simp: suppressedBy_def forcedBy_def exceptionReasons_def forcingContributors_def)

lemma exceptionsLoop_live:
  assumes "live pack facts ev q ov r" "exceptionsLoop entries r S F = (res, r2)"
  defines "V \<equiv> verdictOf q ev facts" and "xs \<equiv> objects entries"
  shows "(case res of
      None \<Rightarrow> exceeded (rEval r2)
    | Some (S2, F2) \<Rightarrow> live pack facts ev q ov r2 \<and> set S2 = set S \<union> suppressedBy V xs \<and>
        set F2 = set F \<union> forcedBy V xs \<and> (distinct F \<longrightarrow> distinct F2) \<and>
        set (rReasons r2) = set (rReasons r) \<union> exceptionReasons V xs \<and>
        (\<forall>o1. contributorsOf o1 (rTrace r2) = contributorsOf o1 (rTrace r) @ forcingContributors V o1 xs))"
  using assms(1,2) unfolding V_def xs_def
proof (induction entries arbitrary: r S F)
  case Nil
  then show ?case by auto
next
  case (Cons entry rest)
  show ?case
  proof (cases entry)
    case (JObject x)
    obtain v cs ms r1 where s: "runStage (whenOf x) r = ((v, cs, ms), r1)" by (metis prod.exhaust)
    obtain r3 S3 F3 where e: "exceptionEffect x v
        (stageEntry ''exception'' (stringOrEmpty (jget x ''id'')) v cs ms) r1 S F = (r3, S3, F3)"
      by (metis prod.exhaust)
    show ?thesis
    proof (cases "exceeded (rEval r1)")
      case True
      with Cons.prems(2) JObject s have "res = None" "r2 = r1" by (simp_all add: whenOf_def)
      with True show ?thesis by simp
    next
      case False
      note l = runStage_live[OF Cons.prems(1) s False]
      note f = exceptionEffect_live[where V = "verdictOf q ev facts", OF l(2) l(1)[symmetric] e]
      have n: "exceptionsLoop rest r3 S3 F3 = (res, r2)"
        using Cons.prems(2) JObject s e False by (simp add: whenOf_def)
      have "case res of None \<Rightarrow> exceeded (rEval r2)
        | Some (S2, F2) \<Rightarrow> live pack facts ev q ov r2 \<and>
            set S2 = set S3 \<union> suppressedBy (verdictOf q ev facts) (objects rest) \<and>
            set F2 = set F3 \<union> forcedBy (verdictOf q ev facts) (objects rest) \<and> (distinct F3 \<longrightarrow> distinct F2) \<and>
            set (rReasons r2) = set (rReasons r3) \<union> exceptionReasons (verdictOf q ev facts) (objects rest) \<and>
            (\<forall>o1. contributorsOf o1 (rTrace r2) = contributorsOf o1 (rTrace r3) @
                  forcingContributors (verdictOf q ev facts) o1 (objects rest))"
        by (rule Cons.IH[OF f(1) n])
      then show ?thesis
        using f(2-6) l(3,4) JObject exception_sets_Cons[where V = "verdictOf q ev facts" and x = x and xs = "objects rest"]
        by (auto split: option.splits)
    qed
  qed (use Cons.IH[OF Cons.prems(1)] Cons.prems(2) in \<open>auto split: option.splits\<close>)
qed

subsection \<open>Rules\<close>

lemma ruleEffect_live:
  assumes "live pack facts ev q ov r" "V (whenOf x) = v"
    and "ruleEffect x v (stageEntry ''rule'' (stringOrEmpty (jget x ''id'')) v cs ms) r C = (r2, C2)"
  shows "live pack facts ev q ov r2" "set C2 = set C \<union> candidatesOf V [x]" "distinct C \<Longrightarrow> distinct C2"
    "set (rReasons r2) = set (rReasons r) \<union> ruleReasons V [x]"
    "contributorsOf o1 (rTrace r2) = contributorsOf o1 (rTrace r) @ ruleContributors V o1 [x]"
proof -
  note defs = ruleEffect_def candidatesOf_def ruleReasons_def escalatesUnknown_def
      ruleContributors_def contributorsOf_append triString_def set_stringAt
  have "live pack facts ev q ov r2 \<and> set C2 = set C \<union> candidatesOf V [x] \<and> (distinct C \<longrightarrow> distinct C2) \<and>
    set (rReasons r2) = set (rReasons r) \<union> ruleReasons V [x] \<and>
    contributorsOf o1 (rTrace r2) = contributorsOf o1 (rTrace r) @ ruleContributors V o1 [x]"
  proof (cases v)
    case triFalse
    with assms show ?thesis by (auto simp: defs)
  next
    case triUnknown
    with assms show ?thesis by (auto simp: defs Let_def split: if_splits)
  next
    case triTrue
    with assms show ?thesis by (cases "jget x ''outcome''") (auto simp: defs)
  qed
  then show "live pack facts ev q ov r2" "set C2 = set C \<union> candidatesOf V [x]" "distinct C \<Longrightarrow> distinct C2"
    "set (rReasons r2) = set (rReasons r) \<union> ruleReasons V [x]"
    "contributorsOf o1 (rTrace r2) = contributorsOf o1 (rTrace r) @ ruleContributors V o1 [x]"
    by blast+
qed

lemma rule_sets_Cons:
  "candidatesOf V (x # xs) = candidatesOf V [x] \<union> candidatesOf V xs"
  "ruleReasons V (x # xs) = ruleReasons V [x] \<union> ruleReasons V xs"
  "ruleContributors V o1 (x # xs) = ruleContributors V o1 [x] @ ruleContributors V o1 xs"
  by (auto simp: candidatesOf_def ruleReasons_def ruleContributors_def)

lemma rule_sets_Nil [simp]:
  "candidatesOf V [] = {}" "ruleReasons V [] = {}" "ruleContributors V o1 [] = []"
  by (auto simp: candidatesOf_def ruleReasons_def ruleContributors_def)

lemma activeRules_simps [simp]:
  "activeRules S [] = []"
  "activeRules S (x # xs) = (if stringOrEmpty (jget x ''id'') \<in> S then activeRules S xs else x # activeRules S xs)"
  by (simp_all add: activeRules_def)

lemma rulesLoop_live:
  assumes "live pack facts ev q ov r" "rulesLoop entries S r C = (res, r2)"
  defines "V \<equiv> verdictOf q ev facts" and "xs \<equiv> activeRules (set S) (objects entries)"
  shows "(case res of
      None \<Rightarrow> exceeded (rEval r2)
    | Some C2 \<Rightarrow> live pack facts ev q ov r2 \<and> set C2 = set C \<union> candidatesOf V xs \<and>
        (distinct C \<longrightarrow> distinct C2) \<and> set (rReasons r2) = set (rReasons r) \<union> ruleReasons V xs \<and>
        (\<forall>o1. contributorsOf o1 (rTrace r2) = contributorsOf o1 (rTrace r) @ ruleContributors V o1 xs))"
  using assms(1,2) unfolding V_def xs_def
proof (induction entries arbitrary: r C)
  case Nil
  then show ?case by auto
next
  case (Cons entry rest)
  let ?V = "verdictOf q ev facts" and ?ys = "activeRules (set S) (objects rest)"
  show ?case
  proof (cases entry)
    case (JObject x)
    let ?id = "stringOrEmpty (jget x ''id'')"
    show ?thesis
    proof (cases "?id \<in> set S")
      case True
      let ?r = "addTrace ((traceEntry ''rule'' ?id ''not-evaluated'')\<lparr>teSuppressed := True\<rparr>) r"
      have l: "live pack facts ev q ov ?r" using Cons.prems(1) by simp
      have n: "rulesLoop rest S ?r C = (res, r2)" using Cons.prems(2) JObject True by (simp add: Let_def)
      have t: "contributorsOf o1 (rTrace ?r) = contributorsOf o1 (rTrace r)" for o1
        by (simp add: contributorsOf_append traceEntry_def)
      from Cons.IH[OF l n] show ?thesis using JObject True t by (simp split: option.splits)
    next
      case False
      obtain v cs ms r1 where s: "runStage (whenOf x) r = ((v, cs, ms), r1)" by (metis prod.exhaust)
      obtain r3 C3 where e: "ruleEffect x v (stageEntry ''rule'' ?id v cs ms) r1 C = (r3, C3)"
        by (metis prod.exhaust)
      show ?thesis
      proof (cases "exceeded (rEval r1)")
        case True
        with Cons.prems(2) JObject False s have "res = None" "r2 = r1" by (simp_all add: whenOf_def Let_def)
        with True show ?thesis by simp
      next
        case n1: False
        note l = runStage_live[OF Cons.prems(1) s n1]
        note f = ruleEffect_live[where V = ?V, OF l(2) l(1)[symmetric] e]
        have n: "rulesLoop rest S r3 C3 = (res, r2)"
          using Cons.prems(2) JObject False s e n1 by (simp add: whenOf_def Let_def)
        from Cons.IH[OF f(1) n] show ?thesis
          using f(2-5) l(3,4) JObject False rule_sets_Cons[where V = ?V and x = x and xs = ?ys] by (auto split: option.splits)
      qed
    qed
  qed (use Cons.IH[OF Cons.prems(1)] Cons.prems(2) in \<open>auto split: option.splits\<close>)
qed

lemma skipRules_fields:
  "rReasons (skipRules rules r) = rReasons r" "rEval (skipRules rules r) = rEval r"
  "rPack (skipRules rules r) = rPack r" "rDirect (skipRules rules r) = rDirect r"
  "rFacts (skipRules rules r) = rFacts r"
  "contributorsOf o1 (rTrace (skipRules rules r)) = contributorsOf o1 (rTrace r)"
proof -
  have "rReasons (skipRules rules r) = rReasons r \<and> rEval (skipRules rules r) = rEval r \<and>
    rPack (skipRules rules r) = rPack r \<and> rDirect (skipRules rules r) = rDirect r \<and>
    rFacts (skipRules rules r) = rFacts r \<and>
    contributorsOf o1 (rTrace (skipRules rules r)) = contributorsOf o1 (rTrace r)"
    unfolding skipRules_def
  proof (induction rules arbitrary: r)
    case (Cons entry rest)
    then show ?case
      by (cases entry) (simp_all add: Cons.IH contributorsOf_append traceEntry_def)
  qed simp
  then show "rReasons (skipRules rules r) = rReasons r" "rEval (skipRules rules r) = rEval r"
    "rPack (skipRules rules r) = rPack r" "rDirect (skipRules rules r) = rDirect r"
    "rFacts (skipRules rules r) = rFacts r"
    "contributorsOf o1 (rTrace (skipRules rules r)) = contributorsOf o1 (rTrace r)" by blast+
qed

subsection \<open>The decision\<close>

lemma conflictOf_length:
  assumes "distinct xs" shows "conflictOf (set xs) = (if length xs > 1 then {ReasonConflict} else {})"
proof (cases xs)
  case (Cons a ys)
  with assms show ?thesis by (cases ys) (auto simp: conflictOf_def)
qed (simp add: conflictOf_def)

lemma the_elem_hd: "length xs = 1 \<Longrightarrow> the_elem (set xs) = hd xs"
  by (cases xs) auto

text \<open>What a completed resolution says: the disposition of its final state, the decision it
  states, and the contributors its trace attributes to a produced outcome.\<close>

definition states :: "decision \<Rightarrow> string \<Rightarrow> string \<Rightarrow> string list \<Rightarrow> bool" where
  "states dec kind i reasons \<longleftrightarrow>
     (case dec of
        Produced o1 \<Rightarrow> kind = ''outcome'' \<and> i = o1
      | NotApplicable \<Rightarrow> kind = ''not-applicable'' \<and> i = [] \<and> set reasons = {ReasonNotApplicable}
      | Unresolved S \<Rightarrow> kind = ''unresolved'' \<and> i = [] \<and> set reasons = S \<and> S \<noteq> {})"

definition settled :: "object \<Rightarrow> resolver \<Rightarrow> bool" where
  "settled pack r \<longleftrightarrow> rPack r = pack \<and> distinct (rReasons r) \<and> set (rReasons r) \<subseteq> set dispositionReasons \<and>
     (rDirect r \<longleftrightarrow> ReasonExceptionEscalation \<in> set (rReasons r))"

definition decides :: "object \<Rightarrow> (string \<Rightarrow> Contributor list) \<Rightarrow> resolution \<Rightarrow> decision \<Rightarrow> bool" where
  "decides pack K res dec \<longleftrightarrow>
     (case fst res of
        Inl f \<Rightarrow> exceeded (rEval (snd res)) \<and> f = workLimitFailure (rEval (snd res))
      | Inr dt \<Rightarrow> \<not> exceeded (rEval (snd res)) \<and> settled pack (snd res) \<and>
          (\<exists>kind i. dt = dispositionOf (snd res) kind i \<and> states dec kind i (rReasons (snd res))) \<and>
          (\<forall>o1. dec = Produced o1 \<longrightarrow> contributorsOf o1 (rTrace (snd res)) = K o1))"

lemma live_settled: "live pack facts ev q ov r \<Longrightarrow> settled pack r"
  by (simp add: live_def settled_def)

lemma decides_failed: "exceeded (rEval r) \<Longrightarrow> decides pack K (failed r) dec"
  by (simp add: decides_def failed_def)

lemma decides_dispose:
  "live pack facts ev q ov r \<Longrightarrow> states dec kind i (rReasons r) \<Longrightarrow>
   (\<And>o1. dec = Produced o1 \<Longrightarrow> contributorsOf o1 (rTrace r) = K o1) \<Longrightarrow>
   decides pack K (dispose r kind i) dec"
  using live_not_exceeded[of pack facts ev q ov r] live_settled[of pack facts ev q ov r]
  by (auto simp: decides_def dispose_def)

lemma decides_unresolved:
  "live pack facts ev q ov r \<Longrightarrow> set (rReasons r) = S \<Longrightarrow> S \<noteq> {} \<Longrightarrow>
   decides pack K (unresolved r) (Unresolved S)"
  unfolding unresolved_def by (rule decides_dispose) (auto simp: states_def)

lemma decides_produce:
  "live pack facts ev q False r \<Longrightarrow> contributorsOf o1 (rTrace r) = K o1 \<Longrightarrow>
   decides pack K (produce r o1) (Produced o1)"
  using decides_dispose[of pack facts ev q False r "Produced o1" "''outcome''" o1 K]
  by (auto simp: produce_def live_def states_def)

lemma decideCandidates_decides:
  assumes "live pack facts ev q False r" "distinct C" "set (rReasons r) = R"
    "\<And>o1. contributorsOf o1 (rTrace r) = K o1"
  shows "decides pack K (decideCandidates C r)
     (if R \<union> conflictOf (set C) \<noteq> {} then Unresolved (R \<union> conflictOf (set C))
      else if set C \<noteq> {} then Produced (the_elem (set C))
      else case jget pack ''fallbackOutcome'' of
                JString fallback \<Rightarrow> Produced fallback
              | _ \<Rightarrow> Unresolved {ReasonNoMatch})"
proof -
  define r1 where "r1 = (if length C > 1 then addReason ReasonConflict r else r)"
  have l: "live pack facts ev q False r1" using assms(1) by (simp add: r1_def)
  have R: "set (rReasons r1) = R \<union> conflictOf (set C)"
    using assms(3) by (auto simp: r1_def conflictOf_length[OF assms(2)])
  have p: "rPack r1 = pack" using l by (simp add: live_def)
  have K: "contributorsOf o1 (rTrace r1) = K o1" for o1 using assms(4) by (simp add: r1_def)
  have D: "decideCandidates C r =
      (if rReasons r1 \<noteq> [] then unresolved r1
       else if length C = 1 then produce r1 (hd C)
       else case jget pack ''fallbackOutcome'' of
                JString fallback \<Rightarrow> produce r1 fallback
              | _ \<Rightarrow> unresolved (addReason ReasonNoMatch r1))"
    by (simp only: decideCandidates_def Let_def r1_def[symmetric] p)
  show ?thesis
  proof (cases "rReasons r1 = []")
    case False
    then have ne: "R \<union> conflictOf (set C) \<noteq> {}" using R by auto
    from decides_unresolved[OF l R ne] False ne show ?thesis by (simp add: D)
  next
    case True
    then have e: "R \<union> conflictOf (set C) = {}" using R by simp
    then have "\<not> length C > 1" using conflictOf_length[OF assms(2)] by auto
    then consider "length C = 1" | "C = []" by (cases C) auto
    then show ?thesis
    proof cases
      case 1
      then have "C \<noteq> []" by auto
      with 1 True e decides_produce[where K = K, OF l K] the_elem_hd[OF 1] show ?thesis by (simp add: D)
    next
      case 2
      have u: "decides pack K (unresolved (addReason ReasonNoMatch r1)) (Unresolved {ReasonNoMatch})"
        using l True by (intro decides_unresolved[where facts = facts and ev = ev and q = q and ov = False]) auto
      show ?thesis unfolding D using 2 True e decides_produce[where K = K, OF l K] u by (simp split: json.splits)
    qed
  qed
qed

lemma decideForced_decides:
  fixes S :: "string list"
  assumes "live pack facts ev q False r" "distinct F" "set (rReasons r) = R"
    "\<And>o1. contributorsOf o1 (rTrace r) = K o1"
  defines "V \<equiv> verdictOf q ev facts" and "rules \<equiv> activeRules (set S) (membersOf pack ''rules'')"
  shows "decides pack (\<lambda>o1. K o1 @ (if set F = {} then ruleContributors V o1 rules else []))
     (decideForced S F r)
     (if R \<union> conflictOf (set F) \<noteq> {} then Unresolved (R \<union> conflictOf (set F))
      else if set F \<noteq> {} then Produced (the_elem (set F))
      else decideRules V pack (set S))"
proof -
  define r1 where "r1 = (if length F > 1 then addReason ReasonConflict r else r)"
  let ?K = "\<lambda>o1. K o1 @ (if set F = {} then ruleContributors V o1 rules else [])"
  have l: "live pack facts ev q False r1" using assms(1) by (simp add: r1_def)
  have R: "set (rReasons r1) = R \<union> conflictOf (set F)"
    using assms(3) by (auto simp: r1_def conflictOf_length[OF assms(2)])
  have p: "rPack r1 = pack" using l by (simp add: live_def)
  have K: "contributorsOf o1 (rTrace r1) = K o1" for o1 using assms(4) by (simp add: r1_def)
  let ?rules = "asArray (jget pack ''rules'')"
  have D: "decideForced S F r =
      (if rReasons r1 \<noteq> [] then unresolved r1
       else if length F = 1 then produce (skipRules ?rules r1) (hd F)
       else case rulesLoop ?rules S r1 [] of
              (None, r2) \<Rightarrow> failed r2 | (Some candidates, r2) \<Rightarrow> decideCandidates candidates r2)"
    by (simp only: decideForced_def Let_def r1_def[symmetric] p)
  show ?thesis
  proof (cases "rReasons r1 = []")
    case False
    then have ne: "R \<union> conflictOf (set F) \<noteq> {}" using R by auto
    from decides_unresolved[OF l R ne] False ne show ?thesis by (simp add: D)
  next
    case True
    then have e: "R \<union> conflictOf (set F) = {}" using R by simp
    then have "\<not> length F > 1" using conflictOf_length[OF assms(2)] by auto
    then consider "length F = 1" | "F = []" by (cases F) auto
    then show ?thesis
    proof cases
      case 1
      have ls: "live pack facts ev q False (skipRules ?rules r1)" using l by (simp add: live_def skipRules_fields)
      have ne: "set F \<noteq> {}" using 1 by auto
      have "decides pack ?K (produce (skipRules ?rules r1) (hd F)) (Produced (hd F))"
        by (rule decides_produce[OF ls]) (simp add: skipRules_fields K ne del: set_empty)
      then show ?thesis using 1 True e the_elem_hd[OF 1] ne by (simp add: D)
    next
      case 2
      obtain res r2 where rl: "rulesLoop ?rules S r1 [] = (res, r2)" by (meson surj_pair)
      note rlv = rulesLoop_live[OF l rl]
      show ?thesis
      proof (cases res)
        case None
        with rlv have "exceeded (rEval r2)" by simp
        then show ?thesis unfolding D using None 2 True e rl decides_failed by simp
      next
        case (Some C)
        with rlv True K have c: "live pack facts ev q False r2" "distinct C"
          "set C = candidatesOf V rules" "set (rReasons r2) = ruleReasons V rules"
          "\<And>o1. contributorsOf o1 (rTrace r2) = K o1 @ ruleContributors V o1 rules"
          by (simp_all add: membersOf_def V_def rules_def)
        have "decideRules V pack (set S) =
            (if ruleReasons V rules \<union> conflictOf (candidatesOf V rules) \<noteq> {}
             then Unresolved (ruleReasons V rules \<union> conflictOf (candidatesOf V rules))
             else if candidatesOf V rules \<noteq> {} then Produced (the_elem (candidatesOf V rules))
             else case jget pack ''fallbackOutcome'' of
                JString fallback \<Rightarrow> Produced fallback | _ \<Rightarrow> Unresolved {ReasonNoMatch})"
          by (simp only: decideRules_def Let_def rules_def)
        with decideCandidates_decides[OF c(1,2) refl c(5), unfolded c(3,4)]
        have "decides pack (\<lambda>o1. K o1 @ ruleContributors V o1 rules) (decideCandidates C r2)
            (decideRules V pack (set S))" by (simp only:)
        then show ?thesis unfolding D using Some 2 True e rl by simp
      qed
    qed
  qed
qed

lemma resolvePack_decides:
  assumes "fresh e" "jsonWf facts" "\<not> outcomeValues e"
  shows "decides pack (contributions (verdictOf (quantifiers e) (evidence e) facts) pack)
           (resolvePack pack facts e)
           (section8 (evidence e) (verdictOf (quantifiers e) (evidence e) facts) pack)"
proof -
  let ?V = "verdictOf (quantifiers e) (evidence e) facts"
  obtain ok e1 where c: "charge (iterationWork pack) e = (ok, e1)" by (meson surj_pair)
  note ch = charge_spends[OF assms(1), of "iterationWork pack", unfolded c fst_conv snd_conv]
  let ?r = "newResolver pack facts e1"
  show ?thesis
  proof (cases ok)
    case False
    with ch c show ?thesis by (simp add: resolvePack_def decides_failed newResolver_def)
  next
    case True
    with ch have f1: "fresh e1" using spends_fresh by blast
    have l: "live pack facts (evidence e) (quantifiers e) False ?r"
      using ch(1) f1 assms(2,3) by (simp add: live_def newResolver_def spends_def)
    have rr: "rReasons ?r = []" by (simp add: newResolver_def)
    obtain a r1 where ap: "applicability ?r = (a, r1)" by (meson surj_pair)
    have R: "resolvePack pack facts e = (case (a, r1) of
        (None, r1) \<Rightarrow> failed r1
      | (Some triFalse, r1) \<Rightarrow> dispose (addReason ReasonNotApplicable r1) ''not-applicable'' []
      | (Some triUnknown, r1) \<Rightarrow> dispose (addReason ReasonUnknown r1) ''unresolved'' []
      | (Some triTrue, r1) \<Rightarrow> applicable r1)"
      using c True ap by (simp add: resolvePack_def)
    have A: "case a of None \<Rightarrow> exceeded (rEval r1)
      | Some v \<Rightarrow> v = (case map_of pack ''applicability'' of None \<Rightarrow> triTrue | Some node \<Rightarrow> ?V node) \<and>
          live pack facts (evidence e) (quantifiers e) False r1 \<and> rReasons r1 = [] \<and>
          (\<forall>o1. contributorsOf o1 (rTrace r1) = [])"
    proof (cases "map_of pack ''applicability''")
      case None
      then show ?thesis using ap l rr by (auto simp: applicability_def newResolver_def contributorsOf_append)
    next
      case (Some node)
      obtain v cs ms r2 where s: "runStage node ?r = ((v, cs, ms), r2)" by (metis prod.exhaust)
      show ?thesis
      proof (cases "exceeded (rEval r2)")
        case True
        with ap Some s show ?thesis by (auto simp: applicability_def newResolver_def contributorsOf_append)
      next
        case False
        note rl = runStage_live[OF l s False]
        from ap Some s False rl rr show ?thesis by (auto simp: applicability_def newResolver_def contributorsOf_append)
      qed
    qed
    show ?thesis
    proof (cases a)
      case None
      with A R decides_failed show ?thesis by simp
    next
      case (Some v)
      with A have v: "v = (case map_of pack ''applicability'' of None \<Rightarrow> triTrue | Some node \<Rightarrow> ?V node)"
        and l1: "live pack facts (evidence e) (quantifiers e) False r1" and r1: "rReasons r1 = []"
        and t1: "\<And>o1. contributorsOf o1 (rTrace r1) = []" by simp_all
      have n1: "\<not> exceeded (rEval r1)" by (rule live_not_exceeded[OF l1])
      show ?thesis
      proof (cases v)
        case triFalse
        have "decides pack K (dispose (addReason ReasonNotApplicable r1) ''not-applicable'' []) NotApplicable" for K
          using l1 r1
          by (intro decides_dispose[where facts = facts and ev = "evidence e" and q = "quantifiers e" and ov = False])
             (auto simp: states_def)
        with v Some R triFalse show ?thesis by (simp add: section8_def)
      next
        case triUnknown
        have "decides pack K (dispose (addReason ReasonUnknown r1) ''unresolved'' []) (Unresolved {ReasonUnknown})" for K
          using l1 r1
          by (intro decides_dispose[where facts = facts and ev = "evidence e" and q = "quantifiers e" and ov = False])
             (auto simp: states_def)
        with v Some R triUnknown show ?thesis by (simp add: section8_def)
      next
        case triTrue
        note rq = requirements_live[OF l1 r1]
        have p: "rPack (requirements r1) = pack" using rq(1) by (simp add: live_def)
        obtain res r2 where x: "exceptionsLoop (asArray (jget pack ''exceptions'')) (requirements r1) [] [] = (res, r2)"
          by (meson surj_pair)
        note xl = exceptionsLoop_live[OF rq(1) x]
        have ap2: "applicable r1 = (case (res, r2) of
            (None, r2) \<Rightarrow> failed r2 | (Some (S, F), r2) \<Rightarrow> decideForced S F r2)"
          by (simp add: applicable_def p x)
        show ?thesis
        proof (cases res)
          case None
          with xl ap2 Some triTrue R decides_failed show ?thesis by simp
        next
          case sf: (Some SF)
          obtain S F where SF: "SF = (S, F)" by (cases SF)
          let ?xs = "membersOf pack ''exceptions''"
          from xl sf SF have x2: "live pack facts (evidence e) (quantifiers e) False r2" "distinct F"
            "set S = suppressedBy ?V ?xs" "set F = forcedBy ?V ?xs"
            "set (rReasons r2) = evidenceReasons (evidence e) (membersOf pack ''evidenceRequirements'') \<union>
               exceptionReasons ?V ?xs"
            "\<And>o1. contributorsOf o1 (rTrace r2) = forcingContributors ?V o1 ?xs"
            using rq(2,3) t1 by (simp_all add: membersOf_def)
          note d = decideForced_decides[OF x2(1,2) refl x2(6), of S, unfolded x2(3-5)]
          have "resolvePack pack facts e = decideForced S F r2"
            using R ap2 Some triTrue sf SF by simp
          with d v triTrue show ?thesis by (simp add: section8_def contributions_def[abs_def] Let_def)
        qed
      qed
    qed
  qed
qed

end
