(* ===== verification/Resolution_Laws.thy ===== *)
theory Resolution_Laws
  imports Section8
begin

section \<open>Properties of the resolution walk\<close>

text \<open>
  What the dispositions of \<open>resolve.go\<close> satisfy: they state the decision of section 8, do not depend
  on the order the pack lists its rules and exceptions in, are legal under section 8.3, name
  exactly the entries that contributed, and exist whenever the budget covers the pack.
\<close>

subsection \<open>The disposition of a final state\<close>

lemma addTriggers_spec:
  "set acc \<subseteq> set reasons \<Longrightarrow> distinct acc \<Longrightarrow>
   set (addTriggers reasons ts acc) = set acc \<union> {n \<in> set reasons. JString n \<in> set ts}
   \<and> distinct (addTriggers reasons ts acc)"
proof (induction ts arbitrary: acc)
  case (Cons t ts)
  show ?case
  proof (cases t)
    case (JString n)
    show ?thesis
    proof (cases "n \<in> set reasons \<and> n \<notin> set acc")
      case True
      with Cons.IH[of "acc @ [n]"] Cons.prems JString show ?thesis by auto
    next
      case False
      with Cons.IH[of acc] Cons.prems JString show ?thesis by auto
    qed
  qed (use Cons in auto)
qed simp

text \<open>What triggers a handoff: the retained reasons the pack lists, and a direct request.\<close>

definition triggersOf :: "resolver \<Rightarrow> string list" where
  "triggersOf r =
     (let listed = (case asObject (jget (rPack r) ''escalation'') of
                      None \<Rightarrow> [] | Some m \<Rightarrow> addTriggers (rReasons r) (asArray (jget m ''triggers'')) [])
      in if rDirect r \<and> ReasonExceptionEscalation \<notin> set listed
         then listed @ [ReasonExceptionEscalation] else listed)"

lemma triggersOf_spec:
  assumes "settled pack r"
  shows "set (triggersOf r) \<subseteq> set (rReasons r)" "distinct (triggersOf r)"
    "ReasonExceptionEscalation \<in> set (rReasons r) \<longleftrightarrow> ReasonExceptionEscalation \<in> set (triggersOf r)"
proof -
  note a = addTriggers_spec[of "[]" "rReasons r"]
  show "set (triggersOf r) \<subseteq> set (rReasons r)" "distinct (triggersOf r)"
    "ReasonExceptionEscalation \<in> set (rReasons r) \<longleftrightarrow> ReasonExceptionEscalation \<in> set (triggersOf r)"
    using assms a by (auto simp: triggersOf_def settled_def Let_def split: option.splits)
qed

definition routesOf :: "object \<Rightarrow> json list option" where
  "routesOf pack = (case jget (objectOrNil (jget pack ''escalation'')) ''routes'' of JArray xs \<Rightarrow> Some xs | _ \<Rightarrow> None)"

definition selectedRoutes :: "resolver \<Rightarrow> json list \<Rightarrow> HandoffTarget list" where
  "selectedRoutes r raws = map routeTarget (filter (routeSelected (rReasons r)) (map objectOrNil raws))"

lemma dispositionOf_fields:
  assumes "dispositionOf r kind i = (d, t)"
  shows "dContract d = \<lparr>ecSpecVersion = [], ecProfile = []\<rparr>" "dKind d = kind" "dOutcomeID d = i" "dValue d = None"
    "dReasons d = (if kind = ''outcome'' then [] else sort (rReasons r))"
    "dHandoff d =
      (if kind = ''outcome'' \<or> triggersOf r = [] then
         \<lparr>hState = ''none'', hTriggeredBy = [], hRoutes = map_option (\<lambda>_. []) (routesOf (rPack r))\<rparr>
       else case routesOf (rPack r) of
           None \<Rightarrow> \<lparr>hState = ''requested'', hTriggeredBy = sort (triggersOf r), hRoutes = None\<rparr>
         | Some raws \<Rightarrow>
             if selectedRoutes r raws = [] then \<lparr>hState = ''none'', hTriggeredBy = [], hRoutes = Some []\<rparr>
             else \<lparr>hState = ''requested'', hTriggeredBy = sort (triggersOf r),
                   hRoutes = Some (selectedRoutes r raws)\<rparr>)"
proof -
  define rs where "rs = routesOf (rPack r)"
  define tb where "tb = triggersOf r"
  define esc where "esc = asObject (jget (rPack r) ''escalation'')"
  define h where "h = \<lparr>hState = ''none'', hTriggeredBy = [], hRoutes = map_option (\<lambda>_. []) rs\<rparr>"
  define d0 where "d0 = \<lparr>dContract = \<lparr>ecSpecVersion = [], ecProfile = []\<rparr>, dKind = kind, dOutcomeID = i,
               dReasons = [], dHandoff = h, dValue = None\<rparr>"
  have e: "dispositionOf r kind i =
     (if kind = ''outcome'' then (d0, None)
      else let d = d0\<lparr>dReasons := sort (rReasons r)\<rparr>
           in if tb = [] then (d, None)
              else case rs of
                Some raws \<Rightarrow>
                  (let selected = selectedRoutes r raws
                   in if selected = [] then (d\<lparr>dHandoff := h\<rparr>, None)
                      else (d\<lparr>dHandoff := \<lparr>hState = ''requested'', hTriggeredBy = sort tb,
                                           hRoutes = Some selected\<rparr>\<rparr>, None))
              | None \<Rightarrow>
                  (d\<lparr>dHandoff := \<lparr>hState = ''requested'', hTriggeredBy = sort tb, hRoutes = None\<rparr>\<rparr>,
                   case esc of
                     None \<Rightarrow> None
                   | Some m \<Rightarrow> (case jget m ''target'' of JObject _ \<Rightarrow> Some (routeTarget m) | _ \<Rightarrow> None)))"
    unfolding dispositionOf_def Let_def d0_def h_def rs_def routesOf_def tb_def triggersOf_def esc_def selectedRoutes_def
    by (rule refl)
  consider "kind = ''outcome''" | "kind \<noteq> ''outcome''" "tb = []" | "kind \<noteq> ''outcome''" "tb \<noteq> []" "rs = None"
    | raws where "kind \<noteq> ''outcome''" "tb \<noteq> []" "rs = Some raws" by (cases rs) auto
  then show "dContract d = \<lparr>ecSpecVersion = [], ecProfile = []\<rparr>" "dKind d = kind" "dOutcomeID d = i" "dValue d = None"
    "dReasons d = (if kind = ''outcome'' then [] else sort (rReasons r))"
    "dHandoff d =
      (if kind = ''outcome'' \<or> triggersOf r = [] then
         \<lparr>hState = ''none'', hTriggeredBy = [], hRoutes = map_option (\<lambda>_. []) (routesOf (rPack r))\<rparr>
       else case routesOf (rPack r) of
           None \<Rightarrow> \<lparr>hState = ''requested'', hTriggeredBy = sort (triggersOf r), hRoutes = None\<rparr>
         | Some raws \<Rightarrow>
             if selectedRoutes r raws = [] then \<lparr>hState = ''none'', hTriggeredBy = [], hRoutes = Some []\<rparr>
             else \<lparr>hState = ''requested'', hTriggeredBy = sort (triggersOf r),
                   hRoutes = Some (selectedRoutes r raws)\<rparr>)"
    unfolding rs_def[symmetric] tb_def[symmetric] using assms unfolding e
    by (cases; auto simp: d0_def h_def Let_def split: if_splits)+
qed

text \<open>The part of a conformant pack section 8.3 depends on: routes only under Core 0.3, at most
  eight of them, each with an admitted target, and non-empty outcome ids.\<close>

definition routesShaped :: "EvaluatorContract \<Rightarrow> object \<Rightarrow> bool" where
  "routesShaped c pack \<longleftrightarrow>
     validateContract c = None \<and>
     (case routesOf pack of
        None \<Rightarrow> True
      | Some raws \<Rightarrow> Version c = ''0.3.0'' \<and> length raws \<le> 8 \<and>
          (\<forall>raw \<in> set raws. admittedTarget (routeTarget (objectOrNil raw))))"

lemma dispositionOf_legal:
  assumes "settled pack r" "routesShaped c pack" "dispositionOf r kind i = (d, t)"
    and "states dec kind i (rReasons r)" "\<And>o1. dec = Produced o1 \<Longrightarrow> o1 \<noteq> []"
  shows "legalDisposition (d\<lparr>dContract := c\<rparr>)"
proof -
  note f = dispositionOf_fields[OF assms(3)]
  note t = triggersOf_spec[OF assms(1)]
  have p: "rPack r = pack" and v: "set (rReasons r) \<subseteq> set dispositionReasons"
    using assms(1) by (simp_all add: settled_def)
  have c: "validateContract c = None" using assms(2) by (simp add: routesShaped_def)
  have k: "kind = ''outcome'' \<and> i \<noteq> [] \<or> kind = ''not-applicable'' \<and> i = [] \<and> set (rReasons r) = {ReasonNotApplicable}
      \<or> kind = ''unresolved'' \<and> i = [] \<and> set (rReasons r) \<noteq> {}"
    using assms(4,5) by (auto simp: states_def split: decision.splits)
  have sel: "length (selectedRoutes r raws) \<le> 8 \<and> (\<forall>t \<in> set (selectedRoutes r raws). admittedTarget t)
      \<and> Version c = ''0.3.0''" if "routesOf pack = Some raws" for raws
  proof -
    have "length (selectedRoutes r raws) \<le> length raws" by (simp add: selectedRoutes_def)
    with assms(2) that show ?thesis
      by (auto simp: routesShaped_def selectedRoutes_def intro: order_trans[OF length_filter_le])
  qed
  show ?thesis
  proof (cases "kind = ''outcome'' \<or> triggersOf r = []")
    case True
    have h: "dHandoff d = \<lparr>hState = ''none'', hTriggeredBy = [], hRoutes = map_option (\<lambda>_. []) (routesOf pack)\<rparr>"
      using f(6) True p by simp
    have e: "kind \<noteq> ''outcome'' \<longrightarrow> ReasonExceptionEscalation \<notin> set (rReasons r)" using True t(3) by auto
    show ?thesis
    proof (cases "routesOf pack")
      case None
      show ?thesis using k v c e
        by (elim disjE conjE) (simp_all add: legalDisposition_def Let_def f(1-5) h None ReasonNotApplicable_def)
    next
      case (Some raws)
      show ?thesis using k v c e sel[OF Some]
        by (elim disjE conjE) (simp_all add: legalDisposition_def Let_def f(1-5) h Some ReasonNotApplicable_def)
    qed
  next
    case False
    then have k2: "kind = ''not-applicable'' \<and> i = [] \<and> set (rReasons r) = {ReasonNotApplicable}
        \<or> kind = ''unresolved'' \<and> i = [] \<and> set (rReasons r) \<noteq> {}" and tne: "triggersOf r \<noteq> []"
      using k by blast+
    have sne: "sort (triggersOf r) \<noteq> []" using tne by (metis set_sort set_empty)
    show ?thesis
    proof (cases "routesOf pack")
      case None
      have h: "dHandoff d = \<lparr>hState = ''requested'', hTriggeredBy = sort (triggersOf r), hRoutes = None\<rparr>"
        using f(6) False p None by simp
      show ?thesis using k2 v c sne t
        by (elim disjE conjE) (simp_all add: legalDisposition_def Let_def f(1-5) h None ReasonNotApplicable_def)
    next
      case (Some raws)
      show ?thesis
      proof (cases "selectedRoutes r raws = []")
        case True
        have h: "dHandoff d = \<lparr>hState = ''none'', hTriggeredBy = [], hRoutes = Some []\<rparr>"
          using f(6) False p Some True by simp
        show ?thesis using k2 v c sel[OF Some]
          by (elim disjE conjE) (simp_all add: legalDisposition_def Let_def f(1-5) h ReasonNotApplicable_def)
      next
        case ne: False
        have h: "dHandoff d = \<lparr>hState = ''requested'', hTriggeredBy = sort (triggersOf r),
            hRoutes = Some (selectedRoutes r raws)\<rparr>"
          using f(6) False p Some ne by simp
        show ?thesis using k2 v c sne ne t sel[OF Some]
          by (elim disjE conjE) (simp_all add: legalDisposition_def Let_def f(1-5) h ReasonNotApplicable_def)
      qed
    qed
  qed
qed

subsection \<open>Order\<close>

lemma section8_cong:
  assumes "\<And>k. k \<in> {''rules'', ''exceptions'', ''evidenceRequirements''} \<Longrightarrow> set (membersOf pack k) = set (membersOf pack' k)"
    "map_of pack ''applicability'' = map_of pack' ''applicability''"
    "jget pack ''fallbackOutcome'' = jget pack' ''fallbackOutcome''"
  shows "section8 ev V pack = section8 ev V pack'"
proof -
  have r: "set (membersOf pack ''rules'') = set (membersOf pack' ''rules'')"
    and x: "set (membersOf pack ''exceptions'') = set (membersOf pack' ''exceptions'')"
    and q: "set (membersOf pack ''evidenceRequirements'') = set (membersOf pack' ''evidenceRequirements'')"
    using assms(1) by auto
  have act: "set (activeRules S (membersOf pack ''rules'')) = set (activeRules S (membersOf pack' ''rules''))" for S
    using r by (auto simp: activeRules_def)
  have rules: "decideRules V pack S = decideRules V pack' S" for S
    unfolding decideRules_def Let_def candidatesOf_def ruleReasons_def act assms(3) ..
  show ?thesis
    unfolding section8_def Let_def forcedBy_def exceptionReasons_def suppressedBy_def evidenceReasons_def
      requiredPresence_def x q assms(2) rules ..
qed

lemma dispositionOf_cong:
  assumes "settled pack r" "settled pack' r'" "set (rReasons r) = set (rReasons r')"
    "jget pack ''escalation'' = jget pack' ''escalation''"
  shows "dispositionOf r kind i = dispositionOf r' kind i"
proof -
  have p: "rPack r = pack" "rPack r' = pack'" using assms(1,2) by (simp_all add: settled_def)
  have d: "rDirect r = rDirect r'" using assms(1-3) by (simp add: settled_def)
  have s: "sort (rReasons r) = sort (rReasons r')"
    using assms(1-3) by (intro sort_determined_by_set) (simp_all add: settled_def)
  have a: "addTriggers (rReasons r) ts acc = addTriggers (rReasons r') ts acc" for ts acc
    by (induction ts arbitrary: acc) (auto simp: assms(3) split: json.splits)
  have sel: "routeSelected (rReasons r) = routeSelected (rReasons r')"
    by (auto simp: routeSelected_def assms(3) intro!: ext)
  show ?thesis unfolding dispositionOf_def p d s a sel assms(4) ..
qed

lemma decides_decision:
  assumes "decides pack K (Inr (d, t), r) dec"
  shows "decisionOf d = dec \<and> \<not> exceeded (rEval r)"
proof -
  from assms obtain kind i where k: "dispositionOf r kind i = (d, t)" "\<not> exceeded (rEval r)" "states dec kind i (rReasons r)"
    by (auto simp: decides_def)
  note f = dispositionOf_fields[OF k(1)]
  show ?thesis using k(2,3) by (auto simp: decisionOf_def f(2,3,5) states_def split: decision.splits)
qed

subsection \<open>Properties\<close>

text \<open>C1: the resolution walk of the Core, without the outcome-values draft, implements section 8. Either the work limit was reached, and the
  result is the resource-exhaustion error, or the disposition states exactly the decision the
  specification derives from the verdicts of the authored conditions.\<close>

theorem resolvePack_refines_section8:
  assumes "coherent e" "\<not> exceeded e" "charged e \<le> budget e" "jsonWf facts" "\<not> outcomeValues e"
    and "resolvePack pack facts e = (res, r)"
  shows "(case res of
      Inl f \<Rightarrow> exceeded (rEval r) \<and> fClass f = ClassResourceExhaustion \<and> fPhase f = PhaseEvaluation
    | Inr (d, t) \<Rightarrow> \<not> exceeded (rEval r) \<and>
        decisionOf d = section8 (evidence e) (verdictOf (quantifiers e) (evidence e) facts) pack)"
proof -
  have f: "fresh e" using assms(1-3) by (simp add: fresh_def em.within_limit_def)
  note D = resolvePack_decides[OF f assms(4,5), of pack, unfolded assms(6)]
  show ?thesis
  proof (cases res)
    case (Inl x)
    with D show ?thesis by (simp add: decides_def workLimitFailure_def)
  next
    case (Inr dt)
    obtain d t where dt: "dt = (d, t)" by (cases dt)
    with Inr D have "decides pack (contributions (verdictOf (quantifiers e) (evidence e) facts) pack) (Inr (d, t), r)
        (section8 (evidence e) (verdictOf (quantifiers e) (evidence e) facts) pack)" by simp
    from decides_decision[OF this] Inr dt show ?thesis by simp
  qed
qed

text \<open>A pack with one exception that forces an outcome and two rules.\<close>

definition sampleRule :: "string \<Rightarrow> string \<Rightarrow> bool \<Rightarrow> json" where
  "sampleRule ident o1 b = JObject [(''id'', JString ident),
     (''when'', JObject [(''op'', JString ''literal''), (''value'', JBool b)]),
     (''outcome'', JString o1), (''onUnknown'', JString ''escalate'')]"

definition samplePack :: object where
  "samplePack = [(''rules'', JArray [sampleRule ''r1'' ''approve'' True, sampleRule ''r2'' ''deny'' False])]"

definition samplePack2 :: object where
  "samplePack2 = [(''rules'', JArray [sampleRule ''r2'' ''deny'' False, sampleRule ''r1'' ''approve'' True])]"

definition sampleStart :: evaluator where
  "sampleStart = newEvaluator Map.empty False False 100"

lemma sampleStart_simps [simp]:
  "coherent sampleStart" "exceeded sampleStart = False" "charged sampleStart = 0" "budget sampleStart = 100"
  "outcomeValues sampleStart = False" "quantifiers sampleStart = False" "evidence sampleStart = Map.empty"
  "pointers sampleStart = Map.empty"
  by (simp_all add: sampleStart_def)

theorem resolvePack_refines_section8_witness:
  "case fst (resolvePack samplePack JNull sampleStart) of
     Inl f \<Rightarrow> False | Inr (d, t) \<Rightarrow> decisionOf d = Produced ''approve''"
proof -
  obtain res r where e: "resolvePack samplePack JNull sampleStart = (res, r)" by (meson surj_pair)
  have n: "(case fst (resolvePack samplePack JNull sampleStart) of Inl f \<Rightarrow> True | Inr dt \<Rightarrow> False) = False"
    by code_simp
  have s: "section8 Map.empty (verdictOf False Map.empty JNull) samplePack = Produced ''approve''"
    by code_simp
  show ?thesis
    using resolvePack_refines_section8[OF _ _ _ _ _ e] n s by (auto simp: e split: sum.splits)
qed

text \<open>C26: the disposition does not depend on order. Without the outcome-values draft, two packs that list the same rules, exceptions
  and evidence requirements, in any order and with any repetition, and agree on applicability,
  fallback and escalation, yield the same disposition and the same escalation target.\<close>

theorem resolvePack_order_independent:
  assumes "coherent e" "\<not> exceeded e" "charged e \<le> budget e" "jsonWf facts" "\<not> outcomeValues e"
    and "\<And>k. k \<in> {''rules'', ''exceptions'', ''evidenceRequirements''} \<Longrightarrow>
           set (membersOf pack k) = set (membersOf pack' k)"
    and "map_of pack ''applicability'' = map_of pack' ''applicability''"
    and "jget pack ''fallbackOutcome'' = jget pack' ''fallbackOutcome''"
    and "jget pack ''escalation'' = jget pack' ''escalation''"
    and "resolvePack pack facts e = (Inr (d, t), r)" "resolvePack pack' facts e = (Inr (d', t'), r')"
  shows "d = d' \<and> t = t'"
proof -
  have f: "fresh e" using assms(1-3) by (simp add: fresh_def em.within_limit_def)
  let ?V = "verdictOf (quantifiers e) (evidence e) facts"
  have s: "section8 (evidence e) ?V pack' = section8 (evidence e) ?V pack"
    using section8_cong[OF assms(6-8)] by simp
  from resolvePack_decides[OF f assms(4,5), of pack] assms(10)
  obtain kind i where k: "(d, t) = dispositionOf r kind i" "settled pack r"
    "states (section8 (evidence e) ?V pack) kind i (rReasons r)" by (auto simp: decides_def)
  from resolvePack_decides[OF f assms(4,5), of pack', unfolded s] assms(11)
  obtain kind' i' where k': "(d', t') = dispositionOf r' kind' i'" "settled pack' r'"
    "states (section8 (evidence e) ?V pack) kind' i' (rReasons r')" by (auto simp: decides_def)
  have same: "kind' = kind" "i' = i" and rs: "kind = ''outcome'' \<or> set (rReasons r) = set (rReasons r')"
    using k(3) k'(3) by (auto simp: states_def split: decision.splits)
  have "dispositionOf r kind i = dispositionOf r' kind i"
  proof (cases "kind = ''outcome''")
    case True
    have "rPack r = pack" "rPack r' = pack'" using k(2) k'(2) by (simp_all add: settled_def)
    with True assms(9) show ?thesis by (simp add: dispositionOf_def Let_def)
  next
    case False
    with rs dispositionOf_cong[OF k(2) k'(2) _ assms(9)] show ?thesis by blast
  qed
  with k(1) k'(1) same show ?thesis by (metis prod.inject)
qed

theorem resolvePack_order_independent_witness:
  "fst (resolvePack samplePack JNull sampleStart) = fst (resolvePack samplePack2 JNull sampleStart)"
proof -
  obtain res r where e: "resolvePack samplePack JNull sampleStart = (res, r)" by (meson surj_pair)
  obtain res' r' where e': "resolvePack samplePack2 JNull sampleStart = (res', r')" by (meson surj_pair)
  have "(case fst (resolvePack samplePack JNull sampleStart) of Inl f \<Rightarrow> True | Inr dt \<Rightarrow> False) = False"
    by code_simp
  then obtain d t where d: "res = Inr (d, t)" using e by (cases res) auto
  have "(case fst (resolvePack samplePack2 JNull sampleStart) of Inl f \<Rightarrow> True | Inr dt \<Rightarrow> False) = False"
    by code_simp
  then obtain d' t' where d': "res' = Inr (d', t')" using e' by (cases res') auto
  have m: "set (membersOf samplePack k) = set (membersOf samplePack2 k)"
    if "k \<in> {''rules'', ''exceptions'', ''evidenceRequirements''}" for k
    using that by (auto simp: membersOf_def samplePack_def samplePack2_def sampleRule_def)
  have "d = d' \<and> t = t'"
    by (rule resolvePack_order_independent[OF _ _ _ _ _ m _ _ _ e[unfolded d] e'[unfolded d']])
       (simp_all add: samplePack_def samplePack2_def)
  then show ?thesis by (simp add: e e' d d')
qed

text \<open>C25: every disposition the walk produces without the outcome-values draft, for a pack with shaped
  routes, passes the gate of section 8.3, unless section 8 decides for an outcome whose id is the empty
  string (which no pack that meets the schema declares).\<close>

theorem resolvePack_legal:
  assumes "coherent e" "\<not> exceeded e" "charged e \<le> budget e" "jsonWf facts" "\<not> outcomeValues e"
    and "routesShaped c pack"
    and "section8 (evidence e) (verdictOf (quantifiers e) (evidence e) facts) pack \<noteq> Produced []"
    and "resolvePack pack facts e = (Inr (d, t), r)"
  shows "dispositionValidate (d\<lparr>dContract := c\<rparr>) = None"
proof -
  have f: "fresh e" using assms(1-3) by (simp add: fresh_def em.within_limit_def)
  from resolvePack_decides[OF f assms(4,5), of pack] assms(8)
  obtain kind i where k: "dispositionOf r kind i = (d, t)" "settled pack r"
    "states (section8 (evidence e) (verdictOf (quantifiers e) (evidence e) facts) pack) kind i (rReasons r)"
    by (auto simp: decides_def)
  show ?thesis
    unfolding dispositionValidate_None
    by (rule dispositionOf_legal[OF k(2) assms(6) k(1) k(3)]) (use assms(7) in auto)
qed

definition sampleEscalating :: object where
  "sampleEscalating = [(''rules'', JArray [sampleRule ''r1'' ''approve'' True, sampleRule ''r2'' ''deny'' True]),
     (''escalation'', JObject [(''triggers'', JArray [JString ''conflict'']),
        (''target'', JObject [(''kind'', JString ''queue''), (''name'', JString ''review'')])])]"

theorem resolvePack_legal_witness:
  "case fst (resolvePack sampleEscalating JNull sampleStart) of
     Inl f \<Rightarrow> False | Inr (d, t) \<Rightarrow> dispositionValidate (d\<lparr>dContract := LegacyEvaluatorContract\<rparr>) = None"
proof -
  obtain res r where e: "resolvePack sampleEscalating JNull sampleStart = (res, r)" by (meson surj_pair)
  have "(case fst (resolvePack sampleEscalating JNull sampleStart) of Inl f \<Rightarrow> True | Inr dt \<Rightarrow> False) = False"
    by code_simp
  then obtain d t where d: "res = Inr (d, t)" using e by (cases res) auto
  have s: "section8 Map.empty (verdictOf False Map.empty JNull) sampleEscalating = Unresolved {ReasonConflict}"
    by code_simp
  have sh: "routesShaped LegacyEvaluatorContract sampleEscalating"
    by (simp add: routesShaped_def routesOf_def sampleEscalating_def validateContract_def
         LegacyEvaluatorContract_def Version_def)
  have "dispositionValidate (d\<lparr>dContract := LegacyEvaluatorContract\<rparr>) = None"
    by (rule resolvePack_legal[OF _ _ _ _ _ sh _ e[unfolded d]]) (simp_all add: s)
  then show ?thesis by (simp add: e d)
qed

text \<open>C28: the contributors reported for a produced outcome are exactly the entries that supplied it,
  in canonical order: the true exceptions that force it or, when none forces, the true rules that no
  exception suppresses and that name it. Any other result reports none. The outcome-values draft is off.\<close>

theorem outcomeContributors_exact:
  assumes "coherent e" "\<not> exceeded e" "charged e \<le> budget e" "jsonWf facts" "\<not> outcomeValues e"
    and "resolvePack pack facts e = (Inr (d, t), r)"
  defines "V \<equiv> verdictOf (quantifiers e) (evidence e) facts"
  shows "outcomeContributors d (rTrace r) =
           (case section8 (evidence e) V pack of
              Produced o1 \<Rightarrow> sort_key contributorKey (contributions V pack o1) | _ \<Rightarrow> [])"
proof -
  have f: "fresh e" using assms(1-3) by (simp add: fresh_def em.within_limit_def)
  from resolvePack_decides[OF f assms(4,5), of pack] assms(6)
  obtain kind i where k: "dispositionOf r kind i = (d, t)"
    "states (section8 (evidence e) V pack) kind i (rReasons r)"
    "\<forall>o1. section8 (evidence e) V pack = Produced o1 \<longrightarrow> contributorsOf o1 (rTrace r) = contributions V pack o1"
    by (auto simp: decides_def V_def)
  note fl = dispositionOf_fields[OF k(1)]
  show ?thesis using k(2,3) fl(2,3) by (auto simp: outcomeContributors_def states_def split: decision.splits)
qed

theorem outcomeContributors_exact_witness:
  "case resolvePack samplePack JNull sampleStart of
     (Inl f, r) \<Rightarrow> False
   | (Inr (d, t), r) \<Rightarrow> outcomeContributors d (rTrace r) = [\<lparr>coKind = ''rule'', coID = ''r1''\<rparr>]"
proof -
  obtain res r where e: "resolvePack samplePack JNull sampleStart = (res, r)" by (meson surj_pair)
  have "(case fst (resolvePack samplePack JNull sampleStart) of Inl f \<Rightarrow> True | Inr dt \<Rightarrow> False) = False"
    by code_simp
  then obtain d t where d: "res = Inr (d, t)" using e by (cases res) auto
  let ?V = "verdictOf False Map.empty JNull"
  have s: "section8 Map.empty ?V samplePack = Produced ''approve''" by code_simp
  have c: "sort_key contributorKey (contributions ?V samplePack ''approve'') = [\<lparr>coKind = ''rule'', coID = ''r1''\<rparr>]"
    by code_simp
  from outcomeContributors_exact[OF _ _ _ _ _ e[unfolded d]] s c show ?thesis by (simp add: e d)
qed

end
