(* ===== verification/Canonical_Writer.thy ===== *)
theory Canonical_Writer
  imports Json_Equality
begin

section \<open>The contract of a canonical writer\<close>

text \<open>
  Both canonical forms of the runtime, the one of \<open>internal/jcs\<close> and the one of
  \<open>internal/jpscanon\<close>, write a document the same way: brackets and commas around items written
  one after the other, members ordered by a key of their names, names quoted. The locale states what
  the two share and proves once what makes such a form usable as an identity: a text determines the
  value it was written from, and equal values have equal texts.
\<close>

definition isLeaf :: "json \<Rightarrow> bool" where
  "isLeaf v \<longleftrightarrow> (case v of JArray _ \<Rightarrow> False | JObject _ \<Rightarrow> False | _ \<Rightarrow> True)"

text \<open>What may follow a value: the end of the text, a comma, or a closing bracket.\<close>

definition closes :: "string \<Rightarrow> bool" where
  "closes u \<longleftrightarrow> u = [] \<or> hd u = CHR '','' \<or> hd u = CHR '']'' \<or> hd u = CHR ''}''"

lemma closes_simps [simp]: "closes []" "closes (c # u) \<longleftrightarrow> c = CHR '','' \<or> c = CHR '']'' \<or> c = CHR ''}''"
  by (simp_all add: closes_def)

definition memberText :: "('n \<Rightarrow> string option) \<Rightarrow> ('v \<Rightarrow> string option) \<Rightarrow> 'n \<times> 'v \<Rightarrow> string option" where
  "memberText quote w p =
     (case quote (fst p) of None \<Rightarrow> None
      | Some name \<Rightarrow> map_option (\<lambda>text. name @ CHR '':'' # text) (w (snd p)))"

definition bracketed :: "char \<Rightarrow> char \<Rightarrow> string list \<Rightarrow> string" where
  "bracketed lb rb parts = lb # joinWith '','' parts @ [rb]"

lemma memberText_cong [fundef_cong]:
  "p = q \<Longrightarrow> quote (fst q) = quote' (fst q) \<Longrightarrow> w (snd q) = w' (snd q) \<Longrightarrow> memberText quote w p = memberText quote' w' q"
  by (simp add: memberText_def split: option.splits)

lemma memberText_Some:
  "memberText quote w p = Some t \<longleftrightarrow>
     (\<exists>name text. quote (fst p) = Some name \<and> w (snd p) = Some text \<and> t = name @ CHR '':'' # text)"
  by (auto simp: memberText_def split: option.splits)

lemma list_all2_member: "list_all2 R xs ys \<Longrightarrow> x \<in> set xs \<Longrightarrow> \<exists>y \<in> set ys. R x y"
  by (induction rule: list_all2_induct) auto

lemma those_map_Some:
  "those (map f xs) = Some ps \<longleftrightarrow> list_all2 (\<lambda>x p. f x = Some p) xs ps"
  by (induction xs arbitrary: ps) (auto simp: list_all2_Cons1 split: option.splits)

text \<open>One sequence: texts separated by commas and closed by a bracket determine their items.\<close>

lemma separated_prefix:
  assumes "\<And>x y p q u v. x \<in> set xs \<Longrightarrow> y \<in> set ys \<Longrightarrow> f x = Some p \<Longrightarrow> f y = Some q \<Longrightarrow>
      p @ u = q @ v \<Longrightarrow> closes u \<Longrightarrow> closes v \<Longrightarrow> R x y \<and> u = v"
    and "list_all2 (\<lambda>x p. f x = Some p) xs ps" "list_all2 (\<lambda>y q. f y = Some q) ys qs"
    and "rb = CHR '']'' \<or> rb = CHR ''}''"
    and "concat (map (\<lambda>p. CHR '','' # p) ps) @ rb # u = concat (map (\<lambda>q. CHR '','' # q) qs) @ rb # v"
  shows "list_all2 R xs ys \<and> u = v"
  using assms(1,2,3,5)
proof (induction xs arbitrary: ps ys qs)
  case Nil
  then show ?case using assms(4) by (cases ys) (auto simp: list_all2_Cons1)
next
  case (Cons x xs)
  from Cons.prems(2) obtain p ps' where ps: "ps = p # ps'" "f x = Some p" "list_all2 (\<lambda>x p. f x = Some p) xs ps'"
    by (auto simp: list_all2_Cons1)
  show ?case
  proof (cases ys)
    case Nil
    with Cons.prems ps assms(4) show ?thesis by auto
  next
    case ys: (Cons y ys')
    from Cons.prems(3) ys obtain q qs' where qs: "qs = q # qs'" "f y = Some q" "list_all2 (\<lambda>y q. f y = Some q) ys' qs'"
      by (auto simp: list_all2_Cons1)
    let ?u = "concat (map (\<lambda>p. CHR '','' # p) ps') @ rb # u"
    let ?v = "concat (map (\<lambda>q. CHR '','' # q) qs') @ rb # v"
    have c: "closes ?u" "closes ?v" using assms(4) by ((cases ps', auto)[1], (cases qs', auto)[1])
    have "p @ ?u = q @ ?v" using Cons.prems(4) ps qs by simp
    with Cons.prems(1)[of x y p q ?u ?v] ps qs ys c have r: "R x y" "?u = ?v" by auto
    have "list_all2 R xs ys' \<and> u = v"
    proof (rule Cons.IH[OF _ ps(3) qs(3) r(2)])
      fix x' y' p q u v
      assume e: "x' \<in> set xs" "y' \<in> set ys'" "f x' = Some p" "f y' = Some q" "p @ u = q @ v" "closes u" "closes v"
      show "R x' y' \<and> u = v" by (rule Cons.prems(1)[OF _ _ e(3-7)]) (simp_all add: e(1,2) ys)
    qed
    with r(1) ys show ?thesis by simp
  qed
qed

lemma bracketed_prefix:
  assumes "\<And>x y p q u v. x \<in> set xs \<Longrightarrow> y \<in> set ys \<Longrightarrow> f x = Some p \<Longrightarrow> f y = Some q \<Longrightarrow>
      p @ u = q @ v \<Longrightarrow> closes u \<Longrightarrow> closes v \<Longrightarrow> R x y \<and> u = v"
    and "\<And>x p. f x = Some p \<Longrightarrow> p \<noteq> [] \<and> hd p \<noteq> rb"
    and "those (map f xs) = Some ps" "those (map f ys) = Some qs"
    and "rb = CHR '']'' \<or> rb = CHR ''}''"
    and "bracketed lb rb ps @ u = bracketed lb rb qs @ v"
  shows "list_all2 R xs ys \<and> u = v"
proof -
  have l: "list_all2 (\<lambda>x p. f x = Some p) xs ps" "list_all2 (\<lambda>y q. f y = Some q) ys qs"
    using assms(3,4) by (simp_all add: those_map_Some)
  have eq: "joinWith '','' ps @ rb # u = joinWith '','' qs @ rb # v"
    using assms(6) by (simp add: bracketed_def)
  have first: "joinWith '','' rs @ t \<noteq> rb # t'" if "list_all2 (\<lambda>x p. f x = Some p) zs rs" "zs \<noteq> []" for zs rs t t'
  proof -
    from that obtain z p rs' where "rs = p # rs'" "f z = Some p" by (cases zs) (auto simp: list_all2_Cons1)
    then show ?thesis using assms(2)[of z p] by (cases p) (auto simp: joinWith_Cons)
  qed
  show ?thesis
  proof (cases "xs = [] \<or> ys = []")
    case True
    have "xs = [] \<and> ys = []"
    proof (cases "xs = []")
      case xs: True
      with l(1) eq have "joinWith '','' qs @ rb # v = rb # u" by simp
      with first[OF l(2)] xs show ?thesis by blast
    next
      case xs: False
      with True l(2) have "qs = []" by auto
      with eq have "joinWith '','' ps @ rb # u = rb # v" by simp
      with first[OF l(1) xs] show ?thesis by blast
    qed
    with l eq show ?thesis by simp
  next
    case False
    then obtain x xs' y ys' where xy: "xs = x # xs'" "ys = y # ys'" by (meson neq_Nil_conv)
    with l have n: "ps \<noteq> []" "qs \<noteq> []" by auto
    then have "concat (map (\<lambda>p. CHR '','' # p) ps) = CHR '','' # joinWith '','' ps"
      "concat (map (\<lambda>p. CHR '','' # p) qs) = CHR '','' # joinWith '','' qs"
      by (auto simp: neq_Nil_conv joinWith_Cons)
    with eq separated_prefix[OF assms(1) l assms(5), where u = u and v = v] show ?thesis by simp
  qed
qed

lemma map_fst_sort_key: "map fst (sort_key (\<lambda>p. key (fst p)) l) = sort_key key (map fst l)"
proof -
  have step: "map fst (insort_key (\<lambda>p. key (fst p)) x xs) = insort_key key (fst x) (map fst xs)" for x and xs
    by (induction xs) auto
  show ?thesis by (induction l) (simp_all add: step)
qed

lemma those_map_eq:
  assumes "list_all2 (\<lambda>x y. \<forall>p q. f x = Some p \<longrightarrow> f y = Some q \<longrightarrow> p = q) xs ys"
    and "those (map f xs) = Some ps" "those (map f ys) = Some qs"
  shows "ps = qs"
  using assms unfolding those_map_Some
  by (induction xs ys arbitrary: ps qs rule: list_all2_induct) (auto simp: list_all2_Cons1)

subsection \<open>The contract\<close>

locale canonical_writer =
  fixes w :: "json \<Rightarrow> string option" and quote :: "string \<Rightarrow> string option" and key :: "string \<Rightarrow> 'k::linorder"
  assumes quote_prefix: "quote s = Some a \<Longrightarrow> quote t = Some b \<Longrightarrow> a @ u = b @ v \<Longrightarrow> s = t \<and> u = v"
    and quote_head: "quote s = Some a \<Longrightarrow> a \<noteq> [] \<and> hd a = CHR 0x22"
    and key_inject: "quote s = Some a \<Longrightarrow> quote t = Some b \<Longrightarrow> key s = key t \<Longrightarrow> s = t"
    and leaf_prefix: "isLeaf x \<Longrightarrow> isLeaf y \<Longrightarrow> w x = Some a \<Longrightarrow> w y = Some b \<Longrightarrow> a @ u = b @ v \<Longrightarrow>
      closes u \<Longrightarrow> closes v \<Longrightarrow> jsonEqual x y \<and> u = v"
    and leaf_head: "isLeaf x \<Longrightarrow> w x = Some a \<Longrightarrow> a \<noteq> [] \<and> hd a \<noteq> CHR ''['' \<and> hd a \<noteq> CHR ''{'' \<and>
      hd a \<noteq> CHR '']'' \<and> hd a \<noteq> CHR ''}''"
    and leaf_equal: "isLeaf x \<Longrightarrow> isLeaf y \<Longrightarrow> jsonEqual x y \<Longrightarrow> w x = Some a \<Longrightarrow> w y = Some b \<Longrightarrow> a = b"
    and w_array: "w (JArray xs) = map_option (bracketed (CHR ''['') (CHR '']'')) (those (map w xs))"
    and w_object: "w (JObject m) = map_option (bracketed (CHR ''{'') (CHR ''}''))
      (those (map (memberText quote w) (sort_key (\<lambda>p. key (fst p)) m)))"
begin

lemma w_head: "w x = Some a \<Longrightarrow> a \<noteq> [] \<and> hd a \<noteq> CHR '']''"
  using leaf_head[of x a] by (cases x) (auto simp: isLeaf_def w_array w_object bracketed_def)

lemma w_kind:
  assumes "w x = Some a" "w y = Some b" "a @ u = b @ v"
  shows "isLeaf x \<and> isLeaf y \<or> (\<exists>xs ys. x = JArray xs \<and> y = JArray ys) \<or> (\<exists>m n. x = JObject m \<and> y = JObject n)"
proof -
  have h: "hd a = hd b" using assms w_head[OF assms(1)] w_head[OF assms(2)] by (metis hd_append2)
  have k: "isLeaf z \<and> hd c \<noteq> CHR ''['' \<and> hd c \<noteq> CHR ''{'' \<or> (\<exists>xs. z = JArray xs) \<and> hd c = CHR ''[''
      \<or> (\<exists>m. z = JObject m) \<and> hd c = CHR ''{''" if "w z = Some c" for z c
    using that leaf_head[of z c] by (cases z) (auto simp: isLeaf_def w_array w_object bracketed_def)
  show ?thesis using k[OF assms(1)] k[OF assms(2)] h by auto
qed

lemma member_prefix:
  assumes "memberText quote w p = Some a" "memberText quote w q = Some b" "a @ u = b @ v" "closes u" "closes v"
    and "\<And>c d. w (snd p) = Some c \<Longrightarrow> w (snd q) = Some d \<Longrightarrow> c @ u = d @ v \<Longrightarrow> jsonEqual (snd p) (snd q) \<and> u = v"
  shows "(fst p = fst q \<and> jsonEqual (snd p) (snd q)) \<and> u = v"
proof -
  obtain n c where p: "quote (fst p) = Some n" "w (snd p) = Some c" "a = n @ CHR '':'' # c"
    using assms(1) by (auto simp: memberText_Some)
  obtain l d where q: "quote (fst q) = Some l" "w (snd q) = Some d" "b = l @ CHR '':'' # d"
    using assms(2) by (auto simp: memberText_Some)
  have "n @ (CHR '':'' # c @ u) = l @ (CHR '':'' # d @ v)" using assms(3) p(3) q(3) by simp
  from quote_prefix[OF p(1) q(1) this] have "fst p = fst q" "c @ u = d @ v" by auto
  with assms(6)[OF p(2) q(2)] show ?thesis by simp
qed

lemma jsonEqual_object:
  assumes "list_all2 (\<lambda>p q. fst p = fst q \<and> jsonEqual (snd p) (snd q)) l r"
    "set l = set m" "length l = length m" "set r = set n" "length r = length n" "distinct (map fst n)"
  shows "jsonEqual (JObject m) (JObject n)"
proof -
  have "\<exists>w. map_of n (fst p) = Some w \<and> jsonEqual (snd p) w" if "p \<in> set m" for p
  proof -
    have "p \<in> set l" using that assms(2) by simp
    with assms(1) obtain q where q: "q \<in> set r" "fst p = fst q" "jsonEqual (snd p) (snd q)"
      by (auto dest: list_all2_member)
    then have "(fst p, snd q) \<in> set n" using assms(4) q(1,2) by simp
    then have "map_of n (fst p) = Some (snd q)" using assms(6) by simp
    then show ?thesis using q(3) by simp
  qed
  moreover have "length m = length n" using assms(1,3,5) by (auto dest: list_all2_lengthD)
  ultimately show ?thesis by (fastforce simp: list_all_iff split: option.splits)
qed

text \<open>A text determines its value, also when it is followed by more.\<close>

lemma w_prefix:
  assumes "jsonWf x" "jsonWf y" "w x = Some a" "w y = Some b" "a @ u = b @ v" "closes u" "closes v"
  shows "jsonEqual x y \<and> u = v"
  using assms
proof (induction x arbitrary: y a b u v rule: measure_induct_rule[of size])
  case (less x)
  from w_kind[OF less.prems(3-5)]
  consider "isLeaf x" "isLeaf y" | xs ys where "x = JArray xs" "y = JArray ys" | m n where "x = JObject m" "y = JObject n"
    by blast
  then show ?case
  proof cases
    case 1
    then show ?thesis using leaf_prefix less.prems by blast
  next
    case 2
    from less.prems(3,4) 2 obtain ps qs where pq: "those (map w xs) = Some ps" "those (map w ys) = Some qs"
      "a = bracketed (CHR ''['') (CHR '']'') ps" "b = bracketed (CHR ''['') (CHR '']'') qs"
      by (auto simp: w_array)
    have "list_all2 jsonEqual xs ys \<and> u = v"
    proof (rule bracketed_prefix[OF _ w_head pq(1,2) disjI1[OF refl] less.prems(5)[unfolded pq(3,4)]])
      fix x' y' p q u v
      assume e: "x' \<in> set xs" "y' \<in> set ys" "w x' = Some p" "w y' = Some q" "p @ u = q @ v" "closes u" "closes v"
      show "jsonEqual x' y' \<and> u = v"
        by (rule less.IH[OF _ _ _ e(3-7)])
           (use 2 e(1,2) less.prems(1,2) size_element_lt[OF e(1)] in \<open>auto simp: list_all_iff\<close>)
    qed
    then show ?thesis using 2 by (auto simp: list_all2_iff list_all_iff)
  next
    case 3
    let ?m = "sort_key (\<lambda>p. key (fst p)) m" and ?n = "sort_key (\<lambda>p. key (fst p)) n"
    let ?R = "\<lambda>p q. fst p = fst q \<and> jsonEqual (snd p) (snd q)"
    from less.prems(3,4) 3 obtain ps qs where pq: "those (map (memberText quote w) ?m) = Some ps"
      "those (map (memberText quote w) ?n) = Some qs"
      "a = bracketed (CHR ''{'') (CHR ''}'') ps" "b = bracketed (CHR ''{'') (CHR ''}'') qs"
      by (auto simp: w_object)
    have "list_all2 ?R ?m ?n \<and> u = v"
    proof (rule bracketed_prefix[OF _ _ pq(1,2) disjI2[OF refl] less.prems(5)[unfolded pq(3,4)]])
      fix p c assume "memberText quote w p = Some c"
      then show "c \<noteq> [] \<and> hd c \<noteq> CHR ''}''" by (auto simp: memberText_Some hd_append dest: quote_head)
    next
      fix p q c d u v
      assume e: "p \<in> set ?m" "q \<in> set ?n" "memberText quote w p = Some c" "memberText quote w q = Some d"
        "c @ u = d @ v" "closes u" "closes v"
      have s: "size (snd p) < size (JObject m)" using e(1) by (metis prod.collapse set_sort size_member_lt)
      show "?R p q \<and> u = v"
      proof (rule member_prefix[OF e(3-7)])
        fix c' d' assume f: "w (snd p) = Some c'" "w (snd q) = Some d'" "c' @ u = d' @ v"
        show "jsonEqual (snd p) (snd q) \<and> u = v"
          by (rule less.IH[OF _ _ _ f e(6,7)]) (use 3 e(1,2) less.prems(1,2) s in \<open>auto simp: list_all_iff\<close>)
      qed
    qed
    then show ?thesis using 3 less.prems(2) jsonEqual_object[of ?m ?n m n] by auto
  qed
qed

text \<open>Equal values have equal texts.\<close>

lemma sorted_names:
  assumes "distinct (map fst m)" "distinct (map fst n)" "fst ` set m = fst ` set n"
    "\<And>s. s \<in> fst ` set m \<Longrightarrow> quote s \<noteq> None"
  shows "map fst (sort_key (\<lambda>p. key (fst p)) m) = map fst (sort_key (\<lambda>p. key (fst p)) n)"
proof -
  have inj: "inj_on key (fst ` set m)" using assms(4) key_inject by (fastforce simp: inj_on_def)
  show ?thesis unfolding map_fst_sort_key
    using inj assms(1-3) by (intro map_sorted_distinct_set_unique[of key]) (auto simp: distinct_map)
qed

lemma those_member_names:
  assumes "those (map (memberText quote w) (sort_key (\<lambda>p. key (fst p)) m)) = Some ps" "p \<in> set m"
  shows "quote (fst p) \<noteq> None \<and> w (snd p) \<noteq> None"
proof -
  have "p \<in> set (sort_key (\<lambda>p. key (fst p)) m)" using assms(2) by simp
  with assms(1) obtain t where "memberText quote w p = Some t"
    unfolding those_map_Some by (auto dest: list_all2_member)
  then show ?thesis by (auto simp: memberText_Some)
qed

lemma w_equal:
  assumes "jsonWf x" "jsonWf y" "w x = Some a" "w y = Some b" "jsonEqual x y"
  shows "a = b"
  using assms
proof (induction x arbitrary: y a b rule: measure_induct_rule[of size])
  case (less x)
  consider (leaf) "isLeaf x" | (array) xs where "x = JArray xs" | (object) m where "x = JObject m"
    by (cases x) (auto simp: isLeaf_def)
  then show ?case
  proof cases
    case leaf
    then have "isLeaf y" using less.prems(5) by (cases x; cases y) (simp_all add: isLeaf_def)
    with leaf leaf_equal less.prems show ?thesis by blast
  next
    case array
    note JArray = this
    with less.prems(5) obtain ys where y: "y = JArray ys" "list_all2 jsonEqual xs ys"
      by (cases y) (auto simp: list_all2_iff list_all_iff split_beta)
    have "list_all2 (\<lambda>x y. \<forall>p q. w x = Some p \<longrightarrow> w y = Some q \<longrightarrow> p = q) xs ys"
    proof (rule list_all2I, rule ballI, clarify)
      fix x' y' p q assume z: "(x', y') \<in> set (zip xs ys)" and e: "w x' = Some p" "w y' = Some q"
      have m: "x' \<in> set xs" "y' \<in> set ys" using z by (meson set_zip_leftD set_zip_rightD)+
      show "p = q"
        by (rule less.IH[OF _ _ _ e])
           (use m z y less.prems(1,2) JArray size_element_lt[OF m(1)] in \<open>auto simp: list_all_iff list_all2_iff\<close>)
    qed (use y in \<open>simp add: list_all2_lengthD\<close>)
    moreover obtain ps qs where "those (map w xs) = Some ps" "those (map w ys) = Some qs"
      "a = bracketed (CHR ''['') (CHR '']'') ps" "b = bracketed (CHR ''['') (CHR '']'') qs"
      using less.prems(3,4) JArray y by (auto simp: w_array)
    ultimately show ?thesis using those_map_eq[of w xs ys ps qs] by simp
  next
    case object
    note JObject = this
    with less.prems(5) obtain n where y: "y = JObject n" by (cases y) auto
    let ?m = "sort_key (\<lambda>p. key (fst p)) m" and ?n = "sort_key (\<lambda>p. key (fst p)) n"
    from less.prems(3,4) JObject y obtain ps qs where pq: "those (map (memberText quote w) ?m) = Some ps"
      "those (map (memberText quote w) ?n) = Some qs"
      "a = bracketed (CHR ''{'') (CHR ''}'') ps" "b = bracketed (CHR ''{'') (CHR ''}'') qs"
      by (auto simp: w_object)
    have d: "distinct (map fst m)" "distinct (map fst n)" using less.prems(1,2) JObject y by auto
    have len: "length m = length n" using less.prems(5) JObject y by simp
    have eq: "\<exists>v. (fst p, v) \<in> set n \<and> jsonEqual (snd p) v" if "p \<in> set m" for p
    proof -
      from less.prems(5) that obtain v where "map_of n (fst p) = Some v" "jsonEqual (snd p) v"
        unfolding JObject y by (auto simp: list_all_iff split: option.splits)
      then show ?thesis by (auto dest: map_of_SomeD)
    qed
    have "fst ` set m \<subseteq> fst ` set n" using eq by force
    moreover have "card (fst ` set m) = card (fst ` set n)"
      using d len distinct_card[of "map fst m"] distinct_card[of "map fst n"] by simp
    ultimately have names: "fst ` set m = fst ` set n" by (simp add: card_subset_eq)
    have srt: "map fst ?m = map fst ?n"
      by (rule sorted_names[OF d names]) (use those_member_names[OF pq(1)] in auto)
    have "list_all2 (\<lambda>p q. \<forall>c d. memberText quote w p = Some c \<longrightarrow> memberText quote w q = Some d \<longrightarrow> c = d) ?m ?n"
    proof (rule list_all2I, rule ballI, clarify)
      fix k v k' v' c d'
      assume z: "((k, v), (k', v')) \<in> set (zip ?m ?n)" and e: "memberText quote w (k, v) = Some c"
        "memberText quote w (k', v') = Some d'"
      have m: "(k, v) \<in> set m" "(k', v') \<in> set n" using z by (metis set_sort set_zip_leftD, metis set_sort set_zip_rightD)
      obtain i where i: "i < length ?m" "i < length ?n" "?m ! i = (k, v)" "?n ! i = (k', v')"
        using z by (auto simp: set_zip)
      have k: "k' = k" using arg_cong[OF srt, of "\<lambda>l. l ! i"] i by simp
      have j: "jsonEqual v v'"
        using eq[OF m(1)] m(2) d(2) k by (metis eq_key_imp_eq_value fst_conv snd_conv)
      obtain name t t' where t: "quote k = Some name" "w v = Some t" "w v' = Some t'"
        "c = name @ CHR '':'' # t" "d' = name @ CHR '':'' # t'" using e k by (auto simp: memberText_Some)
      have "t = t'"
        by (rule less.IH[OF _ _ _ t(2,3) j])
           (use m less.prems(1,2) JObject y size_member_lt[OF m(1)] in \<open>auto simp: list_all_iff\<close>)
      with t show "c = d'" by simp
    qed (use len in simp)
    from those_map_eq[OF this pq(1,2)] pq(3,4) show ?thesis by simp
  qed
qed

lemma w_identity:
  assumes "jsonWf x" "jsonWf y" "w x = Some a" "w y = Some b"
  shows "a = b \<longleftrightarrow> jsonEqual x y"
  using w_prefix[OF assms, of "[]" "[]"] w_equal[OF assms] by auto

end

end
