(* ===== verification/Jcs.thy ===== *)
theory Jcs
  imports Canonical_Writer Utf8
begin

section \<open>RFC 8785 over the value space of a disposition (\<open>internal/jcs\<close>)\<close>

text \<open>
  \<open>jcs.Encode\<close> writes objects, arrays, strings and Booleans; a number or a null is refused. The
  builder is the text returned; the error is \<open>None\<close>, since which of the two errors it is makes no
  difference to any caller.
\<close>

definition hexDigit :: "nat \<Rightarrow> char" where
  "hexDigit n = (if n < 10 then digitChar n else char_of (87 + n))"

definition backslash :: char where "backslash = CHR 0x5C"

definition quoteMark :: char where "quoteMark = CHR 0x22"

text \<open>The switch of \<open>writeString\<close> on one rune.\<close>

definition escapedJcs :: "nat \<Rightarrow> string" where
  "escapedJcs r =
     (if r = 34 then [backslash, quoteMark]
      else if r = 92 then [backslash, backslash]
      else if r = 8 then [backslash, CHR ''b'']
      else if r = 9 then [backslash, CHR ''t'']
      else if r = 10 then [backslash, CHR ''n'']
      else if r = 12 then [backslash, CHR ''f'']
      else if r = 13 then [backslash, CHR ''r'']
      else if r < 32 then [backslash, CHR ''u'', CHR ''0'', CHR ''0'', hexDigit (r div 16), hexDigit (r mod 16)]
      else encodeRune r)"

definition writeString :: "string \<Rightarrow> string option" where
  "writeString value =
     (if \<not> validUtf8 value then None
      else Some (quoteMark # concat (map escapedJcs (runes value)) @ [quoteMark]))"

text \<open>\<open>compareUTF16\<close> orders by the UTF-16 code units, so sorting with it is sorting by them.\<close>

definition compareUTF16 :: "string \<Rightarrow> string \<Rightarrow> int" where
  "compareUTF16 l r = (if utf16Units l < utf16Units r then - 1 else if utf16Units l = utf16Units r then 0 else 1)"

function writeJcs :: "json \<Rightarrow> string option" where
  "writeJcs (JString s) = writeString s"
| "writeJcs (JBool b) = Some (if b then ''true'' else ''false'')"
| "writeJcs (JArray xs) = map_option (bracketed (CHR ''['') (CHR '']'')) (those (map writeJcs xs))"
| "writeJcs (JObject m) =
     map_option (bracketed (CHR ''{'') (CHR ''}''))
       (those (map (memberText writeString writeJcs) (sort_key (\<lambda>p. utf16Units (fst p)) m)))"
| "writeJcs JNull = None"
| "writeJcs (JNumber t) = None"
  by pat_completeness auto
termination
  by (relation "measure size") (auto dest: size_element_lt size_member_lt)

definition Encode :: "json \<Rightarrow> string option" where
  "Encode value = writeJcs value"

text \<open>The comparison the code sorts with agrees with the key the model sorts by.\<close>

lemma compareUTF16_sorts: "compareUTF16 l r \<le> 0 \<longleftrightarrow> utf16Units l \<le> utf16Units r"
  by (auto simp: compareUTF16_def)

subsection \<open>Quoting\<close>

text \<open>An escape is recognised by what it starts with: a backslash, or the first byte of a rune that
  is none of the escaped ones.\<close>

definition escapedRunes :: "nat list" where
  "escapedRunes = 34 # 92 # [0..<32]"

lemma escapedRunes_iff: "r \<in> set escapedRunes \<longleftrightarrow> r = 34 \<or> r = 92 \<or> r < 32"
  by (simp add: escapedRunes_def)

lemma escapedJcs_plain: "scalar r \<Longrightarrow> r \<notin> set escapedRunes \<Longrightarrow> escapedJcs r = encodeScalar r"
  by (simp add: escapedRunes_iff escapedJcs_def encodeRune_def)

lemma incompatible: "take (length q) p \<noteq> take (length p) q \<Longrightarrow> p @ x \<noteq> q @ y"
proof
  assume d: "take (length q) p \<noteq> take (length p) q" and e: "p @ x = q @ y"
  have "take (min (length p) (length q)) (p @ x) = take (min (length p) (length q)) (q @ y)" using e by simp
  then have "take (length q) p = take (length p) q"
    by (simp add: min_def split: if_splits)
  with d show False by simp
qed

text \<open>Two texts for the escaped runes never agree on their common length.\<close>

fun apart :: "string list \<Rightarrow> bool" where
  "apart [] = True"
| "apart (p # ps) = (list_all (\<lambda>q. take (length q) p \<noteq> take (length p) q) ps \<and> apart ps)"

definition discriminates :: "nat list \<Rightarrow> (nat \<Rightarrow> string) \<Rightarrow> bool" where
  "discriminates E esc \<longleftrightarrow> {34, 92} \<subseteq> set E \<and>
     list_all (\<lambda>p. p \<noteq> [] \<and> hd p = backslash) (map esc E) \<and> apart (map esc E)"

lemma apart_map:
  "apart (map f xs) \<Longrightarrow> x \<in> set xs \<Longrightarrow> y \<in> set xs \<Longrightarrow> f x @ u = f y @ v \<Longrightarrow> x = y"
proof (induction xs)
  case (Cons z zs)
  have "x = z \<and> y \<in> set zs \<or> y = z \<and> x \<in> set zs \<or> x = y \<or> x \<in> set zs \<and> y \<in> set zs"
    using Cons.prems by auto
  then show ?case
    using Cons incompatible[of "f y" "f x" u v] incompatible[of "f x" "f y" v u]
    by (auto simp: list_all_iff)
qed simp

lemma encodeScalar_first:
  assumes "scalar r" "encodeScalar r @ x = c # y" "byteOf c < 128"
  shows "r = byteOf c"
  using decodeRune_encodeScalar[OF assms(1), of x] assms(2,3) by (simp add: decodeRune_def)

lemma escaped_prefix:
  assumes "discriminates E esc" "\<And>r. scalar r \<Longrightarrow> r \<notin> set E \<Longrightarrow> esc r = encodeScalar r"
    and "scalar r \<or> r \<in> set E" "scalar q \<or> q \<in> set E" "esc r @ x = esc q @ y"
  shows "r = q \<and> x = y"
proof -
  have b: "byteOf backslash = 92" by (simp add: backslash_def)
  have esc: "\<exists>t. esc s = backslash # t" if "s \<in> set E" for s
    using assms(1) that by (cases "esc s") (auto simp: discriminates_def list_all_iff)
  have mixed: False if "s \<in> set E" "t \<notin> set E" "scalar t" "encodeScalar t @ u = esc s @ v" for s t u v
  proof -
    from esc[OF that(1)] that(4) obtain w where "encodeScalar t @ u = backslash # w" by auto
    from encodeScalar_first[OF that(3) this] b have "t = 92" by simp
    with that(2) assms(1) show False by (simp add: discriminates_def)
  qed
  show ?thesis
  proof (cases "r \<in> set E"; cases "q \<in> set E")
    assume "r \<in> set E" "q \<in> set E"
    with assms(1,5) have "r = q" by (auto simp: discriminates_def dest: apart_map)
    with assms(5) show ?thesis by simp
  next
    assume "r \<notin> set E" "q \<notin> set E"
    with assms have s: "scalar r" "scalar q" and e: "encodeScalar r @ x = encodeScalar q @ y" by auto
    then have "r = q" using decodeRune_encodeScalar[OF s(1), of x] decodeRune_encodeScalar[OF s(2), of y] by simp
    with e show ?thesis by simp
  qed (use mixed assms in \<open>metis\<close>)+
qed

lemma escaped_not_quote:
  assumes "discriminates E esc" "\<And>r. scalar r \<Longrightarrow> r \<notin> set E \<Longrightarrow> esc r = encodeScalar r"
    and "scalar r \<or> r \<in> set E"
  shows "esc r @ x \<noteq> quoteMark # y"
proof (cases "r \<in> set E")
  case True
  with assms(1) have "hd (esc r) = backslash \<and> esc r \<noteq> []" by (auto simp: discriminates_def list_all_iff)
  then show ?thesis by (cases "esc r") (auto simp: backslash_def quoteMark_def)
next
  case False
  show ?thesis
  proof
    assume "esc r @ x = quoteMark # y"
    with False assms(2,3) have s: "scalar r" and "encodeScalar r @ x = quoteMark # y" by auto
    from encodeScalar_first[OF this] False assms(1) show False by (simp add: quoteMark_def discriminates_def)
  qed
qed

text \<open>So a quoted text ends where its closing mark is, whatever follows.\<close>

lemma quoted_prefix:
  assumes "discriminates E esc" "\<And>r. scalar r \<Longrightarrow> r \<notin> set E \<Longrightarrow> esc r = encodeScalar r"
    and "\<forall>r \<in> set rs \<union> set qs. scalar r \<or> r \<in> set E"
    and "concat (map esc rs) @ quoteMark # x = concat (map esc qs) @ quoteMark # y"
  shows "rs = qs \<and> x = y"
  using assms(3,4)
proof (induction rs arbitrary: qs)
  case Nil
  then show ?case using escaped_not_quote[OF assms(1,2)] by (cases qs) (auto, metis+)
next
  case (Cons r rs)
  show ?case
  proof (cases qs)
    case Nil
    with Cons.prems escaped_not_quote[OF assms(1,2), of r] show ?thesis by auto
  next
    case (Cons q qs')
    with Cons.prems escaped_prefix[OF assms(1,2), of r q] Cons.IH[of qs'] show ?thesis by auto
  qed
qed

lemma escapedRunes_list:
  "escapedRunes = [34, 92, 0, 1, 2, 3, 4, 5, 6, 7, 8, 9, 10, 11, 12, 13, 14, 15, 16, 17, 18, 19, 20, 21, 22,
     23, 24, 25, 26, 27, 28, 29, 30, 31]"
  by (simp add: escapedRunes_def upt_rec)

lemma discriminates_escapedJcs: "discriminates escapedRunes escapedJcs"
  by (simp add: discriminates_def escapedRunes_list escapedJcs_def backslash_def quoteMark_def hexDigit_def
      digitChar_def)

lemma writeString_prefix:
  assumes "writeString s = Some a" "writeString t = Some b" "a @ u = b @ v"
  shows "s = t \<and> u = v"
proof -
  have v: "validUtf8 s" "validUtf8 t" using assms(1,2) by (auto simp: writeString_def split: if_splits)
  have "runes s = runes t \<and> u = v"
    by (rule quoted_prefix[OF discriminates_escapedJcs escapedJcs_plain])
       (use assms v runes_scalar in \<open>auto simp: writeString_def list_all_iff\<close>)
  with runes_inject[OF v] show ?thesis by simp
qed

lemma writeString_head: "writeString s = Some a \<Longrightarrow> \<exists>t. a = quoteMark # t"
  by (auto simp: writeString_def split: if_splits)

text \<open>The scalars of the value space: strings and Booleans.\<close>

lemma writeJcs_leaf:
  assumes "isLeaf x" "writeJcs x = Some a"
  obtains s where "x = JString s" "writeString s = Some a" | b where "x = JBool b" "a = (if b then ''true'' else ''false'')"
  using assms by (cases x) (auto simp: isLeaf_def)

lemma writeJcs_leaf_prefix:
  assumes "isLeaf x" "isLeaf y" "writeJcs x = Some a" "writeJcs y = Some b" "a @ u = b @ v"
  shows "jsonEqual x y \<and> u = v"
proof (rule writeJcs_leaf[OF assms(1,3)]; rule writeJcs_leaf[OF assms(2,4)])
  fix s t assume "x = JString s" "writeString s = Some a" "y = JString t" "writeString t = Some b"
  with writeString_prefix[OF _ _ assms(5)] show ?thesis by auto
next
  fix s c assume e: "x = JString s" "writeString s = Some a" "y = JBool c" "b = (if c then ''true'' else ''false'')"
  with writeString_head[of s a] assms(5) show ?thesis by (auto simp: quoteMark_def split: if_splits)
next
  fix t c assume e: "x = JBool c" "a = (if c then ''true'' else ''false'')" "y = JString t" "writeString t = Some b"
  with writeString_head[of t b] assms(5) show ?thesis by (auto simp: quoteMark_def split: if_splits)
next
  fix c d assume "x = JBool c" "a = (if c then ''true'' else ''false'')" "y = JBool d" "b = (if d then ''true'' else ''false'')"
  with assms(5) show ?thesis by (simp split: if_splits)
qed

interpretation jcs: canonical_writer writeJcs writeString utf16Units
proof
  fix s t :: string and a b u v
  assume q: "writeString s = Some a" "writeString t = Some b"
  show "a @ u = b @ v \<Longrightarrow> s = t \<and> u = v" by (rule writeString_prefix[OF q])
  show "utf16Units s = utf16Units t \<Longrightarrow> s = t"
    using q utf16Units_inject[of s t] by (auto simp: writeString_def split: if_splits)
  show "a \<noteq> [] \<and> hd a = CHR 0x22" using q(1) by (auto simp: writeString_def quoteMark_def split: if_splits)
next
  fix x y :: json and a b u v
  assume l: "isLeaf x" "isLeaf y" and w: "writeJcs x = Some a" "writeJcs y = Some b"
  show "jsonEqual x y \<and> u = v" if "a @ u = b @ v" "closes u" "closes v"
    using writeJcs_leaf_prefix[OF l w that(1)] .
  show "a = b" if "jsonEqual x y"
    using l w that by (cases x; cases y) (auto simp: isLeaf_def)
  show "a \<noteq> [] \<and> hd a \<noteq> CHR ''['' \<and> hd a \<noteq> CHR ''{'' \<and> hd a \<noteq> CHR '']'' \<and> hd a \<noteq> CHR ''}''"
    using l(1) w(1) by (cases x) (auto simp: isLeaf_def writeString_def quoteMark_def split: if_splits)
qed simp_all

subsection \<open>Properties\<close>

text \<open>The value space: strings of Unicode scalar values, Booleans, and what is built of them.\<close>

fun encodable :: "json \<Rightarrow> bool" where
  "encodable (JString s) = validUtf8 s"
| "encodable (JBool b) = True"
| "encodable (JArray xs) = list_all encodable xs"
| "encodable (JObject m) = list_all (\<lambda>p. validUtf8 (fst p) \<and> encodable (snd p)) m"
| "encodable _ = False"

lemma those_map_defined: "those (map f xs) \<noteq> None \<longleftrightarrow> list_all (\<lambda>x. f x \<noteq> None) xs"
  by (induction xs) (auto split: option.splits)

lemma memberText_defined: "memberText quote w p \<noteq> None \<longleftrightarrow> quote (fst p) \<noteq> None \<and> w (snd p) \<noteq> None"
  by (auto simp: memberText_def split: option.splits)

lemma writeJcs_defined: "writeJcs v \<noteq> None \<longleftrightarrow> encodable v"
proof (induction v rule: encodable.induct)
  case (3 xs)
  have "writeJcs (JArray xs) \<noteq> None \<longleftrightarrow> list_all (\<lambda>x. writeJcs x \<noteq> None) xs"
    using those_map_defined[of writeJcs xs] by simp
  with 3 show ?case by (simp add: list_all_iff)
next
  case (4 m)
  have "writeJcs (JObject m) \<noteq> None \<longleftrightarrow>
      list_all (\<lambda>p. memberText writeString writeJcs p \<noteq> None) (sort_key (\<lambda>p. utf16Units (fst p)) m)"
    using those_map_defined[of "memberText writeString writeJcs" "sort_key (\<lambda>p. utf16Units (fst p)) m"] by simp
  with 4 show ?case unfolding memberText_defined by (auto simp: list_all_iff writeString_def)
qed (simp_all add: writeString_def)

text \<open>C34: the encoder is total on its value space and only there, and its output identifies the value:
  two encodings are the same bytes exactly when the values are equal, in particular whatever order
  a map is walked in.\<close>

theorem Encode_canonical:
  assumes "jsonWf v" "jsonWf w"
  shows "(Encode v \<noteq> None \<longleftrightarrow> encodable v) \<and>
    (\<forall>s t. Encode v = Some s \<longrightarrow> Encode w = Some t \<longrightarrow> (s = t \<longleftrightarrow> jsonEqual v w))"
  using jcs.w_identity[OF assms] writeJcs_defined[of v] by (auto simp: Encode_def)

theorem Encode_canonical_witness:
  "Encode (JObject [(''b'', JBool True), (''a'', JString ''x'')]) = Encode (JObject [(''a'', JString ''x''), (''b'', JBool True)])"
proof -
  let ?v = "JObject [(''b'', JBool True), (''a'', JString ''x'')]" and ?w = "JObject [(''a'', JString ''x''), (''b'', JBool True)]"
  have u: "validUtf8 ''a''" "validUtf8 ''b''" "validUtf8 ''x''" by (simp_all add: validUtf8_ascii_Cons)
  have wf: "jsonWf ?v" "jsonWf ?w" by simp_all
  have e: "jsonEqual ?v ?w" by code_simp
  have "encodable ?v" "encodable ?w" by (simp_all add: u)
  then obtain s t where st: "Encode ?v = Some s" "Encode ?w = Some t"
    using conjunct1[OF Encode_canonical[OF wf]] conjunct1[OF Encode_canonical[OF wf(2,1)]] by blast
  have "s = t \<longleftrightarrow> jsonEqual ?v ?w" using conjunct2[OF Encode_canonical[OF wf]] st by blast
  with st e show ?thesis by simp
qed

end
