(* ===== verification/Jps_Canon.thy ===== *)
theory Jps_Canon
  imports Jcs Pointer
begin

section \<open>The canon form of dialects and checkpoint witnesses (\<open>internal/jpscanon\<close>)\<close>

text \<open>
  \<open>Write\<close> returns the location of the first number it does not admit, in member order, or the
  text. The builder is the text; what a failed call has already written is not kept by any caller.
\<close>

definition maxInteger :: int where
  "maxInteger = 9007199254740991"

text \<open>\<open>strconv.ParseInt(literal, 10, 64)\<close>.\<close>

definition parseInt64 :: "string \<Rightarrow> int option" where
  "parseInt64 s =
     (case parseBigInt s of None \<Rightarrow> None
      | Some n \<Rightarrow> if - 9223372036854775808 \<le> n \<and> n \<le> 9223372036854775807 then Some n else None)"

text \<open>The \<open>json.Number\<close> case: the integer written, or nothing.\<close>

definition canonInteger :: "string \<Rightarrow> int option" where
  "canonInteger literal =
     (if CHR ''.'' \<in> set literal \<or> CHR ''e'' \<in> set literal \<or> CHR ''E'' \<in> set literal then None
      else case parseInt64 literal of None \<Rightarrow> None
           | Some n \<Rightarrow> if n < - maxInteger \<or> n > maxInteger then None else Some n)"

definition escapedCanon :: "nat \<Rightarrow> string" where
  "escapedCanon r =
     (if r = 34 \<or> r = 92 then backslash # encodeRune r
      else if r = 8 then [backslash, CHR ''b'']
      else if r = 12 then [backslash, CHR ''f'']
      else if r = 10 then [backslash, CHR ''n'']
      else if r = 13 then [backslash, CHR ''r'']
      else if r = 9 then [backslash, CHR ''t'']
      else if r < 32 then [backslash, CHR ''u'', CHR ''0'', CHR ''0'', hexDigit (r div 16), hexDigit (r mod 16)]
      else encodeRune r)"

definition quoteCanon :: "string \<Rightarrow> string" where
  "quoteCanon value = quoteMark # concat (map escapedCanon (runes value)) @ [quoteMark]"

text \<open>The loop over the parts of a container: the first that fails ends it.\<close>

fun firstFailure :: "(string + string) list \<Rightarrow> string + string list" where
  "firstFailure [] = Inr []"
| "firstFailure (Inl p # rest) = Inl p"
| "firstFailure (Inr t # rest) = (case firstFailure rest of Inl p \<Rightarrow> Inl p | Inr ts \<Rightarrow> Inr (t # ts))"

definition enclosed :: "char \<Rightarrow> char \<Rightarrow> string + string list \<Rightarrow> string + string" where
  "enclosed lb rb = map_sum id (bracketed lb rb)"

definition child :: "string list \<Rightarrow> string \<Rightarrow> string list" where
  "child path key = path @ [key]"

function writeCanon :: "string list \<Rightarrow> json \<Rightarrow> string + string" where
  "writeCanon path JNull = Inr ''null''"
| "writeCanon path (JBool b) = Inr (if b then ''true'' else ''false'')"
| "writeCanon path (JString s) = Inr (quoteCanon s)"
| "writeCanon path (JNumber literal) =
     (case canonInteger literal of None \<Rightarrow> Inl (Pointer path) | Some n \<Rightarrow> Inr (intString n))"
| "writeCanon path (JArray xs) =
     enclosed (CHR ''['') (CHR '']'')
       (firstFailure (map (\<lambda>p. writeCanon (child path (natString (fst p))) (snd p)) (enumerate 0 xs)))"
| "writeCanon path (JObject m) =
     enclosed (CHR ''{'') (CHR ''}'')
       (firstFailure (map (\<lambda>p. map_sum id (\<lambda>t. quoteCanon (fst p) @ CHR '':'' # t)
                                (writeCanon (child path (fst p)) (snd p)))
                          (sort_key fst m)))"
  by pat_completeness auto
termination
proof (relation "measure (\<lambda>(path, v). size v)", goal_cases)
  case (2 path xs p)
  then have "fst p < length xs" "xs ! fst p = snd p" by (simp_all add: in_set_enumerate_eq)
  then have "snd p \<in> set xs" by (metis nth_mem)
  from size_element_lt[OF this] show ?case by simp
next
  case (3 path m p)
  then have "(fst p, snd p) \<in> set m" by simp
  from size_member_lt[OF this] show ?case by simp
qed simp

subsection \<open>The documents it is given\<close>

text \<open>Values must come from \<open>carrier.Decode\<close>: its strings are well-formed UTF-8 and its number
  tokens denote numbers.\<close>

fun carried :: "json \<Rightarrow> bool" where
  "carried (JString s) = validUtf8 s"
| "carried (JNumber t) = (tokenValue t \<noteq> None)"
| "carried (JArray xs) = list_all carried xs"
| "carried (JObject m) = list_all (\<lambda>p. validUtf8 (fst p) \<and> carried (snd p)) m"
| "carried _ = True"

subsection \<open>The writer meets the contract\<close>

lemma escapedCanon_plain: "scalar r \<Longrightarrow> r \<notin> set escapedRunes \<Longrightarrow> escapedCanon r = encodeScalar r"
  by (simp add: escapedRunes_iff escapedCanon_def encodeRune_def)

lemma marks: "encodeRune 34 = [CHR 0x22]" "encodeRune 92 = [CHR 0x5C]"
  using ascii_encode[of "CHR 0x22"] ascii_encode[of "CHR 0x5C"] by (simp_all add: encodeRune_def)

lemma discriminates_escapedCanon: "discriminates escapedRunes escapedCanon"
  by (simp add: discriminates_def escapedRunes_list escapedCanon_def backslash_def quoteMark_def hexDigit_def
      digitChar_def marks)

definition quoteText :: "string \<Rightarrow> string option" where
  "quoteText s = (if validUtf8 s then Some (quoteCanon s) else None)"

definition canonText :: "json \<Rightarrow> string option" where
  "canonText v = (if carried v then (case writeCanon [] v of Inl p \<Rightarrow> None | Inr t \<Rightarrow> Some t) else None)"

lemma quoteText_prefix:
  assumes "quoteText s = Some a" "quoteText t = Some b" "a @ u = b @ v"
  shows "s = t \<and> u = v"
proof -
  have v: "validUtf8 s" "validUtf8 t" using assms(1,2) by (auto simp: quoteText_def split: if_splits)
  have "runes s = runes t \<and> u = v"
    by (rule quoted_prefix[OF discriminates_escapedCanon escapedCanon_plain])
       (use assms v runes_scalar in \<open>auto simp: list_all_iff quoteText_def quoteCanon_def\<close>)
  with runes_inject[OF v] show ?thesis by simp
qed

text \<open>The text does not depend on where the value stands.\<close>

lemma firstFailure_map_Inr [simp]: "firstFailure (map Inr ts) = Inr ts"
  by (induction ts) auto

lemma firstFailure_Inr: "firstFailure rs = Inr ts \<longleftrightarrow> rs = map Inr ts"
proof (induction rs arbitrary: ts)
  case (Cons r rs)
  then show ?case by (cases r) (auto split: sum.splits simp: Cons_eq_map_conv)
qed auto

lemma enclosed_Inr: "enclosed lb rb r = Inr t \<longleftrightarrow> (\<exists>ts. r = Inr ts \<and> t = bracketed lb rb ts)"
  by (cases r) (auto simp: enclosed_def)

lemma map_sum_Inr: "map_sum id g r = Inr t \<longleftrightarrow> (\<exists>x. r = Inr x \<and> t = g x)"
  by (cases r) auto

lemma map_eq_map_Inr: "map f xs = map Inr ts \<longleftrightarrow> list_all2 (\<lambda>x t. f x = Inr t) xs ts"
  by (induction xs arbitrary: ts) (auto simp: list_all2_Cons1 Cons_eq_map_conv)

lemma writeCanon_array:
  "writeCanon path (JArray xs) = Inr t \<longleftrightarrow>
     (\<exists>ts. t = bracketed (CHR ''['') (CHR '']'') ts \<and> length ts = length xs \<and>
        (\<forall>i < length xs. writeCanon (child path (natString i)) (xs ! i) = Inr (ts ! i)))"
  by (simp add: enclosed_Inr firstFailure_Inr map_eq_map_Inr list_all2_conv_all_nth nth_enumerate_eq)
    (rule ex_cong1, auto)

lemma writeCanon_object:
  "writeCanon path (JObject m) = Inr t \<longleftrightarrow>
     (\<exists>ts. t = bracketed (CHR ''{'') (CHR ''}'') ts \<and>
        list_all2 (\<lambda>p t. \<exists>x. writeCanon (child path (fst p)) (snd p) = Inr x \<and> t = quoteCanon (fst p) @ CHR '':'' # x)
          (sort_key fst m) ts)"
  by (auto simp: enclosed_Inr firstFailure_Inr map_eq_map_Inr map_sum_Inr)

lemma writeCanon_path: "writeCanon path v = Inr t \<longleftrightarrow> writeCanon [] v = Inr t"
proof (induction v arbitrary: path t rule: measure_induct_rule[of size])
  case (less v)
  show ?case
  proof (cases v)
    case (JArray xs)
    have "writeCanon p (xs ! i) = Inr t \<longleftrightarrow> writeCanon [] (xs ! i) = Inr t" if "i < length xs" for i p t
      using less[of "xs ! i"] size_element_lt[of "xs ! i" xs] that JArray by simp
    then show ?thesis unfolding JArray writeCanon_array by (metis (lifting))
  next
    case (JObject m)
    have s: "writeCanon q (snd p) = Inr t \<longleftrightarrow> writeCanon [] (snd p) = Inr t" if "p \<in> set m" for p q t
      using less[of "snd p"] size_member_lt[of "fst p" "snd p" m] that JObject by simp
    have "list_all2 (\<lambda>p t. \<exists>x. writeCanon (child path (fst p)) (snd p) = Inr x \<and> t = quoteCanon (fst p) @ CHR '':'' # x)
          (sort_key fst m) ts \<longleftrightarrow>
        list_all2 (\<lambda>p t. \<exists>x. writeCanon (child [] (fst p)) (snd p) = Inr x \<and> t = quoteCanon (fst p) @ CHR '':'' # x)
          (sort_key fst m) ts" for ts
      by (rule list.rel_cong_simp[OF refl refl]) (simp add: simp_implies_def s[of _ "child path _"] s[of _ "child [] _"])
    then show ?thesis unfolding JObject writeCanon_object by simp
  qed (auto split: option.splits)
qed

subsubsection \<open>Integers\<close>

lemma canonInteger_value:
  assumes "canonInteger t = Some n" "tokenValue t \<noteq> None"
  shows "tokenValue t = Some (of_int n)"
proof -
  have c: "CHR ''.'' \<notin> set t" "CHR ''e'' \<notin> set t" "CHR ''E'' \<notin> set t" and n: "parseBigInt t = Some n"
    using assms(1) by (auto simp: canonInteger_def parseInt64_def split: if_splits option.splits)
  define neg where "neg = (t \<noteq> [] \<and> hd t = CHR ''-'')"
  define rest where "rest = (if neg then tl t else t)"
  have sub: "set rest \<subseteq> set t" by (cases t) (auto simp: rest_def)
  then have m: "\<forall>x \<in> set rest. \<not> isExponentMark x" using c by (auto simp: isExponentMark_def)
  have tw: "takeWhile (\<lambda>c. \<not> isExponentMark c) rest = rest" "dropWhile (\<lambda>c. \<not> isExponentMark c) rest = []"
    using m by (simp_all add: takeWhile_eq_all_conv dropWhile_eq_Nil_conv)
  have "CHR ''.'' \<notin> set rest" using sub c(1) by blast
  then have parts: "numberParts t = (neg, rest, [], [])"
    by (simp add: numberParts_def Let_def neg_def[symmetric] rest_def[symmetric] tw cutAt_no_sep)
  have d: "list_all isDigit rest" using assms(2) parts by (auto simp: tokenValue_def split: if_splits)
  have "rest = (if t \<noteq> [] \<and> hd t \<in> {CHR ''-'', CHR ''+''} then tl t else t)"
    using d by (cases t) (auto simp: rest_def neg_def isDigit_iff)
  with n have "n = (if neg then - 1 else 1) * int (digitsVal rest)"
    by (simp add: parseBigInt_def Let_def neg_def split: if_splits)
  with d parts show ?thesis by (simp add: tokenValue_def signOf_def)
qed

text \<open>An integer's text ends where the next character may follow a value.\<close>

lemma intString_chars: "c \<in> set (intString n) \<Longrightarrow> isDigit c \<or> c = CHR ''-''"
  using natString_digits[of "nat n"] natString_digits[of "nat (- n)"]
  by (auto simp: intString_def list_all_iff split: if_splits)

lemma intString_prefix:
  assumes "intString n @ u = intString k @ v" "closes u" "closes v"
  shows "n = k \<and> u = v"
proof -
  let ?P = "\<lambda>c. isDigit c \<or> c = CHR ''-''"
  have t: "takeWhile ?P (intString i @ w) = intString i" if "closes w" for i w
  proof -
    have "takeWhile ?P w = []" using that by (cases w) (auto simp: isDigit_iff)
    with intString_chars[of _ i] show ?thesis by (simp add: takeWhile_append)
  qed
  have "intString n = intString k" using t[OF assms(2), of n] t[OF assms(3), of k] assms(1) by simp
  with assms(1) show ?thesis by (simp add: intString_inject)
qed

lemma intString_head: "\<exists>c t. intString n = c # t \<and> (isDigit c \<or> c = CHR ''-'')"
  using intString_chars[of "hd (intString n)" n] by (cases "intString n") auto

subsubsection \<open>The interpretation\<close>

lemma canonInteger_Some: "canonInteger t = Some n \<Longrightarrow> tokenValue t = Some r \<Longrightarrow> r = of_int n"
  using canonInteger_value[of t n] by simp

lemma canonText_leaf:
  assumes "isLeaf x" "canonText x = Some a"
  obtains "x = JNull" "a = ''null''" | b where "x = JBool b" "a = (if b then ''true'' else ''false'')"
    | s where "x = JString s" "quoteText s = Some a"
    | t n where "x = JNumber t" "canonInteger t = Some n" "tokenValue t = Some (of_int n)" "a = intString n"
  using assms
  by (cases x) (auto simp: isLeaf_def canonText_def quoteText_def split: if_splits option.splits dest: canonInteger_Some)

lemma canonText_JNumber: "canonText (JNumber t) = Some a \<Longrightarrow> \<exists>n. tokenValue t = Some (of_int n) \<and> a = intString n"
  by (auto simp: canonText_def split: if_splits option.splits dest: canonInteger_Some)

lemma digit_not_bracket: "isDigit c \<Longrightarrow> c \<noteq> CHR ''['' \<and> c \<noteq> CHR ''{'' \<and> c \<noteq> CHR '']'' \<and> c \<noteq> CHR ''}''"
  by (auto simp: isDigit_iff)

lemma quoteText_head: "quoteText s = Some a \<Longrightarrow> \<exists>t. a = quoteMark # t"
  by (auto simp: quoteText_def quoteCanon_def split: if_splits)

lemma canonText_leaf_head:
  assumes "isLeaf x" "canonText x = Some a"
  obtains c t where "a = c # t" "c = CHR ''n'' \<and> x = JNull \<or> (c = CHR ''t'' \<or> c = CHR ''f'') \<and> (\<exists>b. x = JBool b) \<or>
    c = quoteMark \<and> (\<exists>s. x = JString s) \<or> (isDigit c \<or> c = CHR ''-'') \<and> (\<exists>t. x = JNumber t)"
proof (rule canonText_leaf[OF assms])
  fix t n assume "x = JNumber t" "a = intString n"
  with intString_head[of n] that show thesis by auto
next
  fix s assume "x = JString s" "quoteText s = Some a"
  with quoteText_head[of s a] that show thesis by auto
qed (use that in \<open>auto split: if_splits\<close>)

lemma canonText_leaf_prefix:
  assumes l: "isLeaf x" "isLeaf y" and w: "canonText x = Some a" "canonText y = Some b"
    and e: "a @ u = b @ v" and c: "closes u" "closes v"
  shows "jsonEqual x y \<and> u = v"
proof -
  obtain c1 t1 where h1: "a = c1 # t1" "c1 = CHR ''n'' \<and> x = JNull \<or> (c1 = CHR ''t'' \<or> c1 = CHR ''f'') \<and> (\<exists>b. x = JBool b) \<or>
    c1 = quoteMark \<and> (\<exists>s. x = JString s) \<or> (isDigit c1 \<or> c1 = CHR ''-'') \<and> (\<exists>t. x = JNumber t)"
    by (rule canonText_leaf_head[OF l(1) w(1)])
  obtain c2 t2 where h2: "b = c2 # t2" "c2 = CHR ''n'' \<and> y = JNull \<or> (c2 = CHR ''t'' \<or> c2 = CHR ''f'') \<and> (\<exists>b. y = JBool b) \<or>
    c2 = quoteMark \<and> (\<exists>s. y = JString s) \<or> (isDigit c2 \<or> c2 = CHR ''-'') \<and> (\<exists>t. y = JNumber t)"
    by (rule canonText_leaf_head[OF l(2) w(2)])
  have same: "c1 = c2" using e h1(1) h2(1) by simp
  have dig: "\<not> isDigit (CHR ''n'')" "\<not> isDigit (CHR ''t'')" "\<not> isDigit (CHR ''f'')" "\<not> isDigit quoteMark"
    by (simp_all add: isDigit_iff quoteMark_def)
  consider "x = JNull" "y = JNull" | p q where "x = JBool p" "y = JBool q" | s t where "x = JString s" "y = JString t"
    | s t where "x = JNumber s" "y = JNumber t"
    using h1(2) h2(2) same dig by (auto simp: quoteMark_def)
  then show ?thesis
  proof cases
    case 1
    with w e show ?thesis by (simp add: canonText_def)
  next
    case 2
    with w have "a = (if p then ''true'' else ''false'')" "b = (if q then ''true'' else ''false'')"
      by (simp_all add: canonText_def)
    with 2 e show ?thesis by (simp split: if_splits)
  next
    case 3
    then have "quoteText s = Some a" "quoteText t = Some b"
      using w by (auto simp: canonText_def quoteText_def split: if_splits)
    from quoteText_prefix[OF this e] 3 show ?thesis by simp
  next
    case 4
    obtain n where n: "tokenValue s = Some (of_int n)" "a = intString n"
      using canonText_JNumber[of s] w 4 by blast
    obtain k where k: "tokenValue t = Some (of_int k)" "b = intString k"
      using canonText_JNumber[of t] w 4 by blast
    have "n = k \<and> u = v" using intString_prefix e c n(2) k(2) by simp
    with 4 n(1) k(1) show ?thesis by (simp add: numbersEqual_iff_value)
  qed
qed

lemma canonText_leaf_equal:
  assumes l: "isLeaf x" "isLeaf y" and w: "canonText x = Some a" "canonText y = Some b" and "jsonEqual x y"
  shows "a = b"
proof (cases x)
  case JNull
  with assms(5) w show ?thesis by simp
next
  case (JBool p)
  with assms(5) have "y = JBool p" by (cases y) auto
  with JBool w show ?thesis by simp
next
  case (JString s)
  with assms(5) have "y = JString s" by (cases y) auto
  with JString w show ?thesis by simp
next
  case s: (JNumber s)
  with assms(5) obtain t where t: "y = JNumber t" "numbersEqual s t" by (cases y) auto
  obtain n where n: "tokenValue s = Some (of_int n)" "a = intString n"
    using canonText_JNumber[of s] w s by blast
  obtain k where k: "tokenValue t = Some (of_int k)" "b = intString k"
    using canonText_JNumber[of t] w t(1) by blast
  show ?thesis using t(2) n k by (simp add: numbersEqual_iff_value)
qed (use l in \<open>simp_all add: isLeaf_def\<close>)

lemma option_eqI: "(\<And>t. x = Some t \<longleftrightarrow> y = Some t) \<Longrightarrow> x = y"
  by (cases x; cases y) auto

lemma canonText_Some: "canonText v = Some t \<longleftrightarrow> carried v \<and> writeCanon [] v = Inr t"
  by (simp add: canonText_def split: sum.splits)

lemma those_canonText:
  "those (map canonText xs) = Some ts \<longleftrightarrow> list_all carried xs \<and> list_all2 (\<lambda>x t. writeCanon [] x = Inr t) xs ts"
  unfolding those_map_Some canonText_Some by (induction xs arbitrary: ts) (auto simp: list_all2_Cons1)

lemma canonText_array:
  "canonText (JArray xs) = Some t \<longleftrightarrow> (\<exists>ts. those (map canonText xs) = Some ts \<and> bracketed (CHR ''['') (CHR '']'') ts = t)"
  unfolding canonText_Some those_canonText writeCanon_array writeCanon_path[of "child _ _"]
    list_all2_conv_all_nth by (simp only: ex_simps(1,2)[symmetric] conj_ac eq_commute[of _ t] eq_commute[of "length xs"] carried.simps)

lemma canonText_object:
  "canonText (JObject m) = Some t \<longleftrightarrow>
     (\<exists>ts. those (map (memberText quoteText canonText) (sort_key fst m)) = Some ts \<and> bracketed (CHR ''{'') (CHR ''}'') ts = t)"
proof -
  let ?P = "\<lambda>p t. \<exists>x. writeCanon [] (snd p) = Inr x \<and> t = quoteCanon (fst p) @ CHR '':'' # x"
  let ?c = "\<lambda>p. validUtf8 (fst p) \<and> carried (snd p)"
  have e: "memberText quoteText canonText p = Some t \<longleftrightarrow> ?c p \<and> ?P p t" for p t
    by (auto simp: memberText_Some canonText_Some quoteText_def)
  have l: "list_all2 (\<lambda>p t. ?c p \<and> ?P p t) l ts \<longleftrightarrow> list_all ?c l \<and> list_all2 ?P l ts" for l ts
    by (induction l arbitrary: ts) (auto simp: list_all2_Cons1)
  have s: "list_all ?c (sort_key fst m) = list_all ?c m" by (simp add: list_all_iff)
  show ?thesis
    unfolding canonText_Some writeCanon_object writeCanon_path[of "child _ _"] those_map_Some e l s carried.simps by auto
qed

interpretation canon: canonical_writer canonText quoteText "\<lambda>s. s"
proof
  fix s t :: string and a b u v
  assume q: "quoteText s = Some a" "quoteText t = Some b"
  show "a @ u = b @ v \<Longrightarrow> s = t \<and> u = v" by (rule quoteText_prefix[OF q])
  show "a \<noteq> [] \<and> hd a = CHR 0x22" using quoteText_head[OF q(1)] by (auto simp: quoteMark_def)
next
  fix x y :: json and a b u v
  assume l: "isLeaf x" "isLeaf y" and w: "canonText x = Some a" "canonText y = Some b"
  show "jsonEqual x y \<and> u = v" if "a @ u = b @ v" "closes u" "closes v"
    by (rule canonText_leaf_prefix[OF l w that])
  show "a = b" if "jsonEqual x y" by (rule canonText_leaf_equal[OF l w that])
next
  fix x :: json and a
  assume "isLeaf x" "canonText x = Some a"
  from canonText_leaf_head[OF this] obtain c t where c: "a = c # t"
    "c = CHR ''n'' \<or> c = CHR ''t'' \<or> c = CHR ''f'' \<or> c = quoteMark \<or> isDigit c \<or> c = CHR ''-''" by metis
  show "a \<noteq> [] \<and> hd a \<noteq> CHR ''['' \<and> hd a \<noteq> CHR ''{'' \<and> hd a \<noteq> CHR '']'' \<and> hd a \<noteq> CHR ''}''"
    using c(2) digit_not_bracket[of c] unfolding c(1) by (elim disjE) (simp_all add: quoteMark_def)
next
  fix xs
  show "canonText (JArray xs) = map_option (bracketed (CHR ''['') (CHR '']'')) (those (map canonText xs))"
    by (rule option_eqI) (simp add: canonText_array)
next
  fix m
  show "canonText (JObject m) = map_option (bracketed (CHR ''{'') (CHR ''}''))
      (those (map (memberText quoteText canonText) (sort_key fst m)))"
    by (rule option_eqI) (simp add: canonText_object)
qed

subsection \<open>Where a refused document is refused\<close>

fun indexable :: "json \<Rightarrow> bool" where
  "indexable (JArray xs) = (length xs \<le> maxInt \<and> list_all indexable xs)"
| "indexable (JObject m) = list_all (\<lambda>p. indexable (snd p)) m"
| "indexable _ = True"

lemma firstFailure_Inl: "firstFailure rs = Inl p \<Longrightarrow> Inl p \<in> set rs"
  by (induction rs rule: firstFailure.induct) (auto split: sum.splits)

lemma enclosed_Inl [simp]: "enclosed lb rb r = Inl p \<longleftrightarrow> r = Inl p"
  by (cases r) (auto simp: enclosed_def)

lemma map_sum_Inl [simp]: "map_sum id g r = Inl p \<longleftrightarrow> r = Inl p"
  by (cases r) auto

lemma writeCanon_failure:
  assumes "writeCanon path v = Inl p" "jsonWf v" "carried v" "indexable v"
  shows "\<exists>rest t. p = Pointer (path @ rest) \<and> list_all validUtf8 rest \<and>
    resolveTokens rest v = Some (JNumber t) \<and> canonInteger t = None"
  using assms
proof (induction v arbitrary: path rule: measure_induct_rule[of size])
  case (less v)
  show ?case
  proof (cases v)
    case (JNumber t)
    with less.prems(1) show ?thesis
      by (intro exI[of _ "[]"] exI[of _ t]) (auto split: option.splits)
  next
    case (JArray xs)
    from less.prems(1) JArray obtain i where i: "i < length xs" "writeCanon (child path (natString i)) (xs ! i) = Inl p"
      by (auto dest!: firstFailure_Inl simp: in_set_enumerate_eq)
    have x: "xs ! i \<in> set xs" using i(1) by simp
    obtain rest t where r: "p = Pointer (child path (natString i) @ rest)" "list_all validUtf8 rest"
        "resolveTokens rest (xs ! i) = Some (JNumber t)" "canonInteger t = None"
      by (atomize_elim, rule less.IH[OF _ i(2)]) (use x less.prems JArray size_element_lt[OF x] in \<open>auto simp: list_all_iff\<close>)
    moreover have "arrayIndex (natString i) (length xs) = Some i"
      using arrayIndex_Some_iff[of "length xs"] i(1) less.prems(4) JArray by simp
    ultimately show ?thesis
      using r validUtf8_natString[of i] unfolding JArray child_def
      by (intro exI[of _ "natString i # rest"] exI[of _ t]) simp
  next
    case (JObject m)
    let ?g = "\<lambda>p. map_sum id (\<lambda>t. quoteCanon (fst p) @ CHR '':'' # t) (writeCanon (child path (fst p)) (snd p))"
    have "firstFailure (map ?g (sort_key fst m)) = Inl p" using less.prems(1) JObject by simp
    from firstFailure_Inl[OF this] have "Inl p \<in> ?g ` set m" unfolding set_map set_sort .
    then obtain q where q: "q \<in> set m" "Inl p = ?g q" by (rule imageE)
    then obtain k w where k: "(k, w) \<in> set m" "writeCanon (child path k) w = Inl p"
      using map_sum_Inl[of "\<lambda>t. quoteCanon (fst q) @ CHR '':'' # t"] by (metis prod.collapse)
    obtain rest t where r: "p = Pointer (child path k @ rest)" "list_all validUtf8 rest"
        "resolveTokens rest w = Some (JNumber t)" "canonInteger t = None"
      by (atomize_elim, rule less.IH[OF _ k(2)]) (use k(1) less.prems JObject size_member_lt[OF k(1)] in \<open>auto simp: list_all_iff\<close>)
    moreover have "map_of m k = Some w" "validUtf8 k"
      using k(1) less.prems(2,3) JObject by (auto simp: list_all_iff)
    ultimately show ?thesis
      using r unfolding JObject child_def by (intro exI[of _ "k # rest"] exI[of _ t]) simp
  qed (use less.prems in auto)
qed

subsection \<open>Properties\<close>

text \<open>C35: the canon form is an identity of decoded documents: two documents it admits have the same
  text exactly when they are the same JSON value, wherever they stand.\<close>

theorem writeCanon_identity:
  assumes "jsonWf v" "jsonWf w" "carried v" "carried w"
    and "writeCanon p v = Inr s" "writeCanon q w = Inr t"
  shows "s = t \<longleftrightarrow> jsonEqual v w"
  using canon.w_identity[OF assms(1,2)] assms(3-6) writeCanon_path[of p v] writeCanon_path[of q w]
  by (simp add: canonText_Some)

theorem writeCanon_identity_witness:
  "jsonEqual (JArray [JNumber ''-0'', JNull]) (JArray [JNumber ''0'', JNull])"
proof -
  let ?v = "JArray [JNumber ''-0'', JNull]" and ?w = "JArray [JNumber ''0'', JNull]"
  have i: "canonInteger ''-0'' = Some 0" "canonInteger ''0'' = Some 0" by code_simp+
  have "writeCanon [] ?v = Inr (bracketed (CHR ''['') (CHR '']'') [intString 0, ''null''])"
    "writeCanon [] ?w = Inr (bracketed (CHR ''['') (CHR '']'') [intString 0, ''null''])"
    by (simp_all add: i enclosed_def)
  moreover have "tokenValue ''-0'' = Some 0" "tokenValue ''0'' = Some 0" by code_simp+
  ultimately show ?thesis by (intro iffD1[OF writeCanon_identity refl]) simp_all
qed

text \<open>A document the canon form refuses is refused at a place that exists: the location returned
  resolves, in that document, to a number that is not an integer within 53 bits.\<close>

theorem writeCanon_refusal:
  assumes "jsonWf v" "carried v" "indexable v" "writeCanon [] v = Inl p"
  shows "\<exists>t. resolvePointer v p = Some (JNumber t) \<and> canonInteger t = None"
proof -
  from writeCanon_failure[OF assms(4,1,2,3)] obtain rest t where r: "p = Pointer rest" "list_all validUtf8 rest"
    "resolveTokens rest v = Some (JNumber t)" "canonInteger t = None" by auto
  with compilePointer_Pointer[OF r(2)] show ?thesis by (simp add: resolvePointer_def resolveCompiled_def)
qed

theorem writeCanon_refusal_witness:
  "\<exists>t. resolvePointer (JArray [JNumber ''1'', JArray [JNumber ''2.0'']]) (Pointer [natString 1, natString 0]) = Some (JNumber t)
    \<and> canonInteger t = None"
proof (rule writeCanon_refusal)
  have "tokenValue ''1'' = Some 1" "tokenValue ''2.0'' = Some 2" by code_simp+
  then show "carried (JArray [JNumber ''1'', JArray [JNumber ''2.0'']])" by simp
  have "canonInteger ''1'' = Some 1" "canonInteger ''2.0'' = None" by code_simp+
  then show "writeCanon [] (JArray [JNumber ''1'', JArray [JNumber ''2.0'']]) = Inl (Pointer [natString 1, natString 0])"
    by (simp add: enclosed_def child_def)
qed (simp_all add: maxInt_def)

end
