(* ===== verification/Canonical_Disposition.thy ===== *)
theory Canonical_Disposition
  imports Jcs Disposition
begin

section \<open>The canonical form of a disposition (\<open>internal/result\<close>)\<close>

text \<open>
  \<open>Disposition.CanonicalWith\<close> validates under a contract, builds one object and hands it to
  \<open>jcs.Encode\<close>; \<open>HandoffTarget.Canonical\<close> does the same for a target. The encoder only refuses
  text that is not UTF-8.
\<close>

datatype canonicalError = Refused dispositionError | EmptyTarget | Unencodable

definition encoded :: "json \<Rightarrow> canonicalError + string" where
  "encoded v = (case Encode v of None \<Rightarrow> Inl Unencodable | Some text \<Rightarrow> Inr text)"

definition targetObject :: "HandoffTarget \<Rightarrow> json" where
  "targetObject t = JObject [(''kind'', JString (htKind t)), (''name'', JString (htName t))]"

text \<open>\<open>HandoffTarget.Canonical\<close>; a nil target is the literal \<open>null\<close>.\<close>

definition targetCanonical :: "HandoffTarget option \<Rightarrow> canonicalError + string" where
  "targetCanonical h =
     (case h of
        None \<Rightarrow> Inr ''null''
      | Some t \<Rightarrow> if htKind t = [] \<or> htName t = [] then Inl EmptyTarget else encoded (targetObject t))"

definition stringArray :: "string list \<Rightarrow> json" where
  "stringArray ss = JArray (map JString ss)"

definition handoffObject :: "Handoff \<Rightarrow> object" where
  "handoffObject h =
     [(''state'', JString (hState h))]
     @ (case hRoutes h of None \<Rightarrow> [] | Some ts \<Rightarrow> [(''routes'', JArray (map targetObject ts))])
     @ (if hTriggeredBy h \<noteq> [] then [(''triggeredBy'', stringArray (sortedSet (hTriggeredBy h)))] else [])"

definition dispositionObject :: "Disposition \<Rightarrow> object" where
  "dispositionObject d =
     [(''kind'', JString (dKind d)), (''reasons'', stringArray (sortedSet (dReasons d))),
      (''handoff'', JObject (handoffObject (dHandoff d)))]
     @ (if dOutcomeID d \<noteq> [] then [(''outcomeId'', JString (dOutcomeID d))] else [])
     @ (case dValue d of None \<Rightarrow> [] | Some m \<Rightarrow> [(''value'', JObject m)])"

definition CanonicalWith :: "Disposition \<Rightarrow> EvaluatorContract \<Rightarrow> canonicalError + string" where
  "CanonicalWith d contract =
     (let d1 = d\<lparr>dContract := contract\<rparr>
      in case dispositionValidate d1 of
           Some e \<Rightarrow> Inl (Refused e)
         | None \<Rightarrow> encoded (JObject (dispositionObject d1)))"

definition Canonical :: "Disposition \<Rightarrow> canonicalError + string" where
  "Canonical d = CanonicalWith d (dContract d)"

subsection \<open>What the bytes say\<close>

text \<open>Two dispositions that say the same: reasons and triggers are sets, the contract is not part of
  the portable result.\<close>

definition sameValue :: "object option \<Rightarrow> object option \<Rightarrow> bool" where
  "sameValue v w \<longleftrightarrow>
     (case (v, w) of (None, None) \<Rightarrow> True | (Some m, Some n) \<Rightarrow> jsonEqual (JObject m) (JObject n) | _ \<Rightarrow> False)"

definition sameHandoff :: "Handoff \<Rightarrow> Handoff \<Rightarrow> bool" where
  "sameHandoff h k \<longleftrightarrow>
     hState h = hState k \<and> set (hTriggeredBy h) = set (hTriggeredBy k) \<and> hRoutes h = hRoutes k"

definition sameDisposition :: "Disposition \<Rightarrow> Disposition \<Rightarrow> bool" where
  "sameDisposition d e \<longleftrightarrow>
     dKind d = dKind e \<and> dOutcomeID d = dOutcomeID e \<and> set (dReasons d) = set (dReasons e) \<and>
     sameHandoff (dHandoff d) (dHandoff e) \<and> sameValue (dValue d) (dValue e)"

lemma jsonEqual_map:
  assumes "\<And>x y. jsonEqual (f x) (f y) \<longleftrightarrow> x = y"
  shows "jsonEqual (JArray (map f xs)) (JArray (map f ys)) \<longleftrightarrow> xs = ys"
proof (induction xs arbitrary: ys)
  case (Cons x xs)
  then show ?case by (cases ys) (auto simp: assms)
qed auto

lemma jsonEqual_stringArray: "jsonEqual (stringArray xs) (stringArray ys) \<longleftrightarrow> xs = ys"
  unfolding stringArray_def by (rule jsonEqual_map) simp

lemma jsonEqual_target: "jsonEqual (targetObject s) (targetObject t) \<longleftrightarrow> s = t"
  by (cases s; cases t) (auto simp: targetObject_def)

lemma jsonEqual_handoff: "jsonEqual (JObject (handoffObject h)) (JObject (handoffObject k)) \<longleftrightarrow> sameHandoff h k"
proof -
  note m = jsonEqual_map[of targetObject, OF jsonEqual_target]
  have s: "sortedSet xs = sortedSet ys \<longleftrightarrow> set xs = set ys" for xs ys by (rule sortedSet_eq_iff)
  show ?thesis
    by (cases "hRoutes h"; cases "hRoutes k"; cases "hTriggeredBy h = []"; cases "hTriggeredBy k = []")
       (auto simp: handoffObject_def sameHandoff_def m jsonEqual_stringArray s simp del: jsonEqual.simps(5))
qed

lemma jsonEqual_disposition:
  "jsonEqual (JObject (dispositionObject d)) (JObject (dispositionObject e)) \<longleftrightarrow> sameDisposition d e"
proof -
  have top: "jsonEqual (JObject l) (JObject r) \<longleftrightarrow> length l = length r \<and>
      list_all (\<lambda>p. case map_of r (fst p) of None \<Rightarrow> False | Some w \<Rightarrow> jsonEqual (snd p) w) l" for l r
    by simp
  show ?thesis
    unfolding top[of "dispositionObject d" "dispositionObject e"]
    by (cases "dOutcomeID d = []"; cases "dOutcomeID e = []"; cases "dValue d"; cases "dValue e")
       (auto simp: dispositionObject_def sameDisposition_def sameValue_def jsonEqual_handoff
          jsonEqual_stringArray sortedSet_eq_iff simp del: jsonEqual.simps(6))
qed

subsection \<open>When there is a canonical form\<close>

definition valuesWf :: "Disposition \<Rightarrow> bool" where
  "valuesWf d \<longleftrightarrow> (\<forall>m. dValue d = Some m \<longrightarrow> jsonWf (JObject m))"

lemma dispositionObject_wf: "valuesWf d \<Longrightarrow> jsonWf (JObject (dispositionObject d))"
  by (auto simp: dispositionObject_def handoffObject_def stringArray_def targetObject_def valuesWf_def
      list_all_iff split: option.splits)

text \<open>The texts that are free in a legal disposition: the outcome's id and the targets' names.\<close>

definition textual :: "Disposition \<Rightarrow> bool" where
  "textual d \<longleftrightarrow>
     validUtf8 (dOutcomeID d) \<and> (\<forall>ts. hRoutes (dHandoff d) = Some ts \<longrightarrow> (\<forall>t \<in> set ts. validUtf8 (htName t)))"

lemma encodable_stringArray: "encodable (stringArray ss) \<longleftrightarrow> (\<forall>s \<in> set ss. validUtf8 s)"
  by (auto simp: stringArray_def list_all_iff)

lemma vocabulary_utf8:
  "s \<in> set dispositionReasons \<union> set dispositionKinds \<union> set handoffStates \<Longrightarrow> validUtf8 s"
  "s = ''human-role'' \<or> s = ''queue'' \<or> s = ''system'' \<Longrightarrow> validUtf8 s"
  by (rule validUtf8_ascii; auto simp: dispositionReasons_def dispositionKinds_def handoffStates_def ReasonExceptionEscalation_def)+

lemma letter_ascii: "isLower c \<or> isUpper c \<or> isDigit c \<Longrightarrow> byteOf c < 128"
  by (auto simp: isLower_def isUpper_def isDigit_def less_eq_char_def)

lemma valueName_utf8: "OutcomeValueName s \<Longrightarrow> validUtf8 s"
  by (rule validUtf8_ascii) (auto simp: OutcomeValueName_def list_all_iff letter_ascii split: list.splits if_splits)

lemma legalValue_encodable:
  assumes "legalValue m" "jsonWf (JObject m)"
  shows "encodable (JObject m)"
proof -
  have "validUtf8 k \<and> encodable v" if "(k, v) \<in> set m" for k v
  proof -
    have "jget m k = v" using assms(2) that by (simp add: jget_def)
    moreover have "OutcomeValueName k \<and> ((\<exists>b. jget m k = JBool b) \<or> (\<exists>s. jget m k = JString s \<and> validUtf8 s))"
      using assms(1) that unfolding legalValue_def by force
    ultimately show ?thesis using valueName_utf8 by auto
  qed
  then show ?thesis by (auto simp: list_all_iff)
qed

lemma dispositionObject_encodable:
  assumes "legalDisposition d" "valuesWf d"
  shows "encodable (JObject (dispositionObject d)) \<longleftrightarrow> textual d"
proof -
  let ?h = "dHandoff d"
  have v: "validUtf8 s" if "s \<in> set (dReasons d) \<union> set (hTriggeredBy ?h) \<or> s = dKind d \<or> s = hState ?h" for s
    using assms(1) that vocabulary_utf8(1)[of s]
    by (auto simp: legalDisposition_def Let_def dispositionKinds_def handoffStates_def)
  have lit: "validUtf8 ''kind''" "validUtf8 ''reasons''" "validUtf8 ''handoff''" "validUtf8 ''outcomeId''"
    "validUtf8 ''value''" "validUtf8 ''state''" "validUtf8 ''routes''" "validUtf8 ''triggeredBy''" "validUtf8 ''name''"
    by (simp_all add: validUtf8_ascii)
  have kinds: "validUtf8 (htKind t)" if "hRoutes ?h = Some ts" "t \<in> set ts" for t ts
  proof -
    have "admittedTarget t" using assms(1) that by (auto simp: legalDisposition_def Let_def)
    then show ?thesis using vocabulary_utf8(2)[of "htKind t"] by (auto simp: admittedTarget_def)
  qed
  have m: "encodable (JObject m)" if "dValue d = Some m" for m
    using assms that by (intro legalValue_encodable) (auto simp: legalDisposition_def Let_def valuesWf_def)
  have h: "encodable (JObject (handoffObject ?h)) \<longleftrightarrow> (\<forall>ts. hRoutes ?h = Some ts \<longrightarrow> (\<forall>t \<in> set ts. validUtf8 (htName t)))"
    using lit v kinds
    by (cases "hRoutes ?h")
       (auto simp: handoffObject_def encodable_stringArray targetObject_def list_all_iff)
  have e: "encodable (JObject m) \<longleftrightarrow> (\<forall>p \<in> set m. validUtf8 (fst p) \<and> encodable (snd p))" for m
    by (simp add: list_all_iff)
  have "encodable (JObject (dispositionObject d)) \<longleftrightarrow> encodable (JObject (handoffObject ?h)) \<and> validUtf8 (dOutcomeID d)"
    unfolding e[of "dispositionObject d"] using lit v m
    by (cases "dValue d") (auto simp: dispositionObject_def encodable_stringArray simp del: encodable.simps(4))
  then show ?thesis using h by (auto simp: textual_def)
qed

subsection \<open>Properties\<close>

text \<open>C33: a disposition has a canonical form exactly when it is legal under the contract and its free
  texts are UTF-8.\<close>

theorem CanonicalWith_exact:
  assumes "valuesWf d"
  shows "isl (CanonicalWith d c) \<longleftrightarrow> \<not> (legalDisposition (d\<lparr>dContract := c\<rparr>) \<and> textual d)"
proof -
  let ?d = "d\<lparr>dContract := c\<rparr>"
  have t: "textual ?d = textual d" and w: "valuesWf ?d" using assms by (simp_all add: textual_def valuesWf_def)
  show ?thesis
    using dispositionValidate_None[of ?d] dispositionObject_encodable[of ?d] w t writeJcs_defined[of "JObject (dispositionObject ?d)"]
    by (auto simp: CanonicalWith_def Let_def encoded_def Encode_def simp del: writeJcs.simps encodable.simps split: option.splits)
qed

definition sampleUnresolved :: "string list \<Rightarrow> Disposition" where
  "sampleUnresolved reasons =
     \<lparr>dContract = LegacyEvaluatorContract, dKind = ''unresolved'', dOutcomeID = [], dReasons = reasons,
      dHandoff = \<lparr>hState = ''none'', hTriggeredBy = [], hRoutes = None\<rparr>, dValue = None\<rparr>"

lemma sampleUnresolved_facts:
  "valuesWf (sampleUnresolved rs)" "textual (sampleUnresolved rs)"
  "set rs = {''unknown'', ''conflict''} \<Longrightarrow> legalDisposition (sampleUnresolved rs)"
  by (auto simp: sampleUnresolved_def valuesWf_def textual_def legalDisposition_def Let_def validateContract_def
      LegacyEvaluatorContract_def Version_def EvaluatorSpecVersion_def dispositionReasons_def ReasonExceptionEscalation_def)

theorem CanonicalWith_exact_witness:
  "\<not> isl (CanonicalWith (sampleUnresolved [''unknown'', ''conflict'']) LegacyEvaluatorContract)"
proof -
  have "(sampleUnresolved rs)\<lparr>dContract := LegacyEvaluatorContract\<rparr> = sampleUnresolved rs" for rs
    by (simp add: sampleUnresolved_def)
  with CanonicalWith_exact[OF sampleUnresolved_facts(1)] sampleUnresolved_facts(2,3) show ?thesis by simp
qed

text \<open>C32: the canonical bytes identify what a disposition says: two dispositions have the same bytes
  exactly when kind, outcome, reason set, handoff and value agree. The order and repetition of the
  reasons and triggers, and the contract they were produced under, leave no trace.\<close>

theorem CanonicalWith_identity:
  assumes "valuesWf d" "valuesWf e" "CanonicalWith d c = Inr s" "CanonicalWith e c' = Inr t"
  shows "s = t \<longleftrightarrow> sameDisposition d e"
proof -
  have o: "dispositionObject (d\<lparr>dContract := c\<rparr>) = dispositionObject d"
    "dispositionObject (e\<lparr>dContract := c'\<rparr>) = dispositionObject e" by (simp_all add: dispositionObject_def)
  have "writeJcs (JObject (dispositionObject d)) = Some s" "writeJcs (JObject (dispositionObject e)) = Some t"
    using assms(3,4) by (auto simp: CanonicalWith_def Let_def encoded_def Encode_def o simp del: writeJcs.simps split: option.splits)
  from jcs.w_identity[OF dispositionObject_wf[OF assms(1)] dispositionObject_wf[OF assms(2)] this]
  show ?thesis by (simp only: jsonEqual_disposition)
qed

theorem CanonicalWith_identity_witness:
  "CanonicalWith (sampleUnresolved [''unknown'', ''conflict'']) LegacyEvaluatorContract
   = CanonicalWith (sampleUnresolved [''conflict'', ''unknown'', ''conflict'']) LegacyEvaluatorContract"
proof -
  let ?d = "sampleUnresolved [''unknown'', ''conflict'']" and ?e = "sampleUnresolved [''conflict'', ''unknown'', ''conflict'']"
  let ?c = LegacyEvaluatorContract
  have ok: "\<exists>s. CanonicalWith (sampleUnresolved rs) ?c = Inr s" if "set rs = {''unknown'', ''conflict''}" for rs
  proof -
    have r: "(sampleUnresolved rs)\<lparr>dContract := ?c\<rparr> = sampleUnresolved rs" by (simp add: sampleUnresolved_def)
    have "dispositionValidate (sampleUnresolved rs) = None"
      unfolding dispositionValidate_None using sampleUnresolved_facts(3) that .
    moreover have "encodable (JObject (dispositionObject (sampleUnresolved rs)))"
      using dispositionObject_encodable sampleUnresolved_facts that by blast
    ultimately show ?thesis using writeJcs_defined[of "JObject (dispositionObject (sampleUnresolved rs))"]
      by (auto simp: CanonicalWith_def Let_def r encoded_def Encode_def simp del: writeJcs.simps encodable.simps)
  qed
  obtain s t where st: "CanonicalWith ?d ?c = Inr s" "CanonicalWith ?e ?c = Inr t"
    using ok[of "[''unknown'', ''conflict'']"] ok[of "[''conflict'', ''unknown'', ''conflict'']"] by auto
  have "sameDisposition ?d ?e"
    by (auto simp: sameDisposition_def sampleUnresolved_def sameHandoff_def sameValue_def)
  with CanonicalWith_identity[OF sampleUnresolved_facts(1) sampleUnresolved_facts(1) st] st show ?thesis by simp
qed

end
