(* ===== verification/Carrier.thy ===== *)
theory Carrier
  imports Pointer
begin

section \<open>The bounded carrier decoder (\<open>internal/carrier/decode.go\<close>)\<close>

text \<open>
  \<open>decode\<close> drives a \<open>json.Decoder\<close>: it asks for the next token and whether more follow, counts
  nodes, bounds depth and text, and refuses duplicate members, trailing data and unpaired surrogate
  escapes. The decoder is its token stream: the tokens \<open>Token()\<close> returns in order, a \<open>TBad\<close> where
  it returns a syntax error (with what \<open>More()\<close> answers there), the end of the list where it
  returns \<open>io.EOF\<close>. The recursion carries fuel, one unit for each token and loop turn; the theorems
  show that what \<open>decode\<close> provides is enough. Messages are not modelled, their code and location are.
\<close>

datatype token = TDelim char | TString string | TNumber string | TBool bool | TNull | TBad bool

record Limits =
  MaxDepth :: nat
  MaxNodes :: nat
  MaxStringBytes :: nat

definition DefaultLimits :: Limits where
  "DefaultLimits = \<lparr>MaxDepth = 128, MaxNodes = 250000, MaxStringBytes = 1024 * 1024\<rparr>"

definition HardMaxBytes :: nat where
  "HardMaxBytes = 10 * 1024 * 1024"

record carrierDiagnostic =
  cdResource :: bool
  cdCode :: string
  cdLocation :: string

datatype carrierFailure = CarrierFailure carrierDiagnostic | OutOfFuel

definition invalid :: "string \<Rightarrow> string \<Rightarrow> carrierFailure" where
  "invalid code location = CarrierFailure \<lparr>cdResource = False, cdCode = code, cdLocation = location\<rparr>"

definition resource :: "string \<Rightarrow> string \<Rightarrow> carrierFailure" where
  "resource code location = CarrierFailure \<lparr>cdResource = True, cdCode = code, cdLocation = location\<rparr>"

definition invalidJSON :: "string list \<Rightarrow> carrierFailure" where
  "invalidJSON location = invalid ''JPS-CARRIER-INVALID-JSON'' (Pointer location)"

record parser =
  pTokens :: "token list"
  pNodes :: nat

definition appendLocation :: "string list \<Rightarrow> string \<Rightarrow> string list" where
  "appendLocation location part = location @ [part]"

text \<open>\<open>decoder.More()\<close>.\<close>

fun more :: "token list \<Rightarrow> bool" where
  "more [] = False"
| "more (TDelim c # _) = (c \<noteq> CHR ''}'' \<and> c \<noteq> CHR '']'')"
| "more (TBad b # _) = b"
| "more _ = True"

text \<open>The closing \<open>decoder.Token()\<close> of a container.\<close>

fun closing :: "char \<Rightarrow> token list \<Rightarrow> token list option" where
  "closing c (TDelim d # rest) = (if d = c then Some rest else None)"
| "closing c _ = None"

type_synonym 'a parsed = "(carrierFailure + 'a) \<times> parser"

text \<open>The head of \<open>value\<close>: the node count, the token, and the switch on it.\<close>

datatype valueHead = Leaf json | OpenObject | OpenArray

definition classify :: "Limits \<Rightarrow> string list \<Rightarrow> nat \<Rightarrow> token \<Rightarrow> carrierFailure + valueHead" where
  "classify L location depth t =
     (case t of
        TBad b \<Rightarrow> Inl (invalidJSON location)
      | TDelim c \<Rightarrow>
          if depth \<ge> MaxDepth L then Inl (resource ''JPS-RESOURCE-DEPTH-LIMIT'' (Pointer location))
          else if c = CHR ''{'' then Inr OpenObject
          else if c = CHR ''['' then Inr OpenArray
          else Inl (invalidJSON location)
      | TString s \<Rightarrow>
          if length s > MaxStringBytes L then Inl (resource ''JPS-RESOURCE-STRING-LIMIT'' (Pointer location))
          else Inr (Leaf (JString s))
      | TNumber s \<Rightarrow>
          if length s > MaxStringBytes L then Inl (resource ''JPS-RESOURCE-NUMBER-LIMIT'' (Pointer location))
          else Inr (Leaf (JNumber s))
      | TBool b \<Rightarrow> Inr (Leaf (JBool b))
      | TNull \<Rightarrow> Inr (Leaf JNull))"

definition nextValue :: "Limits \<Rightarrow> string list \<Rightarrow> nat \<Rightarrow> parser \<Rightarrow> valueHead parsed" where
  "nextValue L location depth p =
     (if pNodes p \<ge> MaxNodes L then (Inl (resource ''JPS-RESOURCE-NODE-LIMIT'' (Pointer location)), p)
      else let p1 = p\<lparr>pNodes := Suc (pNodes p), pTokens := tl (pTokens p)\<rparr>
           in (case pTokens p of [] \<Rightarrow> Inl (invalidJSON location) | t # _ \<Rightarrow> classify L location depth t, p1))"

text \<open>The head of the loop of \<open>object\<close>: the member's name and its checks.\<close>

definition memberName :: "Limits \<Rightarrow> bool \<Rightarrow> string list \<Rightarrow> object \<Rightarrow> string list \<Rightarrow> parser \<Rightarrow> string parsed" where
  "memberName L rootScan location val seen p =
     (case pTokens p of
        TString key # rest \<Rightarrow>
          (if length key > MaxStringBytes L
           then Inl (resource ''JPS-RESOURCE-STRING-LIMIT'' (Pointer (appendLocation location key)))
           else if (if rootScan then key \<in> set seen else hasMember val key)
           then Inl (invalid ''JPS-CARRIER-DUPLICATE-MEMBER'' (Pointer (appendLocation location key)))
           else Inr key, p\<lparr>pTokens := rest\<rparr>)
      | _ \<Rightarrow> (Inl (invalidJSON location), p\<lparr>pTokens := tl (pTokens p)\<rparr>))"

text \<open>The end of a container.\<close>

definition closeContainer :: "char \<Rightarrow> string list \<Rightarrow> 'a \<Rightarrow> parser \<Rightarrow> 'a parsed" where
  "closeContainer c location val p =
     (case closing c (pTokens p) of
        None \<Rightarrow> (Inl (invalidJSON location), p) | Some rest \<Rightarrow> (Inr val, p\<lparr>pTokens := rest\<rparr>))"

definition mapParsed :: "('a \<Rightarrow> 'b) \<Rightarrow> 'a parsed \<Rightarrow> 'b parsed" where
  "mapParsed f r = (map_sum id f (fst r), snd r)"

definition retained :: "bool \<Rightarrow> nat \<Rightarrow> string \<Rightarrow> bool" where
  "retained rootScan depth key \<longleftrightarrow> \<not> rootScan \<or> depth = 1 \<and> (key = ''specVersion'' \<or> key = ''profile'')"

function (sequential) parseValue :: "nat \<Rightarrow> Limits \<Rightarrow> bool \<Rightarrow> string list \<Rightarrow> nat \<Rightarrow> parser \<Rightarrow> json parsed"
and parseObject :: "nat \<Rightarrow> Limits \<Rightarrow> bool \<Rightarrow> string list \<Rightarrow> nat \<Rightarrow> object \<Rightarrow> string list \<Rightarrow> parser \<Rightarrow> object parsed"
and parseArray :: "nat \<Rightarrow> Limits \<Rightarrow> bool \<Rightarrow> string list \<Rightarrow> nat \<Rightarrow> nat \<Rightarrow> json list \<Rightarrow> parser \<Rightarrow> json list parsed"
where
  "parseValue 0 L rootScan location depth p = (Inl OutOfFuel, p)"
| "parseValue (Suc n) L rootScan location depth p =
     (case nextValue L location depth p of
        (Inl f, p1) \<Rightarrow> (Inl f, p1)
      | (Inr (Leaf v), p1) \<Rightarrow> (Inr v, p1)
      | (Inr OpenObject, p1) \<Rightarrow> mapParsed JObject (parseObject n L rootScan location (Suc depth) [] [] p1)
      | (Inr OpenArray, p1) \<Rightarrow> mapParsed JArray (parseArray n L rootScan location (Suc depth) 0 [] p1))"
| "parseObject 0 L rootScan location depth val seen p = (Inl OutOfFuel, p)"
| "parseObject (Suc n) L rootScan location depth val seen p =
     (if \<not> more (pTokens p) then closeContainer (CHR ''}'') location val p
      else case memberName L rootScan location val seen p of
             (Inl f, p1) \<Rightarrow> (Inl f, p1)
           | (Inr key, p1) \<Rightarrow>
               (case parseValue n L rootScan (appendLocation location key) depth p1 of
                  (Inl f, p2) \<Rightarrow> (Inl f, p2)
                | (Inr item, p2) \<Rightarrow>
                    parseObject n L rootScan location depth
                      (if retained rootScan depth key then val @ [(key, item)] else val)
                      (if rootScan then key # seen else seen) p2))"
| "parseArray 0 L rootScan location depth index val p = (Inl OutOfFuel, p)"
| "parseArray (Suc n) L rootScan location depth index val p =
     (if \<not> more (pTokens p) then closeContainer (CHR '']'') location val p
      else case parseValue n L rootScan (appendLocation location (natString index)) depth p of
             (Inl f, p2) \<Rightarrow> (Inl f, p2)
           | (Inr item, p2) \<Rightarrow>
               parseArray n L rootScan location depth (Suc index) (if rootScan then val else val @ [item]) p2)"
  by pat_completeness auto
termination
  by (relation "measure (case_sum (\<lambda>x. fst x) (case_sum (\<lambda>x. fst x) (\<lambda>x. fst x)))") auto

text \<open>\<open>hexQuad\<close>: the four hex digits at the front of what is left.\<close>

definition hexVal :: "char \<Rightarrow> nat option" where
  "hexVal c =
     (if CHR ''0'' \<le> c \<and> c \<le> CHR ''9'' then Some (of_char c - 48)
      else if CHR ''a'' \<le> c \<and> c \<le> CHR ''f'' then Some (of_char c - 97 + 10)
      else if CHR ''A'' \<le> c \<and> c \<le> CHR ''F'' then Some (of_char c - 65 + 10) else None)"

fun hexQuad :: "string \<Rightarrow> nat option" where
  "hexQuad (a # b # c # d # _) =
     (case (hexVal a, hexVal b, hexVal c, hexVal d) of
        (Some w, Some x, Some y, Some z) \<Rightarrow> Some (((w * 16 + x) * 16 + y) * 16 + z)
      | _ \<Rightarrow> None)"
| "hexQuad _ = None"

text \<open>
  \<open>UnpairedSurrogateEscape\<close>: the walk over the bytes, with the index it has reached and whether it
  is inside a string. \<open>None\<close> is the \<open>0, false\<close> of the code.
\<close>

function (sequential) surrogateWalk :: "nat \<Rightarrow> bool \<Rightarrow> string \<Rightarrow> nat option" where
  "surrogateWalk index inString [] = None"
| "surrogateWalk index False (c # rest) = surrogateWalk (Suc index) (c = CHR 0x22) rest"
| "surrogateWalk index True (c # rest) =
     (if c = CHR 0x22 then surrogateWalk (Suc index) False rest
      else if c \<noteq> CHR 0x5C then surrogateWalk (Suc index) True rest
      else case rest of
             [] \<Rightarrow> None
           | e # digits \<Rightarrow>
               if e \<noteq> CHR ''u'' then surrogateWalk (index + 2) True digits
               else case hexQuad digits of
                      None \<Rightarrow> None
                    | Some code \<Rightarrow>
                        if code < 0xD800 \<or> code > 0xDFFF then surrogateWalk (index + 6) True (drop 4 digits)
                        else if code > 0xDBFF then Some index
                        else (case drop 4 digits of
                                b # u # lows \<Rightarrow>
                                  (case hexQuad lows of
                                     None \<Rightarrow> Some index
                                   | Some low \<Rightarrow>
                                       if b \<noteq> CHR 0x5C \<or> u \<noteq> CHR ''u'' \<or> low < 0xDC00 \<or> low > 0xDFFF then Some index
                                       else surrogateWalk (index + 12) True (drop 4 lows))
                              | _ \<Rightarrow> Some index))"
  by pat_completeness auto
termination
  by (relation "measure (\<lambda>(index, inString, rest). length rest)") (auto dest: arg_cong[of _ _ length])

definition UnpairedSurrogateEscape :: "string \<Rightarrow> nat option" where
  "UnpairedSurrogateEscape data = surrogateWalk 0 False data"

definition fuelFor :: "token list \<Rightarrow> nat" where
  "fuelFor ts = 2 * length ts + 2"

definition decode :: "string \<Rightarrow> token list \<Rightarrow> Limits \<Rightarrow> bool \<Rightarrow> carrierFailure + json" where
  "decode data ts L rootScan =
     (if \<not> validUtf8 data then Inl (invalid ''JPS-CARRIER-INVALID-JSON'' [])
      else case parseValue (fuelFor ts) L rootScan [] 0 \<lparr>pTokens = ts, pNodes = 0\<rparr> of
             (Inl f, p) \<Rightarrow> Inl f
           | (Inr v, p) \<Rightarrow>
               if pTokens p \<noteq> [] then Inl (invalid ''JPS-CARRIER-INVALID-JSON'' [])
               else (case UnpairedSurrogateEscape data of
                       Some offset \<Rightarrow> Inl (invalid ''JPS-CARRIER-INVALID-JSON'' [])
                     | None \<Rightarrow> Inr v))"

definition Decode :: "string \<Rightarrow> token list \<Rightarrow> Limits \<Rightarrow> carrierFailure + json" where
  "Decode data ts L = decode data ts L False"

definition ScanRootDeclarations :: "string \<Rightarrow> token list \<Rightarrow> Limits \<Rightarrow> carrierFailure + object" where
  "ScanRootDeclarations data ts L = map_sum id objectOrNil (decode data ts L True)"

text \<open>\<open>lineColumn\<close>: the position of a byte offset, both counted from one.\<close>

definition lineColumn :: "string \<Rightarrow> nat \<Rightarrow> nat \<times> nat" where
  "lineColumn data offset =
     foldl (\<lambda>(line, column) c. if c = CHR 0x0A then (Suc line, 1) else (line, Suc column)) (1, 1) (take offset data)"

subsection \<open>What a document is as tokens\<close>

fun tokensOf :: "json \<Rightarrow> token list" where
  "tokensOf JNull = [TNull]"
| "tokensOf (JBool b) = [TBool b]"
| "tokensOf (JString s) = [TString s]"
| "tokensOf (JNumber s) = [TNumber s]"
| "tokensOf (JArray xs) = TDelim (CHR ''['') # concat (map tokensOf xs) @ [TDelim (CHR '']'')]"
| "tokensOf (JObject m) =
     TDelim (CHR ''{'') # concat (map (\<lambda>p. TString (fst p) # tokensOf (snd p)) m) @ [TDelim (CHR ''}'')]"

fun nodesOf :: "json \<Rightarrow> nat" where
  "nodesOf (JArray xs) = Suc (sum_list (map nodesOf xs))"
| "nodesOf (JObject m) = Suc (sum_list (map (\<lambda>p. nodesOf (snd p)) m))"
| "nodesOf _ = 1"

text \<open>The bounds on text and on nesting, for a value that starts at a depth.\<close>

fun fits :: "Limits \<Rightarrow> nat \<Rightarrow> json \<Rightarrow> bool" where
  "fits L d (JString s) = (length s \<le> MaxStringBytes L)"
| "fits L d (JNumber s) = (length s \<le> MaxStringBytes L)"
| "fits L d (JArray xs) = (d < MaxDepth L \<and> list_all (fits L (Suc d)) xs)"
| "fits L d (JObject m) =
     (d < MaxDepth L \<and> list_all (\<lambda>p. length (fst p) \<le> MaxStringBytes L \<and> fits L (Suc d) (snd p)) m)"
| "fits L d _ = True"

abbreviation memberTokens :: "object \<Rightarrow> token list" where
  "memberTokens m \<equiv> concat (map (\<lambda>p. TString (fst p) # tokensOf (snd p)) m)"

lemma mapParsed_Inr: "mapParsed f r = (Inr y, p) \<longleftrightarrow> (\<exists>x. r = (Inr x, p) \<and> y = f x)"
  by (cases r; cases "fst r") (auto simp: mapParsed_def)

lemma mapParsed_Inl: "mapParsed f r = (Inl e, p) \<longleftrightarrow> r = (Inl e, p)"
  by (cases r; cases "fst r") (auto simp: mapParsed_def)

lemma more_tokensOf [simp]: "more (tokensOf v @ rest)"
  by (cases v) auto

lemma tokensOf_nonempty [simp]: "tokensOf v \<noteq> []" "0 < length (tokensOf v)"
  by (cases v; simp)+

lemma closing_Some: "closing c ts = Some rest \<longleftrightarrow> ts = TDelim c # rest"
  by (cases "(c, ts)" rule: closing.cases) auto

lemma nextValue_Inr:
  "nextValue L location d p = (Inr h, p1) \<longleftrightarrow>
     pNodes p < MaxNodes L \<and>
     (\<exists>t. pTokens p = t # pTokens p1 \<and> classify L location d t = Inr h) \<and> pNodes p1 = Suc (pNodes p)"
  by (cases p; cases p1; cases "pTokens p") (auto simp: nextValue_def Let_def)

lemma classify_Leaf:
  "classify L location d t = Inr (Leaf v) \<Longrightarrow> tokensOf v = [t] \<and> fits L d v \<and> nodesOf v = 1 \<and> jsonWf v"
  by (auto simp: classify_def split: token.splits if_splits)

lemma classify_Open:
  "classify L location d t = Inr OpenObject \<longleftrightarrow> t = TDelim (CHR ''{'') \<and> d < MaxDepth L"
  "classify L location d t = Inr OpenArray \<longleftrightarrow> t = TDelim (CHR ''['') \<and> d < MaxDepth L"
  by (auto simp: classify_def split: token.splits)

lemma closeContainer_Inr:
  "closeContainer c location val p = (Inr v, p') \<longleftrightarrow>
     v = val \<and> pTokens p = TDelim c # pTokens p' \<and> pNodes p' = pNodes p"
  by (cases p; cases p') (auto simp: closeContainer_def closing_Some split: option.splits)

lemma memberName_Inr:
  "memberName L rootScan location val seen p = (Inr key, p1) \<longleftrightarrow>
     pTokens p = TString key # pTokens p1 \<and> pNodes p1 = pNodes p \<and> length key \<le> MaxStringBytes L \<and>
     (if rootScan then key \<notin> set seen else \<not> hasMember val key)"
  by (cases p; cases p1; cases "pTokens p"; cases "hd (pTokens p)") (auto simp: memberName_def)

subsection \<open>What a successful parse has read\<close>

lemma parse_sound:
  "parseValue n L False location d p = (Inr v, p') \<Longrightarrow>
     pTokens p = tokensOf v @ pTokens p' \<and> pNodes p' = pNodes p + nodesOf v \<and> pNodes p' \<le> MaxNodes L \<and>
     jsonWf v \<and> fits L d v"
  "parseObject n L False location d val seen p = (Inr m, p') \<Longrightarrow> distinct (map fst val) \<Longrightarrow>
     pNodes p \<le> MaxNodes L \<Longrightarrow>
     (\<exists>rest. m = val @ rest \<and> pTokens p = memberTokens rest @ TDelim (CHR ''}'') # pTokens p' \<and>
        pNodes p' = pNodes p + sum_list (map (\<lambda>q. nodesOf (snd q)) rest) \<and> pNodes p' \<le> MaxNodes L \<and>
        distinct (map fst m) \<and>
        list_all (\<lambda>q. jsonWf (snd q) \<and> length (fst q) \<le> MaxStringBytes L \<and> fits L d (snd q)) rest)"
  "parseArray n L False location d index ys p = (Inr xs, p') \<Longrightarrow> pNodes p \<le> MaxNodes L \<Longrightarrow>
     (\<exists>rest. xs = ys @ rest \<and> pTokens p = concat (map tokensOf rest) @ TDelim (CHR '']'') # pTokens p' \<and>
        pNodes p' = pNodes p + sum_list (map nodesOf rest) \<and> pNodes p' \<le> MaxNodes L \<and>
        list_all (\<lambda>x. jsonWf x \<and> fits L d x) rest)"
proof (induction n arbitrary: location d p v p' val seen m index ys xs)
  case 0
  { case 1 then show ?case by simp }
  { case 2 then show ?case by simp }
  { case 3 then show ?case by simp }
next
  case (Suc n)
  { case 1
    obtain r p1 where r: "nextValue L location d p = (r, p1)" by (meson surj_pair)
    from 1 r obtain h where h: "r = Inr h" by (cases r) auto
    with r have q: "pNodes p < MaxNodes L" "pNodes p1 = Suc (pNodes p)"
      and t: "\<exists>t. pTokens p = t # pTokens p1 \<and> classify L location d t = Inr h" by (auto simp: nextValue_Inr)
    show ?case
    proof (cases h)
      case (Leaf w)
      with 1 r h have "w = v" "p1 = p'" by simp_all
      with t Leaf q classify_Leaf show ?thesis by fastforce
    next
      case OpenObject
      with 1 r h obtain m where m: "parseObject n L False location (Suc d) [] [] p1 = (Inr m, p')" "v = JObject m"
        by (auto simp: mapParsed_Inr)
      from Suc.IH(2)[OF m(1)] q t OpenObject m(2) show ?thesis by (auto simp: classify_Open list_all_iff)
    next
      case OpenArray
      with 1 r h obtain xs where x: "parseArray n L False location (Suc d) 0 [] p1 = (Inr xs, p')" "v = JArray xs"
        by (auto simp: mapParsed_Inr)
      from Suc.IH(3)[OF x(1)] q t OpenArray x(2) show ?thesis by (auto simp: classify_Open list_all_iff)
    qed }
  { case 2
    show ?case
    proof (cases "more (pTokens p)")
      case False
      with 2 show ?thesis by (intro exI[of _ "[]"]) (auto simp: closeContainer_Inr)
    next
      case True
      with 2(1) obtain key p1 item p2 where k: "memberName L False location val seen p = (Inr key, p1)"
        "parseValue n L False (appendLocation location key) d p1 = (Inr item, p2)"
        "parseObject n L False location d (val @ [(key, item)]) seen p2 = (Inr m, p')"
        by (auto simp: retained_def split: prod.splits sum.splits)
      note v = Suc.IH(1)[OF k(2)]
      have "distinct (map fst (val @ [(key, item)]))" using k(1) 2(2) by (simp add: memberName_Inr hasMember_iff)
      from Suc.IH(2)[OF k(3) this] v obtain rest where r: "m = (val @ [(key, item)]) @ rest"
        "pTokens p2 = memberTokens rest @ TDelim (CHR ''}'') # pTokens p'"
        "pNodes p' = pNodes p2 + sum_list (map (\<lambda>q. nodesOf (snd q)) rest)" "pNodes p' \<le> MaxNodes L"
        "distinct (map fst m)" "list_all (\<lambda>q. jsonWf (snd q) \<and> length (fst q) \<le> MaxStringBytes L \<and> fits L d (snd q)) rest"
        by auto
      then show ?thesis using v k(1) by (intro exI[of _ "(key, item) # rest"]) (auto simp: memberName_Inr)
    qed }
  { case 3
    show ?case
    proof (cases "more (pTokens p)")
      case False
      with 3 show ?thesis by (intro exI[of _ "[]"]) (auto simp: closeContainer_Inr)
    next
      case True
      with 3(1) obtain item p2 where k: "parseValue n L False (appendLocation location (natString index)) d p = (Inr item, p2)"
        "parseArray n L False location d (Suc index) (ys @ [item]) p2 = (Inr xs, p')"
        by (auto split: prod.splits sum.splits)
      note v = Suc.IH(1)[OF k(1)]
      from Suc.IH(3)[OF k(2)] v obtain rest where "xs = (ys @ [item]) @ rest"
        "pTokens p2 = concat (map tokensOf rest) @ TDelim (CHR '']'') # pTokens p'"
        "pNodes p' = pNodes p2 + sum_list (map nodesOf rest)" "pNodes p' \<le> MaxNodes L"
        "list_all (\<lambda>x. jsonWf x \<and> fits L d x) rest" by auto
      then show ?thesis using v by (intro exI[of _ "item # rest"]) auto
    qed }
qed

subsection \<open>Every document within the limits is read\<close>

lemma nextValue_token:
  assumes "pTokens p = t # rest" "pNodes p < MaxNodes L"
  shows "nextValue L location d p = (classify L location d t, p\<lparr>pNodes := Suc (pNodes p), pTokens := rest\<rparr>)"
  using assms by (simp add: nextValue_def Let_def)

lemma nodesOf_pos: "0 < nodesOf v"
  by (cases v) auto

lemma parseObject_complete:
  assumes "\<And>q location p rest n. q \<in> set m \<Longrightarrow> pTokens p = tokensOf (snd q) @ rest \<Longrightarrow>
      pNodes p + nodesOf (snd q) \<le> MaxNodes L \<Longrightarrow> length (tokensOf (snd q)) \<le> n \<Longrightarrow>
      parseValue n L False location d p = (Inr (snd q), p\<lparr>pTokens := rest, pNodes := pNodes p + nodesOf (snd q)\<rparr>)"
    and "pTokens p = memberTokens m @ TDelim (CHR ''}'') # rest"
    and "pNodes p + sum_list (map (\<lambda>q. nodesOf (snd q)) m) \<le> MaxNodes L"
    and "distinct (map fst (val @ m))" "list_all (\<lambda>q. length (fst q) \<le> MaxStringBytes L) m"
    and "length (memberTokens m) < n"
  shows "parseObject n L False location d val seen p =
    (Inr (val @ m), p\<lparr>pTokens := rest, pNodes := pNodes p + sum_list (map (\<lambda>q. nodesOf (snd q)) m)\<rparr>)"
  using assms
proof (induction m arbitrary: p val n)
  case Nil
  then obtain n' where "n = Suc n'" by (cases n) auto
  with Nil show ?case by (simp add: closeContainer_def)
next
  case (Cons q m)
  obtain k v where q: "q = (k, v)" by (cases q)
  obtain n' where n: "n = Suc n'" using Cons.prems(6) by (cases n) auto
  let ?rest = "memberTokens m @ TDelim (CHR ''}'') # rest"
  have t: "pTokens p = TString k # tokensOf v @ ?rest" using Cons.prems(2) q by simp
  let ?p1 = "p\<lparr>pTokens := tokensOf v @ ?rest\<rparr>"
  have "memberName L False location val seen p = (Inr k, ?p1)"
    using t Cons.prems(4,5) q by (auto simp: memberName_def hasMember_iff)
  moreover have "parseValue n' L False (appendLocation location k) d ?p1 =
      (Inr v, ?p1\<lparr>pTokens := ?rest, pNodes := pNodes ?p1 + nodesOf v\<rparr>)"
    using Cons.prems(1)[of q ?p1 ?rest n'] q Cons.prems(3,6) n by simp
  moreover let ?p2 = "p\<lparr>pTokens := ?rest, pNodes := pNodes p + nodesOf v\<rparr>"
  have "parseObject n' L False location d (val @ [(k, v)]) seen ?p2 =
      (Inr ((val @ [(k, v)]) @ m), ?p2\<lparr>pTokens := rest, pNodes := pNodes ?p2 + sum_list (map (\<lambda>q. nodesOf (snd q)) m)\<rparr>)"
  proof (rule Cons.IH)
    fix q' location' rest' k' and p' :: parser
    assume "q' \<in> set m" "pTokens p' = tokensOf (snd q') @ rest'" "pNodes p' + nodesOf (snd q') \<le> MaxNodes L"
      "length (tokensOf (snd q')) \<le> k'"
    then show "parseValue k' L False location' d p' = (Inr (snd q'), p'\<lparr>pTokens := rest', pNodes := pNodes p' + nodesOf (snd q')\<rparr>)"
      using Cons.prems(1)[of q' p' rest' k' location'] by simp
  qed (use Cons.prems q n in auto)
  ultimately show ?case using q n t by (simp add: retained_def add.assoc)
qed

lemma parseArray_complete:
  assumes "\<And>x location p rest n. x \<in> set xs \<Longrightarrow> pTokens p = tokensOf x @ rest \<Longrightarrow>
      pNodes p + nodesOf x \<le> MaxNodes L \<Longrightarrow> length (tokensOf x) \<le> n \<Longrightarrow>
      parseValue n L False location d p = (Inr x, p\<lparr>pTokens := rest, pNodes := pNodes p + nodesOf x\<rparr>)"
    and "pTokens p = concat (map tokensOf xs) @ TDelim (CHR '']'') # rest"
    and "pNodes p + sum_list (map nodesOf xs) \<le> MaxNodes L"
    and "length (concat (map tokensOf xs)) < n"
  shows "parseArray n L False location d index ys p =
    (Inr (ys @ xs), p\<lparr>pTokens := rest, pNodes := pNodes p + sum_list (map nodesOf xs)\<rparr>)"
  using assms
proof (induction xs arbitrary: p ys n index)
  case Nil
  then obtain n' where "n = Suc n'" by (cases n) auto
  with Nil show ?case by (simp add: closeContainer_def)
next
  case (Cons x xs)
  obtain n' where n: "n = Suc n'" using Cons.prems(4) by (cases n) auto
  let ?rest = "concat (map tokensOf xs) @ TDelim (CHR '']'') # rest"
  have t: "pTokens p = tokensOf x @ ?rest" using Cons.prems(2) by simp
  have "parseValue n' L False (appendLocation location (natString index)) d p =
      (Inr x, p\<lparr>pTokens := ?rest, pNodes := pNodes p + nodesOf x\<rparr>)"
    using Cons.prems(1)[of x p ?rest n'] t Cons.prems(3,4) n by simp
  moreover let ?p2 = "p\<lparr>pTokens := ?rest, pNodes := pNodes p + nodesOf x\<rparr>"
  have "parseArray n' L False location d (Suc index) (ys @ [x]) ?p2 =
      (Inr ((ys @ [x]) @ xs), ?p2\<lparr>pTokens := rest, pNodes := pNodes ?p2 + sum_list (map nodesOf xs)\<rparr>)"
  proof (rule Cons.IH)
    fix x' location' rest' k' and p' :: parser
    assume "x' \<in> set xs" "pTokens p' = tokensOf x' @ rest'" "pNodes p' + nodesOf x' \<le> MaxNodes L"
      "length (tokensOf x') \<le> k'"
    then show "parseValue k' L False location' d p' = (Inr x', p'\<lparr>pTokens := rest', pNodes := pNodes p' + nodesOf x'\<rparr>)"
      using Cons.prems(1)[of x' p' rest' k' location'] by simp
  next
    have "0 < length (tokensOf x)" by simp
    then show "length (concat (map tokensOf xs)) < n'"
      using Cons.prems(4) unfolding n list.map concat.simps length_append by linarith
  qed (use Cons.prems n in auto)
  ultimately show ?case using n t by (simp add: add.assoc)
qed

lemma parse_complete:
  assumes "jsonWf v" "fits L d v" "pTokens p = tokensOf v @ rest" "pNodes p + nodesOf v \<le> MaxNodes L"
    "length (tokensOf v) \<le> n"
  shows "parseValue n L False location d p = (Inr v, p\<lparr>pTokens := rest, pNodes := pNodes p + nodesOf v\<rparr>)"
  using assms
proof (induction v arbitrary: location d p rest n rule: measure_induct_rule[of size])
  case (less v)
  obtain n' where n: "n = Suc n'" using less.prems(5) tokensOf_nonempty(2)[of v] by (cases n) auto
  have room: "pNodes p < MaxNodes L" using less.prems(4) nodesOf_pos[of v] by simp
  show ?case
  proof (cases v)
    case (JArray xs)
    let ?ts = "concat (map tokensOf xs) @ TDelim (CHR '']'') # rest"
    let ?p1 = "p\<lparr>pNodes := Suc (pNodes p), pTokens := ?ts\<rparr>"
    have "nextValue L location d p = (Inr OpenArray, ?p1)"
      using nextValue_token[of p "TDelim (CHR ''['')" ?ts L] less.prems room JArray by (simp add: classify_def)
    moreover have "parseArray n' L False location (Suc d) 0 [] ?p1 =
        (Inr ([] @ xs), ?p1\<lparr>pTokens := rest, pNodes := pNodes ?p1 + sum_list (map nodesOf xs)\<rparr>)"
    proof (rule parseArray_complete)
      fix x location' rest' m and q :: parser
      assume x: "x \<in> set xs" "pTokens q = tokensOf x @ rest'" "pNodes q + nodesOf x \<le> MaxNodes L" "length (tokensOf x) \<le> m"
      show "parseValue m L False location' (Suc d) q = (Inr x, q\<lparr>pTokens := rest', pNodes := pNodes q + nodesOf x\<rparr>)"
        by (rule less.IH[OF _ _ _ x(2,3,4)])
           (use x(1) less.prems JArray size_element_lt[OF x(1)] in \<open>auto simp: list_all_iff\<close>)
    qed (use less.prems JArray n in auto)
    ultimately show ?thesis using n JArray by (simp add: mapParsed_def)
  next
    case (JObject m)
    let ?ts = "memberTokens m @ TDelim (CHR ''}'') # rest"
    let ?p1 = "p\<lparr>pNodes := Suc (pNodes p), pTokens := ?ts\<rparr>"
    have "nextValue L location d p = (Inr OpenObject, ?p1)"
      using nextValue_token[of p "TDelim (CHR ''{'')" ?ts L] less.prems room JObject by (simp add: classify_def)
    moreover have "parseObject n' L False location (Suc d) [] [] ?p1 =
        (Inr ([] @ m), ?p1\<lparr>pTokens := rest, pNodes := pNodes ?p1 + sum_list (map (\<lambda>q. nodesOf (snd q)) m)\<rparr>)"
    proof (rule parseObject_complete)
      fix q location' rest' k and p' :: parser
      assume x: "q \<in> set m" "pTokens p' = tokensOf (snd q) @ rest'" "pNodes p' + nodesOf (snd q) \<le> MaxNodes L"
        "length (tokensOf (snd q)) \<le> k"
      have "(fst q, snd q) \<in> set m" using x(1) by simp
      from size_member_lt[OF this] x(1) less.prems(1,2) JObject
      show "parseValue k L False location' (Suc d) p' =
          (Inr (snd q), p'\<lparr>pTokens := rest', pNodes := pNodes p' + nodesOf (snd q)\<rparr>)"
        by (intro less.IH[OF _ _ _ x(2,3,4)]) (auto simp: list_all_iff)
    qed (use less.prems JObject n in \<open>auto simp: list_all_iff\<close>)
    ultimately show ?thesis using n JObject by (simp add: mapParsed_def)
  qed (use less.prems room n nextValue_token in \<open>simp_all add: classify_def\<close>)
qed

subsection \<open>The fuel is enough\<close>

lemma nextValue_tokens:
  "length (pTokens (snd (nextValue L location d p))) \<le> length (pTokens p)"
  "nextValue L location d p = (Inr h, p1) \<Longrightarrow> length (pTokens p1) < length (pTokens p)"
  "nextValue L location d p \<noteq> (Inl OutOfFuel, p1)"
  by (auto simp: nextValue_def classify_def invalidJSON_def invalid_def resource_def Let_def
      split: list.splits token.splits if_splits)

lemma parse_fuel:
  "2 * length (pTokens p) + 1 \<le> n \<Longrightarrow>
     fst (parseValue n L rs location d p) \<noteq> Inl OutOfFuel \<and>
     (isl (fst (parseValue n L rs location d p)) \<or>
      length (pTokens (snd (parseValue n L rs location d p))) < length (pTokens p))"
  "2 * length (pTokens p) + 2 \<le> n \<Longrightarrow>
     fst (parseObject n L rs location d val seen p) \<noteq> Inl OutOfFuel \<and>
     (isl (fst (parseObject n L rs location d val seen p)) \<or>
      length (pTokens (snd (parseObject n L rs location d val seen p))) < length (pTokens p))"
  "2 * length (pTokens p) + 2 \<le> n \<Longrightarrow>
     fst (parseArray n L rs location d index ys p) \<noteq> Inl OutOfFuel \<and>
     (isl (fst (parseArray n L rs location d index ys p)) \<or>
      length (pTokens (snd (parseArray n L rs location d index ys p))) < length (pTokens p))"
proof (induction n arbitrary: p location d val seen index ys)
  case 0
  { case 1 then show ?case by simp }
  { case 2 then show ?case by simp }
  { case 3 then show ?case by simp }
next
  case (Suc n)
  { case 1
    obtain r p1 where r: "nextValue L location d p = (r, p1)" by (meson surj_pair)
    show ?case
    proof (cases r)
      case (Inl f)
      with r nextValue_tokens(3)[of L location d p p1] show ?thesis by auto
    next
      case (Inr h)
      with r have l: "length (pTokens p1) < length (pTokens p)" using nextValue_tokens(2) by blast
      then have "2 * length (pTokens p1) + 2 \<le> n" using 1 by simp
      note o = Suc.IH(2)[OF this, of location "Suc d" "[]" "[]"] and a = Suc.IH(3)[OF this, of location "Suc d" 0 "[]"]
      show ?thesis
      proof (cases h)
        case OpenObject
        with r Inr o l show ?thesis
          by (cases "parseObject n L rs location (Suc d) [] [] p1"; cases "fst (parseObject n L rs location (Suc d) [] [] p1)")
             (auto simp: mapParsed_def)
      next
        case OpenArray
        with r Inr a l show ?thesis
          by (cases "parseArray n L rs location (Suc d) 0 [] p1"; cases "fst (parseArray n L rs location (Suc d) 0 [] p1)")
             (auto simp: mapParsed_def)
      qed (use r Inr l in simp)
    qed }
  { case 2
    show ?case
    proof (cases "more (pTokens p)")
      case False
      then show ?thesis
        by (auto simp: closeContainer_def invalidJSON_def invalid_def closing_Some split: option.splits)
    next
      case True
      obtain r p1 where r: "memberName L rs location val seen p = (r, p1)" by (meson surj_pair)
      show ?thesis
      proof (cases r)
        case (Inl f)
        with r have "f \<noteq> OutOfFuel"
          by (auto simp: memberName_def invalidJSON_def invalid_def resource_def split: list.splits token.splits if_splits)
        with r Inl True show ?thesis by simp
      next
        case (Inr key)
        with r have l: "length (pTokens p1) < length (pTokens p)" by (auto simp: memberName_Inr)
        then have f1: "2 * length (pTokens p1) + 1 \<le> n" using 2 by simp
        obtain q p2 where q: "parseValue n L rs (appendLocation location key) d p1 = (q, p2)" by (meson surj_pair)
        note v = Suc.IH(1)[OF f1, of "appendLocation location key" d, unfolded q]
        show ?thesis
        proof (cases q)
          case (Inl f)
          with v q r Inr True show ?thesis by simp
        next
          case item: (Inr item)
          with v have l2: "length (pTokens p2) < length (pTokens p1)" by simp
          then have "2 * length (pTokens p2) + 2 \<le> n" using l 2 by simp
          note o = Suc.IH(2)[OF this, of location d
            "if retained rs d key then val @ [(key, item)] else val" "if rs then key # seen else seen"]
          have step: "parseObject (Suc n) L rs location d val seen p =
              parseObject n L rs location d (if retained rs d key then val @ [(key, item)] else val)
                (if rs then key # seen else seen) p2"
            using q r Inr True item by simp
          show ?thesis using o l l2 unfolding step by linarith
        qed
      qed
    qed }
  { case 3
    show ?case
    proof (cases "more (pTokens p)")
      case False
      then show ?thesis
        by (auto simp: closeContainer_def invalidJSON_def invalid_def closing_Some split: option.splits)
    next
      case True
      have f1: "2 * length (pTokens p) + 1 \<le> n" using 3 by simp
      obtain q p2 where q: "parseValue n L rs (appendLocation location (natString index)) d p = (q, p2)" by (meson surj_pair)
      note v = Suc.IH(1)[OF f1, of "appendLocation location (natString index)" d, unfolded q]
      show ?thesis
      proof (cases q)
        case (Inl f)
        with v q True show ?thesis by simp
      next
        case item: (Inr item)
        with v have l2: "length (pTokens p2) < length (pTokens p)" by simp
        then have "2 * length (pTokens p2) + 2 \<le> n" using 3 by simp
        note o = Suc.IH(3)[OF this, of location d "Suc index" "if rs then ys else ys @ [item]"]
        have step: "parseArray (Suc n) L rs location d index ys p =
            parseArray n L rs location d (Suc index) (if rs then ys else ys @ [item]) p2"
          using q True item by simp
        show ?thesis using o l2 unfolding step by linarith
      qed
    qed }
qed

subsection \<open>The root scan\<close>

text \<open>What the scan keeps of a document: of the root its two declarations, of anything deeper nothing
  that nests.\<close>

fun prune :: "nat \<Rightarrow> json \<Rightarrow> json" where
  "prune d (JArray xs) = JArray []"
| "prune d (JObject m) =
     JObject (map (\<lambda>q. (fst q, prune (Suc d) (snd q))) (filter (\<lambda>q. retained True (Suc d) (fst q)) m))"
| "prune d v = v"

abbreviation prunedMembers :: "nat \<Rightarrow> object \<Rightarrow> object" where
  "prunedMembers d m \<equiv> map (\<lambda>q. (fst q, prune d (snd q))) (filter (\<lambda>q. retained True d (fst q)) m)"

lemma retained_False: "retained False d key"
  by (simp add: retained_def)

lemma memberName_scan:
  "set seen = fst ` set val \<Longrightarrow>
   memberName L True location val' seen p = memberName L False location val seen' p"
  by (cases "pTokens p"; cases "hd (pTokens p)") (simp_all add: memberName_def hasMember_iff)

lemma closeContainer_map: "closeContainer c location (f val) p = mapParsed f (closeContainer c location val p)"
  by (cases "closing c (pTokens p)") (simp_all add: closeContainer_def mapParsed_def)

lemma classify_leaf_prune: "nextValue L location d p = (Inr (Leaf v), p1) \<Longrightarrow> prune d v = v"
proof -
  assume "nextValue L location d p = (Inr (Leaf v), p1)"
  then obtain t where "tokensOf v = [t]" using classify_Leaf unfolding nextValue_Inr by blast
  then show ?thesis by (cases v) simp_all
qed

lemma parse_scan:
  "parseValue n L True location d p = mapParsed (prune d) (parseValue n L False location d p)"
  "set seen = fst ` set val \<Longrightarrow>
     parseObject n L True location d (prunedMembers d val) seen p =
     mapParsed (prunedMembers d) (parseObject n L False location d val seen' p)"
  "parseArray n L True location d index [] p = mapParsed (\<lambda>_. []) (parseArray n L False location d index ys p)"
proof (induction n arbitrary: location d p val seen seen' index ys)
  case 0
  { case 1 then show ?case by (simp add: mapParsed_def) }
  { case 2 then show ?case by (simp add: mapParsed_def) }
  { case 3 then show ?case by (simp add: mapParsed_def) }
next
  case (Suc n)
  { case 1
    obtain r p1 where r: "nextValue L location d p = (r, p1)" by (meson surj_pair)
    note o = Suc.IH(2)[of "[]" "[]" location "Suc d" p1 "[]"] and a = Suc.IH(3)[of location "Suc d" 0 p1 "[]"]
    show ?case
    proof (cases r)
      case (Inr h)
      with r o a classify_leaf_prune[of L location d p _ p1] show ?thesis
        by (cases h) (simp_all add: mapParsed_def sum.map_comp comp_def)
    qed (use r in \<open>simp add: mapParsed_def\<close>) }
  { case 2
    show ?case
    proof (cases "more (pTokens p)")
      case False
      then show ?thesis using closeContainer_map[of "CHR ''}''" location "prunedMembers d" val p] by simp
    next
      case True
      obtain r p1 where r: "memberName L False location val seen' p = (r, p1)"
        "memberName L True location (prunedMembers d val) seen p = (r, p1)"
        using memberName_scan[OF 2, of L location _ p] by (metis surj_pair)
      show ?thesis
      proof (cases r)
        case (Inl f)
        with r True show ?thesis by (simp add: mapParsed_def)
      next
        case (Inr key)
        obtain q p2 where q: "parseValue n L False (appendLocation location key) d p1 = (q, p2)" by (meson surj_pair)
        have q': "parseValue n L True (appendLocation location key) d p1 = (map_sum id (prune d) q, p2)"
          using Suc.IH(1)[of "appendLocation location key" d p1] q by (simp add: mapParsed_def)
        show ?thesis
        proof (cases q)
          case (Inl f)
          with r True Inr q q' show ?thesis by (simp add: mapParsed_def)
        next
          case item: (Inr item)
          have "set (key # seen) = fst ` set (val @ [(key, item)])" using 2 by auto
          from Suc.IH(2)[OF this, of location d p2 seen'] show ?thesis
            using r True Inr q q' item retained_False[of d key] by (cases "retained True d key") simp_all
        qed
      qed
    qed }
  { case 3
    show ?case
    proof (cases "more (pTokens p)")
      case False
      then show ?thesis by (simp add: closeContainer_map[of _ _ "\<lambda>_. []"])
    next
      case True
      obtain q p2 where q: "parseValue n L False (appendLocation location (natString index)) d p = (q, p2)" by (meson surj_pair)
      have q': "parseValue n L True (appendLocation location (natString index)) d p = (map_sum id (prune d) q, p2)"
        using Suc.IH(1)[of "appendLocation location (natString index)" d p] q by (simp add: mapParsed_def)
      show ?thesis
      proof (cases q)
        case (Inl f)
        with True q q' show ?thesis by (simp add: mapParsed_def)
      next
        case (Inr item)
        with True q q' Suc.IH(3)[of location d "Suc index" p2 "ys @ [item]"] show ?thesis by simp
      qed
    qed }
qed

subsection \<open>Surrogate escapes\<close>

text \<open>A JSON text as the walk sees it: stretches outside strings, and strings whose bodies are plain
  bytes, two-character escapes and \<open>\u\<close> escapes.\<close>

datatype piece = Plain char | Short char | CodeUnit string

fun pieceOk :: "piece \<Rightarrow> bool" where
  "pieceOk (Plain c) = (c \<noteq> CHR 0x22 \<and> c \<noteq> CHR 0x5C)"
| "pieceOk (Short c) = (c \<noteq> CHR ''u'')"
| "pieceOk (CodeUnit ds) = (length ds = 4 \<and> hexQuad ds \<noteq> None)"

fun pieceText :: "piece \<Rightarrow> string" where
  "pieceText (Plain c) = [c]"
| "pieceText (Short c) = [CHR 0x5C, c]"
| "pieceText (CodeUnit ds) = CHR 0x5C # CHR ''u'' # ds"

definition unitOf :: "string \<Rightarrow> nat" where
  "unitOf ds = the (hexQuad ds)"

fun unpaired :: "piece list \<Rightarrow> bool" where
  "unpaired [] = False"
| "unpaired (CodeUnit ds # ps) =
     (if unitOf ds < 0xD800 \<or> unitOf ds > 0xDFFF then unpaired ps
      else if unitOf ds > 0xDBFF then True
      else case ps of
             CodeUnit es # qs \<Rightarrow> if unitOf es < 0xDC00 \<or> unitOf es > 0xDFFF then True else unpaired qs
           | _ \<Rightarrow> True)"
| "unpaired (_ # ps) = unpaired ps"

definition bodyText :: "piece list \<Rightarrow> string" where
  "bodyText ps = concat (map pieceText ps)"

definition segmentText :: "string \<times> piece list \<Rightarrow> string" where
  "segmentText s = fst s @ CHR 0x22 # bodyText (snd s) @ [CHR 0x22]"

lemma hexQuad_take: "length ds = 4 \<Longrightarrow> hexQuad (ds @ t) = hexQuad ds"
  by (cases ds; cases "tl ds"; cases "tl (tl ds)"; cases "tl (tl (tl ds))") auto

lemma hexQuad_unit: "length ds = 4 \<Longrightarrow> hexQuad ds \<noteq> None \<Longrightarrow> hexQuad (ds @ t) = Some (unitOf ds)"
  by (auto simp: hexQuad_take unitOf_def)

text \<open>What follows a high surrogate is its low half only when it is the next piece.\<close>

lemma walk_body:
  assumes "list_all pieceOk ps"
  shows "(unpaired ps \<longrightarrow> surrogateWalk i True (bodyText ps @ CHR 0x22 # t) \<noteq> None) \<and>
    (\<not> unpaired ps \<longrightarrow> surrogateWalk i True (bodyText ps @ CHR 0x22 # t) =
       surrogateWalk (i + length (bodyText ps) + 1) False t)"
  using assms
proof (induction ps arbitrary: i rule: unpaired.induct)
  case 1
  then show ?case by (simp add: bodyText_def)
next
  case (2 ds ps)
  then have d: "length ds = 4" "hexQuad (ds @ u) = Some (unitOf ds)" for u by (auto simp: hexQuad_unit)
  let ?after = "bodyText ps @ CHR 0x22 # t"
  have shape: "bodyText (CodeUnit ds # ps) @ CHR 0x22 # t = CHR 0x5C # CHR ''u'' # ds @ ?after"
    by (simp add: bodyText_def)
  have len: "length (bodyText (CodeUnit ds # ps)) = 6 + length (bodyText ps)" using d(1) by (simp add: bodyText_def)
  consider (outside) "unitOf ds < 0xD800 \<or> unitOf ds > 0xDFFF" | (low) "\<not> (unitOf ds < 0xD800 \<or> unitOf ds > 0xDFFF)" "unitOf ds > 0xDBFF"
    | (high) "\<not> (unitOf ds < 0xD800 \<or> unitOf ds > 0xDFFF)" "\<not> unitOf ds > 0xDBFF" by blast
  then show ?case
  proof cases
    case outside
    then have w: "surrogateWalk i True (bodyText (CodeUnit ds # ps) @ CHR 0x22 # t) = surrogateWalk (i + 6) True ?after"
      unfolding shape using d by simp
    have "unpaired (CodeUnit ds # ps) = unpaired ps" using outside by simp
    with 2(1)[OF outside, of "i + 6"] 2(3) len show ?thesis unfolding w by (simp add: add.commute add.left_commute)
  next
    case low
    then show ?thesis unfolding shape using d by simp
  next
    case high
    show ?thesis
    proof (cases "\<exists>es qs. ps = CodeUnit es # qs")
      case True
      then obtain es qs where ps: "ps = CodeUnit es # qs" by blast
      with 2(3) have e: "length es = 4" "hexQuad (es @ u) = Some (unitOf es)" for u by (auto simp: hexQuad_unit)
      have after: "?after = CHR 0x5C # CHR ''u'' # es @ bodyText qs @ CHR 0x22 # t" by (simp add: ps bodyText_def)
      show ?thesis
      proof (cases "unitOf es < 0xDC00 \<or> unitOf es > 0xDFFF")
        case True
        then show ?thesis unfolding shape after using d e high by (simp add: ps)
      next
        case False
        then have w: "surrogateWalk i True (bodyText (CodeUnit ds # ps) @ CHR 0x22 # t) =
            surrogateWalk (i + 12) True (bodyText qs @ CHR 0x22 # t)"
          unfolding shape after using d e high by simp
        have "length (bodyText (CodeUnit ds # ps)) = 12 + length (bodyText qs)"
          using d(1) e(1) by (simp add: ps bodyText_def)
        moreover have "unpaired (CodeUnit ds # ps) = unpaired qs" using high False ps by simp
        moreover have "list_all pieceOk qs" using 2(3) ps by simp
        ultimately show ?thesis
          using 2(2)[OF high ps refl False, of "i + 12"] unfolding w by (simp add: add.commute add.left_commute)
      qed
    next
      case False
      then have u: "unpaired (CodeUnit ds # ps)" using high by (auto split: list.splits piece.splits)
      have "surrogateWalk i True (CHR 0x5C # CHR ''u'' # ds @ ?after) = Some i"
      proof (cases ps)
        case Nil
        then show ?thesis using d high by (cases t) (auto simp: bodyText_def split: option.splits)
      next
        case (Cons q qs)
        with False 2(3) show ?thesis using d high
          by (cases q) (auto simp: bodyText_def split: option.splits list.splits)
      qed
      then show ?thesis unfolding shape using u by simp
    qed
  qed
qed (simp_all add: bodyText_def add.commute add.left_commute)

lemma walk_outside: "CHR 0x22 \<notin> set s \<Longrightarrow> surrogateWalk i False (s @ t) = surrogateWalk (i + length s) False t"
  by (induction s arbitrary: i) auto

lemma walk_segments:
  assumes "list_all (\<lambda>s. CHR 0x22 \<notin> set (fst s) \<and> list_all pieceOk (snd s)) segments" "CHR 0x22 \<notin> set rest"
  shows "surrogateWalk i False (concat (map segmentText segments) @ rest) = None \<longleftrightarrow>
    list_all (\<lambda>s. \<not> unpaired (snd s)) segments"
  using assms
proof (induction segments arbitrary: i)
  case Nil
  then show ?case using walk_outside[of rest i "[]"] by simp
next
  case (Cons s segments)
  obtain a ps where s: "s = (a, ps)" by (cases s)
  let ?t = "concat (map segmentText segments) @ rest"
  have "surrogateWalk i False (concat (map segmentText (s # segments)) @ rest) =
      surrogateWalk (i + length a + 1) True (bodyText ps @ CHR 0x22 # ?t)"
    using Cons.prems s walk_outside[of a i "CHR 0x22 # bodyText ps @ CHR 0x22 # ?t"] by (simp add: segmentText_def)
  moreover have "list_all pieceOk ps" using Cons.prems s by simp
  note walk_body[OF this, of "i + length a + 1" ?t]
  ultimately show ?case using Cons.IH[of "i + length a + 1 + length (bodyText ps) + 1"] Cons.prems s by auto
qed

subsection \<open>Properties\<close>

lemma Decode_accepts:
  "(Decode data ts L = Inr v \<longleftrightarrow>
      validUtf8 data \<and> UnpairedSurrogateEscape data = None \<and> ts = tokensOf v \<and> jsonWf v \<and> fits L 0 v \<and>
      nodesOf v \<le> MaxNodes L) \<and> Decode data ts L \<noteq> Inl OutOfFuel"
proof -
  let ?p = "\<lparr>pTokens = ts, pNodes = 0\<rparr>"
  obtain r p where r: "parseValue (fuelFor ts) L False [] 0 ?p = (r, p)" by (meson surj_pair)
  have total: "r \<noteq> Inl OutOfFuel"
    using parse_fuel(1)[of ?p "fuelFor ts" L False "[]" 0] r by (simp add: fuelFor_def)
  have "r = Inr v \<and> pTokens p = [] \<longleftrightarrow> ts = tokensOf v \<and> jsonWf v \<and> fits L 0 v \<and> nodesOf v \<le> MaxNodes L"
  proof
    assume "r = Inr v \<and> pTokens p = []"
    with parse_sound(1)[of "fuelFor ts" L "[]" 0 ?p v p] r
    show "ts = tokensOf v \<and> jsonWf v \<and> fits L 0 v \<and> nodesOf v \<le> MaxNodes L" by simp
  next
    assume h: "ts = tokensOf v \<and> jsonWf v \<and> fits L 0 v \<and> nodesOf v \<le> MaxNodes L"
    with parse_complete[of v L 0 ?p "[]" "fuelFor ts" "[]"] r show "r = Inr v \<and> pTokens p = []"
      by (auto simp: fuelFor_def)
  qed
  with r total show ?thesis
    by (cases r) (auto simp: Decode_def decode_def invalid_def split: option.splits if_splits)
qed

text \<open>C14: the decoder accepts exactly the documents within its limits. A decode returns a value if and
  only if the tokens are that value's own, with nothing before or after them, its member names are
  distinct at every depth, its nodes, nesting and texts are within the limits, and the bytes are
  UTF-8 without an unpaired surrogate escape. The parser's fuel is never what ends it.\<close>

theorem Decode_exact:
  "(Decode data ts L = Inr v \<longleftrightarrow>
      validUtf8 data \<and> UnpairedSurrogateEscape data = None \<and> ts = tokensOf v \<and> jsonWf v \<and> fits L 0 v \<and>
      nodesOf v \<le> MaxNodes L) \<and> Decode data ts L \<noteq> Inl OutOfFuel"
  by (rule Decode_accepts)

lemma ScanRootDeclarations_prune:
  "ScanRootDeclarations data ts L = map_sum id (\<lambda>v. objectOrNil (prune 0 v)) (Decode data ts L)"
proof -
  obtain r p where r: "parseValue (fuelFor ts) L False [] 0 \<lparr>pTokens = ts, pNodes = 0\<rparr> = (r, p)" by (meson surj_pair)
  have "parseValue (fuelFor ts) L True [] 0 \<lparr>pTokens = ts, pNodes = 0\<rparr> = (map_sum id (prune 0) r, p)"
    using parse_scan(1)[of "fuelFor ts" L "[]" 0] r by (simp add: mapParsed_def)
  with r show ?thesis
    by (cases r) (auto simp: ScanRootDeclarations_def Decode_def decode_def split: option.splits)
qed

text \<open>C31: the root scan reads the whole document. It fails exactly where a full decode fails, with the
  same failure, and otherwise returns the root's version and profile declarations as the full decode
  would have read them, any container among them emptied.\<close>

theorem ScanRootDeclarations_agrees:
  "ScanRootDeclarations data ts L = map_sum id (\<lambda>v. objectOrNil (prune 0 v)) (Decode data ts L)"
  by (rule ScanRootDeclarations_prune)

text \<open>The surrogate scan is exact. Over a text whose strings are made of plain bytes and escapes,
  it reports an offset exactly when some string has a surrogate escape that is not half of a pair:
  a low one that no high one precedes, or a high one no low one follows at once.\<close>

theorem UnpairedSurrogateEscape_exact:
  assumes "list_all (\<lambda>s. CHR 0x22 \<notin> set (fst s) \<and> list_all pieceOk (snd s)) segments" "CHR 0x22 \<notin> set rest"
  shows "UnpairedSurrogateEscape (concat (map segmentText segments) @ rest) = None \<longleftrightarrow>
    list_all (\<lambda>s. \<not> unpaired (snd s)) segments"
  unfolding UnpairedSurrogateEscape_def by (rule walk_segments[OF assms])

theorem UnpairedSurrogateEscape_exact_witness:
  "UnpairedSurrogateEscape (concat (map segmentText
     [(''['', [CodeUnit ''d83d'', CodeUnit ''DE00'']), ('','', [Plain (CHR ''x''), CodeUnit ''d83d'', Short (CHR ''n'')])]) @ '']'')
   \<noteq> None"
  by (subst UnpairedSurrogateEscape_exact) (simp_all add: unitOf_def hexVal_def less_eq_char_def)

end
