(* ===== verification/Comparable.thy ===== *)
theory Comparable
  imports Evaluation_Laws
begin

section \<open>Comparable facts\<close>

text \<open>
  \<open>internal/evaluation/comparable.go\<close>: the static check that finds, for every fact comparison a
  pack states, whether the fact it reads has a JSON type the comparison can never match. The walk
  evaluates nothing, is charged against the work limit, and records each finding once. It is shown to
  compute, within its budget, exactly the findings of a walk without state; and a pack with no
  finding is shown to evaluate without a type mismatch and without a comparison that is unknown
  because its fact is of the wrong type. The sentences of a refusal are not modelled.
\<close>

subsection \<open>Findings\<close>

record incomparable =
  iPath :: string
  iWithin :: "string option"
  iOperator :: string
  iFactType :: string
  iOrdered :: bool
  iMatches :: "string list"

record findingKey =
  kPath :: string
  kWithinSet :: bool
  kWithin :: string
  kOperator :: string
  kFactType :: string
  kOrdered :: bool
  kMatches :: string

definition incomparableKey :: "incomparable \<Rightarrow> findingKey" where
  "incomparableKey f =
     \<lparr>kPath = iPath f, kWithinSet = iWithin f \<noteq> None, kWithin = (case iWithin f of None \<Rightarrow> [] | Some w \<Rightarrow> w),
      kOperator = iOperator f, kFactType = iFactType f, kOrdered = iOrdered f,
      kMatches = joinWith [CHR 0x00] (iMatches f)\<rparr>"

subsection \<open>The check\<close>

record comparability =
  cQuantifiers :: bool
  cBudget :: nat
  cCharged :: nat
  cExceeded :: bool
  cPointers :: "string \<Rightarrow> compiledPointer option"
  cFound :: "incomparable list"
  cSeen :: "findingKey set"

definition spendUnits :: "nat \<Rightarrow> comparability \<Rightarrow> bool \<times> comparability" where
  "spendUnits units c =
     (let total = cCharged c + units; over = cExceeded c \<or> cBudget c < total
      in (\<not> over, c\<lparr>cCharged := total, cExceeded := over\<rparr>))"

text \<open>\<open>resolve\<close>: the scan is charged once per distinct pointer, the steps and bytes every time.\<close>

definition scanPointer :: "string \<Rightarrow> comparability \<Rightarrow> compiledPointer option \<times> comparability" where
  "scanPointer path c =
     (case cPointers c path of
        Some p \<Rightarrow> (Some p, c)
      | None \<Rightarrow>
        (let (ok, c1) = spendUnits (1 + length path) c; p = compilePointer path
         in if ok then (Some p, c1\<lparr>cPointers := (cPointers c1)(path \<mapsto> p)\<rparr>) else (None, c1)))"

definition cResolve :: "json \<Rightarrow> string \<Rightarrow> comparability \<Rightarrow> json option \<times> comparability" where
  "cResolve doc path c =
     (case scanPointer path c of
        (None, c1) \<Rightarrow> (None, c1)
      | (Some p, c1) \<Rightarrow>
        (let (ok, c2) = spendUnits (pointerSteps p) c1
         in if ok then (resolveCompiled p doc, c2) else (None, c2)))"

definition recordFinding :: "incomparable \<Rightarrow> comparability \<Rightarrow> comparability" where
  "recordFinding f c =
     (if incomparableKey f \<in> cSeen c then c
      else c\<lparr>cSeen := insert (incomparableKey f) (cSeen c), cFound := cFound c @ [f]\<rparr>)"

text \<open>The question \<open>comparison\<close> asks of a resolved value.\<close>

definition judgeValue :: "object \<Rightarrow> string \<Rightarrow> string option \<Rightarrow> json \<Rightarrow> comparability \<Rightarrow> comparability" where
  "judgeValue m path inside value c1 =
     (let operator = stringOrEmpty (jget m ''operator'');
          finding = \<lparr>iPath = path, iWithin = inside, iOperator = operator, iFactType = jsonType value,
                     iOrdered = False, iMatches = []\<rparr>
      in if OrderedOperator operator then
           (case asString value of
              Some string \<Rightarrow>
                (let (ok, c2) = spendUnits (length string) c1
                 in if \<not> ok then c2
                    else if decimalPattern string then c2
                    else recordFinding (finding\<lparr>iOrdered := True\<rparr>) c2)
            | None \<Rightarrow> recordFinding (finding\<lparr>iOrdered := True\<rparr>) c1)
         else if operator = ''equals'' \<or> operator = ''not-equals'' then
           (let kind = jsonType (jget m ''value'')
            in if kind = jsonType value then c1 else recordFinding (finding\<lparr>iMatches := [kind]\<rparr>) c1)
         else if operator = ''in'' then
           (case jget m ''value'' of
              JArray items \<Rightarrow>
                if items = [] then c1
                else (let (ok, c2) = spendUnits (length items) c1; kinds = dedupKinds items
                      in if \<not> ok then c2
                         else if jsonType value \<in> set kinds then c2
                         else recordFinding (finding\<lparr>iMatches := kinds\<rparr>) c2)
            | _ \<Rightarrow> c1)
         else c1)"

definition comparison :: "object \<Rightarrow> json \<Rightarrow> string option \<Rightarrow> comparability \<Rightarrow> comparability" where
  "comparison m doc inside c =
     (case asString (jget m ''path'') of
        None \<Rightarrow> c
      | Some path \<Rightarrow>
        (case cResolve doc path c of (None, c1) \<Rightarrow> c1 | (Some value, c1) \<Rightarrow> judgeValue m path inside value c1))"

lemma size_asArray:
  "2 * size_list size (asArray (jget m k)) < Suc (Suc (2 * size_list (size_prod (\<lambda>x. 0) size) m))"
  using size_jget_le[of m k] by (cases "jget m k") auto

function (sequential)
  walk :: "json \<Rightarrow> json \<Rightarrow> string option \<Rightarrow> comparability \<Rightarrow> comparability"
  and walkItems :: "json list \<Rightarrow> json \<Rightarrow> string option \<Rightarrow> comparability \<Rightarrow> comparability"
  and walkElements :: "object \<Rightarrow> json list \<Rightarrow> string \<Rightarrow> comparability \<Rightarrow> comparability"
where
  "walk (JObject m) doc inside c =
     (if cExceeded c then c
      else let (ok, c1) = spendUnits 1 c in
      if \<not> ok then c1
      else case asString (jget m ''op'') of
        None \<Rightarrow> c1
      | Some op \<Rightarrow>
        if op = ''not'' then walk (jget m ''condition'') doc inside c1
        else if op = ''all'' \<or> op = ''any'' then walkItems (asArray (jget m ''conditions'')) doc inside c1
        else if op = ''fact'' then comparison m doc inside c1
        else if (op = ''exists'' \<or> op = ''every'') \<and> cQuantifiers c1 then
          (let collection = stringOrEmpty (jget m ''path''); (selected, c2) = cResolve doc collection c1
           in case selected of
                Some (JArray elements) \<Rightarrow> walkElements m elements collection c2
              | _ \<Rightarrow> c2)
        else c1)"
| "walk node doc inside c = (if cExceeded c then c else snd (spendUnits 1 c))"
| "walkItems [] doc inside c = c"
| "walkItems (child # children) doc inside c = walkItems children doc inside (walk child doc inside c)"
| "walkElements m [] collection c = c"
| "walkElements m (element # elements) collection c =
     walkElements m elements collection (walk (jget m ''where'') element (Some collection) c)"
  by pat_completeness auto
termination
  by (relation "measures
        [\<lambda>x. case x of Inl (n, _) \<Rightarrow> 2 * size n | Inr (Inl (items, _)) \<Rightarrow> 2 * size_list size items
                     | Inr (Inr (m, _)) \<Rightarrow> 2 * size (JObject m) - 1,
         \<lambda>x. case x of Inr (Inr (_, elements, _)) \<Rightarrow> length elements + 1 | _ \<Rightarrow> 0]")
     (auto simp: condition_sizes size_asArray)

text \<open>\<open>incomparableFacts\<close>: the applicability, then the exceptions and the rules in pack order.\<close>

definition startComparability :: "bool \<Rightarrow> nat \<Rightarrow> comparability" where
  "startComparability q limit =
     \<lparr>cQuantifiers = q, cBudget = limit, cCharged = 0, cExceeded = False, cPointers = Map.empty,
      cFound = [], cSeen = {}\<rparr>"

fun walkEntries :: "json list \<Rightarrow> json \<Rightarrow> comparability \<Rightarrow> comparability" where
  "walkEntries [] facts c = c"
| "walkEntries (entry # entries) facts c =
     (if cExceeded c then c
      else walkEntries entries facts
             (case entry of JObject stated \<Rightarrow> walk (jget stated ''when'') facts None c | _ \<Rightarrow> c))"

definition incomparableFacts :: "object \<Rightarrow> json \<Rightarrow> bool \<Rightarrow> nat \<Rightarrow> incomparable list \<times> bool" where
  "incomparableFacts pack facts q limit =
     (let c = startComparability q limit;
          c1 = (if hasMember pack ''applicability'' then walk (jget pack ''applicability'') facts None c else c);
          c2 = walkEntries (asArray (jget pack ''exceptions'')) facts c1;
          c3 = walkEntries (asArray (jget pack ''rules'')) facts c2
      in (cFound c3, cExceeded c3))"

definition requireComparable :: "object \<Rightarrow> json \<Rightarrow> bool \<Rightarrow> nat \<Rightarrow> bool" where
  "requireComparable pack facts q limit =
     (let (found, over) = incomparableFacts pack facts q limit in over \<or> found \<noteq> [])"

interpretation cm: meter spendUnits cCharged cBudget cExceeded
  by unfold_locales (auto simp: spendUnits_def Let_def)

subsection \<open>The check without its state\<close>

text \<open>What a walk is due over a condition: units, the pointers it reads, and the findings in walk
  order, repetitions included.\<close>

datatype survey = Survey (sUnits: nat) (sPaths: "string list") (sFindings: "incomparable list")

definition joinSurvey :: "survey \<Rightarrow> survey \<Rightarrow> survey" where
  "joinSurvey s t = Survey (sUnits s + sUnits t) (sPaths s @ sPaths t) (sFindings s @ sFindings t)"

definition surveys :: "survey list \<Rightarrow> survey" where
  "surveys ss = foldr joinSurvey ss (Survey 0 [] [])"

text \<open>Whether a comparison can match a value of this one's JSON type.\<close>

definition matchable :: "string \<Rightarrow> json \<Rightarrow> json \<Rightarrow> bool" where
  "matchable operator operand value =
     (if OrderedOperator operator then decimalPattern (stringOrEmpty value) \<and> jsonType value = ''string''
      else if operator = ''equals'' \<or> operator = ''not-equals'' then jsonType operand = jsonType value
      else if operator = ''in''
        then asArray operand = [] \<or> jsonType value \<in> set (map jsonType (asArray operand))
      else True)"

definition matchesOf :: "string \<Rightarrow> json \<Rightarrow> string list" where
  "matchesOf operator operand =
     (if OrderedOperator operator then []
      else if operator = ''in'' then dedupKinds (asArray operand) else [jsonType operand])"

text \<open>The bytes or items read to decide that.\<close>

definition readUnits :: "string \<Rightarrow> json \<Rightarrow> json \<Rightarrow> nat" where
  "readUnits operator operand value =
     (if OrderedOperator operator then length (stringOrEmpty value)
      else if operator = ''in'' then length (asArray operand) else 0)"

definition judgeSurvey :: "object \<Rightarrow> string \<Rightarrow> string option \<Rightarrow> json \<Rightarrow> survey" where
  "judgeSurvey m path inside value =
     (let operator = stringOrEmpty (jget m ''operator''); operand = jget m ''value''
      in Survey (readUnits operator operand value) []
           (if matchable operator operand value then []
            else [\<lparr>iPath = path, iWithin = inside, iOperator = operator, iFactType = jsonType value,
                   iOrdered = OrderedOperator operator, iMatches = matchesOf operator operand\<rparr>]))"

definition factSurvey :: "object \<Rightarrow> json \<Rightarrow> string option \<Rightarrow> survey" where
  "factSurvey m doc inside =
     (case asString (jget m ''path'') of
        None \<Rightarrow> Survey 0 [] []
      | Some path \<Rightarrow> joinSurvey (Survey (stepsOf path) [path] [])
          (case resolvePointer doc path of None \<Rightarrow> Survey 0 [] [] | Some value \<Rightarrow> judgeSurvey m path inside value))"

definition elementsAtPath :: "string \<Rightarrow> json \<Rightarrow> json list" where
  "elementsAtPath path doc = (case resolvePointer doc path of Some (JArray xs) \<Rightarrow> xs | _ \<Rightarrow> [])"

function (sequential) surveyOf :: "bool \<Rightarrow> json \<Rightarrow> json \<Rightarrow> string option \<Rightarrow> survey" where
  "surveyOf q (JObject m) doc inside =
     joinSurvey (Survey 1 [] [])
       (case asString (jget m ''op'') of
          None \<Rightarrow> Survey 0 [] []
        | Some op \<Rightarrow>
          if op = ''not'' then surveyOf q (jget m ''condition'') doc inside
          else if op = ''all'' \<or> op = ''any'' then
            surveys (map (\<lambda>c. surveyOf q c doc inside) (asArray (jget m ''conditions'')))
          else if op = ''fact'' then factSurvey m doc inside
          else if (op = ''exists'' \<or> op = ''every'') \<and> q then
            (let collection = stringOrEmpty (jget m ''path'')
             in joinSurvey (Survey (stepsOf collection) [collection] [])
                  (surveys (map (\<lambda>x. surveyOf q (jget m ''where'') x (Some collection))
                                (elementsAtPath collection doc))))
          else Survey 0 [] [])"
| "surveyOf q node doc inside = Survey 1 [] []"
  by pat_completeness auto
termination
  by (relation "measure (\<lambda>(q, n, d, w). size n)")
     (simp_all only: in_measure case_prod_conv wf_measure size_asArray_jget size_jget_lt)

definition conditionsOf :: "object \<Rightarrow> json list" where
  "conditionsOf pack =
     (if hasMember pack ''applicability'' then [jget pack ''applicability''] else [])
     @ concat (map (\<lambda>entry. case entry of JObject stated \<Rightarrow> [jget stated ''when''] | _ \<Rightarrow> [])
                   (asArray (jget pack ''exceptions'') @ asArray (jget pack ''rules'')))"

definition packSurvey :: "bool \<Rightarrow> object \<Rightarrow> json \<Rightarrow> survey" where
  "packSurvey q pack facts = surveys (map (\<lambda>node. surveyOf q node facts None) (conditionsOf pack))"

lemma joinSurvey_sel [simp]:
  "sUnits (joinSurvey s t) = sUnits s + sUnits t" "sPaths (joinSurvey s t) = sPaths s @ sPaths t"
  "sFindings (joinSurvey s t) = sFindings s @ sFindings t"
  by (simp_all add: joinSurvey_def)

lemma joinSurvey_empty [simp]:
  "joinSurvey s (Survey 0 [] []) = s" "joinSurvey (Survey 0 [] []) s = s"
  by (cases s; simp add: joinSurvey_def)+

lemma joinSurvey_assoc: "joinSurvey (joinSurvey s t) v = joinSurvey s (joinSurvey t v)"
  by (simp add: joinSurvey_def)

lemma surveys_simps [simp]:
  "surveys [] = Survey 0 [] []" "surveys (s # ss) = joinSurvey s (surveys ss)"
  by (simp_all add: surveys_def)

lemma surveys_findings: "sFindings (surveys ss) = concat (map sFindings ss)"
  by (induction ss) simp_all

subsection \<open>The walk does what the survey says\<close>

definition cCoherent :: "comparability \<Rightarrow> bool" where
  "cCoherent c \<longleftrightarrow> (\<forall>p x. cPointers c p = Some x \<longrightarrow> x = compilePointer p)"

definition cFresh :: "bool \<Rightarrow> comparability \<Rightarrow> bool" where
  "cFresh q c \<longleftrightarrow> cm.within_limit c \<and> cCoherent c \<and> cQuantifiers c = q"

text \<open>From \<open>c\<close> to \<open>c'\<close> a survey was carried out: its units and scans charged, its findings recorded.\<close>

definition carriesOut :: "comparability \<Rightarrow> comparability \<Rightarrow> survey \<Rightarrow> bool" where
  "carriesOut c c' s \<longleftrightarrow>
     cm.accounts c c' (sUnits s + scanUnits (dom (cPointers c)) (set (sPaths s))) \<and>
     cCoherent c' \<and> cQuantifiers c' = cQuantifiers c \<and>
     (\<not> cExceeded c' \<longrightarrow> dom (cPointers c') = dom (cPointers c) \<union> set (sPaths s) \<and>
        (let d = foldl (\<lambda>d f. recordFinding f d) c (sFindings s) in cFound c' = cFound d \<and> cSeen c' = cSeen d))"

lemma recordFinding_frame [simp]:
  "cExceeded (recordFinding f c) = cExceeded c" "cCharged (recordFinding f c) = cCharged c"
  "cBudget (recordFinding f c) = cBudget c" "cPointers (recordFinding f c) = cPointers c"
  "cQuantifiers (recordFinding f c) = cQuantifiers c"
  by (simp_all add: recordFinding_def)

lemma recordFinding_cong:
  "cFound c = cFound d \<Longrightarrow> cSeen c = cSeen d \<Longrightarrow>
   cFound (foldl (\<lambda>d f. recordFinding f d) c fs) = cFound (foldl (\<lambda>d f. recordFinding f d) d fs) \<and>
   cSeen (foldl (\<lambda>d f. recordFinding f d) c fs) = cSeen (foldl (\<lambda>d f. recordFinding f d) d fs)"
proof (induction fs arbitrary: c d)
  case (Cons f fs)
  then have "cFound (recordFinding f c) = cFound (recordFinding f d) \<and> cSeen (recordFinding f c) = cSeen (recordFinding f d)"
    by (simp add: recordFinding_def)
  then show ?case using Cons.IH[of "recordFinding f c" "recordFinding f d"] by (simp del: recordFinding_frame)
qed simp

lemma carriesOut_fresh: "cFresh q c \<Longrightarrow> carriesOut c c' s \<Longrightarrow> \<not> cExceeded c' \<Longrightarrow> cFresh q c'"
  using cm.accounts_within[of c c'] by (auto simp only: carriesOut_def cFresh_def)

lemma carriesOut_then:
  assumes "carriesOut c c1 s" "\<not> cExceeded c1 \<Longrightarrow> carriesOut c1 c2 t" "cExceeded c1 \<Longrightarrow> c2 = c1"
  shows "carriesOut c c2 (joinSurvey s t)"
proof -
  have sum: "sUnits s + sUnits t + scanUnits (dom (cPointers c)) (set (sPaths s) \<union> set (sPaths t)) =
      (sUnits s + scanUnits (dom (cPointers c)) (set (sPaths s)))
      + (sUnits t + scanUnits (dom (cPointers c) \<union> set (sPaths s)) (set (sPaths t)))"
    by (simp add: scanUnits_union)
  note a = assms(1)[unfolded carriesOut_def]
  show ?thesis
  proof (cases "cExceeded c1")
    case True
    with a assms(3) show ?thesis
      unfolding carriesOut_def joinSurvey_sel set_append sum
      using cm.accounts_stop[of c c1 _ c1] by auto
  next
    case False
    note b = assms(2)[OF False, unfolded carriesOut_def]
    have d: "dom (cPointers c1) = dom (cPointers c) \<union> set (sPaths s)" using a False by simp
    have "cm.accounts c c2 (sUnits (joinSurvey s t) + scanUnits (dom (cPointers c)) (set (sPaths (joinSurvey s t))))"
      unfolding joinSurvey_sel set_append sum
      by (rule cm.accounts_then[OF a[THEN conjunct1] False b[THEN conjunct1, unfolded d]])
    moreover have "\<not> cExceeded c2 \<Longrightarrow> (let d = foldl (\<lambda>d f. recordFinding f d) c (sFindings (joinSurvey s t))
        in cFound c2 = cFound d \<and> cSeen c2 = cSeen d)"
      using a b False recordFinding_cong[of c1 "foldl (\<lambda>d f. recordFinding f d) c (sFindings s)" "sFindings t"]
      by (simp add: Let_def)
    ultimately show ?thesis using a b False by (auto simp: carriesOut_def)
  qed
qed

lemma carriesOut_refl: "cFresh q c \<Longrightarrow> carriesOut c c (Survey 0 [] [])"
  by (simp add: carriesOut_def cFresh_def cm.accounts_zero)

lemma carriesOut_charge:
  assumes "cFresh q c"
  shows "carriesOut c (snd (spendUnits u c)) (Survey u [] [])"
    "fst (spendUnits u c) \<longleftrightarrow> \<not> cExceeded (snd (spendUnits u c))"
  using assms cm.accounts_charge[of c u] cm.charge_reports[of u c]
  by (auto simp: carriesOut_def cFresh_def cCoherent_def spendUnits_def Let_def)

lemma carriesOut_record: "cFresh q c \<Longrightarrow> carriesOut c (recordFinding f c) (Survey 0 [] [f])"
  by (simp add: carriesOut_def cFresh_def cm.accounts_zero cCoherent_def)

lemma cResolve_carriesOut:
  assumes f: "cFresh q c"
  shows "carriesOut c (snd (cResolve doc p c)) (Survey (stepsOf p) [p] [])"
    and "fst (cResolve doc p c) = (if cExceeded (snd (cResolve doc p c)) then None else resolvePointer doc p)"
proof -
  have "carriesOut c (snd (cResolve doc p c)) (Survey (stepsOf p) [p] []) \<and>
      fst (cResolve doc p c) = (if cExceeded (snd (cResolve doc p c)) then None else resolvePointer doc p)"
  proof (cases "cPointers c p")
    case (Some x)
    then have x: "x = compilePointer p" using f by (simp add: cFresh_def cCoherent_def)
    have "scanUnits (dom (cPointers c)) {p} = 0" "insert p (dom (cPointers c)) = dom (cPointers c)"
      using Some by (auto simp: scanUnits_def)
    with carriesOut_charge[OF f, of "stepsOf p"] Some show ?thesis
      by (auto simp: cResolve_def scanPointer_def x stepsOf_def carriesOut_def resolvePointer_def split_beta)
  next
    case None
    obtain ok c1 where c1: "spendUnits (1 + length p) c = (ok, c1)" by (meson surj_pair)
    note s = carriesOut_charge[OF f, of "1 + length p", unfolded c1, simplified]
    have new: "scanUnits (dom (cPointers c)) {p} = 1 + length p" using None by (simp add: scanUnits_new domIff)
    have p1: "cPointers c1 = cPointers c" using c1 by (auto simp: spendUnits_def Let_def)
    show ?thesis
    proof (cases ok)
      case False
      with s have "carriesOut c c1 (Survey (stepsOf p) [p] [])"
        using new by (auto simp: carriesOut_def cm.accounts_def)
      with s False None c1 show ?thesis by (simp add: cResolve_def scanPointer_def Let_def)
    next
      case True
      define c2 where "c2 = c1\<lparr>cPointers := (cPointers c1)(p \<mapsto> compilePointer p)\<rparr>"
      have c2: "carriesOut c c2 (Survey 0 [p] [])" "\<not> cExceeded c2"
        using s True new by (auto simp: carriesOut_def cm.accounts_def c2_def cCoherent_def p1)
      have f2: "cFresh q c2" by (rule carriesOut_fresh[OF f c2])
      note t = carriesOut_charge[OF f2, of "stepsOf p"]
      have "carriesOut c (snd (spendUnits (stepsOf p) c2)) (joinSurvey (Survey 0 [p] []) (Survey (stepsOf p) [] []))"
        using carriesOut_then[OF c2(1) t(1)] c2(2) by blast
      with t(2) True None c1 show ?thesis
        by (auto simp: cResolve_def scanPointer_def Let_def c2_def[symmetric] stepsOf_def joinSurvey_def
            resolvePointer_def split_beta)
    qed
  qed
  then show "carriesOut c (snd (cResolve doc p c)) (Survey (stepsOf p) [p] [])"
    "fst (cResolve doc p c) = (if cExceeded (snd (cResolve doc p c)) then None else resolvePointer doc p)"
    by blast+
qed

text \<open>A charge that holds is followed by a finding or by nothing.\<close>

lemma charge_then_record:
  assumes "cFresh q c" "spendUnits u c = (ok, c1)" "fs = [] \<or> (\<exists>f. fs = [f])"
  shows "carriesOut c (if \<not> ok then c1 else case fs of [] \<Rightarrow> c1 | f # _ \<Rightarrow> recordFinding f c1) (Survey u [] fs)"
proof -
  note s = carriesOut_charge[OF assms(1), of u, unfolded assms(2), simplified]
  have "carriesOut c (if \<not> ok then c1 else case fs of [] \<Rightarrow> c1 | f # _ \<Rightarrow> recordFinding f c1)
      (joinSurvey (Survey u [] []) (Survey 0 [] fs))"
    using s assms(3) carriesOut_fresh[OF assms(1) s(1)]
    by (intro carriesOut_then[OF s(1)]) (auto intro: carriesOut_record carriesOut_refl)
  then show ?thesis by (simp add: joinSurvey_def)
qed

lemma record_or_not:
  assumes "cFresh q c"
  shows "carriesOut c (if b then c else recordFinding f c) (Survey 0 [] (if b then [] else [f]))"
  using assms by (simp add: carriesOut_refl carriesOut_record)

lemma judgeValue_carriesOut:
  assumes f: "cFresh q c"
  shows "carriesOut c (judgeValue m path inside value c) (judgeSurvey m path inside value)"
proof -
  define operator where "operator = stringOrEmpty (jget m ''operator'')"
  define g where "g = \<lparr>iPath = path, iWithin = inside, iOperator = operator, iFactType = jsonType value,
    iOrdered = OrderedOperator operator, iMatches = matchesOf operator (jget m ''value'')\<rparr>"
  let ?fs = "if matchable operator (jget m ''value'') value then [] else [g]"
  have one: "?fs = [] \<or> (\<exists>f. ?fs = [f])" by simp
  have J: "judgeSurvey m path inside value = Survey (readUnits operator (jget m ''value'') value) [] ?fs"
    by (simp add: judgeSurvey_def Let_def g_def operator_def)
  obtain ok c2 where s: "spendUnits (readUnits operator (jget m ''value'') value) c = (ok, c2)" by (meson surj_pair)
  note rec = charge_then_record[OF f s one]
  consider (string) v where "OrderedOperator operator" "value = JString v"
    | (other) "OrderedOperator operator" "\<nexists>v. value = JString v"
    | (equal) "\<not> OrderedOperator operator" "operator = ''equals'' \<or> operator = ''not-equals''"
    | (items) "\<not> OrderedOperator operator" "operator = ''in''"
    | (none) "\<not> OrderedOperator operator" "\<not> (operator = ''equals'' \<or> operator = ''not-equals'')" "operator \<noteq> ''in''"
    by blast
  then show ?thesis
  proof cases
    case (string v)
    then show ?thesis using rec s unfolding J
      by (simp add: judgeValue_def readUnits_def matchable_def g_def matchesOf_def split: if_splits flip: operator_def)
  next
    case other
    then have "asString value = None" "jsonType value \<noteq> ''string''" "stringOrEmpty value = []"
      by (cases "value"; simp add: stringOrEmpty_def)+
    with other carriesOut_record[OF f, of g] show ?thesis unfolding J
      by (simp add: judgeValue_def readUnits_def matchable_def g_def matchesOf_def flip: operator_def)
  next
    case equal
    then show ?thesis using carriesOut_record[OF f, of g] carriesOut_refl[OF f] unfolding J
      by (auto simp: judgeValue_def readUnits_def matchable_def g_def matchesOf_def Let_def simp flip: operator_def)
  next
    case items
    show ?thesis
    proof (cases "asArray (jget m ''value'') = []")
      case True
      with items show ?thesis using carriesOut_refl[OF f] unfolding J
        by (cases "jget m ''value''") (simp_all add: judgeValue_def readUnits_def matchable_def flip: operator_def)
    next
      case False
      then obtain xs where "jget m ''value'' = JArray xs" "xs \<noteq> []" by (cases "jget m ''value''") auto
      with items show ?thesis using rec s unfolding J
        by (simp add: judgeValue_def readUnits_def matchable_def g_def matchesOf_def dedupKinds_def
            split: if_splits flip: operator_def)
    qed
  next
    case none
    then show ?thesis using carriesOut_refl[OF f] unfolding J
      by (simp add: judgeValue_def readUnits_def matchable_def flip: operator_def)
  qed
qed

text \<open>Resolving a pointer, and going on with what it selects unless the charge overran.\<close>

lemma resolve_then:
  assumes "cFresh q c" "cResolve doc p c = (r, c1)"
    and "\<And>c1. cFresh q c1 \<Longrightarrow> r = resolvePointer doc p \<Longrightarrow> carriesOut c1 (go c1) t" "cExceeded c1 \<Longrightarrow> go c1 = c1"
  shows "carriesOut c (go c1) (joinSurvey (Survey (stepsOf p) [p] []) t)"
proof -
  note s = cResolve_carriesOut[OF assms(1), of doc p, unfolded assms(2) fst_conv snd_conv]
  show ?thesis
    using s(2) carriesOut_fresh[OF assms(1) s(1)] assms(3,4) by (intro carriesOut_then[OF s(1)]) auto
qed

lemma comparison_carriesOut:
  assumes f: "cFresh q c"
  shows "carriesOut c (comparison m doc inside c) (factSurvey m doc inside)"
proof (cases "asString (jget m ''path'')")
  case None
  with f show ?thesis by (simp add: comparison_def factSurvey_def carriesOut_refl)
next
  case (Some path)
  obtain r c1 where r: "cResolve doc path c = (r, c1)" by (meson surj_pair)
  have "cExceeded c1 \<Longrightarrow> r = None" using cResolve_carriesOut(2)[OF f, of doc path] r by simp
  then have "carriesOut c (case r of None \<Rightarrow> c1 | Some value \<Rightarrow> judgeValue m path inside value c1)
      (joinSurvey (Survey (stepsOf path) [path] [])
        (case resolvePointer doc path of None \<Rightarrow> Survey 0 [] [] | Some value \<Rightarrow> judgeSurvey m path inside value))"
    by (intro resolve_then[OF f r]) (auto intro: carriesOut_refl judgeValue_carriesOut split: option.split)
  with Some r show ?thesis by (simp add: comparison_def factSurvey_def)
qed

lemma walk_exceeded [simp]: "cExceeded c \<Longrightarrow> walk node doc inside c = c"
  by (cases node) simp_all

lemma walkItems_foldl: "walkItems ns doc inside c = foldl (\<lambda>c n. walk n doc inside c) c ns"
  by (induction ns arbitrary: c) simp_all

lemma walkElements_foldl:
  "walkElements m xs p c = foldl (\<lambda>c x. walk (jget m ''where'') x (Some p) c) c xs"
  by (induction xs arbitrary: c) simp_all

lemma foldl_stop: "cExceeded c \<Longrightarrow> (\<And>c x. cExceeded c \<Longrightarrow> f c x = c) \<Longrightarrow> foldl f c xs = (c :: comparability)"
  by (induction xs) simp_all

lemma foldl_carriesOut:
  assumes "\<And>c x. x \<in> set xs \<Longrightarrow> cFresh q c \<Longrightarrow> carriesOut c (f c x) (g x)" "\<And>c x. cExceeded c \<Longrightarrow> f c x = c"
    and "cFresh q c"
  shows "carriesOut c (foldl f c xs) (surveys (map g xs))"
  using assms(1,3)
proof (induction xs arbitrary: c)
  case (Cons x xs)
  have s: "carriesOut c (f c x) (g x)" using Cons.prems by simp
  show ?case
    using Cons.IH[OF Cons.prems(1) carriesOut_fresh[OF Cons.prems(2) s]] foldl_stop[OF _ assms(2)]
    by (simp, intro carriesOut_then[OF s]) auto
qed (simp add: carriesOut_refl)

lemma surveyOf_object:
  "jget m ''op'' = JString op \<Longrightarrow> surveyOf q (JObject m) doc inside =
     joinSurvey (Survey 1 [] [])
       (if op = ''not'' then surveyOf q (jget m ''condition'') doc inside
        else if op = ''all'' \<or> op = ''any'' then
          surveys (map (\<lambda>c. surveyOf q c doc inside) (asArray (jget m ''conditions'')))
        else if op = ''fact'' then factSurvey m doc inside
        else if (op = ''exists'' \<or> op = ''every'') \<and> q then
          (let collection = stringOrEmpty (jget m ''path'')
           in joinSurvey (Survey (stepsOf collection) [collection] [])
                (surveys (map (\<lambda>x. surveyOf q (jget m ''where'') x (Some collection))
                              (elementsAtPath collection doc))))
        else Survey 0 [] [])"
  by simp

text \<open>What \<open>walk\<close> does below a node it has charged.\<close>

definition walksWell :: "bool \<Rightarrow> json \<Rightarrow> bool" where
  "walksWell q n \<longleftrightarrow> (\<forall>x i c. cFresh q c \<longrightarrow> carriesOut c (walk n x i c) (surveyOf q n x i))"

lemma walk_below:
  assumes W: "\<And>n. size n < size (JObject m) \<Longrightarrow> walksWell q n"
    and op: "jget m ''op'' = JString op" and f: "cFresh q c1" and x: "spendUnits 1 c = (True, c1)" "\<not> cExceeded c"
  shows "\<exists>s. surveyOf q (JObject m) doc inside = joinSurvey (Survey 1 [] []) s \<and>
    carriesOut c1 (walk (JObject m) doc inside c) s"
proof -
  have IH: "carriesOut c (walk n x i c) (surveyOf q n x i)" if "size n < size (JObject m)" "cFresh q c" for n x i c
    using W that by (auto simp: walksWell_def)
  have items: "\<And>n. n \<in> set (asArray (jget m k)) \<Longrightarrow> size n < size (JObject m)" for k by (rule size_asArray_jget)
  have q: "cQuantifiers c1 = q" using f by (simp add: cFresh_def)
  consider "op = ''not''" | "op = ''all'' \<or> op = ''any''" | "op = ''fact''"
    | "(op = ''exists'' \<or> op = ''every'') \<and> q"
    | "op \<noteq> ''not''" "\<not> (op = ''all'' \<or> op = ''any'')" "op \<noteq> ''fact''" "\<not> ((op = ''exists'' \<or> op = ''every'') \<and> q)"
    by blast
  then show ?thesis
  proof cases
    case 1
    with op x IH[OF size_jget_lt f, of "''condition''" doc inside] show ?thesis
      unfolding surveyOf_object[OF op] by auto
  next
    case 2
    have "carriesOut c1 (walkItems (asArray (jget m ''conditions'')) doc inside c1)
        (surveys (map (\<lambda>n. surveyOf q n doc inside) (asArray (jget m ''conditions''))))"
      unfolding walkItems_foldl by (rule foldl_carriesOut[OF IH[OF items] walk_exceeded f])
    with 2 op x show ?thesis unfolding surveyOf_object[OF op] by auto
  next
    case 3
    with op x comparison_carriesOut[OF f, of m doc inside] show ?thesis
      unfolding surveyOf_object[OF op] by auto
  next
    case 4
    let ?p = "stringOrEmpty (jget m ''path'')"
    obtain r c2 where r: "cResolve doc ?p c1 = (r, c2)" by (meson surj_pair)
    define go where "go c2 = (case r of Some (JArray xs) \<Rightarrow> walkElements m xs ?p c2 | _ \<Rightarrow> c2)" for c2
    have "carriesOut c1 (go c2) (joinSurvey (Survey (stepsOf ?p) [?p] [])
        (surveys (map (\<lambda>x. surveyOf q (jget m ''where'') x (Some ?p)) (elementsAtPath ?p doc))))"
    proof (rule resolve_then[OF f r])
      show "cExceeded c2 \<Longrightarrow> go c2 = c2"
        using cResolve_carriesOut(2)[OF f, of doc ?p] r by (simp add: go_def)
    next
      fix d assume d: "cFresh q d" and "r = resolvePointer doc ?p"
      then have "go d = foldl (\<lambda>c x. walk (jget m ''where'') x (Some ?p) c) d (elementsAtPath ?p doc)"
        by (simp add: go_def elementsAtPath_def walkElements_foldl split: option.split json.split)
      then show "carriesOut d (go d) (surveys (map (\<lambda>x. surveyOf q (jget m ''where'') x (Some ?p)) (elementsAtPath ?p doc)))"
        using foldl_carriesOut[OF IH[OF size_jget_lt] walk_exceeded d] by simp
    qed
    moreover have "walk (JObject m) doc inside c = go c2"
      unfolding walk.simps(1) op asString.simps option.case x(1) using x(2) 4 q r
      by (elim conjE disjE) (simp_all add: go_def)
    moreover have "surveyOf q (JObject m) doc inside = joinSurvey (Survey 1 [] [])
        (joinSurvey (Survey (stepsOf ?p) [?p] [])
          (surveys (map (\<lambda>x. surveyOf q (jget m ''where'') x (Some ?p)) (elementsAtPath ?p doc))))"
    proof -
      have "op \<noteq> ''not''" "\<not> (op = ''all'' \<or> op = ''any'')" "op \<noteq> ''fact''" using 4 by auto
      with 4 show ?thesis unfolding surveyOf_object[OF op] Let_def by (simp only: if_False if_True simp_thms)
    qed
    ultimately show ?thesis by (intro exI conjI) (assumption, simp only:)
  next
    case 5
    with op x q carriesOut_refl[OF f] show ?thesis
      unfolding surveyOf_object[OF op] by (intro exI[of _ "Survey 0 [] []"]) auto
  qed
qed

lemma cFresh_not_exceeded: "cFresh q c \<Longrightarrow> \<not> cExceeded c"
  by (simp add: cFresh_def cm.within_limit_def)

lemma walk_carriesOut:
  "cFresh q c \<Longrightarrow> carriesOut c (walk node doc inside c) (surveyOf q node doc inside)"
proof (induction "size node" arbitrary: node doc inside c rule: less_induct)
  case less
  note x = cFresh_not_exceeded[OF less.prems] and s = carriesOut_charge[OF less.prems, of 1]
  obtain ok c1 where c1: "spendUnits 1 c = (ok, c1)" by (meson surj_pair)
  show ?case
  proof (cases "\<exists>m op. node = JObject m \<and> jget m ''op'' = JString op \<and> ok")
    case True
    then obtain m op where m: "node = JObject m" "jget m ''op'' = JString op" and ok: "ok" by blast
    have n: "\<not> cExceeded c1" and s1: "carriesOut c c1 (Survey 1 [] [])" using s c1 ok by simp_all
    have IH: "\<And>n. size n < size (JObject m) \<Longrightarrow> walksWell q n"
      using less.hyps unfolding m(1) walksWell_def by blast
    have "\<exists>t. surveyOf q node doc inside = joinSurvey (Survey 1 [] []) t \<and> carriesOut c1 (walk node doc inside c) t"
      unfolding m(1) by (rule walk_below[OF _ m(2) carriesOut_fresh[OF less.prems s1 n]]) (use IH c1 ok x in auto)
    with carriesOut_then[OF s1] n show ?thesis by metis
  next
    case False
    have w: "walk node doc inside c = c1"
    proof (cases "\<exists>m. node = JObject m")
      case True
      then obtain m where m: "node = JObject m" by blast
      show ?thesis
      proof (cases "asString (jget m ''op'')")
        case None
        then show ?thesis using x c1 m by simp
      next
        case (Some op)
        then have "\<not> ok" using False m by auto
        then show ?thesis using x c1 m by simp
      qed
    next
      case False
      then show ?thesis using x c1 by (cases node) simp_all
    qed
    have "carriesOut c c1 (Survey 1 [] [])" using s c1 by simp
    moreover have "\<not> ok \<Longrightarrow> cExceeded c1" using s c1 by simp
    ultimately have "carriesOut c c1 (joinSurvey (Survey 1 [] []) t)" if "\<not> ok" for t
      using that by (intro carriesOut_then) auto
    moreover have "surveyOf q node doc inside = Survey 1 [] []" if ok
      using False that by (cases node) (auto split: option.splits)
    moreover have "\<exists>t. surveyOf q node doc inside = joinSurvey (Survey 1 [] []) t"
      by (cases node) (auto intro: exI[of _ "Survey 0 [] []"])
    ultimately show ?thesis using s c1 w by (cases ok) auto
  qed
qed

text \<open>The three loops over the pack are one fold over the conditions it states.\<close>

abbreviation entryConditions :: "json list \<Rightarrow> json list" where
  "entryConditions entries \<equiv>
     concat (map (\<lambda>entry. case entry of JObject stated \<Rightarrow> [jget stated ''when''] | _ \<Rightarrow> []) entries)"

lemma walkEntries_foldl:
  "walkEntries entries facts c = foldl (\<lambda>c n. walk n facts None c) c (entryConditions entries)"
proof (induction entries arbitrary: c)
  case (Cons entry entries)
  show ?case
  proof (cases "cExceeded c")
    case True
    then show ?thesis by (simp add: foldl_stop)
  next
    case False
    with Cons.IH show ?thesis by (cases entry) simp_all
  qed
qed simp

lemma incomparableFacts_foldl:
  "incomparableFacts pack facts q limit =
     (let c = foldl (\<lambda>c n. walk n facts None c) (startComparability q limit) (conditionsOf pack)
      in (cFound c, cExceeded c))"
  by (simp add: incomparableFacts_def conditionsOf_def walkEntries_foldl Let_def)

subsection \<open>Keys identify findings\<close>

lemma splitOn_joinWith:
  "xs \<noteq> [] \<Longrightarrow> list_all (\<lambda>x. c \<notin> set x) xs \<Longrightarrow> splitOn c (joinWith [c] xs) = xs"
proof (induction xs)
  case (Cons x xs)
  then show ?case by (cases xs) (simp_all add: splitOn_no_sep splitOn_append)
qed simp

text \<open>Matched types come from the closed vocabulary of \<open>jsonType\<close>, which holds no NUL.\<close>

definition typed :: "incomparable \<Rightarrow> bool" where
  "typed f \<longleftrightarrow> list_all (\<lambda>k. k \<in> range jsonType) (iMatches f)"

lemma jsonType_plain: "CHR 0x00 \<notin> set (jsonType v)" "jsonType v \<noteq> []"
  by (cases v; simp)+

lemma incomparableKey_inj:
  assumes "typed f" "typed g" "incomparableKey f = incomparableKey g" shows "f = g"
proof -
  have plain: "list_all (\<lambda>x. CHR 0x00 \<notin> set x) (iMatches h) \<and> [] \<notin> set (iMatches h)" if "typed h" for h
  proof -
    have "CHR 0x00 \<notin> set k \<and> k \<noteq> []" if "k \<in> range jsonType" for k using that jsonType_plain by auto
    with that show ?thesis by (auto simp: typed_def list_all_iff)
  qed
  have "joinWith [CHR 0x00] (iMatches f) = joinWith [CHR 0x00] (iMatches g)"
    using assms(3) by (simp add: incomparableKey_def)
  then have "iMatches f = iMatches g"
  proof (cases "iMatches f = [] \<or> iMatches g = []")
    case True
    with \<open>joinWith _ _ = _\<close> plain[OF assms(1)] plain[OF assms(2)] show ?thesis
      by (cases "iMatches f"; cases "iMatches g") (auto simp: joinWith_Cons)
  next
    case False
    then show ?thesis
      using splitOn_joinWith[of "iMatches f"] splitOn_joinWith[of "iMatches g"] plain[OF assms(1)]
        plain[OF assms(2)] \<open>joinWith _ _ = _\<close> by metis
  qed
  moreover have "iWithin f = iWithin g"
    using assms(3) by (cases "iWithin f"; cases "iWithin g") (simp_all add: incomparableKey_def)
  ultimately show ?thesis using assms(3) by (simp add: incomparableKey_def)
qed

lemma recordFinding_unique:
  assumes "list_all typed (cFound c @ fs)" "cSeen c = incomparableKey ` set (cFound c)"
  shows "cFound (foldl (\<lambda>d f. recordFinding f d) c fs) = foldl addUnique (cFound c) fs"
  using assms
proof (induction fs arbitrary: c)
  case (Cons f fs)
  have key: "incomparableKey f \<in> cSeen c \<longleftrightarrow> f \<in> set (cFound c)"
  proof
    assume "incomparableKey f \<in> cSeen c"
    then obtain g where "g \<in> set (cFound c)" "incomparableKey f = incomparableKey g" unfolding Cons.prems(2) by blast
    moreover have "typed f" "typed g" using Cons.prems(1) calculation(1) by (simp_all add: list_all_iff)
    ultimately show "f \<in> set (cFound c)" using incomparableKey_inj by blast
  qed (use Cons.prems(2) in simp)
  have step: "cFound (recordFinding f c) = addUnique (cFound c) f"
    "cSeen (recordFinding f c) = incomparableKey ` set (cFound (recordFinding f c))"
    using key Cons.prems(2) by (auto simp: recordFinding_def addUnique_def)
  have "list_all typed (cFound (recordFinding f c) @ fs)"
    using Cons.prems(1) by (auto simp: step(1) list_all_iff)
  from Cons.IH[OF this step(2)] show ?case by (simp add: step(1))
qed simp

lemma judgeSurvey_typed: "list_all typed (sFindings (judgeSurvey m path inside v))"
  by (auto simp: judgeSurvey_def Let_def typed_def matchesOf_def dedupKinds_def list_all_iff)

lemma surveyOf_typed: "list_all typed (sFindings (surveyOf q node doc inside))"
proof (induction q node doc inside rule: surveyOf.induct)
  case (1 q m doc inside)
  then show ?case
    by (auto simp: surveys_findings list_all_iff factSurvey_def Let_def judgeSurvey_typed[unfolded list_all_iff]
        split: option.split if_splits)
qed simp_all

subsection \<open>What the evaluator records is what the check lists\<close>

definition listed :: "string option \<Rightarrow> incomparable list \<Rightarrow> TypeMismatch \<Rightarrow> bool" where
  "listed inside fs t \<longleftrightarrow>
     (\<exists>f \<in> set fs. iPath f = tmPath t \<and> iWithin f = (if tmWithin t = None then inside else tmWithin t) \<and>
        iOperator f = tmOperator t \<and> iFactType f = tmFactType t \<and> iMatches f = tmOperandTypes t \<and> \<not> iOrdered f)"

text \<open>A run that adds mismatches, each of them listed.\<close>

definition addsListed :: "string option \<Rightarrow> incomparable list \<Rightarrow> evaluator \<Rightarrow> evaluator \<Rightarrow> bool" where
  "addsListed inside fs e e' \<longleftrightarrow>
     (\<exists>ms. mismatches e' = mismatches e @ ms \<and> list_all (listed inside fs) ms)"

lemma listed_mono: "listed inside fs t \<Longrightarrow> set fs \<subseteq> set gs \<Longrightarrow> listed inside gs t"
  by (auto simp: listed_def)

lemma addsListed_mono: "addsListed inside fs e e' \<Longrightarrow> set fs \<subseteq> set gs \<Longrightarrow> addsListed inside gs e e'"
  unfolding addsListed_def list_all_iff using listed_mono by blast

lemma addsListed_same: "mismatches e' = mismatches e \<Longrightarrow> addsListed inside fs e e'"
  by (simp add: addsListed_def)

lemma addsListed_then:
  assumes "addsListed inside fs e e1" "addsListed inside gs e1 e2"
  shows "addsListed inside (fs @ gs) e e2"
proof -
  have "addsListed inside (fs @ gs) e e1" "addsListed inside (fs @ gs) e1 e2"
    using assms by (auto intro: addsListed_mono)
  then show ?thesis by (auto simp: addsListed_def)
qed

lemma mismatches_resolve [simp]: "mismatches (snd (resolve doc p e)) = mismatches e"
  by (simp add: resolve_def compiled_def Let_def split: option.split)

lemma mismatches_unknownWith [simp]: "mismatches (snd (unknownWith c e)) = mismatches e"
  by (simp add: unknownWith_def noteUnknown_def)

lemma mismatches_keepCausesIf [simp]: "mismatches (snd (keepCausesIf k r)) = mismatches (snd r)"
  by (cases r) (simp add: keepCausesIf_def)

lemma addsListed_keepCausesIf [simp]:
  "addsListed inside fs e (snd (keepCausesIf k r)) = addsListed inside fs e (snd r)"
  by (simp add: addsListed_def)

lemma mismatches_selectArray [simp]: "mismatches (snd (selectArray m doc e)) = mismatches e"
proof (cases "asString (jget m ''path'')")
  case (Some path)
  obtain r e1 where r: "resolve doc path e = (r, e1)" by (meson surj_pair)
  then have "mismatches e1 = mismatches e" using mismatches_resolve[of doc path e] by simp
  with Some r show ?thesis by (simp add: selectArray_def split: option.split json.split)
qed (simp add: selectArray_def)

lemma mismatches_uniformMembers [simp]: "mismatches (snd (uniformMembers p ms r b e)) = mismatches e"
proof (induction p ms r b e rule: uniformMembers.induct)
  case (2 p member rest r b e)
  obtain v e1 where v: "resolve member p e = (v, e1)" by (meson surj_pair)
  then have "mismatches e1 = mismatches e" using mismatches_resolve[of member p e] by simp
  with 2 v show ?case by (simp add: Let_def split: option.split)
qed simp

lemma mismatches_uniform [simp]: "mismatches (snd (uniform m doc e)) = mismatches e"
proof (cases "asString (jget m ''at'')")
  case (Some p)
  obtain r e1 where r: "selectArray m doc e = (r, e1)" by (meson surj_pair)
  then have "mismatches e1 = mismatches e" using mismatches_selectArray[of m doc e] by simp
  with Some r show ?thesis by (simp add: uniform_def split: option.split)
qed (simp add: uniform_def)

lemma noteTypeMismatch_listed:
  assumes "\<not> OrderedOperator operator" "operator = ''equals'' \<or> operator = ''not-equals'' \<or> operator = ''in''"
    and "operands = (if operator = ''in'' then asArray operand else [operand])"
    and "operator = ''in'' \<longrightarrow> operand = JArray (asArray operand)"
    and "jget m ''operator'' = JString operator" "jget m ''value'' = operand"
  shows "addsListed inside (sFindings (judgeSurvey m path inside v)) e (noteTypeMismatch path operator v operands e)"
proof (cases "operands = [] \<or> jsonType v \<in> set (dedupKinds operands)")
  case True
  then show ?thesis by (intro addsListed_same) (auto simp: noteTypeMismatch_def Let_def)
next
  case False
  have one: "dedupKinds [operand] = [jsonType operand]" by (simp add: dedupKinds_def uniqueList_def addUnique_def)
  have f: "\<not> matchable operator operand v" "matchesOf operator operand = dedupKinds operands"
    using False assms(1-3) one by (auto simp: matchable_def matchesOf_def dedupKinds_def)
  have "mismatches (noteTypeMismatch path operator v operands e) = mismatches e @
      [\<lparr>tmPath = path, tmWithin = None, tmOperator = operator, tmFactType = jsonType v,
        tmOperandTypes = dedupKinds operands\<rparr>]"
    using False by (simp add: noteTypeMismatch_def Let_def)
  moreover have "listed inside (sFindings (judgeSurvey m path inside v))
      \<lparr>tmPath = path, tmWithin = None, tmOperator = operator, tmFactType = jsonType v,
        tmOperandTypes = dedupKinds operands\<rparr>"
    using f assms(1,5,6) by (simp add: listed_def judgeSurvey_def)
  ultimately show ?thesis unfolding addsListed_def by auto
qed

lemma evalFact_listed:
  assumes "coherent e"
  shows "addsListed inside (sFindings (factSurvey m doc inside)) e (snd (evalFact m doc e))"
proof (cases "asString (jget m ''path'')")
  case None
  then show ?thesis by (simp add: evalFact_def addsListed_same)
next
  case (Some path)
  obtain r e1 where r: "resolve doc path e = (r, e1)" by (meson surj_pair)
  have e1: "mismatches e1 = mismatches e" "resolvePointer doc path = r"
    using resolve_result(1)[OF assms, of doc path] mismatches_resolve[of doc path e] r by simp_all
  have left: "addsListed inside fs e x = addsListed inside fs e1 x" for fs x using e1 by (simp add: addsListed_def)
  define operator where "operator = stringOrEmpty (jget m ''operator'')"
  show ?thesis
  proof (cases r)
    case None
    with Some r e1 show ?thesis by (simp add: evalFact_def addsListed_same)
  next
    case v: (Some v)
    have J: "sFindings (factSurvey m doc inside) = sFindings (judgeSurvey m path inside v)"
      using Some v e1 by (simp add: factSurvey_def)
    show ?thesis
    proof (cases "\<not> OrderedOperator operator \<and> (operator = ''equals'' \<or> operator = ''not-equals''
        \<or> operator = ''in'' \<and> (\<exists>xs. jget m ''value'' = JArray xs))")
      case False
      then show ?thesis using Some r v unfolding J left
        by (intro addsListed_same)
          (auto simp: evalFact_def Let_def simp flip: operator_def split: option.split json.split)
    next
      case True
      then have op: "jget m ''operator'' = JString operator"
        by (cases "jget m ''operator''") (auto simp: operator_def stringOrEmpty_def)
      let ?xs = "if operator = ''in'' then asArray (jget m ''value'') else [jget m ''value'']"
      have "snd (evalFact m doc e) = noteTypeMismatch path operator v ?xs e1"
        using True Some r v by (auto simp: evalFact_def Let_def simp flip: operator_def)
      with noteTypeMismatch_listed[OF _ _ refl _ op refl, of inside path v e1] True show ?thesis
        unfolding J left by auto
    qed
  qed
qed

definition lists :: "bool \<Rightarrow> json \<Rightarrow> json \<Rightarrow> bool" where
  "lists q node doc \<longleftrightarrow>
     (\<forall>e inside. coherent e \<longrightarrow> quantifiers e = q \<longrightarrow>
        addsListed inside (sFindings (surveyOf q node doc inside)) e (snd (condition node doc e)))"

text \<open>One item of a loop and the state it leaves, which the rest of the loop starts from.\<close>

lemma item_listed:
  assumes "lists q node doc" "jsonWf doc" "coherent e" "quantifiers e = q" "condition node doc e = (v, e1)"
  shows "addsListed inside (sFindings (surveyOf q node doc inside)) e e1" "coherent e1" "quantifiers e1 = q"
  using assms agrees_cases[OF condition_agrees[OF assms(2)] assms(3,5)] by (auto simp: lists_def dest!: spec)

lemma allItems_listed:
  assumes "\<And>n. n \<in> set ns \<Longrightarrow> lists q n doc" "jsonWf doc" "coherent e" "quantifiers e = q"
  shows "addsListed inside (concat (map (\<lambda>n. sFindings (surveyOf q n doc inside)) ns)) e (snd (allItems ns doc b e))"
  using assms
proof (induction ns arbitrary: b e)
  case (Cons n ns)
  obtain v e1 where c: "condition n doc e = (v, e1)" by (meson surj_pair)
  note i = item_listed[OF Cons.prems(1)[OF list.set_intros(1)] Cons.prems(2-4) c]
  note rest = addsListed_then[OF i(1) Cons.IH[OF Cons.prems(1)[OF list.set_intros(2)] Cons.prems(2) i(2,3)]]
  show ?case using addsListed_mono[OF i(1)] rest c by (cases v) simp_all
qed (simp add: addsListed_same)

lemma anyItems_listed:
  assumes "\<And>n. n \<in> set ns \<Longrightarrow> lists q n doc" "jsonWf doc" "coherent e" "quantifiers e = q"
  shows "addsListed inside (concat (map (\<lambda>n. sFindings (surveyOf q n doc inside)) ns)) e (snd (anyItems ns doc b e))"
  using assms
proof (induction ns arbitrary: b e)
  case (Cons n ns)
  obtain v e1 where c: "condition n doc e = (v, e1)" by (meson surj_pair)
  note i = item_listed[OF Cons.prems(1)[OF list.set_intros(1)] Cons.prems(2-4) c]
  note rest = addsListed_then[OF i(1) Cons.IH[OF Cons.prems(1)[OF list.set_intros(2)] Cons.prems(2) i(2,3)]]
  show ?case using addsListed_mono[OF i(1)] rest c by (cases v) simp_all
qed (simp add: addsListed_same)

lemma quantifyItems_listed:
  assumes "\<And>x. x \<in> set xs \<Longrightarrow> lists q (jget m ''where'') x \<and> jsonWf x" "coherent e" "quantifiers e = q"
  shows "addsListed inside (concat (map (\<lambda>x. sFindings (surveyOf q (jget m ''where'') x inside)) xs)) e
           (snd (quantifyItems m xs b e))"
  using assms
proof (induction xs arbitrary: b e)
  case (Cons x xs)
  obtain v e1 where c: "condition (jget m ''where'') x e = (v, e1)" by (meson surj_pair)
  have h: "lists q (jget m ''where'') x" "jsonWf x" using Cons.prems(1) by simp_all
  note i = item_listed[OF h Cons.prems(2,3) c]
  note rest = addsListed_then[OF i(1) Cons.IH[OF Cons.prems(1)[OF list.set_intros(2)] i(2,3)]]
  show ?case using addsListed_mono[OF i(1)] rest c by (cases v) (simp_all add: Let_def)
qed (simp add: addsListed_same)

lemma label_listed:
  "listed (Some p) fs t \<Longrightarrow> listed inside fs (labelMismatch p t)"
  by (auto simp: listed_def labelMismatch_def)

lemma withinCollection_listed:
  assumes "addsListed (Some (stringOrEmpty (jget m ''path''))) fs (e\<lparr>collectionFailure := None\<rparr>)
      (snd (run (e\<lparr>collectionFailure := None\<rparr>)))"
  shows "addsListed inside fs e (snd (withinCollection m run e))"
proof -
  obtain v e1 where r: "run (e\<lparr>collectionFailure := None\<rparr>) = (v, e1)" by (meson surj_pair)
  with assms obtain ms where ms: "mismatches e1 = mismatches e @ ms"
    "list_all (listed (Some (stringOrEmpty (jget m ''path''))) fs) ms" by (auto simp: addsListed_def)
  have "mismatches (snd (withinCollection m run e)) = mismatches e @ map (labelMismatch (stringOrEmpty (jget m ''path''))) ms"
    using r ms(1) by (simp add: withinCollection_def Let_def labelFrom_append noteUnknown_def split: option.split)
  with ms(2) show ?thesis by (auto simp: addsListed_def list_all_iff intro: label_listed)
qed

lemma collectionOf_elements: "collectionOf m doc = Inr xs \<Longrightarrow> elementsAtPath (stringOrEmpty (jget m ''path'')) doc = xs"
  by (auto simp: collectionOf_def elementsAtPath_def stringOrEmpty_def split: option.splits json.splits)

lemma quantify_listed:
  assumes c: "coherent e" "quantifiers e = q" and wf: "jsonWf doc"
    and IH: "\<And>x. jsonWf x \<Longrightarrow> lists q (jget m ''where'') x"
  defines "p \<equiv> stringOrEmpty (jget m ''path'')"
  shows "addsListed inside
      (concat (map (\<lambda>x. sFindings (surveyOf q (jget m ''where'') x (Some p))) (elementsAtPath p doc))) e
      (snd (withinCollection m (quantifyRun m doc) e))"
proof (rule withinCollection_listed)
  let ?e = "e\<lparr>collectionFailure := None\<rparr>"
  obtain r e1 where s: "selectArray m doc ?e = (r, e1)" by (meson surj_pair)
  have ce: "coherent ?e" "collectionFailure ?e = None" using c by simp_all
  note sel = selectArray_result[OF ce, of m doc, unfolded s, simplified]
  have e1: "mismatches e1 = mismatches ?e" "coherent e1" "quantifiers e1 = q"
    using sel(1,3) c by (simp_all add: keeps_def)
  show "addsListed (Some (stringOrEmpty (jget m ''path'')))
      (concat (map (\<lambda>x. sFindings (surveyOf q (jget m ''where'') x (Some p))) (elementsAtPath p doc))) ?e
      (snd (quantifyRun m doc ?e))"
  proof (cases "collectionOf m doc")
    case (Inl f)
    with sel(4) s e1 show ?thesis by (simp add: quantifyRun_def addsListed_same)
  next
    case (Inr xs)
    have "lists q (jget m ''where'') x \<and> jsonWf x" if "x \<in> set xs" for x
      using IH collectionOf_wf[OF Inr wf that] by blast
    from quantifyItems_listed[OF this e1(2,3), where inside = "Some p" and b = False]
    show ?thesis using Inr sel(4) s e1(1) collectionOf_elements[OF Inr]
      by (simp add: quantifyRun_def addsListed_def p_def)
  qed
qed

lemma surveyOf_findings:
  assumes op: "jget m ''op'' = JString op"
  shows "sFindings (surveyOf q (JObject m) doc inside) =
      (if op = ''not'' then sFindings (surveyOf q (jget m ''condition'') doc inside)
       else if op = ''all'' \<or> op = ''any'' then
         concat (map (\<lambda>n. sFindings (surveyOf q n doc inside)) (asArray (jget m ''conditions'')))
       else if op = ''fact'' then sFindings (factSurvey m doc inside)
       else if (op = ''exists'' \<or> op = ''every'') \<and> q then
         concat (map (\<lambda>x. sFindings (surveyOf q (jget m ''where'') x (Some (stringOrEmpty (jget m ''path'')))))
                     (elementsAtPath (stringOrEmpty (jget m ''path'')) doc))
       else [])"
  unfolding surveyOf_object[OF op] by (simp add: surveys_findings Let_def comp_def)

lemma seven_cases: "A \<or> B \<or> C \<or> D \<or> E \<or> F \<or> \<not> (A \<or> B \<or> C \<or> D \<or> E \<or> F)"
  by blast

lemma condition_lists_object:
  assumes IH: "\<And>n x. size n < size (JObject m) \<Longrightarrow> jsonWf x \<Longrightarrow> lists q n x" and wf: "jsonWf doc"
    and op: "jget m ''op'' = JString op"
  shows "lists q (JObject m) doc"
  unfolding lists_def
proof (intro allI impI)
  fix e :: evaluator and inside :: "string option"
  assume c: "coherent e" "quantifiers e = q"
  note S = surveyOf_findings[OF op, of q doc inside]
  consider "op = ''not''" | "op = ''all''" | "op = ''any''" | "op = ''fact''"
    | "(op = ''exists'' \<or> op = ''every'') \<and> q" | "op = ''uniform''"
    | "\<not> (op = ''not'' \<or> op = ''all'' \<or> op = ''any'' \<or> op = ''fact''
        \<or> (op = ''exists'' \<or> op = ''every'') \<and> q \<or> op = ''uniform'')"
    by atomize_elim (rule seven_cases)
  then show "addsListed inside (sFindings (surveyOf q (JObject m) doc inside)) e (snd (condition (JObject m) doc e))"
  proof cases
    case 1
    obtain v e1 where r: "condition (jget m ''condition'') doc e = (v, e1)" by (meson surj_pair)
    with item_listed(1)[OF IH[OF size_jget_lt wf] wf c r, of inside] 1 op show ?thesis
      unfolding S by (cases v) simp_all
  next
    case 2
    have "\<And>n. n \<in> set (asArray (jget m ''conditions'')) \<Longrightarrow> lists q n doc"
      using IH[OF size_asArray_jget wf] .
    from allItems_listed[of "asArray (jget m ''conditions'')", OF this wf c, where inside = inside and b = False] 2 op show ?thesis
      unfolding S by (cases "jget m ''conditions''") (simp_all add: addsListed_same)
  next
    case 3
    have "\<And>n. n \<in> set (asArray (jget m ''conditions'')) \<Longrightarrow> lists q n doc"
      using IH[OF size_asArray_jget wf] .
    from anyItems_listed[of "asArray (jget m ''conditions'')", OF this wf c, where inside = inside and b = False] 3 op show ?thesis
      unfolding S by (cases "jget m ''conditions''") (simp_all add: addsListed_same)
  next
    case 4
    with evalFact_listed[OF c(1), of inside m doc] op show ?thesis unfolding S by simp
  next
    case 5
    note w = quantify_listed[OF c wf IH[OF size_jget_lt], where inside = inside]
    show ?thesis unfolding S using 5 w condition_quantify[OF op] c by (elim conjE disjE) simp_all
  next
    case 6
    have "addsListed inside [] e (snd (withinCollection m (uniform m doc) e))"
      by (rule withinCollection_listed) (simp add: addsListed_same)
    with 6 op c show ?thesis unfolding S by (simp add: addsListed_same)
  next
    case 7
    with op c show ?thesis
      by (intro addsListed_same) (auto simp: evidencePresent_def Let_def split: option.split json.split)
  qed
qed

lemma condition_lists: "jsonWf doc \<Longrightarrow> lists q node doc"
proof (induction "size node" arbitrary: node doc rule: less_induct)
  case less
  show ?case
  proof (cases "\<exists>m op. node = JObject m \<and> jget m ''op'' = JString op")
    case True
    then obtain m op where m: "node = JObject m" "jget m ''op'' = JString op" by blast
    show ?thesis unfolding m(1) by (rule condition_lists_object[OF _ less.prems m(2)]) (use less.hyps m(1) in blast)
  next
    case False
    have "snd (condition node doc e) = snd (unknownWith (causeOnly ''unsupported'') e)" for e
    proof (cases node)
      case (JObject m)
      with False have "asString (jget m ''op'') = None" by (cases "jget m ''op''") auto
      with JObject show ?thesis by simp
    qed simp_all
    then show ?thesis by (simp add: lists_def addsListed_same)
  qed
qed

text \<open>An ordered comparison is unknown over a present value exactly where the check lists it, when
  the pack's own operand is a decimal, as the schema requires; the check and the schema ask for the
  grammar alone, so what is left is a decimal text that the exact arithmetic refuses for its length.\<close>

fun decimalOperands :: "json \<Rightarrow> bool" where
  "decimalOperands (JObject m) \<longleftrightarrow>
     (OrderedOperator (stringOrEmpty (jget m ''operator'')) \<longrightarrow>
        (\<exists>s. jget m ''value'' = JString s \<and> decimalPattern s)) \<and>
     list_all (\<lambda>p. decimalOperands (snd p)) m"
| "decimalOperands (JArray xs) \<longleftrightarrow> list_all decimalOperands xs"
| "decimalOperands _ \<longleftrightarrow> True"

fun overlong :: "json \<Rightarrow> bool" where
  "overlong (JString s) \<longleftrightarrow> decimalPattern s \<and> ratSetString s = None"
| "overlong (JArray xs) \<longleftrightarrow> list_ex overlong xs"
| "overlong (JObject m) \<longleftrightarrow> list_ex (\<lambda>p. overlong (snd p)) m"
| "overlong _ \<longleftrightarrow> False"

lemma overlong_jget: "overlong (jget m k) \<Longrightarrow> overlong (JObject m)"
proof (cases "map_of m k")
  case (Some a)
  then have "(k, a) \<in> set m" by (rule map_of_SomeD)
  then show "overlong (jget m k) \<Longrightarrow> overlong (JObject m)" using Some
    by (auto simp: jget_def list_ex_iff intro!: bexI[of _ "(k, a)"])
qed (simp add: jget_def)

lemma overlong_items: "x \<in> set (asArray v) \<Longrightarrow> overlong x \<Longrightarrow> overlong v"
  by (cases v) (auto simp: list_ex_iff)

lemma overlong_resolved: "resolveTokens ts v = Some w \<Longrightarrow> overlong w \<Longrightarrow> overlong v"
proof (induction ts arbitrary: v)
  case (Cons t ts)
  show ?case
  proof (cases v)
    case (JObject m)
    with Cons.prems(1) obtain u where "map_of m t = Some u" "resolveTokens ts u = Some w" by (auto split: option.splits)
    with Cons.IH Cons.prems(2) JObject show ?thesis by (force simp: list_ex_iff dest: map_of_SomeD)
  next
    case (JArray xs)
    with Cons.prems(1) obtain i where i: "arrayIndex t (length xs) = Some i" "resolveTokens ts (xs ! i) = Some w"
      by (auto split: option.splits)
    have "i < length xs" using i(1) by (auto simp: arrayIndex_def split: if_splits)
    with Cons.IH[OF i(2) Cons.prems(2)] JArray show ?thesis by (auto simp: list_ex_iff)
  qed (use Cons.prems in auto)
qed simp

lemma overlong_pointer: "resolvePointer v p = Some w \<Longrightarrow> overlong w \<Longrightarrow> overlong v"
  by (auto simp: resolvePointer_def resolveCompiled_def overlong_resolved split: if_splits)

lemma decimal_or_overlong: "v = JString s \<Longrightarrow> decimalPattern s \<Longrightarrow> decimalValue v \<noteq> None \<or> overlong v"
  by (cases "ratSetString s") simp_all

definition explained :: "bool \<Rightarrow> string option \<Rightarrow> incomparable list \<Rightarrow> UnknownCause \<Rightarrow> bool" where
  "explained w inside fs c \<longleftrightarrow>
     ucCause c = ''not-comparable'' \<longrightarrow>
       w \<and> ucFactType c = ''string'' \<or>
       (\<exists>f \<in> set fs. ucPath c = Some (iPath f) \<and> iWithin f = (if ucWithin c = None then inside else ucWithin c) \<and>
          ucFactType c = iFactType f \<and> iOrdered f)"

lemma explained_mono: "explained w inside fs c \<Longrightarrow> set fs \<subseteq> set gs \<Longrightarrow> explained w inside gs c"
  by (auto simp: explained_def)

lemma explained_label: "explained w (Some p) fs c \<Longrightarrow> explained w inside fs (labelCause p c)"
  by (auto simp: explained_def labelCause_def)

lemma explained_other: "ucCause c \<noteq> ''not-comparable'' \<Longrightarrow> explained w inside fs c"
  by (simp add: explained_def)

lemma decimalOperands_jget: "decimalOperands (JObject m) \<Longrightarrow> decimalOperands (jget m k)"
  by (cases "map_of m k") (auto simp: jget_def list_all_iff dest!: map_of_SomeD)

lemma decimalOperands_items: "decimalOperands v \<Longrightarrow> x \<in> set (asArray v) \<Longrightarrow> decimalOperands x"
  by (cases v) (auto simp: list_all_iff)

lemma fact_explained:
  assumes "decimalOperands (JObject m)" "c \<in> set (snd (factResult m doc))"
    and "overlong doc \<or> overlong (JObject m) \<Longrightarrow> w"
  shows "explained w inside (sFindings (factSurvey m doc inside)) c"
proof (cases "ucCause c = ''not-comparable''")
  case True
  then obtain path v where p: "asString (jget m ''path'') = Some path" "resolvePointer doc path = Some v"
    and o: "OrderedOperator (stringOrEmpty (jget m ''operator''))" "decimalCompare v (jget m ''value'') = None"
    and c: "c = causeAt path ''not-comparable'' (jsonType v)"
    using assms(2)
    by (auto simp: factResult_def unsupported_def Let_def causeOnly_def causeAt_def split: option.splits if_splits)
  obtain s where s: "jget m ''value'' = JString s" "decimalPattern s" using o(1) assms(1) by auto
  have "decimalValue v = None \<or> overlong (jget m ''value'')"
    using o(2) decimal_or_overlong[OF s] by (auto simp: decimalCompare_def split: option.splits)
  then consider "\<not> matchable (stringOrEmpty (jget m ''operator'')) (jget m ''value'') v"
    | "\<exists>t. v = JString t" "overlong v \<or> overlong (jget m ''value'')"
    using o(1) by (cases v) (auto simp: matchable_def split: if_splits)
  then show ?thesis
  proof cases
    case 1
    with p c o(1) show ?thesis by (simp add: explained_def factSurvey_def judgeSurvey_def Let_def causeAt_def)
  next
    case 2
    then have w using assms(3) overlong_jget overlong_pointer[OF p(2)] by blast
    with 2(1) c show ?thesis by (auto simp: explained_def causeAt_def)
  qed
qed (rule explained_other)

lemma causes_explained:
  assumes "decimalOperands node" "c \<in> set (causesOf q ev node doc)" "overlong doc \<or> overlong node \<Longrightarrow> w"
  shows "explained w inside (sFindings (surveyOf q node doc inside)) c"
  using assms
proof (induction "size node" arbitrary: node doc c inside rule: less_induct)
  case less
  show ?case
  proof (cases "\<exists>m op. node = JObject m \<and> jget m ''op'' = JString op \<and> meaning q ev node doc = triUnknown")
    case False
    then have "c = causeOnly ''unsupported''"
    proof (cases node)
      case (JObject m)
      with False less.prems(2) have "asString (jget m ''op'') = None" "meaning q ev node doc = triUnknown"
        using causesOf_decided[of q ev node doc] by (cases "jget m ''op''"; auto)+
      with less.prems(2) JObject show ?thesis by simp
    qed (use less.prems(2) in simp_all)
    then show ?thesis by (simp add: explained_other causeOnly_def)
  next
    case True
    then obtain m op where m: "node = JObject m" and op: "jget m ''op'' = JString op"
      and u: "meaning q ev node doc = triUnknown" by blast
    have dec: "decimalOperands (jget m k)" for k using decimalOperands_jget less.prems(1) unfolding m .
    have W: "overlong doc \<or> overlong (jget m k) \<Longrightarrow> w" for k
      using less.prems(3) overlong_jget unfolding m by blast
    have W1: "overlong doc \<or> overlong n \<Longrightarrow> w" if "n \<in> set (asArray (jget m k))" for k n
      using W[of k] overlong_items[OF that] by blast
    have cs: "c \<in> set (causesOf q ev (JObject m) doc)" using less.prems(2) unfolding m .
    note C = causesOf.simps(1)[of q ev m doc, unfolded op asString.simps option.case]
    have u': "\<not> meaning q ev (JObject m) doc \<noteq> triUnknown" using u unfolding m by simp
    note C' = C[unfolded if_not_P[OF u']]
    note S = surveyOf_findings[OF op, of q doc inside]
    consider "op = ''not''" | "op = ''all'' \<or> op = ''any''" | "op = ''fact''"
      | "(op = ''exists'' \<or> op = ''every'') \<and> q" | "op = ''evidence-present''" | "op = ''uniform'' \<and> q"
      | "\<not> (op = ''not'' \<or> (op = ''all'' \<or> op = ''any'') \<or> op = ''fact''
          \<or> (op = ''exists'' \<or> op = ''every'') \<and> q \<or> op = ''evidence-present'' \<or> op = ''uniform'' \<and> q)"
      by atomize_elim (rule seven_cases)
    then show ?thesis
      unfolding m
    proof cases
      case 1
      with cs C' have "c \<in> set (causesOf q ev (jget m ''condition'') doc)" by simp
      from less.hyps[OF _ dec this W, where inside = inside] 1 size_jget_lt[of m] m
      show "explained w inside (sFindings (surveyOf q (JObject m) doc inside)) c" unfolding S by simp
    next
      case 2
      with cs C' obtain n where n: "n \<in> set (asArray (jget m ''conditions''))" "c \<in> set (causesOf q ev n doc)"
        by (cases "jget m ''conditions''") auto
      from less.hyps[OF _ decimalOperands_items[OF dec n(1)] n(2) W1[OF n(1)], where inside = inside] size_asArray_jget[OF n(1)] m
      have "explained w inside (sFindings (surveyOf q n doc inside)) c" by simp
      then show "explained w inside (sFindings (surveyOf q (JObject m) doc inside)) c"
        by (rule explained_mono) (unfold S, use 2 n(1) in auto)
    next
      case 3
      with cs C' have "c \<in> set (snd (factResult m doc))" by simp
      from fact_explained[OF less.prems(1)[unfolded m] this less.prems(3)[unfolded m], where inside = inside] 3
      show "explained w inside (sFindings (surveyOf q (JObject m) doc inside)) c" unfolding S by simp
    next
      case 4
      let ?p = "stringOrEmpty (jget m ''path'')"
      show "explained w inside (sFindings (surveyOf q (JObject m) doc inside)) c"
      proof (cases "collectionOf m doc")
        case (Inl f)
        then have "ucCause f \<noteq> ''not-comparable''"
          by (auto simp: collectionOf_def causeOnly_def causeAt_def split: option.splits json.splits)
        moreover have "c = f" using cs C' 4 Inl by auto
        ultimately show ?thesis by (simp add: explained_other)
      next
        case (Inr xs)
        have "c \<in> set (map (labelCause ?p) (concat (map (causesOf q ev (jget m ''where'')) xs)))"
          using cs C' 4 Inr by (elim conjE disjE) simp_all
        then obtain x d where x: "x \<in> set xs" "d \<in> set (causesOf q ev (jget m ''where'') x)" "c = labelCause ?p d" by auto
        have "overlong x \<Longrightarrow> w"
          using Inr x(1) W overlong_pointer[of doc _ "JArray xs"]
          by (auto simp: collectionOf_def list_ex_iff split: option.splits json.splits)
        then have "overlong x \<or> overlong (jget m ''where'') \<Longrightarrow> w" using W by blast
        from less.hyps[OF _ dec x(2) this, where inside = "Some ?p"] size_jget_lt[of m] m
        have "explained w (Some ?p) (sFindings (surveyOf q (jget m ''where'') x (Some ?p))) d" by simp
        moreover have "sFindings (surveyOf q (JObject m) doc inside) =
            concat (map (\<lambda>x. sFindings (surveyOf q (jget m ''where'') x (Some ?p))) xs)"
          unfolding S using 4 collectionOf_elements[OF Inr] by (elim conjE disjE) simp_all
        ultimately show ?thesis
          unfolding x(3) using x(1) by (intro explained_mono[OF explained_label]) auto
      qed
    next
      case 5
      with cs C' have "ucCause c \<noteq> ''not-comparable''"
        by (auto simp: evidenceResult_def unsupported_def causeOnly_def causeRequirement_def split: option.splits if_splits)
      then show "explained w inside (sFindings (surveyOf q (JObject m) doc inside)) c" by (rule explained_other)
    next
      case 6
      have "ucCause (labelCause p d) = ucCause d" for p d by (simp add: labelCause_def)
      moreover have "ucCause f \<noteq> ''not-comparable''" if "collectionOf m doc = Inl f" for f
        using that by (auto simp: collectionOf_def causeOnly_def causeAt_def split: option.splits json.splits)
      ultimately have "ucCause c \<noteq> ''not-comparable''"
        using cs C' 6
        by (auto simp: uniformResult_def unsupported_def causeOnly_def causeAt_def split: option.splits sum.splits if_splits)
      then show "explained w inside (sFindings (surveyOf q (JObject m) doc inside)) c" by (rule explained_other)
    next
      case 7
      have "ucCause c \<noteq> ''not-comparable''"
      proof (cases "op = ''literal''")
        case True
        then show ?thesis using cs C'
          by (auto simp: literalResult_def unsupported_def causeOnly_def split: json.splits)
      next
        case False
        then show ?thesis using cs C' 7 by (auto simp: causeOnly_def)
      qed
      then show "explained w inside (sFindings (surveyOf q (JObject m) doc inside)) c" by (rule explained_other)
    qed
  qed
qed

subsection \<open>Properties\<close>

lemma start_sel [simp]:
  "cBudget (startComparability q limit) = limit" "cCharged (startComparability q limit) = 0"
  "cPointers (startComparability q limit) = Map.empty" "cFound (startComparability q limit) = []"
  "cSeen (startComparability q limit) = {}"
  by (simp_all add: startComparability_def)

lemma start_fresh: "cFresh q (startComparability q limit)"
  by (simp add: cFresh_def startComparability_def cm.within_limit_def cCoherent_def)

lemma incomparableFacts_survey:
  "let s = packSurvey q pack facts; due = sUnits s + scanUnits {} (set (sPaths s));
       (found, over) = incomparableFacts pack facts q limit
   in (over \<longleftrightarrow> limit < due) \<and> (limit < due \<or> found = uniqueList (sFindings s))"
proof -
  define c where "c = foldl (\<lambda>c n. walk n facts None c) (startComparability q limit) (conditionsOf pack)"
  have s: "carriesOut (startComparability q limit) c (packSurvey q pack facts)"
    unfolding c_def packSurvey_def
    by (rule foldl_carriesOut[OF walk_carriesOut walk_exceeded start_fresh])
  have t: "list_all typed (sFindings (packSurvey q pack facts))"
    using surveyOf_typed by (fastforce simp: packSurvey_def surveys_findings list_all_iff)
  have "cFound (foldl (\<lambda>d f. recordFinding f d) (startComparability q limit) (sFindings (packSurvey q pack facts)))
      = uniqueList (sFindings (packSurvey q pack facts))"
    using recordFinding_unique[of "startComparability q limit" "sFindings (packSurvey q pack facts)"] t
    by (simp add: uniqueList_def)
  with s show ?thesis
    by (auto simp: incomparableFacts_foldl Let_def carriesOut_def cm.accounts_def simp flip: c_def)
qed

lemma condition_adds:
  assumes "coherent e" "jsonWf doc" "decimalOperands node" "condition node doc e = (v, e')"
  shows "\<exists>ms cs. mismatches e' = mismatches e @ ms \<and> causes e' = causes e @ cs \<and>
    list_all (listed None (sFindings (surveyOf (quantifiers e) node doc None))) ms \<and>
    list_all (explained (overlong doc \<or> overlong node) None (sFindings (surveyOf (quantifiers e) node doc None))) cs"
proof -
  have "addsListed None (sFindings (surveyOf (quantifiers e) node doc None)) e e'"
    using condition_lists[OF assms(2), of "quantifiers e" node] assms(1,4) by (auto simp: lists_def dest!: spec)
  moreover have "causes e' = causes e @ causesOf (quantifiers e) (evidence e) node doc"
    using agrees_cases(2)[OF condition_agrees[OF assms(2)] assms(1,4)] by (simp add: outcome_def)
  ultimately show ?thesis
    using causes_explained[OF assms(3), where w = "overlong doc \<or> overlong node"] by (auto simp: addsListed_def list_all_iff)
qed

text \<open>C36: the comparability check is exact and its bound is the documented sum. It reports an overrun
  exactly when one unit per condition node, the steps of each resolution, the bytes and items read
  and one scan of each distinct pointer do not fit the work limit, and otherwise its findings are
  those of the stateless walk over every stated condition, each once, in order of first appearance.\<close>

theorem incomparableFacts_exact:
  "let s = packSurvey q pack facts; due = sUnits s + scanUnits {} (set (sPaths s));
       (found, over) = incomparableFacts pack facts q limit
   in (over \<longleftrightarrow> limit < due) \<and> (limit < due \<or> found = uniqueList (sFindings s))"
  by (rule incomparableFacts_survey)

text \<open>What the evaluator notices the check has listed. Every type mismatch and every not-comparable
  cause that evaluating a condition adds names the pointer, collection, and fact type of a finding, or
  comes of a decimal text too long for the exact arithmetic.\<close>

theorem condition_listed:
  assumes "coherent e" "jsonWf doc" "decimalOperands node" "condition node doc e = (v, e')"
  shows "\<exists>ms cs. mismatches e' = mismatches e @ ms \<and> causes e' = causes e @ cs \<and>
    list_all (listed None (sFindings (surveyOf (quantifiers e) node doc None))) ms \<and>
    list_all (explained (overlong doc \<or> overlong node) None (sFindings (surveyOf (quantifiers e) node doc None))) cs"
  using assms by (rule condition_adds)

text \<open>Such a text the guard lets pass, whatever it is compared with, and the evaluator does not compare.\<close>

lemma overlong_passes_guard:
  assumes "OrderedOperator (stringOrEmpty (jget m ''operator''))" "overlong (JString s)"
  shows "judgeValue m path inside (JString s) c = snd (spendUnits (length s) c) \<and>
    decimalCompare (JString s) operand = None"
  using assms by (simp add: judgeValue_def decimalCompare_def Let_def case_prod_unfold)

definition sampleAdult :: json where
  "sampleAdult = JObject [(''op'', JString ''fact''), (''path'', JString ''/age''),
     (''operator'', JString ''equals''), (''value'', JString ''18'')]"

definition samplePack :: object where
  "samplePack = [(''rules'', JArray [JObject [(''when'', sampleAdult)]])]"

theorem condition_listed_witness:
  "length (sFindings (surveyOf False sampleAdult (JObject [(''age'', JNumber ''18'')]) None)) = 1 \<and>
   (\<exists>ms. mismatches (snd (condition sampleAdult (JObject [(''age'', JNumber ''18'')]) (newEvaluator Map.empty False False 9)))
      = ms \<and> ms \<noteq> [])"
proof -
  let ?doc = "JObject [(''age'', JNumber ''18'')]" and ?e = "newEvaluator Map.empty False False 9"
  obtain v e' where c: "condition sampleAdult ?doc ?e = (v, e')" by (meson surj_pair)
  have "decimalOperands sampleAdult" by (simp add: sampleAdult_def OrderedOperator_def)
  from condition_listed[OF newEvaluator_fresh(2) _ this c] have "\<exists>ms. mismatches e' = mismatches ?e @ ms" by auto
  moreover have "mismatches (snd (condition sampleAdult ?doc ?e)) \<noteq> []" by code_simp
  moreover have "length (sFindings (surveyOf False sampleAdult ?doc None)) = 1" by code_simp
  ultimately show ?thesis using c by simp
qed

text \<open>C19: the guard keeps its promise. When a project's requirement passes over a pack's conditions,
  whose ordered operands are texts of the decimal grammar, evaluating any of them records no type
  mismatch; and it leaves no comparison unknown for the type of its fact, but for one between two
  strings when the facts or the condition hold a decimal text that is too long for the exact
  arithmetic, which the guard does not look for.\<close>

theorem requireComparable_sound:
  assumes "\<not> requireComparable pack facts (quantifiers e) limit" "node \<in> set (conditionsOf pack)"
    and "coherent e" "jsonWf facts" "decimalOperands node" "condition node facts e = (v, e')"
  shows "mismatches e' = mismatches e \<and>
    (\<exists>cs. causes e' = causes e @ cs \<and>
      (\<forall>c \<in> set cs. ucCause c = ''not-comparable'' \<longrightarrow>
         ucFactType c = ''string'' \<and> (overlong facts \<or> overlong node)))"
proof -
  let ?s = "packSurvey (quantifiers e) pack facts"
  have "\<not> limit < sUnits ?s + scanUnits {} (set (sPaths ?s)) \<and> uniqueList (sFindings ?s) = []"
    using assms(1) incomparableFacts_survey[of "quantifiers e" pack facts limit] by (auto simp: requireComparable_def Let_def)
  then have "set (sFindings ?s) = {}" by (metis set_uniqueList empty_set)
  then have "sFindings (surveyOf (quantifiers e) node facts None) = []"
    using assms(2) by (auto simp: packSurvey_def surveys_findings)
  with condition_adds[OF assms(3-6)] show ?thesis
    by (auto simp: listed_def explained_def list_all_iff)
qed

theorem requireComparable_sound_witness:
  "mismatches (snd (condition sampleAdult (JObject [(''age'', JString ''19'')]) (newEvaluator Map.empty False False 9))) = []"
proof -
  let ?doc = "JObject [(''age'', JString ''19'')]" and ?e = "newEvaluator Map.empty False False 9"
  obtain v e' where c: "condition sampleAdult ?doc ?e = (v, e')" by (meson surj_pair)
  have "\<not> requireComparable samplePack ?doc False 99" by code_simp
  moreover have "quantifiers ?e = False" by (simp add: newEvaluator_def)
  moreover have "sampleAdult \<in> set (conditionsOf samplePack)"
    by (simp add: samplePack_def conditionsOf_def sampleAdult_def)
  moreover have "decimalOperands sampleAdult" by (simp add: sampleAdult_def OrderedOperator_def)
  moreover have "jsonWf ?doc" by simp
  ultimately have "mismatches e' = mismatches ?e"
    by (metis requireComparable_sound[OF _ _ newEvaluator_fresh(2) _ _ c, of samplePack 99])
  with c show ?thesis by (simp add: newEvaluator_def)
qed

end
