(* ===== verification/Diagnostics.thy ===== *)
theory Diagnostics
  imports Pointer "HOL-Library.Product_Lexorder"
begin

section \<open>Diagnostics\<close>

text \<open>
  \<open>Diagnostic\<close> of \<open>internal/result/result.go\<close> and the bounded collector of
  \<open>internal/validation/diagnostics.go\<close>. A message is kept as the texts its sentence is made from,
  which is all that two messages can differ by. The collector's key joins code, path and message by
  NUL; codes hold none and the sentences quote their texts, so it is the triple. A check is a step
  over the collector that says whether to go on, as the functions of \<open>semantic.go\<close> return it; every
  step is shown to be the attempt to add some list of diagnostics in order, and what the collector
  reports of a list is stated once, for all of them.
\<close>

record OverlapRule =
  ovID :: string
  ovOutcome :: string

record OverlapRegion =
  ogSharedValues :: "json list"
  ogPath :: string
  ogFrom :: string
  ogFromInclusive :: "bool option"

record OverlapRewrite =
  owRuleID :: string
  owWhen :: object

record OverlapAdvice =
  oaCertainty :: string
  oaRules :: "OverlapRule list"
  oaOverlap :: "OverlapRegion option"
  oaWitnessFacts :: string
  oaEffect :: string
  oaSuggestedRewrite :: "OverlapRewrite option"
  oaRewriteUnavailable :: string

record Diagnostic =
  dgCode :: string
  dgLayer :: string
  dgSeverity :: string
  dgInstancePath :: string
  dgMessage :: "string list"
  dgProfile :: string
  dgOverlapAdvice :: "OverlapAdvice option"

definition ErrorDiagnostic :: "string \<Rightarrow> string \<Rightarrow> string \<Rightarrow> string list \<Rightarrow> Diagnostic" where
  "ErrorDiagnostic code layer instancePath message =
     \<lparr>dgCode = code, dgLayer = layer, dgSeverity = ''error'', dgInstancePath = instancePath, dgMessage = message,
      dgProfile = [], dgOverlapAdvice = None\<rparr>"

subsection \<open>The collector\<close>

definition MaxDiagnostics :: nat where
  "MaxDiagnostics = 100"

type_synonym diagnosticKey = "string \<times> string \<times> string list"

record diagnosticCollector =
  dcItems :: "Diagnostic list"
  dcSeen :: "diagnosticKey list"
  dcTruncated :: bool

definition newDiagnosticCollector :: diagnosticCollector where
  "newDiagnosticCollector = \<lparr>dcItems = [], dcSeen = [], dcTruncated = False\<rparr>"

definition diagnosticKeyOf :: "Diagnostic \<Rightarrow> diagnosticKey" where
  "diagnosticKeyOf d = (dgCode d, dgInstancePath d, dgMessage d)"

type_synonym step = "diagnosticCollector \<Rightarrow> bool \<times> diagnosticCollector"

definition addDiagnostic :: "Diagnostic \<Rightarrow> step" where
  "addDiagnostic d c =
     (if diagnosticKeyOf d \<in> set (dcSeen c) then (True, c)
      else if MaxDiagnostics \<le> length (dcItems c) then (False, c\<lparr>dcTruncated := True\<rparr>)
      else (True, c\<lparr>dcSeen := diagnosticKeyOf d # dcSeen c, dcItems := dcItems c @ [d]\<rparr>))"

text \<open>\<open>sorted\<close>: a stable sort by location, then code, both byte by byte.\<close>

definition sortedDiagnostics :: "Diagnostic list \<Rightarrow> Diagnostic list" where
  "sortedDiagnostics items = sort_key (\<lambda>d. (dgInstancePath d, dgCode d)) items"

subsection \<open>Steps\<close>

text \<open>Steps one after another, until one says to stop.\<close>

primrec inOrder :: "step list \<Rightarrow> step" where
  "inOrder [] c = (True, c)"
| "inOrder (s # ss) c = (let (ok, c1) = s c in if ok then inOrder ss c1 else (False, c1))"

lemma inOrder_cong [fundef_cong]:
  "ss = ss' \<Longrightarrow> c = c' \<Longrightarrow> inOrder ss c = inOrder ss' c'"
  by simp

abbreviation addAll :: "Diagnostic list \<Rightarrow> step" where
  "addAll ds \<equiv> inOrder (map addDiagnostic ds)"

lemma inOrder_append: "inOrder (ss @ ts) c = (let (ok, c1) = inOrder ss c in if ok then inOrder ts c1 else (False, c1))"
  by (induction ss arbitrary: c) (auto simp: Let_def split: prod.split)

text \<open>A step that is the attempt to add a list.\<close>

definition emits :: "step \<Rightarrow> Diagnostic list \<Rightarrow> bool" where
  "emits s ds \<longleftrightarrow> s = addAll ds"

named_theorems emits

lemma emits_add [emits]: "emits (addDiagnostic d) [d]"
  by (rule ext[THEN emits_def[THEN iffD2]]) (simp split: prod.split)

lemma emits_nothing [emits]: "emits (\<lambda>c. (True, c)) []"
  by (simp add: emits_def fun_eq_iff)

lemma emits_if [emits]: "emits s ds \<Longrightarrow> emits (if b then s else (\<lambda>c. (True, c))) (if b then ds else [])"
  by (simp add: emits_nothing)

lemma emits_inOrder: "list_all2 emits ss dss \<Longrightarrow> emits (inOrder ss) (concat dss)"
proof (induction ss dss rule: list_all2_induct)
  case (Cons s ss ds dss)
  then have "s = addAll ds" "inOrder ss = addAll (concat dss)" by (simp_all add: emits_def)
  then show ?case by (auto simp: emits_def fun_eq_iff inOrder_append split: prod.split)
qed (simp add: emits_def fun_eq_iff)

lemma emits_inOrder_map: "(\<And>x. x \<in> set xs \<Longrightarrow> emits (f x) (g x)) \<Longrightarrow> emits (inOrder (map f xs)) (concat (map g xs))"
  by (rule emits_inOrder) (simp add: list_all2_conv_all_nth)

subsection \<open>What the collector reports\<close>

text \<open>The first of each key, in order.\<close>

fun distinctBy :: "diagnosticKey list \<Rightarrow> Diagnostic list \<Rightarrow> Diagnostic list" where
  "distinctBy seen [] = []"
| "distinctBy seen (d # ds) =
     (if diagnosticKeyOf d \<in> set seen then distinctBy seen ds else d # distinctBy (diagnosticKeyOf d # seen) ds)"

definition report :: "Diagnostic list \<Rightarrow> Diagnostic list \<times> bool" where
  "report ds =
     (sortedDiagnostics (take MaxDiagnostics (distinctBy [] ds)), MaxDiagnostics < length (distinctBy [] ds))"

lemma addDiagnostic_cases:
  "diagnosticKeyOf d \<in> set (dcSeen c) \<Longrightarrow> addDiagnostic d c = (True, c)"
  "diagnosticKeyOf d \<notin> set (dcSeen c) \<Longrightarrow> MaxDiagnostics \<le> length (dcItems c) \<Longrightarrow>
   addDiagnostic d c = (False, c\<lparr>dcTruncated := True\<rparr>)"
  "diagnosticKeyOf d \<notin> set (dcSeen c) \<Longrightarrow> \<not> MaxDiagnostics \<le> length (dcItems c) \<Longrightarrow>
   addDiagnostic d c = (True, c\<lparr>dcSeen := diagnosticKeyOf d # dcSeen c, dcItems := dcItems c @ [d]\<rparr>)"
  by (simp_all add: addDiagnostic_def)

lemma addAll_report:
  assumes "length (dcItems c) \<le> MaxDiagnostics" "\<not> dcTruncated c" "addAll ds c = (ok, c')"
  shows "dcItems c' = take MaxDiagnostics (dcItems c @ distinctBy (dcSeen c) ds) \<and>
    (dcTruncated c' \<longleftrightarrow> MaxDiagnostics < length (dcItems c @ distinctBy (dcSeen c) ds)) \<and> ok = (\<not> dcTruncated c')"
  using assms
proof (induction ds arbitrary: c)
  case (Cons d ds)
  show ?case
  proof (cases "diagnosticKeyOf d \<in> set (dcSeen c)")
    case True
    then have "addAll (d # ds) c = addAll ds c" by (simp add: addDiagnostic_cases)
    with Cons.IH[of c] Cons.prems True show ?thesis by simp
  next
    case False
    show ?thesis
    proof (cases "MaxDiagnostics \<le> length (dcItems c)")
      case True
      with False Cons.prems show ?thesis by (auto simp: addDiagnostic_cases)
    next
      case full: False
      let ?c = "c\<lparr>dcSeen := diagnosticKeyOf d # dcSeen c, dcItems := dcItems c @ [d]\<rparr>"
      have "addAll ds ?c = (ok, c')" using Cons.prems(3) False full by (simp add: addDiagnostic_cases)
      from Cons.IH[OF _ _ this] Cons.prems(2) False full show ?thesis by simp
    qed
  qed
qed auto

definition collected :: "diagnosticCollector \<Rightarrow> Diagnostic list \<times> bool" where
  "collected c = (sortedDiagnostics (dcItems c), dcTruncated c)"

lemma emits_collected: "emits s ds \<Longrightarrow> collected (snd (s newDiagnosticCollector)) = report ds"
  using addAll_report[of newDiagnosticCollector ds "fst (s newDiagnosticCollector)" "snd (s newDiagnosticCollector)"]
  by (simp add: emits_def newDiagnosticCollector_def collected_def report_def)

lemma distinctBy_empty: "distinctBy [] ds = [] \<longleftrightarrow> ds = []"
  by (cases ds) simp_all

lemma report_empty: "fst (report ds) = [] \<longleftrightarrow> ds = []"
proof -
  have "length (sortedDiagnostics xs) = length xs" for xs by (simp add: sortedDiagnostics_def)
  then have "fst (report ds) = [] \<longleftrightarrow> take MaxDiagnostics (distinctBy [] ds) = []"
    by (metis fst_conv length_0_conv report_def)
  then show ?thesis using distinctBy_empty[of ds] by (simp add: MaxDiagnostics_def)
qed

end
