(* ===== verification/Quantifier_Draft.thy ===== *)
theory Quantifier_Draft
  imports Evaluation_Laws Diagnostics
begin

section \<open>The draft quantifier grammar\<close>

text \<open>
  The gate of \<open>internal/evaluation/rfc0008.go\<close>: where a pack states conditions, what the draft
  grammar refuses in them, which draft operators a pack uses, and the Core projection the untouched
  validator then judges. The gate's sentences are not modelled: its
  first diagnostic alone is reported, so no two are compared. The gate is shown to accept
  exactly the packs whose aggregates have the draft's shape and nest at most two deep, the projection
  to leave no draft operator behind, and the opt-in to change nothing for a pack that uses none.
\<close>

subsection \<open>Pointers\<close>

text \<open>\<open>pointerPattern\<close>, \<open>^(?:/(?:[^~/]|~0|~1)*)*$\<close>, as the automaton it is.\<close>

fun tildesPaired :: "string \<Rightarrow> bool" where
  "tildesPaired [] \<longleftrightarrow> True"
| "tildesPaired (c # s) \<longleftrightarrow>
     (if c = CHR ''~'' then (case s of [] \<Rightarrow> False | d # t \<Rightarrow> (d = CHR ''0'' \<or> d = CHR ''1'') \<and> tildesPaired t)
      else tildesPaired s)"

definition pointerPattern :: "string \<Rightarrow> bool" where
  "pointerPattern s \<longleftrightarrow> s = [] \<or> hd s = CHR ''/'' \<and> tildesPaired s"

definition pointerText :: "json \<Rightarrow> bool" where
  "pointerText v \<longleftrightarrow> (case asString v of None \<Rightarrow> False | Some string \<Rightarrow> pointerPattern string)"

definition appendPath :: "string list \<Rightarrow> string list \<Rightarrow> string list" where
  "appendPath location parts = location @ parts"

subsection \<open>Condition sites\<close>

record conditionSite =
  csNode :: json
  csLocation :: "string list"

definition entrySites :: "object \<Rightarrow> string \<Rightarrow> conditionSite list" where
  "entrySites m collection =
     concat (map (\<lambda>(index, entry).
         case entry of
           JObject x \<Rightarrow>
             if hasMember x ''when''
             then [\<lparr>csNode = jget x ''when'', csLocation = [collection, natString index, ''when'']\<rparr>] else []
         | _ \<Rightarrow> [])
       (indexed (asArray (jget m collection))))"

definition conditionSites :: "object \<Rightarrow> conditionSite list" where
  "conditionSites m =
     (if hasMember m ''applicability''
      then [\<lparr>csNode = jget m ''applicability'', csLocation = [''applicability'']\<rparr>] else [])
     @ entrySites m ''rules'' @ entrySites m ''exceptions''"

subsection \<open>Shape and depth\<close>

definition aggregateOp :: "string \<Rightarrow> bool" where
  "aggregateOp op \<longleftrightarrow> op = ''exists'' \<or> op = ''every'' \<or> op = ''uniform''"

definition maxAggregateDepth :: nat where
  "maxAggregateDepth = 2"

definition shapeFault :: "string list \<Rightarrow> Diagnostic" where
  "shapeFault parts = ErrorDiagnostic ''JPS-EVALUATION-RFC0008-SHAPE'' ''structural'' (Pointer parts) []"

definition aggregateMembers :: "string \<Rightarrow> string list" where
  "aggregateMembers op = (if op = ''uniform'' then [''op'', ''path'', ''at''] else [''op'', ''path'', ''where''])"

definition collectShapeDiagnostics :: "object \<Rightarrow> string \<Rightarrow> string list \<Rightarrow> Diagnostic list" where
  "collectShapeDiagnostics m op location =
     (let required = aggregateMembers op;
          missing = filter (\<lambda>k. \<not> hasMember m k) required;
          extra = filter (\<lambda>k. k \<notin> set required) (sortedMembers m);
          notPointer = (\<lambda>k. k \<in> set required \<and> hasMember m k \<and> \<not> pointerText (jget m k));
          badWhere = op \<noteq> ''uniform'' \<and> hasMember m ''where'' \<and> asObject (jget m ''where'') = None
      in map (\<lambda>k. shapeFault (appendPath location [k]))
           (missing @ extra @ filter notPointer [''path'', ''at''] @ (if badWhere then [''where''] else [])))"

function (sequential)
  collectAggregateDiagnostics :: "json \<Rightarrow> string list \<Rightarrow> nat \<Rightarrow> Diagnostic list"
where
  "collectAggregateDiagnostics (JObject m) location remaining =
     (let op = stringOrEmpty (jget m ''op'')
      in if op = ''all'' \<or> op = ''any'' then
           concat (map (\<lambda>(index, child).
               collectAggregateDiagnostics child (appendPath location [''conditions'', natString index]) remaining)
             (indexed (asArray (jget m ''conditions''))))
         else if op = ''not'' then
           collectAggregateDiagnostics (jget m ''condition'') (appendPath location [''condition'']) remaining
         else if aggregateOp op then
           (if remaining < 1
            then [ErrorDiagnostic ''JPS-EVALUATION-RFC0008-DEPTH'' ''structural'' (Pointer location) []]
            else collectShapeDiagnostics m op location
                 @ (if op = ''uniform'' then []
                    else collectAggregateDiagnostics (jget m ''where'') (appendPath location [''where''])
                           (remaining - 1)))
         else [])"
| "collectAggregateDiagnostics node location remaining = []"
  by pat_completeness auto
termination
  by (relation "measure (\<lambda>(n, l, r). size n)")
     (auto simp only: in_measure case_prod_conv wf_measure size_jget_lt indexed_def
       dest!: set_zip_rightD size_asArray_jget)

definition rfc0008Diagnostics :: "object \<Rightarrow> Diagnostic list" where
  "rfc0008Diagnostics m =
     concat (map (\<lambda>site. collectAggregateDiagnostics (csNode site) (csLocation site) maxAggregateDepth)
                 (conditionSites m))"

subsection \<open>Operators and projection\<close>

function (sequential) collectOperators :: "json \<Rightarrow> string list" where
  "collectOperators (JObject m) =
     (let op = stringOrEmpty (jget m ''op'')
      in if op = ''all'' \<or> op = ''any'' then concat (map collectOperators (asArray (jget m ''conditions'')))
         else if op = ''not'' then collectOperators (jget m ''condition'')
         else if aggregateOp op then op # collectOperators (jget m ''where'')
         else [])"
| "collectOperators node = []"
  by pat_completeness auto
termination
  by (relation "measure size") (simp_all only: in_measure wf_measure size_asArray_jget size_jget_lt)

definition rfc0008Operators :: "object \<Rightarrow> string list" where
  "rfc0008Operators m = sort (uniqueList (concat (map (\<lambda>site. collectOperators (csNode site)) (conditionSites m))))"

function (sequential) projectCondition :: "json \<Rightarrow> json" where
  "projectCondition (JObject m) =
     (let op = stringOrEmpty (jget m ''op'')
      in if op = ''all'' \<or> op = ''any'' then
           (case jget m ''conditions'' of
              JArray children \<Rightarrow>
                JObject (setMember m ''conditions'' (JArray (map projectCondition children)))
            | _ \<Rightarrow> JObject m)
         else if op = ''not'' then
           JObject (setMember m ''condition'' (projectCondition (jget m ''condition'')))
         else if op = ''exists'' \<or> op = ''every'' then projectCondition (jget m ''where'')
         else if op = ''uniform'' then JObject [(''op'', JString ''literal''), (''value'', JBool True)]
         else JObject m)"
| "projectCondition node = node"
  by pat_completeness auto
termination
  by (relation "measure size") (simp_all only: in_measure wf_measure size_condition_item size_jget_lt)

definition projectEntry :: "json \<Rightarrow> json" where
  "projectEntry entry =
     (case entry of
        JObject x \<Rightarrow>
          JObject (if hasMember x ''when'' then setMember x ''when'' (projectCondition (jget x ''when'')) else x)
      | _ \<Rightarrow> entry)"

definition projectEntries :: "object \<Rightarrow> string \<Rightarrow> object \<Rightarrow> object" where
  "projectEntries m collection projected =
     (case jget m collection of
        JArray entries \<Rightarrow> setMember projected collection (JArray (map projectEntry entries))
      | _ \<Rightarrow> projected)"

definition projectPack :: "object \<Rightarrow> object" where
  "projectPack m =
     (let p0 = (if hasMember m ''applicability''
                then setMember m ''applicability'' (projectCondition (jget m ''applicability'')) else m)
      in projectEntries m ''exceptions'' (projectEntries m ''rules'' p0))"

record DraftPrototype =
  dpRFC :: string
  dpOperators :: "string list"
  dpOutcomes :: "string list"
  dpPackValid :: bool

definition draftPrototype :: "object \<Rightarrow> DraftPrototype" where
  "draftPrototype m =
     \<lparr>dpRFC = ''0008'', dpOperators = rfc0008Operators m, dpOutcomes = [],
      dpPackValid = rfc0008Operators m = []\<rparr>"

subsection \<open>What the gate accepts\<close>

definition legalShape :: "object \<Rightarrow> string \<Rightarrow> bool" where
  "legalShape m op \<longleftrightarrow>
     fst ` set m = set (aggregateMembers op) \<and>
     pointerText (jget m ''path'') \<and>
     (if op = ''uniform'' then pointerText (jget m ''at'') else asObject (jget m ''where'') \<noteq> None)"

text \<open>The deepest nesting of aggregates in a condition; wrappers do not count.\<close>

function (sequential) aggregateDepth :: "json \<Rightarrow> nat" where
  "aggregateDepth (JObject m) =
     (let op = stringOrEmpty (jget m ''op'')
      in if op = ''all'' \<or> op = ''any'' then foldr max (map aggregateDepth (asArray (jget m ''conditions''))) 0
         else if op = ''not'' then aggregateDepth (jget m ''condition'')
         else if op = ''exists'' \<or> op = ''every'' then 1 + aggregateDepth (jget m ''where'')
         else if op = ''uniform'' then 1 else 0)"
| "aggregateDepth node = 0"
  by pat_completeness auto
termination
  by (relation "measure size") (simp_all only: in_measure wf_measure size_asArray_jget size_jget_lt)

function (sequential) shaped :: "json \<Rightarrow> bool" where
  "shaped (JObject m) \<longleftrightarrow>
     (let op = stringOrEmpty (jget m ''op'')
      in if op = ''all'' \<or> op = ''any'' then list_all shaped (asArray (jget m ''conditions''))
         else if op = ''not'' then shaped (jget m ''condition'')
         else if op = ''exists'' \<or> op = ''every'' then legalShape m op \<and> shaped (jget m ''where'')
         else if op = ''uniform'' then legalShape m op else True)"
| "shaped node \<longleftrightarrow> True"
  by pat_completeness auto
termination
  by (relation "measure size") (simp_all only: in_measure wf_measure size_asArray_jget size_jget_lt)

lemma foldr_max_le: "foldr max ns 0 \<le> r \<longleftrightarrow> (\<forall>n \<in> set ns. n \<le> (r::nat))"
  by (induction ns) auto

lemma stringOrEmpty_nonempty: "stringOrEmpty v = s \<Longrightarrow> s \<noteq> [] \<Longrightarrow> v = JString s"
  by (cases v) (simp_all add: stringOrEmpty_def)

lemma shape_legal:
  assumes "aggregateOp op"
  shows "collectShapeDiagnostics m op location = [] \<longleftrightarrow> legalShape m op"
proof -
  have members: "(\<forall>k \<in> set (aggregateMembers op). hasMember m k) \<and>
      (\<forall>k \<in> set (sortedMembers m). k \<in> set (aggregateMembers op)) \<longleftrightarrow> fst ` set m = set (aggregateMembers op)"
    by (auto simp: hasMember_iff sortedMembers_def)
  show ?thesis
  proof (cases "fst ` set m = set (aggregateMembers op)")
    case False
    with members show ?thesis
      by (auto simp: collectShapeDiagnostics_def legalShape_def Let_def filter_none)
  next
    case True
    then have has: "hasMember m k \<longleftrightarrow> k \<in> set (aggregateMembers op)" for k by (simp add: hasMember_iff)
    have "collectShapeDiagnostics m op location = [] \<longleftrightarrow>
        pointerText (jget m ''path'') \<and> (op = ''uniform'' \<longrightarrow> pointerText (jget m ''at'')) \<and>
        (op \<noteq> ''uniform'' \<longrightarrow> asObject (jget m ''where'') \<noteq> None)"
      using members True
      by (cases "op = ''uniform''") (simp_all add: collectShapeDiagnostics_def Let_def filter_none has aggregateMembers_def
          del: not_None_eq)
    with True show ?thesis by (simp add: legalShape_def)
  qed
qed

lemma collectAggregateDiagnostics_none:
  "collectAggregateDiagnostics node location remaining = [] \<longleftrightarrow>
     aggregateDepth node \<le> remaining \<and> shaped node"
proof (induction node location remaining rule: collectAggregateDiagnostics.induct)
  case (1 m location remaining)
  define op where "op = stringOrEmpty (jget m ''op'')"
  consider "op = ''all'' \<or> op = ''any''" | "op = ''not''" | "op = ''uniform''"
    | "op = ''exists'' \<or> op = ''every''"
    | "\<not> (op = ''all'' \<or> op = ''any'')" "op \<noteq> ''not''" "op \<noteq> ''uniform''" "\<not> (op = ''exists'' \<or> op = ''every'')"
    by argo
  then show ?case
  proof cases
    case 1
    let ?cs = "asArray (jget m ''conditions'')"
    have "collectAggregateDiagnostics x (appendPath location [''conditions'', natString i]) remaining = [] \<longleftrightarrow>
        aggregateDepth x \<le> remaining \<and> shaped x" if "(i, x) \<in> set (indexed ?cs)" for i x
      using "1.IH"(1)[OF op_def 1 that refl] .
    then have "(\<forall>(i, x) \<in> set (indexed ?cs).
          collectAggregateDiagnostics x (appendPath location [''conditions'', natString i]) remaining = []) \<longleftrightarrow>
        (\<forall>x \<in> set ?cs. aggregateDepth x \<le> remaining \<and> shaped x)"
      using indexed_set[of _ ?cs] by blast
    with 1 show ?thesis
      by (auto simp: op_def indexed_empty foldr_max_le list_all_iff simp del: concat_eq_Nil_conv)
  next
    case 2
    with "1.IH"(2)[OF op_def] show ?thesis by (simp add: op_def)
  next
    case 3
    with shape_legal[of op m location] show ?thesis
      by (cases "remaining < 1") (auto simp: Let_def aggregateOp_def simp flip: op_def)
  next
    case 4
    then have no: "\<not> (op = ''all'' \<or> op = ''any'')" "op \<noteq> ''not''" "op \<noteq> ''uniform''" and ag: "aggregateOp op"
      by (auto simp: aggregateOp_def)
    show ?thesis
    proof (cases "remaining < 1")
      case True
      with 4 show ?thesis by (auto simp: op_def aggregateOp_def)
    next
      case False
      have eqs: "collectAggregateDiagnostics (JObject m) location remaining = collectShapeDiagnostics m op location
          @ collectAggregateDiagnostics (jget m ''where'') (appendPath location [''where'']) (remaining - 1)"
        "aggregateDepth (JObject m) = 1 + aggregateDepth (jget m ''where'')"
        "shaped (JObject m) \<longleftrightarrow> legalShape m op \<and> shaped (jget m ''where'')"
        using no ag 4 False by (simp_all add: Let_def flip: op_def)
      show ?thesis
        unfolding eqs using "1.IH"(3)[OF op_def no(1,2) ag False no(3)] shape_legal[OF ag, of m location] False
        by auto
    qed
  next
    case 5
    then show ?thesis by (simp add: Let_def aggregateOp_def flip: op_def)
  qed
qed simp_all

subsection \<open>What the projection leaves\<close>

lemma stringOrEmpty_setMember:
  "k \<noteq> ''op'' \<Longrightarrow> stringOrEmpty (jget (setMember m k v) ''op'') = stringOrEmpty (jget m ''op'')"
  by simp

lemma collectOperators_project: "collectOperators (projectCondition node) = []"
proof (induction node rule: projectCondition.induct)
  case (1 m)
  define op where "op = stringOrEmpty (jget m ''op'')"
  consider "op = ''all'' \<or> op = ''any''" | "op = ''not''" | "op = ''uniform''"
    | "op = ''exists'' \<or> op = ''every''"
    | "\<not> (op = ''all'' \<or> op = ''any'')" "op \<noteq> ''not''" "op \<noteq> ''uniform''" "\<not> (op = ''exists'' \<or> op = ''every'')"
    by argo
  then show ?case
  proof cases
    case 1
    then have IH: "collectOperators (projectCondition c) = []" if "jget m ''conditions'' = JArray cs" "c \<in> set cs" for cs c
      using "1.IH"(1)[OF op_def _ that] by blast
    show ?thesis
    proof (cases "jget m ''conditions''")
      case (JArray cs)
      with 1 IH show ?thesis by (auto simp: Let_def simp flip: op_def)
    qed (use 1 in \<open>auto simp: Let_def simp flip: op_def\<close>)
  next
    case 2
    with "1.IH"(2)[OF op_def] show ?thesis by (simp add: Let_def flip: op_def)
  next
    case 3
    then show ?thesis by (simp add: Let_def aggregateOp_def flip: op_def)
  next
    case 4
    with "1.IH"(3)[OF op_def] show ?thesis by (auto simp: Let_def simp flip: op_def)
  next
    case 5
    then show ?thesis by (auto simp: Let_def aggregateOp_def simp flip: op_def)
  qed
qed simp_all

text \<open>Every site of the projection is the projected site of the pack, at the same location.\<close>

definition projectSite :: "conditionSite \<Rightarrow> conditionSite" where
  "projectSite s = s\<lparr>csNode := projectCondition (csNode s)\<rparr>"

lemma entrySites_project:
  "entrySites (setMember m c (JArray (map projectEntry es))) c = map projectSite (entrySites (setMember m c (JArray es)) c)"
proof -
  have "indexed (map projectEntry es) = map (\<lambda>(i, x). (i, projectEntry x)) (indexed es)"
    by (simp add: indexed_def zip_map2)
  then show ?thesis
    by (simp add: entrySites_def map_concat comp_def)
      (intro arg_cong[where f = concat] map_cong refl,
       auto simp: projectEntry_def projectSite_def split: json.split)
qed

lemma entrySites_cong: "jget m c = jget m' c \<Longrightarrow> entrySites m c = entrySites m' c"
  by (simp add: entrySites_def)

lemma projectEntries_sites:
  "entrySites (projectEntries m c p) c' =
     (if c' = c \<and> (\<exists>es. jget m c = JArray es) then map projectSite (entrySites m c) else entrySites p c')"
proof (cases "jget m c")
  case (JArray es)
  have "entrySites m c = entrySites (setMember m c (JArray es)) c" by (rule entrySites_cong) (simp add: JArray)
  moreover have "entrySites (setMember p c (JArray (map projectEntry es))) c =
      entrySites (setMember m c (JArray (map projectEntry es))) c" by (rule entrySites_cong) simp
  moreover have "c' \<noteq> c \<Longrightarrow> entrySites (setMember p c v) c' = entrySites p c'" for v
    by (rule entrySites_cong) simp
  ultimately show ?thesis using JArray by (simp add: projectEntries_def entrySites_project)
qed (simp_all add: projectEntries_def)

lemma entrySites_none: "\<nexists>es. jget m c = JArray es \<Longrightarrow> entrySites m c = []"
  by (cases "jget m c") (simp_all add: entrySites_def indexed_def)

lemma projectEntries_other: "c' \<noteq> c \<Longrightarrow> jget (projectEntries m c p) c' = jget p c'"
  "c' \<noteq> c \<Longrightarrow> hasMember (projectEntries m c p) c' = hasMember p c'"
  by (cases "jget m c"; simp add: projectEntries_def)+

lemma conditionSites_project: "conditionSites (projectPack m) = map projectSite (conditionSites m)"
proof -
  define p0 where "p0 = (if hasMember m ''applicability''
    then setMember m ''applicability'' (projectCondition (jget m ''applicability'')) else m)"
  have same: "jget p0 ''rules'' = jget m ''rules''" "jget p0 ''exceptions'' = jget m ''exceptions''"
    "hasMember p0 ''applicability'' = hasMember m ''applicability''" by (simp_all add: p0_def)
  have P: "projectPack m = projectEntries m ''exceptions'' (projectEntries m ''rules'' p0)"
    by (simp add: projectPack_def p0_def)
  have r: "entrySites (projectPack m) ''rules'' = map projectSite (entrySites m ''rules'')"
    using entrySites_none[of m "''rules''"] entrySites_cong[OF same(1)] by (simp add: P projectEntries_sites)
  have e: "entrySites (projectPack m) ''exceptions'' = map projectSite (entrySites m ''exceptions'')"
    using entrySites_none[of m "''exceptions''"] entrySites_cong[OF same(2)] by (simp add: P projectEntries_sites)
  have "hasMember (projectPack m) ''applicability'' = hasMember m ''applicability''"
    "jget (projectPack m) ''applicability'' = jget p0 ''applicability''"
    by (simp_all add: P projectEntries_other same)
  then show ?thesis unfolding conditionSites_def r e by (simp add: projectSite_def p0_def)
qed

lemma core_shape: "collectOperators node = [] \<Longrightarrow> aggregateDepth node = 0 \<and> shaped node"
proof (induction node rule: collectOperators.induct)
  case (1 m)
  define op where "op = stringOrEmpty (jget m ''op'')"
  consider "op = ''all'' \<or> op = ''any''" | "op = ''not''" | "aggregateOp op"
    | "\<not> (op = ''all'' \<or> op = ''any'')" "op \<noteq> ''not''" "\<not> aggregateOp op"
    by argo
  then show ?case
  proof cases
    case 1
    have "foldr max (map aggregateDepth cs) 0 = 0" if "\<forall>c \<in> set cs. aggregateDepth c = 0" for cs
      using foldr_max_le[of "map aggregateDepth cs" 0] that by simp
    with 1 "1.IH"(1)[OF op_def 1] "1.prems" show ?thesis
      by (auto simp: Let_def list_all_iff simp flip: op_def)
  next
    case 2
    with "1.IH"(2)[OF op_def] "1.prems" show ?thesis by (simp add: Let_def flip: op_def)
  next
    case 3
    with "1.prems" show ?thesis by (auto simp: Let_def aggregateOp_def simp flip: op_def)
  next
    case 4
    then show ?thesis by (simp add: Let_def aggregateOp_def flip: op_def)
  qed
qed simp_all

lemma core_meaning:
  "collectOperators node = [] \<Longrightarrow>
     meaning True ev node doc = meaning False ev node doc \<and> causesOf True ev node doc = causesOf False ev node doc"
proof (induction "size node" arbitrary: node rule: less_induct)
  case less
  show ?case
  proof (cases "\<exists>m op. node = JObject m \<and> jget m ''op'' = JString op")
    case False
    then show ?thesis
    proof (cases node)
      case (JObject m)
      with False have "asString (jget m ''op'') = None" by (cases "jget m ''op''") auto
      with JObject show ?thesis by simp
    qed simp_all
  next
    case True
    then obtain m op where m: "node = JObject m" and op: "jget m ''op'' = JString op" by blast
    have s: "stringOrEmpty (jget m ''op'') = op" by (simp add: op)
    have ag: "\<not> aggregateOp op" using less.prems s unfolding m by (auto simp: Let_def aggregateOp_def)
    have IH: "meaning True ev n doc = meaning False ev n doc \<and> causesOf True ev n doc = causesOf False ev n doc"
      if "size n < size node" "collectOperators n = []" for n using less.hyps that by blast
    have items: "meaning True ev c doc = meaning False ev c doc" "causesOf True ev c doc = causesOf False ev c doc"
      if "jget m ''conditions'' = JArray cs" "c \<in> set cs" "op = ''all'' \<or> op = ''any''" for cs c
    proof -
      have "collectOperators c = []" using less.prems that s unfolding m by (auto simp: Let_def)
      then show "meaning True ev c doc = meaning False ev c doc" "causesOf True ev c doc = causesOf False ev c doc"
        using IH size_condition_item[OF that(1,2)] unfolding m by blast+
    qed
    have notted: "meaning True ev n doc = meaning False ev n doc \<and> causesOf True ev n doc = causesOf False ev n doc"
      if "op = ''not''" "n = jget m ''condition''" for n
      using IH[of n] less.prems size_jget_lt[of m "''condition''"] that s unfolding m by (simp add: Let_def)
    have mean: "meaning True ev (JObject m) doc = meaning False ev (JObject m) doc"
    proof (cases "op = ''all'' \<or> op = ''any''")
      case True
      show ?thesis
      proof (cases "jget m ''conditions''")
        case (JArray cs)
        have "map (\<lambda>c. meaning True ev c doc) cs = map (\<lambda>c. meaning False ev c doc) cs"
          by (rule map_cong[OF refl]) (rule items(1)[OF JArray _ True])
        then show ?thesis
          unfolding meaning.simps(1) op asString.simps option.case JArray json.case using True by presburger
      qed (use True op in auto)
    next
      case False
      with ag op notted[OF _ refl] show ?thesis by (auto simp: aggregateOp_def)
    qed
    have "causesOf True ev (JObject m) doc = causesOf False ev (JObject m) doc"
    proof (cases "op = ''all'' \<or> op = ''any''")
      case True
      show ?thesis
      proof (cases "jget m ''conditions''")
        case (JArray cs)
        have "map (\<lambda>c. causesOf True ev c doc) cs = map (\<lambda>c. causesOf False ev c doc) cs"
          by (rule map_cong[OF refl]) (rule items(2)[OF JArray _ True])
        then show ?thesis
          unfolding causesOf.simps(1) mean op asString.simps option.case JArray json.case using True by presburger
      qed (use True op mean in auto)
    next
      case False
      with ag op notted[OF _ refl] show ?thesis
        unfolding causesOf.simps(1) mean by (auto simp: aggregateOp_def)
    qed
    with mean m show ?thesis by simp
  qed
qed

lemma setMember_same: "hasMember m k \<Longrightarrow> distinct (map fst m) \<Longrightarrow> setMember m k (jget m k) = m"
  by (auto simp: setMember_def jget_def intro!: map_idI)

text \<open>Every negation reached states its operand, as the schema requires.\<close>

function (sequential) negationsStated :: "json \<Rightarrow> bool" where
  "negationsStated (JObject m) \<longleftrightarrow>
     (let op = stringOrEmpty (jget m ''op'')
      in if op = ''all'' \<or> op = ''any'' then list_all negationsStated (asArray (jget m ''conditions''))
         else if op = ''not'' then hasMember m ''condition'' \<and> negationsStated (jget m ''condition'')
         else True)"
| "negationsStated node \<longleftrightarrow> True"
  by pat_completeness auto
termination
  by (relation "measure size") (simp_all only: in_measure wf_measure size_asArray_jget size_jget_lt)

lemma projectCondition_core:
  "collectOperators node = [] \<Longrightarrow> negationsStated node \<Longrightarrow> jsonWf node \<Longrightarrow> projectCondition node = node"
proof (induction node rule: projectCondition.induct)
  case (1 m)
  define op where "op = stringOrEmpty (jget m ''op'')"
  have d: "distinct (map fst m)" using "1.prems"(3) by simp
  consider "op = ''all'' \<or> op = ''any''" | "op = ''not''" | "aggregateOp op"
    | "\<not> (op = ''all'' \<or> op = ''any'')" "op \<noteq> ''not''" "\<not> aggregateOp op"
    by argo
  then show ?case
  proof cases
    case 1
    show ?thesis
    proof (cases "jget m ''conditions''")
      case (JArray cs)
      then have has: "hasMember m ''conditions''" using jget_absent[of m "''conditions''"] by auto
      have wf: "list_all jsonWf cs" using jsonWf_jget[OF "1.prems"(3), of "''conditions''"] JArray by simp
      have "projectCondition c = c" if "c \<in> set cs" for c
        using "1.IH"(1)[OF op_def 1 JArray that] "1.prems" 1 JArray that wf
        by (auto simp: Let_def list_all_iff simp flip: op_def)
      then have "map projectCondition cs = cs" by (simp add: map_idI)
      then show ?thesis using setMember_same[OF has d] 1 JArray by (auto simp: Let_def simp flip: op_def)
    qed (use 1 in \<open>auto simp: Let_def simp flip: op_def\<close>)
  next
    case 2
    have "projectCondition (jget m ''condition'') = jget m ''condition''"
      using "1.IH"(2)[OF op_def] "1.prems" 2 jsonWf_jget[OF "1.prems"(3)] by (simp add: Let_def flip: op_def)
    moreover have "hasMember m ''condition''" using "1.prems"(2) 2 by (simp add: Let_def flip: op_def)
    ultimately show ?thesis using setMember_same[OF _ d] 2 by (simp add: Let_def flip: op_def)
  next
    case 3
    then show ?thesis using "1.prems"(1) by (auto simp: Let_def aggregateOp_def simp flip: op_def)
  next
    case 4
    then show ?thesis by (simp add: Let_def aggregateOp_def flip: op_def)
  qed
qed simp_all

lemma projectPack_core:
  assumes "jsonWf (JObject m)" "rfc0008Operators m = []" "\<forall>s \<in> set (conditionSites m). negationsStated (csNode s)"
  shows "projectPack m = m"
proof -
  have d: "distinct (map fst m)" using assms(1) by simp
  have core: "collectOperators (csNode s) = []" if "s \<in> set (conditionSites m)" for s
  proof -
    have "set (concat (map (\<lambda>site. collectOperators (csNode site)) (conditionSites m))) = {}"
      using assms(2) by (metis rfc0008Operators_def set_sort set_uniqueList empty_set)
    with that show ?thesis by auto
  qed
  have site: "projectCondition (csNode s) = csNode s" if "s \<in> set (conditionSites m)" "jsonWf (csNode s)" for s
    using projectCondition_core core that assms(3) by blast
  have entry: "projectEntry x = x"
    if c: "c = ''rules'' \<or> c = ''exceptions''" and es: "jget m c = JArray es" and x: "x \<in> set es" for c es x
  proof (cases "\<exists>y. x = JObject y \<and> hasMember y ''when''")
    case True
    then obtain y where xo: "x = JObject y" and w: "hasMember y ''when''" by blast
    obtain i where "(i, x) \<in> set (indexed es)" using x indexed_set by metis
    then have "\<lparr>csNode = jget y ''when'', csLocation = [c, natString i, ''when'']\<rparr> \<in> set (entrySites m c)"
      using es xo w by (fastforce simp: entrySites_def)
    then have s: "\<lparr>csNode = jget y ''when'', csLocation = [c, natString i, ''when'']\<rparr> \<in> set (conditionSites m)"
      using c by (auto simp: conditionSites_def)
    have wf: "jsonWf (JObject y)" using jsonWf_asArray[OF jsonWf_jget[OF assms(1), of c], of x] es x xo by simp
    have "projectCondition (jget y ''when'') = jget y ''when''"
      using site[OF s] jsonWf_jget[OF wf, of "''when''"] by simp
    then show ?thesis using setMember_same[OF w] wf xo by (simp add: projectEntry_def)
  qed (auto simp: projectEntry_def split: json.split)
  have entries: "projectEntries m c m = m" if c: "c = ''rules'' \<or> c = ''exceptions''" for c
  proof (cases "jget m c")
    case (JArray es)
    have "map projectEntry es = es" using entry[OF c JArray] by (simp add: map_idI)
    moreover have "hasMember m c" using JArray jget_absent[of m c] by auto
    ultimately show ?thesis using setMember_same[OF _ d, of c] JArray by (simp add: projectEntries_def)
  qed (simp_all add: projectEntries_def)
  have "projectCondition (jget m ''applicability'') = jget m ''applicability''" if "hasMember m ''applicability''"
    using site[of "\<lparr>csNode = jget m ''applicability'', csLocation = [''applicability'']\<rparr>"] that
      jsonWf_jget[OF assms(1), of "''applicability''"] by (simp add: conditionSites_def)
  then show ?thesis using entries setMember_same[OF _ d] by (simp add: projectPack_def Let_def)
qed

subsection \<open>Properties\<close>

text \<open>C37: the gate admits exactly the draft's grammar. It reports nothing if and only if every
  aggregate of every stated condition has the members, pointers and operand the draft gives it and
  none nests more than two deep, however many connectives wrap it.\<close>

theorem rfc0008Diagnostics_exact:
  "rfc0008Diagnostics m = [] \<longleftrightarrow>
     list_all (\<lambda>s. aggregateDepth (csNode s) \<le> maxAggregateDepth \<and> shaped (csNode s)) (conditionSites m)"
  by (auto simp: rfc0008Diagnostics_def list_all_iff collectAggregateDiagnostics_none)

text \<open>The projection is Core and nothing else moves. Its condition sites are those of the pack,
  at the same locations, each projected; it uses no draft operator, so the gate passes it and
  projecting it again finds none.\<close>

theorem projectPack_sites:
  "conditionSites (projectPack m) = map projectSite (conditionSites m) \<and>
   rfc0008Operators (projectPack m) = [] \<and> rfc0008Diagnostics (projectPack m) = []"
proof -
  have none: "collectOperators (csNode s) = []" if "s \<in> set (conditionSites (projectPack m))" for s
    using that by (auto simp: conditionSites_project projectSite_def collectOperators_project)
  then have "concat (map (\<lambda>s. collectOperators (csNode s)) (conditionSites (projectPack m))) = []" by simp
  then have "rfc0008Operators (projectPack m) = []"
    unfolding rfc0008Operators_def by (simp only: uniqueList_def foldl.simps sort_key_simps)
  moreover have "rfc0008Diagnostics (projectPack m) = []"
    using none core_shape
    by (auto simp: rfc0008Diagnostics_def collectAggregateDiagnostics_none)
  ultimately show ?thesis by (simp add: conditionSites_project)
qed

text \<open>The opt-in changes nothing for a pack that uses no draft operator: the pack is its own
  projection, and every condition it states has the same verdict and the same causes with the
  quantifiers enabled as without.\<close>

theorem optIn_conservative:
  assumes "jsonWf (JObject m)" "rfc0008Operators m = []" "\<forall>s \<in> set (conditionSites m). negationsStated (csNode s)"
    and "s \<in> set (conditionSites m)" "coherent e" "jsonWf doc"
    and "condition (csNode s) doc (e\<lparr>quantifiers := True\<rparr>) = (v, e1)"
    and "condition (csNode s) doc (e\<lparr>quantifiers := False\<rparr>) = (w, e2)"
  shows "projectPack m = m \<and> v = w \<and> causes e1 = causes e2"
proof -
  have "set (concat (map (\<lambda>site. collectOperators (csNode site)) (conditionSites m))) = {}"
    using assms(2) by (metis rfc0008Operators_def set_sort set_uniqueList empty_set)
  with assms(4) have "collectOperators (csNode s) = []" by auto
  note core = core_meaning[OF this, of "evidence e" doc]
  have c: "coherent (e\<lparr>quantifiers := b\<rparr>)" for b using assms(5) by (simp add: coherent_def)
  note on = agrees_cases(1,2)[OF condition_agrees[OF assms(6)] c assms(7)]
  note off = agrees_cases(1,2)[OF condition_agrees[OF assms(6)] c assms(8)]
  have "v = w" using on(1) off(1) core by simp
  moreover have "causes e1 = causes e2" using on(2) off(2) core by (simp add: outcome_def)
  ultimately show ?thesis using projectPack_core[OF assms(1-3)] by simp
qed

definition sampleCorePack :: object where
  "sampleCorePack = [(''rules'', JArray [JObject [(''when'', JObject [(''op'', JString ''not''),
     (''condition'', JObject [(''op'', JString ''literal''), (''value'', JBool True)])])]])]"

theorem optIn_conservative_witness:
  "projectPack sampleCorePack = sampleCorePack"
proof -
  let ?s = "\<lparr>csNode = JObject [(''op'', JString ''not''),
     (''condition'', JObject [(''op'', JString ''literal''), (''value'', JBool True)])],
     csLocation = [''rules'', ''0'', ''when'']\<rparr>"
  let ?e = "newEvaluator Map.empty False False 9"
  have sites: "conditionSites sampleCorePack = [?s]" by code_simp
  have wf: "jsonWf (JObject sampleCorePack)" "jsonWf JNull" by (simp_all add: sampleCorePack_def)
  have none: "rfc0008Operators sampleCorePack = []" by code_simp
  have neg: "\<forall>s \<in> set (conditionSites sampleCorePack). negationsStated (csNode s)" unfolding sites by code_simp
  obtain v e1 where on: "condition (csNode ?s) JNull (?e\<lparr>quantifiers := True\<rparr>) = (v, e1)" by (meson surj_pair)
  obtain w e2 where off: "condition (csNode ?s) JNull (?e\<lparr>quantifiers := False\<rparr>) = (w, e2)" by (meson surj_pair)
  have "?s \<in> set (conditionSites sampleCorePack)" by (simp add: sites)
  from optIn_conservative[OF wf(1) none neg this newEvaluator_fresh(2) wf(2) on off] show ?thesis by simp
qed

end
