(* ===== verification/Outcome_Values_Draft.thy ===== *)
theory Outcome_Values_Draft
  imports Quantifier_Draft Resolve
begin

section \<open>The draft outcome-values grammar\<close>

text \<open>
  The gate of \<open>internal/evaluation/rfc0016.go\<close>: the form of a value declaration, the rule that ties
  declarations to the name's entry in \<open>metadata.requiredExtensions\<close>, and the Core projection. The
  resolution step itself is in \<open>Resolve\<close>. The gate's sentences are not modelled. The gate is
  shown to admit exactly the declarations of the draft's table, the projection to remove the name
  from every outcome and from the required list and nothing else, and what the gate admits as a
  constant the resolution step is shown never to withhold.
\<close>

subsection \<open>The gate\<close>

definition declarationFault :: "string list \<Rightarrow> Diagnostic" where
  "declarationFault parts =
     ErrorDiagnostic ''JPS-EVALUATION-RFC0016-DECLARATION'' ''structural'' (Pointer parts) []"

definition requiredFault :: "string list \<Rightarrow> Diagnostic" where
  "requiredFault parts = ErrorDiagnostic ''JPS-EVALUATION-RFC0016-REQUIRED'' ''semantic'' (Pointer parts) []"

definition sourceMember :: "string \<Rightarrow> bool" where
  "sourceMember k \<longleftrightarrow> k = ''type'' \<or> k = ''constant'' \<or> k = ''fromFact''"

definition knownType :: "string \<Rightarrow> bool" where
  "knownType t \<longleftrightarrow> t = ''string'' \<or> t = ''decimal'' \<or> t = ''boolean''"

definition sourceDiagnostics :: "json \<Rightarrow> string list \<Rightarrow> Diagnostic list" where
  "sourceDiagnostics v location =
     (case v of
        JObject source \<Rightarrow>
          (let declared = asString (jget source ''type'');
               known = (case declared of None \<Rightarrow> False | Some t \<Rightarrow> knownType t);
               hasConstant = hasMember source ''constant''; hasPointer = hasMember source ''fromFact''
           in map (\<lambda>k. declarationFault (appendPath location [k]))
                (filter (\<lambda>k. \<not> sourceMember k) (sortedMembers source))
              @ (if \<not> known then [declarationFault (appendPath location [''type''])] else [])
              @ (if hasConstant = hasPointer then [declarationFault location] else [])
              @ (if hasConstant \<and> known \<and> \<not> admittedValue (the declared) (jget source ''constant'')
                 then [declarationFault (appendPath location [''constant''])] else [])
              @ (if hasPointer \<and> \<not> pointerText (jget source ''fromFact'')
                 then [declarationFault (appendPath location [''fromFact''])] else []))
      | _ \<Rightarrow> [declarationFault location])"

definition declarationDiagnostics :: "json \<Rightarrow> string list \<Rightarrow> Diagnostic list" where
  "declarationDiagnostics declaration location =
     (case declaration of
        JObject values \<Rightarrow>
          if values = [] then [declarationFault location]
          else concat (map (\<lambda>name.
                 (if \<not> OutcomeValueName name then [declarationFault (appendPath location [name])] else [])
                 @ sourceDiagnostics (jget values name) (appendPath location [name])) (sortedMembers values))
      | _ \<Rightarrow> [declarationFault location])"

text \<open>The indices at which the name is listed as required.\<close>

definition listedAt :: "object \<Rightarrow> nat list" where
  "listedAt m =
     map fst (filter (\<lambda>(index, item). item = JString OutcomeValuesExtension)
       (indexed (asArray (jget (objectOrNil (jget m ''metadata'')) ''requiredExtensions''))))"

definition requiredDiagnostics :: "nat \<Rightarrow> nat list \<Rightarrow> Diagnostic list" where
  "requiredDiagnostics carried listed =
     (if carried > 0 \<and> length listed = 0 then [requiredFault [''metadata'', ''requiredExtensions'']]
      else if carried = 0 \<and> length listed > 0
      then [requiredFault [''metadata'', ''requiredExtensions'', natString (listed ! 0)]] else [])
     @ (if length listed > 1
        then [requiredFault [''metadata'', ''requiredExtensions'', natString (listed ! 1)]] else [])"

definition rfc0016Diagnostics :: "object \<Rightarrow> Diagnostic list" where
  "rfc0016Diagnostics m =
     (let outcomes = indexed (asArray (jget m ''outcomes''));
          carrying = filter (\<lambda>(index, entry). valueDeclaration entry \<noteq> None) outcomes
      in concat (map (\<lambda>(index, entry).
             case valueDeclaration entry of
               None \<Rightarrow> []
             | Some declaration \<Rightarrow>
                 declarationDiagnostics declaration
                   [''outcomes'', natString index, ''extensions'', OutcomeValuesExtension]) outcomes)
         @ requiredDiagnostics (length carrying) (listedAt m))"

subsection \<open>The projection and the marker\<close>

text \<open>\<open>delete(extensions, name)\<close>.\<close>

definition removeMember :: "object \<Rightarrow> string \<Rightarrow> object" where
  "removeMember m k = filter (\<lambda>p. fst p \<noteq> k) m"

definition projectOutcome :: "json \<Rightarrow> json" where
  "projectOutcome entry =
     (if valueDeclaration entry = None then entry
      else let m = objectOrNil entry; extensions = objectOrNil (jget m ''extensions'')
           in JObject (setMember m ''extensions'' (JObject (removeMember extensions OutcomeValuesExtension))))"

definition projectRequired :: "object \<Rightarrow> object \<Rightarrow> object" where
  "projectRequired m projected =
     (case jget m ''metadata'' of
        JObject metadata \<Rightarrow>
          (case jget metadata ''requiredExtensions'' of
             JArray required \<Rightarrow>
               setMember projected ''metadata''
                 (JObject (setMember metadata ''requiredExtensions''
                    (JArray (filter (\<lambda>item. item \<noteq> JString OutcomeValuesExtension) required))))
           | _ \<Rightarrow> projected)
      | _ \<Rightarrow> projected)"

definition projectOutcomeValues :: "object \<Rightarrow> object" where
  "projectOutcomeValues m =
     (let projected = projectRequired m m
      in case jget m ''outcomes'' of
           JArray outcomes \<Rightarrow> setMember projected ''outcomes'' (JArray (map projectOutcome outcomes))
         | _ \<Rightarrow> projected)"

definition carryingOutcomes :: "object \<Rightarrow> string list" where
  "carryingOutcomes m =
     map (\<lambda>entry. stringOrEmpty (jget (objectOrNil entry) ''id''))
       (filter (\<lambda>entry. valueDeclaration entry \<noteq> None) (asArray (jget m ''outcomes'')))"

definition outcomeValuesPrototype :: "object \<Rightarrow> DraftPrototype" where
  "outcomeValuesPrototype m =
     \<lparr>dpRFC = ''0016'', dpOperators = [], dpOutcomes = sort (carryingOutcomes m),
      dpPackValid = carryingOutcomes m = []\<rparr>"

subsection \<open>What the gate admits\<close>

definition legalSource :: "json \<Rightarrow> bool" where
  "legalSource v \<longleftrightarrow>
     (\<exists>m t. v = JObject m \<and> jget m ''type'' = JString t \<and> knownType t \<and> (\<forall>k \<in> fst ` set m. sourceMember k) \<and>
        hasMember m ''constant'' \<noteq> hasMember m ''fromFact'' \<and>
        (if hasMember m ''constant'' then admittedValue t (jget m ''constant'')
         else pointerText (jget m ''fromFact'')))"

definition legalDeclaration :: "json \<Rightarrow> bool" where
  "legalDeclaration v \<longleftrightarrow>
     (\<exists>m. v = JObject m \<and> m \<noteq> [] \<and> (\<forall>name \<in> fst ` set m. OutcomeValueName name \<and> legalSource (jget m name)))"

lemma sourceDiagnostics_none: "sourceDiagnostics v location = [] \<longleftrightarrow> legalSource v"
proof (cases v)
  case (JObject m)
  show ?thesis
  proof (cases "jget m ''type''")
    case (JString t)
    with JObject show ?thesis
      by (auto simp: sourceDiagnostics_def legalSource_def Let_def filter_none sortedMembers_def)
  qed (use JObject in \<open>simp_all add: sourceDiagnostics_def legalSource_def Let_def\<close>)
qed (simp_all add: sourceDiagnostics_def legalSource_def)

lemma declarationDiagnostics_none: "declarationDiagnostics v location = [] \<longleftrightarrow> legalDeclaration v"
proof (cases v)
  case (JObject m)
  then show ?thesis
    by (auto simp: declarationDiagnostics_def legalDeclaration_def sourceDiagnostics_none sortedMembers_def)
qed (simp_all add: declarationDiagnostics_def legalDeclaration_def)

definition declarationsOf :: "object \<Rightarrow> json list" where
  "declarationsOf m = List.map_filter valueDeclaration (asArray (jget m ''outcomes''))"

definition requiredNames :: "object \<Rightarrow> json list" where
  "requiredNames m =
     filter (\<lambda>item. item = JString OutcomeValuesExtension)
       (asArray (jget (objectOrNil (jget m ''metadata'')) ''requiredExtensions''))"

lemma length_filter_indexed: "length (filter (\<lambda>(i, x). P x) (indexed xs)) = length (filter P xs)"
proof -
  have "filter P xs = map snd (filter (\<lambda>(i, x). P x) (indexed xs))"
    by (subst map_snd_indexed[of xs, symmetric]) (simp add: filter_map comp_def case_prod_unfold del: map_snd_indexed)
  then show ?thesis by simp
qed

lemma length_listedAt: "length (listedAt m) = length (requiredNames m)"
  by (simp add: listedAt_def requiredNames_def length_filter_indexed)

lemma requiredDiagnostics_none:
  "requiredDiagnostics carried listed = [] \<longleftrightarrow> length listed = (if carried > 0 then 1 else 0)"
  by (cases listed; cases "tl listed") (auto simp: requiredDiagnostics_def)

subsection \<open>The resolution step\<close>

text \<open>What a source stands for over the facts; nothing selected is null, which no type admits.\<close>

definition sourceValue :: "object \<Rightarrow> json \<Rightarrow> json" where
  "sourceValue source facts =
     (case asString (jget source ''fromFact'') of
        None \<Rightarrow> jget source ''constant''
      | Some p \<Rightarrow> (case resolvePointer facts p of None \<Rightarrow> JNull | Some v \<Rightarrow> v))"

definition sourceUnits :: "object \<Rightarrow> json \<Rightarrow> nat" where
  "sourceUnits source facts =
     (case asString (jget source ''fromFact'') of None \<Rightarrow> 0 | Some p \<Rightarrow> stepsOf p + selectedUnits p facts)"

definition sourcePaths :: "object \<Rightarrow> string set" where
  "sourcePaths source = (case asString (jget source ''fromFact'') of None \<Rightarrow> {} | Some p \<Rightarrow> {p})"

definition sourceAt :: "object \<Rightarrow> string \<Rightarrow> object" where
  "sourceAt declaration name = objectOrNil (jget declaration name)"

definition resolvesAt :: "object \<Rightarrow> json \<Rightarrow> string \<Rightarrow> bool" where
  "resolvesAt declaration facts name \<longleftrightarrow>
     admittedValue (stringOrEmpty (jget (sourceAt declaration name) ''type''))
       (sourceValue (sourceAt declaration name) facts)"

lemma admittedValue_null [simp]: "\<not> admittedValue t JNull"
  by (simp add: admittedValue_def)

lemma finite_sourcePaths [simp]: "finite (sourcePaths source)"
  by (simp add: sourcePaths_def split: option.split)

lemma selectValue_exact:
  assumes f: "fresh (rEval r)" and s: "selectValue source r = (v, r')"
  shows "spends (rEval r) (rEval r') (sourceUnits source (rFacts r)) (sourcePaths source)"
    and "v = (if exceeded (rEval r') then None else Some (sourceValue source (rFacts r)))"
    and "r' = r\<lparr>rEval := rEval r'\<rparr>"
proof -
  have "spends (rEval r) (rEval r') (sourceUnits source (rFacts r)) (sourcePaths source) \<and>
    v = (if exceeded (rEval r') then None else Some (sourceValue source (rFacts r))) \<and> r' = r\<lparr>rEval := rEval r'\<rparr>"
  proof (cases "asString (jget source ''fromFact'')")
    case None
    with s f show ?thesis
      by (auto simp: selectValue_def sourceUnits_def sourcePaths_def sourceValue_def spends_refl fresh_not_exceeded)
  next
    case (Some p)
    obtain ok e1 where c: "chargePointer p (rEval r) = (ok, e1)" by (meson surj_pair)
    note s1 = chargePointer_spends[OF f, of p, unfolded c fst_conv snd_conv]
    show ?thesis
    proof (cases ok)
      case False
      with s1(2) have x: "exceeded e1" by simp
      from spends_stop[OF s1(1) x, of "{}" "selectedUnits p (rFacts r)"] False x s c Some show ?thesis
        by (auto simp: selectValue_def sourceUnits_def sourcePaths_def)
    next
      case True
      with s1(2) have x: "\<not> exceeded e1" by simp
      have f1: "fresh e1" using spends_fresh[OF s1(1) x] .
      have "coherent e1" "p \<in> dom (pointers e1)" using s1(1) x by (auto simp: spends_def)
      note k = resolve_known[OF this, of "rFacts r"]
      show ?thesis
      proof (cases "resolvePointer (rFacts r) p")
        case None
        with s1(1) x True s c Some k show ?thesis
          by (auto simp: selectValue_def sourceUnits_def sourcePaths_def sourceValue_def selectedUnits_def)
      next
        case v: (Some w)
        obtain ok2 e2 where c2: "charge (valueUnits w) e1 = (ok2, e2)" by (meson surj_pair)
        note s2 = charge_spends[OF f1, of "valueUnits w", unfolded c2 fst_conv snd_conv]
        from spends_then[OF s1(1) x s2(1)] s2(2) True s c Some k c2 v show ?thesis
          by (auto simp: selectValue_def sourceUnits_def sourcePaths_def sourceValue_def selectedUnits_def
              split: if_splits)
      qed
    qed
  qed
  then show "spends (rEval r) (rEval r') (sourceUnits source (rFacts r)) (sourcePaths source)"
    "v = (if exceeded (rEval r') then None else Some (sourceValue source (rFacts r)))"
    "r' = r\<lparr>rEval := rEval r'\<rparr>" by blast+
qed

lemma addTrace_frame [simp]: "rEval (addTrace t r) = rEval r" "rFacts (addTrace t r) = rFacts r"
  by (simp_all add: addTrace_def)

text \<open>The value names resolved so far, in order, with the values they stand for.\<close>

definition resolvedMembers :: "object \<Rightarrow> json \<Rightarrow> string list \<Rightarrow> object" where
  "resolvedMembers declaration facts names = map (\<lambda>name. (name, sourceValue (sourceAt declaration name) facts)) names"

lemma resolveNames_exact:
  assumes "fresh (rEval r)" "resolveNames d outcomeID names acc whole r = (v, r')"
  shows "spends (rEval r) (rEval r')
      (sum_list (map (\<lambda>name. sourceUnits (sourceAt d name) (rFacts r)) names)) (\<Union>name \<in> set names. sourcePaths (sourceAt d name)) \<and>
    v = (if exceeded (rEval r') \<or> \<not> whole \<or> \<not> list_all (resolvesAt d (rFacts r)) names then None
         else Some (acc @ resolvedMembers d (rFacts r) names))"
  using assms
proof (induction names arbitrary: acc whole r)
  case Nil
  then show ?case by (auto simp: spends_refl fresh_not_exceeded resolvedMembers_def)
next
  case (Cons name names)
  define source where "source = sourceAt d name"
  obtain w r1 where s: "selectValue source r = (w, r1)" by (meson surj_pair)
  note S = selectValue_exact[OF Cons.prems(1) s]
  have facts: "rFacts r1 = rFacts r" using S(3) by (metis resolver.select_convs(2) resolver.surjective resolver.update_convs(3))
  show ?case
  proof (cases "exceeded (rEval r1)")
    case True
    then have w: "w = None" using S(2) by simp
    have "v = None" "r' = r1" using Cons.prems(2) s w by (simp_all add: source_def sourceAt_def Let_def)
    with True spends_stop[OF S(1) True] show ?thesis by (simp add: source_def)
  next
    case False
    then have w: "w = Some (sourceValue source (rFacts r))" using S(2) by simp
    let ?ok = "resolvesAt d (rFacts r) name"
    obtain t acc' where step: "resolveNames d outcomeID names acc' (whole \<and> ?ok) (addTrace t r1) = (v, r')"
      and acc: "?ok \<Longrightarrow> acc' = acc @ [(name, sourceValue source (rFacts r))]"
      using Cons.prems(2) s w
      by (cases ?ok) (auto simp: Let_def resolvesAt_def source_def sourceAt_def split: if_splits)
    have "fresh (rEval (addTrace t r1))" using spends_fresh[OF S(1) False] by simp
    note ih = Cons.IH[OF this step, unfolded addTrace_frame facts]
    have "spends (rEval r) (rEval r') (sourceUnits source (rFacts r)
        + sum_list (map (\<lambda>name. sourceUnits (sourceAt d name) (rFacts r)) names))
        (sourcePaths source \<union> (\<Union>name \<in> set names. sourcePaths (sourceAt d name)))"
      using spends_then[OF S(1) False ih[THEN conjunct1]] by simp
    with ih acc show ?thesis
      by (auto simp: source_def resolvedMembers_def)
  qed
qed

definition declarationUnits :: "object \<Rightarrow> json \<Rightarrow> nat" where
  "declarationUnits d facts =
     valueUnits (JObject d) + sum_list (map (\<lambda>name. sourceUnits (sourceAt d name) facts) (sortedMembers d))"

definition declarationPaths :: "object \<Rightarrow> string set" where
  "declarationPaths d = (\<Union>name \<in> set (sortedMembers d). sourcePaths (sourceAt d name))"

text \<open>The whole step: what is due, and the result when that fits.\<close>

definition valuesDue :: "string \<Rightarrow> resolver \<Rightarrow> nat" where
  "valuesDue outcomeID r =
     searchUnits (asArray (jget (rPack r) ''outcomes''))
     + (case declaredValues (asArray (jget (rPack r) ''outcomes'')) outcomeID of
          None \<Rightarrow> 0
        | Some d \<Rightarrow> declarationUnits d (rFacts r) + scanUnits (dom (pointers (rEval r))) (declarationPaths d))"

definition valuesResult :: "string \<Rightarrow> resolver \<Rightarrow> object option option" where
  "valuesResult outcomeID r =
     (case declaredValues (asArray (jget (rPack r) ''outcomes'')) outcomeID of
        None \<Rightarrow> Some None
      | Some d \<Rightarrow>
          if list_all (resolvesAt d (rFacts r)) (sortedMembers d)
          then Some (Some (resolvedMembers d (rFacts r) (sortedMembers d))) else None)"

lemma spends_exceeded:
  "spends e e' u ps \<Longrightarrow> exceeded e' \<longleftrightarrow> budget e < charged e + (u + scanUnits (dom (pointers e)) ps)"
  by (simp add: spends_def em.accounts_def)

lemma resolveValues_result:
  assumes f: "fresh (rEval r)" and res: "resolveValues outcomeID r = (v, r')"
  shows "(exceeded (rEval r') \<longleftrightarrow> budget (rEval r) < charged (rEval r) + valuesDue outcomeID r) \<and>
    (exceeded (rEval r') \<or> v = valuesResult outcomeID r)"
proof -
  define os where "os = asArray (jget (rPack r) ''outcomes'')"
  obtain ok e1 where c1: "charge (searchUnits os) (rEval r) = (ok, e1)" by (meson surj_pair)
  note s1 = charge_spends[OF f, of "searchUnits os", unfolded c1 fst_conv snd_conv]
  show ?thesis
  proof (cases "ok \<and> declaredValues os outcomeID \<noteq> None")
    case False
    have "r' = r\<lparr>rEval := e1\<rparr>"
      using res c1 False by (auto simp: resolveValues_def Let_def simp flip: os_def split: option.splits if_splits)
    moreover have "ok \<Longrightarrow> v = Some None \<and> declaredValues os outcomeID = None"
      using res c1 False by (auto simp: resolveValues_def Let_def simp flip: os_def split: option.splits)
    ultimately show ?thesis
      using s1 spends_exceeded[OF s1(1)]
      by (cases ok) (auto simp: valuesDue_def valuesResult_def simp flip: os_def split: option.split)
  next
    case True
    then obtain d where d: "declaredValues os outcomeID = Some d" and x1: "\<not> exceeded e1" using s1(2) by auto
    obtain ok2 e2 where c2: "charge (valueUnits (JObject d)) e1 = (ok2, e2)" by (meson surj_pair)
    note s2 = charge_spends[OF spends_fresh[OF s1(1) x1], of "valueUnits (JObject d)", unfolded c2 fst_conv snd_conv]
    have s12: "spends (rEval r) e2 (searchUnits os + valueUnits (JObject d)) {}"
      using spends_then[OF s1(1) x1 s2(1)] by simp
    have due: "valuesDue outcomeID r = searchUnits os + (declarationUnits d (rFacts r)
        + scanUnits (dom (pointers (rEval r))) (declarationPaths d))"
      by (simp add: valuesDue_def d flip: os_def)
    have fin: "finite (declarationPaths d)" by (simp add: declarationPaths_def)
    show ?thesis
    proof (cases ok2)
      case False
      then have x2: "exceeded e2" using s2(2) by simp
      have "r' = r\<lparr>rEval := e2\<rparr>"
        using res c1 c2 d True False by (auto simp: resolveValues_def Let_def simp flip: os_def)
      moreover have "budget (rEval r) < charged (rEval r) + valuesDue outcomeID r"
        using spends_exceeded[OF s12] x2 by (simp add: due declarationUnits_def)
      ultimately show ?thesis using x2 by simp
    next
      case ok2: True
      then have x2: "\<not> exceeded e2" using s2(2) by simp
      let ?r2 = "r\<lparr>rEval := e2\<rparr>"
      obtain w r3 where n: "resolveNames d outcomeID (sortedMembers d) [] True ?r2 = (w, r3)" by (meson surj_pair)
      have "fresh (rEval ?r2)" using spends_fresh[OF s12 x2] by simp
      note N = resolveNames_exact[OF this n, simplified]
      have out: "v = map_option Some w" "r' = r3"
        using res c1 c2 d True ok2 n by (auto simp: resolveValues_def Let_def simp flip: os_def)
      have "spends (rEval r) (rEval r3) (searchUnits os + declarationUnits d (rFacts r)) (declarationPaths d)"
        using spends_then[OF s12 x2 N[THEN conjunct1]] fin
        by (simp add: declarationUnits_def declarationPaths_def add.assoc)
      then have "exceeded (rEval r') \<longleftrightarrow> budget (rEval r) < charged (rEval r) + valuesDue outcomeID r"
        using spends_exceeded out by (simp add: due add.assoc)
      then show ?thesis using N out d by (auto simp: valuesResult_def simp flip: os_def)
    qed
  qed
qed

lemma rfc0016Diagnostics_gate:
  "rfc0016Diagnostics m = [] \<longleftrightarrow>
     list_all legalDeclaration (declarationsOf m) \<and>
     length (requiredNames m) = (if declarationsOf m = [] then 0 else 1)"
proof -
  let ?os = "asArray (jget m ''outcomes'')"
  have carry: "length (filter (\<lambda>(i, x). valueDeclaration x \<noteq> None) (indexed ?os)) = length (declarationsOf m)"
    by (simp add: length_filter_indexed declarationsOf_def map_filter_def comp_def)
  have "concat (map (\<lambda>(i, x). case valueDeclaration x of None \<Rightarrow> [] | Some d \<Rightarrow>
        declarationDiagnostics d [''outcomes'', natString i, ''extensions'', OutcomeValuesExtension]) (indexed ?os)) = []
     \<longleftrightarrow> list_all legalDeclaration (declarationsOf m)"
    unfolding indexed_empty using indexed_set[of _ ?os]
    by (auto simp: declarationsOf_def map_filter_def list_all_iff declarationDiagnostics_none split: option.splits)
  then show ?thesis
    using carry by (auto simp: rfc0016Diagnostics_def Let_def requiredDiagnostics_none length_listedAt)
qed

subsection \<open>Properties\<close>

text \<open>C38: the gate admits exactly the draft's declarations. It reports nothing if and only if every
  value declaration an outcome carries is a non-empty object of value names and value sources of the
  draft's table, and the name is required exactly once when some outcome carries it and never when
  none does.\<close>

theorem rfc0016Diagnostics_exact:
  "rfc0016Diagnostics m = [] \<longleftrightarrow>
     list_all legalDeclaration (declarationsOf m) \<and>
     length (requiredNames m) = (if declarationsOf m = [] then 0 else 1)"
  by (rule rfc0016Diagnostics_gate)

lemma valueDeclaration_projectOutcome: "valueDeclaration (projectOutcome entry) = None"
proof (cases "valueDeclaration entry")
  case (Some d)
  have "map_of (removeMember x OutcomeValuesExtension) OutcomeValuesExtension = None" for x :: object
    by (auto simp: removeMember_def map_of_eq_None_iff)
  with Some show ?thesis by (simp add: projectOutcome_def Let_def valueDeclaration_def)
qed (simp add: projectOutcome_def)

lemma removeMember_twice [simp]: "removeMember (removeMember m k) k = removeMember m k"
  by (simp add: removeMember_def)

lemma projectOutcome_members:
  "k = ''extensions'' \<or> jget (objectOrNil (projectOutcome entry)) k = jget (objectOrNil entry) k"
  "removeMember (objectOrNil (jget (objectOrNil (projectOutcome entry)) ''extensions'')) OutcomeValuesExtension =
   removeMember (objectOrNil (jget (objectOrNil entry) ''extensions'')) OutcomeValuesExtension"
  by (auto simp: projectOutcome_def Let_def)

lemma projectRequired_other: "k \<noteq> ''metadata'' \<Longrightarrow> jget (projectRequired m p) k = jget p k"
  by (simp add: projectRequired_def split: json.split)

lemma projectOutcomeValues_other: "k \<noteq> ''outcomes'' \<Longrightarrow> jget (projectOutcomeValues m) k = jget (projectRequired m m) k"
  by (simp add: projectOutcomeValues_def Let_def split: json.split)

lemma projectOutcomeValues_outcomes:
  "asArray (jget (projectOutcomeValues m) ''outcomes'') = map projectOutcome (asArray (jget m ''outcomes''))"
  by (cases "jget m ''outcomes''") (simp_all add: projectOutcomeValues_def Let_def projectRequired_other)

lemma projectRequired_names: "requiredNames (projectRequired m m) = []"
proof (cases "\<exists>x xs. jget m ''metadata'' = JObject x \<and> jget x ''requiredExtensions'' = JArray xs")
  case True
  then show ?thesis by (auto simp: projectRequired_def requiredNames_def filter_empty_conv)
next
  case False
  then have "projectRequired m m = m" by (auto simp: projectRequired_def split: json.split)
  moreover have "asArray (jget (objectOrNil (jget m ''metadata'')) ''requiredExtensions'') = []"
  proof (cases "jget m ''metadata''")
    case (JObject x)
    with False show ?thesis by (cases "jget x ''requiredExtensions''") auto
  qed (simp_all add: objectOrNil_def)
  ultimately show ?thesis by (simp add: requiredNames_def)
qed

text \<open>The projection takes out what the draft adds and nothing else. No outcome of it carries a
  declaration and its required list does not name the extension; every other member of the pack, of
  each outcome and of each outcome's extensions is as the author wrote it.\<close>

theorem projectOutcomeValues_exact:
  "declarationsOf (projectOutcomeValues m) = [] \<and> requiredNames (projectOutcomeValues m) = [] \<and>
   (\<forall>k. k = ''outcomes'' \<or> k = ''metadata'' \<or> jget (projectOutcomeValues m) k = jget m k) \<and>
   asArray (jget (projectOutcomeValues m) ''outcomes'') = map projectOutcome (asArray (jget m ''outcomes'')) \<and>
   (\<forall>entry k. k = ''extensions'' \<or> jget (objectOrNil (projectOutcome entry)) k = jget (objectOrNil entry) k) \<and>
   (\<forall>entry. removeMember (objectOrNil (jget (objectOrNil (projectOutcome entry)) ''extensions'')) OutcomeValuesExtension
     = removeMember (objectOrNil (jget (objectOrNil entry) ''extensions'')) OutcomeValuesExtension)"
proof -
  have "declarationsOf (projectOutcomeValues m) = []"
    by (simp add: declarationsOf_def projectOutcomeValues_outcomes map_filter_def filter_empty_conv
        valueDeclaration_projectOutcome)
  moreover have "requiredNames (projectOutcomeValues m) = []"
    using projectRequired_names[of m] by (simp add: requiredNames_def projectOutcomeValues_other)
  moreover have "k = ''outcomes'' \<or> k = ''metadata'' \<or> jget (projectOutcomeValues m) k = jget m k" for k
    by (cases "k = ''metadata''"; cases "k = ''outcomes''") (simp_all add: projectOutcomeValues_other projectRequired_other)
  ultimately show ?thesis
    by (intro conjI allI) (assumption | rule projectOutcome_members projectOutcomeValues_outcomes | simp only:)+
qed

text \<open>C39: the resolution step charges the documented sum and returns the documented result. It overruns
  exactly when the search, the declaration and each pointer with the value it selects do not fit;
  otherwise it returns the values the sources stand for, in name order, or withholds the outcome
  exactly when one of them is not of its declared type.\<close>

theorem resolveValues_exact:
  assumes "coherent (rEval r)" "\<not> exceeded (rEval r)" "charged (rEval r) \<le> budget (rEval r)"
    and "resolveValues outcomeID r = (v, r')"
  shows "(exceeded (rEval r') \<longleftrightarrow> budget (rEval r) < charged (rEval r) + valuesDue outcomeID r) \<and>
    (exceeded (rEval r') \<or> v = valuesResult outcomeID r)"
  using assms by (intro resolveValues_result) (simp_all add: fresh_def em.within_limit_def)

definition sampleValuePack :: object where
  "sampleValuePack =
     [(''metadata'', JObject [(''requiredExtensions'', JArray [JString OutcomeValuesExtension])]),
      (''outcomes'', JArray [JObject [(''id'', JString ''approve''),
         (''extensions'', JObject [(OutcomeValuesExtension,
            JObject [(''limit'', JObject [(''type'', JString ''decimal''), (''constant'', JString ''10'')])])])]])]"

definition sampleResolver :: "nat \<Rightarrow> resolver" where
  "sampleResolver limit =
     \<lparr>rPack = sampleValuePack, rFacts = JNull, rEval = newEvaluator Map.empty False True limit, rReasons = [],
      rDirect = False, rTrace = []\<rparr>"

lemma sampleResolver_ready:
  "coherent (rEval (sampleResolver n)) \<and> \<not> exceeded (rEval (sampleResolver n)) \<and>
   charged (rEval (sampleResolver n)) \<le> budget (rEval (sampleResolver n))"
  by (simp add: sampleResolver_def newEvaluator_def coherent_def)

theorem resolveValues_exact_witness:
  "exceeded (rEval (snd (resolveValues ''approve'' (sampleResolver 37))))"
proof -
  obtain v r' where r: "resolveValues ''approve'' (sampleResolver 37) = (v, r')" by (meson surj_pair)
  let ?d = "[(''limit'', JObject [(''type'', JString ''decimal''), (''constant'', JString ''10'')])]"
  have "declaredValues (asArray (jget sampleValuePack ''outcomes'')) ''approve'' = Some ?d"
    "searchUnits (asArray (jget sampleValuePack ''outcomes'')) = 8" "declarationUnits ?d JNull = 30" by code_simp+
  moreover have "declarationPaths ?d = {}" by (simp add: declarationPaths_def sourcePaths_def sourceAt_def sortedMembers_def)
  ultimately have due: "valuesDue ''approve'' (sampleResolver 37) = 38" by (simp add: valuesDue_def sampleResolver_def)
  have b: "budget (rEval (sampleResolver 37)) = 37" by (simp add: sampleResolver_def newEvaluator_def)
  from resolveValues_exact[OF _ _ _ r] sampleResolver_ready[of 37] due b r show ?thesis by auto
qed

text \<open>What the gate admits as a constant is never withheld. In a pack the gate passes, an outcome
  all of whose values are constants resolves whenever the work limit holds: the result is those
  constants under their names.\<close>

theorem constants_resolve:
  assumes "rfc0016Diagnostics (rPack r) = []"
    and "declaredValues (asArray (jget (rPack r) ''outcomes'')) outcomeID = Some d"
    and "\<forall>name \<in> fst ` set d. hasMember (sourceAt d name) ''constant''"
    and "coherent (rEval r)" "\<not> exceeded (rEval r)" "charged (rEval r) \<le> budget (rEval r)"
    and "resolveValues outcomeID r = (v, r')" "\<not> exceeded (rEval r')"
  shows "v = Some (Some (map (\<lambda>name. (name, jget (sourceAt d name) ''constant'')) (sortedMembers d)))"
proof -
  have "\<exists>entry \<in> set os. valueDeclaration entry = Some (JObject d)" if "declaredValues os outcomeID = Some d" for os
    using that by (induction os) (auto split: if_splits option.splits)
  from this[OF assms(2)] have "JObject d \<in> set (declarationsOf (rPack r))"
    by (force simp: declarationsOf_def map_filter_def)
  moreover have "list_all legalDeclaration (declarationsOf (rPack r))"
    using assms(1) rfc0016Diagnostics_gate by blast
  ultimately have legal: "legalDeclaration (JObject d)" by (simp add: list_all_iff)
  have source: "asString (jget (sourceAt d name) ''fromFact'') = None \<and> resolvesAt d (rFacts r) name"
    if "name \<in> fst ` set d" for name
  proof -
    from legal that have "legalSource (jget d name)" by (auto simp: legalDeclaration_def)
    then obtain m t where m: "jget d name = JObject m" "jget m ''type'' = JString t"
      "hasMember m ''constant'' \<noteq> hasMember m ''fromFact''"
      "if hasMember m ''constant'' then admittedValue t (jget m ''constant'') else pointerText (jget m ''fromFact'')"
      unfolding legalSource_def by blast
    have "hasMember m ''constant''" using assms(3) that m(1) by (auto simp: sourceAt_def)
    with m show ?thesis
      using jget_absent[of m "''fromFact''"] by (simp add: sourceAt_def resolvesAt_def sourceValue_def)
  qed
  have "v = valuesResult outcomeID r" using resolveValues_result[OF _ assms(7)] assms(4-6,8)
    by (auto simp: fresh_def em.within_limit_def)
  then show ?thesis
    using source assms(2)
    by (auto simp: valuesResult_def list_all_iff sortedMembers_def resolvedMembers_def sourceValue_def)
qed

theorem constants_resolve_witness:
  "fst (resolveValues ''approve'' (sampleResolver 38)) = Some (Some [(''limit'', JString ''10'')])"
proof -
  obtain v r' where r: "resolveValues ''approve'' (sampleResolver 38) = (v, r')" by (meson surj_pair)
  let ?d = "[(''limit'', JObject [(''type'', JString ''decimal''), (''constant'', JString ''10'')])]"
  have "rfc0016Diagnostics sampleValuePack = []" by code_simp
  moreover have "rPack (sampleResolver 38) = sampleValuePack" by (simp add: sampleResolver_def)
  moreover have "declaredValues (asArray (jget sampleValuePack ''outcomes'')) ''approve'' = Some ?d" by code_simp
  moreover have "\<not> exceeded (rEval (snd (resolveValues ''approve'' (sampleResolver 38))))" by code_simp
  ultimately show ?thesis
    using constants_resolve[OF _ _ _ _ _ _ r, of ?d] sampleResolver_ready[of 38] r
    by (simp add: sourceAt_def sortedMembers_def)
qed

end
