(* ===== verification/Semantic.thy ===== *)
theory Semantic
  imports Diagnostics Disposition
begin

section \<open>The semantic layer\<close>

text \<open>
  \<open>internal/validation/semantic.go\<close>: unique identifiers, resolving references, required extensions,
  and the structural checks of extension names and exception shapes. Each check is a step over the
  collector in the order the code takes; the layer is shown to report exactly the violations of the
  rules below, and to report none exactly for the packs in which every reference resolves.
\<close>

subsection \<open>Readers\<close>

definition objectList :: "json \<Rightarrow> object list" where
  "objectList v = List.map_filter asObject (asArray v)"

definition stringList :: "json \<Rightarrow> string list" where
  "stringList v = List.map_filter asString (asArray v)"

definition indexedObjects :: "json \<Rightarrow> (nat \<times> object) list" where
  "indexedObjects v =
     List.map_filter (\<lambda>(index, item). map_option (Pair index) (asObject item)) (indexed (asArray v))"

definition appendLocation :: "string list \<Rightarrow> string list \<Rightarrow> string list" where
  "appendLocation location parts = location @ parts"

definition idCollections :: "string list" where
  "idCollections = [''outcomes'', ''rules'', ''evidenceRequirements'', ''sources'', ''exceptions'']"

definition idOf :: "object \<Rightarrow> string" where
  "idOf m = stringOrEmpty (jget m ''id'')"

definition idSet :: "object \<Rightarrow> string \<Rightarrow> string list" where
  "idSet m collection = uniqueList (map idOf (objectList (jget m collection)))"

definition requiredExtensions :: "object \<Rightarrow> string list" where
  "requiredExtensions m =
     (case jget m ''metadata'' of JObject metadata \<Rightarrow> stringList (jget metadata ''requiredExtensions'') | _ \<Rightarrow> [])"

subsection \<open>References\<close>

definition semanticError :: "string \<Rightarrow> string list \<Rightarrow> string list \<Rightarrow> Diagnostic" where
  "semanticError code location message = ErrorDiagnostic code ''semantic'' (Pointer location) message"

fun duplicateIDs :: "string \<Rightarrow> string list \<Rightarrow> (nat \<times> object) list \<Rightarrow> step" where
  "duplicateIDs collection seen [] c = (True, c)"
| "duplicateIDs collection seen ((index, item) # rest) c =
     (let (ok, c1) =
        (if idOf item \<in> set seen
         then addDiagnostic (semanticError ''JPS-SEMANTIC-DUPLICATE-ID'' [collection, natString index, ''id'']
                [''Identifier is duplicated within its collection.'']) c
         else (True, c))
      in if \<not> ok then (False, c1) else duplicateIDs collection (idOf item # seen) rest c1)"

definition duplicateIDDiagnostics :: "object \<Rightarrow> string \<Rightarrow> step" where
  "duplicateIDDiagnostics m collection = duplicateIDs collection [] (indexedObjects (jget m collection))"

text \<open>The texts of \<open>unresolvedMessage\<close>; \<open>joinCapped\<close> keeps twelve and counts the rest.\<close>

definition joinCapped :: "string list \<Rightarrow> nat \<Rightarrow> string list" where
  "joinCapped vs cap =
     (if length vs \<le> cap then vs else take cap vs @ [natString (length vs - cap)])"

definition unresolvedMessage :: "string \<Rightarrow> string \<Rightarrow> string list \<Rightarrow> string list" where
  "unresolvedMessage noun reference targets = noun # reference # joinCapped (sort targets) 12"

definition unresolved :: "string \<Rightarrow> string list \<Rightarrow> string list \<Rightarrow> string \<Rightarrow> string \<Rightarrow> step" where
  "unresolved reference targets location code noun c =
     (if reference \<notin> set targets
      then addDiagnostic (semanticError code location (unresolvedMessage noun reference targets)) c
      else (True, c))"

function (sequential) walkCondition :: "json \<Rightarrow> string list \<Rightarrow> (string \<Rightarrow> string list \<Rightarrow> step) \<Rightarrow> step" where
  "walkCondition (JObject m) location visit =
     (let op = stringOrEmpty (jget m ''op'')
      in if op = ''evidence-present'' then
           visit (stringOrEmpty (jget m ''evidenceRequirement'')) (appendLocation location [''evidenceRequirement''])
         else if op = ''all'' \<or> op = ''any'' then
           inOrder (map (\<lambda>(index, child).
               walkCondition child (appendLocation location [''conditions'', natString index]) visit)
             (indexed (asArray (jget m ''conditions''))))
         else if op = ''not'' then
           walkCondition (jget m ''condition'') (appendLocation location [''condition'']) visit
         else (\<lambda>c. (True, c)))"
| "walkCondition v location visit = (\<lambda>c. (True, c))"
  by pat_completeness auto
termination
  by (relation "measure (\<lambda>(n, l, r). size n)")
     (auto simp only: in_measure case_prod_conv wf_measure size_jget_lt indexed_def
       dest!: set_zip_rightD size_asArray_jget)

definition missingEvidence :: "object \<Rightarrow> string \<Rightarrow> string list \<Rightarrow> step" where
  "missingEvidence m reference location =
     unresolved reference (idSet m ''evidenceRequirements'') location
       ''JPS-SEMANTIC-UNRESOLVED-EVIDENCE'' ''evidence requirement''"

text \<open>A loop over a list of references with their positions.\<close>

definition references :: "string list \<Rightarrow> string list \<Rightarrow> string list \<Rightarrow> string \<Rightarrow> string \<Rightarrow> step" where
  "references refs targets location code noun =
     inOrder (map (\<lambda>(index, reference).
       unresolved reference targets (appendLocation location [natString index]) code noun) (indexed refs))"

definition ruleSteps :: "object \<Rightarrow> nat \<Rightarrow> object \<Rightarrow> step" where
  "ruleSteps m index rule = inOrder
     [unresolved (stringOrEmpty (jget rule ''outcome'')) (idSet m ''outcomes'')
        [''rules'', natString index, ''outcome''] ''JPS-SEMANTIC-UNRESOLVED-OUTCOME'' ''outcome'',
      references (stringList (jget rule ''evidenceRequirementRefs'')) (idSet m ''evidenceRequirements'')
        [''rules'', natString index, ''evidenceRequirementRefs'']
        ''JPS-SEMANTIC-UNRESOLVED-EVIDENCE'' ''evidence requirement'',
      references (stringList (jget rule ''sourceRefs'')) (idSet m ''sources'')
        [''rules'', natString index, ''sourceRefs''] ''JPS-SEMANTIC-UNRESOLVED-SOURCE'' ''source'',
      walkCondition (jget rule ''when'') [''rules'', natString index, ''when''] (missingEvidence m)]"

definition exceptionSteps :: "object \<Rightarrow> nat \<Rightarrow> object \<Rightarrow> step" where
  "exceptionSteps m index exception = inOrder
     [case asString (jget exception ''targetRule'') of
        None \<Rightarrow> (\<lambda>c. (True, c))
      | Some target \<Rightarrow> unresolved target (idSet m ''rules'') [''exceptions'', natString index, ''targetRule'']
          ''JPS-SEMANTIC-UNRESOLVED-RULE'' ''rule'',
      case asString (jget exception ''outcome'') of
        None \<Rightarrow> (\<lambda>c. (True, c))
      | Some name \<Rightarrow> unresolved name (idSet m ''outcomes'') [''exceptions'', natString index, ''outcome'']
          ''JPS-SEMANTIC-UNRESOLVED-OUTCOME'' ''outcome'',
      references (stringList (jget exception ''sourceRefs'')) (idSet m ''sources'')
        [''exceptions'', natString index, ''sourceRefs''] ''JPS-SEMANTIC-UNRESOLVED-SOURCE'' ''source'',
      walkCondition (jget exception ''when'') [''exceptions'', natString index, ''when''] (missingEvidence m)]"

subsection \<open>Extensions\<close>

definition collectExtensionSlot :: "object \<Rightarrow> string list" where
  "collectExtensionSlot m = (case jget m ''extensions'' of JObject extensions \<Rightarrow> map fst extensions | _ \<Rightarrow> [])"

definition slotSingletons :: "string list" where
  "slotSingletons = [''decision'', ''escalation'', ''metadata'']"

definition slotCollections :: "string list" where
  "slotCollections = [''evidenceRequirements'', ''sources'', ''outcomes'', ''rules'', ''exceptions'']"

definition coreExtensionNames :: "object \<Rightarrow> string list" where
  "coreExtensionNames m =
     collectExtensionSlot m
     @ concat (map (\<lambda>k. case jget m k of JObject x \<Rightarrow> collectExtensionSlot x | _ \<Rightarrow> []) slotSingletons)
     @ concat (map (\<lambda>k. concat (map collectExtensionSlot (objectList (jget m k)))) slotCollections)"

definition semanticSteps :: "object \<Rightarrow> step list" where
  "semanticSteps m =
     [inOrder (map (duplicateIDDiagnostics m) idCollections),
      inOrder (map (\<lambda>(index, rule). ruleSteps m index rule) (indexed (objectList (jget m ''rules'')))),
      (case asString (jget m ''fallbackOutcome'') of
         None \<Rightarrow> (\<lambda>c. (True, c))
       | Some fallback \<Rightarrow> unresolved fallback (idSet m ''outcomes'') [''fallbackOutcome'']
           ''JPS-SEMANTIC-UNRESOLVED-OUTCOME'' ''outcome''),
      (if hasMember m ''applicability''
       then walkCondition (jget m ''applicability'') [''applicability''] (missingEvidence m) else (\<lambda>c. (True, c))),
      inOrder (map (\<lambda>(index, exception). exceptionSteps m index exception)
        (indexed (objectList (jget m ''exceptions'')))),
      inOrder (map (\<lambda>(index, required).
          if required \<notin> set (coreExtensionNames m)
          then addDiagnostic (semanticError ''JPS-SEMANTIC-MISSING-REQUIRED-EXTENSION''
                 [''metadata'', ''requiredExtensions'', natString index]
                 [''Required extension has no value in a Core extension slot.''])
          else (\<lambda>c. (True, c))) (indexed (requiredExtensions m)))]"

definition semanticDiagnostics :: "object \<Rightarrow> Diagnostic list \<times> bool" where
  "semanticDiagnostics m = collected (snd (inOrder (semanticSteps m) newDiagnosticCollector))"

subsection \<open>Structural checks of extensions and exceptions\<close>

text \<open>
  \<open>validExtensionName\<close>: the expression \<open>^[a-z][a-z0-9]*(?:\.[a-z][a-z0-9-]*)+$\<close> read as dotted
  labels, and the reserved namespace.
\<close>

definition isLower :: "char \<Rightarrow> bool" where
  "isLower c \<longleftrightarrow> 97 \<le> (of_char c :: nat) \<and> (of_char c :: nat) \<le> 122"

fun headLabel :: "string \<Rightarrow> bool" where
  "headLabel [] = False"
| "headLabel (c # s) = (isLower c \<and> list_all (\<lambda>x. isLower x \<or> isDigit x) s)"

fun innerLabel :: "string \<Rightarrow> bool" where
  "innerLabel [] = False"
| "innerLabel (c # s) = (isLower c \<and> list_all (\<lambda>x. isLower x \<or> isDigit x \<or> x = CHR ''-'') s)"

fun extensionNamePattern :: "string list \<Rightarrow> bool" where
  "extensionNamePattern (label # label' # labels) =
     (headLabel label \<and> innerLabel label' \<and> list_all innerLabel labels)"
| "extensionNamePattern labels = False"

definition validExtensionName :: "string \<Rightarrow> bool" where
  "validExtensionName name \<longleftrightarrow>
     extensionNamePattern (splitOn (CHR ''.'') name)
     \<and> take (length ''org.judgmentpack.'') name \<noteq> ''org.judgmentpack.''"

definition structuralError :: "string \<Rightarrow> string list \<Rightarrow> string list \<Rightarrow> Diagnostic" where
  "structuralError code location message = ErrorDiagnostic code ''structural'' (Pointer location) message"

definition badExtensionName :: "string list \<Rightarrow> Diagnostic" where
  "badExtensionName location = structuralError ''JPS-STRUCTURE-EXTENSION-NAME'' location
     [''Extension name must use an allowed reverse-domain namespace.'']"

definition collectExtensionSlotDiagnostics :: "object \<Rightarrow> string list \<Rightarrow> step" where
  "collectExtensionSlotDiagnostics m location =
     (case jget m ''extensions'' of
        JObject extensions \<Rightarrow> inOrder (map (\<lambda>name.
          if \<not> validExtensionName name
          then addDiagnostic (badExtensionName (appendLocation location [''extensions'', name]))
          else (\<lambda>c. (True, c))) (sort (map fst extensions)))
      | _ \<Rightarrow> (\<lambda>c. (True, c)))"

definition extensionNameSteps :: "object \<Rightarrow> step list" where
  "extensionNameSteps m =
     [collectExtensionSlotDiagnostics m [],
      inOrder (map (\<lambda>singleton. case jget m singleton of
          JObject x \<Rightarrow> collectExtensionSlotDiagnostics x [singleton] | _ \<Rightarrow> (\<lambda>c. (True, c))) slotSingletons),
      inOrder (map (\<lambda>collection. inOrder (map (\<lambda>(index, x).
          collectExtensionSlotDiagnostics x [collection, natString index]) (indexedObjects (jget m collection))))
        slotCollections),
      (case jget m ''metadata'' of
         JObject metadata \<Rightarrow> inOrder (map (\<lambda>(index, v).
           case asString v of
             Some name \<Rightarrow> if \<not> validExtensionName name
               then addDiagnostic (badExtensionName [''metadata'', ''requiredExtensions'', natString index])
               else (\<lambda>c. (True, c))
           | None \<Rightarrow> (\<lambda>c. (True, c))) (indexed (asArray (jget metadata ''requiredExtensions''))))
       | _ \<Rightarrow> (\<lambda>c. (True, c)))]"

definition extensionNameDiagnostics :: "object \<Rightarrow> diagnosticCollector \<Rightarrow> diagnosticCollector" where
  "extensionNameDiagnostics m c = snd (inOrder (extensionNameSteps m) c)"

text \<open>The operands an exception effect requires and forbids.\<close>

definition effectOperands :: "string \<Rightarrow> (string list \<times> string list) option" where
  "effectOperands effect =
     (if effect = ''suppress-rule'' then Some ([''targetRule''], [''outcome''])
      else if effect = ''force-outcome'' then Some ([''outcome''], [''targetRule''])
      else if effect = ''escalate'' then Some ([], [''outcome'', ''targetRule''])
      else None)"

definition shapeError :: "nat \<Rightarrow> string \<Rightarrow> string list \<Rightarrow> Diagnostic" where
  "shapeError index member message =
     structuralError ''JPS-STRUCTURE-EXCEPTION-SHAPE'' [''exceptions'', natString index, member] message"

definition exceptionShape :: "nat \<Rightarrow> object \<Rightarrow> step" where
  "exceptionShape index exception =
     (case asString (jget exception ''effect'') of
        None \<Rightarrow> (\<lambda>c. (True, c))
      | Some effect \<Rightarrow>
          (case effectOperands effect of
             None \<Rightarrow> (\<lambda>c. (True, c))
           | Some (required, forbidden) \<Rightarrow> inOrder
               [inOrder (map (\<lambda>member.
                  if \<not> hasMember exception member
                  then addDiagnostic (shapeError index member [effect, '' effect requires '', member])
                  else (\<lambda>c. (True, c))) required),
                inOrder (map (\<lambda>member.
                  if hasMember exception member
                  then addDiagnostic (shapeError index member [effect, '' effect does not allow '', member])
                  else (\<lambda>c. (True, c))) forbidden)]))"

definition exceptionShapeDiagnostics :: "object \<Rightarrow> diagnosticCollector \<Rightarrow> diagnosticCollector" where
  "exceptionShapeDiagnostics m c =
     snd (inOrder (map (\<lambda>(index, exception). exceptionShape index exception)
       (indexedObjects (jget m ''exceptions''))) c)"

subsection \<open>The violations of a pack\<close>

text \<open>The same checks as the list of everything they find, without a bound.\<close>

fun repeatedIDs :: "string \<Rightarrow> string list \<Rightarrow> (nat \<times> object) list \<Rightarrow> Diagnostic list" where
  "repeatedIDs collection seen [] = []"
| "repeatedIDs collection seen ((index, item) # rest) =
     (if idOf item \<in> set seen
      then [semanticError ''JPS-SEMANTIC-DUPLICATE-ID'' [collection, natString index, ''id'']
              [''Identifier is duplicated within its collection.'']] else [])
     @ repeatedIDs collection (idOf item # seen) rest"

definition missing :: "string \<Rightarrow> string list \<Rightarrow> string list \<Rightarrow> string \<Rightarrow> string \<Rightarrow> Diagnostic list" where
  "missing reference targets location code noun =
     (if reference \<notin> set targets then [semanticError code location (unresolvedMessage noun reference targets)] else [])"

definition missingAll :: "string list \<Rightarrow> string list \<Rightarrow> string list \<Rightarrow> string \<Rightarrow> string \<Rightarrow> Diagnostic list" where
  "missingAll refs targets location code noun =
     concat (map (\<lambda>(index, reference). missing reference targets (appendLocation location [natString index]) code noun)
       (indexed refs))"

text \<open>The evidence a condition refers to, with where it says so.\<close>

function (sequential) evidenceRefs :: "json \<Rightarrow> string list \<Rightarrow> (string \<times> string list) list" where
  "evidenceRefs (JObject m) location =
     (let op = stringOrEmpty (jget m ''op'')
      in if op = ''evidence-present'' then
           [(stringOrEmpty (jget m ''evidenceRequirement''), appendLocation location [''evidenceRequirement''])]
         else if op = ''all'' \<or> op = ''any'' then
           concat (map (\<lambda>(index, child). evidenceRefs child (appendLocation location [''conditions'', natString index]))
             (indexed (asArray (jget m ''conditions''))))
         else if op = ''not'' then
           evidenceRefs (jget m ''condition'') (appendLocation location [''condition''])
         else [])"
| "evidenceRefs v location = []"
  by pat_completeness auto
termination
  by (relation "measure (\<lambda>(n, l). size n)")
     (auto simp only: in_measure case_prod_conv wf_measure size_jget_lt indexed_def
       dest!: set_zip_rightD size_asArray_jget)

definition evidenceMissing :: "object \<Rightarrow> json \<Rightarrow> string list \<Rightarrow> Diagnostic list" where
  "evidenceMissing m v location =
     concat (map (\<lambda>(reference, place). missing reference (idSet m ''evidenceRequirements'') place
       ''JPS-SEMANTIC-UNRESOLVED-EVIDENCE'' ''evidence requirement'') (evidenceRefs v location))"

definition ruleViolations :: "object \<Rightarrow> nat \<Rightarrow> object \<Rightarrow> Diagnostic list" where
  "ruleViolations m index rule = concat
     [missing (stringOrEmpty (jget rule ''outcome'')) (idSet m ''outcomes'')
        [''rules'', natString index, ''outcome''] ''JPS-SEMANTIC-UNRESOLVED-OUTCOME'' ''outcome'',
      missingAll (stringList (jget rule ''evidenceRequirementRefs'')) (idSet m ''evidenceRequirements'')
        [''rules'', natString index, ''evidenceRequirementRefs'']
        ''JPS-SEMANTIC-UNRESOLVED-EVIDENCE'' ''evidence requirement'',
      missingAll (stringList (jget rule ''sourceRefs'')) (idSet m ''sources'')
        [''rules'', natString index, ''sourceRefs''] ''JPS-SEMANTIC-UNRESOLVED-SOURCE'' ''source'',
      evidenceMissing m (jget rule ''when'') [''rules'', natString index, ''when'']]"

definition exceptionViolations :: "object \<Rightarrow> nat \<Rightarrow> object \<Rightarrow> Diagnostic list" where
  "exceptionViolations m index exception = concat
     [case asString (jget exception ''targetRule'') of
        None \<Rightarrow> []
      | Some target \<Rightarrow> missing target (idSet m ''rules'') [''exceptions'', natString index, ''targetRule'']
          ''JPS-SEMANTIC-UNRESOLVED-RULE'' ''rule'',
      case asString (jget exception ''outcome'') of
        None \<Rightarrow> []
      | Some name \<Rightarrow> missing name (idSet m ''outcomes'') [''exceptions'', natString index, ''outcome'']
          ''JPS-SEMANTIC-UNRESOLVED-OUTCOME'' ''outcome'',
      missingAll (stringList (jget exception ''sourceRefs'')) (idSet m ''sources'')
        [''exceptions'', natString index, ''sourceRefs''] ''JPS-SEMANTIC-UNRESOLVED-SOURCE'' ''source'',
      evidenceMissing m (jget exception ''when'') [''exceptions'', natString index, ''when'']]"

definition violationLists :: "object \<Rightarrow> Diagnostic list list" where
  "violationLists m =
     [concat (map (\<lambda>k. repeatedIDs k [] (indexedObjects (jget m k))) idCollections),
      concat (map (\<lambda>(index, rule). ruleViolations m index rule) (indexed (objectList (jget m ''rules'')))),
      (case asString (jget m ''fallbackOutcome'') of
         None \<Rightarrow> []
       | Some fallback \<Rightarrow> missing fallback (idSet m ''outcomes'') [''fallbackOutcome'']
           ''JPS-SEMANTIC-UNRESOLVED-OUTCOME'' ''outcome''),
      (if hasMember m ''applicability'' then evidenceMissing m (jget m ''applicability'') [''applicability''] else []),
      concat (map (\<lambda>(index, exception). exceptionViolations m index exception)
        (indexed (objectList (jget m ''exceptions'')))),
      concat (map (\<lambda>(index, required).
          if required \<notin> set (coreExtensionNames m)
          then [semanticError ''JPS-SEMANTIC-MISSING-REQUIRED-EXTENSION''
                 [''metadata'', ''requiredExtensions'', natString index]
                 [''Required extension has no value in a Core extension slot.'']]
          else []) (indexed (requiredExtensions m)))]"

definition violations :: "object \<Rightarrow> Diagnostic list" where
  "violations m = concat (violationLists m)"

subsection \<open>The steps report the violations\<close>

lemma emits_unresolved [emits]:
  "emits (unresolved reference targets location code noun) (missing reference targets location code noun)"
  by (auto simp: emits_def unresolved_def missing_def split: prod.split)

lemma emits_references [emits]: "emits (references refs targets location code noun) (missingAll refs targets location code noun)"
  unfolding references_def missingAll_def by (rule emits_inOrder_map) (auto intro: emits)

lemma emits_duplicateIDs [emits]: "emits (duplicateIDs collection seen items) (repeatedIDs collection seen items)"
proof (induction items arbitrary: seen)
  case (Cons x items)
  then have IH: "duplicateIDs collection s items c = addAll (repeatedIDs collection s items) c" for s c
    by (simp add: emits_def)
  show ?case unfolding emits_def
    by (cases x) (auto simp: inOrder_append IH split: prod.split)
qed (simp add: emits_def fun_eq_iff)

lemma concat_map_concat: "concat (map g (concat (map h xs))) = concat (map (\<lambda>x. concat (map g (h x))) xs)"
  by (induction xs) simp_all

lemma emits_walkCondition:
  assumes "\<And>r l. emits (visit r l) (g r l)"
  shows "emits (walkCondition v location visit) (concat (map (\<lambda>(r, l). g r l) (evidenceRefs v location)))"
proof (induction v location rule: evidenceRefs.induct)
  case (1 m location)
  define op where "op = stringOrEmpty (jget m ''op'')"
  show ?case
  proof (cases "op = ''all'' \<or> op = ''any''")
    case True
    then have "op \<noteq> ''evidence-present''" by auto
    have "emits (walkCondition child (appendLocation location [''conditions'', natString i]) visit)
        (concat (map (\<lambda>(r, l). g r l) (evidenceRefs child (appendLocation location [''conditions'', natString i]))))"
      if "(i, child) \<in> set (indexed (asArray (jget m ''conditions'')))" for i child
      using "1.IH"(1)[OF op_def _ True that refl] \<open>op \<noteq> _\<close> by simp
    then have "emits (inOrder (map (\<lambda>(i, child). walkCondition child (appendLocation location [''conditions'', natString i]) visit)
          (indexed (asArray (jget m ''conditions'')))))
        (concat (map (\<lambda>(i, child). concat (map (\<lambda>(r, l). g r l)
          (evidenceRefs child (appendLocation location [''conditions'', natString i]))))
          (indexed (asArray (jget m ''conditions'')))))"
      by (intro emits_inOrder_map) auto
    then show ?thesis using True \<open>op \<noteq> _\<close>
      by (simp add: Let_def concat_map_concat case_prod_unfold flip: op_def)
  next
    case False
    with "1.IH"(2)[OF op_def] assms show ?thesis
      by (auto simp: Let_def emits_nothing simp flip: op_def)
  qed
qed (simp_all add: emits_nothing)

lemma emits_missingEvidence [emits]:
  "emits (walkCondition v location (missingEvidence m)) (evidenceMissing m v location)"
  unfolding evidenceMissing_def
  by (rule emits_walkCondition) (simp add: missingEvidence_def[abs_def] emits_unresolved)

lemma emits_inOrder_indexed:
  "(\<And>i x. emits (f i x) (g i x)) \<Longrightarrow> emits (inOrder (map (\<lambda>(i, x). f i x) ys)) (concat (map (\<lambda>(i, x). g i x) ys))"
  by (rule emits_inOrder_map) auto

lemma emits_rule [emits]: "emits (ruleSteps m index rule) (ruleViolations m index rule)"
  unfolding ruleSteps_def ruleViolations_def by (rule emits_inOrder) (simp add: emits)

lemma emits_exception [emits]: "emits (exceptionSteps m index exception) (exceptionViolations m index exception)"
  unfolding exceptionSteps_def exceptionViolations_def
  by (rule emits_inOrder) (simp add: emits split: option.split)

lemma semanticDiagnostics_report: "semanticDiagnostics m = report (violations m)"
  unfolding semanticDiagnostics_def violations_def
proof (rule emits_collected, rule emits_inOrder)
  have "emits (inOrder (map (duplicateIDDiagnostics m) idCollections))
      (concat (map (\<lambda>k. repeatedIDs k [] (indexedObjects (jget m k))) idCollections))"
    by (rule emits_inOrder_map) (simp add: duplicateIDDiagnostics_def emits)
  then show "list_all2 emits (semanticSteps m) (violationLists m)"
    unfolding semanticSteps_def violationLists_def
    by (simp add: emits emits_inOrder_indexed split: option.split)
qed

subsection \<open>Conformance\<close>

text \<open>The evidence requirements a condition mentions, as a relation.\<close>

inductive mentions :: "json \<Rightarrow> string \<Rightarrow> bool" where
  present: "stringOrEmpty (jget m ''op'') = ''evidence-present'' \<Longrightarrow>
    mentions (JObject m) (stringOrEmpty (jget m ''evidenceRequirement''))"
| member: "stringOrEmpty (jget m ''op'') \<in> {''all'', ''any''} \<Longrightarrow> v \<in> set (asArray (jget m ''conditions'')) \<Longrightarrow>
    mentions v e \<Longrightarrow> mentions (JObject m) e"
| negated: "stringOrEmpty (jget m ''op'') = ''not'' \<Longrightarrow> mentions (jget m ''condition'') e \<Longrightarrow> mentions (JObject m) e"

inductive_cases mentionsE: "mentions (JObject m) e"
inductive_simps mentions_scalar [simp]:
  "mentions JNull e" "mentions (JBool b) e" "mentions (JNumber t) e" "mentions (JString s) e" "mentions (JArray vs) e"

definition declared :: "object \<Rightarrow> string \<Rightarrow> string \<Rightarrow> bool" where
  "declared m collection reference \<longleftrightarrow> (\<exists>x \<in> set (objectList (jget m collection)). idOf x = reference)"

definition evidenceDeclared :: "object \<Rightarrow> json \<Rightarrow> bool" where
  "evidenceDeclared m v \<longleftrightarrow> (\<forall>e. mentions v e \<longrightarrow> declared m ''evidenceRequirements'' e)"

definition ruleResolves :: "object \<Rightarrow> object \<Rightarrow> bool" where
  "ruleResolves m rule \<longleftrightarrow>
     declared m ''outcomes'' (stringOrEmpty (jget rule ''outcome''))
     \<and> (\<forall>e \<in> set (stringList (jget rule ''evidenceRequirementRefs'')). declared m ''evidenceRequirements'' e)
     \<and> (\<forall>e \<in> set (stringList (jget rule ''sourceRefs'')). declared m ''sources'' e)
     \<and> evidenceDeclared m (jget rule ''when'')"

definition exceptionResolves :: "object \<Rightarrow> object \<Rightarrow> bool" where
  "exceptionResolves m exception \<longleftrightarrow>
     (\<forall>s. jget exception ''targetRule'' = JString s \<longrightarrow> declared m ''rules'' s)
     \<and> (\<forall>s. jget exception ''outcome'' = JString s \<longrightarrow> declared m ''outcomes'' s)
     \<and> (\<forall>e \<in> set (stringList (jget exception ''sourceRefs'')). declared m ''sources'' e)
     \<and> evidenceDeclared m (jget exception ''when'')"

definition conformant :: "object \<Rightarrow> bool" where
  "conformant m \<longleftrightarrow>
     (\<forall>k \<in> set idCollections. distinct (map idOf (objectList (jget m k))))
     \<and> (\<forall>rule \<in> set (objectList (jget m ''rules'')). ruleResolves m rule)
     \<and> (\<forall>s. jget m ''fallbackOutcome'' = JString s \<longrightarrow> declared m ''outcomes'' s)
     \<and> (hasMember m ''applicability'' \<longrightarrow> evidenceDeclared m (jget m ''applicability''))
     \<and> (\<forall>exception \<in> set (objectList (jget m ''exceptions'')). exceptionResolves m exception)
     \<and> set (requiredExtensions m) \<subseteq> set (coreExtensionNames m)"

lemma indexed_all: "(\<forall>(i, x) \<in> set (indexed xs). P x) \<longleftrightarrow> (\<forall>x \<in> set xs. P x)"
proof -
  have "(\<forall>x \<in> set (map snd (indexed xs)). P x) \<longleftrightarrow> (\<forall>p \<in> set (indexed xs). P (snd p))"
    by (simp del: map_snd_indexed)
  then show ?thesis by (simp add: case_prod_unfold)
qed

lemma indexed_ex: "(\<exists>(i, x) \<in> set (indexed xs). P x) \<longleftrightarrow> (\<exists>x \<in> set xs. P x)"
  using indexed_all[of xs "\<lambda>x. \<not> P x"] by auto

lemma missing_empty: "missing reference (idSet m k) location code noun = [] \<longleftrightarrow> declared m k reference"
  by (auto simp: missing_def idSet_def declared_def)

lemma missingAll_empty:
  "missingAll refs (idSet m k) location code noun = [] \<longleftrightarrow> (\<forall>e \<in> set refs. declared m k e)"
  by (simp only: missingAll_def indexed_empty missing_empty indexed_all)

lemma mentions_refs: "(\<exists>place. (e, place) \<in> set (evidenceRefs v location)) \<longleftrightarrow> mentions v e"
proof (induction v location rule: evidenceRefs.induct)
  case (1 m location)
  define op where "op = stringOrEmpty (jget m ''op'')"
  have rel: "mentions (JObject m) e \<longleftrightarrow>
      op = ''evidence-present'' \<and> e = stringOrEmpty (jget m ''evidenceRequirement'')
      \<or> (op = ''all'' \<or> op = ''any'') \<and> (\<exists>v \<in> set (asArray (jget m ''conditions'')). mentions v e)
      \<or> op = ''not'' \<and> mentions (jget m ''condition'') e"
    unfolding op_def by (blast elim: mentionsE intro: mentions.intros)
  show ?case
  proof (cases "op = ''all'' \<or> op = ''any''")
    case True
    then have "op \<noteq> ''evidence-present''" "op \<noteq> ''not''" by auto
    have "(\<exists>place. (e, place) \<in> set (evidenceRefs child (appendLocation location [''conditions'', natString i])))
        \<longleftrightarrow> mentions child e" if "(i, child) \<in> set (indexed (asArray (jget m ''conditions'')))" for i child
      using "1.IH"(1)[OF op_def _ True that refl] \<open>op \<noteq> ''evidence-present''\<close> by simp
    then have "(\<exists>place. (e, place) \<in> set (evidenceRefs (JObject m) location))
        \<longleftrightarrow> (\<exists>(i, child) \<in> set (indexed (asArray (jget m ''conditions''))). mentions child e)"
      using True \<open>op \<noteq> ''evidence-present''\<close> by (simp add: Let_def flip: op_def) fast
    then show ?thesis
      by (simp only: rel indexed_ex True \<open>op \<noteq> ''not''\<close> \<open>op \<noteq> ''evidence-present''\<close> simp_thms)
  next
    case False
    then have other: "op \<noteq> ''all''" "op \<noteq> ''any''" by simp_all
    consider "op = ''evidence-present''" | "op = ''not''" | "op \<noteq> ''evidence-present''" "op \<noteq> ''not''" by argo
    then show ?thesis
    proof cases
      case 1
      then show ?thesis unfolding rel by (auto simp: Let_def simp flip: op_def)
    next
      case 2
      with "1.IH"(2)[OF op_def] show ?thesis unfolding rel by (simp add: Let_def flip: op_def)
    next
      case 3
      with other show ?thesis unfolding rel by (simp add: Let_def flip: op_def)
    qed
  qed
qed simp_all

lemma evidenceMissing_empty: "evidenceMissing m v location = [] \<longleftrightarrow> evidenceDeclared m v"
  unfolding evidenceMissing_def evidenceDeclared_def mentions_refs[of _ v location, symmetric]
  by (auto simp: missing_empty)

lemma repeatedIDs_empty:
  "repeatedIDs k seen items = [] \<longleftrightarrow>
   distinct (map (\<lambda>x. idOf (snd x)) items) \<and> set seen \<inter> set (map (\<lambda>x. idOf (snd x)) items) = {}"
  by (induction k seen items rule: repeatedIDs.induct) auto

lemma map_filter_indexed: "map snd (indexedObjects v) = objectList v"
proof -
  have "map snd (List.map_filter (\<lambda>(i, x). map_option (Pair i) (asObject x)) (zip is xs)) = List.map_filter asObject xs"
    if "length is = length xs" for "is" :: "nat list" and xs
    using that by (induction "is" xs rule: list_induct2) (auto split: option.split)
  then show ?thesis by (simp add: indexedObjects_def objectList_def indexed_def)
qed

lemma indexedObjects_ids: "map (\<lambda>x. idOf (snd x)) (indexedObjects v) = map idOf (objectList v)"
  unfolding map_filter_indexed[symmetric] by simp

lemma ruleViolations_empty: "ruleViolations m i rule = [] \<longleftrightarrow> ruleResolves m rule"
  by (simp add: ruleViolations_def ruleResolves_def missing_empty missingAll_empty evidenceMissing_empty)

lemma exceptionViolations_empty: "exceptionViolations m i exception = [] \<longleftrightarrow> exceptionResolves m exception"
  by (auto simp: exceptionViolations_def exceptionResolves_def missing_empty missingAll_empty evidenceMissing_empty
      split: option.splits)

lemma violations_empty: "violations m = [] \<longleftrightarrow> conformant m"
proof -
  have ids: "concat (map (\<lambda>k. repeatedIDs k [] (indexedObjects (jget m k))) idCollections) = [] \<longleftrightarrow>
      (\<forall>k \<in> set idCollections. distinct (map idOf (objectList (jget m k))))"
    by (simp add: repeatedIDs_empty indexedObjects_ids)
  have rules: "concat (map (\<lambda>(i, rule). ruleViolations m i rule) (indexed rs)) = [] \<longleftrightarrow>
      (\<forall>rule \<in> set rs. ruleResolves m rule)" for rs
    by (simp only: indexed_empty ruleViolations_empty indexed_all)
  have exceptions: "concat (map (\<lambda>(i, x). exceptionViolations m i x) (indexed xs)) = [] \<longleftrightarrow>
      (\<forall>x \<in> set xs. exceptionResolves m x)" for xs
    by (simp only: indexed_empty exceptionViolations_empty indexed_all)
  have fallback: "(case asString (jget m ''fallbackOutcome'') of None \<Rightarrow> []
      | Some s \<Rightarrow> missing s (idSet m ''outcomes'') l c n) = [] \<longleftrightarrow>
      (\<forall>s. jget m ''fallbackOutcome'' = JString s \<longrightarrow> declared m ''outcomes'' s)" for l c n
    by (auto simp: missing_empty split: option.splits)
  have used: "concat (map (\<lambda>(i, x). if x \<notin> set names then [d i] else []) (indexed xs)) = [] \<longleftrightarrow> set xs \<subseteq> set names"
    for names xs and d :: "nat \<Rightarrow> Diagnostic"
  proof -
    have "((if x \<notin> set names then [d i] else []) = []) = (x \<in> set names)" for i x by simp
    then show ?thesis by (auto simp only: indexed_empty indexed_all subset_iff)
  qed
  show ?thesis
    unfolding violations_def violationLists_def conformant_def concat.simps append_Nil2 append_is_Nil_conv
      ids rules exceptions fallback used
    by (simp add: evidenceMissing_empty)
qed

text \<open>C20: The semantic layer reports exactly the violations of its rules: the first hundred different
  ones in its order of checks, sorted by location and code, with the flag set exactly when there are
  more; and it reports none exactly for the packs whose identifiers are unique in their collections,
  whose references all resolve, in conditions too, and whose required extensions are used.\<close>

theorem semanticDiagnostics_exact:
  "semanticDiagnostics m =
     (sortedDiagnostics (take MaxDiagnostics (distinctBy [] (violations m))),
      MaxDiagnostics < length (distinctBy [] (violations m)))
   \<and> (fst (semanticDiagnostics m) = [] \<longleftrightarrow> conformant m)"
  unfolding semanticDiagnostics_report report_empty violations_empty by (simp add: report_def)

end
