(* ===== verification/Validator.thy ===== *)
theory Validator
  imports Semantic Carrier
begin

section \<open>The validation engine\<close>

text \<open>
  \<open>internal/validation/validator.go\<close> and \<open>profile.go\<close>: profile negotiation, the carrier, structural,
  semantic and capability layers in the order \<open>Validate\<close> runs them, and the translation of the schema
  library's error tree into diagnostics. Outside the sources, and arguments of the model, are the
  tokens of \<open>encoding/json\<close>, the bundled artifacts, the compiled schemas of the \<open>jsonschema\<close> library
  (a function from a document to its error, if any) and \<open>fmt.Sprint\<close> of a value that is no string.
\<close>

subsection \<open>What the schema library reports\<close>

datatype ErrorKind =
    KindOneOf | KindMaxItems | KindNot | KindAllOf
  | KindRequired "string list"
  | KindAdditionalProperties "string list"
  | KindPropertyNames
  | KindFormat string
  | KindPattern string string
  | KindMinItems nat nat
  | KindType "string list" string
  | KindConst
  | KindEnum "json list"
  | KindMinLength | KindUniqueItems
  | KindSchema | KindReference | KindGroup
  | KindOther

datatype ValidationError =
  ValidationError (InstanceLocation: "string list") (Kind: ErrorKind) (Causes: "ValidationError list")

datatype schemaError = Invalid ValidationError | NotAnError

type_synonym schema = "json \<Rightarrow> schemaError option"
type_synonym Format = "string \<times> (json \<Rightarrow> bool)"

record Artifact =
  arSpecVersion :: string
  arBundleDigest :: string
  arProvenance :: string

record engine =
  eSets :: "string \<Rightarrow> Artifact option"
  eSchemas :: "string \<Rightarrow> schema"
  eCompile :: "string \<Rightarrow> Format list \<Rightarrow> schema option"
  eScan :: "string \<Rightarrow> token list"
  eSprint :: "json \<Rightarrow> string"
  eAdvice :: "object \<Rightarrow> Limits \<Rightarrow> Diagnostic list \<times> bool"

text \<open>The tokens of a text are those of the scanner with every string made UTF-8, as \<open>encoding/json\<close>
  documents of the strings it unquotes.\<close>

fun utf8Token :: "token \<Rightarrow> token" where
  "utf8Token (TString s) = TString (coerceUtf8 s)"
| "utf8Token t = t"

definition eTokens :: "('h) engine_scheme \<Rightarrow> string \<Rightarrow> token list" where
  "eTokens E data = map utf8Token (eScan E data)"

definition CoreVersion :: string where
  "CoreVersion = ''0.3.0''"

subsection \<open>Messages and codes\<close>

definition lastOf :: "string list \<Rightarrow> string" where
  "lastOf vs = (if length vs = 0 then [] else last vs)"

text \<open>\<open>strings.Contains\<close>.\<close>

fun containsText :: "string \<Rightarrow> string \<Rightarrow> bool" where
  "containsText needle [] = (needle = [])"
| "containsText needle (c # s) = (take (length needle) (c # s) = needle \<or> containsText needle s)"

definition patternCode :: "string \<Rightarrow> string" where
  "patternCode pattern =
     (if pattern = ''^[a-z][a-z0-9]*(?:-[a-z0-9]+)*$'' then ''JPS-STRUCTURE-LOCAL-ID''
      else if take (length ''^(0|[1-9][0-9]*)'') pattern = ''^(0|[1-9][0-9]*)'' then ''JPS-STRUCTURE-PACK-VERSION''
      else if pattern = ''^(?:/(?:[^~/]|~0|~1)*)*$'' then ''JPS-STRUCTURE-FACT-PATH''
      else if pattern = ''^-?(?:0|[1-9][0-9]*)(?:'' @ [CHR 0x5C] @ ''.[0-9]+)?$'' then ''JPS-STRUCTURE-DECIMAL-OPERAND''
      else if containsText (''org'' @ [CHR 0x5C] @ ''.judgmentpack'') pattern then ''JPS-STRUCTURE-EXTENSION-NAME''
      else ''JPS-STRUCTURE-PATTERN'')"

definition structuralMessage :: "string \<Rightarrow> string list" where
  "structuralMessage code =
     (if code = ''JPS-STRUCTURE-DECIMAL-OPERAND''
      then [''Ordered comparison operand must be a decimal string, for example '', ''5000'']
      else if code = ''JPS-STRUCTURE-IN-OPERAND'' then [''The in operator requires an array operand.'']
      else [''Value does not satisfy a structural constraint.''])"

definition stringifyValue :: "(json \<Rightarrow> string) \<Rightarrow> json \<Rightarrow> string" where
  "stringifyValue sprint v = (case asString v of Some s \<Rightarrow> s | None \<Rightarrow> sprint v)"

definition enumMessage :: "(json \<Rightarrow> string) \<Rightarrow> json list \<Rightarrow> string list" where
  "enumMessage sprint want =
     (if want = [] then [''Value is not one of the allowed values.'']
      else ''Value is not one of the allowed values: '' # joinCapped (map (stringifyValue sprint) want) 12)"

definition patternMessage :: "string \<Rightarrow> string \<Rightarrow> string list" where
  "patternMessage code got =
     (if code = ''JPS-STRUCTURE-LOCAL-ID'' then [''Local identifier '', got]
      else if code = ''JPS-STRUCTURE-PACK-VERSION'' then [''Pack version '', got]
      else if code = ''JPS-STRUCTURE-FACT-PATH'' then [''Fact path '', got]
      else if code = ''JPS-STRUCTURE-DECIMAL-OPERAND'' then [''Ordered comparison operand '', got]
      else [''Value '', got])"

definition arityMessage :: "string \<Rightarrow> nat \<Rightarrow> nat \<Rightarrow> string list" where
  "arityMessage code got want =
     [if code = ''JPS-STRUCTURE-CONDITION-ARITY'' then ''Condition needs at least ''
      else if code = ''JPS-STRUCTURE-ESCALATION-TRIGGERS'' then ''Escalation needs at least ''
      else ''Collection needs at least '', natString want, natString got]"

definition typeMessage :: "string list \<Rightarrow> string \<Rightarrow> string list" where
  "typeMessage want got =
     (let wanted = joinWith '' or '' want
      in if wanted = [] then [''Value has the wrong JSON type.'']
         else if got = [] then [''Value must be of type '', wanted]
         else [''Value must be of type '', wanted, got])"

text \<open>The \<open>value\<close> operand of a fact comparison, told by where it stands.\<close>

definition comparisonOperandValue :: "string list \<Rightarrow> bool" where
  "comparisonOperandValue location =
     (let n = length location
      in if n < 2 \<or> location ! (n - 1) \<noteq> ''value'' then False
         else location ! (n - 2) \<in> {''when'', ''applicability'', ''condition''}
              \<or> (n \<ge> 3 \<and> location ! (n - 3) = ''conditions''))"

definition upperAscii :: "char \<Rightarrow> char" where
  "upperAscii c = (if isLower c then char_of (of_char c - 32 :: nat) else c)"

subsection \<open>Branches of a \<open>oneOf\<close>\<close>

fun discriminatorMismatch :: "ValidationError \<Rightarrow> bool" where
  "discriminatorMismatch (ValidationError location kind causes) =
     (case kind of
        KindConst \<Rightarrow> lastOf location = ''op''
      | KindEnum want \<Rightarrow> lastOf location = ''op''
      | KindRequired members \<Rightarrow> ''op'' \<in> set members
      | _ \<Rightarrow> False)"

definition branchRejectedByDiscriminator :: "ValidationError \<Rightarrow> bool" where
  "branchRejectedByDiscriminator cause \<longleftrightarrow>
     discriminatorMismatch cause \<or> (Kind cause = KindGroup \<and> list_ex discriminatorMismatch (Causes cause))"

subsection \<open>The structural layer\<close>

text \<open>The Core 0.3 route constraints that have diagnostics of their own.\<close>

definition routeFault :: "bool \<Rightarrow> string list \<Rightarrow> ErrorKind \<Rightarrow> Diagnostic option" where
  "routeFault core030 location kind =
     (if \<not> core030 then None
      else case kind of
        KindOneOf \<Rightarrow>
          if location = [''escalation'']
          then Some (structuralError ''JPS-STRUCTURE-ONEOF'' location
                 [''Escalation must declare exactly one of target or routes.'']) else None
      | KindMaxItems \<Rightarrow>
          if location = [''escalation'', ''routes'']
          then Some (structuralError ''JPS-STRUCTURE-MAXITEMS'' location
                 [''Escalation routes exceed the selected profile limit.'']) else None
      | KindNot \<Rightarrow>
          if length location = 4 \<and> location ! 0 = ''escalation'' \<and> location ! 1 = ''routes'' \<and> location ! 3 = ''triggers''
          then Some (structuralError ''JPS-STRUCTURE-NOT'' location
                 [''Route triggers must be a subset of escalation triggers.'']) else None
      | _ \<Rightarrow> None)"

text \<open>What one kind of error adds, in order. \<open>Required\<close> and \<open>AdditionalProperties\<close> stop at the first
  diagnostic the collector does not take.\<close>

definition kindDiagnostics :: "(json \<Rightarrow> string) \<Rightarrow> string list \<Rightarrow> ErrorKind \<Rightarrow> Diagnostic list" where
  "kindDiagnostics sprint location kind =
     (case kind of
        KindRequired members \<Rightarrow>
          map (\<lambda>k. structuralError ''JPS-STRUCTURE-REQUIRED-MEMBER'' (location @ [k]) [''Required member is missing.''])
            (filter (\<lambda>k. \<not> (''exceptions'' \<in> set location \<and> (k = ''outcome'' \<or> k = ''targetRule''))) members)
      | KindAdditionalProperties properties \<Rightarrow>
          map (\<lambda>k. structuralError ''JPS-STRUCTURE-UNKNOWN-MEMBER'' (location @ [k])
                 [''Member is not allowed in this Core object.'']) properties
      | KindFormat want \<Rightarrow>
          [structuralError (''JPS-STRUCTURE-FORMAT-'' @ map upperAscii want) location
             [''Value does not satisfy the required '', want]]
      | KindPattern want got \<Rightarrow>
          (if patternCode want \<noteq> ''JPS-STRUCTURE-EXTENSION-NAME''
           then [structuralError (patternCode want) location (patternMessage (patternCode want) got)] else [])
      | KindMinItems got want \<Rightarrow>
          (let code = (if lastOf location = ''conditions'' then ''JPS-STRUCTURE-CONDITION-ARITY''
                       else if lastOf location = ''triggers'' then ''JPS-STRUCTURE-ESCALATION-TRIGGERS''
                       else ''JPS-STRUCTURE-COLLECTION-ARITY'')
           in [structuralError code location (arityMessage code got want)])
      | KindType want got \<Rightarrow>
          (if comparisonOperandValue location \<and> ''array'' \<in> set want
           then [structuralError ''JPS-STRUCTURE-IN-OPERAND'' location (structuralMessage ''JPS-STRUCTURE-IN-OPERAND'')]
           else if comparisonOperandValue location \<and> ''string'' \<in> set want
           then [structuralError ''JPS-STRUCTURE-DECIMAL-OPERAND'' location
                   (structuralMessage ''JPS-STRUCTURE-DECIMAL-OPERAND'')]
           else [structuralError ''JPS-STRUCTURE-TYPE'' location (typeMessage want got)])
      | KindConst \<Rightarrow>
          (if lastOf location = ''specVersion''
           then [structuralError ''JPS-STRUCTURE-SPEC-VERSION'' location
                   [''Specification version does not match the selected JPS release.'']] else [])
      | KindEnum want \<Rightarrow> [structuralError ''JPS-STRUCTURE-ENUM'' location (enumMessage sprint want)]
      | KindMinLength \<Rightarrow>
          [structuralError ''JPS-STRUCTURE-MIN-LENGTH'' location [''String is shorter than the required minimum length.'']]
      | KindUniqueItems \<Rightarrow>
          [structuralError ''JPS-STRUCTURE-UNIQUE-ITEMS'' location [''Array items must be unique.'']]
      | _ \<Rightarrow> [])"

definition handled :: "string list \<Rightarrow> ErrorKind \<Rightarrow> bool" where
  "handled location kind =
     (case kind of
        KindConst \<Rightarrow> lastOf location = ''specVersion''
      | KindNot \<Rightarrow> length location \<ge> 2 \<and> location ! (length location - 2) = ''exceptions''
      | KindAllOf \<Rightarrow> length location \<ge> 2 \<and> location ! (length location - 2) = ''exceptions''
      | KindMaxItems \<Rightarrow> False
      | KindOther \<Rightarrow> False
      | _ \<Rightarrow> True)"

fun enumerates :: "ErrorKind \<Rightarrow> bool" where
  "enumerates (KindRequired _) = True"
| "enumerates (KindAdditionalProperties _) = True"
| "enumerates _ = False"

definition add1 :: "Diagnostic \<Rightarrow> diagnosticCollector \<Rightarrow> diagnosticCollector" where
  "add1 d c = snd (addDiagnostic d c)"

definition fullCollector :: "diagnosticCollector \<Rightarrow> bool" where
  "fullCollector c \<longleftrightarrow> length (dcItems c) \<ge> MaxDiagnostics"

function (sequential)
  collectStructural :: "(json \<Rightarrow> string) \<Rightarrow> bool \<Rightarrow> ValidationError \<Rightarrow> diagnosticCollector \<Rightarrow> diagnosticCollector"
where
  "collectStructural sprint core030 (ValidationError location kind causes) c =
     (if fullCollector c then c\<lparr>dcTruncated := True\<rparr>
      else case routeFault core030 location kind of
        Some d \<Rightarrow> add1 d c
      | None \<Rightarrow>
          if kind = KindOneOf then
            (let relevant = filter (\<lambda>cause. \<not> branchRejectedByDiscriminator cause) causes
             in if relevant = []
                then add1 (structuralError ''JPS-STRUCTURE-CONDITION-SHAPE'' location
                       [''Condition does not match one declared shape.'']) c
                else foldl (\<lambda>c1 cause. collectStructural sprint core030 cause c1) c relevant)
          else
            (let (ok, c1) = inOrder (map addDiagnostic (kindDiagnostics sprint location kind)) c
             in if enumerates kind \<and> \<not> ok then c1
                else foldl (\<lambda>c2 cause. collectStructural sprint core030 cause c2)
                       (if \<not> handled location kind \<and> causes = []
                        then add1 (structuralError ''JPS-STRUCTURE-SCHEMA'' location
                               [''Value does not satisfy a structural constraint.'']) c1
                        else c1)
                       causes))"
  by pat_completeness auto
termination
  by (relation "measure (\<lambda>(s, b, e, c). size e)") (auto dest: size_list_member)

text \<open>The whole layer: what the schema finds, then the names of extensions, then exception shapes, and a
  plain failure when the schema refuses and nothing of it was reported.\<close>

definition schemaFailed :: Diagnostic where
  "schemaFailed = ErrorDiagnostic ''JPS-STRUCTURE-SCHEMA'' ''structural'' [] [''Structural validation failed.'']"

definition structuralLayer :: "(json \<Rightarrow> string) \<Rightarrow> bool \<Rightarrow> schemaError option \<Rightarrow> object \<Rightarrow> diagnosticCollector" where
  "structuralLayer sprint core030 schemaErr m =
     (let c1 = (case schemaErr of
                  None \<Rightarrow> newDiagnosticCollector
                | Some (Invalid e) \<Rightarrow> collectStructural sprint core030 e newDiagnosticCollector
                | Some NotAnError \<Rightarrow> add1 schemaFailed newDiagnosticCollector);
          c2 = exceptionShapeDiagnostics m (extensionNameDiagnostics m c1)
      in if schemaErr \<noteq> None \<and> dcItems c2 = [] then add1 schemaFailed c2 else c2)"

subsection \<open>Profile negotiation\<close>

text \<open>\<open>NegotiateProfile\<close>. A nil list of supported profiles is \<open>None\<close>.\<close>

definition profileUnsupported :: "string \<Rightarrow> Diagnostic" where
  "profileUnsupported profile =
     \<lparr>dgCode = ''profile-unsupported'', dgLayer = [], dgSeverity = [], dgInstancePath = [], dgMessage = [],
      dgProfile = profile, dgOverlapAdvice = None\<rparr>"

definition negotiated :: "object \<Rightarrow> string list option \<Rightarrow> Diagnostic option" where
  "negotiated declarations supported =
     (if jget declarations ''specVersion'' \<noteq> JString ''0.3.0'' then None
      else
        let verdict = (\<lambda>profile.
              if profile \<noteq> ''base'' \<or> profile \<notin> set (case supported of None \<Rightarrow> [''base''] | Some ps \<Rightarrow> ps)
              then Some (profileUnsupported profile) else None)
        in if \<not> hasMember declarations ''profile'' then verdict ''base''
           else case asString (jget declarations ''profile'') of
             None \<Rightarrow> Some (ErrorDiagnostic ''JPS-STRUCTURE-TYPE'' ''structural'' ''/profile'' [''Profile must be a string.''])
           | Some profile \<Rightarrow>
               if profile \<notin> {''base'', ''extended''}
               then Some (ErrorDiagnostic ''JPS-STRUCTURE-ENUM'' ''structural'' ''/profile''
                      [''Profile must be base or extended.''])
               else verdict profile)"

definition NegotiateProfile ::
  "string \<Rightarrow> token list \<Rightarrow> Limits \<Rightarrow> string list option \<Rightarrow> carrierFailure + object \<times> Diagnostic option"
where
  "NegotiateProfile data ts limits supported =
     (case ScanRootDeclarations data ts limits of
        Inl f \<Rightarrow> Inl f
      | Inr declarations \<Rightarrow> Inr (declarations, negotiated declarations supported))"

subsection \<open>Validation\<close>

record ValidateOptions =
  voThrough :: string
  voExpectedSpecVersion :: string
  voSupportedExtensions :: "string list"
  voSupportedProfiles :: "string list option"
  voLimits :: Limits
  voFormatOverrides :: "Format list"

record OperationalFailure =
  ofCode :: string
  ofExitCode :: nat

record Extensions =
  xRequired :: "string list"
  xSupported :: "string list"
  xUnsupported :: "string list"

record Validation =
  vlStatus :: string
  vlSpecVersion :: string
  vlThrough :: string
  vlFullConformance :: bool
  vlLayers :: "(string \<times> string) list"
  vlExtensions :: Extensions
  vlDiagnostics :: "Diagnostic list"
  vlTruncated :: bool
  vlArtifact :: "Artifact option"

definition NewValidation :: "string \<Rightarrow> Validation" where
  "NewValidation through =
     \<lparr>vlStatus = [], vlSpecVersion = [], vlThrough = through, vlFullConformance = (through = ''semantic''),
      vlLayers = [], vlExtensions = \<lparr>xRequired = [], xSupported = [], xUnsupported = []\<rparr>,
      vlDiagnostics = [], vlTruncated = False, vlArtifact = None\<rparr>"

definition addLayer :: "string \<Rightarrow> string \<Rightarrow> Validation \<Rightarrow> Validation" where
  "addLayer name status output = output\<lparr>vlLayers := vlLayers output @ [(name, status)]\<rparr>"

definition concluded :: "string \<Rightarrow> Diagnostic list \<Rightarrow> bool \<Rightarrow> Validation \<Rightarrow> Validation" where
  "concluded status diagnostics truncated output =
     output\<lparr>vlStatus := status, vlDiagnostics := diagnostics, vlTruncated := truncated\<rparr>"

definition structuralBootstrapFailure :: "Validation \<Rightarrow> Diagnostic \<Rightarrow> Validation" where
  "structuralBootstrapFailure output d = concluded ''invalid'' [d] False (addLayer ''structural'' ''failed'' output)"

definition bootstrapError :: "string \<Rightarrow> string \<Rightarrow> string \<Rightarrow> Diagnostic" where
  "bootstrapError location code message = ErrorDiagnostic code ''structural'' location [message]"

definition uniqueSorted :: "string list \<Rightarrow> string list" where
  "uniqueSorted vs = sort (uniqueList vs)"

definition difference :: "string list \<Rightarrow> string list \<Rightarrow> string list" where
  "difference required supported = filter (\<lambda>x. x \<notin> set supported) required"

text \<open>The capability layer: one diagnostic for each unsupported entry of the required list.\<close>

definition capabilityReport :: "string list \<Rightarrow> string list \<Rightarrow> Diagnostic list \<times> bool" where
  "capabilityReport required unsupported =
     collected (snd (inOrder (map (\<lambda>(index, extension).
       if extension \<in> set unsupported
       then addDiagnostic (ErrorDiagnostic ''JPS-CAPABILITY-REQUIRED-EXTENSION'' ''capability''
              (''/metadata/requiredExtensions/'' @ natString index)
              [''A required extension capability is not supported.''])
       else (\<lambda>c. (True, c))) (indexed required)) newDiagnosticCollector))"

text \<open>From the semantic layer on.\<close>

definition validateSemantic ::
  "engine \<Rightarrow> ValidateOptions \<Rightarrow> string \<Rightarrow> object \<Rightarrow> Validation \<Rightarrow> Validation"
where
  "validateSemantic E options version m output =
     (let required = requiredExtensions m; supported = uniqueSorted (voSupportedExtensions options);
          unsupported = difference required supported;
          output1 = output\<lparr>vlExtensions := \<lparr>xRequired = required, xSupported = supported, xUnsupported = unsupported\<rparr>\<rparr>;
          (semantic, truncated) = semanticDiagnostics m
      in if semantic \<noteq> []
         then concluded ''invalid'' semantic truncated (addLayer ''semantic'' ''failed'' output1)
         else let output2 = addLayer ''semantic'' ''passed'' output1
              in if unsupported \<noteq> []
                 then (let (ds, t) = capabilityReport required unsupported in concluded ''unsupported'' ds t output2)
                 else if version = CoreVersion
                 then (let (ds, t) = eAdvice E m (voLimits options) in concluded ''valid'' ds t output2)
                 else output2\<lparr>vlStatus := ''valid''\<rparr>)"

text \<open>The compiled schema in force: the bundled one, or the same compiled with format overrides.\<close>

definition selectedSchema :: "engine \<Rightarrow> ValidateOptions \<Rightarrow> string \<Rightarrow> schema option" where
  "selectedSchema E options version =
     (if voFormatOverrides options = [] then Some (eSchemas E version)
      else eCompile E version (voFormatOverrides options))"

definition validateStructure ::
  "engine \<Rightarrow> ValidateOptions \<Rightarrow> string \<Rightarrow> schema \<Rightarrow> object \<Rightarrow> Validation \<Rightarrow> Validation"
where
  "validateStructure E options version schema m output =
     (let schemaErr = schema (JObject m);
          collector = structuralLayer (eSprint E) (version = CoreVersion) schemaErr m;
          (structural, truncated) = collected collector;
          output1 = output\<lparr>vlTruncated := truncated\<rparr>
      in if schemaErr \<noteq> None \<or> structural \<noteq> []
         then concluded ''invalid'' structural truncated (addLayer ''structural'' ''failed'' output1)
         else let output2 = addLayer ''structural'' ''passed'' output1
              in if voThrough options = ''structural'' then output2\<lparr>vlStatus := ''valid''\<rparr>
                 else validateSemantic E options version m output2)"

text \<open>From the version gate on.\<close>

definition validateVersion ::
  "engine \<Rightarrow> ValidateOptions \<Rightarrow> object \<Rightarrow> Validation \<Rightarrow> Validation \<times> OperationalFailure option"
where
  "validateVersion E options m output =
     (if \<not> hasMember m ''specVersion''
      then (structuralBootstrapFailure output
              (bootstrapError ''/specVersion'' ''JPS-STRUCTURE-REQUIRED-MEMBER'' ''Required member is missing.''), None)
      else case asString (jget m ''specVersion'') of
        None \<Rightarrow> (structuralBootstrapFailure output
              (bootstrapError ''/specVersion'' ''JPS-STRUCTURE-TYPE'' ''Specification version must be a string.''), None)
      | Some documentVersion \<Rightarrow>
          let output1 = output\<lparr>vlSpecVersion := documentVersion\<rparr>;
              version = (if voExpectedSpecVersion options \<noteq> [] then voExpectedSpecVersion options else documentVersion)
          in case eSets E version of
               None \<Rightarrow> (concluded ''unsupported''
                   [ErrorDiagnostic ''JPS-CAPABILITY-SPEC-VERSION'' ''capability'' ''/specVersion''
                      [''The exact JPS specification version is not bundled with this CLI.'']] False output1, None)
             | Some artifact \<Rightarrow>
                 let output2 = output1\<lparr>vlArtifact := Some (artifact\<lparr>arSpecVersion := version\<rparr>)\<rparr>
                 in case selectedSchema E options version of
                      None \<Rightarrow> (output2, Some \<lparr>ofCode = ''JPS-SCHEMA-FORMAT-OVERRIDE'', ofExitCode = 4\<rparr>)
                    | Some schema \<Rightarrow> (validateStructure E options version schema m output2, None))"

text \<open>The decode and what follows it.\<close>

fun carrierError :: "carrierFailure \<Rightarrow> Diagnostic" where
  "carrierError (CarrierFailure d) =
     ErrorDiagnostic (cdCode d) (if cdResource d then ''operation'' else ''carrier'') (cdLocation d) []"
| "carrierError OutOfFuel = ErrorDiagnostic [] [] [] []"

fun carrierResource :: "carrierFailure \<Rightarrow> bool" where
  "carrierResource (CarrierFailure d) = cdResource d"
| "carrierResource OutOfFuel = False"

definition validateDecoded ::
  "engine \<Rightarrow> string \<Rightarrow> ValidateOptions \<Rightarrow> Validation \<Rightarrow> Validation \<times> OperationalFailure option"
where
  "validateDecoded E data options output =
     (case Decode data (eTokens E data) (voLimits options) of
        Inl f \<Rightarrow>
          if carrierResource f then (output, Some \<lparr>ofCode = dgCode (carrierError f), ofExitCode = 4\<rparr>)
          else (concluded ''invalid'' [carrierError f] False (output\<lparr>vlLayers := [(''carrier'', ''failed'')]\<rparr>), None)
      | Inr v \<Rightarrow>
          let output1 = addLayer ''carrier'' ''passed'' output
          in if voThrough options = ''carrier'' then (output1\<lparr>vlStatus := ''valid''\<rparr>, None)
             else case asObject v of
               None \<Rightarrow> (structuralBootstrapFailure output1
                   (bootstrapError [] ''JPS-STRUCTURE-TYPE'' ''The document root must be an object.''), None)
             | Some m \<Rightarrow> validateVersion E options m output1)"

definition defaulted :: "ValidateOptions \<Rightarrow> ValidateOptions" where
  "defaulted options =
     (let o1 = (if voThrough options = [] then options\<lparr>voThrough := ''semantic''\<rparr> else options)
      in if MaxDepth (voLimits o1) = 0 then o1\<lparr>voLimits := DefaultLimits\<rparr> else o1)"

definition Validate :: "engine \<Rightarrow> string \<Rightarrow> ValidateOptions \<Rightarrow> Validation \<times> OperationalFailure option" where
  "Validate E data given =
     (let options = defaulted given; output = NewValidation (voThrough options);
          gate = (if voThrough options = ''carrier'' then None
                  else case NegotiateProfile data (eTokens E data) (voLimits options) (voSupportedProfiles options) of
                    Inr (declarations, Some d) \<Rightarrow> Some d
                  | _ \<Rightarrow> None)
      in case gate of
           Some d \<Rightarrow>
             (let output1 = addLayer ''carrier'' ''passed'' (output\<lparr>vlSpecVersion := ''0.3.0''\<rparr>)
              in (if dgCode d = ''profile-unsupported'' then concluded ''unsupported'' [d] False output1
                  else structuralBootstrapFailure output1
                         (ErrorDiagnostic (dgCode d) ''structural'' (dgInstancePath d) (dgMessage d)), None))
         | None \<Rightarrow> validateDecoded E data options output)"

subsection \<open>Structural checks as lists\<close>

definition slotViolations :: "object \<Rightarrow> string list \<Rightarrow> Diagnostic list" where
  "slotViolations x location =
     (case jget x ''extensions'' of
        JObject extensions \<Rightarrow> concat (map (\<lambda>name.
          if \<not> validExtensionName name
          then [badExtensionName (Semantic.appendLocation location [''extensions'', name])] else []) (sort (map fst extensions)))
      | _ \<Rightarrow> [])"

definition nameViolations :: "object \<Rightarrow> Diagnostic list" where
  "nameViolations m = concat
     [slotViolations m [],
      concat (map (\<lambda>k. case jget m k of JObject x \<Rightarrow> slotViolations x [k] | _ \<Rightarrow> []) slotSingletons),
      concat (map (\<lambda>k. concat (map (\<lambda>(i, x). slotViolations x [k, natString i]) (indexedObjects (jget m k))))
        slotCollections),
      (case jget m ''metadata'' of
         JObject metadata \<Rightarrow> concat (map (\<lambda>(i, v).
           case asString v of
             Some name \<Rightarrow> if \<not> validExtensionName name
               then [badExtensionName [''metadata'', ''requiredExtensions'', natString i]] else []
           | None \<Rightarrow> []) (indexed (asArray (jget metadata ''requiredExtensions''))))
       | _ \<Rightarrow> [])]"

definition shapeViolations :: "nat \<Rightarrow> object \<Rightarrow> Diagnostic list" where
  "shapeViolations i exception =
     (case asString (jget exception ''effect'') of
        None \<Rightarrow> []
      | Some effect \<Rightarrow>
          (case effectOperands effect of
             None \<Rightarrow> []
           | Some (required, forbidden) \<Rightarrow>
               concat (map (\<lambda>k. if \<not> hasMember exception k
                 then [shapeError i k [effect, '' effect requires '', k]] else []) required)
               @ concat (map (\<lambda>k. if hasMember exception k
                 then [shapeError i k [effect, '' effect does not allow '', k]] else []) forbidden)))"

lemma emits_slot: "emits (collectExtensionSlotDiagnostics x location) (slotViolations x location)"
  unfolding collectExtensionSlotDiagnostics_def slotViolations_def
  by (cases "jget x ''extensions''") (auto intro!: emits_inOrder_map emits_add emits_nothing)

lemma emits_cases:
  "(\<And>x. emits (f x) (g x)) \<Longrightarrow>
   emits (case v of JObject x \<Rightarrow> f x | _ \<Rightarrow> (\<lambda>c. (True, c))) (case v of JObject x \<Rightarrow> g x | _ \<Rightarrow> [])"
  by (cases v) (simp_all add: emits_nothing)

lemma emits_indexed_map:
  "(\<And>i x. emits (f i x) (g i x)) \<Longrightarrow> emits (inOrder (map (\<lambda>(i, x). f i x) ys)) (concat (map (\<lambda>(i, x). g i x) ys))"
  by (rule emits_inOrder_map) auto

lemma emits_names: "emits (inOrder (extensionNameSteps m)) (nameViolations m)"
  unfolding nameViolations_def
proof (rule emits_inOrder)
  have one: "emits (inOrder (map (\<lambda>k. case jget m k of JObject x \<Rightarrow> collectExtensionSlotDiagnostics x [k] | _ \<Rightarrow> (\<lambda>c. (True, c))) ks))
      (concat (map (\<lambda>k. case jget m k of JObject x \<Rightarrow> slotViolations x [k] | _ \<Rightarrow> []) ks))" for ks
    by (rule emits_inOrder_map) (rule emits_cases, rule emits_slot)
  have many: "emits (inOrder (map (\<lambda>k. inOrder (map (\<lambda>(i, x). collectExtensionSlotDiagnostics x [k, natString i])
        (indexedObjects (jget m k)))) ks))
      (concat (map (\<lambda>k. concat (map (\<lambda>(i, x). slotViolations x [k, natString i]) (indexedObjects (jget m k)))) ks))" for ks
    by (rule emits_inOrder_map) (rule emits_indexed_map, rule emits_slot)
  show "list_all2 emits (extensionNameSteps m)
     [slotViolations m [],
      concat (map (\<lambda>k. case jget m k of JObject x \<Rightarrow> slotViolations x [k] | _ \<Rightarrow> []) slotSingletons),
      concat (map (\<lambda>k. concat (map (\<lambda>(i, x). slotViolations x [k, natString i]) (indexedObjects (jget m k))))
        slotCollections),
      (case jget m ''metadata'' of
         JObject metadata \<Rightarrow> concat (map (\<lambda>(i, v).
           case asString v of
             Some name \<Rightarrow> if \<not> validExtensionName name
               then [badExtensionName [''metadata'', ''requiredExtensions'', natString i]] else []
           | None \<Rightarrow> []) (indexed (asArray (jget metadata ''requiredExtensions''))))
       | _ \<Rightarrow> [])]"
    unfolding extensionNameSteps_def list.rel_inject(2) list.rel_inject(1)
    by (intro conjI emits_slot one many emits_cases emits_indexed_map list.rel_intros)
       (auto simp: emits split: option.split)
qed

lemma emits_two: "emits s ds \<Longrightarrow> emits t es \<Longrightarrow> emits (inOrder [s, t]) (ds @ es)"
  using emits_inOrder[of "[s, t]" "[ds, es]"] by simp

lemma emits_shape: "emits (exceptionShape i exception) (shapeViolations i exception)"
proof -
  have loop: "emits (inOrder (map (\<lambda>k. if P k then addDiagnostic (d k) else (\<lambda>c. (True, c))) ks))
      (concat (map (\<lambda>k. if P k then [d k] else []) ks))" for P d and ks :: "string list"
    by (rule emits_inOrder_map) (simp add: emits)
  show ?thesis unfolding exceptionShape_def shapeViolations_def
    by (auto simp: emits_nothing intro!: emits_two loop split: option.split)
qed

subsection \<open>When they find nothing\<close>

definition namesValid :: "object \<Rightarrow> bool" where
  "namesValid m \<longleftrightarrow> (\<forall>name \<in> set (coreExtensionNames m) \<union> set (requiredExtensions m). validExtensionName name)"

definition exceptionShaped :: "object \<Rightarrow> bool" where
  "exceptionShaped x \<longleftrightarrow>
     (\<forall>effect required forbidden. jget x ''effect'' = JString effect \<longrightarrow>
        effectOperands effect = Some (required, forbidden) \<longrightarrow>
        (\<forall>k \<in> set required. hasMember x k) \<and> (\<forall>k \<in> set forbidden. \<not> hasMember x k))"

definition shapesValid :: "object \<Rightarrow> bool" where
  "shapesValid m \<longleftrightarrow> (\<forall>x \<in> set (objectList (jget m ''exceptions'')). exceptionShaped x)"

lemma slotViolations_empty: "slotViolations x l = [] \<longleftrightarrow> (\<forall>n \<in> set (collectExtensionSlot x). validExtensionName n)"
  by (auto simp: slotViolations_def collectExtensionSlot_def split: json.split)

lemma indexedObjects_all: "(\<forall>(i, x) \<in> set (indexedObjects v). P x) \<longleftrightarrow> (\<forall>x \<in> set (objectList v). P x)"
proof -
  have "(\<forall>x \<in> set (map snd (indexedObjects v)). P x) \<longleftrightarrow> (\<forall>p \<in> set (indexedObjects v). P (snd p))" by simp
  then show ?thesis by (simp add: map_filter_indexed case_prod_unfold)
qed

lemma nameViolations_empty: "nameViolations m = [] \<longleftrightarrow> namesValid m"
proof -
  have required: "(case jget m ''metadata'' of
         JObject metadata \<Rightarrow> concat (map (\<lambda>(i, v).
           case asString v of
             Some name \<Rightarrow> if \<not> validExtensionName name then [b i] else []
           | None \<Rightarrow> []) (indexed (asArray (jget metadata ''requiredExtensions''))))
       | _ \<Rightarrow> []) = [] \<longleftrightarrow> (\<forall>n \<in> set (requiredExtensions m). validExtensionName n)" for b :: "nat \<Rightarrow> Diagnostic"
  proof (cases "jget m ''metadata''")
    case (JObject metadata)
    have "((case asString v of Some name \<Rightarrow> if \<not> validExtensionName name then [b i] else [] | None \<Rightarrow> []) = [])
        \<longleftrightarrow> (\<forall>n. asString v = Some n \<longrightarrow> validExtensionName n)" for i v
      by (cases "asString v") auto
    then have "(concat (map (\<lambda>(i, v). case asString v of
           Some name \<Rightarrow> if \<not> validExtensionName name then [b i] else [] | None \<Rightarrow> []) (indexed xs)) = [])
        \<longleftrightarrow> (\<forall>v \<in> set xs. \<forall>n. asString v = Some n \<longrightarrow> validExtensionName n)" for xs
      by (simp only: indexed_empty indexed_all)
    then show ?thesis
      using JObject by (auto simp: requiredExtensions_def stringList_def List.map_filter_def simp del: asString_Some)
  qed (simp_all add: requiredExtensions_def)
  have many: "(concat (map (\<lambda>k. concat (map (\<lambda>(i, x). slotViolations x [k, natString i]) (indexedObjects (jget m k)))) ks) = [])
      \<longleftrightarrow> (\<forall>k \<in> set ks. \<forall>x \<in> set (objectList (jget m k)). \<forall>n \<in> set (collectExtensionSlot x). validExtensionName n)" for ks
  proof -
    have "(concat (map (\<lambda>(i, x). slotViolations x [k, natString i]) xs) = []) \<longleftrightarrow>
        (\<forall>(i, x) \<in> set xs. \<forall>n \<in> set (collectExtensionSlot x). validExtensionName n)" for k xs
      by (auto simp: slotViolations_empty)
    then show ?thesis by (simp add: indexedObjects_all)
  qed
  have single: "((case jget m k of JObject x \<Rightarrow> slotViolations x [k] | _ \<Rightarrow> []) = []) \<longleftrightarrow>
      (\<forall>n \<in> set (case jget m k of JObject x \<Rightarrow> collectExtensionSlot x | _ \<Rightarrow> []). validExtensionName n)" for k
    by (cases "jget m k") (simp_all add: slotViolations_empty)
  have singles: "(concat (map (\<lambda>k. case jget m k of JObject x \<Rightarrow> slotViolations x [k] | _ \<Rightarrow> []) ks) = []) \<longleftrightarrow>
      (\<forall>k \<in> set ks. \<forall>n \<in> set (case jget m k of JObject x \<Rightarrow> collectExtensionSlot x | _ \<Rightarrow> []). validExtensionName n)" for ks
    by (auto simp: single)
  show ?thesis
    unfolding nameViolations_def concat.simps append_Nil2 append_is_Nil_conv required many singles slotViolations_empty
      namesValid_def coreExtensionNames_def
    by (auto simp del: asObject_Some)
qed

lemma concat_if_empty: "(concat (map (\<lambda>k. if P k then [d k] else []) ks) = []) \<longleftrightarrow> (\<forall>k \<in> set ks. \<not> P k)"
  by (induction ks) auto

lemma shapeViolations_empty: "shapeViolations i x = [] \<longleftrightarrow> exceptionShaped x"
proof (cases "asString (jget x ''effect'')")
  case None
  then have "jget x ''effect'' \<noteq> JString s" for s by auto
  with None show ?thesis by (simp add: shapeViolations_def exceptionShaped_def)
next
  case (Some effect)
  then have effect: "jget x ''effect'' = JString effect" by simp
  show ?thesis
  proof (cases "effectOperands effect")
    case None
    with effect show ?thesis by (simp add: shapeViolations_def exceptionShaped_def)
  next
    case (Some operands)
    obtain required forbidden where "operands = (required, forbidden)" by (cases operands)
    with effect Some show ?thesis
      by (simp add: shapeViolations_def exceptionShaped_def concat_if_empty del: concat_eq_Nil_conv)
  qed
qed

subsection \<open>The collector through the structural layer\<close>

text \<open>At most a hundred items, and the keys seen are those of the items; a step grows it.\<close>

definition coherentCollector :: "diagnosticCollector \<Rightarrow> bool" where
  "coherentCollector c \<longleftrightarrow>
     length (dcItems c) \<le> MaxDiagnostics \<and> set (dcSeen c) = diagnosticKeyOf ` set (dcItems c)"

definition grows :: "diagnosticCollector \<Rightarrow> diagnosticCollector \<Rightarrow> bool" where
  "grows c c' \<longleftrightarrow> (coherentCollector c \<longrightarrow> coherentCollector c' \<and> (dcItems c \<noteq> [] \<longrightarrow> dcItems c' \<noteq> []))"

lemma grows_refl [simp]: "grows c c"
  by (simp add: grows_def)

lemma grows_trans: "grows a b \<Longrightarrow> grows b c \<Longrightarrow> grows a c"
  by (simp add: grows_def)

lemma grows_truncated: "grows c (c\<lparr>dcTruncated := t\<rparr>)"
  by (simp add: grows_def coherentCollector_def)

lemma coherent_new: "coherentCollector newDiagnosticCollector"
  by (simp add: coherentCollector_def newDiagnosticCollector_def)

lemma add_items: "coherentCollector c \<Longrightarrow> coherentCollector (snd (addDiagnostic d c)) \<and> dcItems (snd (addDiagnostic d c)) \<noteq> []"
  by (auto simp: addDiagnostic_def coherentCollector_def MaxDiagnostics_def)

lemma grows_add1: "grows c (add1 d c)"
  using add_items[of c d] by (simp add: grows_def add1_def)

lemma grows_add: "grows c (snd (addDiagnostic d c))"
  using grows_add1[of c d] by (simp add: add1_def)

lemma addAll_grows: "grows c (snd (addAll ds c))"
proof (induction ds arbitrary: c)
  case (Cons d ds)
  then show ?case using grows_add[of c d]
    by (auto split: prod.split elim: grows_trans)
qed simp

lemma addAll_nonempty: "coherentCollector c \<Longrightarrow> ds \<noteq> [] \<Longrightarrow> dcItems (snd (addAll ds c)) \<noteq> []"
proof (cases ds)
  case (Cons d ds')
  assume c: "coherentCollector c"
  obtain ok c1 where "addDiagnostic d c = (ok, c1)" by (cases "addDiagnostic d c")
  with Cons add_items[OF c, of d] addAll_grows[of c1 ds'] show ?thesis by (auto simp: grows_def)
qed simp

lemma foldl_grows: "(\<And>x c. x \<in> set xs \<Longrightarrow> grows c (f c x)) \<Longrightarrow> grows c (foldl f c xs)"
  by (induction xs arbitrary: c) (auto intro: grows_trans)

lemma collectStructural_grows: "grows c (collectStructural sprint core030 e c)"
proof (induction sprint core030 e c rule: collectStructural.induct)
  case (1 sprint core030 location kind causes c)
  show ?case
  proof (cases "fullCollector c \<or> routeFault core030 location kind \<noteq> None")
    case True
    then show ?thesis by (auto simp: grows_truncated grows_add1)
  next
    case False
    then have open': "\<not> fullCollector c" "routeFault core030 location kind = None" by auto
    show ?thesis
    proof (cases "kind = KindOneOf")
      case True
      have "grows c (foldl (\<lambda>c1 cause. collectStructural sprint core030 cause c1) c
          (filter (\<lambda>cause. \<not> branchRejectedByDiscriminator cause) causes))"
        if "filter (\<lambda>cause. \<not> branchRejectedByDiscriminator cause) causes \<noteq> []"
        by (rule foldl_grows) (use 1(1)[OF open' True refl that] in auto)
      then show ?thesis using open' True by (simp add: Let_def grows_add1)
    next
      case other: False
      obtain ok c1 where c1: "inOrder (map addDiagnostic (kindDiagnostics sprint location kind)) c = (ok, c1)"
        by (cases "inOrder (map addDiagnostic (kindDiagnostics sprint location kind)) c")
      have first: "grows c c1" using addAll_grows[of c "kindDiagnostics sprint location kind"] c1 by simp
      have "grows c (foldl (\<lambda>c2 cause. collectStructural sprint core030 cause c2)
          (if \<not> handled location kind \<and> causes = [] then add1 d c1 else c1) causes)"
        if "\<not> (enumerates kind \<and> \<not> ok)" for d
        by (rule grows_trans[OF first], rule grows_trans[rotated], rule foldl_grows)
           (use 1(2)[OF open' other refl c1[symmetric] that] in \<open>auto simp: grows_add1\<close>)
      then show ?thesis using open' other c1 first by auto
    qed
  qed
qed

lemma structuralLayer_exact:
  "coherentCollector (structuralLayer sprint core030 schemaErr m)
   \<and> (dcItems (structuralLayer sprint core030 schemaErr m) = [] \<longleftrightarrow>
        schemaErr = None \<and> namesValid m \<and> shapesValid m)"
proof -
  define c1 where "c1 = (case schemaErr of
                  None \<Rightarrow> newDiagnosticCollector
                | Some (Invalid e) \<Rightarrow> collectStructural sprint core030 e newDiagnosticCollector
                | Some NotAnError \<Rightarrow> add1 schemaFailed newDiagnosticCollector)"
  define shapes where "shapes = concat (map (\<lambda>(i, x). shapeViolations i x) (indexedObjects (jget m ''exceptions'')))"
  define c2 where "c2 = extensionNameDiagnostics m c1"
  define c3 where "c3 = exceptionShapeDiagnostics m c2"
  have c2: "c2 = snd (addAll (nameViolations m) c1)"
    using emits_names[of m] by (simp add: c2_def extensionNameDiagnostics_def emits_def)
  have c3: "c3 = snd (addAll shapes c2)"
    using emits_indexed_map[of exceptionShape shapeViolations, OF emits_shape]
    by (simp add: c3_def exceptionShapeDiagnostics_def emits_def shapes_def)
  have "grows newDiagnosticCollector c1"
    by (auto simp: c1_def collectStructural_grows grows_add1 split: option.split schemaError.split)
  then have ok1: "coherentCollector c1" using coherent_new by (simp add: grows_def)
  then have ok2: "coherentCollector c2" using addAll_grows[of c1 "nameViolations m"] c2 by (simp add: grows_def)
  then have ok3: "coherentCollector c3" using addAll_grows[of c2 shapes] c3 by (simp add: grows_def)
  have result: "structuralLayer sprint core030 schemaErr m =
      (if schemaErr \<noteq> None \<and> dcItems c3 = [] then add1 schemaFailed c3 else c3)"
    unfolding structuralLayer_def c3_def c2_def c1_def by (simp add: Let_def)
  have shapes: "shapes = [] \<longleftrightarrow> shapesValid m"
    using indexedObjects_all[of "jget m ''exceptions''" exceptionShaped]
    by (auto simp: shapes_def shapesValid_def shapeViolations_empty)
  have fresh: "schemaErr = None \<Longrightarrow> dcItems c1 = []" by (simp add: c1_def newDiagnosticCollector_def)
  have "schemaErr = None \<Longrightarrow> dcItems c3 = [] \<longleftrightarrow> namesValid m \<and> shapesValid m"
  proof -
    assume "schemaErr = None"
    note c1 = fresh[OF this]
    show ?thesis
    proof (cases "nameViolations m = []")
      case True
      then have "c2 = c1" by (simp add: c2)
      with c1 addAll_nonempty[OF ok2, of shapes] True c3 shapes nameViolations_empty[of m] show ?thesis by auto
    next
      case False
      then have "dcItems c2 \<noteq> []" using addAll_nonempty[OF ok1] c2 by simp
      then have "dcItems c3 \<noteq> []" using addAll_grows[of c2 shapes] ok2 c3 by (simp add: grows_def)
      with False nameViolations_empty[of m] show ?thesis by auto
    qed
  qed
  with result ok3 add_items[OF ok3, of schemaFailed] show ?thesis by (auto simp: add1_def)
qed

subsection \<open>What validation accepts\<close>

definition versionAccepted :: "engine \<Rightarrow> ValidateOptions \<Rightarrow> object \<Rightarrow> bool" where
  "versionAccepted E options m \<longleftrightarrow>
     (\<exists>declared version schema. jget m ''specVersion'' = JString declared
        \<and> version = (if voExpectedSpecVersion options \<noteq> [] then voExpectedSpecVersion options else declared)
        \<and> eSets E version \<noteq> None \<and> selectedSchema E options version = Some schema \<and> schema (JObject m) = None)"

definition acceptedPack :: "engine \<Rightarrow> ValidateOptions \<Rightarrow> object \<Rightarrow> bool" where
  "acceptedPack E options m \<longleftrightarrow>
     negotiated m (voSupportedProfiles options) = None \<and> versionAccepted E options m
     \<and> namesValid m \<and> shapesValid m
     \<and> (voThrough options = ''structural''
        \<or> conformant m \<and> set (requiredExtensions m) \<subseteq> set (voSupportedExtensions options))"

definition acceptedDocument :: "engine \<Rightarrow> ValidateOptions \<Rightarrow> json \<Rightarrow> bool" where
  "acceptedDocument E options v \<longleftrightarrow>
     voThrough options = ''carrier'' \<or> (\<exists>m. v = JObject m \<and> acceptedPack E options m)"

lemma jget_pruned: "jget (prunedMembers 1 m) k = (if retained True 1 k then prune 1 (jget m k) else JNull)"
  by (induction m) auto

lemma hasMember_pruned: "hasMember (prunedMembers 1 m) k \<longleftrightarrow> retained True 1 k \<and> hasMember m k"
  by (induction m) auto

lemma prune_string: "prune d v = JString s \<longleftrightarrow> v = JString s" "asString (prune d v) = asString v"
  by (cases v; simp)+

lemma negotiated_prune: "negotiated (objectOrNil (prune 0 v)) ps = negotiated (objectOrNil v) ps"
proof (cases v)
  case (JObject m)
  have "retained True 1 ''specVersion''" "retained True 1 ''profile''" by (simp_all add: retained_def)
  then show ?thesis using JObject jget_pruned[of m] hasMember_pruned[of m]
    by (simp add: negotiated_def prune_string del: asString_Some)
qed (simp_all add: objectOrNil_def)

definition gateOf :: "engine \<Rightarrow> string \<Rightarrow> ValidateOptions \<Rightarrow> Diagnostic option" where
  "gateOf E data options =
     (if voThrough options = ''carrier'' then None
      else case Decode data (eTokens E data) (voLimits options) of
        Inr v \<Rightarrow> negotiated (objectOrNil v) (voSupportedProfiles options) | Inl f \<Rightarrow> None)"

lemma gate_decoded:
  "(if voThrough options = ''carrier'' then None
    else case NegotiateProfile data (eTokens E data) (voLimits options) (voSupportedProfiles options) of
      Inr (declarations, Some d) \<Rightarrow> Some d | _ \<Rightarrow> None) = gateOf E data options"
  by (cases "Decode data (eTokens E data) (voLimits options)")
     (auto simp: gateOf_def NegotiateProfile_def ScanRootDeclarations_prune negotiated_prune split: option.split)

lemmas Validate_gate = Validate_def[unfolded Let_def gate_decoded]

lemma concluded_fields [simp]:
  "vlStatus (concluded s ds t out) = s" "vlDiagnostics (concluded s ds t out) = ds"
  "vlLayers (concluded s ds t out) = vlLayers out" "vlTruncated (concluded s ds t out) = t"
  by (simp_all add: concluded_def)

lemma addLayer_fields [simp]:
  "vlStatus (addLayer n s out) = vlStatus out" "vlDiagnostics (addLayer n s out) = vlDiagnostics out"
  "vlLayers (addLayer n s out) = vlLayers out @ [(n, s)]"
  by (simp_all add: addLayer_def)

lemma bootstrap_fields [simp]:
  "vlStatus (structuralBootstrapFailure out d) = ''invalid''"
  "vlDiagnostics (structuralBootstrapFailure out d) = [d]"
  "vlLayers (structuralBootstrapFailure out d) = vlLayers out @ [(''structural'', ''failed'')]"
  by (simp_all add: structuralBootstrapFailure_def)

lemma semantic_none: "fst (semanticDiagnostics m) = [] \<longleftrightarrow> conformant m"
  unfolding semanticDiagnostics_report report_empty violations_empty ..

lemma difference_none: "difference required (uniqueSorted supported) = [] \<longleftrightarrow> set required \<subseteq> set supported"
  by (auto simp: difference_def uniqueSorted_def filter_empty_conv)

lemma collected_items: "fst (collected c) = [] \<longleftrightarrow> dcItems c = []"
  by (simp add: collected_def sortedDiagnostics_def flip: length_0_conv)

lemma validateSemantic_valid:
  "vlStatus out = [] \<Longrightarrow> vlStatus (validateSemantic E options version m out) = ''valid'' \<longleftrightarrow>
   conformant m \<and> set (requiredExtensions m) \<subseteq> set (voSupportedExtensions options)"
  using semantic_none[of m]
  by (cases "semanticDiagnostics m")
     (auto simp: validateSemantic_def Let_def difference_none split: prod.split)

lemma validateStructure_valid:
  "vlStatus out = [] \<Longrightarrow> vlStatus (validateStructure E options version schema m out) = ''valid'' \<longleftrightarrow>
   schema (JObject m) = None \<and> namesValid m \<and> shapesValid m
   \<and> (voThrough options = ''structural'' \<or> conformant m \<and> set (requiredExtensions m) \<subseteq> set (voSupportedExtensions options))"
  using structuralLayer_exact[of "eSprint E" "version = CoreVersion" "schema (JObject m)" m]
    collected_items[of "structuralLayer (eSprint E) (version = CoreVersion) (schema (JObject m)) m"]
  by (auto simp: validateStructure_def Let_def validateSemantic_valid split: prod.split)

lemma validateVersion_valid:
  assumes "vlStatus out = []"
  shows "vlStatus (fst (validateVersion E options m out)) = ''valid'' \<longleftrightarrow>
    versionAccepted E options m \<and> namesValid m \<and> shapesValid m
    \<and> (voThrough options = ''structural'' \<or> conformant m \<and> set (requiredExtensions m) \<subseteq> set (voSupportedExtensions options))"
proof (cases "asString (jget m ''specVersion'')")
  case None
  then have "\<not> versionAccepted E options m" by (auto simp: versionAccepted_def)
  with None show ?thesis by (simp add: validateVersion_def)
next
  case (Some declared)
  then have declared: "jget m ''specVersion'' = JString declared" by simp
  then have member: "hasMember m ''specVersion''" using jget_absent[of m "''specVersion''"] by auto
  define version where
    "version = (if voExpectedSpecVersion options \<noteq> [] then voExpectedSpecVersion options else declared)"
  have accepted: "versionAccepted E options m \<longleftrightarrow> eSets E version \<noteq> None \<and>
      (\<exists>schema. selectedSchema E options version = Some schema \<and> schema (JObject m) = None)"
    unfolding versionAccepted_def declared version_def by auto
  show ?thesis
    unfolding accepted validateVersion_def Let_def version_def[symmetric] using assms member declared
    by (cases "eSets E version"; cases "selectedSchema E options version")
       (auto simp: validateStructure_valid version_def[symmetric])
qed

lemma Validate_status:
  "vlStatus (fst (Validate E data given)) = ''valid'' \<longleftrightarrow>
   (\<exists>v. Decode data (eTokens E data) (voLimits (defaulted given)) = Inr v \<and> acceptedDocument E (defaulted given) v)"
proof (cases "Decode data (eTokens E data) (voLimits (defaulted given))")
  case (Inl f)
  then show ?thesis
    by (simp add: Validate_gate gateOf_def validateDecoded_def NewValidation_def)
next
  case (Inr v)
  show ?thesis
  proof (cases v)
    case (JObject m)
    with Inr show ?thesis
      by (auto simp: Validate_gate gateOf_def validateDecoded_def acceptedDocument_def acceptedPack_def
          validateVersion_valid NewValidation_def addLayer_def split: option.splits)
  qed (use Inr in \<open>auto simp: Validate_gate gateOf_def validateDecoded_def acceptedDocument_def NewValidation_def
      negotiated_def split: option.splits\<close>)
qed

subsection \<open>How the result is reported\<close>

definition layerNames :: "string list" where
  "layerNames = [''carrier'', ''structural'', ''semantic'']"

definition allPassed :: "(string \<times> string) list \<Rightarrow> bool" where
  "allPassed layers \<longleftrightarrow> list_all (\<lambda>l. snd l = ''passed'') layers"

definition diagnosed :: "Diagnostic list \<Rightarrow> bool" where
  "diagnosed ds \<longleftrightarrow> 0 < length ds \<and> length ds \<le> MaxDiagnostics"

text \<open>The layers run are the first ones, in order; a valid or unsupported document has passed them all,
  an invalid one failed the last; and what is not valid says why, within the bound.\<close>

definition wellReported :: "Validation \<Rightarrow> bool" where
  "wellReported out \<longleftrightarrow>
     map fst (vlLayers out) = take (length (vlLayers out)) layerNames
     \<and> (vlStatus out = ''valid'' \<and> allPassed (vlLayers out)
        \<or> vlStatus out = ''unsupported'' \<and> allPassed (vlLayers out) \<and> diagnosed (vlDiagnostics out)
        \<or> vlStatus out = ''invalid'' \<and> vlLayers out \<noteq> [] \<and> allPassed (butlast (vlLayers out))
          \<and> snd (last (vlLayers out)) = ''failed'' \<and> diagnosed (vlDiagnostics out))"

lemmas report_simps = wellReported_def layerNames_def allPassed_def

lemma report_bound: "length (fst (report ds)) \<le> MaxDiagnostics"
  by (simp add: report_def sortedDiagnostics_def)

lemma diagnosed_report: "ds \<noteq> [] \<Longrightarrow> diagnosed (fst (report ds))"
  using report_bound[of ds] report_empty[of ds] by (simp add: diagnosed_def)

lemma diagnosed_one: "diagnosed [d]"
  by (simp add: diagnosed_def MaxDiagnostics_def)

lemma diagnosed_semantic: "fst (semanticDiagnostics m) \<noteq> [] \<Longrightarrow> diagnosed (fst (semanticDiagnostics m))"
  unfolding semanticDiagnostics_report by (rule diagnosed_report) (simp add: report_empty)

lemma diagnosed_collected: "coherentCollector c \<Longrightarrow> dcItems c \<noteq> [] \<Longrightarrow> diagnosed (fst (collected c))"
  by (simp add: diagnosed_def collected_def sortedDiagnostics_def coherentCollector_def)

lemma diagnosed_capability:
  assumes "difference required supported \<noteq> []"
  shows "diagnosed (fst (capabilityReport required (difference required supported)))"
proof -
  define d where "d i = ErrorDiagnostic ''JPS-CAPABILITY-REQUIRED-EXTENSION'' ''capability''
    (''/metadata/requiredExtensions/'' @ natString i) [''A required extension capability is not supported.'']" for i
  define U where "U = difference required supported"
  let ?s = "\<lambda>(i, x). if x \<in> set U then addDiagnostic (d i) else (\<lambda>c. (True, c))"
  let ?l = "\<lambda>(i, x). if x \<in> set U then [d i] else []"
  have "emits (inOrder (map ?s (indexed required))) (concat (map ?l (indexed required)))"
    by (rule emits_indexed_map) (simp add: emits)
  then have "capabilityReport required U = report (concat (map ?l (indexed required)))"
    unfolding capabilityReport_def d_def[symmetric] by (rule emits_collected)
  moreover have "concat (map ?l (indexed required)) \<noteq> []"
  proof -
    obtain x where x: "x \<in> set required" "x \<in> set U"
      using assms by (auto simp: U_def difference_def filter_empty_conv)
    then obtain i where "(i, x) \<in> set (indexed required)" using indexed_set by fast
    with x show ?thesis by (auto intro!: bexI[of _ "(i, x)"])
  qed
  ultimately show ?thesis using diagnosed_report by (simp add: U_def)
qed

lemma validateSemantic_reports:
  assumes "vlLayers out = [(''carrier'', ''passed''), (''structural'', ''passed'')]"
  shows "wellReported (validateSemantic E options version m out)"
  using assms diagnosed_semantic[of m]
    diagnosed_capability[of "requiredExtensions m" "uniqueSorted (voSupportedExtensions options)"]
  by (auto simp: validateSemantic_def Let_def report_simps split: prod.split)

lemma report_passed:
  "vlLayers out = [] \<or> vlLayers out = [(''carrier'', ''passed'')]
     \<or> vlLayers out = [(''carrier'', ''passed''), (''structural'', ''passed'')] \<Longrightarrow>
   wellReported (out\<lparr>vlStatus := ''valid''\<rparr>)
   \<and> (diagnosed ds \<longrightarrow> wellReported (concluded ''unsupported'' ds t out))"
  by (auto simp: report_simps)

lemma report_failed:
  "vlLayers out = [(''carrier'', ''passed'')] \<Longrightarrow> diagnosed ds \<Longrightarrow>
   wellReported (concluded ''invalid'' ds t (addLayer ''structural'' ''failed'' out))"
  by (simp add: report_simps)

lemma report_bootstrap:
  "vlLayers out = [(''carrier'', ''passed'')] \<Longrightarrow> wellReported (structuralBootstrapFailure out d)"
  by (simp add: report_simps diagnosed_one)

lemma validateStructure_reports:
  assumes "vlLayers out = [(''carrier'', ''passed'')]"
  shows "wellReported (validateStructure E options version schema m out)"
proof -
  define c where "c = structuralLayer (eSprint E) (version = CoreVersion) (schema (JObject m)) m"
  define out1 where "out1 = out\<lparr>vlTruncated := snd (collected c)\<rparr>"
  define out2 where "out2 = addLayer ''structural'' ''passed'' out1"
  have ok: "coherentCollector c" "dcItems c = [] \<Longrightarrow> schema (JObject m) = None"
    using structuralLayer_exact[of "eSprint E" "version = CoreVersion" "schema (JObject m)" m] by (auto simp: c_def)
  have layers: "vlLayers out1 = [(''carrier'', ''passed'')]"
    "vlLayers out2 = [(''carrier'', ''passed''), (''structural'', ''passed'')]"
    using assms by (simp_all add: out1_def out2_def)
  have result: "validateStructure E options version schema m out =
      (if schema (JObject m) \<noteq> None \<or> dcItems c \<noteq> []
       then concluded ''invalid'' (fst (collected c)) (snd (collected c)) (addLayer ''structural'' ''failed'' out1)
       else if voThrough options = ''structural'' then out2\<lparr>vlStatus := ''valid''\<rparr>
       else validateSemantic E options version m out2)"
    unfolding validateStructure_def Let_def case_prod_unfold c_def[symmetric] out1_def[symmetric] out2_def[symmetric]
      collected_items ..
  show ?thesis
  proof (cases "dcItems c = []")
    case True
    then show ?thesis
      using ok(2) report_passed[of out2] validateSemantic_reports[OF layers(2)] layers(2) by (simp add: result)
  next
    case False
    then show ?thesis using report_failed[OF layers(1) diagnosed_collected[OF ok(1)]] by (simp add: result)
  qed
qed

lemma validateVersion_reports:
  assumes "vlLayers out = [(''carrier'', ''passed'')]" "vlStatus out = []" "vlDiagnostics out = []"
  shows "case snd (validateVersion E options m out) of None \<Rightarrow> wellReported (fst (validateVersion E options m out))
    | Some f \<Rightarrow> vlStatus (fst (validateVersion E options m out)) = []
        \<and> vlDiagnostics (fst (validateVersion E options m out)) = [] \<and> ofExitCode f = 4"
proof (cases "asString (jget m ''specVersion'')")
  case None
  then show ?thesis by (simp add: validateVersion_def report_bootstrap assms)
next
  case (Some declared)
  define version where
    "version = (if voExpectedSpecVersion options \<noteq> [] then voExpectedSpecVersion options else declared)"
  define out1 where "out1 = out\<lparr>vlSpecVersion := declared\<rparr>"
  define artifact where "artifact = out1\<lparr>vlArtifact := Some ((the (eSets E version))\<lparr>arSpecVersion := version\<rparr>)\<rparr>"
  have layers: "vlLayers out1 = [(''carrier'', ''passed'')]" "vlLayers artifact = [(''carrier'', ''passed'')]"
    using assms by (simp_all add: out1_def artifact_def)
  show ?thesis
  proof (cases "hasMember m ''specVersion''")
    case False
    then show ?thesis by (simp add: validateVersion_def report_bootstrap assms)
  next
    case True
    have result: "validateVersion E options m out =
        (case eSets E version of
           None \<Rightarrow> (concluded ''unsupported'' [ErrorDiagnostic ''JPS-CAPABILITY-SPEC-VERSION'' ''capability'' ''/specVersion''
               [''The exact JPS specification version is not bundled with this CLI.'']] False out1, None)
         | Some a \<Rightarrow> (case selectedSchema E options version of
               None \<Rightarrow> (artifact, Some \<lparr>ofCode = ''JPS-SCHEMA-FORMAT-OVERRIDE'', ofExitCode = 4\<rparr>)
             | Some schema \<Rightarrow> (validateStructure E options version schema m artifact, None)))"
      using True Some by (simp add: validateVersion_def out1_def artifact_def version_def Let_def split: option.split)
    have "vlStatus artifact = []" "vlDiagnostics artifact = []"
      using assms by (simp_all add: artifact_def out1_def)
    then show ?thesis
      unfolding result using report_passed[of out1] layers diagnosed_one validateStructure_reports
      by (simp split: option.split)
  qed
qed

lemma Validate_reported:
  "case snd (Validate E data given) of None \<Rightarrow> wellReported (fst (Validate E data given))
   | Some f \<Rightarrow> vlStatus (fst (Validate E data given)) = [] \<and> vlDiagnostics (fst (Validate E data given)) = []
       \<and> ofExitCode f = 4"
proof -
  define options where "options = defaulted given"
  define out where "out = NewValidation (voThrough options)"
  have out: "vlLayers out = []" "vlStatus out = []" "vlDiagnostics out = []"
    by (simp_all add: out_def NewValidation_def)
  define out1 where "out1 = addLayer ''carrier'' ''passed'' out"
  have out1: "vlLayers out1 = [(''carrier'', ''passed'')]" "vlStatus out1 = []" "vlDiagnostics out1 = []"
    using out by (simp_all add: out1_def)
  have decoded: "case snd (validateDecoded E data options out) of None \<Rightarrow> wellReported (fst (validateDecoded E data options out))
    | Some f \<Rightarrow> vlStatus (fst (validateDecoded E data options out)) = []
        \<and> vlDiagnostics (fst (validateDecoded E data options out)) = [] \<and> ofExitCode f = 4"
  proof (cases "Decode data (eTokens E data) (voLimits options)")
    case (Inl f)
    then show ?thesis using out diagnosed_one by (simp add: validateDecoded_def report_simps)
  next
    case (Inr v)
    show ?thesis
    proof (cases "voThrough options = ''carrier'' \<or> asObject v = None")
      case True
      then show ?thesis using Inr report_passed[of out1] report_bootstrap[OF out1(1)] out1
        by (auto simp: validateDecoded_def Let_def out1_def[symmetric] split: option.split)
    next
      case False
      then obtain m where "asObject v = Some m" "voThrough options \<noteq> ''carrier''" by blast
      with Inr have "validateDecoded E data options out = validateVersion E options m out1"
        by (simp add: validateDecoded_def Let_def out1_def[symmetric])
      then show ?thesis using validateVersion_reports[OF out1, of E options m] by (simp only:)
    qed
  qed
  show ?thesis
  proof (cases "gateOf E data options")
    case None
    then have eq: "Validate E data given = validateDecoded E data options out"
      by (simp add: Validate_gate options_def out_def)
    show ?thesis unfolding eq by (rule decoded)
  next
    case (Some d)
    define out2 where "out2 = addLayer ''carrier'' ''passed'' (out\<lparr>vlSpecVersion := ''0.3.0''\<rparr>)"
    have "vlLayers out2 = [(''carrier'', ''passed'')]" using out by (simp add: out2_def)
    then show ?thesis
      using Some report_passed[of out2] report_bootstrap[of out2] diagnosed_one
      by (simp add: Validate_gate options_def[symmetric] out_def[symmetric] out2_def[symmetric])
  qed
qed

subsection \<open>What the supported extensions decide\<close>

text \<open>Capabilities are a set: order and repetition of the supported extensions leave no trace.\<close>

lemma uniqueSorted_cong: "set xs = set ys \<Longrightarrow> uniqueSorted xs = uniqueSorted ys"
  unfolding uniqueSorted_def by (rule sort_determined_by_set) simp_all

text \<open>A document names extensions in UTF-8, so a supported name that is not UTF-8 decides nothing: it only
  appears in the list that the result repeats.\<close>

lemma utf8Token_texts: "TString s \<in> set (map utf8Token ts) \<Longrightarrow> validUtf8 s"
proof -
  assume "TString s \<in> set (map utf8Token ts)"
  then obtain t where "utf8Token t = TString s" by fastforce
  then show ?thesis by (cases t) auto
qed

lemma tokensOf_member: "map_of m k = Some v \<Longrightarrow> set (tokensOf v) \<subseteq> set (tokensOf (JObject m))"
proof -
  assume "map_of m k = Some v"
  then have "(k, v) \<in> set m" by (rule map_of_SomeD)
  then show ?thesis by fastforce
qed

lemma tokensOf_jget: "jget m k \<noteq> JNull \<Longrightarrow> set (tokensOf (jget m k)) \<subseteq> set (tokensOf (JObject m))"
  using tokensOf_member[of m k] by (cases "map_of m k") (auto simp: jget_def)

lemma requiredExtensions_tokens: "s \<in> set (requiredExtensions m) \<Longrightarrow> TString s \<in> set (tokensOf (JObject m))"
proof -
  assume s: "s \<in> set (requiredExtensions m)"
  then obtain meta where meta: "jget m ''metadata'' = JObject meta"
    and "s \<in> set (stringList (jget meta ''requiredExtensions''))"
    by (cases "jget m ''metadata''") (simp_all add: requiredExtensions_def)
  then obtain xs where xs: "jget meta ''requiredExtensions'' = JArray xs" "JString s \<in> set xs"
    by (cases "jget meta ''requiredExtensions''") (auto simp: stringList_def map_filter_def asString_Some)
  have "TString s \<in> set (tokensOf (JArray xs))" using xs(2) by force
  then have "TString s \<in> set (tokensOf (JObject meta))"
    using tokensOf_jget[of meta "''requiredExtensions''"] xs(1) by auto
  then show ?thesis using tokensOf_jget[of m "''metadata''"] meta by auto
qed

lemma required_utf8:
  assumes "Decode data (eTokens E data) L = Inr (JObject m)" "s \<in> set (requiredExtensions m)"
  shows "validUtf8 s"
proof -
  have "eTokens E data = tokensOf (JObject m)" using assms(1) by (simp add: Decode_accepts)
  with requiredExtensions_tokens[OF assms(2)] show ?thesis
    unfolding eTokens_def using utf8Token_texts by metis
qed

definition unlisted :: "Validation \<Rightarrow> Validation" where
  "unlisted v = v\<lparr>vlExtensions := (vlExtensions v)\<lparr>xSupported := []\<rparr>\<rparr>"

abbreviation unlistedResult :: "Validation \<times> OperationalFailure option \<Rightarrow> Validation \<times> OperationalFailure option" where
  "unlistedResult r \<equiv> map_prod unlisted id r"

lemma unlisted_fields [simp]:
  "vlStatus (unlisted v) = vlStatus v" "vlSpecVersion (unlisted v) = vlSpecVersion v"
  "vlDiagnostics (unlisted v) = vlDiagnostics v" "vlArtifact (unlisted v) = vlArtifact v"
  by (simp_all add: unlisted_def)

definition sameTexts :: "string list \<Rightarrow> string list \<Rightarrow> bool" where
  "sameTexts xs ys \<longleftrightarrow> (\<forall>s. validUtf8 s \<longrightarrow> (s \<in> set xs \<longleftrightarrow> s \<in> set ys))"

lemma validateSemantic_texts:
  assumes "sameTexts xs ys" "\<forall>s \<in> set (requiredExtensions m). validUtf8 s"
  shows "unlisted (validateSemantic E (o1\<lparr>voSupportedExtensions := xs\<rparr>) v m out) =
    unlisted (validateSemantic E (o1\<lparr>voSupportedExtensions := ys\<rparr>) v m out)"
proof -
  have "difference (requiredExtensions m) (uniqueSorted xs) = difference (requiredExtensions m) (uniqueSorted ys)"
    using assms by (auto simp: difference_def uniqueSorted_def sameTexts_def intro!: filter_cong)
  then show ?thesis
    by (simp add: validateSemantic_def Let_def unlisted_def concluded_def addLayer_def split: prod.split)
qed

lemma Validate_extension_texts:
  assumes "sameTexts xs ys"
  shows "unlistedResult (Validate E data (given\<lparr>voSupportedExtensions := xs\<rparr>)) =
    unlistedResult (Validate E data (given\<lparr>voSupportedExtensions := ys\<rparr>))"
proof -
  have schema: "selectedSchema E (o1\<lparr>voSupportedExtensions := zs\<rparr>) v = selectedSchema E o1 v" for o1 v zs
    by (simp add: selectedSchema_def)
  have structural: "unlisted (validateStructure E (o1\<lparr>voSupportedExtensions := xs\<rparr>) v s m out) =
      unlisted (validateStructure E (o1\<lparr>voSupportedExtensions := ys\<rparr>) v s m out)"
    if "\<forall>s \<in> set (requiredExtensions m). validUtf8 s" for o1 v s m out
    using validateSemantic_texts[OF assms that] by (simp add: validateStructure_def Let_def split: prod.split)
  have version: "unlistedResult (validateVersion E (o1\<lparr>voSupportedExtensions := xs\<rparr>) m out) =
      unlistedResult (validateVersion E (o1\<lparr>voSupportedExtensions := ys\<rparr>) m out)"
    if "\<forall>s \<in> set (requiredExtensions m). validUtf8 s" for o1 m out
    using structural[OF that] by (simp add: validateVersion_def Let_def schema split: option.split)
  have decoded: "unlistedResult (validateDecoded E data (o1\<lparr>voSupportedExtensions := xs\<rparr>) out) =
      unlistedResult (validateDecoded E data (o1\<lparr>voSupportedExtensions := ys\<rparr>) out)" for o1 out
  proof (cases "Decode data (eTokens E data) (voLimits o1)")
    case (Inr v)
    show ?thesis
    proof (cases "asObject v")
      case (Some m)
      then have "v = JObject m" by (simp add: asObject_Some)
      with Inr required_utf8 have "\<forall>s \<in> set (requiredExtensions m). validUtf8 s" by metis
      with Inr Some version show ?thesis by (simp add: validateDecoded_def Let_def)
    qed (use Inr in \<open>simp add: validateDecoded_def Let_def\<close>)
  qed (simp add: validateDecoded_def)
  have "defaulted (given\<lparr>voSupportedExtensions := zs\<rparr>) = (defaulted given)\<lparr>voSupportedExtensions := zs\<rparr>" for zs
    by (simp add: defaulted_def Let_def)
  moreover have "gateOf E data (o1\<lparr>voSupportedExtensions := zs\<rparr>) = gateOf E data o1" for o1 zs
    by (simp add: gateOf_def cong: sum.case_cong if_cong)
  ultimately show ?thesis using decoded by (simp add: Validate_gate split: option.split)
qed

lemma Validate_extension_set:
  assumes "set xs = set ys"
  shows "Validate E data (given\<lparr>voSupportedExtensions := xs\<rparr>) = Validate E data (given\<lparr>voSupportedExtensions := ys\<rparr>)"
proof -
  have semantic: "validateSemantic E (o1\<lparr>voSupportedExtensions := xs\<rparr>) v m out =
      validateSemantic E (o1\<lparr>voSupportedExtensions := ys\<rparr>) v m out" for o1 v m out
    by (simp add: validateSemantic_def Let_def case_prod_unfold uniqueSorted_cong[OF assms])
  have schema: "selectedSchema E (o1\<lparr>voSupportedExtensions := zs\<rparr>) v = selectedSchema E o1 v" for o1 v zs
    by (simp add: selectedSchema_def)
  have structural: "validateStructure E (o1\<lparr>voSupportedExtensions := xs\<rparr>) v s m out =
      validateStructure E (o1\<lparr>voSupportedExtensions := ys\<rparr>) v s m out" for o1 v s m out
    by (simp add: validateStructure_def Let_def case_prod_unfold semantic cong: if_cong)
  have version: "validateVersion E (o1\<lparr>voSupportedExtensions := xs\<rparr>) m out =
      validateVersion E (o1\<lparr>voSupportedExtensions := ys\<rparr>) m out" for o1 m out
    by (simp add: validateVersion_def Let_def structural schema cong: option.case_cong if_cong)
  have decoded: "validateDecoded E data (o1\<lparr>voSupportedExtensions := xs\<rparr>) out =
      validateDecoded E data (o1\<lparr>voSupportedExtensions := ys\<rparr>) out" for o1 out
    by (simp add: validateDecoded_def Let_def version cong: option.case_cong sum.case_cong if_cong)
  have "defaulted (given\<lparr>voSupportedExtensions := zs\<rparr>) = (defaulted given)\<lparr>voSupportedExtensions := zs\<rparr>" for zs
    by (simp add: defaulted_def Let_def)
  moreover have "gateOf E data (o1\<lparr>voSupportedExtensions := zs\<rparr>) = gateOf E data o1" for o1 zs
    by (simp add: gateOf_def cong: sum.case_cong if_cong)
  ultimately show ?thesis by (simp add: Validate_gate decoded split: option.split)
qed

text \<open>C3: Validation accepts exactly the conforming documents. The status is valid if and only if the
  carrier decodes the text and, as far as the requested layer goes, the root is an object whose profile
  is negotiated and whose exact version is bundled, its schema, extension names and exception shapes
  hold, its identifiers and references are sound, and every extension it requires is supported.\<close>

theorem Validate_exact:
  "vlStatus (fst (Validate E data given)) = ''valid'' \<longleftrightarrow>
   (\<exists>v. Decode data (eTokens E data) (voLimits (defaulted given)) = Inr v \<and> acceptedDocument E (defaulted given) v)"
  by (rule Validate_status)

text \<open>C40: Every validation says what it found. Without an operational failure the layers reported are the
  first ones in order; a valid or unsupported document passed all of them and an invalid one failed
  exactly the last; and a document that is not valid has at least one diagnostic and at most a hundred.
  An operational failure leaves no status and no diagnostic.\<close>

theorem Validate_reports:
  "case snd (Validate E data given) of None \<Rightarrow> wellReported (fst (Validate E data given))
   | Some f \<Rightarrow> vlStatus (fst (Validate E data given)) = [] \<and> vlDiagnostics (fst (Validate E data given)) = []
       \<and> ofExitCode f = 4"
  by (rule Validate_reported)

end
