(* ===== verification/Marshal.thy ===== *)
theory Marshal
  imports Jcs
begin

section \<open>What \<open>json.Marshal\<close> writes\<close>

text \<open>
  The standard library's encoding of a decoded value, which the overlap check writes, measures and
  compares: no spaces, members in byte order of their names, number tokens as they are, and strings
  with the escapes that make them safe inside HTML; a byte that is not part of UTF-8 is written as the
  escape of the replacement character, which the character itself is not. On values without numbers it is a canonical writer in the sense of
  \<open>Canonical_Writer\<close>.
\<close>

definition unicodeEscape :: "nat \<Rightarrow> string" where
  "unicodeEscape r =
     [backslash, CHR ''u'', hexDigit (r div 4096), hexDigit (r div 256 mod 16), hexDigit (r div 16 mod 16), hexDigit (r mod 16)]"

text \<open>The units the writer sees: the runes, and a mark that is no rune for a byte it cannot decode.\<close>

definition badByte :: nat where "badByte = 1114112"

function goUnits :: "string \<Rightarrow> nat list" where
  "goUnits s =
     (if s = [] then []
      else (if decodeRune s = (runeError, 1) then badByte else fst (decodeRune s)) # goUnits (drop (snd (decodeRune s)) s))"
  by pat_completeness auto
termination
  by (relation "measure length") (auto intro!: diff_less simp: decodeRune_width)

declare goUnits.simps [simp del]

definition escapedGo :: "nat \<Rightarrow> string" where
  "escapedGo r =
     (if r = badByte then unicodeEscape runeError
      else if r = 34 then [backslash, quoteMark]
      else if r = 92 then [backslash, backslash]
      else if r = 8 then [backslash, CHR ''b'']
      else if r = 12 then [backslash, CHR ''f'']
      else if r = 10 then [backslash, CHR ''n'']
      else if r = 13 then [backslash, CHR ''r'']
      else if r = 9 then [backslash, CHR ''t'']
      else if r < 32 \<or> r = 60 \<or> r = 62 \<or> r = 38 \<or> r = 8232 \<or> r = 8233 then unicodeEscape r
      else encodeRune r)"

definition goQuote :: "string \<Rightarrow> string" where
  "goQuote s = quoteMark # concat (map escapedGo (goUnits s)) @ [quoteMark]"

definition goMember :: "(json \<Rightarrow> string) \<Rightarrow> string \<times> json \<Rightarrow> string" where
  "goMember w p = goQuote (fst p) @ CHR '':'' # w (snd p)"

lemma goMember_cong [fundef_cong]: "p = q \<Longrightarrow> w (snd q) = w' (snd q) \<Longrightarrow> goMember w p = goMember w' q"
  by (simp add: goMember_def)

function marshal :: "json \<Rightarrow> string" where
  "marshal JNull = ''null''"
| "marshal (JBool b) = (if b then ''true'' else ''false'')"
| "marshal (JString s) = goQuote s"
| "marshal (JNumber t) = t"
| "marshal (JArray xs) = bracketed (CHR ''['') (CHR '']'') (map marshal xs)"
| "marshal (JObject m) = bracketed (CHR ''{'') (CHR ''}'') (map (goMember marshal) (sort_key fst m))"
  by pat_completeness auto
termination
  by (relation "measure size") (auto dest: size_element_lt size_member_lt)

subsection \<open>Units\<close>

lemma goUnits_Nil [simp]: "goUnits [] = []"
  by (simp add: goUnits.simps)

lemma goUnits_encodeScalar [simp]: "scalar r \<Longrightarrow> goUnits (encodeScalar r @ t) = r # goUnits t"
  by (subst goUnits.simps) (use encodeScalar_not_error[of r] in \<open>auto simp: decodeRune_encodeScalar\<close>)

lemma goUnits_valid: "validUtf8 s \<Longrightarrow> goUnits s = runes s"
  by (induction rule: validUtf8_induct) auto

lemma goUnits_ascii_Cons: "byteOf c < 128 \<Longrightarrow> goUnits (c # s) = byteOf c # goUnits s"
  using goUnits_encodeScalar[of "byteOf c" s] ascii_encode[of c] by simp

lemma badByte_not_scalar [simp]: "\<not> scalar badByte"
  by (simp add: scalar_def between_def badByte_def)

lemma scalar_not_bad: "scalar r \<Longrightarrow> r \<noteq> badByte"
  by auto

lemma goUnits_step:
  assumes "s \<noteq> []" "decodeRune s \<noteq> (runeError, 1)"
  shows "scalar (fst (decodeRune s))"
  using assms decodeRune_encode by (cases s; cases "decodeRune s") fastforce+

lemma goUnits_units: "r \<in> set (goUnits s) \<Longrightarrow> scalar r \<or> r = badByte"
proof (induction s rule: goUnits.induct)
  case (1 s)
  then show ?case using goUnits_step[of s] by (subst (asm) (2) goUnits.simps) (auto split: if_splits)
qed

lemma goUnits_bad: "badByte \<in> set (goUnits s) \<longleftrightarrow> \<not> validUtf8 s"
proof (induction s rule: goUnits.induct)
  case (1 s)
  show ?case
  proof (cases "s = [] \<or> decodeRune s = (runeError, 1)")
    case True
    then show ?thesis by (subst goUnits.simps, subst validUtf8.simps) auto
  next
    case False
    then have "fst (decodeRune s) \<noteq> badByte" using goUnits_step[of s] badByte_not_scalar by metis
    with False 1 show ?thesis by (subst goUnits.simps, subst validUtf8.simps) auto
  qed
qed

lemma goUnits_inject:
  assumes "goUnits s = goUnits t" "validUtf8 s"
  shows "s = t"
proof -
  have "validUtf8 t" using assms goUnits_bad by metis
  with assms show ?thesis using runes_inject by (simp add: goUnits_valid)
qed

subsection \<open>Quoting\<close>

definition htmlRunes :: "nat list" where
  "htmlRunes = badByte # 38 # 60 # 62 # 8232 # 8233 # escapedRunes"

lemma htmlRunes_iff: "r \<in> set htmlRunes \<longleftrightarrow>
    r = badByte \<or> r = 34 \<or> r = 92 \<or> r < 32 \<or> r = 60 \<or> r = 62 \<or> r = 38 \<or> r = 8232 \<or> r = 8233"
  by (auto simp: htmlRunes_def escapedRunes_iff)

lemma escapedGo_plain: "scalar r \<Longrightarrow> r \<notin> set htmlRunes \<Longrightarrow> escapedGo r = encodeScalar r"
  by (simp add: htmlRunes_iff escapedGo_def encodeRune_def)

lemma discriminates_escapedGo: "discriminates htmlRunes escapedGo"
  by (simp add: discriminates_def htmlRunes_def escapedRunes_list escapedGo_def badByte_def backslash_def quoteMark_def
      unicodeEscape_def hexDigit_def digitChar_def)

lemma goQuote_units:
  assumes "goQuote s @ u = goQuote t @ v"
  shows "goUnits s = goUnits t \<and> u = v"
  by (rule quoted_prefix[OF discriminates_escapedGo escapedGo_plain])
     (use assms goUnits_units in \<open>auto simp: goQuote_def htmlRunes_def\<close>)

lemma goQuote_prefix:
  assumes "validUtf8 s" "validUtf8 t" "goQuote s @ u = goQuote t @ v"
  shows "s = t \<and> u = v"
  using goQuote_units[OF assms(3)] goUnits_inject[OF _ assms(1)] by blast

text \<open>A quoted text is UTF-8.\<close>

lemma hexDigit_ascii: "n < 16 \<Longrightarrow> byteOf (hexDigit n) < 128"
  by (auto simp: hexDigit_def digitChar_def)

lemma unicodeEscape_ascii: "r < 65536 \<Longrightarrow> list_all (\<lambda>c. byteOf c < 128) (unicodeEscape r)"
  by (simp add: unicodeEscape_def hexDigit_ascii backslash_def)

lemma validUtf8_escapedGo: "scalar r \<Longrightarrow> validUtf8 (escapedGo r)"
proof (cases "r \<in> set htmlRunes")
  case False
  assume "scalar r"
  with False show ?thesis using validUtf8_encodeScalar[of r "[]"] by (simp add: escapedGo_plain)
next
  case True
  assume "scalar r"
  with True have "r < 65536" "r \<noteq> badByte" using badByte_not_scalar by (auto simp: htmlRunes_iff)
  with True show ?thesis
    by (auto simp: escapedGo_def htmlRunes_iff backslash_def quoteMark_def intro!: validUtf8_ascii unicodeEscape_ascii)
qed

lemma validUtf8_concat: "(\<And>x. x \<in> set xs \<Longrightarrow> validUtf8 x) \<Longrightarrow> validUtf8 (concat xs)"
  by (induction xs) (simp_all add: validUtf8_append)

lemma validUtf8_goQuote [simp]: "validUtf8 s \<Longrightarrow> validUtf8 (goQuote s)"
proof -
  assume "validUtf8 s"
  then have "validUtf8 (concat (map escapedGo (goUnits s)))"
    using runes_scalar[of s] by (intro validUtf8_concat) (auto simp: goUnits_valid list_all_iff validUtf8_escapedGo)
  then show ?thesis by (simp add: goQuote_def validUtf8_ascii_Cons quoteMark_def validUtf8_append)
qed

subsection \<open>Values without numbers\<close>

fun textual :: "json \<Rightarrow> bool" where
  "textual (JString s) = validUtf8 s"
| "textual (JNumber t) = False"
| "textual (JArray xs) = list_all textual xs"
| "textual (JObject m) = list_all (\<lambda>p. validUtf8 (fst p) \<and> textual (snd p)) m"
| "textual _ = True"

definition marshalText :: "json \<Rightarrow> string option" where
  "marshalText v = (if textual v then Some (marshal v) else None)"

definition marshalName :: "string \<Rightarrow> string option" where
  "marshalName s = (if validUtf8 s then Some (goQuote s) else None)"

lemma those_all: "those (map (\<lambda>x. if P x then Some (f x) else None) xs) = (if list_all P xs then Some (map f xs) else None)"
  by (induction xs) auto

lemma marshalText_array:
  "marshalText (JArray xs) = map_option (bracketed (CHR ''['') (CHR '']'')) (those (map marshalText xs))"
proof -
  have "map marshalText xs = map (\<lambda>x. if textual x then Some (marshal x) else None) xs" by (simp add: marshalText_def)
  then show ?thesis by (simp only: those_all) (simp add: marshalText_def)
qed

lemma memberText_marshal:
  "memberText marshalName marshalText p =
     (if validUtf8 (fst p) \<and> textual (snd p) then Some (goMember marshal p) else None)"
  by (simp add: memberText_def marshalName_def marshalText_def goMember_def)

lemma marshalText_object:
  "marshalText (JObject m) = map_option (bracketed (CHR ''{'') (CHR ''}''))
     (those (map (memberText marshalName marshalText) (sort_key fst m)))"
proof -
  have "map (memberText marshalName marshalText) (sort_key fst m) =
      map (\<lambda>p. if validUtf8 (fst p) \<and> textual (snd p) then Some (goMember marshal p) else None) (sort_key fst m)"
    by (simp add: memberText_marshal)
  then show ?thesis
    by (simp only: those_all) (simp add: marshalText_def list_all_iff)
qed

lemma marshalText_leaf:
  assumes "isLeaf x" "marshalText x = Some a"
  obtains "x = JNull" "a = ''null''" | b where "x = JBool b" "a = (if b then ''true'' else ''false'')"
    | s where "x = JString s" "validUtf8 s" "a = goQuote s"
  using assms by (cases x) (auto simp: isLeaf_def marshalText_def split: if_splits)

lemma marshalText_leaf_prefix:
  assumes "isLeaf x" "isLeaf y" "marshalText x = Some a" "marshalText y = Some b" "a @ u = b @ v"
  shows "jsonEqual x y \<and> u = v"
proof -
  have k: "(\<exists>t. z = JString t \<and> validUtf8 t \<and> c = goQuote t) \<or> z \<in> {JNull, JBool True, JBool False} \<and> c = marshal z"
    if "isLeaf z" "marshalText z = Some c" for z c
    by (rule marshalText_leaf[OF that]) auto
  have first: "goQuote t @ u' \<noteq> marshal z @ v'" if "z \<in> {JNull, JBool True, JBool False}" for z t u' v'
    using that by (auto simp: goQuote_def quoteMark_def)
  show ?thesis
  proof (cases "(\<exists>t. x = JString t \<and> validUtf8 t \<and> a = goQuote t)")
    case True
    then obtain s where s: "x = JString s" "validUtf8 s" "a = goQuote s" by blast
    from k[OF assms(2,4)] first[of y s u v] assms(5) s(3) obtain t where t: "y = JString t" "validUtf8 t" "b = goQuote t"
      by metis
    show ?thesis using goQuote_prefix[OF s(2) t(2)] assms(5) s t by simp
  next
    case False
    with k[OF assms(1,3)] have x: "x \<in> {JNull, JBool True, JBool False}" "a = marshal x" by blast+
    from k[OF assms(2,4)] first[OF x(1)] assms(5) x(2) have y: "y \<in> {JNull, JBool True, JBool False}" "b = marshal y"
      by metis+
    from assms(5) have "marshal x @ u = marshal y @ v" by (simp only: x(2) y(2))
    with x(1) y(1) show ?thesis by auto
  qed
qed

interpretation gojson: canonical_writer marshalText marshalName "\<lambda>s. s"
proof
  fix s t :: string and a b u v
  assume q: "marshalName s = Some a" "marshalName t = Some b"
  then have v: "validUtf8 s" "validUtf8 t" "a = goQuote s" "b = goQuote t" by (auto simp: marshalName_def split: if_splits)
  show "a @ u = b @ v \<Longrightarrow> s = t \<and> u = v" using goQuote_prefix[OF v(1,2)] v(3,4) by simp
  show "a \<noteq> [] \<and> hd a = CHR 0x22" using v(3) by (simp add: goQuote_def quoteMark_def)
next
  fix x y :: json and a b u v
  assume l: "isLeaf x" "isLeaf y" and w: "marshalText x = Some a" "marshalText y = Some b"
  show "jsonEqual x y \<and> u = v" if "a @ u = b @ v" "closes u" "closes v"
    using marshalText_leaf_prefix[OF l w that(1)] .
  show "a = b" if "jsonEqual x y"
    using l w that by (cases x; cases y) (auto simp: isLeaf_def marshalText_def split: if_splits)
  show "a \<noteq> [] \<and> hd a \<noteq> CHR ''['' \<and> hd a \<noteq> CHR ''{'' \<and> hd a \<noteq> CHR '']'' \<and> hd a \<noteq> CHR ''}''"
    by (rule marshalText_leaf[OF l(1) w(1)]) (auto simp: goQuote_def quoteMark_def)
qed (simp_all add: marshalText_array marshalText_object)

lemma marshal_identity:
  "jsonWf x \<Longrightarrow> jsonWf y \<Longrightarrow> textual x \<Longrightarrow> textual y \<Longrightarrow> marshal x = marshal y \<longleftrightarrow> jsonEqual x y"
  using gojson.w_identity[of x y] by (simp add: marshalText_def)

end
