(* ===== verification/Engine.thy ===== *)
theory Engine
  imports Validator Marshal Comparable Outcome_Values_Draft Resolution_Laws
begin

section \<open>The evaluation engine\<close>

text \<open>
  \<open>internal/evaluation/engine.go\<close>, \<open>contract.go\<close> and \<open>fact_advice.go\<close>, with the draft admission of
  \<open>rfc0008.go\<close>: how a pack is admitted and remembered, the input preflight in its order of
  precedence, the evaluation behind it, the selection of a contract and the fact-type advice. The
  validation engine is that of \<open>Validator\<close>; added to its host are \<open>json.Marshal\<close> of a projected pack
  and of a finding, and SHA-256. The key of the memo is the text that
  \<open>json.Marshal\<close> writes, which tells apart whatever can change a decision, though not two names that are
  not UTF-8. The lock of the memo is a step of its own in the concurrent model.
\<close>

record host = engine +
  hMarshal :: "object \<Rightarrow> string option"
  hFindingBytes :: "incomparable \<Rightarrow> nat"
  hSha256 :: "string \<Rightarrow> string"

subsection \<open>Options and contracts\<close>

record Options =
  oSpecVersion :: string
  oSupportedProfiles :: "string list option"
  oCommand :: string
  oSupportedExtensions :: "string list"
  oRFC0008Quantifiers :: bool
  oRFC0016OutcomeValues :: bool
  oWorkBudget :: int
  oEvidenceSupplied :: bool
  oOversizedInputs :: "string list"
  oRequireComparableFacts :: bool

definition DefaultCoreWorkLimit :: nat where
  "DefaultCoreWorkLimit = 2 * HardMaxBytes"

definition DefaultWorkBudget :: nat where
  "DefaultWorkBudget = 100000"

definition oversized :: "Options \<Rightarrow> string \<Rightarrow> bool" where
  "oversized options name \<longleftrightarrow> name \<in> set (oOversizedInputs options)"

definition workLimit :: "Options \<Rightarrow> nat" where
  "workLimit options =
     (if oWorkBudget options > 0 then nat (oWorkBudget options)
      else if oRFC0008Quantifiers options then DefaultWorkBudget else DefaultCoreWorkLimit)"

definition contract :: "Options \<Rightarrow> EvaluatorContract" where
  "contract options =
     (let c = \<lparr>ecSpecVersion = oSpecVersion options, ecProfile = []\<rparr>
      in if Version c = ''0.3.0'' then c\<lparr>ecProfile := ''base''\<rparr> else c)"

subsection \<open>Refusals\<close>

definition refusal :: "string \<Rightarrow> string \<Rightarrow> nat \<Rightarrow> Failure" where
  "refusal class code exitCode =
     \<lparr>fProfile = [], fClass = class, fPhase = PhasePreflight, fCode = code, fExitCode = exitCode\<rparr>"

definition unclassed :: "string \<Rightarrow> nat \<Rightarrow> Failure" where
  "unclassed code exitCode = \<lparr>fProfile = [], fClass = [], fPhase = [], fCode = code, fExitCode = exitCode\<rparr>"

definition profileRefusal :: "string \<Rightarrow> string \<Rightarrow> Failure" where
  "profileRefusal code profile =
     \<lparr>fProfile = profile, fClass = [], fPhase = PhasePreflight, fCode = code, fExitCode = ExitUnsupported\<rparr>"

definition oneDraft :: "Options \<Rightarrow> Failure option" where
  "oneDraft options =
     (if \<not> oRFC0008Quantifiers options \<or> \<not> oRFC0016OutcomeValues options then None
      else Some (unclassed ''JPS-INVOCATION-DRAFT-RFC'' ExitInvocation))"

definition byteLimit :: "string \<Rightarrow> string \<Rightarrow> bool \<Rightarrow> Failure option" where
  "byteLimit data class over =
     (if \<not> over \<and> length data \<le> HardMaxBytes then None
      else Some (refusal class ''JPS-RESOURCE-INPUT-BYTE-LIMIT'' ExitIO))"

definition decodeFailure :: "string \<Rightarrow> carrierFailure \<Rightarrow> Failure" where
  "decodeFailure class failure =
     (if carrierResource failure then refusal class (dgCode (carrierError failure)) ExitIO
      else refusal class ''JPS-EVALUATION-INPUT-JSON'' ExitInvocation)"

definition decodeInput :: "('h) engine_scheme \<Rightarrow> string \<Rightarrow> string \<Rightarrow> Failure + json" where
  "decodeInput H data class =
     (if length data = 0 then Inl (refusal class ''JPS-EVALUATION-INPUT-MISSING'' ExitInvocation)
      else case Decode data (eTokens H data) DefaultLimits of
             Inl f \<Rightarrow> Inl (decodeFailure class f) | Inr v \<Rightarrow> Inr v)"

definition packNotConformant :: "Validation \<Rightarrow> Failure" where
  "packNotConformant validated =
     (if length (vlDiagnostics validated) = 1 \<and> dgCode (hd (vlDiagnostics validated)) = ''profile-unsupported''
      then profileRefusal ''profile-unsupported'' (dgProfile (hd (vlDiagnostics validated)))
      else refusal ClassPackNotConformant ''JPS-EVALUATION-PACK-NOT-CONFORMANT''
             (if vlStatus validated = ''unsupported'' then ExitUnsupported else ExitInvalid))"

definition packOperationalFailure :: "OperationalFailure \<Rightarrow> Failure" where
  "packOperationalFailure operational = refusal ClassPackNotConformant (ofCode operational) (ofExitCode operational)"

definition unsupportedRequiredExtension :: "Validation \<Rightarrow> Failure option" where
  "unsupportedRequiredExtension validated =
     (if vlStatus validated \<noteq> ''unsupported'' \<or> length (vlDiagnostics validated) = 0 then None
      else if list_ex (\<lambda>d. dgCode d \<noteq> ''JPS-CAPABILITY-REQUIRED-EXTENSION'') (vlDiagnostics validated) then None
      else Some (refusal ClassUnsupportedRequiredExtension ''JPS-CAPABILITY-REQUIRED-EXTENSION'' ExitUnsupported))"

definition declaredSpecVersion :: "string \<Rightarrow> Failure option" where
  "declaredSpecVersion version =
     (if version = EvaluatorSpecVersion then None
      else Some (refusal ClassPackNotConformant ''JPS-EVALUATION-PACK-SPEC-VERSION'' ExitInvalid))"

definition declaredSpecVersionWith :: "string \<Rightarrow> EvaluatorContract \<Rightarrow> Failure option" where
  "declaredSpecVersionWith version c =
     (if Version c = EvaluatorSpecVersion then declaredSpecVersion version
      else if validateContract c \<noteq> None then Some (unclassed ''JPS-EVALUATION-CONTRACT'' ExitUnsupported)
      else if version = Version c then None
      else Some (refusal ClassPackNotConformant ''JPS-EVALUATION-PACK-SPEC-VERSION'' ExitInvalid))"

subsection \<open>Draft grammars\<close>

record draftGrammar =
  gRFC :: string
  gDiagnostics :: "object \<Rightarrow> Diagnostic list"
  gProject :: "object \<Rightarrow> object"

definition rfc0008Grammar :: draftGrammar where
  "rfc0008Grammar = \<lparr>gRFC = ''0008'', gDiagnostics = rfc0008Diagnostics, gProject = projectPack\<rparr>"

definition rfc0016Grammar :: draftGrammar where
  "rfc0016Grammar = \<lparr>gRFC = ''0016'', gDiagnostics = rfc0016Diagnostics, gProject = projectOutcomeValues\<rparr>"

definition projectionNotConformant :: "Validation \<Rightarrow> Failure" where
  "projectionNotConformant validated =
     refusal ClassPackNotConformant ''JPS-EVALUATION-PACK-NOT-CONFORMANT''
       (if vlStatus validated = ''unsupported'' then ExitUnsupported else ExitInvalid)"

definition draftGrammarFailure :: "draftGrammar \<Rightarrow> Failure" where
  "draftGrammarFailure grammar =
     refusal ClassPackNotConformant (''JPS-EVALUATION-RFC'' @ gRFC grammar @ ''-GRAMMAR'') ExitInvalid"

subsection \<open>Conformance\<close>

text \<open>A failure, or the validation, the decoded pack and the deferred unsupported extension.\<close>

type_synonym conformity = "Failure + Validation \<times> object \<times> Failure option"

definition validation :: "string \<Rightarrow> string list \<Rightarrow> string list option \<Rightarrow> ValidateOptions" where
  "validation through extensions profiles =
     \<lparr>voThrough = through, voExpectedSpecVersion = [], voSupportedExtensions = extensions,
      voSupportedProfiles = profiles, voLimits = DefaultLimits, voFormatOverrides = []\<rparr>"

definition concludeConformance :: "Validation \<times> OperationalFailure option \<Rightarrow> (Validation \<Rightarrow> Failure) \<Rightarrow> conformity
    \<Rightarrow> conformity" where
  "concludeConformance r refuse rest =
     (case r of
        (validated, Some operational) \<Rightarrow> Inl (packOperationalFailure operational)
      | (validated, None) \<Rightarrow>
          if vlStatus validated \<noteq> ''valid'' \<and> unsupportedRequiredExtension validated = None
          then Inl (refuse validated) else rest)"

definition draftConformance :: "host \<Rightarrow> string \<Rightarrow> Options \<Rightarrow> draftGrammar \<Rightarrow> conformity" where
  "draftConformance H pack options grammar =
     (case Validate (engine.truncate H) pack (validation ''carrier'' [] None) of
        (carrierOnly, Some operational) \<Rightarrow> Inl (packOperationalFailure operational)
      | (carrierOnly, None) \<Rightarrow>
        if vlStatus carrierOnly \<noteq> ''valid'' then Inl (packNotConformant carrierOnly)
        else case decodeInput H pack ClassPackNotConformant of
          Inl f \<Rightarrow> Inl f
        | Inr document \<Rightarrow>
          (case asObject document of
             None \<Rightarrow>
               (case Validate (engine.truncate H) pack (validation ''semantic'' [] None) of
                  (validated, Some operational) \<Rightarrow> Inl (packOperationalFailure operational)
                | (validated, None) \<Rightarrow> Inl (packNotConformant validated))
           | Some packRoot \<Rightarrow>
               if gDiagnostics grammar packRoot \<noteq> [] then Inl (draftGrammarFailure grammar)
               else case hMarshal H (gProject grammar packRoot) of
                 None \<Rightarrow> Inl (unclassed ''JPS-EVALUATION-INTERNAL'' ExitInternal)
               | Some projected \<Rightarrow>
                   let r = Validate (engine.truncate H) projected
                             (validation ''semantic'' (oSupportedExtensions options) None)
                   in concludeConformance r projectionNotConformant
                        (Inr (fst r, packRoot, unsupportedRequiredExtension (fst r)))))"

definition coreConformance :: "host \<Rightarrow> string \<Rightarrow> Options \<Rightarrow> conformity" where
  "coreConformance H pack options =
     (let r = Validate (engine.truncate H) pack
                (validation ''semantic'' (oSupportedExtensions options) (oSupportedProfiles options))
      in concludeConformance r packNotConformant
           (case decodeInput H pack ClassPackNotConformant of
              Inl f \<Rightarrow> Inl f
            | Inr document \<Rightarrow>
                (case asObject document of
                   None \<Rightarrow> Inl (unclassed ''JPS-EVALUATION-INTERNAL'' ExitInternal)
                 | Some packRoot \<Rightarrow> Inr (fst r, packRoot, unsupportedRequiredExtension (fst r)))))"

definition draftProfile :: "host \<Rightarrow> string \<Rightarrow> Options \<Rightarrow> Failure option" where
  "draftProfile H pack options =
     (case NegotiateProfile pack (eTokens H pack) DefaultLimits (oSupportedProfiles options) of
        Inr (declarations, Some d) \<Rightarrow>
          Some (packNotConformant ((NewValidation [])
            \<lparr>vlStatus := (if dgCode d = ''profile-unsupported'' then ''unsupported'' else ''invalid''),
             vlDiagnostics := [d]\<rparr>))
      | _ \<Rightarrow> None)"

definition conformance :: "host \<Rightarrow> string \<Rightarrow> Options \<Rightarrow> conformity" where
  "conformance H pack options =
     (let draft = oRFC0008Quantifiers options \<or> oRFC0016OutcomeValues options
      in case (if draft then draftProfile H pack options else None) of
           Some f \<Rightarrow> Inl f
         | None \<Rightarrow>
             if Version (contract options) \<noteq> EvaluatorSpecVersion \<and> draft
             then Inl (unclassed ''JPS-INVOCATION-DRAFT-RFC'' ExitInvocation)
             else if oRFC0008Quantifiers options then draftConformance H pack options rfc0008Grammar
             else if oRFC0016OutcomeValues options then draftConformance H pack options rfc0016Grammar
             else coreConformance H pack options)"

subsection \<open>The evidence document\<close>

definition evidenceIDs :: "object \<Rightarrow> string list" where
  "evidenceIDs pack =
     List.map_filter (\<lambda>entry. case asObject entry of None \<Rightarrow> None | Some m \<Rightarrow> asString (jget m ''id''))
       (asArray (jget pack ''evidenceRequirements''))"

definition declaredPresence :: "object \<Rightarrow> string \<Rightarrow> tri option" where
  "declaredPresence pack k = (if k \<in> set (evidenceIDs pack) then Some triUnknown else None)"

definition presenceState :: "string \<Rightarrow> tri option" where
  "presenceState s =
     (if s = ''present'' then Some triTrue else if s = ''absent'' then Some triFalse
      else if s = ''unknown'' then Some triUnknown else None)"

fun readEvidence :: "string list \<Rightarrow> object \<Rightarrow> (string \<Rightarrow> tri option) \<Rightarrow> Failure + (string \<Rightarrow> tri option)" where
  "readEvidence [] m known = Inr known"
| "readEvidence (k # ks) m known =
     (if known k = None
      then Inl (refusal ClassMalformedInput ''JPS-EVALUATION-EVIDENCE-KEY'' ExitInvocation)
      else case asString (jget m k) of
             None \<Rightarrow> Inl (refusal ClassMalformedInput ''JPS-EVALUATION-EVIDENCE-VALUE'' ExitInvocation)
           | Some s \<Rightarrow>
               (case presenceState s of
                  None \<Rightarrow> Inl (refusal ClassMalformedInput ''JPS-EVALUATION-EVIDENCE-VALUE'' ExitInvocation)
                | Some t \<Rightarrow> readEvidence ks m (known(k \<mapsto> t))))"

definition decodeEvidence ::
  "('h) engine_scheme \<Rightarrow> string \<Rightarrow> object \<Rightarrow> bool \<Rightarrow> Failure + (string \<Rightarrow> tri option)"
where
  "decodeEvidence H data pack supplied =
     (if length data = 0
      then (if \<not> supplied then Inr (declaredPresence pack)
            else Inl (refusal ClassMalformedInput ''JPS-EVALUATION-INPUT-JSON'' ExitInvocation))
      else case Decode data (eTokens H data) DefaultLimits of
             Inl f \<Rightarrow> Inl (decodeFailure ClassMalformedInput f)
           | Inr document \<Rightarrow>
               (case asObject document of
                  None \<Rightarrow> Inl (refusal ClassMalformedInput ''JPS-EVALUATION-EVIDENCE-SHAPE'' ExitInvocation)
                | Some m \<Rightarrow> readEvidence (sortedMembers m) m (declaredPresence pack)))"

subsection \<open>Admitting a pack\<close>

record packAdmission =
  paValidated :: Validation
  paRoot :: object
  paUnsupported :: "Failure option"
  paFailure :: "Failure option"

type_synonym admissionKey = string

record AdmittedPack =
  apPack :: string
  apAdmissions :: "(admissionKey \<times> packAdmission) list"
  apPackDigest :: string
  apOversized :: "Failure option"

definition maxAdmissions :: nat where
  "maxAdmissions = 64"

definition AdmitPack :: "host \<Rightarrow> string \<Rightarrow> AdmittedPack" where
  "AdmitPack H pack =
     (let over = byteLimit pack ClassPackNotConformant False
      in \<lparr>apPack = pack, apAdmissions = [],
          apPackDigest = (if over = None then hSha256 H pack else []), apOversized = over\<rparr>)"

text \<open>\<open>json.Marshal\<close> of a list of strings, of one that may be nil, and of a truth value.\<close>

definition goTexts :: "string list \<Rightarrow> string" where
  "goTexts ss = bracketed (CHR ''['') (CHR '']'') (map goQuote ss)"

definition goTextsOrNull :: "string list option \<Rightarrow> string" where
  "goTextsOrNull ss = (case ss of None \<Rightarrow> ''null'' | Some xs \<Rightarrow> goTexts xs)"

definition goBool :: "bool \<Rightarrow> string" where
  "goBool b = (if b then ''true'' else ''false'')"

definition admissionKey :: "Options \<Rightarrow> admissionKey" where
  "admissionKey options =
     ''{\"c\":'' @ goQuote (Version (contract options)) @
     '',\"p\":'' @ goTextsOrNull (oSupportedProfiles options) @
     '',\"s\":'' @ goTexts (remdups_adj (sort (oSupportedExtensions options))) @
     '',\"r\":'' @ goBool (oRFC0008Quantifiers options) @
     '',\"v\":'' @ goBool (oRFC0016OutcomeValues options) @ ''}''"

text \<open>The admission computed afresh, and the memo around it: looked up under one lock, computed with no
  lock held, stored under another when the key is still new and there is room.\<close>

definition freshAdmission :: "host \<Rightarrow> string \<Rightarrow> Options \<Rightarrow> packAdmission" where
  "freshAdmission H pack options =
     (case conformance H pack options of
        Inl f \<Rightarrow> \<lparr>paValidated = NewValidation [], paRoot = [], paUnsupported = None, paFailure = Some f\<rparr>
      | Inr (validated, packRoot, deferred) \<Rightarrow>
          \<lparr>paValidated = validated, paRoot = packRoot, paUnsupported = deferred,
           paFailure = declaredSpecVersionWith (vlSpecVersion validated) (contract options)\<rparr>)"

definition rememberAdmission ::
  "admissionKey \<Rightarrow> packAdmission \<Rightarrow> (admissionKey \<times> packAdmission) list \<Rightarrow> (admissionKey \<times> packAdmission) list"
where
  "rememberAdmission key admission memo =
     (if map_of memo key = None \<and> length memo < maxAdmissions then (key, admission) # memo else memo)"

definition admission :: "host \<Rightarrow> AdmittedPack \<Rightarrow> Options \<Rightarrow> packAdmission \<times> AdmittedPack" where
  "admission H a options =
     (let key = admissionKey options
      in case map_of (apAdmissions a) key of
           Some cached \<Rightarrow> (cached, a)
         | None \<Rightarrow>
             let new = freshAdmission H (apPack a) options
             in (new, a\<lparr>apAdmissions := rememberAdmission key new (apAdmissions a)\<rparr>))"

definition AdmitsWith :: "host \<Rightarrow> AdmittedPack \<Rightarrow> Options \<Rightarrow> bool \<times> AdmittedPack" where
  "AdmitsWith H a options =
     (if oneDraft options \<noteq> None then (False, a)
      else let (ad, a1) = admission H a options in (paFailure ad = None \<and> paUnsupported ad = None, a1))"

subsection \<open>Evaluation\<close>

record Evaluation =
  evCommand :: string
  evSpecVersion :: string
  evEvaluatorSpecVersion :: string
  evPackID :: string
  evPackVersion :: string
  evDraftPrototype :: "DraftPrototype option"
  evDisposition :: Disposition
  evHandoffTarget :: "HandoffTarget option"
  evUnmetEvidence :: "UnmetEvidence list"
  evContributors :: "Contributor list"
  evTrace :: "TraceEntry list"
  evArtifact :: "Artifact option"

definition packIdentity :: "object \<Rightarrow> string \<Rightarrow> string" where
  "packIdentity pack k = stringOrEmpty (jget pack k)"

text \<open>Steps that may refuse.\<close>

fun refuseIf :: "Failure option \<Rightarrow> Failure + 'a \<Rightarrow> Failure + 'a" where
  "refuseIf (Some f) rest = Inl f"
| "refuseIf None rest = rest"

fun andThen :: "Failure + 'a \<Rightarrow> ('a \<Rightarrow> Failure + 'b) \<Rightarrow> Failure + 'b" where
  "andThen (Inl f) rest = Inl f"
| "andThen (Inr x) rest = rest x"

definition comparableFailure :: "object \<Rightarrow> json \<Rightarrow> Options \<Rightarrow> Failure option" where
  "comparableFailure pack facts options =
     (if oRequireComparableFacts options
         \<and> requireComparable pack facts (oRFC0008Quantifiers options) (workLimit options)
      then Some (unclassed ''JPS-FACTS-COMPARABLE-REQUIRED'' ExitInvalid) else None)"

definition evaluationOf ::
  "host \<Rightarrow> Options \<Rightarrow> Validation \<Rightarrow> object \<Rightarrow> Disposition \<Rightarrow> HandoffTarget option \<Rightarrow> resolver \<Rightarrow> Evaluation"
where
  "evaluationOf H options validated pack d target r =
     (let version = vlSpecVersion validated; disposition = d\<lparr>dContract := contract options\<rparr>
      in \<lparr>evCommand = oCommand options, evSpecVersion = version,
          evEvaluatorSpecVersion = Version (contract options),
          evPackID = packIdentity pack ''id'', evPackVersion = packIdentity pack ''version'',
          evDraftPrototype =
            (if oRFC0016OutcomeValues options then Some (outcomeValuesPrototype pack)
             else if oRFC0008Quantifiers options then Some (draftPrototype pack) else None),
          evDisposition = disposition, evHandoffTarget = target,
          evUnmetEvidence = unmetEvidence (rEval r),
          evContributors = outcomeContributors disposition (rTrace r), evTrace = rTrace r,
          evArtifact = map_option (\<lambda>a. a\<lparr>arSpecVersion := version\<rparr>) (eSets H version)\<rparr>)"

text \<open>The walk over admitted inputs, and the preflight before it.\<close>

definition walkPack ::
  "host \<Rightarrow> Options \<Rightarrow> packAdmission \<Rightarrow> json \<Rightarrow> (string \<Rightarrow> tri option) \<Rightarrow> Failure + Evaluation"
where
  "walkPack H options ad facts presence =
     (let e = newEvaluator presence (oRFC0008Quantifiers options) (oRFC0016OutcomeValues options) (workLimit options)
      in case resolvePack (paRoot ad) facts e of
           (Inl f, r) \<Rightarrow> Inl f
         | (Inr (d, target), r) \<Rightarrow> Inr (evaluationOf H options (paValidated ad) (paRoot ad) d target r))"

definition evaluateInputs ::
  "host \<Rightarrow> Options \<Rightarrow> packAdmission \<Rightarrow> string \<Rightarrow> string \<Rightarrow> Failure + Evaluation"
where
  "evaluateInputs H options ad facts evidenceText =
     refuseIf (byteLimit facts ClassMalformedInput (oversized options ''facts''))
       (andThen (decodeInput H facts ClassMalformedInput) (\<lambda>document.
         refuseIf (byteLimit evidenceText ClassMalformedInput (oversized options ''evidence''))
           (andThen (decodeEvidence H evidenceText (paRoot ad) (oEvidenceSupplied options)) (\<lambda>presence.
             refuseIf (paUnsupported ad)
               (refuseIf (comparableFailure (paRoot ad) document options)
                 (walkPack H options ad document presence))))))"

definition EvaluateAdmitted ::
  "host \<Rightarrow> AdmittedPack \<Rightarrow> string \<Rightarrow> string \<Rightarrow> Options \<Rightarrow> (Failure + Evaluation) \<times> AdmittedPack"
where
  "EvaluateAdmitted H a facts evidenceText options =
     (case oneDraft options of
        Some f \<Rightarrow> (Inl f, a)
      | None \<Rightarrow>
        case apOversized a of
          Some f \<Rightarrow> (Inl f, a)
        | None \<Rightarrow>
          case byteLimit (apPack a) ClassPackNotConformant (oversized options ''pack'') of
            Some f \<Rightarrow> (Inl f, a)
          | None \<Rightarrow>
              let (ad, a1) = admission H a options
              in (refuseIf (paFailure ad) (evaluateInputs H options ad facts evidenceText), a1))"

definition EvaluateWith :: "host \<Rightarrow> string \<Rightarrow> string \<Rightarrow> string \<Rightarrow> Options \<Rightarrow> Failure + Evaluation" where
  "EvaluateWith H pack facts evidenceText options =
     fst (EvaluateAdmitted H (AdmitPack H pack) facts evidenceText options)"

subsection \<open>Selecting a contract\<close>

definition contractOf :: "string \<Rightarrow> EvaluatorContract" where
  "contractOf version = \<lparr>ecSpecVersion = version, ecProfile = (if version = ''0.3.0'' then ''base'' else [])\<rparr>"

definition SelectContract :: "host \<Rightarrow> string \<Rightarrow> Failure + EvaluatorContract" where
  "SelectContract H pack =
     refuseIf (byteLimit pack ClassPackNotConformant False)
       (case NegotiateProfile pack (eTokens H pack) DefaultLimits None of
          Inl f \<Rightarrow> Inl (decodeFailure ClassPackNotConformant f)
        | Inr (declarations, Some d) \<Rightarrow>
            Inl (if dgCode d = ''profile-unsupported'' then profileRefusal (dgCode d) (dgProfile d)
                 else refusal ClassPackNotConformant (dgCode d) ExitInvalid)
        | Inr (declarations, None) \<Rightarrow>
            (let version = stringOrEmpty (jget declarations ''specVersion'')
             in if version = []
                then Inl (refusal ClassPackNotConformant ''JPS-EVALUATION-PACK-SPEC-VERSION'' ExitInvalid)
                else if validateContract (contractOf version) \<noteq> None
                then (case declaredSpecVersionWith version LegacyEvaluatorContract of
                        Some f \<Rightarrow> Inl f | None \<Rightarrow> Inr (contractOf []))
                else Inr (contractOf version)))"

subsection \<open>Fact-type advice\<close>

definition MaxFactTypeFindings :: nat where
  "MaxFactTypeFindings = 100"

definition MaxFactTypeFindingBytes :: nat where
  "MaxFactTypeFindingBytes = 256 * 1024"

definition factTypeLimit :: Failure where
  "factTypeLimit = unclassed ''FACT-CHECK-LIMIT'' ExitInvalid"

record FactTypeFinding =
  ffPath :: string
  ffWithin :: "string option"
  ffOperator :: string
  ffFactType :: string
  ffExpectedTypes :: "string list"

definition factTypeFinding :: "incomparable \<Rightarrow> FactTypeFinding" where
  "factTypeFinding i =
     \<lparr>ffPath = iPath i, ffWithin = iWithin i, ffOperator = iOperator i, ffFactType = iFactType i,
      ffExpectedTypes = (if iOrdered i then [''decimal-string''] else iMatches i)\<rparr>"

fun factTypeReport :: "(incomparable \<Rightarrow> nat) \<Rightarrow> nat \<Rightarrow> incomparable list \<Rightarrow> Failure + FactTypeFinding list" where
  "factTypeReport bytes used [] = Inr []"
| "factTypeReport bytes used (i # rest) =
     (let used1 = used + bytes i + 1
      in if used1 > MaxFactTypeFindingBytes then Inl factTypeLimit
         else andThen (factTypeReport bytes used1 rest) (\<lambda>fs. Inr (factTypeFinding i # fs)))"

definition CheckFactTypes ::
  "host \<Rightarrow> AdmittedPack \<Rightarrow> string \<Rightarrow> Options \<Rightarrow> (Failure + FactTypeFinding list) \<times> AdmittedPack"
where
  "CheckFactTypes H a facts options =
     (case oneDraft options of
        Some f \<Rightarrow> (Inl f, a)
      | None \<Rightarrow>
        case apOversized a of
          Some f \<Rightarrow> (Inl f, a)
        | None \<Rightarrow>
          case byteLimit (apPack a) ClassPackNotConformant (oversized options ''pack'') of
            Some f \<Rightarrow> (Inl f, a)
          | None \<Rightarrow>
              let (ad, a1) = admission H a options
              in (refuseIf (paFailure ad) (refuseIf (paUnsupported ad)
                    (refuseIf (byteLimit facts ClassMalformedInput (oversized options ''facts''))
                      (andThen (decodeInput H facts ClassMalformedInput) (\<lambda>document.
                        let (found, over) =
                              incomparableFacts (paRoot ad) document (oRFC0008Quantifiers options) (workLimit options)
                        in if over \<or> length found > MaxFactTypeFindings then Inl factTypeLimit
                           else factTypeReport (hFindingBytes H) 2 found)))), a1))"

subsection \<open>The memo of admissions\<close>

text \<open>
  What a memo promises its client: an entry once stored stays, a lookup finds only what was there or was
  just stored, and its size is bounded. A client computes something for each request and remembers it
  under a key. The key need not determine all of what is computed: it determines a view of it, and
  for plain requests the whole. Then a memo that holds what requests computed answers each request with
  something of the same view, and a plain request as if nothing were remembered.
\<close>

locale bounded_memo =
  fixes lookup :: "'m \<Rightarrow> 'k \<Rightarrow> 'v option"
    and remember :: "'k \<Rightarrow> 'v \<Rightarrow> 'm \<Rightarrow> 'm"
    and entries :: "'m \<Rightarrow> nat"
    and bound :: nat
  assumes lookup_remember: "lookup (remember k v m) k' = Some w \<Longrightarrow> lookup m k' = Some w \<or> (k' = k \<and> w = v)"
    and lookup_kept: "lookup m k' = Some w \<Longrightarrow> lookup (remember k v m) k' = Some w"
    and remember_bounded: "entries m \<le> bound \<Longrightarrow> entries (remember k v m) \<le> bound"

locale memo_client = bounded_memo lookup remember entries bound
  for lookup :: "'m \<Rightarrow> 'k \<Rightarrow> 'v option" and remember :: "'k \<Rightarrow> 'v \<Rightarrow> 'm \<Rightarrow> 'm"
    and entries :: "'m \<Rightarrow> nat" and bound :: nat +
  fixes keyOf :: "'r \<Rightarrow> 'k"
    and compute :: "'r \<Rightarrow> 'v"
    and view :: "'v \<Rightarrow> 'w"
    and plain :: "'r \<Rightarrow> bool"
  assumes key_view: "keyOf r = keyOf r' \<Longrightarrow> view (compute r) = view (compute r')"
    and key_plain: "plain r \<Longrightarrow> keyOf r = keyOf r' \<Longrightarrow> compute r = compute r'"
begin

definition serves :: "'r \<Rightarrow> 'v \<Rightarrow> bool" where
  "serves r w \<longleftrightarrow> view w = view (compute r) \<and> (plain r \<longrightarrow> w = compute r)"

definition faithful :: "'m \<Rightarrow> bool" where
  "faithful m \<longleftrightarrow> entries m \<le> bound \<and> (\<forall>r w. lookup m (keyOf r) = Some w \<longrightarrow> serves r w)"

definition answer :: "'r \<Rightarrow> 'm \<Rightarrow> 'v \<times> 'm" where
  "answer r m = (case lookup m (keyOf r) of
     Some w \<Rightarrow> (w, m) | None \<Rightarrow> (compute r, remember (keyOf r) (compute r) m))"

lemma serves_compute: "serves r (compute r)"
  by (simp add: serves_def)

lemma serves_key: "keyOf r' = keyOf r \<Longrightarrow> serves r' (compute r)"
  by (metis serves_def key_view key_plain)

lemma faithful_remember: "faithful m \<Longrightarrow> faithful (remember (keyOf r) (compute r) m)"
  unfolding faithful_def by (metis serves_key lookup_remember remember_bounded)

lemma faithful_lookup: "faithful m \<Longrightarrow> lookup m (keyOf r) = Some w \<Longrightarrow> serves r w"
  by (simp add: faithful_def)

lemma faithful_answer: "faithful m \<Longrightarrow> serves r (fst (answer r m)) \<and> faithful (snd (answer r m))"
  by (auto simp: answer_def faithful_lookup faithful_remember serves_compute split: option.split)

end

subsection \<open>What the key determines\<close>

lemma goTexts_units:
  assumes "goTexts ss @ u = goTexts ts @ v"
  shows "map goUnits ss = map goUnits ts \<and> u = v"
proof -
  have written: "those (map (\<lambda>s. Some (goQuote s)) xs) = Some (map goQuote xs)" for xs
    by (induction xs) simp_all
  have "list_all2 (\<lambda>s t. goUnits s = goUnits t) ss ts \<and> u = v"
  proof (rule bracketed_prefix[OF _ _ written written, where rb = "CHR '']''" and lb = "CHR ''[''"])
    show "Some (goQuote x) = Some p \<Longrightarrow> p \<noteq> [] \<and> hd p \<noteq> CHR '']''" for x p
      by (auto simp: goQuote_def quoteMark_def)
    show "bracketed (CHR ''['') (CHR '']'') (map goQuote ss) @ u = bracketed (CHR ''['') (CHR '']'') (map goQuote ts) @ v"
      using assms by (simp only: goTexts_def)
    fix x y p q u v assume "Some (goQuote x) = Some p" "Some (goQuote y) = Some q" "p @ u = q @ v"
    then show "goUnits x = goUnits y \<and> u = v" using goQuote_units[of x u y v] by simp
  qed simp
  then show ?thesis by (auto simp: list_all2_map1 list_all2_map2 list_all2_eq)
qed

lemma goBool_prefix: "goBool b @ u = goBool c @ v \<Longrightarrow> b = c \<and> u = v"
  by (auto simp: goBool_def split: if_splits)

lemma goNil_units:
  assumes "goTextsOrNull ps @ u = goTextsOrNull qs @ v"
  shows "map_option (map goUnits) ps = map_option (map goUnits) qs \<and> u = v"
proof (cases "ps = None \<or> qs = None")
  case True
  then show ?thesis using assms
    by (cases ps; cases qs) (simp_all add: goTextsOrNull_def goTexts_def bracketed_def)
next
  case False
  then obtain ss ts where "ps = Some ss" "qs = Some ts" by (cases ps; cases qs) simp_all
  with goTexts_units[of ss u ts v] assms show ?thesis by (simp add: goTextsOrNull_def)
qed

lemma admissionKey_units:
  assumes "admissionKey o1 = admissionKey o2"
  shows "goUnits (Version (contract o1)) = goUnits (Version (contract o2))"
    and "map_option (map goUnits) (oSupportedProfiles o1) = map_option (map goUnits) (oSupportedProfiles o2)"
    and "map goUnits (remdups_adj (sort (oSupportedExtensions o1))) = map goUnits (remdups_adj (sort (oSupportedExtensions o2)))"
    and "oRFC0008Quantifiers o1 = oRFC0008Quantifiers o2" "oRFC0016OutcomeValues o1 = oRFC0016OutcomeValues o2"
proof -
  note split = assms[unfolded admissionKey_def append_assoc, THEN same_append_eq[THEN iffD1]]
  from goQuote_units[OF split]
  show "goUnits (Version (contract o1)) = goUnits (Version (contract o2))" by simp
  note p = goNil_units[OF goQuote_units[OF split, THEN conjunct2, THEN same_append_eq[THEN iffD1]]]
  from p show "map_option (map goUnits) (oSupportedProfiles o1) = map_option (map goUnits) (oSupportedProfiles o2)" by simp
  note s = goTexts_units[OF p[THEN conjunct2, THEN same_append_eq[THEN iffD1]]]
  from s show "map goUnits (remdups_adj (sort (oSupportedExtensions o1))) = map goUnits (remdups_adj (sort (oSupportedExtensions o2)))"
    by simp
  note r = goBool_prefix[OF s[THEN conjunct2, THEN same_append_eq[THEN iffD1]]]
  from r show "oRFC0008Quantifiers o1 = oRFC0008Quantifiers o2" by simp
  from goBool_prefix[OF r[THEN conjunct2, THEN same_append_eq[THEN iffD1]]]
  show "oRFC0016OutcomeValues o1 = oRFC0016OutcomeValues o2" by simp
qed

text \<open>The key is no injection: bytes that are not UTF-8 are all written alike.\<close>

lemma admissionKey_collides:
  assumes "oSupportedExtensions options = [[CHR 0xFF]]"
  shows "admissionKey (options\<lparr>oSupportedExtensions := [[CHR 0xFE]]\<rparr>) = admissionKey options"
proof -
  have "goUnits [CHR 0xFF] = [badByte]" "goUnits [CHR 0xFE] = [badByte]"
    by (subst goUnits.simps, simp add: decodeRune_def between_def)+
  then have "goQuote [CHR 0xFE] = goQuote [CHR 0xFF]" by (simp add: goQuote_def)
  then show ?thesis by (simp add: admissionKey_def goTexts_def contract_def assms)
qed

lemma units_sameTexts:
  assumes "map goUnits xs = map goUnits ys"
  shows "sameTexts xs ys"
  unfolding sameTexts_def
proof (intro allI impI)
  fix s assume "validUtf8 s"
  then have "s \<in> set zs \<longleftrightarrow> goUnits s \<in> set (map goUnits zs)" for zs using goUnits_inject[of s] by auto
  then show "s \<in> set xs \<longleftrightarrow> s \<in> set ys" by (simp only: assms)
qed

lemma map_units_inject: "map goUnits xs = map goUnits ys \<Longrightarrow> list_all validUtf8 xs \<Longrightarrow> xs = ys"
proof (induction xs arbitrary: ys)
  case (Cons x xs)
  then obtain y ys' where "ys = y # ys'" "goUnits x = goUnits y" "map goUnits xs = map goUnits ys'" by (cases ys) auto
  with Cons goUnits_inject show ?case by auto
qed simp

lemma sameTexts_sorted: "sameTexts (remdups_adj (sort xs)) (remdups_adj (sort ys)) \<longleftrightarrow> sameTexts xs ys"
  by (simp add: sameTexts_def)

lemma negotiated_units:
  assumes "map_option (map goUnits) ps = map_option (map goUnits) qs"
  shows "negotiated declarations ps = negotiated declarations qs"
proof -
  have "validUtf8 ''base''" by (simp add: validUtf8_ascii_Cons)
  then have "''base'' \<in> set (case ps of None \<Rightarrow> [''base''] | Some xs \<Rightarrow> xs) \<longleftrightarrow>
      ''base'' \<in> set (case qs of None \<Rightarrow> [''base''] | Some xs \<Rightarrow> xs)"
    using assms units_sameTexts[of "the ps" "the qs"] by (cases ps; cases qs) (simp_all add: sameTexts_def)
  then show ?thesis unfolding negotiated_def Let_def by (auto split: option.split)
qed

lemma Validate_profiles:
  assumes "\<And>declarations. negotiated declarations ps = negotiated declarations qs"
  shows "Validate E data (given\<lparr>voSupportedProfiles := ps\<rparr>) = Validate E data (given\<lparr>voSupportedProfiles := qs\<rparr>)"
proof -
  have schema: "selectedSchema E (o1\<lparr>voSupportedProfiles := zs\<rparr>) v = selectedSchema E o1 v" for o1 v zs
    by (simp add: selectedSchema_def)
  have semantic: "validateSemantic E (o1\<lparr>voSupportedProfiles := zs\<rparr>) v m out = validateSemantic E o1 v m out" for o1 v m out zs
    by (simp add: validateSemantic_def Let_def case_prod_unfold)
  have structural: "validateStructure E (o1\<lparr>voSupportedProfiles := zs\<rparr>) v s m out = validateStructure E o1 v s m out"
    for o1 v s m out zs
    by (simp add: validateStructure_def Let_def case_prod_unfold semantic cong: if_cong)
  have version: "validateVersion E (o1\<lparr>voSupportedProfiles := zs\<rparr>) m out = validateVersion E o1 m out" for o1 m out zs
    by (simp add: validateVersion_def Let_def structural schema cong: option.case_cong if_cong)
  have decoded: "validateDecoded E data (o1\<lparr>voSupportedProfiles := zs\<rparr>) out = validateDecoded E data o1 out" for o1 out zs
    by (simp add: validateDecoded_def Let_def version cong: option.case_cong sum.case_cong if_cong)
  have defaulted: "defaulted (given\<lparr>voSupportedProfiles := zs\<rparr>) = (defaulted given)\<lparr>voSupportedProfiles := zs\<rparr>" for zs
    by (simp add: defaulted_def Let_def)
  have "gateOf E data (o1\<lparr>voSupportedProfiles := ps\<rparr>) = gateOf E data (o1\<lparr>voSupportedProfiles := qs\<rparr>)" for o1
    using assms by (simp add: gateOf_def split: sum.split)
  then show ?thesis by (simp add: Validate_gate defaulted decoded split: option.split)
qed

lemma validation_updates:
  "(validation through xs None)\<lparr>voSupportedProfiles := ps\<rparr> = validation through xs ps"
  "(validation through [] ps)\<lparr>voSupportedExtensions := xs\<rparr> = validation through xs ps"
  by (simp_all add: validation_def)

lemma Validate_view:
  assumes "map_option (map goUnits) ps = map_option (map goUnits) qs" "sameTexts xs ys"
  shows "unlistedResult (Validate E data (validation through xs ps)) = unlistedResult (Validate E data (validation through ys qs))"
proof -
  have "Validate E data (validation through xs ps) = Validate E data (validation through xs qs)"
    using Validate_profiles[OF negotiated_units[OF assms(1)], of E data "validation through xs None"]
    by (simp only: validation_updates)
  then show ?thesis using Validate_extension_texts[OF assms(2), of E data "validation through [] qs"]
    by (simp only: validation_updates)
qed

lemma Validate_whole:
  assumes "map_option (map goUnits) ps = map_option (map goUnits) qs" "set xs = set ys"
  shows "Validate E data (validation through xs ps) = Validate E data (validation through ys qs)"
proof -
  have "Validate E data (validation through xs ps) = Validate E data (validation through xs qs)"
    using Validate_profiles[OF negotiated_units[OF assms(1)], of E data "validation through xs None"]
    by (simp only: validation_updates)
  then show ?thesis using Validate_extension_set[OF assms(2), of E data "validation through [] qs"]
    by (simp only: validation_updates)
qed

lemma Version_units:
  assumes "goUnits (Version c1) = goUnits (Version c2)"
  shows "Version c1 = Version c2 \<or>
    Version c1 \<notin> {EvaluatorSpecVersion, ''0.3.0''} \<and> Version c2 \<notin> {EvaluatorSpecVersion, ''0.3.0''}"
proof -
  have "validUtf8 EvaluatorSpecVersion" "validUtf8 ''0.3.0''"
    by (simp_all add: EvaluatorSpecVersion_def validUtf8_ascii_Cons)
  then show ?thesis using assms goUnits_inject[of "Version c1" "Version c2"] goUnits_inject[of "Version c2" "Version c1"]
    by (metis insert_iff singletonD)
qed

lemma Version_contract:
  assumes "goUnits (Version (contract o1)) = goUnits (Version (contract o2))"
  shows "declaredSpecVersionWith v (contract o1) = declaredSpecVersionWith v (contract o2)"
    and "Version (contract o1) = EvaluatorSpecVersion \<longleftrightarrow> Version (contract o2) = EvaluatorSpecVersion"
proof -
  from Version_units[OF assms]
  show "Version (contract o1) = EvaluatorSpecVersion \<longleftrightarrow> Version (contract o2) = EvaluatorSpecVersion" by auto
  from Version_units[OF assms] show "declaredSpecVersionWith v (contract o1) = declaredSpecVersionWith v (contract o2)"
  proof
    assume same: "Version (contract o1) = Version (contract o2)"
    show ?thesis
    proof (cases "Version (contract o1) = EvaluatorSpecVersion")
      case True
      with same show ?thesis by (simp add: declaredSpecVersionWith_def)
    next
      case False
      then have "contract o1 = contract o2"
        using same by (auto simp: contract_def Let_def Version_def split: if_splits)
      then show ?thesis by simp
    qed
  qed (simp add: declaredSpecVersionWith_def validateContract_def)
qed

text \<open>The part of an admission that an evaluation reads, and all of it but the list of supported extensions
  that the validation repeats.\<close>

definition unlistedAdmission :: "packAdmission \<Rightarrow> packAdmission" where
  "unlistedAdmission a = a\<lparr>paValidated := unlisted (paValidated a)\<rparr>"

abbreviation unlistedConformity :: "conformity \<Rightarrow> conformity" where
  "unlistedConformity r \<equiv> map_sum id (map_prod unlisted id) r"

lemma unlisted_decides:
  assumes "unlisted v = unlisted w"
  shows "vlStatus v = vlStatus w" "vlDiagnostics v = vlDiagnostics w" "vlSpecVersion v = vlSpecVersion w"
    "packNotConformant v = packNotConformant w" "projectionNotConformant v = projectionNotConformant w"
    "unsupportedRequiredExtension v = unsupportedRequiredExtension w"
proof -
  show f: "vlStatus v = vlStatus w" "vlDiagnostics v = vlDiagnostics w" "vlSpecVersion v = vlSpecVersion w"
    by (metis assms unlisted_fields(1), metis assms unlisted_fields(3), metis assms unlisted_fields(2))
  show "packNotConformant v = packNotConformant w" "projectionNotConformant v = projectionNotConformant w"
    "unsupportedRequiredExtension v = unsupportedRequiredExtension w"
    by (simp_all add: f packNotConformant_def projectionNotConformant_def unsupportedRequiredExtension_def)
qed

lemma concludeConformance_view:
  assumes "unlistedResult r1 = unlistedResult r2" "unlistedConformity rest1 = unlistedConformity rest2"
    and "\<And>v w. unlisted v = unlisted w \<Longrightarrow> refuse v = refuse w"
  shows "unlistedConformity (concludeConformance r1 refuse rest1) = unlistedConformity (concludeConformance r2 refuse rest2)"
proof -
  obtain v1 f where r1: "r1 = (v1, f)" by (cases r1)
  with assms(1) obtain v2 where r2: "r2 = (v2, f)" and u: "unlisted v1 = unlisted v2" by (cases r2) auto
  show ?thesis using assms(2) unlisted_decides[OF u] assms(3)[OF u]
    by (cases f) (simp_all add: concludeConformance_def r1 r2)
qed

lemma coreConformance_view:
  assumes "map_option (map goUnits) (oSupportedProfiles o1) = map_option (map goUnits) (oSupportedProfiles o2)"
    and "sameTexts (oSupportedExtensions o1) (oSupportedExtensions o2)"
  shows "unlistedConformity (coreConformance H pack o1) = unlistedConformity (coreConformance H pack o2)"
proof -
  note v = Validate_view[OF assms, of "engine.truncate H" pack "''semantic''"]
  then have u: "unlisted (fst (Validate (engine.truncate H) pack (validation ''semantic'' (oSupportedExtensions o1) (oSupportedProfiles o1)))) =
      unlisted (fst (Validate (engine.truncate H) pack (validation ''semantic'' (oSupportedExtensions o2) (oSupportedProfiles o2))))"
    by (metis fst_map_prod)
  show ?thesis unfolding coreConformance_def Let_def
    by (rule concludeConformance_view[OF v], use u unlisted_decides(6)[OF u] in \<open>simp split: sum.split option.split\<close>)
       (rule unlisted_decides(4))
qed

lemma draftConformance_view:
  assumes "sameTexts (oSupportedExtensions o1) (oSupportedExtensions o2)"
  shows "unlistedConformity (draftConformance H pack o1 grammar) = unlistedConformity (draftConformance H pack o2 grammar)"
proof -
  note v = Validate_view[OF refl[of "map_option (map goUnits) None"] assms, of "engine.truncate H" _ "''semantic''"]
  have u: "unlisted (fst (Validate (engine.truncate H) data (validation ''semantic'' (oSupportedExtensions o1) None))) =
      unlisted (fst (Validate (engine.truncate H) data (validation ''semantic'' (oSupportedExtensions o2) None)))" for data
    by (metis fst_map_prod v)
  have last: "unlistedConformity (let r = Validate (engine.truncate H) data (validation ''semantic'' (oSupportedExtensions o1) None)
        in concludeConformance r projectionNotConformant (Inr (fst r, root, unsupportedRequiredExtension (fst r)))) =
      unlistedConformity (let r = Validate (engine.truncate H) data (validation ''semantic'' (oSupportedExtensions o2) None)
        in concludeConformance r projectionNotConformant (Inr (fst r, root, unsupportedRequiredExtension (fst r))))" for data root
    unfolding Let_def
    by (rule concludeConformance_view[OF v], use u unlisted_decides(6)[OF u] in simp) (rule unlisted_decides(5))
  show ?thesis unfolding draftConformance_def
    by (simp add: last split: prod.split option.split sum.split)
qed

lemma freshAdmission_key:
  assumes "admissionKey o1 = admissionKey o2"
  shows "unlistedAdmission (freshAdmission H pack o1) = unlistedAdmission (freshAdmission H pack o2)"
proof -
  note k = admissionKey_units[OF assms]
  note version = Version_contract[OF k(1)]
  have exts: "sameTexts (oSupportedExtensions o1) (oSupportedExtensions o2)"
    using units_sameTexts[OF k(3)] by (simp add: sameTexts_sorted)
  have "draftProfile H pack o1 = draftProfile H pack o2"
    unfolding draftProfile_def NegotiateProfile_def negotiated_units[OF k(2)] ..
  then have "unlistedConformity (conformance H pack o1) = unlistedConformity (conformance H pack o2)"
    using coreConformance_view[OF k(2) exts] draftConformance_view[OF exts] version(2)
    by (simp add: conformance_def Let_def k(4,5) split: option.split)
  then show ?thesis
    using version(1)
    by (cases "conformance H pack o1"; cases "conformance H pack o2")
       (auto simp: freshAdmission_def unlistedAdmission_def intro: arg_cong[OF unlisted_decides(3)])
qed

lemma freshAdmission_whole:
  assumes "list_all validUtf8 (oSupportedExtensions o1)" "admissionKey o1 = admissionKey o2"
  shows "freshAdmission H pack o1 = freshAdmission H pack o2"
proof -
  note k = admissionKey_units[OF assms(2)]
  note version = Version_contract[OF k(1)]
  have "remdups_adj (sort (oSupportedExtensions o1)) = remdups_adj (sort (oSupportedExtensions o2))"
    by (rule map_units_inject[OF k(3)]) (use assms(1) in \<open>simp add: list_all_iff\<close>)
  then have exts: "set (oSupportedExtensions o1) = set (oSupportedExtensions o2)" by (metis remdups_adj_set set_sort)
  have "draftProfile H pack o1 = draftProfile H pack o2"
    unfolding draftProfile_def NegotiateProfile_def negotiated_units[OF k(2)] ..
  moreover have "draftConformance H pack o1 grammar = draftConformance H pack o2 grammar" for grammar
    unfolding draftConformance_def Validate_whole[OF refl[of "map_option (map goUnits) None"] exts] ..
  moreover have "coreConformance H pack o1 = coreConformance H pack o2"
    unfolding coreConformance_def Validate_whole[OF k(2) exts] ..
  ultimately have "conformance H pack o1 = conformance H pack o2"
    unfolding conformance_def k(4,5) version(2) by (simp only:)
  then show ?thesis unfolding freshAdmission_def version(1) by simp
qed

interpretation am: bounded_memo map_of rememberAdmission length maxAdmissions
  by unfold_locales (auto simp: rememberAdmission_def split: if_splits)

interpretation ac: memo_client map_of rememberAdmission length maxAdmissions admissionKey "freshAdmission H pack"
  unlistedAdmission "\<lambda>options. list_all validUtf8 (oSupportedExtensions options)"
  for H pack
  by unfold_locales (rule freshAdmission_key, assumption, rule freshAdmission_whole)

definition soundMemo :: "host \<Rightarrow> AdmittedPack \<Rightarrow> bool" where
  "soundMemo H a \<longleftrightarrow> ac.faithful H (apPack a) (apAdmissions a)"

lemma admission_answer: "admission H a options =
  (fst (ac.answer H (apPack a) options (apAdmissions a)),
   a\<lparr>apAdmissions := snd (ac.answer H (apPack a) options (apAdmissions a))\<rparr>)"
  by (simp add: admission_def ac.answer_def Let_def split: option.split)

lemma admission_fresh:
  assumes "soundMemo H a"
  shows "ac.serves H (apPack a) options (fst (admission H a options))"
    and "soundMemo H (snd (admission H a options))"
    and "apPack (snd (admission H a options)) = apPack a" "apOversized (snd (admission H a options)) = apOversized a"
  using ac.faithful_answer[of H "apPack a" "apAdmissions a" options] assms
  by (simp_all add: soundMemo_def admission_answer)

text \<open>What an evaluation reads of an admission is the same for all that serve its request.\<close>

lemma unlistedAdmission_decides:
  assumes "unlistedAdmission a = unlistedAdmission b"
  shows "paRoot a = paRoot b" "paUnsupported a = paUnsupported b" "paFailure a = paFailure b"
    "vlSpecVersion (paValidated a) = vlSpecVersion (paValidated b)"
  using assms unlisted_decides(3)[of "paValidated a" "paValidated b"]
  by (cases a; cases b; simp add: unlistedAdmission_def)+

lemma evaluateInputs_view:
  assumes "unlistedAdmission a = unlistedAdmission b"
  shows "refuseIf (paFailure a) (evaluateInputs H options a facts evidenceText) =
    refuseIf (paFailure b) (evaluateInputs H options b facts evidenceText)"
  unfolding evaluateInputs_def walkPack_def evaluationOf_def unlistedAdmission_decides[OF assms] ..

lemma AdmitPack_sound: "soundMemo H (AdmitPack H pack)" "apPack (AdmitPack H pack) = pack"
  "apOversized (AdmitPack H pack) = byteLimit pack ClassPackNotConformant False"
  by (simp_all add: soundMemo_def ac.faithful_def AdmitPack_def Let_def)

subsection \<open>The order of precedence\<close>

fun firstOf :: "'a option list \<Rightarrow> 'a option" where
  "firstOf [] = None"
| "firstOf (None # rest) = firstOf rest"
| "firstOf (Some x # rest) = Some x"

definition failureOf :: "Failure + 'a \<Rightarrow> Failure option" where
  "failureOf r = (case r of Inl f \<Rightarrow> Some f | Inr x \<Rightarrow> None)"

definition documentOf :: "host \<Rightarrow> string \<Rightarrow> json" where
  "documentOf H data = (case decodeInput H data ClassMalformedInput of Inl f \<Rightarrow> JNull | Inr v \<Rightarrow> v)"

definition presenceIn :: "host \<Rightarrow> string \<Rightarrow> object \<Rightarrow> bool \<Rightarrow> string \<Rightarrow> tri option" where
  "presenceIn H data pack supplied =
     (case decodeEvidence H data pack supplied of Inl f \<Rightarrow> Map.empty | Inr presence \<Rightarrow> presence)"

text \<open>What can refuse an evaluation before it starts, in the order of section 8.4.\<close>

definition preflightFailures :: "host \<Rightarrow> string \<Rightarrow> string \<Rightarrow> string \<Rightarrow> Options \<Rightarrow> Failure option list" where
  "preflightFailures H pack facts evidenceText options =
     (let ad = freshAdmission H pack options
      in [oneDraft options,
          byteLimit pack ClassPackNotConformant (oversized options ''pack''),
          paFailure ad,
          byteLimit facts ClassMalformedInput (oversized options ''facts''),
          failureOf (decodeInput H facts ClassMalformedInput),
          byteLimit evidenceText ClassMalformedInput (oversized options ''evidence''),
          failureOf (decodeEvidence H evidenceText (paRoot ad) (oEvidenceSupplied options)),
          paUnsupported ad,
          comparableFailure (paRoot ad) (documentOf H facts) options])"

definition evaluated :: "host \<Rightarrow> string \<Rightarrow> string \<Rightarrow> string \<Rightarrow> Options \<Rightarrow> Failure + Evaluation" where
  "evaluated H pack facts evidenceText options =
     (case firstOf (preflightFailures H pack facts evidenceText options) of
        Some f \<Rightarrow> Inl f
      | None \<Rightarrow>
          let ad = freshAdmission H pack options
          in walkPack H options ad (documentOf H facts)
               (presenceIn H evidenceText (paRoot ad) (oEvidenceSupplied options)))"

definition gate :: "Failure option list \<Rightarrow> Failure + 'a \<Rightarrow> Failure + 'a" where
  "gate fs r = (case firstOf fs of Some f \<Rightarrow> Inl f | None \<Rightarrow> r)"

lemma gate_pass: "gate (None # fs) r = gate fs r"
  by (simp add: gate_def)

lemma evaluated_gate:
  "evaluated H pack facts evidenceText options =
   gate (preflightFailures H pack facts evidenceText options)
     (walkPack H options (freshAdmission H pack options) (documentOf H facts)
       (presenceIn H evidenceText (paRoot (freshAdmission H pack options)) (oEvidenceSupplied options)))"
  unfolding evaluated_def gate_def Let_def ..

lemma gate_stop: "gate (Some f # fs) r = Inl f"
  by (simp add: gate_def)

lemma gate_none: "r = gate [] r"
  by (simp add: gate_def)

lemma refuseIf_gate: "refuseIf f (gate fs r) = gate (f # fs) r"
  by (cases f) (simp_all add: gate_def)

lemma andThen_gate:
  assumes "\<And>x. d = Inr x \<Longrightarrow> y = x"
  shows "andThen d (\<lambda>x. gate (fs x) (r x)) = gate (failureOf d # fs y) (r y)"
  using assms by (cases d) (simp_all add: gate_def failureOf_def)

lemma evaluateInputs_gate:
  "refuseIf (paFailure ad) (evaluateInputs H options ad facts evidenceText) =
   gate [paFailure ad,
         byteLimit facts ClassMalformedInput (oversized options ''facts''),
         failureOf (decodeInput H facts ClassMalformedInput),
         byteLimit evidenceText ClassMalformedInput (oversized options ''evidence''),
         failureOf (decodeEvidence H evidenceText (paRoot ad) (oEvidenceSupplied options)),
         paUnsupported ad,
         comparableFailure (paRoot ad) (documentOf H facts) options]
     (walkPack H options ad (documentOf H facts) (presenceIn H evidenceText (paRoot ad) (oEvidenceSupplied options)))"
proof -
  let ?proofs = "decodeEvidence H evidenceText (paRoot ad) (oEvidenceSupplied options)"
  let ?presence = "presenceIn H evidenceText (paRoot ad) (oEvidenceSupplied options)"
  have facts: "decodeInput H facts ClassMalformedInput = Inr x \<Longrightarrow> documentOf H facts = x" for x
    by (simp add: documentOf_def)
  have presence: "?proofs = Inr x \<Longrightarrow> ?presence = x" for x
    by (simp add: presenceIn_def)
  have inner: "refuseIf (paUnsupported ad) (refuseIf (comparableFailure (paRoot ad) doc options) (walkPack H options ad doc p)) =
      gate [paUnsupported ad, comparableFailure (paRoot ad) doc options] (walkPack H options ad doc p)" for doc p
    by (subst gate_none) (simp only: refuseIf_gate)
  let ?rest = "\<lambda>doc. [paUnsupported ad, comparableFailure (paRoot ad) doc options]"
  let ?evidence = "\<lambda>doc. byteLimit evidenceText ClassMalformedInput (oversized options ''evidence'')
    # failureOf ?proofs # ?rest doc"
  have outer: "andThen ?proofs (\<lambda>p. gate (?rest doc) (walkPack H options ad doc p)) =
      gate (failureOf ?proofs # ?rest doc) (walkPack H options ad doc ?presence)" for doc
    by (rule andThen_gate) (rule presence)
  have whole: "andThen (decodeInput H facts ClassMalformedInput) (\<lambda>doc. gate (?evidence doc) (walkPack H options ad doc ?presence)) =
      gate (failureOf (decodeInput H facts ClassMalformedInput) # ?evidence (documentOf H facts))
        (walkPack H options ad (documentOf H facts) ?presence)"
    by (rule andThen_gate) (rule facts)
  show ?thesis unfolding evaluateInputs_def inner outer refuseIf_gate whole ..
qed

lemma byteLimit_oversized: "byteLimit data class False = Some f \<Longrightarrow> byteLimit data class over = Some f"
  by (auto simp: byteLimit_def split: if_splits)

lemma EvaluateAdmitted_evaluated:
  assumes "soundMemo H a" "apPack a = pack" "apOversized a = byteLimit pack ClassPackNotConformant False"
  shows "fst (EvaluateAdmitted H a facts evidenceText options) = evaluated H pack facts evidenceText options"
    and "soundMemo H (snd (EvaluateAdmitted H a facts evidenceText options))
      \<and> apPack (snd (EvaluateAdmitted H a facts evidenceText options)) = pack
      \<and> apOversized (snd (EvaluateAdmitted H a facts evidenceText options)) = apOversized a"
proof -
  obtain ad a1 where ad: "admission H a options = (ad, a1)" by (cases "admission H a options")
  note fresh = admission_fresh[OF assms(1), of options, unfolded ad fst_conv snd_conv assms(2)]
  have same: "refuseIf (paFailure ad) (evaluateInputs H options ad facts evidenceText) =
      refuseIf (paFailure (freshAdmission H pack options)) (evaluateInputs H options (freshAdmission H pack options) facts evidenceText)"
    by (rule evaluateInputs_view) (use fresh(1) in \<open>simp add: ac.serves_def\<close>)
  show "fst (EvaluateAdmitted H a facts evidenceText options) = evaluated H pack facts evidenceText options"
  proof (cases "oneDraft options = None \<and> apOversized a = None \<and> byteLimit pack ClassPackNotConformant (oversized options ''pack'') = None")
    case True
    then have "fst (EvaluateAdmitted H a facts evidenceText options) =
        refuseIf (paFailure ad) (evaluateInputs H options ad facts evidenceText)"
      using assms(2) ad by (simp add: EvaluateAdmitted_def)
    with True same show ?thesis
      by (simp add: evaluateInputs_gate evaluated_gate preflightFailures_def gate_pass Let_def)
  next
    case False
    let ?limit = "byteLimit pack ClassPackNotConformant (oversized options ''pack'')"
    consider f where "oneDraft options = Some f"
      | f where "oneDraft options = None" "?limit = Some f" "apOversized a = None \<or> apOversized a = Some f"
      using False assms(3) byteLimit_oversized[of pack ClassPackNotConformant _ "oversized options ''pack''"]
      by (metis option.exhaust)
    then show ?thesis
      by cases (auto simp: EvaluateAdmitted_def evaluated_gate preflightFailures_def Let_def gate_stop gate_pass assms(2))
  qed
  show "soundMemo H (snd (EvaluateAdmitted H a facts evidenceText options))
      \<and> apPack (snd (EvaluateAdmitted H a facts evidenceText options)) = pack
      \<and> apOversized (snd (EvaluateAdmitted H a facts evidenceText options)) = apOversized a"
    using assms ad fresh(2-) by (auto simp: EvaluateAdmitted_def split: option.split)
qed

lemma EvaluateWith_evaluated: "EvaluateWith H pack facts evidenceText options = evaluated H pack facts evidenceText options"
  unfolding EvaluateWith_def by (rule EvaluateAdmitted_evaluated) (simp_all add: AdmitPack_sound)

subsection \<open>Many rows over one admitted pack\<close>

fun evaluateRows :: "host \<Rightarrow> AdmittedPack \<Rightarrow> (string \<times> string \<times> Options) list \<Rightarrow> (Failure + Evaluation) list" where
  "evaluateRows H a [] = []"
| "evaluateRows H a ((facts, evidenceText, options) # rows) =
     (let (r, a1) = EvaluateAdmitted H a facts evidenceText options in r # evaluateRows H a1 rows)"

lemma evaluateRows_evaluated:
  assumes "soundMemo H a" "apPack a = pack" "apOversized a = byteLimit pack ClassPackNotConformant False"
  shows "evaluateRows H a rows = map (\<lambda>(facts, ev, options). evaluated H pack facts ev options) rows"
  using assms
proof (induction rows arbitrary: a)
  case (Cons row rows)
  obtain facts ev options where row: "row = (facts, ev, options)" by (cases row)
  obtain r a1 where r: "EvaluateAdmitted H a facts ev options = (r, a1)"
    by (cases "EvaluateAdmitted H a facts ev options")
  note step = EvaluateAdmitted_evaluated[OF Cons.prems, of facts ev options, unfolded r fst_conv snd_conv]
  from step(2) Cons.prems Cons.IH[of a1]
  have "evaluateRows H a1 rows = map (\<lambda>(facts, ev, options). evaluated H pack facts ev options) rows" by simp
  with row r step(1) show ?case by simp
qed simp

subsection \<open>Concurrent admissions\<close>

text \<open>Requests on one admitted pack, each in the phase of \<open>admission\<close> it has reached: a request waits for the
  mutex, looks its key up while it holds it, lets it go, computes with no lock held, takes the mutex
  again to store, and lets it go. Steps of different requests interleave freely, but for the mutex:
  \<open>Lock\<close> is a step only while nobody holds it, and \<open>Unlock\<close> asks nothing.\<close>

datatype request =
    Asked Options
  | Looking Options
  | Found Options packAdmission
  | Missed Options
  | Computing Options
  | Computed Options packAdmission
  | Storing Options packAdmission
  | Stored Options packAdmission
  | Answered Options packAdmission

record admissions =
  asMemo :: "(admissionKey \<times> packAdmission) list"
  asLocked :: bool
  asRequests :: "request list"

inductive admissionStep :: "host \<Rightarrow> string \<Rightarrow> admissions \<Rightarrow> admissions \<Rightarrow> bool" for H pack where
  lock_lookup: "i < length (asRequests s) \<Longrightarrow> asRequests s ! i = Asked options \<Longrightarrow> \<not> asLocked s \<Longrightarrow>
    admissionStep H pack s (s\<lparr>asLocked := True, asRequests := (asRequests s)[i := Looking options]\<rparr>)"
| hit: "i < length (asRequests s) \<Longrightarrow> asRequests s ! i = Looking options \<Longrightarrow>
    map_of (asMemo s) (admissionKey options) = Some cached \<Longrightarrow>
    admissionStep H pack s (s\<lparr>asRequests := (asRequests s)[i := Found options cached]\<rparr>)"
| unlock_hit: "i < length (asRequests s) \<Longrightarrow> asRequests s ! i = Found options cached \<Longrightarrow>
    admissionStep H pack s (s\<lparr>asLocked := False, asRequests := (asRequests s)[i := Answered options cached]\<rparr>)"
| miss: "i < length (asRequests s) \<Longrightarrow> asRequests s ! i = Looking options \<Longrightarrow>
    map_of (asMemo s) (admissionKey options) = None \<Longrightarrow>
    admissionStep H pack s (s\<lparr>asRequests := (asRequests s)[i := Missed options]\<rparr>)"
| unlock_miss: "i < length (asRequests s) \<Longrightarrow> asRequests s ! i = Missed options \<Longrightarrow>
    admissionStep H pack s (s\<lparr>asLocked := False, asRequests := (asRequests s)[i := Computing options]\<rparr>)"
| compute: "i < length (asRequests s) \<Longrightarrow> asRequests s ! i = Computing options \<Longrightarrow>
    admissionStep H pack s (s\<lparr>asRequests := (asRequests s)[i := Computed options (freshAdmission H pack options)]\<rparr>)"
| lock_store: "i < length (asRequests s) \<Longrightarrow> asRequests s ! i = Computed options new \<Longrightarrow> \<not> asLocked s \<Longrightarrow>
    admissionStep H pack s (s\<lparr>asLocked := True, asRequests := (asRequests s)[i := Storing options new]\<rparr>)"
| store: "i < length (asRequests s) \<Longrightarrow> asRequests s ! i = Storing options new \<Longrightarrow>
    admissionStep H pack s (s\<lparr>asMemo := rememberAdmission (admissionKey options) new (asMemo s),
      asRequests := (asRequests s)[i := Stored options new]\<rparr>)"
| unlock_store: "i < length (asRequests s) \<Longrightarrow> asRequests s ! i = Stored options new \<Longrightarrow>
    admissionStep H pack s (s\<lparr>asLocked := False, asRequests := (asRequests s)[i := Answered options new]\<rparr>)"

definition admissionStart :: "Options list \<Rightarrow> admissions" where
  "admissionStart asked = \<lparr>asMemo = [], asLocked = False, asRequests = map Asked asked\<rparr>"

abbreviation admissionRun :: "host \<Rightarrow> string \<Rightarrow> admissions \<Rightarrow> admissions \<Rightarrow> bool" where
  "admissionRun H pack \<equiv> rtranclp (admissionStep H pack)"

fun requested :: "request \<Rightarrow> Options" where
  "requested (Asked options) = options"
| "requested (Looking options) = options"
| "requested (Found options a) = options"
| "requested (Missed options) = options"
| "requested (Computing options) = options"
| "requested (Computed options a) = options"
| "requested (Storing options a) = options"
| "requested (Stored options a) = options"
| "requested (Answered options a) = options"

fun answered :: "request \<Rightarrow> bool" where
  "answered (Answered options a) = True"
| "answered r = False"

text \<open>The phases in which a request is between \<open>Lock\<close> and \<open>Unlock\<close>.\<close>

fun holding :: "request \<Rightarrow> bool" where
  "holding (Looking options) = True"
| "holding (Found options a) = True"
| "holding (Missed options) = True"
| "holding (Storing options a) = True"
| "holding (Stored options a) = True"
| "holding r = False"

fun rightly :: "host \<Rightarrow> string \<Rightarrow> request \<Rightarrow> bool" where
  "rightly H pack (Found options a) = ac.serves H pack options a"
| "rightly H pack (Computed options a) = (a = freshAdmission H pack options)"
| "rightly H pack (Storing options a) = (a = freshAdmission H pack options)"
| "rightly H pack (Stored options a) = (a = freshAdmission H pack options)"
| "rightly H pack (Answered options a) = ac.serves H pack options a"
| "rightly H pack r = True"

fun workLeft :: "request \<Rightarrow> nat" where
  "workLeft (Asked options) = 7"
| "workLeft (Looking options) = 6"
| "workLeft (Found options a) = 1"
| "workLeft (Missed options) = 5"
| "workLeft (Computing options) = 4"
| "workLeft (Computed options a) = 3"
| "workLeft (Storing options a) = 2"
| "workLeft (Stored options a) = 1"
| "workLeft (Answered options a) = 0"

definition holders :: "request list \<Rightarrow> nat" where
  "holders rs = sum_list (map (\<lambda>r. of_bool (holding r)) rs)"

definition admissionInv :: "host \<Rightarrow> string \<Rightarrow> Options list \<Rightarrow> admissions \<Rightarrow> bool" where
  "admissionInv H pack asked s \<longleftrightarrow>
     ac.faithful H pack (asMemo s) \<and> map requested (asRequests s) = asked \<and>
     list_all (rightly H pack) (asRequests s) \<and> holders (asRequests s) = of_bool (asLocked s)"

lemma holders_one: "i < length rs \<Longrightarrow> of_bool (holding (rs ! i)) \<le> holders rs"
  using elem_le_sum_list[of i "map (\<lambda>r. of_bool (holding r) :: nat) rs"] by (simp add: holders_def)

lemma holders_update:
  assumes "i < length rs"
  shows "holders (rs[i := r]) + of_bool (holding (rs ! i)) = holders rs + of_bool (holding r)"
proof -
  have "holders (rs[i := r]) = holders rs + of_bool (holding r) - of_bool (holding (rs ! i))"
    using assms by (simp add: holders_def map_update sum_list_update)
  with holders_one[OF assms] show ?thesis by simp
qed

lemma admissionInv_update:
  assumes "admissionInv H pack asked s" "i < length (asRequests s)"
    and "requested r = requested (asRequests s ! i)" "rightly H pack r" "ac.faithful H pack memo"
    and "of_bool (holding (asRequests s ! i)) + of_bool locked = (of_bool (asLocked s) + of_bool (holding r) :: nat)"
  shows "admissionInv H pack asked (s\<lparr>asMemo := memo, asLocked := locked, asRequests := (asRequests s)[i := r]\<rparr>)"
proof -
  have "map requested ((asRequests s)[i := r]) = map requested (asRequests s)"
    using assms(2,3) by (simp add: map_update list_update_same_conv)
  moreover have "list_all (rightly H pack) ((asRequests s)[i := r])"
    using assms(1,4) by (auto simp: admissionInv_def list_all_iff dest!: set_update_subset_insert[THEN subsetD])
  moreover have "holders ((asRequests s)[i := r]) = of_bool locked"
    using holders_update[OF assms(2), of r] assms(1,6) unfolding admissionInv_def by linarith
  ultimately show ?thesis using assms(1,5) by (simp add: admissionInv_def)
qed

lemma admissionInv_memo: "admissionInv H pack asked s \<Longrightarrow> ac.faithful H pack (asMemo s)"
  by (simp add: admissionInv_def)

lemma admissionInv_nth: "admissionInv H pack asked s \<Longrightarrow> i < length (asRequests s) \<Longrightarrow> rightly H pack (asRequests s ! i)"
  by (simp add: admissionInv_def list_all_length)

lemma admissionInv_locked:
  assumes "admissionInv H pack asked s" "i < length (asRequests s)" "holding (asRequests s ! i)"
  shows "asLocked s"
  using holders_one[OF assms(2)] assms(1,3) by (cases "asLocked s") (simp_all add: admissionInv_def)

lemma admissionInv_step:
  assumes "admissionStep H pack s t" "admissionInv H pack asked s"
  shows "admissionInv H pack asked t"
  using assms
proof (induction rule: admissionStep.induct)
  case (lock_lookup i s options)
  with admissionInv_update[OF lock_lookup(4,1) _ _ admissionInv_memo[OF lock_lookup(4)], of "Looking options" True]
  show ?case by simp
next
  case (hit i s options cached)
  with admissionInv_update[OF hit(4,1) _ _ admissionInv_memo[OF hit(4)], of "Found options cached" "asLocked s"]
    ac.faithful_lookup[OF admissionInv_memo[OF hit(4)] hit(3)]
  show ?case by simp
next
  case (unlock_hit i s options cached)
  with admissionInv_update[OF unlock_hit(3,1) _ _ admissionInv_memo[OF unlock_hit(3)], of "Answered options cached" False]
    admissionInv_nth[OF unlock_hit(3,1)] admissionInv_locked[OF unlock_hit(3,1)]
  show ?case by simp
next
  case (miss i s options)
  with admissionInv_update[OF miss(4,1) _ _ admissionInv_memo[OF miss(4)], of "Missed options" "asLocked s"]
  show ?case by simp
next
  case (unlock_miss i s options)
  with admissionInv_update[OF unlock_miss(3,1) _ _ admissionInv_memo[OF unlock_miss(3)], of "Computing options" False]
    admissionInv_locked[OF unlock_miss(3,1)]
  show ?case by simp
next
  case (compute i s options)
  with admissionInv_update[OF compute(3,1) _ _ admissionInv_memo[OF compute(3)],
      of "Computed options (freshAdmission H pack options)" "asLocked s"]
  show ?case by simp
next
  case (lock_store i s options new)
  with admissionInv_update[OF lock_store(4,1) _ _ admissionInv_memo[OF lock_store(4)], of "Storing options new" True]
    admissionInv_nth[OF lock_store(4,1)]
  show ?case by simp
next
  case (store i s options new)
  have new: "new = freshAdmission H pack options" using admissionInv_nth[OF store(3,1)] store(2) by simp
  have "ac.faithful H pack (rememberAdmission (admissionKey options) new (asMemo s))"
    unfolding new by (rule ac.faithful_remember[OF admissionInv_memo[OF store(3)]])
  from admissionInv_update[OF store(3,1) _ _ this, of "Stored options new" "asLocked s"] store(2) new
  show ?case by simp
next
  case (unlock_store i s options new)
  with admissionInv_update[OF unlock_store(3,1) _ _ admissionInv_memo[OF unlock_store(3)], of "Answered options new" False]
    admissionInv_nth[OF unlock_store(3,1)] admissionInv_locked[OF unlock_store(3,1)] ac.serves_compute
  show ?case by simp
qed

lemma admissionInv_start: "admissionInv H pack asked (admissionStart asked)"
proof -
  have "list_all (rightly H pack) (map Asked asked)" by (simp add: list_all_length)
  moreover have "holders (map Asked asked) = 0" by (simp add: holders_def comp_def)
  ultimately show ?thesis by (simp add: admissionInv_def admissionStart_def ac.faithful_def comp_def)
qed

lemma admissionInv_reachable:
  "admissionRun H pack (admissionStart asked) s \<Longrightarrow> admissionInv H pack asked s"
  by (induction rule: rtranclp_induct) (auto intro: admissionInv_start admissionInv_step)

subsection \<open>Progress\<close>

definition workOf :: "admissions \<Rightarrow> nat" where
  "workOf s = sum_list (map workLeft (asRequests s))"

lemma workLeft_update:
  assumes "i < length rs" "workLeft r < workLeft (rs ! i)"
  shows "sum_list (map workLeft (rs[i := r])) < sum_list (map workLeft rs)"
  using elem_le_sum_list[of i "map workLeft rs"] assms by (simp add: map_update sum_list_update)

lemma admissionStep_work: "admissionStep H pack s t \<Longrightarrow> workOf t < workOf s"
  by (induction rule: admissionStep.induct) (simp_all add: workOf_def workLeft_update)

text \<open>Whoever is between its lock and its unlock can go on; and when nobody is, the mutex is free and
  everybody who is not answered can.\<close>

lemma holder_steps:
  assumes "i < length (asRequests s)" "holding (asRequests s ! i)"
  shows "\<exists>t. admissionStep H pack s t"
proof (cases "asRequests s ! i")
  case (Looking options)
  then show ?thesis using hit[OF assms(1) Looking] miss[OF assms(1) Looking]
    by (cases "map_of (asMemo s) (admissionKey options)") blast+
next
  case (Found options a)
  then show ?thesis using unlock_hit[OF assms(1) Found] by blast
next
  case (Missed options)
  then show ?thesis using unlock_miss[OF assms(1) Missed] by blast
next
  case (Storing options a)
  then show ?thesis using store[OF assms(1) Storing] by blast
next
  case (Stored options a)
  then show ?thesis using unlock_store[OF assms(1) Stored] by blast
qed (use assms in simp_all)

lemma free_steps:
  assumes "i < length (asRequests s)" "\<not> answered (asRequests s ! i)" "\<not> holding (asRequests s ! i)" "\<not> asLocked s"
  shows "\<exists>t. admissionStep H pack s t"
proof (cases "asRequests s ! i")
  case (Asked options)
  then show ?thesis using lock_lookup[OF assms(1) Asked assms(4)] by blast
next
  case (Computing options)
  then show ?thesis using compute[OF assms(1) Computing] by blast
next
  case (Computed options a)
  then show ?thesis using lock_store[OF assms(1) Computed assms(4)] by blast
qed (use assms in simp_all)

lemma admission_progress:
  assumes "admissionInv H pack asked s"
  shows "(\<exists>t. admissionStep H pack s t) \<or> list_all answered (asRequests s) \<and> \<not> asLocked s"
proof (cases "\<exists>i < length (asRequests s). holding (asRequests s ! i)")
  case True
  then show ?thesis using holder_steps by blast
next
  case False
  then have "holders (asRequests s) = 0" by (auto simp: holders_def in_set_conv_nth)
  with assms have free: "\<not> asLocked s" by (simp add: admissionInv_def)
  show ?thesis
  proof (cases "list_all answered (asRequests s)")
    case waiting: False
    then obtain i where "i < length (asRequests s)" "\<not> answered (asRequests s ! i)" by (auto simp: list_all_length)
    with False free show ?thesis using free_steps by blast
  qed (use free in simp)
qed

lemma admission_reaches:
  assumes "admissionInv H pack asked s"
  shows "\<exists>t. admissionRun H pack s t \<and> list_all answered (asRequests t) \<and> \<not> asLocked t"
  using assms
proof (induction "workOf s" arbitrary: s rule: less_induct)
  case less
  show ?case
  proof (cases "\<exists>t. admissionStep H pack s t")
    case True
    then obtain t where step: "admissionStep H pack s t" by blast
    from less.hyps[OF admissionStep_work[OF step] admissionInv_step[OF step less.prems]] show ?thesis
      using converse_rtranclp_into_rtranclp[of "admissionStep H pack", OF step] by blast
  next
    case False
    with admission_progress[OF less.prems] show ?thesis by blast
  qed
qed

text \<open>C21: Requests made at the same time on one admitted pack are answered as if each were alone. However
  the steps of any number of requests interleave, at most one request is between its lock and its
  unlock, the requests stay what they were, and the memo holds at most sixty-four entries. Every
  answer given agrees with the admission computed afresh for that request in all but the list of
  supported extensions that its validation repeats, and is that admission when the extensions the
  request supports are named in UTF-8.\<close>

theorem admission_concurrent:
  assumes "admissionRun H pack (admissionStart asked) s"
  shows "map requested (asRequests s) = asked \<and> length (asMemo s) \<le> maxAdmissions
    \<and> length (filter holding (asRequests s)) = of_bool (asLocked s)
    \<and> (\<forall>options a. Answered options a \<in> set (asRequests s) \<longrightarrow>
         unlistedAdmission a = unlistedAdmission (freshAdmission H pack options) \<and>
         (list_all validUtf8 (oSupportedExtensions options) \<longrightarrow> a = freshAdmission H pack options))"
proof -
  have count: "length (filter holding rs) = holders rs" for rs by (induction rs) (simp_all add: holders_def)
  note inv = admissionInv_reachable[OF assms, unfolded admissionInv_def]
  have "ac.serves H pack options a" if "Answered options a \<in> set (asRequests s)" for options a
  proof -
    from inv that have "rightly H pack (Answered options a)" unfolding list_all_iff by blast
    then show ?thesis by simp
  qed
  then show ?thesis unfolding count using inv unfolding ac.serves_def ac.faithful_def by blast
qed

text \<open>C22: Admission never blocks. In every state that requests on one admitted pack can reach, some step is
  possible, or all requests are answered and the mutex is free: no request is left waiting for a mutex
  that nobody lets go. Steps cannot go on for ever, so every run ends there, and from every reachable
  state one does.\<close>

theorem admission_completes:
  assumes "admissionRun H pack (admissionStart asked) s"
  shows "((\<exists>t. admissionStep H pack s t) \<or> list_all answered (asRequests s) \<and> \<not> asLocked s)
    \<and> wfP (\<lambda>t s. admissionStep H pack s t)
    \<and> (\<exists>t. admissionRun H pack s t \<and> list_all answered (asRequests t) \<and> \<not> asLocked t)"
proof (intro conjI)
  note inv = admissionInv_reachable[OF assms]
  show "(\<exists>t. admissionStep H pack s t) \<or> list_all answered (asRequests s) \<and> \<not> asLocked s"
    by (rule admission_progress[OF inv])
  show "wfP (\<lambda>t s. admissionStep H pack s t)"
    by (rule wfp_if_convertible_to_nat[of _ workOf]) (rule admissionStep_work)
  show "\<exists>t. admissionRun H pack s t \<and> list_all answered (asRequests t) \<and> \<not> asLocked t"
    by (rule admission_reaches[OF inv])
qed

subsection \<open>What a successful evaluation rests on\<close>

lemma objects_objectList: "membersOf m k = objectList (jget m k)"
  by (simp add: membersOf_def objects_def objectList_def)

lemma conflict_free: "conflictOf S = {} \<Longrightarrow> S \<noteq> {} \<Longrightarrow> the_elem S \<in> S"
proof -
  assume "conflictOf S = {}" "S \<noteq> {}"
  then obtain a where "S = {a}" by (auto simp: conflictOf_def split: if_splits)
  then show ?thesis by simp
qed

lemma section8_declared:
  assumes "conformant m" "section8 ev V m = Produced o1"
  shows "declared m ''outcomes'' o1"
proof -
  define F where "F = forcedBy V (membersOf m ''exceptions'')"
  define C where "C = candidatesOf V (activeRules (suppressedBy V (membersOf m ''exceptions'')) (membersOf m ''rules''))"
  have forced: "declared m ''outcomes'' s" if "s \<in> F" for s
    using that assms(1)
    by (auto simp: F_def forcedBy_def set_stringAt objects_objectList conformant_def exceptionResolves_def split: if_splits)
  have candidates: "declared m ''outcomes'' s" if "s \<in> C" for s
    using that assms(1)
    by (fastforce simp: C_def candidatesOf_def activeRules_def set_stringAt objects_objectList conformant_def ruleResolves_def
        split: if_splits)
  have fallback: "declared m ''outcomes'' s" if "jget m ''fallbackOutcome'' = JString s" for s
    using that assms(1) by (simp add: conformant_def)
  show ?thesis
    using assms(2) forced candidates fallback conflict_free[of F] conflict_free[of C]
    by (auto simp: section8_def decideRules_def Let_def F_def[symmetric] C_def[symmetric]
        split: tri.splits if_splits json.splits)
qed

lemma engine_truncate [simp]:
  "eTokens (engine.truncate H) = eTokens H" "eSets (engine.truncate H) = eSets H"
  by (simp_all add: engine.truncate_def eTokens_def fun_eq_iff)

lemma concluded_version [simp]: "vlSpecVersion (concluded s ds t out) = vlSpecVersion out"
  "vlSpecVersion (addLayer n s out) = vlSpecVersion out"
  by (simp_all add: concluded_def addLayer_def)

lemma validateStructure_version [simp]:
  "vlSpecVersion (validateStructure E options v s m out) = vlSpecVersion out"
  by (simp add: validateStructure_def validateSemantic_def Let_def split: prod.split)

lemma Validate_version:
  assumes "Validate E data given = (out, failure)" "vlStatus out = ''valid''" "voThrough (defaulted given) \<noteq> ''carrier''"
    and "Decode data (eTokens E data) (voLimits (defaulted given)) = Inr (JObject m)"
  shows "jget m ''specVersion'' = JString (vlSpecVersion out) \<and> failure = None"
proof -
  define options where "options = defaulted given"
  have accepted: "acceptedPack E options m"
    using Validate_status[of E data given] assms by (auto simp: acceptedDocument_def options_def)
  then obtain s where s: "jget m ''specVersion'' = JString s" by (auto simp: acceptedPack_def versionAccepted_def)
  then have member: "hasMember m ''specVersion''" using jget_absent[of m "''specVersion''"] by auto
  have "gateOf E data options = None"
    using accepted assms(3,4) by (simp add: gateOf_def options_def acceptedPack_def)
  then have "Validate E data given = validateDecoded E data options (NewValidation (voThrough options))"
    by (simp add: Validate_gate options_def)
  also have "\<dots> = validateVersion E options m (addLayer ''carrier'' ''passed'' (NewValidation (voThrough options)))"
    using assms(3,4) by (simp add: validateDecoded_def options_def Let_def)
  finally have "validateVersion E options m (addLayer ''carrier'' ''passed'' (NewValidation (voThrough options))) = (out, failure)"
    using assms(1) by simp
  then have "vlSpecVersion out = s" using s member
    by (auto simp: validateVersion_def Let_def split: option.splits if_splits)
  moreover have "failure = None"
    using Validate_reported[of E data given] assms(1,2) by (cases failure) simp_all
  ultimately show ?thesis using s by simp
qed

lemma declaredSpecVersionWith_None: "declaredSpecVersionWith v c = None \<Longrightarrow> v = Version c"
  by (auto simp: declaredSpecVersionWith_def declaredSpecVersion_def split: if_splits)

lemma coreConformance_accepted:
  assumes "coreConformance H pack options = Inr (validated, m, None)"
  shows "Decode pack (eTokens H pack) DefaultLimits = Inr (JObject m) \<and>
    jget m ''specVersion'' = JString (vlSpecVersion validated) \<and>
    acceptedPack (engine.truncate H)
      (validation ''semantic'' (oSupportedExtensions options) (oSupportedProfiles options)) m"
proof -
  let ?o = "validation ''semantic'' (oSupportedExtensions options) (oSupportedProfiles options)"
  obtain out failure where r: "Validate (engine.truncate H) pack ?o = (out, failure)"
    by (cases "Validate (engine.truncate H) pack ?o")
  have d: "defaulted ?o = ?o" by (simp add: defaulted_def validation_def DefaultLimits_def)
  have o: "voLimits ?o = DefaultLimits" "voThrough ?o = ''semantic''" by (simp_all add: validation_def)
  from assms r have valid: "failure = None" "vlStatus out = ''valid''" "out = validated"
    and document: "decodeInput H pack ClassPackNotConformant = Inr (JObject m)"
    by (auto simp: coreConformance_def concludeConformance_def Let_def split: option.splits if_splits sum.splits)
  with r Validate_status[of "engine.truncate H" pack ?o]
  obtain v where "Decode pack (eTokens H pack) DefaultLimits = Inr v" "acceptedDocument (engine.truncate H) ?o v"
    by (auto simp: d o)
  moreover from document have "Decode pack (eTokens H pack) DefaultLimits = Inr (JObject m)"
    by (auto simp: decodeInput_def split: if_splits sum.splits)
  ultimately show ?thesis
    using Validate_version[OF r valid(2)] valid(3) by (auto simp: acceptedDocument_def o d)
qed

lemma decides_stamped:
  assumes "decides pack K (Inr (d, target), r) dec"
  shows "decisionOf (d\<lparr>dContract := c\<rparr>) = dec"
  using decides_decision[OF assms] by (auto simp: decisionOf_def)

lemma firstOf_None: "firstOf fs = None \<longleftrightarrow> list_all (\<lambda>f. f = None) fs"
  by (induction fs rule: firstOf.induct) simp_all

lemma evaluated_core:
  assumes "EvaluateWith H pack facts evidenceText options = Inr out"
    and "\<not> oRFC0008Quantifiers options" "\<not> oRFC0016OutcomeValues options"
  shows "\<exists>m document presence.
    Decode pack (eTokens H pack) DefaultLimits = Inr (JObject m)
    \<and> jget m ''specVersion'' = JString (Version (contract options))
    \<and> acceptedPack (engine.truncate H)
        (validation ''semantic'' (oSupportedExtensions options) (oSupportedProfiles options)) m
    \<and> Decode facts (eTokens H facts) DefaultLimits = Inr document
    \<and> decodeEvidence H evidenceText m (oEvidenceSupplied options) = Inr presence
    \<and> decisionOf (evDisposition out) = section8 presence (verdictOf False presence document) m"
proof -
  define ad where "ad = freshAdmission H pack options"
  have checks: "firstOf (preflightFailures H pack facts evidenceText options) = None"
    using assms(1) by (auto simp: EvaluateWith_evaluated evaluated_def split: option.splits)
  then have none: "paFailure ad = None" "paUnsupported ad = None"
    "failureOf (decodeInput H facts ClassMalformedInput) = None"
    "failureOf (decodeEvidence H evidenceText (paRoot ad) (oEvidenceSupplied options)) = None"
    by (simp_all add: firstOf_None preflightFailures_def Let_def ad_def)
  from none(1,2) have "coreConformance H pack options = Inr (paValidated ad, paRoot ad, None)"
    using assms(2,3) by (auto simp: ad_def freshAdmission_def conformance_def Let_def split: sum.splits prod.splits)
  note accepted = coreConformance_accepted[OF this]
  have "paFailure ad = declaredSpecVersionWith (vlSpecVersion (paValidated ad)) (contract options)"
    using none(1) by (auto simp: ad_def freshAdmission_def split: sum.splits)
  with none(1) have version: "vlSpecVersion (paValidated ad) = Version (contract options)"
    by (simp add: declaredSpecVersionWith_None)
  from none(3) obtain document where doc: "decodeInput H facts ClassMalformedInput = Inr document"
    by (auto simp: failureOf_def split: sum.splits)
  then have facts: "Decode facts (eTokens H facts) DefaultLimits = Inr document"
    by (auto simp: decodeInput_def split: if_splits sum.splits)
  from none(4) obtain presence
    where presence: "decodeEvidence H evidenceText (paRoot ad) (oEvidenceSupplied options) = Inr presence"
    by (auto simp: failureOf_def split: sum.splits)
  let ?e = "newEvaluator presence False False (workLimit options)"
  have "walkPack H options ad document presence = Inr out"
    using assms(1) checks doc presence
    by (simp add: EvaluateWith_evaluated evaluated_def ad_def[symmetric] Let_def documentOf_def presenceIn_def)
  then obtain d target r where walk: "resolvePack (paRoot ad) document ?e = (Inr (d, target), r)"
    and out: "evDisposition out = d\<lparr>dContract := contract options\<rparr>"
    using assms(2,3)
    by (auto simp: walkPack_def Let_def evaluationOf_def split: prod.splits sum.splits)
  have "jsonWf document" using facts Decode_accepts by blast
  then have "decides (paRoot ad) (contributions (verdictOf False presence document) (paRoot ad))
      (Inr (d, target), r) (section8 presence (verdictOf False presence document) (paRoot ad))"
    using resolvePack_decides[of ?e document "paRoot ad"] walk by simp
  from decides_stamped[OF this] out accepted facts presence version show ?thesis by auto
qed

text \<open>C4: Error precedence is fixed. An evaluation is refused by the first of these that refuses, and by no
  other: the two drafts together, the size of the pack, its conformance and version, the size and text
  of the facts, the size and text of the evidence, an unsupported required extension, facts no
  comparison can match; when none does, it is the walk over the decoded inputs. This holds for every
  row evaluated against one admitted pack, whatever the memo remembers from the rows before.\<close>

theorem EvaluateAdmitted_precedence:
  "evaluateRows H (AdmitPack H pack) rows =
     map (\<lambda>(facts, evidenceText, options). evaluated H pack facts evidenceText options) rows
   \<and> EvaluateWith H pack facts evidenceText options = evaluated H pack facts evidenceText options"
  using evaluateRows_evaluated[OF AdmitPack_sound] EvaluateWith_evaluated by blast

text \<open>C2: A decision rests on admitted inputs alone. When an evaluation without drafts succeeds, the pack
  decodes to an object that declares the version of the contract and that validation accepts, the facts and the evidence decode, the disposition
  states exactly the decision of section 8 over them, and an outcome it names is one the pack declares.\<close>

theorem EvaluateWith_grounded:
  assumes "EvaluateWith H pack facts evidenceText options = Inr out"
    and "\<not> oRFC0008Quantifiers options" "\<not> oRFC0016OutcomeValues options"
  shows "\<exists>m document presence.
    Decode pack (eTokens H pack) DefaultLimits = Inr (JObject m)
    \<and> jget m ''specVersion'' = JString (Version (contract options))
    \<and> acceptedPack (engine.truncate H)
        (validation ''semantic'' (oSupportedExtensions options) (oSupportedProfiles options)) m
    \<and> Decode facts (eTokens H facts) DefaultLimits = Inr document
    \<and> decodeEvidence H evidenceText m (oEvidenceSupplied options) = Inr presence
    \<and> decisionOf (evDisposition out) = section8 presence (verdictOf False presence document) m
    \<and> (dKind (evDisposition out) \<noteq> ''outcome'' \<or> declared m ''outcomes'' (dOutcomeID (evDisposition out)))"
proof -
  from evaluated_core[OF assms] obtain m document presence where
    result: "Decode pack (eTokens H pack) DefaultLimits = Inr (JObject m)"
    "jget m ''specVersion'' = JString (Version (contract options))"
    "acceptedPack (engine.truncate H)
        (validation ''semantic'' (oSupportedExtensions options) (oSupportedProfiles options)) m"
    "Decode facts (eTokens H facts) DefaultLimits = Inr document"
    "decodeEvidence H evidenceText m (oEvidenceSupplied options) = Inr presence"
    "decisionOf (evDisposition out) = section8 presence (verdictOf False presence document) m" by blast
  from result(3) have "conformant m" by (auto simp: acceptedPack_def validation_def)
  from section8_declared[OF this] result(6)
  have "dKind (evDisposition out) = ''outcome'' \<Longrightarrow> declared m ''outcomes'' (dOutcomeID (evDisposition out))"
    by (simp add: decisionOf_def)
  with result show ?thesis by blast
qed

definition samplePackText :: string where
  "samplePackText =
     ''{\"specVersion\":\"0.2.0-draft\",\"outcomes\":[{\"id\":\"ok\"}],\"fallbackOutcome\":\"ok\"}''"

definition sampleAdmittedPack :: object where
  "sampleAdmittedPack = [(''specVersion'', JString ''0.2.0-draft''),
     (''outcomes'', JArray [JObject [(''id'', JString ''ok'')]]), (''fallbackOutcome'', JString ''ok'')]"

text \<open>Facts that a node of a graph is given by the node before it.\<close>

definition sampleFactsText :: string where
  "sampleFactsText = ''{\"a\":\"ok\"}''"

definition sampleHost :: host where
  "sampleHost =
     \<lparr>eSets = (\<lambda>v. if v = ''0.2.0-draft'' then Some \<lparr>arSpecVersion = v, arBundleDigest = [], arProvenance = []\<rparr> else None),
      eSchemas = (\<lambda>v d. None), eCompile = (\<lambda>v fs. None),
      eScan = (\<lambda>data. if data = samplePackText then tokensOf (JObject sampleAdmittedPack)
                 else if data = sampleFactsText then tokensOf (JObject [(''a'', JString ''ok'')])
                 else tokensOf (JObject [])),
      eSprint = (\<lambda>v. []), eAdvice = (\<lambda>m l. ([], False)),
      hMarshal = (\<lambda>m. None), hFindingBytes = (\<lambda>i. 0), hSha256 = (\<lambda>s. s)\<rparr>"

definition sampleOptions :: Options where
  "sampleOptions =
     \<lparr>oSpecVersion = [], oSupportedProfiles = None, oCommand = ''evaluate'', oSupportedExtensions = [],
      oRFC0008Quantifiers = False, oRFC0016OutcomeValues = False, oWorkBudget = 60, oEvidenceSupplied = False,
      oOversizedInputs = [], oRequireComparableFacts = False\<rparr>"

text \<open>The options of a plain evaluation under the legacy contract.\<close>

definition plainOptions :: "Options \<Rightarrow> bool" where
  "plainOptions options \<longleftrightarrow>
     oSpecVersion options \<in> {[], ''0.2.0-draft''} \<and> oSupportedProfiles options = None \<and>
     oSupportedExtensions options = [] \<and> \<not> oRFC0008Quantifiers options \<and> \<not> oRFC0016OutcomeValues options \<and>
     \<not> oEvidenceSupplied options \<and> oOversizedInputs options = [] \<and> \<not> oRequireComparableFacts options"

lemma plain_sampleOptions: "plainOptions sampleOptions"
  by (simp add: plainOptions_def sampleOptions_def)

lemma sample_text: "samplePackText \<noteq> []" "length samplePackText < 100"
  by (simp_all add: samplePackText_def)

lemma sample_decodes:
  "Decode samplePackText (eTokens sampleHost samplePackText) DefaultLimits = Inr (JObject sampleAdmittedPack)"
  "Decode ''{}'' (eTokens sampleHost ''{}'') DefaultLimits = Inr (JObject [])"
  "Decode sampleFactsText (eTokens sampleHost sampleFactsText) DefaultLimits = Inr (JObject [(''a'', JString ''ok'')])"
proof -
  have "validUtf8 samplePackText" by (simp add: samplePackText_def validUtf8_ascii_Cons)
  moreover have "UnpairedSurrogateEscape samplePackText = None" by code_simp
  ultimately show "Decode samplePackText (eTokens sampleHost samplePackText) DefaultLimits = Inr (JObject sampleAdmittedPack)"
    by (subst Decode_accepts) (simp add: eTokens_def validUtf8_ascii_Cons sampleHost_def sampleAdmittedPack_def DefaultLimits_def)
  have "validUtf8 ''{}''" by (simp add: validUtf8_ascii_Cons)
  moreover have "UnpairedSurrogateEscape ''{}'' = None" by code_simp
  ultimately show "Decode ''{}'' (eTokens sampleHost ''{}'') DefaultLimits = Inr (JObject [])"
    by (subst Decode_accepts) (simp add: eTokens_def validUtf8_ascii_Cons sampleHost_def samplePackText_def sampleFactsText_def DefaultLimits_def)
  have "validUtf8 sampleFactsText" by (simp add: sampleFactsText_def validUtf8_ascii_Cons)
  moreover have "UnpairedSurrogateEscape sampleFactsText = None" by code_simp
  ultimately show "Decode sampleFactsText (eTokens sampleHost sampleFactsText) DefaultLimits = Inr (JObject [(''a'', JString ''ok'')])"
    by (subst Decode_accepts) (simp add: eTokens_def validUtf8_ascii_Cons sampleHost_def samplePackText_def sampleFactsText_def DefaultLimits_def)
qed

definition sampleValidation :: ValidateOptions where
  "sampleValidation = validation ''semantic'' [] None"

lemma sample_conformant: "conformant sampleAdmittedPack"
proof -
  have "objectList (jget sampleAdmittedPack k) = []" if "k \<noteq> ''outcomes''" for k
    using that by (simp add: sampleAdmittedPack_def objectList_def)
  moreover have "objectList (jget sampleAdmittedPack ''outcomes'') = [[(''id'', JString ''ok'')]]"
    "jget sampleAdmittedPack ''fallbackOutcome'' = JString ''ok''" "\<not> hasMember sampleAdmittedPack ''applicability''"
    "requiredExtensions sampleAdmittedPack = []"
    by (simp_all add: sampleAdmittedPack_def objectList_def requiredExtensions_def)
  ultimately show ?thesis by (simp add: conformant_def idCollections_def declared_def idOf_def)
qed

lemma sample_accepted: "acceptedPack (engine.truncate sampleHost) sampleValidation sampleAdmittedPack"
proof -
  have "negotiated sampleAdmittedPack None = None" by code_simp
  moreover have "versionAccepted (engine.truncate sampleHost) sampleValidation sampleAdmittedPack"
    unfolding versionAccepted_def
    by (rule exI[of _ "''0.2.0-draft''"])
       (simp add: sampleAdmittedPack_def sampleValidation_def validation_def sampleHost_def selectedSchema_def engine.truncate_def)
  moreover have "coreExtensionNames sampleAdmittedPack = []" "requiredExtensions sampleAdmittedPack = []"
    "objectList (jget sampleAdmittedPack ''exceptions'') = []" by code_simp+
  ultimately show ?thesis using sample_conformant
    by (simp add: acceptedPack_def sampleValidation_def validation_def namesValid_def shapesValid_def)
qed

lemma sample_admission:
  assumes "plainOptions options"
  shows "paFailure (freshAdmission sampleHost samplePackText options) = None"
    "paUnsupported (freshAdmission sampleHost samplePackText options) = None"
    "paRoot (freshAdmission sampleHost samplePackText options) = sampleAdmittedPack"
proof -
  note plain = assms[unfolded plainOptions_def]
  obtain out failure where r: "Validate (engine.truncate sampleHost) samplePackText sampleValidation = (out, failure)"
    by (cases "Validate (engine.truncate sampleHost) samplePackText sampleValidation")
  have d: "defaulted sampleValidation = sampleValidation"
    by (simp add: defaulted_def sampleValidation_def validation_def DefaultLimits_def)
  have o: "voLimits sampleValidation = DefaultLimits" "voThrough sampleValidation = ''semantic''"
    by (simp_all add: sampleValidation_def validation_def)
  have valid: "vlStatus out = ''valid''"
    using Validate_status[of "engine.truncate sampleHost" samplePackText sampleValidation] r sample_accepted
    by (simp add: d o sample_decodes acceptedDocument_def)
  have "jget sampleAdmittedPack ''specVersion'' = JString (vlSpecVersion out) \<and> failure = None"
    using Validate_version[OF r valid] by (simp add: d o sample_decodes)
  then have version: "vlSpecVersion out = ''0.2.0-draft''" "failure = None"
    by (simp_all add: sampleAdmittedPack_def)
  have "coreConformance sampleHost samplePackText options = Inr (out, sampleAdmittedPack, None)"
    using r valid version(2) plain
    by (simp add: coreConformance_def sampleValidation_def[symmetric] concludeConformance_def Let_def
        decodeInput_def sample_decodes unsupportedRequiredExtension_def sample_text)
  moreover have "Version (contract options) = EvaluatorSpecVersion"
    using plain by (auto simp: contract_def Version_def EvaluatorSpecVersion_def Let_def)
  ultimately have "freshAdmission sampleHost samplePackText options =
      \<lparr>paValidated = out, paRoot = sampleAdmittedPack, paUnsupported = None, paFailure = None\<rparr>"
    using version(1) plain
    by (simp add: freshAdmission_def conformance_def declaredSpecVersionWith_def declaredSpecVersion_def
        EvaluatorSpecVersion_def Let_def)
  then show "paFailure (freshAdmission sampleHost samplePackText options) = None"
    "paUnsupported (freshAdmission sampleHost samplePackText options) = None"
    "paRoot (freshAdmission sampleHost samplePackText options) = sampleAdmittedPack" by simp_all
qed

lemma sample_walks:
  "(case fst (resolvePack sampleAdmittedPack (JObject m) (newEvaluator (declaredPresence sampleAdmittedPack) False False limit)) of
      Inl f \<Rightarrow> [] | Inr dt \<Rightarrow> [dKind (fst dt), dOutcomeID (fst dt)]) = [''outcome'', ''ok'']"
  by code_simp

lemma sample_evaluates:
  assumes "plainOptions options" "Decode facts (eTokens sampleHost facts) DefaultLimits = Inr (JObject m)"
    "facts \<noteq> []" "length facts < 100"
  shows "\<exists>out. EvaluateWith sampleHost samplePackText facts [] options = Inr out
     \<and> dKind (evDisposition out) = ''outcome'' \<and> dOutcomeID (evDisposition out) = ''ok''"
proof -
  note plain = assms(1)[unfolded plainOptions_def] and admission = sample_admission[OF assms(1)]
  have pre: "firstOf (preflightFailures sampleHost samplePackText facts [] options) = None"
    using sample_text assms(2-4) plain
    by (simp add: preflightFailures_def firstOf_None Let_def admission oneDraft_def byteLimit_def oversized_def
        HardMaxBytes_def failureOf_def decodeInput_def sample_decodes decodeEvidence_def comparableFailure_def)
  let ?e = "newEvaluator (declaredPresence sampleAdmittedPack) False False (workLimit options)"
  obtain res r where walk: "resolvePack sampleAdmittedPack (JObject m) ?e = (res, r)"
    by (cases "resolvePack sampleAdmittedPack (JObject m) ?e")
  have res: "(case res of Inl f \<Rightarrow> [] | Inr dt \<Rightarrow> [dKind (fst dt), dOutcomeID (fst dt)]) = [''outcome'', ''ok'']"
    using sample_walks[of m "workLimit options"] walk by simp
  obtain d target where dt: "res = Inr (d, target)" "dKind d = ''outcome''" "dOutcomeID d = ''ok''"
    using res by (cases res) auto
  have "documentOf sampleHost facts = JObject m"
    using assms(2,3) by (simp add: documentOf_def decodeInput_def)
  moreover have "presenceIn sampleHost [] sampleAdmittedPack False = declaredPresence sampleAdmittedPack"
    by (simp add: presenceIn_def decodeEvidence_def)
  ultimately have "EvaluateWith sampleHost samplePackText facts [] options =
      walkPack sampleHost options (freshAdmission sampleHost samplePackText options) (JObject m)
        (declaredPresence sampleAdmittedPack)"
    using pre plain by (simp add: EvaluateWith_evaluated evaluated_def Let_def admission)
  then show ?thesis
    using walk dt plain by (simp add: walkPack_def admission evaluationOf_def Let_def)
qed

lemma sample_selects: "SelectContract sampleHost samplePackText = Inr (contractOf ''0.2.0-draft'')"
proof -
  have "negotiated (objectOrNil (prune 0 (JObject sampleAdmittedPack))) None = None"
    "jget (objectOrNil (prune 0 (JObject sampleAdmittedPack))) ''specVersion'' = JString ''0.2.0-draft''" by code_simp+
  moreover have "validateContract (contractOf ''0.2.0-draft'') = None" by code_simp
  ultimately show ?thesis
    using sample_text
    by (simp add: SelectContract_def byteLimit_def HardMaxBytes_def NegotiateProfile_def ScanRootDeclarations_prune
        sample_decodes Let_def)
qed

theorem EvaluateWith_grounded_witness: "declared sampleAdmittedPack ''outcomes'' ''ok''"
proof -
  from sample_evaluates[OF plain_sampleOptions sample_decodes(2)] obtain out where out: "EvaluateWith sampleHost samplePackText ''{}'' [] sampleOptions = Inr out"
    "dKind (evDisposition out) = ''outcome''" "dOutcomeID (evDisposition out) = ''ok''" by auto
  have "\<not> oRFC0008Quantifiers sampleOptions" "\<not> oRFC0016OutcomeValues sampleOptions" by (simp_all add: sampleOptions_def)
  from EvaluateWith_grounded[OF out(1) this] obtain m where
    "Decode samplePackText (eTokens sampleHost samplePackText) DefaultLimits = Inr (JObject m)"
    "declared m ''outcomes'' (dOutcomeID (evDisposition out))"
    using out(2) by auto
  with out(3) show ?thesis by (simp add: sample_decodes)
qed

text \<open>Two requests for the same options: the first holds the mutex, and the second waits.\<close>

lemma sample_waiting:
  "admissionRun sampleHost samplePackText (admissionStart [sampleOptions, sampleOptions])
     \<lparr>asMemo = [], asLocked = True, asRequests = [Missed sampleOptions, Asked sampleOptions]\<rparr>"
proof -
  let ?s = "admissionStart [sampleOptions, sampleOptions]"
  let ?t = "\<lparr>asMemo = [], asLocked = True, asRequests = [Looking sampleOptions, Asked sampleOptions]\<rparr>"
  have "admissionStep sampleHost samplePackText ?s ?t"
    using lock_lookup[of 0 ?s sampleOptions sampleHost samplePackText] by (simp add: admissionStart_def)
  moreover have "admissionStep sampleHost samplePackText ?t
      \<lparr>asMemo = [], asLocked = True, asRequests = [Missed sampleOptions, Asked sampleOptions]\<rparr>"
    using miss[of 0 ?t sampleOptions sampleHost samplePackText] by simp
  ultimately show ?thesis by (meson converse_rtranclp_into_rtranclp r_into_rtranclp)
qed

theorem admission_completes_witness:
  "\<exists>t. admissionStep sampleHost samplePackText
     \<lparr>asMemo = [], asLocked = True, asRequests = [Missed sampleOptions, Asked sampleOptions]\<rparr> t"
  using admission_completes[OF sample_waiting] by simp

lemma sample_answering:
  "\<exists>a. admissionRun sampleHost samplePackText (admissionStart [sampleOptions, sampleOptions])
     \<lparr>asMemo = [(admissionKey sampleOptions, a)], asLocked = False,
      asRequests = [Answered sampleOptions a, Asked sampleOptions]\<rparr>"
proof -
  let ?step = "admissionStep sampleHost samplePackText" and ?a = "freshAdmission sampleHost samplePackText sampleOptions"
  let ?at = "\<lambda>memo locked r. \<lparr>asMemo = memo, asLocked = locked, asRequests = [r, Asked sampleOptions]\<rparr>"
  have "?step (?at [] True (Missed sampleOptions)) (?at [] False (Computing sampleOptions))"
    using unlock_miss[of 0 "?at [] True (Missed sampleOptions)"] by simp
  moreover have "?step (?at [] False (Computing sampleOptions)) (?at [] False (Computed sampleOptions ?a))"
    using compute[of 0 "?at [] False (Computing sampleOptions)"] by simp
  moreover have "?step (?at [] False (Computed sampleOptions ?a)) (?at [] True (Storing sampleOptions ?a))"
    using lock_store[of 0 "?at [] False (Computed sampleOptions ?a)"] by simp
  moreover have "?step (?at [] True (Storing sampleOptions ?a)) (?at [(admissionKey sampleOptions, ?a)] True (Stored sampleOptions ?a))"
    using store[of 0 "?at [] True (Storing sampleOptions ?a)"] by (simp add: rememberAdmission_def maxAdmissions_def)
  moreover have "?step (?at [(admissionKey sampleOptions, ?a)] True (Stored sampleOptions ?a))
      (?at [(admissionKey sampleOptions, ?a)] False (Answered sampleOptions ?a))"
    using unlock_store[of 0 "?at [(admissionKey sampleOptions, ?a)] True (Stored sampleOptions ?a)"] by simp
  ultimately show ?thesis using sample_waiting by (meson rtranclp.rtrancl_into_rtrancl)
qed

theorem admission_concurrent_witness:
  "\<exists>a. admissionRun sampleHost samplePackText (admissionStart [sampleOptions, sampleOptions])
     \<lparr>asMemo = [(admissionKey sampleOptions, a)], asLocked = False,
      asRequests = [Answered sampleOptions a, Asked sampleOptions]\<rparr>
    \<and> a = freshAdmission sampleHost samplePackText sampleOptions"
proof -
  obtain a where run: "admissionRun sampleHost samplePackText (admissionStart [sampleOptions, sampleOptions])
     \<lparr>asMemo = [(admissionKey sampleOptions, a)], asLocked = False,
      asRequests = [Answered sampleOptions a, Asked sampleOptions]\<rparr>"
    using sample_answering by blast
  have "list_all validUtf8 (oSupportedExtensions sampleOptions)" by (simp add: sampleOptions_def)
  with admission_concurrent[OF run] run show ?thesis by auto
qed

end
