(* ===== verification/Graph_Document.thy ===== *)
theory Graph_Document
  imports Engine
begin

section \<open>Judgment graphs: the document\<close>

text \<open>
  \<open>internal/graph/document.go\<close>: the graph document with its nodes and edges, how it is read, the
  deterministic order its nodes run in with the nodes that form cycles, and the checks that read
  nothing but the document and the ids the project declares. What a map's iteration order decides in
  between is a parameter \<open>iter\<close>, which lists the keys of a map in whatever order. The schema is a
  field of the host; a message is kept as the texts its sentence is made from.
\<close>

definition MaxGraphBytes :: nat where
  "MaxGraphBytes = 1048576"

definition MaxFactPointerDepth :: nat where
  "MaxFactPointerDepth = 64"

definition SupportedFormatVersions :: "string list" where
  "SupportedFormatVersions = [''1'']"

record Node =
  ndPack :: string
  ndDescription :: string

record EvidenceFeed =
  efID :: string
  efOnUnresolved :: string

definition State :: "EvidenceFeed \<Rightarrow> string \<Rightarrow> string" where
  "State f upstreamKind =
     (if upstreamKind = ''outcome'' then ''present''
      else if efOnUnresolved f = ''absent'' then ''absent'' else ''unknown'')"

record Edge =
  egFrom :: string
  egTo :: string
  egFact :: string
  egEvidence :: "EvidenceFeed option"
  egDescription :: string

record Document =
  gdFormatVersion :: string
  gdID :: string
  gdVersion :: string
  gdDescription :: string
  gdNodes :: "(string \<times> Node) list"
  gdEdges :: "Edge list"
  gdResult :: string
  gdDigest :: string

text \<open>The part of a project a graph reads: its declared packs in the configuration, their sorted ids,
  and its files. A file is read more than once in a run and may change in between, so a read names its
  place among the reads of the run.\<close>

record PackEntry =
  peID :: string
  pePath :: string

datatype ReadResult = ReadBytes string | ReadTooLarge | ReadError

record Project =
  pjConfigPath :: string
  pjConfigDigest :: string
  pjIDs :: "string list"
  pjPacks :: "(string \<times> PackEntry) list"
  pjReadPack :: "nat \<Rightarrow> PackEntry \<Rightarrow> ReadResult"

definition Entry :: "Project \<Rightarrow> string \<Rightarrow> PackEntry option" where
  "Entry p k = map_of (pjPacks p) k"

subsection \<open>Reading a document\<close>

text \<open>The host of the graph surface: the schema of graph documents, which may fail to compile, and the
  encoder without HTML escapes.\<close>

record graphHost = host +
  hGraphSchema :: schema
  hGraphSchemaCompiles :: bool
  hEncode :: "json \<Rightarrow> string option"

definition declaredFormatVersion :: "object \<Rightarrow> Failure option" where
  "declaredFormatVersion m =
     (if \<not> hasMember m ''formatVersion'' then Some (unclassed ''JPS-GRAPH-VERSION'' ExitInvalid)
      else case asString (jget m ''formatVersion'') of
             None \<Rightarrow> Some (unclassed ''JPS-GRAPH-VERSION'' ExitInvalid)
           | Some v \<Rightarrow> if v \<in> set SupportedFormatVersions then None
                       else Some (unclassed ''JPS-GRAPH-VERSION'' ExitUnsupported))"

text \<open>\<open>json.Unmarshal\<close> into the structures: a member that is absent or null leaves the zero value, and
  one of another type than its field is an error. The schema admits no further members.\<close>

definition textField :: "object \<Rightarrow> string \<Rightarrow> string option" where
  "textField m k = (case jget m k of JString s \<Rightarrow> Some s | JNull \<Rightarrow> Some [] | _ \<Rightarrow> None)"

fun readNode :: "json \<Rightarrow> Node option" where
  "readNode (JObject m) =
     Option.bind (textField m ''pack'') (\<lambda>p. map_option (\<lambda>d. \<lparr>ndPack = p, ndDescription = d\<rparr>) (textField m ''description''))"
| "readNode JNull = Some \<lparr>ndPack = [], ndDescription = []\<rparr>"
| "readNode _ = None"

fun readFeed :: "json \<Rightarrow> EvidenceFeed option option" where
  "readFeed (JObject m) =
     Option.bind (textField m ''id'') (\<lambda>i. map_option (\<lambda>u. Some \<lparr>efID = i, efOnUnresolved = u\<rparr>) (textField m ''onUnresolved''))"
| "readFeed JNull = Some None"
| "readFeed _ = None"

fun readEdge :: "json \<Rightarrow> Edge option" where
  "readEdge (JObject m) =
     Option.bind (textField m ''from'') (\<lambda>f.
     Option.bind (textField m ''to'') (\<lambda>t.
     Option.bind (textField m ''fact'') (\<lambda>p.
     Option.bind (readFeed (jget m ''evidence'')) (\<lambda>e.
     map_option (\<lambda>d. \<lparr>egFrom = f, egTo = t, egFact = p, egEvidence = e, egDescription = d\<rparr>)
       (textField m ''description'')))))"
| "readEdge JNull = Some \<lparr>egFrom = [], egTo = [], egFact = [], egEvidence = None, egDescription = []\<rparr>"
| "readEdge _ = None"

fun readNodes :: "json \<Rightarrow> (string \<times> Node) list option" where
  "readNodes (JObject m) = those (map (\<lambda>(k, v). map_option (Pair k) (readNode v)) m)"
| "readNodes JNull = Some []"
| "readNodes _ = None"

fun readEdges :: "json \<Rightarrow> Edge list option" where
  "readEdges (JArray xs) = those (map readEdge xs)"
| "readEdges JNull = Some []"
| "readEdges _ = None"

definition graphDocumentOf :: "object \<Rightarrow> string \<Rightarrow> Document option" where
  "graphDocumentOf m digest =
     Option.bind (textField m ''formatVersion'') (\<lambda>f.
     Option.bind (textField m ''id'') (\<lambda>i.
     Option.bind (textField m ''version'') (\<lambda>v.
     Option.bind (textField m ''description'') (\<lambda>d.
     Option.bind (readNodes (jget m ''nodes'')) (\<lambda>ns.
     Option.bind (readEdges (jget m ''edges'')) (\<lambda>es.
     map_option (\<lambda>r. \<lparr>gdFormatVersion = f, gdID = i, gdVersion = v, gdDescription = d, gdNodes = ns,
                      gdEdges = es, gdResult = r, gdDigest = digest\<rparr>)
       (textField m ''result'')))))))"

definition LoadGraph :: "('h) graphHost_scheme \<Rightarrow> string \<Rightarrow> Failure + Document" where
  "LoadGraph H data =
     (if length data > MaxGraphBytes then Inl (unclassed ''JPS-RESOURCE-GRAPH-BYTE-LIMIT'' ExitIO)
      else if length data = 0 then Inl (unclassed ''JPS-GRAPH-JSON'' ExitInvocation)
      else case Decode data (eTokens H data) DefaultLimits of
             Inl f \<Rightarrow> Inl (unclassed ''JPS-GRAPH-JSON'' ExitInvocation)
           | Inr decoded \<Rightarrow>
             (case asObject decoded of
                None \<Rightarrow> Inl (unclassed ''JPS-GRAPH-SCHEMA'' ExitInvalid)
              | Some documentRoot \<Rightarrow>
                refuseIf (declaredFormatVersion documentRoot)
                  (if \<not> hGraphSchemaCompiles H then Inl (unclassed ''JPS-ARTIFACT-GRAPH-SCHEMA'' ExitInternal)
                   else if hGraphSchema H decoded \<noteq> None then Inl (unclassed ''JPS-GRAPH-SCHEMA'' ExitInvalid)
                   else case graphDocumentOf documentRoot (''sha256:'' @ hSha256 H data) of
                          None \<Rightarrow> Inl (unclassed ''JPS-GRAPH-SCHEMA'' ExitInternal)
                        | Some document \<Rightarrow> Inr document)))"

subsection \<open>The order of evaluation\<close>

definition declares :: "Document \<Rightarrow> string \<Rightarrow> bool" where
  "declares d k \<longleftrightarrow> k \<in> fst ` set (gdNodes d)"

text \<open>The edges the order heeds, and the two maps of sets built from them.\<close>

definition relates :: "Document \<Rightarrow> Edge \<Rightarrow> bool" where
  "relates d e \<longleftrightarrow> egFrom e \<noteq> egTo e \<and> declares d (egFrom e) \<and> declares d (egTo e)"

definition predecessorsOf :: "Document \<Rightarrow> string \<Rightarrow> string list" where
  "predecessorsOf d k = uniqueList (map egFrom (filter (\<lambda>e. relates d e \<and> egTo e = k) (gdEdges d)))"

definition successorsOf :: "Document \<Rightarrow> string \<Rightarrow> string list" where
  "successorsOf d k = uniqueList (map egTo (filter (\<lambda>e. relates d e \<and> egFrom e = k) (gdEdges d)))"

text \<open>Kahn's algorithm, the smallest available node first. A step takes one node, so as many steps as
  there are nodes are enough.\<close>

fun release :: "string \<Rightarrow> string list \<Rightarrow> (string \<Rightarrow> string list) \<times> string list \<Rightarrow> (string \<Rightarrow> string list) \<times> string list" where
  "release k [] st = st"
| "release k (follower # rest) (predecessors, available) =
     (let left = removeAll k (predecessors follower)
      in release k rest (predecessors(follower := left), if left = [] then available @ [follower] else available))"

fun kahn :: "nat \<Rightarrow> (string list \<Rightarrow> string list) \<Rightarrow> (string \<Rightarrow> string list) \<Rightarrow> (string \<Rightarrow> string list) \<Rightarrow> string list
    \<Rightarrow> string list \<Rightarrow> string list" where
  "kahn 0 iter successors predecessors available order = order"
| "kahn (Suc n) iter successors predecessors available order =
     (case sort available of
        [] \<Rightarrow> order
      | k # rest \<Rightarrow>
          (let (predecessors', available') = release k (iter (successors k)) (predecessors, rest)
           in kahn n iter successors predecessors' available' (order @ [k])))"

text \<open>Tarjan's strongly connected components, nodes and followers in sorted order. The stack is
  listed from its top.\<close>

record tarjan =
  tjIndex :: nat
  tjIndices :: "string \<Rightarrow> nat option"
  tjLow :: "string \<Rightarrow> nat"
  tjOnStack :: "string \<Rightarrow> bool"
  tjStack :: "string list"
  tjMembers :: "string list"

fun popTo :: "string \<Rightarrow> string list \<Rightarrow> string list \<times> string list" where
  "popTo k [] = ([], [])"
| "popTo k (v # stack) =
     (if v = k then ([v], stack) else let (component, rest) = popTo k stack in (v # component, rest))"

definition enterNode :: "string \<Rightarrow> tarjan \<Rightarrow> tarjan" where
  "enterNode k s =
     s\<lparr>tjIndices := (tjIndices s)(k \<mapsto> tjIndex s), tjLow := (tjLow s)(k := tjIndex s),
       tjIndex := tjIndex s + 1, tjStack := k # tjStack s, tjOnStack := (tjOnStack s)(k := True)\<rparr>"

definition lowerTo :: "string \<Rightarrow> nat \<Rightarrow> tarjan \<Rightarrow> tarjan" where
  "lowerTo k n s = (if n < tjLow s k then s\<lparr>tjLow := (tjLow s)(k := n)\<rparr> else s)"

definition leaveNode :: "string \<Rightarrow> tarjan \<Rightarrow> tarjan" where
  "leaveNode k s =
     (if Some (tjLow s k) = tjIndices s k then
        (let (component, rest) = popTo k (tjStack s)
         in s\<lparr>tjStack := rest, tjOnStack := (\<lambda>v. tjOnStack s v \<and> v \<notin> set component),
              tjMembers := (if length component > 1 then tjMembers s @ component else tjMembers s)\<rparr>)
      else s)"

text \<open>The loop over the followers of a node, with the visit of one that is new. The recursion enters
  a new node each time, so its depth is within the number of nodes.\<close>

fun followers :: "(string \<Rightarrow> tarjan \<Rightarrow> tarjan) \<Rightarrow> string \<Rightarrow> string list \<Rightarrow> tarjan \<Rightarrow> tarjan" where
  "followers visit k [] s = s"
| "followers visit k (f # fs) s =
     followers visit k fs
       (case tjIndices s f of
          None \<Rightarrow> (let s1 = visit f s in lowerTo k (tjLow s1 f) s1)
        | Some i \<Rightarrow> if tjOnStack s f then lowerTo k i s else s)"

fun connect :: "nat \<Rightarrow> (string \<Rightarrow> string list) \<Rightarrow> string \<Rightarrow> tarjan \<Rightarrow> tarjan" where
  "connect 0 successors k s = s"
| "connect (Suc n) successors k s =
     leaveNode k (followers (connect n successors) k (sort (successors k)) (enterNode k s))"

fun connectAll :: "nat \<Rightarrow> (string \<Rightarrow> string list) \<Rightarrow> string list \<Rightarrow> tarjan \<Rightarrow> tarjan" where
  "connectAll n successors [] s = s"
| "connectAll n successors (k # ks) s =
     connectAll n successors ks (if tjIndices s k = None then connect n successors k s else s)"

definition newTarjan :: tarjan where
  "newTarjan = \<lparr>tjIndex = 0, tjIndices = (\<lambda>_. None), tjLow = (\<lambda>_. 0), tjOnStack = (\<lambda>_. False), tjStack = [],
                tjMembers = []\<rparr>"

definition cycleMembers :: "(string \<times> Node) list \<Rightarrow> (string \<Rightarrow> string list) \<Rightarrow> string list" where
  "cycleMembers nodes successors =
     sort (tjMembers (connectAll (length nodes) successors (sort (map fst nodes)) newTarjan))"

definition Order :: "(string list \<Rightarrow> string list) \<Rightarrow> Document \<Rightarrow> string list \<times> string list" where
  "Order iter d =
     (let available = filter (\<lambda>k. predecessorsOf d k = []) (iter (map fst (gdNodes d)));
          order = kahn (length (gdNodes d)) iter (successorsOf d) (predecessorsOf d) available []
      in if length order = length (gdNodes d) then (order, []) else (order, cycleMembers (gdNodes d) (successorsOf d)))"

subsection \<open>Structural checks\<close>

definition decodePointerToken :: "string \<Rightarrow> string" where
  "decodePointerToken token =
     replacePair (CHR ''~'') (CHR ''0'') (CHR ''~'') (replacePair (CHR ''~'') (CHR ''1'') (CHR ''/'') token)"

definition pointerTokens :: "string \<Rightarrow> string list" where
  "pointerTokens pointer = map decodePointerToken (splitOn (CHR ''/'') (tl pointer))"

definition pathsOverlap :: "string list \<Rightarrow> string list \<Rightarrow> bool" where
  "pathsOverlap a b =
     (let (shorter, longer) = (if length b < length a then (b, a) else (a, b))
      in list_all2 (\<lambda>x y. x = y) shorter (take (length shorter) longer))"

definition graphDiagnostic :: "string \<Rightarrow> string \<Rightarrow> string list \<Rightarrow> Diagnostic" where
  "graphDiagnostic code path message = ErrorDiagnostic code ''graph'' path message"

definition nodeDiagnostics :: "Project \<Rightarrow> Document \<Rightarrow> string \<Rightarrow> Diagnostic list" where
  "nodeDiagnostics loaded d k =
     (case map_of (gdNodes d) k of
        None \<Rightarrow> []
      | Some node \<Rightarrow>
          if Entry loaded (ndPack node) \<noteq> None then []
          else [graphDiagnostic ''JPS-GRAPH-NODE-PACK'' (''/nodes/'' @ k)
                  (ndPack node # pjConfigPath loaded # pjIDs loaded)])"

text \<open>What the edges before have fed: the keys of facts and of evidence, and the fact pointers of each
  node in edge order.\<close>

record fedTargets =
  ftFacts :: "string list"
  ftPaths :: "string \<Rightarrow> (string \<times> string list) list"
  ftEvidence :: "string list"

definition targetKey :: "string \<Rightarrow> string \<Rightarrow> string" where
  "targetKey node name = node @ [CHR 0x00] @ name"

definition edgePath :: "nat \<Rightarrow> string" where
  "edgePath i = ''/edges/'' @ natString i"

definition endpointDiagnostics :: "Document \<Rightarrow> nat \<Rightarrow> Edge \<Rightarrow> Diagnostic list" where
  "endpointDiagnostics d i e =
     (if declares d (egFrom e) then []
      else [graphDiagnostic ''JPS-GRAPH-EDGE-ENDPOINT'' (edgePath i @ ''/from'') [egFrom e]]) @
     (if declares d (egTo e) then []
      else [graphDiagnostic ''JPS-GRAPH-EDGE-ENDPOINT'' (edgePath i @ ''/to'') [egTo e]]) @
     (if declares d (egFrom e) \<and> declares d (egTo e) \<and> egFrom e = egTo e
      then [graphDiagnostic ''JPS-GRAPH-EDGE-SELF'' (edgePath i) [egFrom e]] else [])"

definition factDiagnostics :: "nat \<Rightarrow> Edge \<Rightarrow> fedTargets \<Rightarrow> Diagnostic list" where
  "factDiagnostics i e t =
     (let tokens = pointerTokens (egFact e)
      in (if targetKey (egTo e) (egFact e) \<in> set (ftFacts t)
          then [graphDiagnostic ''JPS-GRAPH-EDGE-DUPLICATE-FACT'' (edgePath i @ ''/fact'') [egFact e, egTo e]] else []) @
         (if length tokens > MaxFactPointerDepth
          then [graphDiagnostic ''JPS-GRAPH-FACT-POINTER-DEPTH'' (edgePath i @ ''/fact'')
                  [egTo e, natString (length tokens)]] else []) @
         (if list_ex (\<lambda>(raw, earlier). raw \<noteq> egFact e \<and> pathsOverlap earlier tokens) (ftPaths t (egTo e))
          then [graphDiagnostic ''JPS-GRAPH-EDGE-FACT-OVERLAP'' (edgePath i @ ''/fact'') [egFact e, egTo e]] else []))"

definition feedFact :: "Edge \<Rightarrow> fedTargets \<Rightarrow> fedTargets" where
  "feedFact e t =
     t\<lparr>ftFacts := targetKey (egTo e) (egFact e) # ftFacts t,
       ftPaths := (ftPaths t)(egTo e := ftPaths t (egTo e) @ [(egFact e, pointerTokens (egFact e))])\<rparr>"

definition evidenceDiagnostics :: "nat \<Rightarrow> Edge \<Rightarrow> EvidenceFeed \<Rightarrow> fedTargets \<Rightarrow> Diagnostic list" where
  "evidenceDiagnostics i e f t =
     (if targetKey (egTo e) (efID f) \<in> set (ftEvidence t)
      then [graphDiagnostic ''JPS-GRAPH-EDGE-DUPLICATE-EVIDENCE'' (edgePath i @ ''/evidence/id'') [efID f, egTo e]]
      else [])"

definition edgeDiagnostics :: "Document \<Rightarrow> nat \<Rightarrow> Edge \<Rightarrow> fedTargets \<Rightarrow> Diagnostic list \<times> fedTargets" where
  "edgeDiagnostics d i e t =
     (let (facts, t1) = (if egFact e \<noteq> [] \<and> declares d (egTo e) then (factDiagnostics i e t, feedFact e t) else ([], t));
          (feeds, t2) = (case egEvidence e of
                           Some f \<Rightarrow> if declares d (egTo e)
                                     then (evidenceDiagnostics i e f t1, t1\<lparr>ftEvidence := targetKey (egTo e) (efID f) # ftEvidence t1\<rparr>)
                                     else ([], t1)
                         | None \<Rightarrow> ([], t1))
      in (endpointDiagnostics d i e @ facts @ feeds, t2))"

fun edgesDiagnostics :: "Document \<Rightarrow> nat \<Rightarrow> Edge list \<Rightarrow> fedTargets \<Rightarrow> Diagnostic list" where
  "edgesDiagnostics d i [] t = []"
| "edgesDiagnostics d i (e # es) t =
     (let (ds, t1) = edgeDiagnostics d i e t in ds @ edgesDiagnostics d (i + 1) es t1)"

definition noTargets :: fedTargets where
  "noTargets = \<lparr>ftFacts = [], ftPaths = (\<lambda>_. []), ftEvidence = []\<rparr>"

definition Structural :: "(string list \<Rightarrow> string list) \<Rightarrow> Project \<Rightarrow> Document \<Rightarrow> Diagnostic list" where
  "Structural iter loaded d =
     concat (map (nodeDiagnostics loaded d) (sort (map fst (gdNodes d)))) @
     edgesDiagnostics d 0 (gdEdges d) noTargets @
     (if declares d (gdResult d) then []
      else [graphDiagnostic ''JPS-GRAPH-RESULT-NODE'' ''/result'' [gdResult d]]) @
     (let (order, cycle) = Order iter d
      in if length cycle > 0 then [graphDiagnostic ''JPS-GRAPH-CYCLE'' ''/edges'' cycle] else [])"

subsection \<open>Checks against the packs\<close>

definition nodeReceivesEvidence :: "Edge list \<Rightarrow> string \<Rightarrow> bool" where
  "nodeReceivesEvidence edges k = list_ex (\<lambda>e. egTo e = k \<and> egEvidence e \<noteq> None) edges"

definition requirementIDs :: "object \<Rightarrow> string list" where
  "requirementIDs m =
     (case jget m ''evidenceRequirements'' of
        JArray entries \<Rightarrow>
          concat (map (\<lambda>v. case asObject v of
                             Some r \<Rightarrow> (case jget r ''id'' of JString s \<Rightarrow> [s] | _ \<Rightarrow> [])
                           | None \<Rightarrow> []) entries)
      | _ \<Rightarrow> [])"

definition declaredEvidenceIDs :: "('h) graphHost_scheme \<Rightarrow> ReadResult \<Rightarrow> string list option" where
  "declaredEvidenceIDs H r =
     (case r of
        ReadBytes data \<Rightarrow>
          (case Decode data (eTokens H data) DefaultLimits of
             Inl f \<Rightarrow> None
           | Inr decoded \<Rightarrow> map_option requirementIDs (asObject decoded))
      | _ \<Rightarrow> None)"

text \<open>The loop over the sorted nodes: its diagnostics and the identifiers of each pack that was read.\<close>

fun readRequirements :: "('h) graphHost_scheme \<Rightarrow> Project \<Rightarrow> Document \<Rightarrow> nat \<Rightarrow> string list
    \<Rightarrow> Diagnostic list \<times> (string \<Rightarrow> string list option)" where
  "readRequirements H loaded d n [] = ([], \<lambda>_. None)"
| "readRequirements H loaded d n (k # ks) =
     (case Option.bind (map_of (gdNodes d) k) (\<lambda>node. Entry loaded (ndPack node)) of
        None \<Rightarrow> readRequirements H loaded d n ks
      | Some entry \<Rightarrow>
          if \<not> nodeReceivesEvidence (gdEdges d) k then readRequirements H loaded d n ks
          else (let (ds, m) = readRequirements H loaded d (n + 1) ks
                in case declaredEvidenceIDs H (pjReadPack loaded n entry) of
                     None \<Rightarrow> (graphDiagnostic ''JPS-GRAPH-NODE-PACK-READ'' (''/nodes/'' @ k) [pePath entry] # ds, m)
                   | Some ids \<Rightarrow> (ds, m(k \<mapsto> ids))))"

definition undeclaredEvidence :: "(string \<Rightarrow> string list option) \<Rightarrow> nat \<Rightarrow> Edge \<Rightarrow> Diagnostic list" where
  "undeclaredEvidence m i e =
     (case egEvidence e of
        None \<Rightarrow> []
      | Some f \<Rightarrow>
          (case m (egTo e) of
             None \<Rightarrow> []
           | Some ids \<Rightarrow>
               if efID f \<in> set ids then []
               else [graphDiagnostic ''JPS-GRAPH-EDGE-EVIDENCE-UNDECLARED'' (edgePath i @ ''/evidence/id'') [efID f, egTo e]]))"

definition SemanticGraph :: "('h) graphHost_scheme \<Rightarrow> (string list \<Rightarrow> string list) \<Rightarrow> Project \<Rightarrow> Document \<Rightarrow> Diagnostic list" where
  "SemanticGraph H iter loaded d =
     (let (ds, m) = readRequirements H loaded d 0 (sort (map fst (gdNodes d)))
      in Structural iter loaded d @ ds @
         concat (map (\<lambda>(i, e). undeclaredEvidence m i e) (List.enumerate 0 (gdEdges d))))"

end
