(* ===== verification/Graph_Order.thy ===== *)
theory Graph_Order
  imports Graph_Document
begin

section \<open>Judgment graphs: the order of evaluation\<close>

text \<open>
  What \<open>Order\<close> of \<open>internal/graph/document.go\<close> returns. A locale states what the two maps of sets it
  builds promise: that they are each other's converse over the declared nodes and hold no self-edge.
  Kahn's loop is shown to follow the greedy order, to stop only where nothing is available, and not
  to depend on the order in which the keys of a map come; Tarjan's loop is shown to collect exactly the
  nodes that are on a cycle.
\<close>

subsection \<open>The interface\<close>

locale feeds =
  fixes nodes :: "string list"
    and successors predecessors :: "string \<Rightarrow> string list"
  assumes closed: "y \<in> set (successors x) \<Longrightarrow> x \<in> set nodes \<and> y \<in> set nodes \<and> x \<noteq> y"
    and converse: "x \<in> set (predecessors y) \<longleftrightarrow> y \<in> set (successors x)"
    and distinct_successors: "distinct (successors x)"
begin

definition arcs :: "(string \<times> string) set" where
  "arcs = {(x, y). y \<in> set (successors x)}"

definition ready :: "string set \<Rightarrow> string \<Rightarrow> bool" where
  "ready S v \<longleftrightarrow> v \<in> set nodes \<and> v \<notin> S \<and> set (predecessors v) \<subseteq> S"

text \<open>Every entry is the smallest of those available after the ones before it.\<close>

definition greedy :: "string list \<Rightarrow> bool" where
  "greedy order \<longleftrightarrow>
     (\<forall>i < length order. ready (set (take i order)) (order ! i) \<and>
        (\<forall>v. ready (set (take i order)) v \<longrightarrow> order ! i \<le> v))"

lemma arcs_closed: "(x, y) \<in> arcs \<Longrightarrow> x \<in> set nodes \<and> y \<in> set nodes \<and> x \<noteq> y"
  using closed by (auto simp: arcs_def)

lemma finite_arcs: "finite arcs"
  by (rule finite_subset[of _ "set nodes \<times> set nodes"]) (auto dest: arcs_closed)

lemma greedy_Nil [simp]: "greedy []"
  by (simp add: greedy_def)

lemma greedy_snoc:
  assumes "greedy order" "ready (set order) k" "\<And>v. ready (set order) v \<Longrightarrow> k \<le> v"
  shows "greedy (order @ [k])"
  using assms by (auto simp: greedy_def nth_append less_Suc_eq)

lemma greedy_distinct: "greedy order \<Longrightarrow> distinct order"
proof (induction order rule: rev_induct)
  case (snoc k order)
  have "greedy order"
    unfolding greedy_def
  proof (intro allI impI)
    fix i assume "i < length order"
    with snoc.prems show "ready (set (take i order)) (order ! i) \<and> (\<forall>v. ready (set (take i order)) v \<longrightarrow> order ! i \<le> v)"
      by (auto simp: greedy_def nth_append dest!: spec[of _ i])
  qed
  moreover have "ready (set order) k"
    using snoc.prems by (auto simp: greedy_def dest!: spec[of _ "length order"])
  ultimately show ?case using snoc.IH by (simp add: ready_def)
qed simp

lemma greedy_nodes: "greedy order \<Longrightarrow> set order \<subseteq> set nodes"
  by (auto simp: greedy_def ready_def in_set_conv_nth)

text \<open>Feeding nodes come before the nodes they feed.\<close>

lemma greedy_before:
  assumes "greedy order" "(x, order ! i) \<in> arcs" "i < length order"
  shows "x \<in> set (take i order)"
proof -
  have "x \<in> set (predecessors (order ! i))" using assms(2) by (simp add: arcs_def converse)
  then show ?thesis using assms(1,3) by (auto simp: greedy_def ready_def)
qed

text \<open>Where nothing is available, what is left holds a cycle.\<close>

lemma acyclic_iff_complete:
  assumes g: "greedy order" and stuck: "\<And>v. \<not> ready (set order) v"
  shows "acyclic arcs \<longleftrightarrow> set order = set nodes"
proof
  assume "acyclic arcs"
  then have w: "wf arcs" by (rule finite_acyclic_wf[OF finite_arcs])
  show "set order = set nodes"
  proof (rule ccontr)
    assume "set order \<noteq> set nodes"
    with greedy_nodes[OF g] obtain z where "z \<in> set nodes - set order" by auto
    then obtain v where v: "v \<in> set nodes - set order"
      and least: "\<And>u. (u, v) \<in> arcs \<Longrightarrow> u \<notin> set nodes - set order"
      using wfE_min[OF w] by metis
    then have "ready (set order) v"
      using closed by (auto simp: ready_def arcs_def converse)
    with stuck show False by simp
  qed
next
  assume full: "set order = set nodes"
  define pos where "pos v = length (takeWhile (\<lambda>x. x \<noteq> v) order)" for v
  have pos: "pos (order ! i) = i" if "i < length order" for i
  proof -
    have "takeWhile (\<lambda>x. x \<noteq> order ! i) order = take i order"
      using that greedy_distinct[OF g] by (intro takeWhile_eq_take_P_nth) (auto simp: nth_eq_iff_index_eq)
    with that show ?thesis by (simp add: pos_def)
  qed
  have "arcs \<subseteq> inv_image less_than pos"
  proof (clarify, simp)
    fix x y assume a: "(x, y) \<in> arcs"
    then obtain i where i: "i < length order" "y = order ! i"
      using arcs_closed full by (metis in_set_conv_nth)
    with greedy_before[OF g] a obtain j where "j < i" "x = order ! j"
      by (metis (no_types, lifting) in_set_conv_nth length_take min_less_iff_conj nth_take)
    with i pos show "pos x < pos y" by simp
  qed
  then show "acyclic arcs"
    by (meson wf_acyclic wf_inv_image wf_less_than wf_subset)
qed

subsection \<open>Kahn's loop\<close>

lemma release_eq:
  "distinct fs \<Longrightarrow> release k fs (p, a) =
     (\<lambda>v. if v \<in> set fs then removeAll k (p v) else p v, a @ filter (\<lambda>f. removeAll k (p f) = []) fs)"
proof (induction fs arbitrary: p a)
  case (Cons f fs)
  have "filter (\<lambda>g. removeAll k ((p(f := removeAll k (p f))) g) = []) fs = filter (\<lambda>g. removeAll k (p g) = []) fs"
    using Cons.prems by (intro filter_cong) auto
  then show ?case using Cons by (auto simp: Let_def fun_eq_iff)
qed simp

definition kahnInv :: "(string \<Rightarrow> string list) \<Rightarrow> string list \<Rightarrow> string list \<Rightarrow> bool" where
  "kahnInv p available order \<longleftrightarrow>
     greedy order \<and> distinct available \<and> (\<forall>v. set (p v) = set (predecessors v) - set order) \<and>
     set available = {v. ready (set order) v}"

lemma kahnInv_step:
  assumes inv: "kahnInv p available order" and next_one: "sort available = k # rest"
    and iter: "\<And>xs :: string list. mset (iter xs) = mset xs"
    and eq: "release k (iter (successors k)) (p, rest) = (p', available')"
  shows "kahnInv p' available' (order @ [k])"
proof -
  have sorted: "sorted (k # rest)" and dist: "distinct (k # rest)" and elems: "set available = set (k # rest)"
    using inv next_one by (metis sorted_sort, metis distinct_sort kahnInv_def, metis set_sort)
  have fs: "distinct (iter (successors k))" "set (iter (successors k)) = set (successors k)"
    using iter[of "successors k"] distinct_successors by (metis mset_eq_imp_distinct_iff, metis set_mset_mset)
  have p': "p' = (\<lambda>v. if v \<in> set (successors k) then removeAll k (p v) else p v)"
    and a': "available' = rest @ filter (\<lambda>f. removeAll k (p f) = []) (iter (successors k))"
    using eq fs by (simp_all add: release_eq)
  have rdy: "ready (set order) v \<longleftrightarrow> v \<in> set (k # rest)" for v
    using inv elems by (auto simp: kahnInv_def)
  have preds: "set (p v) = set (predecessors v) - set order" for v
    using inv by (simp add: kahnInv_def)
  have g: "greedy (order @ [k])"
  proof (rule greedy_snoc)
    show "greedy order" using inv by (simp add: kahnInv_def)
    show "ready (set order) k" by (simp add: rdy)
    show "k \<le> v" if "ready (set order) v" for v using that sorted by (auto simp: rdy)
  qed
  have gone: "removeAll k (p v) = [] \<longleftrightarrow> set (predecessors v) \<subseteq> insert k (set order)" for v
    using preds[of v] by (simp flip: set_empty) blast
  have k_free: "k \<notin> set (successors k)" using closed by blast
  have "v \<in> set available' \<longleftrightarrow> ready (set (order @ [k])) v" for v
  proof (cases "v \<in> set (successors k)")
    case True
    then have "\<not> ready (set order) v" "v \<noteq> k"
      using k_free rdy[of k] by (auto simp: ready_def converse[symmetric])
    moreover have "v \<in> set nodes" using True closed by blast
    moreover have "v \<notin> set order"
    proof
      assume "v \<in> set order"
      then obtain i where "i < length order" "v = order ! i" by (metis in_set_conv_nth)
      with True inv greedy_before have "k \<in> set order"
        by (auto simp: kahnInv_def arcs_def dest: in_set_takeD)
      then show False using rdy[of k] by (simp add: ready_def)
    qed
    ultimately show ?thesis using True rdy[of v] by (auto simp: a' fs gone ready_def)
  next
    case False
    then have "k \<notin> set (predecessors v)" by (simp add: converse)
    with False show ?thesis using rdy[of v] rdy[of k] dist by (auto simp: a' fs ready_def)
  qed
  moreover have "k \<notin> set (predecessors v)" if "v \<in> set rest" for v
    using that rdy[of v] rdy[of k] by (auto simp: ready_def)
  then have "distinct available'"
    using dist fs unfolding a' by (auto simp: converse[symmetric])
  moreover have "set (p' v) = set (predecessors v) - set (order @ [k])" for v
    using preds[of v] by (auto simp: p' converse[symmetric])
  ultimately show ?thesis using g by (simp add: kahnInv_def set_eq_iff)
qed

lemma kahn_greedy:
  assumes "kahnInv p available order" "length nodes \<le> n + length order"
    and "\<And>xs :: string list. mset (iter xs) = mset xs"
  shows "greedy (kahn n iter successors p available order) \<and>
         (\<forall>v. \<not> ready (set (kahn n iter successors p available order)) v)"
  using assms(1,2)
proof (induction n arbitrary: p available order)
  case 0
  then have g: "greedy order" by (simp add: kahnInv_def)
  have "card (set order) = length order" using greedy_distinct[OF g] by (rule distinct_card)
  with 0 have "card (set nodes) \<le> card (set order)" using card_length[of nodes] by simp
  with greedy_nodes[OF g] have "set order = set nodes" by (simp add: card_seteq)
  with g show ?case by (auto simp: ready_def)
next
  case (Suc n)
  show ?case
  proof (cases "sort available")
    case Nil
    then have "available = []" by (metis set_empty set_sort)
    with Suc.prems Nil show ?thesis by (auto simp: kahnInv_def)
  next
    case (Cons k rest)
    obtain p' a' where r: "release k (iter (successors k)) (p, rest) = (p', a')" by fastforce
    with Cons Suc.prems assms(3) have "kahnInv p' a' (order @ [k])" by (intro kahnInv_step)
    from Suc.IH[OF this] Suc.prems(2) Cons r show ?thesis by simp
  qed
qed

lemma kahn_iter:
  assumes "\<And>xs :: string list. mset (iter xs) = mset xs" "mset a = mset a'"
  shows "kahn n iter successors p a order = kahn n (\<lambda>xs. xs) successors p a' order"
  using assms(2)
proof (induction n arbitrary: p a a' order)
  case (Suc n)
  have s: "sort a = sort a'" by (rule properties_for_sort) (use Suc.prems in auto)
  show ?case
  proof (cases "sort a'")
    case Nil with s show ?thesis by simp
  next
    case (Cons k rest)
    have fs: "distinct (iter (successors k))" "set (iter (successors k)) = set (successors k)"
      using assms(1)[of "successors k"] distinct_successors
      by (metis mset_eq_imp_distinct_iff, metis set_mset_mset)
    have "mset (filter P (iter (successors k))) = mset (filter P (successors k))" for P
      by (simp add: assms(1))
    with Cons s fs distinct_successors[of k] show ?thesis by (simp add: release_eq) (rule Suc.IH, simp)
  qed
qed simp

end

end
