(* ===== verification/Graph_Cycles.thy ===== *)
theory Graph_Cycles
  imports Graph_Order
begin

section \<open>Judgment graphs: the nodes on a cycle\<close>

text \<open>
  Tarjan's loop of \<open>internal/graph/document.go\<close>, verified against the relation of the edges. The
  invariant speaks of a set of nodes that the recursion has entered and not left, which the code keeps
  on its call stack: indices fall along the stack, a node reaches every node above it, every node on
  the stack reaches one that is still being visited, what has left the stack is closed under the
  edges, and the members collected are exactly the nodes off the stack that are on a cycle.
\<close>

context feeds
begin

abbreviation reach :: "string \<Rightarrow> string \<Rightarrow> bool" where
  "reach x y \<equiv> (x, y) \<in> arcs\<^sup>*"

definition visited :: "tarjan \<Rightarrow> string set" where
  "visited s = dom (tjIndices s)"

definition num :: "tarjan \<Rightarrow> string \<Rightarrow> nat" where
  "num s v = the (tjIndices s v)"

text \<open>Everything but the low links, which no clause of it mentions.\<close>

definition stackOk :: "string set \<Rightarrow> tarjan \<Rightarrow> bool" where
  "stackOk G s \<longleftrightarrow>
     visited s \<subseteq> set nodes \<and> (\<forall>v \<in> visited s. num s v < tjIndex s) \<and>
     sorted_wrt (\<lambda>a b. num s b < num s a) (tjStack s) \<and> set (tjStack s) \<subseteq> visited s \<and>
     (\<forall>v. tjOnStack s v \<longleftrightarrow> v \<in> set (tjStack s)) \<and> G \<subseteq> set (tjStack s)"

definition closedOk :: "string set \<Rightarrow> tarjan \<Rightarrow> bool" where
  "closedOk G s \<longleftrightarrow>
     (\<forall>v \<in> visited s - G. set (successors v) \<subseteq> visited s) \<and>
     (\<forall>v \<in> visited s - set (tjStack s). set (successors v) \<inter> set (tjStack s) = {})"

definition reachOk :: "string set \<Rightarrow> tarjan \<Rightarrow> bool" where
  "reachOk G s \<longleftrightarrow>
     (\<forall>a \<in> set (tjStack s). \<forall>b \<in> set (tjStack s). num s a \<le> num s b \<longrightarrow> reach a b) \<and>
     (\<forall>b \<in> set (tjStack s). \<exists>g \<in> G. num s g \<le> num s b \<and> reach b g)"

definition membersOk :: "tarjan \<Rightarrow> bool" where
  "membersOk s \<longleftrightarrow> distinct (tjMembers s) \<and>
     set (tjMembers s) = {v \<in> visited s - set (tjStack s). (v, v) \<in> arcs\<^sup>+}"

definition tarjanOk :: "string set \<Rightarrow> tarjan \<Rightarrow> bool" where
  "tarjanOk G s \<longleftrightarrow> stackOk G s \<and> closedOk G s \<and> reachOk G s \<and> membersOk s"

text \<open>A later state: what was visited keeps its numbers, and the stack has grown by \<open>new\<close>.\<close>

definition later :: "tarjan \<Rightarrow> tarjan \<Rightarrow> string list \<Rightarrow> bool" where
  "later s t new \<longleftrightarrow>
     visited s \<subseteq> visited t \<and> tjIndex s \<le> tjIndex t \<and>
     (\<forall>v \<in> visited s. tjIndices t v = tjIndices s v \<and> tjLow t v = tjLow s v) \<and>
     (\<forall>v \<in> visited t - visited s. tjIndex s \<le> num t v) \<and>
     tjStack t = new @ tjStack s \<and> set new \<inter> visited s = {}"

text \<open>What a visit of \<open>k\<close> achieves.\<close>

definition visitedOk :: "string set \<Rightarrow> string \<Rightarrow> tarjan \<Rightarrow> tarjan \<Rightarrow> bool" where
  "visitedOk G k s t \<longleftrightarrow> tarjanOk G t \<and> k \<in> visited t \<and>
     (\<exists>new. later s t new \<and>
        (\<forall>v \<in> set new. \<forall>z \<in> set (successors v) \<inter> set (tjStack s). tjLow t k \<le> num s z) \<and>
        (if k \<in> set new then tjLow t k \<le> num t k \<and> (\<exists>y \<in> set (tjStack s). num s y = tjLow t k \<and> reach k y)
         else new = [] \<and> tjIndex s \<le> tjLow t k))"

definition visitable :: "string set \<Rightarrow> string \<Rightarrow> tarjan \<Rightarrow> bool" where
  "visitable G k s \<longleftrightarrow> tarjanOk G s \<and> k \<in> set nodes \<and> k \<notin> visited s \<and> (\<forall>g \<in> G. reach g k)"

text \<open>The loop over the followers of \<open>k\<close>, entered from \<open>s\<close>, with \<open>seen\<close> behind it.\<close>

definition loopOk :: "string set \<Rightarrow> string \<Rightarrow> tarjan \<Rightarrow> string set \<Rightarrow> tarjan \<Rightarrow> string list \<Rightarrow> bool" where
  "loopOk G k s seen t new \<longleftrightarrow>
     tarjanOk (insert k G) t \<and> later s t (new @ [k]) \<and> num t k = tjIndex s \<and>
     tjLow t k \<le> tjIndex s \<and> (\<exists>y \<in> set (tjStack t). num t y = tjLow t k \<and> reach k y) \<and>
     (\<forall>v \<in> set new. \<forall>z \<in> set (successors v) \<inter> set (tjStack s). tjLow t k \<le> num s z) \<and>
     seen \<subseteq> visited t \<and> (\<forall>z \<in> seen \<inter> set (tjStack t). tjLow t k \<le> num t z)"

lemma num_later: "later s t new \<Longrightarrow> v \<in> visited s \<Longrightarrow> num t v = num s v"
  by (simp add: later_def num_def)

lemma tarjanOk_low [simp]: "tarjanOk G (t\<lparr>tjLow := l\<rparr>) = tarjanOk G t"
  by (simp add: tarjanOk_def stackOk_def closedOk_def reachOk_def membersOk_def visited_def num_def)

lemma tarjanOk_lowerTo [simp]: "tarjanOk G (lowerTo k n t) = tarjanOk G t"
  by (simp add: lowerTo_def)

lemma lowerTo_simps [simp]:
  "visited (lowerTo k n t) = visited t" "num (lowerTo k n t) = num t" "tjIndices (lowerTo k n t) = tjIndices t"
  "tjStack (lowerTo k n t) = tjStack t" "tjIndex (lowerTo k n t) = tjIndex t"
  "tjLow (lowerTo k n t) v = (if v = k then min n (tjLow t k) else tjLow t v)"
  by (auto simp: lowerTo_def visited_def num_def fun_eq_iff)

lemma sorted_wrt_distinct: "sorted_wrt R xs \<Longrightarrow> (\<And>x. \<not> R x x) \<Longrightarrow> distinct xs"
  by (induction xs) auto

lemma stack_distinct: "stackOk G s \<Longrightarrow> distinct (tjStack s)"
  by (rule sorted_wrt_distinct[of "\<lambda>a b. num s b < num s a"]) (simp_all add: stackOk_def)

lemma later_refl: "later s s []"
  by (auto simp: later_def num_def)

lemma later_trans:
  assumes "later s t new" "later t u new'"
  shows "later s u (new' @ new)"
proof -
  note a = assms(1)[unfolded later_def] and b = assms(2)[unfolded later_def]
  have "tjIndex s \<le> num u v" if "v \<in> visited u - visited s" for v
    using that a b num_later[OF assms(2), of v] by (cases "v \<in> visited t") (auto intro: order_trans)
  with a b show ?thesis by (auto simp: later_def)
qed

subsection \<open>Entering a node\<close>

lemma enterNode_simps:
  assumes "k \<notin> visited s"
  shows "visited (enterNode k s) = insert k (visited s)" "num (enterNode k s) k = tjIndex s"
    "v \<in> visited s \<Longrightarrow> num (enterNode k s) v = num s v" "tjStack (enterNode k s) = k # tjStack s"
    "tjLow (enterNode k s) k = tjIndex s" "tjIndex (enterNode k s) = tjIndex s + 1"
    "tjOnStack (enterNode k s) v = (v = k \<or> tjOnStack s v)" "tjMembers (enterNode k s) = tjMembers s"
  using assms by (auto simp: enterNode_def visited_def num_def)

lemma later_enter: "k \<notin> visited s \<Longrightarrow> later s (enterNode k s) [k]"
  by (auto simp: later_def enterNode_def visited_def num_def)

lemma tarjanOk_enter:
  assumes "visitable G k s"
  shows "tarjanOk (insert k G) (enterNode k s)"
proof -
  have ok: "stackOk G s" "closedOk G s" "reachOk G s" "membersOk s" and k: "k \<in> set nodes" "k \<notin> visited s"
    and gk: "\<And>g. g \<in> G \<Longrightarrow> reach g k"
    using assms by (auto simp: visitable_def tarjanOk_def)
  note e = enterNode_simps[OF k(2)]
  have sub: "set (tjStack s) \<subseteq> visited s" using ok by (simp add: stackOk_def)
  then have num: "v \<in> set (tjStack s) \<Longrightarrow> num (enterNode k s) v = num s v" for v by (auto simp: e)
  have fresh: "k \<notin> set (tjStack s)" using sub k by auto
  have "sorted_wrt (\<lambda>a b. num (enterNode k s) b < num (enterNode k s) a) (tjStack s)"
    using ok by (auto simp: stackOk_def sorted_wrt_iff_nth_less num)
  then have "stackOk (insert k G) (enterNode k s)"
    using ok k sub by (auto simp: stackOk_def e num)
  moreover have "closedOk (insert k G) (enterNode k s)"
    using ok k by (fastforce simp: closedOk_def stackOk_def e)
  moreover have "reach a k" if "a \<in> set (tjStack s)" for a
    using ok that gk by (meson reachOk_def rtrancl_trans)
  then have "reachOk (insert k G) (enterNode k s)"
    using ok sub fresh by (fastforce simp: reachOk_def stackOk_def e num)
  moreover have "membersOk (enterNode k s)"
    using ok k sub by (auto simp: membersOk_def e)
  ultimately show ?thesis by (simp add: tarjanOk_def)
qed

lemma loopOk_enter: "visitable G k s \<Longrightarrow> loopOk G k s {} (enterNode k s) []"
  using tarjanOk_enter later_enter[of k s]
  by (auto simp: loopOk_def visitable_def enterNode_simps)

subsection \<open>The loop over the followers\<close>

lemma later_lowerTo: "k \<notin> visited s \<Longrightarrow> later s (lowerTo k n t) new = later s t new"
  by (auto simp: later_def)

lemma loopOk_seen:
  "loopOk G k s seen t new \<Longrightarrow> f \<in> visited t \<Longrightarrow> (f \<in> set (tjStack t) \<Longrightarrow> tjLow t k \<le> num t f) \<Longrightarrow>
   loopOk G k s (insert f seen) t new"
  by (auto simp: loopOk_def)

lemma loopOk_lower:
  assumes "loopOk G k s seen t new" "k \<notin> visited s" "y \<in> set (tjStack t)" "num t y = n" "reach k y"
  shows "loopOk G k s seen (lowerTo k n t) new"
proof -
  have "\<exists>y \<in> set (tjStack t). num t y = min n (tjLow t k) \<and> reach k y"
    using assms by (cases "n < tjLow t k") (auto simp: loopOk_def min_def)
  with assms(1,2) show ?thesis by (auto simp: loopOk_def later_lowerTo min.coboundedI2)
qed

lemma loopOk_visit:
  assumes ok: "loopOk G k s seen t new" and k: "visitable G k s" and arc: "f \<in> set (successors k)"
    and fresh: "f \<notin> visited t" and post: "visitedOk (insert k G) f t u"
  shows "\<exists>new'. loopOk G k s (insert f seen) (lowerTo k (tjLow u f) u) new'"
proof -
  note l = ok[unfolded loopOk_def]
  have ks: "k \<notin> visited s" "set (tjStack s) \<subseteq> visited s" using k by (auto simp: visitable_def tarjanOk_def stackOk_def)
  obtain new' where p: "tarjanOk (insert k G) u" "f \<in> visited u" and lt: "later t u new'"
    and arcs': "\<And>v z. v \<in> set new' \<Longrightarrow> z \<in> set (successors v) \<Longrightarrow> z \<in> set (tjStack t) \<Longrightarrow> tjLow u f \<le> num t z"
    and lowf: "if f \<in> set new' then tjLow u f \<le> num u f \<and> (\<exists>y \<in> set (tjStack t). num t y = tjLow u f \<and> reach f y)
                else new' = [] \<and> tjIndex t \<le> tjLow u f"
    using post unfolding visitedOk_def by blast
  have st: "later s t (new @ [k])" using l by blast
  have kt: "k \<in> visited t" "visited s \<subseteq> visited t" and stk: "set (tjStack t) \<subseteq> visited t"
    and stack: "tjStack t = new @ k # tjStack s" and stack': "tjStack u = new' @ tjStack t"
    and apart: "set new' \<inter> visited t = {}"
    using l st lt by (auto simp: later_def tarjanOk_def stackOk_def)
  have low: "tjLow u k = tjLow t k" using lt kt by (auto simp: later_def)
  have num: "v \<in> visited t \<Longrightarrow> num u v = num t v" for v using num_later[OF lt] .
  have nums: "v \<in> set (tjStack s) \<Longrightarrow> num t v = num s v" for v using num_later[OF st] ks by auto
  have "\<exists>y \<in> set (tjStack u). num u y = min (tjLow u f) (tjLow t k) \<and> reach k y"
  proof (cases "tjLow u f < tjLow t k")
    case True
    moreover have "num t k < tjIndex t" "tjLow t k \<le> num t k"
      using l kt by (auto simp: tarjanOk_def stackOk_def)
    ultimately obtain y where y: "y \<in> set (tjStack t)" "num t y = tjLow u f" "reach f y"
      using lowf by (auto split: if_splits)
    moreover have "reach k y"
      using arc y(3) by (auto simp: arcs_def intro: converse_rtrancl_into_rtrancl)
    ultimately show ?thesis using True stk num by (intro bexI[of _ y]) (auto simp: stack')
  next
    case False
    with l obtain y where "y \<in> set (tjStack t)" "num t y = tjLow t k" "reach k y" by blast
    with False stk num show ?thesis by (intro bexI[of _ y]) (auto simp: stack')
  qed
  moreover have "min (tjLow u f) (tjLow t k) \<le> num s z"
    if "v \<in> set (new' @ new)" "z \<in> set (successors v)" "z \<in> set (tjStack s)" for v z
    using that l arcs'[of v z] nums[of z] by (auto simp: stack min.coboundedI1 min.coboundedI2)
  moreover have "min (tjLow u f) (tjLow t k) \<le> num u z"
    if "z \<in> insert f seen" "z \<in> set (tjStack u)" for z
  proof (cases "z \<in> set new'")
    case True
    then have "z = f" using that(1) apart l by auto
    with True lowf show ?thesis by (simp add: min.coboundedI1)
  next
    case False
    with that(2) have z: "z \<in> set (tjStack t)" by (simp add: stack')
    with stk fresh that(1) have "z \<in> seen" by auto
    with z l have "tjLow t k \<le> num t z" by blast
    with z num[of z] stk show ?thesis by (auto simp: min.coboundedI2)
  qed
  moreover have "later s u ((new' @ new) @ [k])" using later_trans[OF st lt] by simp
  ultimately have "loopOk G k s (insert f seen) (lowerTo k (tjLow u f) u) (new' @ new)"
    using p l low num[OF kt(1)] ks lt by (auto simp: loopOk_def later_lowerTo later_def)
  then show ?thesis ..
qed

lemma loopOk_followers:
  assumes k: "visitable G k s"
    and visit: "\<And>f t. visitable (insert k G) f t \<Longrightarrow> insert k (visited s) \<subseteq> visited t \<Longrightarrow>
                  visitedOk (insert k G) f t (visit f t)"
  shows "loopOk G k s seen t new \<Longrightarrow> set fs \<subseteq> set (successors k) \<Longrightarrow>
    \<exists>new'. loopOk G k s (seen \<union> set fs) (followers visit k fs t) new'"
proof (induction fs arbitrary: seen t new)
  case (Cons f fs)
  define u where "u = (case tjIndices t f of
      None \<Rightarrow> (let s1 = visit f t in lowerTo k (tjLow s1 f) s1)
    | Some i \<Rightarrow> if tjOnStack t f then lowerTo k i t else t)"
  have arc: "f \<in> set (successors k)" using Cons.prems by simp
  then have kf: "reach k f" by (auto simp: arcs_def)
  have ks: "k \<notin> visited s" using k by (simp add: visitable_def)
  note l = Cons.prems(1)[unfolded loopOk_def]
  have ons: "tjOnStack t f \<longleftrightarrow> f \<in> set (tjStack t)" using l by (simp add: tarjanOk_def stackOk_def)
  have "\<exists>new'. loopOk G k s (insert f seen) u new'"
  proof (cases "tjIndices t f")
    case None
    then have fresh: "f \<notin> visited t" by (auto simp: visited_def)
    have sub: "insert k (visited s) \<subseteq> visited t" using l by (auto simp: later_def tarjanOk_def stackOk_def)
    have "\<forall>g \<in> insert k G. reach g f"
      using k kf by (auto simp: visitable_def intro: rtrancl_trans)
    then have "visitable (insert k G) f t"
      using l arc fresh closed by (auto simp: visitable_def)
    from loopOk_visit[OF Cons.prems(1) k arc fresh visit[OF this sub]] None show ?thesis
      by (simp add: u_def Let_def)
  next
    case (Some i)
    then have f: "f \<in> visited t" "num t f = i" by (auto simp: visited_def num_def)
    show ?thesis
    proof (cases "tjOnStack t f")
      case True
      then have "loopOk G k s seen u new"
        using loopOk_lower[OF Cons.prems(1) ks _ f(2) kf] ons Some by (simp add: u_def)
      from loopOk_seen[OF this, of f] show ?thesis using True Some f by (auto simp: u_def)
    next
      case False
      with loopOk_seen[OF Cons.prems(1) f(1)] ons Some show ?thesis by (auto simp: u_def)
    qed
  qed
  then obtain new' where "loopOk G k s (insert f seen) u new'" ..
  from Cons.IH[OF this] Cons.prems(2) show ?case by (simp add: u_def)
qed auto

subsection \<open>Leaving a node\<close>

lemma popTo_eq: "k \<notin> set new \<Longrightarrow> popTo k (new @ k # stack) = (new @ [k], stack)"
  by (induction new) auto

lemma arc_cycle: "reach k v \<Longrightarrow> reach v k \<Longrightarrow> v \<noteq> k \<Longrightarrow> (v, v) \<in> arcs\<^sup>+ \<and> (k, k) \<in> arcs\<^sup>+"
  by (metis rtrancl_eq_or_trancl rtrancl_trancl_trancl trancl_rtrancl_trancl)

text \<open>Nodes off the stack reach no node on it.\<close>

lemma off_stack_closed:
  assumes ok: "tarjanOk G t" and reach: "reach z w" and z: "z \<in> visited t - set (tjStack t)"
  shows "w \<in> visited t - set (tjStack t)"
  using reach z
proof (induction rule: rtrancl_induct)
  case (step v w)
  then have v: "v \<in> visited t" "v \<notin> set (tjStack t)" and arc: "w \<in> set (successors v)"
    by (auto simp: arcs_def)
  moreover have "v \<notin> G" using ok v by (auto simp: tarjanOk_def stackOk_def)
  ultimately show ?case using ok by (auto simp: tarjanOk_def closedOk_def)
qed

text \<open>What holds once the last follower has been seen.\<close>

lemma loop_facts:
  assumes "loopOk G k s (set (successors k)) t new" "visitable G k s"
  shows done_ok: "tarjanOk (insert k G) t" "tarjanOk G s" "later s t (new @ [k])"
    and done_stack: "tjStack t = new @ k # tjStack s" "distinct (tjStack t)" "k \<in> visited t"
      "set (tjStack s) \<subseteq> visited s"
    and done_num: "\<And>v. v \<in> visited s \<Longrightarrow> num t v = num s v"
      "\<And>v. v \<in> set (new @ [k]) \<Longrightarrow> tjIndex s \<le> num t v"
      "\<And>v. v \<in> set (tjStack s) \<Longrightarrow> num s v < tjIndex s"
    and done_low: "\<And>v z. v \<in> set (new @ [k]) \<Longrightarrow> z \<in> set (successors v) \<Longrightarrow> z \<in> set (tjStack s) \<Longrightarrow> tjLow t k \<le> num s z"
    and done_closed: "\<And>v. v \<in> visited t - G \<Longrightarrow> set (successors v) \<subseteq> visited t"
    and done_index: "tjIndices t k = Some (tjIndex s)" "tjLow t k \<le> tjIndex s"
proof -
  note l = assms(1)[unfolded loopOk_def]
  show okt: "tarjanOk (insert k G) t" and oks: "tarjanOk G s" and later: "later s t (new @ [k])"
    using l assms(2) by (auto simp: visitable_def)
  show stack: "tjStack t = new @ k # tjStack s" using later by (simp add: later_def)
  show "distinct (tjStack t)" using okt by (auto simp: tarjanOk_def intro: stack_distinct)
  show kt: "k \<in> visited t" using okt by (auto simp: tarjanOk_def stackOk_def)
  show stks: "set (tjStack s) \<subseteq> visited s" using oks by (simp add: tarjanOk_def stackOk_def)
  show num: "num t v = num s v" if "v \<in> visited s" for v using num_later[OF later that] .
  show "tjIndex s \<le> num t v" if "v \<in> set (new @ [k])" for v
  proof -
    have "v \<in> visited t - visited s"
      using that later okt by (auto simp: later_def tarjanOk_def stackOk_def)
    with later show ?thesis by (simp add: later_def)
  qed
  show "num s v < tjIndex s" if "v \<in> set (tjStack s)" for v
    using that oks stks by (auto simp: tarjanOk_def stackOk_def)
  show "tjLow t k \<le> num s z" if "v \<in> set (new @ [k])" "z \<in> set (successors v)" "z \<in> set (tjStack s)" for v z
  proof (cases "v = k")
    case True
    then have "z \<in> set (successors k) \<inter> set (tjStack t)" using that by (simp add: stack)
    with l have "tjLow t k \<le> num t z" by blast
    moreover have "num t z = num s z" using that stks by (intro num) auto
    ultimately show ?thesis by simp
  next
    case False
    with that l show ?thesis by auto
  qed
  show "set (successors v) \<subseteq> visited t" if "v \<in> visited t - G" for v
    using that okt l by (cases "v = k") (auto simp: tarjanOk_def closedOk_def)
  show "tjIndices t k = Some (tjIndex s)" using l kt by (auto simp: num_def visited_def)
  show "tjLow t k \<le> tjIndex s" using l by blast
qed

text \<open>A low link below the node's own number: the node stays on the stack, and whatever reached
  only it reaches an earlier node through the link.\<close>

lemma visitedOk_stay:
  assumes ok: "loopOk G k s (set (successors k)) t new" and k: "visitable G k s" and low: "tjLow t k \<noteq> tjIndex s"
  shows "visitedOk G k s t"
proof -
  note f = loop_facts[OF ok k]
  obtain y where y: "y \<in> set (tjStack t)" "num t y = tjLow t k" "reach k y"
    using ok by (auto simp: loopOk_def)
  with low f(13,14) f(9)[of y] have ys: "y \<in> set (tjStack s)" by (auto simp: f(4))
  then obtain g where g: "g \<in> G" "num s g \<le> num s y" "reach y g"
    using f(2) by (auto simp: tarjanOk_def reachOk_def)
  have gs: "g \<in> visited s" using f(2,7) g by (auto simp: tarjanOk_def stackOk_def)
  have ny: "num s y = tjLow t k" using y f(7,8) ys by auto
  have "\<exists>g \<in> G. num t g \<le> num t b \<and> reach b g" if b: "b \<in> set (tjStack t)" for b
  proof -
    obtain h where h: "h \<in> insert k G" "num t h \<le> num t b" "reach b h"
      using f(1) b unfolding tarjanOk_def reachOk_def by blast
    show ?thesis
    proof (cases "h = k")
      case True
      have "num t g \<le> num t b" using g h True ny f(8)[OF gs] f(9)[of k] f(14) by simp
      moreover have "reach b g" using h True y(3) g(3) by (meson rtrancl_trans)
      ultimately show ?thesis using g by blast
    qed (use h in auto)
  qed
  moreover have "\<forall>a \<in> set (tjStack t). \<forall>b \<in> set (tjStack t). num t a \<le> num t b \<longrightarrow> reach a b"
    using f(1) unfolding tarjanOk_def reachOk_def by (elim conjE) assumption
  ultimately have "reachOk G t" by (simp only: reachOk_def) blast
  moreover have "stackOk G t" "closedOk G t" "membersOk t"
    using f(1,12) by (auto simp: tarjanOk_def stackOk_def closedOk_def)
  ultimately have "tarjanOk G t" by (simp only: tarjanOk_def)
  moreover have "tjLow t k \<le> num t k" using f(9)[of k] f(14) by simp
  ultimately show ?thesis
    using f(3,6,11) ny ys y(3) by (auto simp: visitedOk_def intro!: exI[of _ "new @ [k]"])
qed

text \<open>A low link that is the node's own number: what lies above it on the stack is its component,
  which holds a cycle exactly when it has a second node.\<close>

lemma component_cycles:
  assumes ok: "loopOk G k s (set (successors k)) t new" and k: "visitable G k s" and v: "v \<in> set (new @ [k])"
    and some: "new \<noteq> []"
  shows "(v, v) \<in> arcs\<^sup>+"
proof -
  note f = loop_facts[OF ok k]
  have both: "(w, w) \<in> arcs\<^sup>+ \<and> (k, k) \<in> arcs\<^sup>+" if w: "w \<in> set new" for w
  proof (rule arc_cycle)
    have ws: "w \<in> set (tjStack t)" "k \<in> set (tjStack t)" using w by (simp_all add: f(4))
    then show "reach k w" using f(1,13) f(9)[of w] w by (auto simp: tarjanOk_def reachOk_def num_def)
    obtain g where "g \<in> insert k G" "reach w g" using f(1) ws unfolding tarjanOk_def reachOk_def by blast
    then show "reach w k" using k by (auto simp: visitable_def intro: rtrancl_trans)
    show "w \<noteq> k" using f(4,5) w by auto
  qed
  from v some both show ?thesis by (cases new) auto
qed

lemma single_acyclic:
  assumes ok: "loopOk G k s (set (successors k)) t []" and k: "visitable G k s" and low: "tjLow t k = tjIndex s"
  shows "(k, k) \<notin> arcs\<^sup>+"
proof
  note f = loop_facts[OF ok k]
  assume "(k, k) \<in> arcs\<^sup>+"
  then obtain z where z: "z \<in> set (successors k)" "reach z k" by (auto simp: arcs_def dest!: tranclD)
  show False
  proof (cases "z \<in> set (tjStack t)")
    case True
    moreover have "z \<noteq> k" using z closed by blast
    ultimately have "z \<in> set (tjStack s)" by (simp add: f(4))
    with f(10)[of z] f(11)[of k z] z low show False by simp
  next
    case False
    have "k \<notin> G" using k by (auto simp: visitable_def tarjanOk_def stackOk_def)
    with f(6,12) z have "z \<in> visited t" by blast
    with False off_stack_closed[OF f(1) z(2)] show False by (auto simp: f(4))
  qed
qed

lemma popped_closed:
  assumes ok: "loopOk G k s (set (successors k)) t new" and k: "visitable G k s" and low: "tjLow t k = tjIndex s"
    and v: "v \<in> visited t - set (tjStack s)" and w: "w \<in> set (successors v)"
  shows "w \<notin> set (tjStack s)"
proof
  note f = loop_facts[OF ok k]
  assume ws: "w \<in> set (tjStack s)"
  show False
  proof (cases "v \<in> set (tjStack t)")
    case True
    with v have "v \<in> set (new @ [k])" by (auto simp: f(4))
    from f(11)[OF this w ws] f(10)[OF ws] low show False by simp
  next
    case False
    with v w ws f(1,4) show False by (fastforce simp: tarjanOk_def closedOk_def)
  qed
qed

lemma visitedOk_pop:
  assumes ok: "loopOk G k s (set (successors k)) t new" and k: "visitable G k s" and low: "tjLow t k = tjIndex s"
  shows "visitedOk G k s (leaveNode k t)"
proof -
  note f = loop_facts[OF ok k]
  define u where "u = leaveNode k t"
  have pop: "popTo k (tjStack t) = (new @ [k], tjStack s)" using f(5) by (simp add: f(4) popTo_eq)
  have u: "visited u = visited t" "num u = num t" "tjIndices u = tjIndices t" "tjIndex u = tjIndex t" "tjLow u = tjLow t"
    "tjStack u = tjStack s" "\<And>v. tjOnStack u v \<longleftrightarrow> tjOnStack t v \<and> v \<notin> set (new @ [k])"
    "tjMembers u = (if new = [] then tjMembers t else tjMembers t @ new @ [k])"
    by (auto simp: u_def leaveNode_def f(13) low pop visited_def num_def fun_eq_iff)
  have nums: "v \<in> set (tjStack s) \<Longrightarrow> num t v = num s v" for v using f(7,8) by auto
  have "sorted_wrt (\<lambda>a b. num t b < num t a) (tjStack s)"
    using f(1) by (simp add: tarjanOk_def stackOk_def f(4) sorted_wrt_append)
  then have "stackOk G u" using f(1,2,4,5) by (auto simp: tarjanOk_def stackOk_def u nums)
  moreover have "closedOk G u" using f(12) popped_closed[OF ok k low] by (auto simp: closedOk_def u)
  moreover have "G \<subseteq> set (tjStack s)" using f(2) by (simp add: tarjanOk_def stackOk_def)
  then have "reachOk G u" using f(2) nums unfolding reachOk_def u tarjanOk_def by (metis subsetD)
  moreover have "membersOk u"
  proof -
    have split: "visited t - set (tjStack s) = (visited t - set (tjStack t)) \<union> set (new @ [k])"
      using f(1,4,5) by (auto simp: tarjanOk_def stackOk_def)
    have mt: "distinct (tjMembers t)" "set (tjMembers t) = {v \<in> visited t - set (tjStack t). (v, v) \<in> arcs\<^sup>+}"
      using f(1) by (auto simp: tarjanOk_def membersOk_def)
    then have "distinct (tjMembers u)" using f(5) by (auto simp: u f(4))
    moreover have "set (tjMembers u) = {v \<in> visited u - set (tjStack u). (v, v) \<in> arcs\<^sup>+}"
      using component_cycles[OF ok k] single_acyclic[OF _ k low] ok by (cases "new = []") (auto simp: u split mt)
    ultimately show ?thesis by (simp add: membersOk_def)
  qed
  ultimately have "tarjanOk G u" by (simp add: tarjanOk_def)
  moreover have "later s u []" using f(3) by (auto simp: later_def u)
  ultimately show ?thesis using f(6) low by (auto simp: visitedOk_def u u_def[symmetric] intro!: exI[of _ "[]"])
qed

lemma visitedOk_leave:
  assumes ok: "loopOk G k s (set (successors k)) t new" and k: "visitable G k s"
  shows "visitedOk G k s (leaveNode k t)"
proof (cases "tjLow t k = tjIndex s")
  case True
  then show ?thesis by (rule visitedOk_pop[OF ok k])
next
  case False
  then have "leaveNode k t = t" using loop_facts(13)[OF ok k] by (simp add: leaveNode_def)
  with visitedOk_stay[OF ok k False] show ?thesis by simp
qed

subsection \<open>The whole search\<close>

lemma unvisited_le:
  assumes "visited s \<subseteq> visited t" "k \<in> set nodes" "k \<notin> visited s" "k \<in> visited t"
    "card (set nodes - visited s) \<le> Suc n"
  shows "card (set nodes - visited t) \<le> n"
proof -
  have "set nodes - visited t \<subset> set nodes - visited s" using assms(1-4) by auto
  then have "card (set nodes - visited t) < card (set nodes - visited s)" by (intro psubset_card_mono) auto
  with assms(5) show ?thesis by simp
qed

lemma visitedOk_connect:
  "visitable G k s \<Longrightarrow> card (set nodes - visited s) \<le> n \<Longrightarrow> visitedOk G k s (connect n successors k s)"
proof (induction n arbitrary: G k s)
  case 0
  then show ?case by (auto simp: visitable_def)
next
  case (Suc n)
  have "visitedOk (insert k G) f t (connect n successors f t)"
    if "visitable (insert k G) f t" "insert k (visited s) \<subseteq> visited t" for f t
    using that Suc.prems by (intro Suc.IH unvisited_le[of s t k n]) (auto simp: visitable_def)
  then obtain new where
    "loopOk G k s ({} \<union> set (sort (successors k))) (followers (connect n successors) k (sort (successors k)) (enterNode k s)) new"
    using loopOk_followers[OF Suc.prems(1) _ loopOk_enter[OF Suc.prems(1)]] by (metis order_refl set_sort)
  then show ?case using visitedOk_leave[OF _ Suc.prems(1)] by simp
qed

lemma connectAll_ok:
  assumes "tarjanOk {} s" "length nodes \<le> n" "set ks \<subseteq> set nodes"
  shows "tarjanOk {} (connectAll n successors ks s) \<and>
         visited s \<union> set ks \<subseteq> visited (connectAll n successors ks s)"
  using assms(1,3)
proof (induction ks arbitrary: s)
  case (Cons k ks)
  define t where "t = (if tjIndices s k = None then connect n successors k s else s)"
  have "card (set nodes - visited s) \<le> n"
    using assms(2) card_length[of nodes] card_mono[of "set nodes" "set nodes - visited s"] by fastforce
  then have "visitedOk {} k s t" if "tjIndices s k = None"
    using that Cons.prems by (auto simp: t_def visitable_def visited_def intro!: visitedOk_connect)
  then have t: "tarjanOk {} t" "visited s \<subseteq> visited t" "k \<in> visited t"
    using Cons.prems by (cases "tjIndices s k"; auto simp: t_def visitedOk_def later_def visited_def)+
  with Cons.IH[of t] Cons.prems show ?case by (auto simp: t_def[symmetric])
qed simp

lemma tarjanOk_new: "tarjanOk {} newTarjan"
  by (simp add: tarjanOk_def stackOk_def closedOk_def reachOk_def membersOk_def newTarjan_def visited_def)

lemma cycle_members:
  "tjMembers (connectAll (length nodes) successors (sort nodes) newTarjan) = ms \<Longrightarrow>
   distinct ms \<and> set ms = {v. (v, v) \<in> arcs\<^sup>+}"
proof -
  define t where "t = connectAll (length nodes) successors (sort nodes) newTarjan"
  assume ms: "tjMembers t = ms"
  have t: "tarjanOk {} t" "set nodes \<subseteq> visited t"
    using connectAll_ok[OF tarjanOk_new order_refl, of "sort nodes"] by (auto simp: t_def)
  then have v: "visited t = set nodes" "tjStack t = []"
    by (auto simp: tarjanOk_def stackOk_def reachOk_def)
  have "v \<in> set nodes" if "(v, v) \<in> arcs\<^sup>+" for v
    using that by (meson arcs_closed tranclD)
  with t v ms show ?thesis by (auto simp: tarjanOk_def membersOk_def)
qed

end

subsection \<open>The order a document has\<close>

text \<open>The relation of the edges that are heeded, and the order it prescribes: each entry is the
  smallest of the nodes whose feeding nodes have all come before.\<close>

definition feedsTo :: "Document \<Rightarrow> (string \<times> string) set" where
  "feedsTo d = {(egFrom e, egTo e) | e. e \<in> set (gdEdges d) \<and> relates d e}"

definition available :: "Document \<Rightarrow> string list \<Rightarrow> string set" where
  "available d behind = {v. declares d v \<and> v \<notin> set behind \<and> (\<forall>u. (u, v) \<in> feedsTo d \<longrightarrow> u \<in> set behind)}"

definition smallestFirst :: "Document \<Rightarrow> string list \<Rightarrow> bool" where
  "smallestFirst d order \<longleftrightarrow>
     (\<forall>i < length order. order ! i \<in> available d (take i order) \<and> (\<forall>v \<in> available d (take i order). order ! i \<le> v))"

interpretation gd: feeds "map fst (gdNodes d)" "successorsOf d" "predecessorsOf d" for d
  by unfold_locales (auto simp: successorsOf_def predecessorsOf_def relates_def declares_def)

lemma gd_arcs: "gd.arcs d = feedsTo d"
  by (auto simp: gd.arcs_def feedsTo_def successorsOf_def relates_def)

lemma set_predecessorsOf: "set (predecessorsOf d v) = {u. (u, v) \<in> feedsTo d}"
  by (auto simp: predecessorsOf_def feedsTo_def)

lemma gd_ready: "gd.ready d (set behind) v \<longleftrightarrow> v \<in> available d behind"
  by (auto simp: gd.ready_def available_def declares_def set_predecessorsOf)

lemma gd_greedy: "gd.greedy d order \<longleftrightarrow> smallestFirst d order"
  by (auto simp: gd.greedy_def smallestFirst_def gd_ready)

lemma Order_parts:
  assumes iter: "\<And>xs :: string list. mset (iter xs) = mset xs" and dist: "distinct (map fst (gdNodes d))"
    and order: "Order iter d = (order, cycle)"
  shows "smallestFirst d order" "available d order = {}" "acyclic (feedsTo d) \<longleftrightarrow> length order = length (gdNodes d)"
    "cycle = sorted_list_of_set {v. (v, v) \<in> (feedsTo d)\<^sup>+}"
proof -
  define a where "a = filter (\<lambda>k. predecessorsOf d k = []) (iter (map fst (gdNodes d)))"
  have "set (iter (map fst (gdNodes d))) = set (map fst (gdNodes d))" "distinct (iter (map fst (gdNodes d)))"
    using iter[of "map fst (gdNodes d)"] dist by (metis set_mset_mset, metis mset_eq_imp_distinct_iff)
  then have "gd.kahnInv d (predecessorsOf d) a []"
    by (auto simp: gd.kahnInv_def a_def gd.ready_def)
  moreover have o: "order = kahn (length (gdNodes d)) iter (successorsOf d) (predecessorsOf d) a []"
    using order by (auto simp: Order_def Let_def a_def split: if_splits)
  ultimately have g: "gd.greedy d order" and stuck: "\<And>v. \<not> gd.ready d (set order) v"
    using gd.kahn_greedy[OF _ _ iter] by force+
  then show "smallestFirst d order" "available d order = {}" by (auto simp: gd_greedy gd_ready)
  have "length order = length (gdNodes d) \<longleftrightarrow> set order = set (map fst (gdNodes d))"
    using gd.greedy_distinct[OF g] gd.greedy_nodes[OF g] dist
    by (metis card_subset_eq distinct_card finite_set length_map)
  with gd.acyclic_iff_complete[OF g stuck] show ac: "acyclic (feedsTo d) \<longleftrightarrow> length order = length (gdNodes d)"
    by (simp add: gd_arcs)
  show "cycle = sorted_list_of_set {v. (v, v) \<in> (feedsTo d)\<^sup>+}"
  proof (cases "length order = length (gdNodes d)")
    case True
    with order o ac show ?thesis by (auto simp: Order_def Let_def a_def acyclic_def split: if_splits)
  next
    case False
    with order o have "cycle = cycleMembers (gdNodes d) (successorsOf d)"
      by (auto simp: Order_def Let_def a_def split: if_splits)
    with gd.cycle_members[OF refl, of d] show ?thesis
      by (simp add: cycleMembers_def gd_arcs sorted_list_of_set_sort_remdups[symmetric] distinct_remdups_id)
        (metis distinct_remdups_id sorted_list_of_set_sort_remdups)
  qed
qed

text \<open>C10: The order of a graph is exact, whatever order the keys of its maps come in: each entry is
  the smallest node whose feeding nodes have come before, every node is in it exactly when the edges
  form no cycle, and the nodes reported beside it are, sorted, exactly those on a cycle.\<close>

theorem Order_exact:
  assumes "\<And>xs :: string list. mset (iter xs) = mset xs" "distinct (map fst (gdNodes d))"
  shows "smallestFirst d (fst (Order iter d)) \<and>
    (set (fst (Order iter d)) = {v. declares d v} \<longleftrightarrow> acyclic (feedsTo d)) \<and>
    snd (Order iter d) = sorted_list_of_set {v. (v, v) \<in> (feedsTo d)\<^sup>+}"
proof -
  note p = Order_parts[OF assms prod.collapse[symmetric]]
  have g: "gd.greedy d (fst (Order iter d))" using p(1) by (simp add: gd_greedy)
  have "{v. declares d v} = set (map fst (gdNodes d))" by (auto simp: declares_def)
  moreover have "\<not> gd.ready d (set (fst (Order iter d))) v" for v using p(2) by (simp add: gd_ready)
  from gd.acyclic_iff_complete[OF g this]
  have "acyclic (feedsTo d) \<longleftrightarrow> set (fst (Order iter d)) = set (map fst (gdNodes d))" by (simp add: gd_arcs)
  ultimately show ?thesis using p by auto
qed

text \<open>A graph whose middle nodes feed each other, and one without a cycle.\<close>

definition sampleEdge :: "string \<Rightarrow> string \<Rightarrow> Edge" where
  "sampleEdge f t = \<lparr>egFrom = f, egTo = t, egFact = ''/'' @ f, egEvidence = None, egDescription = []\<rparr>"

definition sampleGraph :: "Edge list \<Rightarrow> Document" where
  "sampleGraph es =
     \<lparr>gdFormatVersion = ''1'', gdID = ''g'', gdVersion = ''1.0.0'', gdDescription = [],
      gdNodes = map (\<lambda>k. (k, \<lparr>ndPack = k, ndDescription = []\<rparr>)) [''d'', ''c'', ''b'', ''a''],
      gdEdges = es, gdResult = ''d'', gdDigest = []\<rparr>"

theorem Order_exact_witness:
  "snd (Order rev (sampleGraph [sampleEdge ''a'' ''b'', sampleEdge ''b'' ''c'', sampleEdge ''c'' ''b''])) =
     sorted_list_of_set {v. (v, v) \<in> (feedsTo (sampleGraph [sampleEdge ''a'' ''b'', sampleEdge ''b'' ''c'', sampleEdge ''c'' ''b'']))\<^sup>+}
   \<and> Order rev (sampleGraph [sampleEdge ''a'' ''b'', sampleEdge ''b'' ''c'', sampleEdge ''c'' ''b'']) = ([''a'', ''d''], [''b'', ''c''])"
proof (intro conjI)
  show "snd (Order rev (sampleGraph [sampleEdge ''a'' ''b'', sampleEdge ''b'' ''c'', sampleEdge ''c'' ''b''])) =
     sorted_list_of_set {v. (v, v) \<in> (feedsTo (sampleGraph [sampleEdge ''a'' ''b'', sampleEdge ''b'' ''c'', sampleEdge ''c'' ''b'']))\<^sup>+}"
    using Order_exact[of rev "sampleGraph [sampleEdge ''a'' ''b'', sampleEdge ''b'' ''c'', sampleEdge ''c'' ''b'']"]
    by (simp add: sampleGraph_def)
qed code_simp

text \<open>The order does not depend on the order in which the keys of a map come, so one document
  has one order and one report of cycles.\<close>

theorem Order_deterministic:
  assumes "\<And>xs :: string list. mset (iter xs) = mset xs"
  shows "Order iter d = Order (\<lambda>xs. xs) d"
proof -
  have "mset (filter P (iter xs)) = mset (filter P xs)" for P and xs :: "string list"
    by (simp add: assms)
  from gd.kahn_iter[of iter, OF assms this] show ?thesis by (simp add: Order_def Let_def)
qed

theorem Order_deterministic_witness:
  "Order rev (sampleGraph [sampleEdge ''c'' ''a'']) = Order (\<lambda>xs. xs) (sampleGraph [sampleEdge ''c'' ''a''])
   \<and> Order rev (sampleGraph [sampleEdge ''c'' ''a'']) = ([''b'', ''c'', ''a'', ''d''], [])"
  using Order_deterministic[of rev "sampleGraph [sampleEdge ''c'' ''a'']"]
  by (intro conjI) (simp, code_simp)

end
