(* ===== verification/Graph_Checks.thy ===== *)
theory Graph_Checks
  imports Graph_Cycles "HOL-Library.Sublist"
begin

section \<open>Judgment graphs: what the structural checks establish\<close>

text \<open>
  \<open>Structural\<close> of \<open>internal/graph/document.go\<close> reports nothing exactly for a graph that keeps every
  rule: what its edges and its result name is declared, its packs are the project's, no two edges
  write into one another or feed one requirement, and the edges form no cycle.
\<close>

subsection \<open>The rules\<close>

definition feedsFact :: "Document \<Rightarrow> string \<Rightarrow> Edge \<Rightarrow> bool" where
  "feedsFact d k e \<longleftrightarrow> egFact e \<noteq> [] \<and> declares d (egTo e) \<and> egTo e = k"

definition feedsRequirement :: "Document \<Rightarrow> string \<Rightarrow> Edge \<Rightarrow> string \<Rightarrow> bool" where
  "feedsRequirement d k e name \<longleftrightarrow>
     declares d (egTo e) \<and> egTo e = k \<and> (case egEvidence e of None \<Rightarrow> False | Some f \<Rightarrow> efID f = name)"

definition entangled :: "string list \<Rightarrow> string list \<Rightarrow> bool" where
  "entangled a b \<longleftrightarrow> prefix a b \<or> prefix b a"

text \<open>An edge after the edges before it.\<close>

definition soundEdge :: "Document \<Rightarrow> Edge list \<Rightarrow> Edge \<Rightarrow> bool" where
  "soundEdge d before e \<longleftrightarrow>
     declares d (egFrom e) \<and> declares d (egTo e) \<and> egFrom e \<noteq> egTo e \<and>
     (egFact e \<noteq> [] \<longrightarrow>
        length (pointerTokens (egFact e)) \<le> MaxFactPointerDepth \<and>
        (\<forall>b \<in> set before. feedsFact d (egTo e) b \<longrightarrow> \<not> entangled (pointerTokens (egFact b)) (pointerTokens (egFact e)))) \<and>
     (\<forall>f. egEvidence e = Some f \<longrightarrow> (\<forall>b \<in> set before. \<not> feedsRequirement d (egTo e) b (efID f)))"

definition soundGraph :: "Project \<Rightarrow> Document \<Rightarrow> bool" where
  "soundGraph loaded d \<longleftrightarrow>
     (\<forall>(k, node) \<in> set (gdNodes d). Entry loaded (ndPack node) \<noteq> None) \<and>
     (\<forall>i < length (gdEdges d). soundEdge d (take i (gdEdges d)) (gdEdges d ! i)) \<and>
     declares d (gdResult d) \<and> acyclic (feedsTo d)"

lemma prefix_take: "list_all2 (\<lambda>x y. x = y) x (take (length x) y) \<longleftrightarrow> prefix x y"
  by (metis append_eq_conv_conj list.rel_eq prefix_def take_is_prefix)

lemma pathsOverlap_iff: "pathsOverlap a b \<longleftrightarrow> entangled a b"
proof (cases "length b < length a")
  case True
  then show ?thesis using prefix_length_le[of a b] by (auto simp: pathsOverlap_def entangled_def prefix_take)
next
  case False
  then have "prefix b a \<Longrightarrow> prefix a b" by (auto simp: prefix_def)
  with False show ?thesis by (auto simp: pathsOverlap_def entangled_def prefix_take)
qed

subsection \<open>What the loop over the edges remembers\<close>

text \<open>After the edges \<open>before\<close> the state holds exactly what they feed.\<close>

definition remembers :: "Document \<Rightarrow> Edge list \<Rightarrow> fedTargets \<Rightarrow> bool" where
  "remembers d before t \<longleftrightarrow>
     set (ftFacts t) = {targetKey k (egFact b) | k b. b \<in> set before \<and> feedsFact d k b} \<and>
     (\<forall>k. set (ftPaths t k) = {(egFact b, pointerTokens (egFact b)) | b. b \<in> set before \<and> feedsFact d k b}) \<and>
     set (ftEvidence t) = {targetKey k name | k name b. b \<in> set before \<and> feedsRequirement d k b name}"

lemma remembers_none: "remembers d [] noTargets"
  by (simp add: remembers_def noTargets_def)

lemma remembers_edge:
  assumes "remembers d before t"
  shows "remembers d (before @ [e]) (snd (edgeDiagnostics d i e t))"
proof -
  define t1 where "t1 = (if egFact e \<noteq> [] \<and> declares d (egTo e) then feedFact e t else t)"
  have t1: "set (ftFacts t1) = {targetKey k (egFact b) | k b. b \<in> set (before @ [e]) \<and> feedsFact d k b}"
    "\<And>k. set (ftPaths t1 k) = {(egFact b, pointerTokens (egFact b)) | b. b \<in> set (before @ [e]) \<and> feedsFact d k b}"
    "ftEvidence t1 = ftEvidence t"
    using assms by (auto simp: remembers_def t1_def feedFact_def feedsFact_def)
  have old: "set (ftEvidence t) = {targetKey k name | k name b. b \<in> set before \<and> feedsRequirement d k b name}"
    using assms by (simp add: remembers_def)
  have "snd (edgeDiagnostics d i e t) =
      (case egEvidence e of
         Some f \<Rightarrow> if declares d (egTo e) then t1\<lparr>ftEvidence := targetKey (egTo e) (efID f) # ftEvidence t1\<rparr> else t1
       | None \<Rightarrow> t1)"
    by (auto simp: edgeDiagnostics_def t1_def Let_def split: option.split)
  moreover have "{targetKey k name | k name b. b \<in> set (before @ [e]) \<and> feedsRequirement d k b name} =
      set (ftEvidence t) \<union> {targetKey k name | k name. feedsRequirement d k e name}"
    by (auto simp: old)
  moreover have "{targetKey k name | k name. feedsRequirement d k e name} =
      (case egEvidence e of None \<Rightarrow> {} | Some f \<Rightarrow> if declares d (egTo e) then {targetKey (egTo e) (efID f)} else {})"
    by (auto simp: feedsRequirement_def split: option.split)
  ultimately show ?thesis using t1 by (auto simp: remembers_def split: option.split)
qed

text \<open>Node ids hold no NUL, so the key of a target names it.\<close>

definition plainIds :: "Document \<Rightarrow> bool" where
  "plainIds d \<longleftrightarrow> (\<forall>k. declares d k \<longrightarrow> CHR 0x00 \<notin> set k)"

lemma targetKey_inject:
  assumes "CHR 0x00 \<notin> set k" "CHR 0x00 \<notin> set k'" "targetKey k a = targetKey k' a'"
  shows "k = k' \<and> a = a'"
proof -
  have "takeWhile (\<lambda>c. c \<noteq> CHR 0x00) (targetKey k a) = k" "takeWhile (\<lambda>c. c \<noteq> CHR 0x00) (targetKey k' a') = k'"
    using assms(1,2) by (simp_all add: targetKey_def takeWhile_tail) (metis append_Nil2 takeWhile_append2 takeWhile.simps(2))+
  with assms(3) show ?thesis by (simp add: targetKey_def)
qed

lemma edgeDiagnostics_none:
  assumes "remembers d before t" "plainIds d"
  shows "fst (edgeDiagnostics d i e t) = [] \<longleftrightarrow> soundEdge d before e"
proof (cases "declares d (egTo e)")
  case True
  have key: "targetKey (egTo e) a = targetKey k a' \<longleftrightarrow> egTo e = k \<and> a = a'" if "declares d k" for k a a'
    using assms(2) True that targetKey_inject[of "egTo e" k a a'] by (auto simp: plainIds_def)
  have facts: "targetKey (egTo e) (egFact e) \<in> set (ftFacts t) \<longleftrightarrow>
      (\<exists>b \<in> set before. feedsFact d (egTo e) b \<and> egFact b = egFact e)"
  proof -
    have "targetKey (egTo e) (egFact e) \<in> set (ftFacts t) \<longleftrightarrow>
        (\<exists>k b. targetKey (egTo e) (egFact e) = targetKey k (egFact b) \<and> b \<in> set before \<and> feedsFact d k b)"
      using assms(1) by (simp add: remembers_def)
    also have "\<dots> \<longleftrightarrow> (\<exists>k b. egTo e = k \<and> egFact e = egFact b \<and> b \<in> set before \<and> feedsFact d k b)"
      using key by (metis feedsFact_def)
    finally show ?thesis by auto
  qed
  have evid: "targetKey (egTo e) name \<in> set (ftEvidence u) \<longleftrightarrow> (\<exists>b \<in> set before. feedsRequirement d (egTo e) b name)"
    if "ftEvidence u = ftEvidence t" for u name
  proof -
    have "targetKey (egTo e) name \<in> set (ftEvidence u) \<longleftrightarrow>
        (\<exists>k n b. targetKey (egTo e) name = targetKey k n \<and> b \<in> set before \<and> feedsRequirement d k b n)"
      using assms(1) that by (simp add: remembers_def)
    also have "\<dots> \<longleftrightarrow> (\<exists>k n b. egTo e = k \<and> name = n \<and> b \<in> set before \<and> feedsRequirement d k b n)"
      using key by (metis feedsRequirement_def)
    finally show ?thesis by auto
  qed
  have paths: "list_ex (\<lambda>(raw, earlier). raw \<noteq> egFact e \<and> pathsOverlap earlier (pointerTokens (egFact e))) (ftPaths t (egTo e)) \<longleftrightarrow>
      (\<exists>b \<in> set before. feedsFact d (egTo e) b \<and> egFact b \<noteq> egFact e \<and>
         entangled (pointerTokens (egFact b)) (pointerTokens (egFact e)))"
    using assms(1) by (auto simp: remembers_def list_ex_iff pathsOverlap_iff) 
  have same: "entangled a a" for a by (simp add: entangled_def)
  have fe: "ftEvidence (feedFact e t) = ftEvidence t" by (simp add: feedFact_def)
  have "factDiagnostics i e t = [] \<longleftrightarrow> length (pointerTokens (egFact e)) \<le> MaxFactPointerDepth \<and>
      (\<forall>b \<in> set before. feedsFact d (egTo e) b \<longrightarrow> \<not> entangled (pointerTokens (egFact b)) (pointerTokens (egFact e)))"
    unfolding factDiagnostics_def Let_def facts paths using same by (auto simp: not_less)
  with True show ?thesis
    by (auto simp: edgeDiagnostics_def endpointDiagnostics_def soundEdge_def Let_def evidenceDiagnostics_def evid fe
        split: option.split)
qed (auto simp: edgeDiagnostics_def endpointDiagnostics_def soundEdge_def Let_def split: prod.split)

lemma edgesDiagnostics_none:
  assumes "plainIds d"
  shows "remembers d before t \<Longrightarrow>
    edgesDiagnostics d i es t = [] \<longleftrightarrow> (\<forall>j < length es. soundEdge d (before @ take j es) (es ! j))"
proof (induction es arbitrary: i before t)
  case (Cons e es)
  have "edgesDiagnostics d i (e # es) t = [] \<longleftrightarrow>
      fst (edgeDiagnostics d i e t) = [] \<and> edgesDiagnostics d (i + 1) es (snd (edgeDiagnostics d i e t)) = []"
    by (simp add: case_prod_unfold Let_def)
  also have "\<dots> \<longleftrightarrow> soundEdge d before e \<and> (\<forall>j < length es. soundEdge d (before @ [e] @ take j es) (es ! j))"
    using Cons.IH[OF remembers_edge[OF Cons.prems], of "i + 1"] edgeDiagnostics_none[OF Cons.prems assms] by simp
  also have "\<dots> \<longleftrightarrow> (\<forall>j < length (e # es). soundEdge d (before @ take j (e # es)) ((e # es) ! j))"
    by (simp only: All_less_Suc2 length_Cons) simp
  finally show ?case .
qed simp

lemma Structural_iff:
  assumes "\<And>xs :: string list. mset (iter xs) = mset xs" "distinct (map fst (gdNodes d))" "plainIds d"
  shows "Structural iter loaded d = [] \<longleftrightarrow> soundGraph loaded d"
proof -
  have nodes: "concat (map (nodeDiagnostics loaded d) (sort (map fst (gdNodes d)))) = [] \<longleftrightarrow>
      (\<forall>(k, node) \<in> set (gdNodes d). Entry loaded (ndPack node) \<noteq> None)"
  proof -
    have "nodeDiagnostics loaded d k = [] \<longleftrightarrow> Entry loaded (ndPack node) \<noteq> None" if "(k, node) \<in> set (gdNodes d)" for k node
      using map_of_is_SomeI[OF assms(2) that] by (simp add: nodeDiagnostics_def)
    then show ?thesis by auto
  qed
  have "length (snd (Order iter d)) > 0 \<longleftrightarrow> \<not> acyclic (feedsTo d)"
  proof -
    have "finite (fst ` (feedsTo d)\<^sup>+)" using gd.finite_arcs[of d] by (simp add: gd_arcs)
    then have "finite {v. (v, v) \<in> (feedsTo d)\<^sup>+}" by (rule rev_finite_subset) force
    then show ?thesis using Order_parts(4)[OF assms(1,2) prod.collapse[symmetric]] by (auto simp: acyclic_def card_gt_0_iff)
  qed
  then have cycle: "(if length (snd (Order iter d)) > 0 then [graphDiagnostic ''JPS-GRAPH-CYCLE'' ''/edges'' (snd (Order iter d))]
      else []) = [] \<longleftrightarrow> acyclic (feedsTo d)" by simp
  have "edgesDiagnostics d 0 (gdEdges d) noTargets = [] \<longleftrightarrow>
      (\<forall>j < length (gdEdges d). soundEdge d (take j (gdEdges d)) (gdEdges d ! j))"
    using edgesDiagnostics_none[OF assms(3) remembers_none, of 0 "gdEdges d"] by simp
  moreover have "(if declares d (gdResult d) then [] else [graphDiagnostic ''JPS-GRAPH-RESULT-NODE'' ''/result'' [gdResult d]]) = []
      \<longleftrightarrow> declares d (gdResult d)" by simp
  ultimately show ?thesis
    unfolding Structural_def soundGraph_def Let_def case_prod_unfold append_is_Nil_conv cycle nodes by argo
qed

text \<open>C11: The structural checks report nothing exactly for a graph that keeps every rule of its own:
  the packs of its nodes are declared by the project, every edge joins two different declared nodes,
  feeds a pointer within the depth limit that no earlier edge of the same node overlaps and a
  requirement no earlier edge feeds, the result is a declared node and the edges form no cycle.\<close>

theorem Structural_exact:
  assumes "\<And>xs :: string list. mset (iter xs) = mset xs" "distinct (map fst (gdNodes d))" "plainIds d"
  shows "Structural iter loaded d = [] \<longleftrightarrow> soundGraph loaded d"
  by (rule Structural_iff[OF assms])

definition sampleProject :: Project where
  "sampleProject =
     \<lparr>pjConfigPath = ''jpack.json'', pjConfigDigest = [], pjIDs = [''a'', ''b'', ''c'', ''d''],
      pjPacks = map (\<lambda>k. (k, \<lparr>peID = k, pePath = k\<rparr>)) [''a'', ''b'', ''c'', ''d''],
      pjReadPack = (\<lambda>n entry. ReadError)\<rparr>"

theorem Structural_exact_witness:
  "soundGraph sampleProject (sampleGraph [sampleEdge ''c'' ''d'', sampleEdge ''a'' ''d''])
   \<and> \<not> soundGraph sampleProject (sampleGraph [sampleEdge ''c'' ''d'', sampleEdge ''c'' ''d''])"
proof -
  have "distinct (map fst (gdNodes (sampleGraph es))) \<and> plainIds (sampleGraph es)" for es
    by (auto simp: sampleGraph_def plainIds_def declares_def)
  moreover have "Structural rev sampleProject (sampleGraph [sampleEdge ''c'' ''d'', sampleEdge ''a'' ''d'']) = []"
    "Structural rev sampleProject (sampleGraph [sampleEdge ''c'' ''d'', sampleEdge ''c'' ''d'']) \<noteq> []"
    by code_simp+
  ultimately show ?thesis using Structural_exact[of rev _ sampleProject] by (metis mset_rev)
qed

subsection \<open>The checks that read packs\<close>

text \<open>A feed is grounded when the pack of its target, as it is read, declares the requirement. The files
  are taken to stay as they are while the checks run.\<close>

definition stableReads :: "Project \<Rightarrow> (PackEntry \<Rightarrow> ReadResult) \<Rightarrow> bool" where
  "stableReads loaded read \<longleftrightarrow> (\<forall>n entry. pjReadPack loaded n entry = read entry)"

definition nodeRequirements :: "('h) graphHost_scheme \<Rightarrow> Project \<Rightarrow> (PackEntry \<Rightarrow> ReadResult) \<Rightarrow> Document \<Rightarrow> string
    \<Rightarrow> string list option" where
  "nodeRequirements H loaded read d k =
     Option.bind (Option.bind (map_of (gdNodes d) k) (\<lambda>node. Entry loaded (ndPack node)))
       (\<lambda>entry. declaredEvidenceIDs H (read entry))"

definition groundedFeed :: "('h) graphHost_scheme \<Rightarrow> Project \<Rightarrow> (PackEntry \<Rightarrow> ReadResult) \<Rightarrow> Document \<Rightarrow> Edge \<Rightarrow> bool" where
  "groundedFeed H loaded read d e =
     (case egEvidence e of
        None \<Rightarrow> True
      | Some f \<Rightarrow> (case nodeRequirements H loaded read d (egTo e) of None \<Rightarrow> False | Some ids \<Rightarrow> efID f \<in> set ids))"

lemma readRequirements_exact:
  assumes "stableReads loaded read" "\<And>k. k \<in> set ks \<Longrightarrow> \<exists>node entry. map_of (gdNodes d) k = Some node \<and> Entry loaded (ndPack node) = Some entry"
  shows "(fst (readRequirements H loaded d n ks) = [] \<longleftrightarrow>
      (\<forall>k \<in> set ks. nodeReceivesEvidence (gdEdges d) k \<longrightarrow> nodeRequirements H loaded read d k \<noteq> None)) \<and>
    (\<forall>k. snd (readRequirements H loaded d n ks) k =
      (if k \<in> set ks \<and> nodeReceivesEvidence (gdEdges d) k then nodeRequirements H loaded read d k else None))"
  using assms(2)
proof (induction ks arbitrary: n)
  case (Cons j ks)
  obtain node entry where j: "map_of (gdNodes d) j = Some node" "Entry loaded (ndPack node) = Some entry"
    using Cons.prems(1)[of j] by auto
  have r: "nodeRequirements H loaded read d j = declaredEvidenceIDs H (pjReadPack loaded m entry)" for m
    using assms(1) j by (simp add: nodeRequirements_def stableReads_def)
  note IH = Cons.IH[OF Cons.prems, OF list.set_intros(2)]
  show ?case
  proof (cases "nodeReceivesEvidence (gdEdges d) j")
    case False
    with IH[of n] j show ?thesis by auto
  next
    case True
    note IHn = IH[of "n + 1"]
    show ?thesis
    proof (cases "declaredEvidenceIDs H (pjReadPack loaded n entry)")
      case None
      with IHn j r[of n] True show ?thesis by (auto simp: case_prod_unfold Let_def)
    next
      case (Some ids)
      with IHn j r[of n] True show ?thesis by (auto simp: case_prod_unfold Let_def)
    qed
  qed
qed simp

lemma SemanticGraph_iff:
  assumes "\<And>xs :: string list. mset (iter xs) = mset xs" "distinct (map fst (gdNodes d))" "plainIds d" "stableReads loaded read"
  shows "SemanticGraph H iter loaded d = [] \<longleftrightarrow>
    soundGraph loaded d \<and> (\<forall>e \<in> set (gdEdges d). groundedFeed H loaded read d e)"
proof (cases "soundGraph loaded d")
  case True
  let ?ks = "sort (map fst (gdNodes d))" and ?m = "snd (readRequirements H loaded d 0 (sort (map fst (gdNodes d))))"
  have known: "\<exists>node entry. map_of (gdNodes d) k = Some node \<and> Entry loaded (ndPack node) = Some entry" if "k \<in> set ?ks" for k
  proof -
    from that obtain node where "(k, node) \<in> set (gdNodes d)" by auto
    with True assms(2) show ?thesis by (auto simp: soundGraph_def)
  qed
  have reads: "fst (readRequirements H loaded d 0 ?ks) = [] \<longleftrightarrow>
      (\<forall>k \<in> set ?ks. nodeReceivesEvidence (gdEdges d) k \<longrightarrow> nodeRequirements H loaded read d k \<noteq> None)"
    "?m k = (if k \<in> set ?ks \<and> nodeReceivesEvidence (gdEdges d) k then nodeRequirements H loaded read d k else None)" for k
    using readRequirements_exact[OF assms(4), of ?ks d H 0] known by blast+
  have to: "egTo e \<in> set ?ks \<and> (egEvidence e \<noteq> None \<longrightarrow> nodeReceivesEvidence (gdEdges d) (egTo e))" if e: "e \<in> set (gdEdges d)" for e
  proof -
    from e obtain i where "i < length (gdEdges d)" "e = gdEdges d ! i" by (auto simp: in_set_conv_nth)
    with True have "declares d (egTo e)" by (auto simp: soundGraph_def soundEdge_def)
    with e show ?thesis by (auto simp: declares_def nodeReceivesEvidence_def list_ex_iff)
  qed
  have edges: "undeclaredEvidence ?m i e = [] \<longleftrightarrow>
      (case egEvidence e of None \<Rightarrow> True
       | Some f \<Rightarrow> (case nodeRequirements H loaded read d (egTo e) of None \<Rightarrow> True | Some ids \<Rightarrow> efID f \<in> set ids))"
    if "e \<in> set (gdEdges d)" for i e
    using to[OF that] reads(2)[of "egTo e"] by (auto simp: undeclaredEvidence_def split: option.split)
  have all: "(\<forall>(i, e) \<in> set (List.enumerate 0 (gdEdges d)). undeclaredEvidence ?m i e = []) \<longleftrightarrow>
      (\<forall>e \<in> set (gdEdges d). undeclaredEvidence ?m 0 e = [])"
    (is "?L = ?R")
  proof -
    have "undeclaredEvidence ?m i e = [] \<longleftrightarrow> undeclaredEvidence ?m 0 e = []" for i e
      by (simp add: undeclaredEvidence_def split: option.split)
    then have "?L \<longleftrightarrow> (\<forall>p \<in> set (List.enumerate 0 (gdEdges d)). undeclaredEvidence ?m 0 (snd p) = [])"
      unfolding case_prod_unfold by blast
    also have "\<dots> \<longleftrightarrow> (\<forall>e \<in> snd ` set (List.enumerate 0 (gdEdges d)). undeclaredEvidence ?m 0 e = [])" by simp
    also have "snd ` set (List.enumerate 0 (gdEdges d)) = set (gdEdges d)"
      by (metis list.set_map map_snd_enumerate)
    finally show ?thesis .
  qed
  have fed: "nodeReceivesEvidence (gdEdges d) k \<longleftrightarrow> (\<exists>e \<in> set (gdEdges d). egTo e = k \<and> egEvidence e \<noteq> None)" for k
    by (auto simp: nodeReceivesEvidence_def list_ex_iff)
  have first: "fst (readRequirements H loaded d 0 ?ks) = [] \<longleftrightarrow>
      (\<forall>e \<in> set (gdEdges d). egEvidence e \<noteq> None \<longrightarrow> nodeRequirements H loaded read d (egTo e) \<noteq> None)"
    unfolding reads(1) fed using to by blast
  have "SemanticGraph H iter loaded d = [] \<longleftrightarrow>
      fst (readRequirements H loaded d 0 ?ks) = [] \<and> (\<forall>e \<in> set (gdEdges d). undeclaredEvidence ?m 0 e = [])"
    using Structural_iff[OF assms(1-3), of loaded] True all
    by (simp add: SemanticGraph_def case_prod_unfold Let_def)
  also have "\<dots> \<longleftrightarrow> (\<forall>e \<in> set (gdEdges d). groundedFeed H loaded read d e)"
    unfolding first using edges by (fastforce simp: groundedFeed_def split: option.splits)
  finally show ?thesis using True by simp
next
  case False
  then show ?thesis using Structural_iff[OF assms(1-3), of loaded] by (simp add: SemanticGraph_def case_prod_unfold Let_def)
qed

end
