(* ===== verification/Graph_Inputs.thy ===== *)
theory Graph_Inputs
  imports Graph_Checks
begin

section \<open>Judgment graphs: the inputs of the nodes\<close>

text \<open>
  The parts of \<open>internal/graph/evaluate.go\<close> that read a caller's inputs document and write the
  outcomes of earlier nodes into the facts of later ones. What \<open>callerCollision\<close> clears,
  \<open>injectFact\<close> writes; a written outcome is what its pointer resolves to, and a pointer that is not
  entangled with it resolves as before.
\<close>

definition MaxInputsBytes :: nat where
  "MaxInputsBytes = 16777216"

record nodeInputs =
  niFacts :: json
  niFactsSupplied :: bool
  niEvidence :: "object option"
  niEvidenceSupplied :: bool

definition noInputs :: nodeInputs where
  "noInputs = \<lparr>niFacts = JNull, niFactsSupplied = False, niEvidence = None, niEvidenceSupplied = False\<rparr>"

type_synonym inputs = "string \<Rightarrow> nodeInputs"

subsection \<open>Reading the inputs document\<close>

fun readMembers :: "object \<Rightarrow> string list \<Rightarrow> nodeInputs \<Rightarrow> Failure + nodeInputs" where
  "readMembers entry [] n = Inr n"
| "readMembers entry (member # rest) n =
     (if member = ''facts'' then
        readMembers entry rest (n\<lparr>niFacts := jget entry ''facts'', niFactsSupplied := True\<rparr>)
      else if member = ''evidence'' then
        (case asObject (jget entry ''evidence'') of
           None \<Rightarrow> Inl (unclassed ''JPS-GRAPH-INPUTS-EVIDENCE'' ExitInvocation)
         | Some m \<Rightarrow> readMembers entry rest (n\<lparr>niEvidence := Some m, niEvidenceSupplied := True\<rparr>))
      else Inl (unclassed ''JPS-GRAPH-INPUTS-MEMBER'' ExitInvocation))"

fun readInputs :: "Document \<Rightarrow> object \<Rightarrow> string list \<Rightarrow> inputs \<Rightarrow> Failure + inputs" where
  "readInputs d m [] perNode = Inr perNode"
| "readInputs d m (name # rest) perNode =
     (if \<not> declares d name then Inl (unclassed ''JPS-GRAPH-INPUTS-NODE'' ExitInvocation)
      else case asObject (jget m name) of
             None \<Rightarrow> Inl (unclassed ''JPS-GRAPH-INPUTS-SHAPE'' ExitInvocation)
           | Some entry \<Rightarrow>
               andThen (readMembers entry (sortedMembers entry) noInputs)
                 (\<lambda>n. readInputs d m rest (perNode(name := n))))"

definition parseInputs :: "('h) graphHost_scheme \<Rightarrow> string \<Rightarrow> bool \<Rightarrow> Document \<Rightarrow> Failure + inputs" where
  "parseInputs H data supplied d =
     (if \<not> supplied then Inr (\<lambda>_. noInputs)
      else if length data > MaxInputsBytes then Inl (unclassed ''JPS-RESOURCE-GRAPH-INPUTS-BYTE-LIMIT'' ExitIO)
      else if length data = 0 then Inl (unclassed ''JPS-GRAPH-INPUTS-JSON'' ExitInvocation)
      else case Decode data (eTokens H data) DefaultLimits of
             Inl f \<Rightarrow> Inl (if carrierResource f then unclassed (dgCode (carrierError f)) ExitIO
                          else unclassed ''JPS-GRAPH-INPUTS-JSON'' ExitInvocation)
           | Inr decoded \<Rightarrow>
             (case asObject decoded of
                None \<Rightarrow> Inl (unclassed ''JPS-GRAPH-INPUTS-SHAPE'' ExitInvocation)
              | Some m \<Rightarrow> readInputs d m (sortedMembers m) (\<lambda>_. noInputs)))"

subsection \<open>Writing an outcome into a facts document\<close>

text \<open>Whether a pointer cannot be written: a value is there already, or the way leads through a value
  that is no object. A pointer has at least one token.\<close>

fun collides :: "object \<Rightarrow> string list \<Rightarrow> bool" where
  "collides m [] = False"
| "collides m [token] = hasMember m token"
| "collides m (token # rest) =
     (case map_of m token of
        None \<Rightarrow> False
      | Some (JObject child) \<Rightarrow> collides child rest
      | Some _ \<Rightarrow> True)"

definition callerCollision :: "object \<Rightarrow> string \<Rightarrow> bool" where
  "callerCollision m pointer = collides m (pointerTokens pointer)"

fun inject :: "object \<Rightarrow> string list \<Rightarrow> json \<Rightarrow> object option" where
  "inject m [] v = Some m"
| "inject m [token] v = (if hasMember m token then None else Some (setMember m token v))"
| "inject m (token # rest) v =
     (case map_of m token of
        None \<Rightarrow> map_option (\<lambda>c. setMember m token (JObject c)) (inject [] rest v)
      | Some (JObject child) \<Rightarrow> map_option (\<lambda>c. setMember m token (JObject c)) (inject child rest v)
      | Some _ \<Rightarrow> None)"

definition injectFact :: "object \<Rightarrow> string \<Rightarrow> string \<Rightarrow> object option" where
  "injectFact m pointer outcomeID =
     inject m (map decodePointerToken (splitOn (CHR ''/'') (tl pointer))) (JString outcomeID)"

definition overInjectionBudget :: "nat \<Rightarrow> nat \<Rightarrow> bool" where
  "overInjectionBudget injected allowed \<longleftrightarrow> injected > allowed"

subsection \<open>What reading accepts\<close>

definition inputsShape :: "Document \<Rightarrow> object \<Rightarrow> bool" where
  "inputsShape d m \<longleftrightarrow>
     (\<forall>(name, v) \<in> set m. declares d name \<and>
        (\<exists>entry. v = JObject entry \<and> (\<forall>(k, w) \<in> set entry. k = ''facts'' \<or> k = ''evidence'' \<and> (\<exists>e. w = JObject e))))"

definition inputsOf :: "object \<Rightarrow> inputs" where
  "inputsOf m name =
     (let entry = objectOrNil (jget m name)
      in \<lparr>niFacts = jget entry ''facts'', niFactsSupplied = hasMember entry ''facts'',
          niEvidence = asObject (jget entry ''evidence''), niEvidenceSupplied = hasMember entry ''evidence''\<rparr>)"

definition entryShape :: "object \<Rightarrow> string list \<Rightarrow> bool" where
  "entryShape entry ks \<longleftrightarrow>
     (\<forall>k \<in> set ks. k = ''facts'' \<or> k = ''evidence'' \<and> (\<exists>e. jget entry ''evidence'' = JObject e))"

lemma entryShape_simps [simp]:
  "entryShape entry []"
  "entryShape entry (k # ks) \<longleftrightarrow>
     (k = ''facts'' \<or> k = ''evidence'' \<and> (\<exists>e. jget entry ''evidence'' = JObject e)) \<and> entryShape entry ks"
  by (auto simp: entryShape_def)

lemma readMembers_ok:
  "entryShape entry ks \<Longrightarrow> readMembers entry ks n =
     Inr (n\<lparr>niFacts := (if ''facts'' \<in> set ks then jget entry ''facts'' else niFacts n),
            niFactsSupplied := (''facts'' \<in> set ks \<or> niFactsSupplied n),
            niEvidence := (if ''evidence'' \<in> set ks then asObject (jget entry ''evidence'') else niEvidence n),
            niEvidenceSupplied := (''evidence'' \<in> set ks \<or> niEvidenceSupplied n)\<rparr>)"
proof (induction ks arbitrary: n)
  case (Cons k ks)
  then consider "k = ''facts''" | e where "k = ''evidence''" "jget entry ''evidence'' = JObject e" by auto
  then show ?case using Cons by cases simp_all
qed simp

lemma readMembers_refused: "\<not> entryShape entry ks \<Longrightarrow> \<exists>f. readMembers entry ks n = Inl f"
proof (induction ks arbitrary: n)
  case (Cons k ks)
  consider "k = ''facts''" | "k = ''evidence''" | "k \<noteq> ''facts''" "k \<noteq> ''evidence''" by argo
  then show ?case
  proof cases
    case 2
    with Cons show ?thesis by (cases "asObject (jget entry ''evidence'')") auto
  qed (use Cons in auto)
qed simp

definition nodeShape :: "Document \<Rightarrow> object \<Rightarrow> string \<Rightarrow> bool" where
  "nodeShape d m name \<longleftrightarrow>
     declares d name \<and> (\<exists>entry. jget m name = JObject entry \<and> entryShape entry (map fst entry))"

lemma sortedMembers_shape: "entryShape entry (sortedMembers entry) = entryShape entry (map fst entry)"
  by (simp add: entryShape_def sortedMembers_def)

lemma readEntry:
  assumes "entryShape entry (map fst entry)" "jget m name = JObject entry"
  shows "readMembers entry (sortedMembers entry) noInputs = Inr (inputsOf m name)"
proof -
  have "k \<in> set (sortedMembers entry) \<longleftrightarrow> hasMember entry k" for k by (simp add: sortedMembers_def hasMember_iff)
  then show ?thesis
    using assms readMembers_ok[of entry "sortedMembers entry" noInputs]
    by (simp add: sortedMembers_shape inputsOf_def Let_def) (simp add: noInputs_def jget_absent)
qed

lemma readInputs_ok:
  "\<forall>name \<in> set names. nodeShape d m name \<Longrightarrow>
   readInputs d m names perNode = Inr (\<lambda>k. if k \<in> set names then inputsOf m k else perNode k)"
proof (induction names arbitrary: perNode)
  case (Cons name names)
  then obtain entry where "declares d name" "jget m name = JObject entry" "entryShape entry (map fst entry)"
    by (auto simp: nodeShape_def)
  with Cons show ?case by (simp add: readEntry) (auto simp: fun_eq_iff)
qed simp

lemma readInputs_refused:
  "\<exists>name \<in> set names. \<not> nodeShape d m name \<Longrightarrow> \<exists>f. readInputs d m names perNode = Inl f"
proof (induction names arbitrary: perNode)
  case (Cons name names)
  show ?case
  proof (cases "nodeShape d m name")
    case True
    then obtain entry where "declares d name" "jget m name = JObject entry" "entryShape entry (map fst entry)"
      by (auto simp: nodeShape_def)
    with Cons True show ?thesis by (simp add: readEntry)
  next
    case False
    then show ?thesis
      using readMembers_refused[of _ "sortedMembers _" noInputs]
      by (cases "asObject (jget m name)") (auto simp: nodeShape_def sortedMembers_shape, metis andThen.simps(1) sortedMembers_shape)
  qed
qed simp

text \<open>Reading accepts a document exactly when it has the documented shape, and then gives each node the
  documents written for it.\<close>

lemma parseInputs_supplied:
  assumes "length data \<le> MaxInputsBytes" "Decode data (eTokens H data) DefaultLimits = Inr (JObject m)" "data \<noteq> []"
  shows "(\<forall>name \<in> fst ` set m. nodeShape d m name) \<Longrightarrow> parseInputs H data True d = Inr (\<lambda>k. if hasMember m k then inputsOf m k else noInputs)"
    and "\<not> (\<forall>name \<in> fst ` set m. nodeShape d m name) \<Longrightarrow> \<exists>f. parseInputs H data True d = Inl f"
  using assms readInputs_ok[of "sortedMembers m" d m "\<lambda>_. noInputs"] readInputs_refused[of "sortedMembers m" d m "\<lambda>_. noInputs"]
  by (auto simp: parseInputs_def sortedMembers_def hasMember_iff)

subsection \<open>Writing and resolving\<close>

lemma collides_iff: "ts \<noteq> [] \<Longrightarrow> collides m ts \<longleftrightarrow> inject m ts v = None"
proof (induction m ts v rule: inject.induct)
  case (3 m token t ts v)
  have fresh: "\<not> collides [] (t # ts)" by (cases ts) simp_all
  show ?case
  proof (cases "map_of m token")
    case None
    with 3 fresh show ?thesis by auto
  next
    case (Some w)
    with 3 show ?thesis by (cases w) auto
  qed
qed auto

lemma map_of_setMember: "map_of (setMember m k v) k' = (if k' = k then Some v else map_of m k')"
proof -
  have "map_of (map (\<lambda>(x, w). (x, if x = k then v else w)) m) k' = (if k' = k \<and> hasMember m k then Some v else map_of m k')"
    by (induction m) auto
  then show ?thesis
    by (auto simp: setMember_def map_add_def hasMember_def split: option.split)
qed

lemma inject_resolves: "ts \<noteq> [] \<Longrightarrow> inject m ts v = Some m' \<Longrightarrow> resolveTokens ts (JObject m') = Some v"
proof (induction m ts v arbitrary: m' rule: inject.induct)
  case (3 m token t ts v)
  show ?case
  proof (cases "map_of m token")
    case None
    then show ?thesis using 3 by (auto simp: map_of_setMember simp del: resolveTokens.simps(2)) (simp add: map_of_setMember)
  next
    case (Some w)
    then obtain child c where "w = JObject child" "inject child (t # ts) v = Some c" "m' = setMember m token (JObject c)"
      using "3.prems" by (cases w) auto
    then show ?thesis using "3.IH"(2)[of w child c] Some by (simp add: map_of_setMember)
  qed
qed (auto simp: map_of_setMember split: if_splits)

text \<open>A path that neither continues the written one nor is continued by it.\<close>

lemma entangled_Cons [simp]: "entangled (x # xs) (y # ys) \<longleftrightarrow> x = y \<and> entangled xs ys"
  "entangled [] ys" "entangled xs []"
  by (auto simp: entangled_def)

lemma inject_frame:
  "inject m ts v = Some m' \<Longrightarrow> \<not> entangled ts us \<Longrightarrow> resolveTokens us (JObject m') = resolveTokens us (JObject m)"
proof (induction m ts v arbitrary: m' us rule: inject.induct)
  case (2 m token v)
  then show ?case by (cases us) (auto simp: map_of_setMember split: if_splits)
next
  case (3 m token t ts v)
  obtain u us' where us: "us = u # us'" using "3.prems" by (cases us) auto
  show ?case
  proof (cases "u = token")
    case False
    with 3 us show ?thesis by (auto simp: map_of_setMember split: option.splits json.splits)
  next
    case True
    with "3.prems" us have away: "\<not> entangled (t # ts) us'" by simp
    show ?thesis
    proof (cases "map_of m token")
      case None
      then obtain c where c: "inject [] (t # ts) v = Some c" "m' = setMember m token (JObject c)"
        using "3.prems" by auto
      moreover obtain w ws where "us' = w # ws" using away by (cases us') auto
      ultimately show ?thesis
        using "3.IH"(1)[OF None c(1) away] None us True by (simp add: map_of_setMember)
    next
      case (Some w)
      then obtain child c where "w = JObject child" "inject child (t # ts) v = Some c" "m' = setMember m token (JObject c)"
        using "3.prems" by (cases w) auto
      then show ?thesis using "3.IH"(2)[of w child] Some away us True by (simp add: map_of_setMember)
    qed
  qed
qed simp

lemma collides_frame:
  "inject m ts v = Some m' \<Longrightarrow> \<not> entangled ts us \<Longrightarrow> collides m' us = collides m us"
proof (induction m ts v arbitrary: m' us rule: inject.induct)
  case (2 m token v)
  then show ?case by (cases "(m, us)" rule: collides.cases) (auto simp: map_of_setMember hasMember_def split: if_splits)
next
  case (3 m token t ts v)
  obtain u us' where us: "us = u # us'" using "3.prems" by (cases us) auto
  show ?case
  proof (cases "u = token")
    case False
    with 3 us show ?thesis
      by (cases us') (auto simp: map_of_setMember hasMember_def split: option.splits json.splits)
  next
    case True
    with "3.prems" us have away: "\<not> entangled (t # ts) us'" by simp
    then obtain w ws where ws: "us' = w # ws" by (cases us') auto
    show ?thesis
    proof (cases "map_of m token")
      case None
      then obtain c where c: "inject [] (t # ts) v = Some c" "m' = setMember m token (JObject c)"
        using "3.prems" by auto
      moreover have "\<not> collides [] us'" using ws by (cases ws) simp_all
      ultimately show ?thesis
        using "3.IH"(1)[OF None c(1) away] None us True ws by (simp add: map_of_setMember)
    next
      case (Some x)
      then obtain child c where "x = JObject child" "inject child (t # ts) v = Some c" "m' = setMember m token (JObject c)"
        using "3.prems" by (cases x) auto
      then show ?thesis using "3.IH"(2)[of x child] Some away us True ws by (simp add: map_of_setMember)
    qed
  qed
qed simp

subsection \<open>Pointers\<close>

lemma pointerTokens_Cons: "pointerTokens (CHR ''/'' # p) = tokens (compilePointer (CHR ''/'' # p))"
  by (simp add: pointerTokens_def compilePointer_def Let_def decodePointerToken_def unescapeToken_def)

lemma pointerTokens_nonempty [simp]: "pointerTokens p \<noteq> []"
  by (simp add: pointerTokens_def)

lemma resolvePointer_tokens: "resolvePointer v (CHR ''/'' # p) = resolveTokens (pointerTokens (CHR ''/'' # p)) v"
  by (simp add: resolvePointer_def resolveCompiled_def pointerTokens_Cons) (simp add: compilePointer_def Let_def)

lemma injectFact_tokens: "injectFact m p outcomeID = inject m (pointerTokens p) (JString outcomeID)"
  by (simp add: injectFact_def pointerTokens_def)

text \<open>C13: An outcome can be written at a pointer exactly when the caller's document does not collide
  with it; once written the pointer resolves to it, and every pointer that is not entangled with it
  resolves as before.\<close>

theorem injectFact_exact:
  assumes "hd p = CHR ''/''" "p \<noteq> []"
  shows "case injectFact m p outcomeID of
     None \<Rightarrow> callerCollision m p
   | Some m' \<Rightarrow> \<not> callerCollision m p \<and> resolvePointer (JObject m') p = Some (JString outcomeID) \<and>
       (\<forall>q. q \<noteq> [] \<and> hd q = CHR ''/'' \<and> \<not> entangled (pointerTokens p) (pointerTokens q) \<longrightarrow>
          resolvePointer (JObject m') q = resolvePointer (JObject m) q)"
proof -
  obtain r where p: "p = CHR ''/'' # r" using assms by (cases p) auto
  have c: "callerCollision m p \<longleftrightarrow> injectFact m p outcomeID = None"
    using collides_iff[of "pointerTokens p"] by (simp add: callerCollision_def injectFact_tokens)
  show ?thesis
  proof (cases "injectFact m p outcomeID")
    case (Some m')
    then have i: "inject m (pointerTokens p) (JString outcomeID) = Some m'" by (simp add: injectFact_tokens)
    have "resolvePointer (JObject m') q = resolvePointer (JObject m) q"
      if "q \<noteq> []" "hd q = CHR ''/''" "\<not> entangled (pointerTokens p) (pointerTokens q)" for q
      using that inject_frame[OF i] by (cases q) (auto simp: resolvePointer_tokens)
    with Some c i p inject_resolves[OF _ i] show ?thesis by (simp add: resolvePointer_tokens)
  qed (use c in simp)
qed

theorem injectFact_exact_witness:
  "case injectFact [(''a'', JObject [(''b'', JNull)])] ''/a/c'' ''ok'' of
     None \<Rightarrow> False | Some m' \<Rightarrow> resolvePointer (JObject m') ''/a/c'' = Some (JString ''ok'') \<and>
       resolvePointer (JObject m') ''/a/b'' = Some JNull"
proof -
  have "injectFact [(''a'', JObject [(''b'', JNull)])] ''/a/c'' ''ok'' \<noteq> None"
    "\<not> entangled (pointerTokens ''/a/c'') (pointerTokens ''/a/b'')"
    "resolvePointer (JObject [(''a'', JObject [(''b'', JNull)])]) ''/a/b'' = Some JNull"
    by code_simp+
  then show ?thesis
    using injectFact_exact[of "''/a/c''" "[(''a'', JObject [(''b'', JNull)])]" "''ok''"] by (auto split: option.splits)
qed

end
