(* ===== verification/Display.thy ===== *)
theory Display
  imports Utf8
begin

section \<open>Text for display\<close>

text \<open>
  \<open>internal/display/sanitize.go\<close>: untrusted labels lose their controls, format characters and line
  and paragraph separators. The classes are those of the standard library's \<open>unicode\<close> tables
  (Unicode 15).
\<close>

definition isControl :: "nat \<Rightarrow> bool" where
  "isControl r \<longleftrightarrow> r < 32 \<or> between 127 159 r"

text \<open>The ranges of class \<open>Cf\<close>, then \<open>Zl\<close> and \<open>Zp\<close>.\<close>

definition formatRanges :: "(nat \<times> nat) list" where
  "formatRanges =
     [(0x00AD, 0x00AD), (0x0600, 0x0605), (0x061C, 0x061C), (0x06DD, 0x06DD), (0x070F, 0x070F), (0x0890, 0x0891),
      (0x08E2, 0x08E2), (0x180E, 0x180E), (0x200B, 0x200F), (0x202A, 0x202E), (0x2060, 0x2064), (0x2066, 0x206F),
      (0xFEFF, 0xFEFF), (0xFFF9, 0xFFFB), (0x110BD, 0x110BD), (0x110CD, 0x110CD), (0x13430, 0x1343F),
      (0x1BCA0, 0x1BCA3), (0x1D173, 0x1D17A), (0xE0001, 0xE0001), (0xE0020, 0xE007F)]"

definition separatorRanges :: "(nat \<times> nat) list" where
  "separatorRanges = [(0x2028, 0x2028), (0x2029, 0x2029)]"

definition hiddenRune :: "nat \<Rightarrow> bool" where
  "hiddenRune r \<longleftrightarrow> isControl r \<or> list_ex (\<lambda>(a, b). between a b r) (formatRanges @ separatorRanges)"

definition Sanitize :: "string \<Rightarrow> string" where
  "Sanitize s = concat (map (\<lambda>r. if hiddenRune r then [CHR ''?''] else encodeRune r) (runes s))"

text \<open>What is written is text without a hidden character, and writing it again changes nothing.\<close>

definition displayed :: "nat \<Rightarrow> nat" where
  "displayed r = (if hiddenRune r then 63 else if scalar r then r else runeError)"

lemma displayed_simps [simp]: "scalar (displayed r)" "\<not> hiddenRune (displayed r)" "displayed (displayed r) = displayed r"
proof -
  have q: "\<not> hiddenRune 63" "\<not> hiddenRune runeError" "scalar 63" "scalar runeError"
    by (simp_all add: hiddenRune_def isControl_def formatRanges_def separatorRanges_def between_def scalar_def)
  then show "scalar (displayed r)" "\<not> hiddenRune (displayed r)" by (simp_all add: displayed_def)
  then show "displayed (displayed r) = displayed r" by (simp add: displayed_def[of "displayed r"])
qed

lemma Sanitize_runes: "Sanitize s = concat (map (\<lambda>r. encodeScalar (displayed r)) (runes s))"
proof -
  have "(if hiddenRune r then [CHR ''?''] else encodeRune r) = encodeScalar (displayed r)" for r
  proof (cases "hiddenRune r")
    case True
    moreover have "encodeScalar 63 = [CHR ''?'']" by code_simp
    ultimately show ?thesis by (simp add: displayed_def)
  qed (simp add: displayed_def encodeRune_def)
  then show ?thesis by (simp add: Sanitize_def)
qed

lemma runes_displayed: "runes (concat (map (\<lambda>r. encodeScalar (displayed r)) rs)) = map displayed rs"
  by (induction rs) simp_all

lemma runes_Sanitize: "runes (Sanitize s) = map displayed (runes s)"
  by (simp add: Sanitize_runes runes_displayed)

lemma Sanitize_clean: "list_all (\<lambda>r. \<not> hiddenRune r) (runes (Sanitize s))"
  by (simp add: runes_Sanitize list_all_iff)

lemma Sanitize_idem: "Sanitize (Sanitize s) = Sanitize s"
  by (simp add: Sanitize_runes[of "Sanitize s"] runes_Sanitize comp_def) (simp add: Sanitize_runes)

end
