(* ===== verification/Graph_Evaluation.thy ===== *)
theory Graph_Evaluation
  imports Graph_Inputs Display
begin

section \<open>Judgment graphs: the evaluation\<close>

text \<open>
  \<open>Evaluate\<close> of \<open>internal/graph/evaluate.go\<close> with \<open>contract.go\<close> and \<open>report.go\<close>: the gates before
  any node runs, the assembly of each node's documents from the outcomes of the nodes before it, the
  evaluation of the node by the engine of \<open>Engine\<close>, and the composite. Added to the host are the
  sizes of the encoded parts of a report; the audit trail is a pair of functions that compose and
  append its records. A failure is kept without its message, so the wrapping of one is not seen.
\<close>

subsection \<open>Results\<close>

record GraphFactFeed =
  gffFrom :: string
  gffPointer :: string
  gffInjected :: bool
  gffValue :: string

record GraphEvidenceFeed =
  gefFrom :: string
  gefRequirement :: string
  gefState :: string

record GraphNodeEvaluation =
  gnNode :: string
  gnPack :: string
  gnPackID :: string
  gnPackVersion :: string
  gnPackSHA256 :: string
  gnSpecVersion :: string
  gnFactFeeds :: "GraphFactFeed list"
  gnEvidenceFeeds :: "GraphEvidenceFeed list"
  gnDisposition :: Disposition
  gnHandoffTarget :: "HandoffTarget option"
  gnUnmetEvidence :: "UnmetEvidence list"
  gnContributors :: "Contributor list"
  gnTrace :: "TraceEntry list"

record GraphHandoff =
  ghNode :: string
  ghTriggeredBy :: "string list"
  ghTarget :: "HandoffTarget option"

record GraphEvaluation =
  geCommand :: string
  geEvaluatorSpecVersion :: string
  geGraphSHA256 :: string
  geConfigSHA256 :: string
  geConfigPath :: string
  geGraphPath :: string
  geGraphID :: string
  geGraphVersion :: string
  geResultNode :: string
  geDisposition :: "Disposition option"
  geHandoffTarget :: "HandoffTarget option"
  geHandoffs :: "GraphHandoff list"
  geNodes :: "GraphNodeEvaluation list"
  geArtifact :: "Artifact option"

record auditWriter =
  awRecord :: "GraphNodeEvaluation \<Rightarrow> string \<Rightarrow> string \<Rightarrow> string \<Rightarrow> string option"
  awComposite :: "GraphEvaluation \<Rightarrow> string option"
  awAppendAll :: "string list \<Rightarrow> bool"

record GraphOptions =
  goCommand :: string
  goSupportedExtensions :: "string list"
  goContract :: EvaluatorContract
  goAudit :: "auditWriter option"
  goLawCheck :: "(string \<Rightarrow> string \<Rightarrow> Failure option) option"
  goRequireComparableFacts :: bool
  goInjectionBudget :: int

record graphEngine = graphHost +
  hNodeBytes :: "GraphNodeEvaluation \<Rightarrow> nat option"
  hHandoffBytes :: "GraphHandoff list \<Rightarrow> nat option"
  hDispositionBytes :: "Disposition \<Rightarrow> nat option"
  hGraphBytes :: "GraphEvaluation \<Rightarrow> nat option"

definition MaxEvaluationReportBytes :: nat where
  "MaxEvaluationReportBytes = MaxInputsBytes"

definition injectionBudget :: "GraphOptions \<Rightarrow> nat" where
  "injectionBudget options = (if goInjectionBudget options > 0 then nat (goInjectionBudget options) else HardMaxBytes)"

subsection \<open>Packs and contracts\<close>

definition entryOrZero :: "Project \<Rightarrow> string \<Rightarrow> PackEntry" where
  "entryOrZero loaded k = (case Entry loaded k of Some e \<Rightarrow> e | None \<Rightarrow> \<lparr>peID = [], pePath = []\<rparr>)"

definition packOf :: "Document \<Rightarrow> string \<Rightarrow> string" where
  "packOf d k = (case map_of (gdNodes d) k of Some node \<Rightarrow> ndPack node | None \<Rightarrow> [])"

definition readNodePack :: "Project \<Rightarrow> nat \<Rightarrow> PackEntry \<Rightarrow> Failure + string \<times> string list" where
  "readNodePack loaded n entry =
     (case pjReadPack loaded n entry of
        ReadBytes data \<Rightarrow> Inr (data, [])
      | ReadTooLarge \<Rightarrow> Inr ([], [''pack''])
      | ReadError \<Rightarrow> Inl (unclassed ''JPS-GRAPH-NODE-PACK-READ'' ExitIO))"

definition selectNodeContract :: "host \<Rightarrow> string \<Rightarrow> string list \<Rightarrow> Failure + EvaluatorContract" where
  "selectNodeContract H data over =
     (if length over > 0 then Inl (refusal ClassPackNotConformant ''JPS-RESOURCE-INPUT-BYTE-LIMIT'' ExitIO)
      else SelectContract H data)"

definition mixedContractFailure :: Failure where
  "mixedContractFailure = unclassed ''JPS-GRAPH-MIXED-CONTRACT'' ExitUnsupported"

fun selectContracts :: "host \<Rightarrow> Project \<Rightarrow> Document \<Rightarrow> nat \<Rightarrow> string list \<Rightarrow> EvaluatorContract \<Rightarrow> Failure + EvaluatorContract" where
  "selectContracts H loaded d n [] c = Inr c"
| "selectContracts H loaded d n (k # ks) c =
     andThen (readNodePack loaded n (entryOrZero loaded (packOf d k))) (\<lambda>(data, over).
       andThen (selectNodeContract H data over) (\<lambda>selected.
         if n > 0 \<and> selected \<noteq> c then Inl mixedContractFailure
         else selectContracts H loaded d (n + 1) ks selected))"

definition SelectGraphContract :: "host \<Rightarrow> Project \<Rightarrow> Document \<Rightarrow> string list \<Rightarrow> Failure + EvaluatorContract" where
  "SelectGraphContract H loaded d order = selectContracts H loaded d 0 order LegacyEvaluatorContract"

subsection \<open>Collisions with the caller's inputs\<close>

definition factConflict :: Failure where
  "factConflict = unclassed ''JPS-GRAPH-FACT-CONFLICT'' ExitInvocation"

definition evidenceConflict :: Failure where
  "evidenceConflict = unclassed ''JPS-GRAPH-EVIDENCE-CONFLICT'' ExitInvocation"

fun callerConflicts :: "inputs \<Rightarrow> Edge list \<Rightarrow> Failure option" where
  "callerConflicts perNode [] = None"
| "callerConflicts perNode (e # es) =
     (let n = perNode (egTo e)
      in if egFact e = [] \<or> \<not> niFactsSupplied n then callerConflicts perNode es
         else case asObject (niFacts n) of
                None \<Rightarrow> Some factConflict
              | Some m \<Rightarrow> if callerCollision m (egFact e) then Some factConflict else callerConflicts perNode es)"

subsection \<open>Assembling the documents of a node\<close>

record assembly =
  asFacts :: json
  asEvidence :: "object option"
  asInjected :: nat
  asOversized :: bool
  asFactFeeds :: "GraphFactFeed list"
  asEvidenceFeeds :: "GraphEvidenceFeed list"

definition upstreamKind :: "Disposition option \<Rightarrow> string" where
  "upstreamKind u = (case u of None \<Rightarrow> [] | Some d \<Rightarrow> dKind d)"

definition upstreamOutcome :: "Disposition option \<Rightarrow> string" where
  "upstreamOutcome u = (case u of None \<Rightarrow> [] | Some d \<Rightarrow> dOutcomeID d)"

definition feedFactEdge :: "nat \<Rightarrow> Disposition option \<Rightarrow> Edge \<Rightarrow> assembly \<Rightarrow> Failure + assembly" where
  "feedFactEdge allowed u e a =
     (let wanted = upstreamKind u = ''outcome'' \<and> \<not> asOversized a;
          injected = asInjected a + (if wanted then length (upstreamOutcome u) else 0);
          over = wanted \<and> overInjectionBudget injected allowed;
          feed = \<lparr>gffFrom = egFrom e, gffPointer = egFact e, gffInjected = False, gffValue = []\<rparr>;
          a1 = a\<lparr>asInjected := injected, asOversized := asOversized a \<or> over\<rparr>
      in if wanted \<and> \<not> over
         then (case asObject (asFacts a) of
                 None \<Rightarrow> Inl factConflict
               | Some m \<Rightarrow>
                   (case injectFact m (egFact e) (upstreamOutcome u) of
                      None \<Rightarrow> Inl factConflict
                    | Some m' \<Rightarrow>
                        Inr (a1\<lparr>asFacts := JObject m',
                                asFactFeeds := asFactFeeds a @ [feed\<lparr>gffInjected := True, gffValue := upstreamOutcome u\<rparr>]\<rparr>)))
         else Inr (a1\<lparr>asFactFeeds := asFactFeeds a @ [feed]\<rparr>))"

definition feedEvidenceEdge :: "Disposition option \<Rightarrow> Edge \<Rightarrow> EvidenceFeed \<Rightarrow> assembly \<Rightarrow> Failure + assembly" where
  "feedEvidenceEdge u e f a =
     (let state = State f (upstreamKind u); m = (case asEvidence a of None \<Rightarrow> [] | Some m \<Rightarrow> m)
      in if hasMember m (efID f) then Inl evidenceConflict
         else Inr (a\<lparr>asEvidence := Some (setMember m (efID f) (JString state)),
                     asEvidenceFeeds := asEvidenceFeeds a @
                       [\<lparr>gefFrom = egFrom e, gefRequirement = efID f, gefState = state\<rparr>]\<rparr>))"

definition feedEdge :: "nat \<Rightarrow> (string \<Rightarrow> Disposition option) \<Rightarrow> Edge \<Rightarrow> assembly \<Rightarrow> Failure + assembly" where
  "feedEdge allowed dispositions e a =
     (let u = dispositions (egFrom e)
      in andThen (if egFact e \<noteq> [] then feedFactEdge allowed u e a else Inr a)
           (\<lambda>a1. case egEvidence e of None \<Rightarrow> Inr a1 | Some f \<Rightarrow> feedEvidenceEdge u e f a1))"

fun feedEdges :: "nat \<Rightarrow> (string \<Rightarrow> Disposition option) \<Rightarrow> string \<Rightarrow> Edge list \<Rightarrow> assembly \<Rightarrow> Failure + assembly" where
  "feedEdges allowed dispositions k [] a = Inr a"
| "feedEdges allowed dispositions k (e # es) a =
     (if egTo e \<noteq> k then feedEdges allowed dispositions k es a
      else andThen (feedEdge allowed dispositions e a) (feedEdges allowed dispositions k es))"

definition startAssembly :: "nodeInputs \<Rightarrow> assembly" where
  "startAssembly n =
     \<lparr>asFacts = (if niFactsSupplied n then niFacts n else JObject []), asEvidence = niEvidence n, asInjected = 0,
      asOversized = False, asFactFeeds = [], asEvidenceFeeds = []\<rparr>"

definition assemble :: "GraphOptions \<Rightarrow> Document \<Rightarrow> inputs \<Rightarrow> (string \<Rightarrow> Disposition option) \<Rightarrow> string \<Rightarrow> Failure + assembly" where
  "assemble options d perNode dispositions k =
     feedEdges (injectionBudget options) dispositions k (gdEdges d) (startAssembly (perNode k))"

subsection \<open>Evaluating a node\<close>

definition internalFailure :: Failure where
  "internalFailure = unclassed ''JPS-GRAPH-INTERNAL'' ExitInternal"

text \<open>The bytes handed to the engine: facts, unless they are over a limit, and evidence when some was
  supplied or fed.\<close>

record handed =
  hdFacts :: string
  hdEvidence :: string
  hdEvidenceSupplied :: bool
  hdFactsOversized :: bool

definition handOver :: "('h) graphHost_scheme \<Rightarrow> nodeInputs \<Rightarrow> assembly \<Rightarrow> Failure + handed" where
  "handOver H n a =
     (case (if asOversized a then Some [] else hEncode H (asFacts a)) of
        None \<Rightarrow> Inl internalFailure
      | Some factsBytes \<Rightarrow>
        (let over = asOversized a \<or> length factsBytes > HardMaxBytes;
             supplied = niEvidenceSupplied n \<or> length (asEvidenceFeeds a) > 0
         in case (if supplied then hEncode H (JObject (case asEvidence a of None \<Rightarrow> [] | Some m \<Rightarrow> m)) else Some []) of
              None \<Rightarrow> Inl internalFailure
            | Some evidenceBytes \<Rightarrow>
                Inr \<lparr>hdFacts = (if length factsBytes > HardMaxBytes then [] else factsBytes),
                     hdEvidence = evidenceBytes, hdEvidenceSupplied = supplied, hdFactsOversized = over\<rparr>))"

definition nodeOptions :: "GraphOptions \<Rightarrow> EvaluatorContract \<Rightarrow> handed \<Rightarrow> string list \<Rightarrow> Options" where
  "nodeOptions options c h over =
     \<lparr>oSpecVersion = Version c, oSupportedProfiles = None, oCommand = goCommand options,
      oSupportedExtensions = goSupportedExtensions options, oRFC0008Quantifiers = False,
      oRFC0016OutcomeValues = False, oWorkBudget = 0, oEvidenceSupplied = hdEvidenceSupplied h,
      oOversizedInputs = (if hdFactsOversized h then over @ [''facts''] else over),
      oRequireComparableFacts = goRequireComparableFacts options\<rparr>"

definition nodeEvaluationOf :: "host \<Rightarrow> Document \<Rightarrow> string \<Rightarrow> string \<Rightarrow> assembly \<Rightarrow> Evaluation \<Rightarrow> GraphNodeEvaluation" where
  "nodeEvaluationOf H d k packBytes a ev =
     \<lparr>gnNode = k, gnPack = packOf d k, gnPackID = evPackID ev, gnPackVersion = evPackVersion ev,
      gnPackSHA256 = hSha256 H packBytes, gnSpecVersion = evSpecVersion ev, gnFactFeeds = asFactFeeds a,
      gnEvidenceFeeds = asEvidenceFeeds a, gnDisposition = evDisposition ev,
      gnHandoffTarget = evHandoffTarget ev, gnUnmetEvidence = evUnmetEvidence ev,
      gnContributors = evContributors ev, gnTrace = evTrace ev\<rparr>"

definition lawCheck :: "GraphOptions \<Rightarrow> string \<Rightarrow> string \<Rightarrow> string list \<Rightarrow> Failure option" where
  "lawCheck options packID packBytes over =
     (case goLawCheck options of None \<Rightarrow> None
      | Some check \<Rightarrow> if over = [] then check packID packBytes else None)"

definition readAdmitted :: "host \<Rightarrow> Project \<Rightarrow> GraphOptions \<Rightarrow> Document \<Rightarrow> EvaluatorContract \<Rightarrow> nat \<Rightarrow> string
    \<Rightarrow> Failure + string \<times> string list" where
  "readAdmitted H loaded options d c n k =
     andThen (readNodePack loaded n (entryOrZero loaded (packOf d k))) (\<lambda>(packBytes, over).
       andThen (selectNodeContract H packBytes over) (\<lambda>selected.
         if selected \<noteq> c then Inl mixedContractFailure
         else refuseIf (lawCheck options (packOf d k) packBytes over) (Inr (packBytes, over))))"

text \<open>One node: its result, and the texts its audit record is composed from.\<close>

definition runNode :: "('h) graphHost_scheme \<Rightarrow> Project \<Rightarrow> GraphOptions \<Rightarrow> Document \<Rightarrow> inputs \<Rightarrow> EvaluatorContract \<Rightarrow> nat
    \<Rightarrow> (string \<Rightarrow> Disposition option) \<Rightarrow> string \<Rightarrow> Failure + GraphNodeEvaluation \<times> handed \<times> string" where
  "runNode H loaded options d perNode c n dispositions k =
     andThen (readAdmitted (host.truncate H) loaded options d c n k) (\<lambda>(packBytes, over).
       andThen (assemble options d perNode dispositions k) (\<lambda>a.
         andThen (handOver H (perNode k) a) (\<lambda>h.
           andThen (EvaluateWith (host.truncate H) packBytes (hdFacts h) (hdEvidence h) (nodeOptions options c h over))
             (\<lambda>ev. Inr (nodeEvaluationOf (host.truncate H) d k packBytes a ev, h, packBytes)))))"

subsection \<open>The composite\<close>

definition graphHandoffs :: "GraphNodeEvaluation \<Rightarrow> GraphHandoff list" where
  "graphHandoffs node =
     (let h = dHandoff (gnDisposition node)
      in if hState h \<noteq> ''requested'' then []
         else case hRoutes h of
                None \<Rightarrow> [\<lparr>ghNode = gnNode node, ghTriggeredBy = hTriggeredBy h, ghTarget = gnHandoffTarget node\<rparr>]
              | Some routes \<Rightarrow>
                  map (\<lambda>route. \<lparr>ghNode = gnNode node, ghTriggeredBy = hTriggeredBy h,
                                ghTarget = Some \<lparr>htKind = htKind route, htName = Sanitize (htName route)\<rparr>\<rparr>) routes)"

definition reportBudgetFailure :: Failure where
  "reportBudgetFailure = unclassed ''JPS-GRAPH-REPORT-BUDGET'' ExitIO"

definition reportEncodingFailure :: Failure where
  "reportEncodingFailure = unclassed ''JPS-GRAPH-REPORT-ENCODE'' 0"

definition auditWriteFailure :: Failure where
  "auditWriteFailure = unclassed ''JPS-AUDIT-WRITE'' ExitIO"

fun chargeReport :: "nat \<Rightarrow> nat option list \<Rightarrow> Failure + nat" where
  "chargeReport spent [] = Inr spent"
| "chargeReport spent (None # rest) = Inl reportEncodingFailure"
| "chargeReport spent (Some n # rest) =
     (if spent + n > MaxEvaluationReportBytes then Inl reportBudgetFailure else chargeReport (spent + n) rest)"

definition chargeNode :: "graphEngine \<Rightarrow> Document \<Rightarrow> EvaluatorContract \<Rightarrow> nat \<Rightarrow> GraphNodeEvaluation \<Rightarrow> Failure + nat" where
  "chargeNode H d c spent node =
     (if Version c = ''0.3.0''
      then chargeReport spent
             ([hNodeBytes H node, hHandoffBytes H (graphHandoffs node)] @
              (if gnNode node = gdResult d then [hDispositionBytes H (gnDisposition node)] else []))
      else Inr spent)"

definition nodeRecord :: "GraphOptions \<Rightarrow> GraphNodeEvaluation \<Rightarrow> handed \<Rightarrow> string \<Rightarrow> Failure + string list" where
  "nodeRecord options node h packBytes =
     (case goAudit options of
        None \<Rightarrow> Inr []
      | Some w \<Rightarrow> (case awRecord w node (hdFacts h) (hdEvidence h) packBytes of
                    None \<Rightarrow> Inl auditWriteFailure | Some r \<Rightarrow> Inr [r]))"

record graphRun =
  grDispositions :: "string \<Rightarrow> Disposition option"
  grNodes :: "GraphNodeEvaluation list"
  grRecords :: "string list"
  grReportBytes :: nat

definition startRun :: graphRun where
  "startRun = \<lparr>grDispositions = (\<lambda>_. None), grNodes = [], grRecords = [], grReportBytes = 0\<rparr>"

fun runNodes :: "graphEngine \<Rightarrow> Project \<Rightarrow> GraphOptions \<Rightarrow> Document \<Rightarrow> inputs \<Rightarrow> EvaluatorContract \<Rightarrow> nat \<Rightarrow> string list
    \<Rightarrow> graphRun \<Rightarrow> Failure + graphRun" where
  "runNodes H loaded options d perNode c n [] r = Inr r"
| "runNodes H loaded options d perNode c n (k # ks) r =
     andThen (runNode H loaded options d perNode c n (grDispositions r) k) (\<lambda>(node, h, packBytes).
       andThen (chargeNode H d c (grReportBytes r) node) (\<lambda>spent.
         andThen (nodeRecord options node h packBytes) (\<lambda>records.
           runNodes H loaded options d perNode c (n + 1) ks
             \<lparr>grDispositions = (grDispositions r)(k \<mapsto> gnDisposition node), grNodes = grNodes r @ [node],
              grRecords = grRecords r @ records, grReportBytes = spent\<rparr>)))"

text \<open>\<open>strings.TrimPrefix\<close> of the algorithm.\<close>

definition bareDigest :: "string \<Rightarrow> string" where
  "bareDigest s = (if take 7 s = ''sha256:'' then drop 7 s else s)"

definition composite :: "graphEngine \<Rightarrow> Project \<Rightarrow> GraphOptions \<Rightarrow> Document \<Rightarrow> string \<Rightarrow> EvaluatorContract
    \<Rightarrow> GraphNodeEvaluation list \<Rightarrow> GraphEvaluation" where
  "composite H loaded options d graphPath c nodes =
     (let results = filter (\<lambda>node. gnNode node = gdResult d) nodes
      in \<lparr>geCommand = goCommand options, geEvaluatorSpecVersion = Version c, geGraphSHA256 = bareDigest (gdDigest d),
          geConfigSHA256 = bareDigest (pjConfigDigest loaded), geConfigPath = pjConfigPath loaded,
          geGraphPath = graphPath, geGraphID = gdID d, geGraphVersion = gdVersion d, geResultNode = gdResult d,
          geDisposition = (if results = [] then None else Some (gnDisposition (last results))),
          geHandoffTarget = (if results = [] then None else gnHandoffTarget (last results)),
          geHandoffs = concat (map graphHandoffs nodes), geNodes = nodes,
          geArtifact = map_option (\<lambda>a. a\<lparr>arSpecVersion := Version c\<rparr>) (eSets H (Version c))\<rparr>)"

definition conclude :: "graphEngine \<Rightarrow> GraphOptions \<Rightarrow> EvaluatorContract \<Rightarrow> graphRun \<Rightarrow> GraphEvaluation \<Rightarrow> Failure + GraphEvaluation" where
  "conclude H options c r result =
     andThen (if Version c = ''0.3.0'' then chargeReport 0 [hGraphBytes H result] else Inr 0) (\<lambda>_.
       case goAudit options of
         None \<Rightarrow> Inr result
       | Some w \<Rightarrow>
           (case awComposite w result of
              None \<Rightarrow> Inl auditWriteFailure
            | Some record_text \<Rightarrow>
                if awAppendAll w (grRecords r @ [record_text]) then Inr result else Inl auditWriteFailure))"

definition EvaluateGraph :: "graphEngine \<Rightarrow> (string list \<Rightarrow> string list) \<Rightarrow> Project \<Rightarrow> Document \<Rightarrow> string \<Rightarrow> string \<Rightarrow> bool
    \<Rightarrow> GraphOptions \<Rightarrow> Failure + GraphEvaluation" where
  "EvaluateGraph H iter loaded d graphPath data supplied options =
     (if length (Structural iter loaded d) > 0 then Inl (unclassed ''JPS-GRAPH-INVALID'' ExitInvalid)
      else
        (let order = fst (Order iter d); selection = SelectGraphContract (host.truncate H) loaded d order
         in refuseIf (case selection of Inl f \<Rightarrow> if fCode f = ''profile-unsupported'' then Some f else None | Inr c \<Rightarrow> None)
              (andThen (parseInputs H data supplied d) (\<lambda>perNode.
                refuseIf (callerConflicts perNode (gdEdges d))
                  (andThen selection (\<lambda>c.
                    if ecSpecVersion (goContract options) \<noteq> [] \<and> goContract options \<noteq> c then Inl mixedContractFailure
                    else andThen (runNodes H loaded options d perNode c (length order) order startRun) (\<lambda>r.
                      conclude H options c r (composite H loaded options d graphPath c (grNodes r)))))))))"

end
