(* ===== verification/Graph_Laws.thy ===== *)
theory Graph_Laws
  imports Graph_Evaluation
begin

section \<open>Judgment graphs: what an evaluation establishes\<close>

text \<open>
  The assembly of a node's facts writes every upstream outcome at its pointer and nothing else, and
  cannot fail once the structural checks and the collision check have passed; a run that succeeds is
  the one assignment of results to nodes in which every node is the engine's evaluation of its pack
  against the inputs assembled from the results of the nodes that feed it.
\<close>

subsection \<open>Steps that may refuse\<close>

lemma andThen_Inr [simp]: "andThen r f = Inr y \<longleftrightarrow> (\<exists>x. r = Inr x \<and> f x = Inr y)"
  by (cases r) simp_all

lemma andThen_Inl: "andThen r f = Inl e \<longleftrightarrow> r = Inl e \<or> (\<exists>x. r = Inr x \<and> f x = Inl e)"
  by (cases r) simp_all

lemma refuseIf_Inr [simp]: "refuseIf r x = Inr y \<longleftrightarrow> r = None \<and> x = Inr y"
  by (cases r) simp_all

subsection \<open>Assembly\<close>

text \<open>The in-edges of a node that feed a fact, and whether one writes.\<close>

definition factEdge :: "string \<Rightarrow> Edge \<Rightarrow> bool" where
  "factEdge k e \<longleftrightarrow> egTo e = k \<and> egFact e \<noteq> []"

abbreviation path :: "Edge \<Rightarrow> string list" where
  "path e \<equiv> pointerTokens (egFact e)"

abbreviation yields :: "(string \<Rightarrow> Disposition option) \<Rightarrow> Edge \<Rightarrow> bool" where
  "yields dispositions e \<equiv> upstreamKind (dispositions (egFrom e)) = ''outcome''"

text \<open>No fact edge of the list is entangled with another, and each can be written.\<close>

fun apartEdges :: "string \<Rightarrow> Edge list \<Rightarrow> bool" where
  "apartEdges k [] = True"
| "apartEdges k (e # es) \<longleftrightarrow>
     (factEdge k e \<longrightarrow> (\<forall>b \<in> set es. factEdge k b \<longrightarrow> \<not> entangled (path e) (path b))) \<and> apartEdges k es"

definition writable :: "string \<Rightarrow> Edge list \<Rightarrow> json \<Rightarrow> bool" where
  "writable k es v \<longleftrightarrow> (\<forall>e \<in> set es. factEdge k e \<longrightarrow> (\<exists>m. v = JObject m \<and> \<not> collides m (path e)))"

lemma feedEvidenceEdge_frame:
  "feedEvidenceEdge u e f a = Inr a' \<Longrightarrow> asFacts a' = asFacts a \<and> asOversized a' = asOversized a"
  "feedEvidenceEdge u e f a = Inl x \<Longrightarrow> x = evidenceConflict"
  by (auto simp: feedEvidenceEdge_def Let_def split: if_splits)

lemma feedFactEdge_cases:
  assumes "writable k (e # es) (asFacts a)" "factEdge k e"
  obtains m where "asFacts a = JObject m" "\<not> collides m (path e)"
  using assms by (auto simp: writable_def)

text \<open>One edge: a fact edge of an outcome writes it unless the budget is spent.\<close>

lemma feedFactEdge_exact:
  assumes "asFacts a = JObject m" "\<not> collides m (path e)"
  shows "\<exists>a'. feedFactEdge allowed u e a = Inr a' \<and> (asOversized a \<longrightarrow> asOversized a') \<and>
    (if upstreamKind u = ''outcome'' \<and> \<not> asOversized a'
     then \<exists>m'. inject m (path e) (JString (upstreamOutcome u)) = Some m' \<and> asFacts a' = JObject m'
     else asFacts a' = asFacts a)"
proof -
  obtain m' where m': "inject m (path e) (JString (upstreamOutcome u)) = Some m'"
    using collides_iff[of "path e" m] assms(2) by (auto simp: not_None_eq)
  then have i: "injectFact m (egFact e) (upstreamOutcome u) = Some m'" by (simp add: injectFact_tokens)
  show ?thesis
    by (cases "upstreamKind u = ''outcome''"; cases "asOversized a";
        cases "overInjectionBudget (asInjected a + length (upstreamOutcome u)) allowed")
       (simp_all add: feedFactEdge_def Let_def assms(1) i m')
qed

lemma writable_inject:
  assumes "inject m (path e) v = Some m'" "writable k es (JObject m)"
    "\<forall>b \<in> set es. factEdge k b \<longrightarrow> \<not> entangled (path e) (path b)"
  shows "writable k es (JObject m')"
  using assms collides_frame[OF assms(1)] by (auto simp: writable_def)

lemma feedEdge_step:
  assumes "factEdge k e" "writable k (e # es) (asFacts a)"
    "\<forall>b \<in> set es. factEdge k b \<longrightarrow> \<not> entangled (path e) (path b)"
  shows "(\<exists>x. feedEdge allowed dispositions e a = Inl x \<and> x = evidenceConflict) \<or>
    (\<exists>a'. feedEdge allowed dispositions e a = Inr a' \<and> writable k es (asFacts a') \<and>
       (asOversized a \<longrightarrow> asOversized a') \<and>
       (\<forall>us. \<not> (yields dispositions e \<and> entangled (path e) us) \<longrightarrow>
          resolveTokens us (asFacts a') = resolveTokens us (asFacts a)) \<and>
       (yields dispositions e \<and> \<not> asOversized a' \<longrightarrow>
          resolveTokens (path e) (asFacts a') = Some (JString (upstreamOutcome (dispositions (egFrom e))))))"
proof -
  let ?u = "dispositions (egFrom e)"
  obtain m where m: "asFacts a = JObject m" "\<not> collides m (path e)" using feedFactEdge_cases[OF assms(2,1)] .
  obtain a1 where a1: "feedFactEdge allowed ?u e a = Inr a1" "asOversized a \<longrightarrow> asOversized a1"
    "if yields dispositions e \<and> \<not> asOversized a1
     then \<exists>m'. inject m (path e) (JString (upstreamOutcome ?u)) = Some m' \<and> asFacts a1 = JObject m'
     else asFacts a1 = asFacts a"
    using feedFactEdge_exact[OF m] by blast
  have w: "writable k es (JObject m)" using assms(2) m by (simp add: writable_def)
  have facts: "writable k es (asFacts a1) \<and>
       (\<forall>us. \<not> (yields dispositions e \<and> entangled (path e) us) \<longrightarrow>
          resolveTokens us (asFacts a1) = resolveTokens us (asFacts a)) \<and>
       (yields dispositions e \<and> \<not> asOversized a1 \<longrightarrow>
          resolveTokens (path e) (asFacts a1) = Some (JString (upstreamOutcome ?u)))"
  proof (cases "yields dispositions e \<and> \<not> asOversized a1")
    case True
    then obtain m' where m': "inject m (path e) (JString (upstreamOutcome ?u)) = Some m'" "asFacts a1 = JObject m'"
      using a1(3) by auto
    have "resolveTokens (path e) (asFacts a1) = Some (JString (upstreamOutcome ?u))"
      using inject_resolves[OF _ m'(1)] m'(2) by simp
    moreover have "\<forall>us. \<not> entangled (path e) us \<longrightarrow> resolveTokens us (asFacts a1) = resolveTokens us (asFacts a)"
      using inject_frame[OF m'(1)] m(1) m'(2) by simp
    moreover have "writable k es (asFacts a1)" using writable_inject[OF m'(1) w assms(3)] m'(2) by simp
    ultimately show ?thesis using True by blast
  next
    case False
    then have "asFacts a1 = asFacts a" using a1(3) by (simp only: if_False)
    then show ?thesis using False w m(1) by auto
  qed
  have "egFact e \<noteq> []" using assms(1) by (simp add: factEdge_def)
  then have step: "feedEdge allowed dispositions e a =
      (case egEvidence e of None \<Rightarrow> Inr a1 | Some f \<Rightarrow> feedEvidenceEdge ?u e f a1)"
    by (simp add: feedEdge_def Let_def a1(1))
  show ?thesis
  proof (cases "egEvidence e")
    case None
    then show ?thesis using step facts a1(2) by simp
  next
    case (Some f)
    show ?thesis
    proof (cases "feedEvidenceEdge ?u e f a1")
      case (Inl x)
      then show ?thesis using step Some feedEvidenceEdge_frame(2)[OF Inl] by simp
    next
      case (Inr a2)
      then show ?thesis using step Some facts a1(2) feedEvidenceEdge_frame(1)[OF Inr] by simp
    qed
  qed
qed

lemma feedEdge_other:
  assumes "egFact e = []"
  shows "(\<exists>x. feedEdge allowed dispositions e a = Inl x \<and> x = evidenceConflict) \<or>
    (\<exists>a'. feedEdge allowed dispositions e a = Inr a' \<and> asFacts a' = asFacts a \<and> asOversized a' = asOversized a)"
proof (cases "egEvidence e")
  case None
  then show ?thesis using assms by (simp add: feedEdge_def Let_def)
next
  case (Some f)
  then have "feedEdge allowed dispositions e a = feedEvidenceEdge (dispositions (egFrom e)) e f a"
    using assms by (simp add: feedEdge_def Let_def)
  then show ?thesis
    using feedEvidenceEdge_frame[of "dispositions (egFrom e)" e f a]
    by (cases "feedEvidenceEdge (dispositions (egFrom e)) e f a") auto
qed

text \<open>All edges of a node: facts never conflict, what is fed is found at its pointer, and the rest is as
  it was.\<close>

lemma feedEdges_exact:
  "apartEdges k es \<Longrightarrow> writable k es (asFacts a) \<Longrightarrow>
   (feedEdges allowed dispositions k es a = Inl evidenceConflict) \<or>
   (\<exists>a'. feedEdges allowed dispositions k es a = Inr a' \<and> (asOversized a \<longrightarrow> asOversized a') \<and>
      (\<forall>us. (\<forall>e \<in> set es. factEdge k e \<and> yields dispositions e \<longrightarrow> \<not> entangled (path e) us) \<longrightarrow>
         resolveTokens us (asFacts a') = resolveTokens us (asFacts a)) \<and>
      (\<not> asOversized a' \<longrightarrow> (\<forall>e \<in> set es. factEdge k e \<and> yields dispositions e \<longrightarrow>
         resolveTokens (path e) (asFacts a') = Some (JString (upstreamOutcome (dispositions (egFrom e)))))))"
proof (induction es arbitrary: a)
  case (Cons e es)
  have tail: "apartEdges k es" "writable k es (asFacts a)"
    using Cons.prems by (auto simp: writable_def)
  show ?case
  proof (cases "factEdge k e")
    case False
    show ?thesis
    proof (cases "egTo e = k")
      case True
      with False have "egFact e = []" by (simp add: factEdge_def)
      from feedEdge_other[OF this, of allowed dispositions a] show ?thesis
      proof (elim disjE exE conjE)
        fix a1 assume a1: "feedEdge allowed dispositions e a = Inr a1" "asFacts a1 = asFacts a" "asOversized a1 = asOversized a"
        with Cons.IH[OF tail(1), of a1] tail(2) True False show ?thesis by simp
      qed (use True in simp)
    next
      case away: False
      then show ?thesis using Cons.IH[OF tail] False by simp
    qed
  next
    case True
    then have k: "egTo e = k" and sep: "\<forall>b \<in> set es. factEdge k b \<longrightarrow> \<not> entangled (path e) (path b)"
      using Cons.prems by (auto simp: factEdge_def)
    from feedEdge_step[OF True Cons.prems(2) sep, of allowed dispositions] show ?thesis
    proof (elim disjE exE conjE)
      fix a1
      assume a1: "feedEdge allowed dispositions e a = Inr a1" "writable k es (asFacts a1)" "asOversized a \<longrightarrow> asOversized a1"
        "\<forall>us. \<not> (yields dispositions e \<and> entangled (path e) us) \<longrightarrow>
          resolveTokens us (asFacts a1) = resolveTokens us (asFacts a)"
        "yields dispositions e \<and> \<not> asOversized a1 \<longrightarrow>
          resolveTokens (path e) (asFacts a1) = Some (JString (upstreamOutcome (dispositions (egFrom e))))"
      from Cons.IH[OF tail(1) a1(2)] show ?thesis
      proof (elim disjE exE conjE)
        assume "feedEdges allowed dispositions k es a1 = Inl evidenceConflict"
        with a1(1) k show ?thesis by simp
      next
        fix a2
        assume a2: "feedEdges allowed dispositions k es a1 = Inr a2" "asOversized a1 \<longrightarrow> asOversized a2"
          "\<forall>us. (\<forall>e \<in> set es. factEdge k e \<and> yields dispositions e \<longrightarrow> \<not> entangled (path e) us) \<longrightarrow>
             resolveTokens us (asFacts a2) = resolveTokens us (asFacts a1)"
          "\<not> asOversized a2 \<longrightarrow> (\<forall>e \<in> set es. factEdge k e \<and> yields dispositions e \<longrightarrow>
             resolveTokens (path e) (asFacts a2) = Some (JString (upstreamOutcome (dispositions (egFrom e)))))"
        have "entangled (path b) (path e) = entangled (path e) (path b)" for b by (auto simp: entangled_def)
        with sep have keep: "resolveTokens (path e) (asFacts a2) = resolveTokens (path e) (asFacts a1)"
          using a2(3) by blast
        show ?thesis
          using a1 a2 k True keep
          by (intro disjI2 exI[of _ a2] conjI) (simp, blast, simp, auto)
      qed
    qed (use k in simp)
  qed
qed simp

lemma free_absent: "ts \<noteq> [] \<Longrightarrow> \<not> collides m ts \<Longrightarrow> resolveTokens ts (JObject m) = None"
proof (induction m ts rule: collides.induct)
  case (3 m token t ts)
  show ?case
  proof (cases "map_of m token")
    case (Some w)
    with 3 show ?thesis by (cases w) auto
  qed simp
qed (auto simp: hasMember_def)

text \<open>What the gates before a run give for each node.\<close>

lemma entangled_sym: "entangled a b = entangled b a"
  by (auto simp: entangled_def)

lemma apartEdges_nth:
  "(\<And>i b. i < length es \<Longrightarrow> b \<in> set (take i es) \<Longrightarrow> factEdge k (es ! i) \<Longrightarrow> factEdge k b \<Longrightarrow>
     \<not> entangled (path b) (path (es ! i))) \<Longrightarrow> apartEdges k es"
proof (induction es)
  case (Cons e es)
  have "\<not> entangled (path e) (path b)" if b: "factEdge k e" "b \<in> set es" "factEdge k b" for b
  proof -
    obtain i where "i < length es" "b = es ! i" using b by (auto simp: in_set_conv_nth)
    with Cons.prems[of "Suc i" e] b show ?thesis by simp
  qed
  moreover have "apartEdges k es"
  proof (rule Cons.IH)
    fix i b
    assume "i < length es" "b \<in> set (take i es)" "factEdge k (es ! i)" "factEdge k b"
    with Cons.prems[of "Suc i" b] show "\<not> entangled (path b) (path (es ! i))" by simp
  qed
  ultimately show ?case by simp
qed simp

lemma soundGraph_apart:
  assumes "soundGraph loaded d"
  shows "apartEdges k (gdEdges d)"
proof (rule apartEdges_nth)
  fix i b
  assume i: "i < length (gdEdges d)" and b: "b \<in> set (take i (gdEdges d))"
    and f: "factEdge k (gdEdges d ! i)" "factEdge k b"
  have "soundEdge d (take i (gdEdges d)) (gdEdges d ! i)" using assms i by (simp add: soundGraph_def)
  moreover have "feedsFact d k b" using f calculation by (auto simp: feedsFact_def factEdge_def soundEdge_def)
  ultimately show "\<not> entangled (path b) (path (gdEdges d ! i))"
    using f b by (auto simp: soundEdge_def factEdge_def)
qed

lemma callerConflicts_none:
  assumes "callerConflicts perNode es = None" "e \<in> set es" "egFact e \<noteq> []" "niFactsSupplied (perNode (egTo e))"
  shows "\<exists>m. niFacts (perNode (egTo e)) = JObject m \<and> \<not> collides m (path e)"
  using assms
proof (induction es)
  case (Cons b es)
  then show ?case
    by (cases "e = b") (auto simp: Let_def callerCollision_def split: if_splits option.splits)
qed simp

lemma collides_empty: "\<not> collides [] ts"
  by (cases ts rule: list.exhaust; cases "tl ts") auto

lemma writable_start:
  assumes "callerConflicts perNode es = None"
  shows "writable k es (asFacts (startAssembly (perNode k)))"
  using callerConflicts_none[OF assms] collides_empty
  by (auto simp: writable_def factEdge_def startAssembly_def)

lemma apartEdges_apart:
  "apartEdges k es \<Longrightarrow> e \<in> set es \<Longrightarrow> b \<in> set es \<Longrightarrow> factEdge k e \<Longrightarrow> factEdge k b \<Longrightarrow> e \<noteq> b \<Longrightarrow>
   \<not> entangled (path e) (path b)"
  by (induction es) (auto simp: entangled_sym)

definition fedValue :: "Disposition option \<Rightarrow> json option" where
  "fedValue u = (if upstreamKind u = ''outcome'' then Some (JString (upstreamOutcome u)) else None)"

lemma assemble_parts:
  assumes sound: "soundGraph loaded d" and free: "callerConflicts perNode (gdEdges d) = None"
  shows "assemble options d perNode dispositions k = Inl evidenceConflict \<or>
    (\<exists>a. assemble options d perNode dispositions k = Inr a \<and>
       (\<forall>us. (\<forall>e \<in> set (gdEdges d). egTo e = k \<and> egFact e \<noteq> [] \<longrightarrow> \<not> entangled (path e) us) \<longrightarrow>
          resolveTokens us (asFacts a) = resolveTokens us (asFacts (startAssembly (perNode k)))) \<and>
       (\<not> asOversized a \<longrightarrow> (\<forall>e \<in> set (gdEdges d). egTo e = k \<and> egFact e \<noteq> [] \<longrightarrow>
          resolveTokens (path e) (asFacts a) = fedValue (dispositions (egFrom e)))))"
proof -
  let ?s = "startAssembly (perNode k)"
  note ap = soundGraph_apart[OF sound, of k] and wr = writable_start[OF free, of k]
  from feedEdges_exact[OF ap wr, of "injectionBudget options" dispositions] show ?thesis
  proof (elim disjE exE conjE)
    fix a
    assume a: "feedEdges (injectionBudget options) dispositions k (gdEdges d) ?s = Inr a"
      and frame: "\<forall>us. (\<forall>e \<in> set (gdEdges d). factEdge k e \<and> yields dispositions e \<longrightarrow> \<not> entangled (path e) us) \<longrightarrow>
         resolveTokens us (asFacts a) = resolveTokens us (asFacts ?s)"
      and fed: "\<not> asOversized a \<longrightarrow> (\<forall>e \<in> set (gdEdges d). factEdge k e \<and> yields dispositions e \<longrightarrow>
         resolveTokens (path e) (asFacts a) = Some (JString (upstreamOutcome (dispositions (egFrom e)))))"
    have "resolveTokens (path e) (asFacts a) = fedValue (dispositions (egFrom e))"
      if over: "\<not> asOversized a" and e: "e \<in> set (gdEdges d)" "egTo e = k" "egFact e \<noteq> []" for e
    proof (cases "yields dispositions e")
      case True
      with fed over e show ?thesis by (simp add: factEdge_def fedValue_def)
    next
      case False
      have "factEdge k e" using e by (simp add: factEdge_def)
      with apartEdges_apart[OF ap _ e(1)] False
      have "\<forall>b \<in> set (gdEdges d). factEdge k b \<and> yields dispositions b \<longrightarrow> \<not> entangled (path b) (path e)" by metis
      then have "resolveTokens (path e) (asFacts a) = resolveTokens (path e) (asFacts ?s)" using frame by blast
      moreover obtain m where "asFacts ?s = JObject m" "\<not> collides m (path e)"
        using wr e by (auto simp: writable_def factEdge_def)
      ultimately show ?thesis using False by (simp add: fedValue_def free_absent)
    qed
    then show ?thesis using a frame by (auto simp: assemble_def factEdge_def)
  qed (simp add: assemble_def)
qed

text \<open>What an object of evidence says of a requirement, and the requirements fed to a node.\<close>

definition told :: "object option \<Rightarrow> string \<Rightarrow> json option" where
  "told given name = (case given of None \<Rightarrow> None | Some m \<Rightarrow> map_of m name)"

definition feeding :: "string \<Rightarrow> Edge list \<Rightarrow> Edge \<Rightarrow> EvidenceFeed \<Rightarrow> bool" where
  "feeding k es e f \<longleftrightarrow> e \<in> set es \<and> egTo e = k \<and> egEvidence e = Some f"

lemma feeding_simps [simp]:
  "\<not> feeding k [] e f"
  "feeding k (b # es) e f \<longleftrightarrow> (e = b \<and> egTo b = k \<and> egEvidence b = Some f) \<or> feeding k es e f"
  by (auto simp: feeding_def)

text \<open>No two edges of the list feed one requirement.\<close>

fun apartFeeds :: "string \<Rightarrow> Edge list \<Rightarrow> bool" where
  "apartFeeds k [] = True"
| "apartFeeds k (e # es) \<longleftrightarrow>
     (\<forall>f b g. egTo e = k \<and> egEvidence e = Some f \<and> feeding k es b g \<longrightarrow> efID g \<noteq> efID f) \<and> apartFeeds k es"

lemma feedFactEdge_evidence:
  "feedFactEdge allowed u e a = Inr a' \<Longrightarrow> asEvidence a' = asEvidence a"
  "feedFactEdge allowed u e a = Inl x \<Longrightarrow> x = factConflict"
  by (auto simp: feedFactEdge_def Let_def split: if_splits option.splits)

lemma conflicts_differ [simp]: "factConflict \<noteq> evidenceConflict" "evidenceConflict \<noteq> factConflict"
  by (simp_all add: factConflict_def evidenceConflict_def unclassed_def)

lemma feedEvidenceEdge_exact:
  "case feedEvidenceEdge u e f a of
     Inl x \<Rightarrow> told (asEvidence a) (efID f) \<noteq> None
   | Inr a' \<Rightarrow> told (asEvidence a) (efID f) = None \<and>
       told (asEvidence a') = (told (asEvidence a))(efID f \<mapsto> JString (State f (upstreamKind u)))"
  by (auto simp: feedEvidenceEdge_def Let_def told_def fun_eq_iff map_of_setMember hasMember_def split: option.splits)

lemma feedEdge_evidence:
  "case feedEdge allowed dispositions e a of
     Inl x \<Rightarrow> x = evidenceConflict \<longrightarrow> (\<exists>f. egEvidence e = Some f \<and> told (asEvidence a) (efID f) \<noteq> None)
   | Inr a' \<Rightarrow> (case egEvidence e of
        None \<Rightarrow> told (asEvidence a') = told (asEvidence a)
      | Some f \<Rightarrow> told (asEvidence a) (efID f) = None \<and>
          told (asEvidence a') = (told (asEvidence a))(efID f \<mapsto> JString (State f (upstreamKind (dispositions (egFrom e))))))"
proof -
  let ?u = "dispositions (egFrom e)"
  consider x where "feedEdge allowed dispositions e a = Inl x" "x = factConflict"
    | a1 where "asEvidence a1 = asEvidence a"
        "feedEdge allowed dispositions e a = (case egEvidence e of None \<Rightarrow> Inr a1 | Some f \<Rightarrow> feedEvidenceEdge ?u e f a1)"
  proof (cases "egFact e = []")
    case True
    then show thesis using that(2)[of a] by (simp add: feedEdge_def Let_def)
  next
    case False
    then show thesis using that feedFactEdge_evidence[of allowed ?u e a]
      by (cases "feedFactEdge allowed ?u e a") (auto simp: feedEdge_def Let_def)
  qed
  then show ?thesis
  proof cases
    case (2 a1)
    show ?thesis
    proof (cases "egEvidence e")
      case (Some f)
      with 2 feedEvidenceEdge_exact[where u = ?u and e = e and f = f and a = a1] show ?thesis by (auto split: sum.splits)
    qed (use 2 in simp)
  qed simp
qed

text \<open>All edges of a node: a refusal is a requirement that was already told, and otherwise every fed
  requirement has its state and the others say what they said.\<close>

lemma feedEdges_evidence:
  "apartFeeds k es \<Longrightarrow>
   case feedEdges allowed dispositions k es a of
     Inl x \<Rightarrow> x = evidenceConflict \<longrightarrow> (\<exists>e f. feeding k es e f \<and> told (asEvidence a) (efID f) \<noteq> None)
   | Inr a' \<Rightarrow>
       (\<forall>e f. feeding k es e f \<longrightarrow> told (asEvidence a) (efID f) = None \<and>
          told (asEvidence a') (efID f) = Some (JString (State f (upstreamKind (dispositions (egFrom e)))))) \<and>
       (\<forall>name. (\<forall>e f. feeding k es e f \<longrightarrow> efID f \<noteq> name) \<longrightarrow> told (asEvidence a') name = told (asEvidence a) name)"
proof (induction es arbitrary: a)
  case (Cons e es)
  show ?case
  proof (cases "egTo e = k")
    case False
    with Cons.IH[of a] Cons.prems show ?thesis by (cases "feedEdges allowed dispositions k es a") simp_all
  next
    case True
    show ?thesis
    proof (cases "feedEdge allowed dispositions e a")
      case (Inl x)
      with True feedEdge_evidence[where allowed = allowed and dispositions = dispositions and e = e and a = a] show ?thesis by auto
    next
      case (Inr a1)
      show ?thesis
      proof (cases "egEvidence e")
        case None
        with Inr feedEdge_evidence[where allowed = allowed and dispositions = dispositions and e = e and a = a] have "told (asEvidence a1) = told (asEvidence a)" by simp
        with Cons.IH[of a1] Cons.prems True Inr None show ?thesis by (simp split: sum.splits)
      next
        case (Some f)
        with Inr feedEdge_evidence[where allowed = allowed and dispositions = dispositions and e = e and a = a] have
          new: "told (asEvidence a) (efID f) = None"
          and now: "told (asEvidence a1) = (told (asEvidence a))(efID f \<mapsto> JString (State f (upstreamKind (dispositions (egFrom e)))))"
          by simp_all
        have sep: "efID g \<noteq> efID f" if "feeding k es b g" for b g using Cons.prems True Some that by auto
        have same: "told (asEvidence a1) (efID g) = told (asEvidence a) (efID g)" if "feeding k es b g" for b g
          using sep[OF that] by (simp add: now)
        have step: "feedEdges allowed dispositions k (e # es) a = feedEdges allowed dispositions k es a1"
          using True Inr by simp
        have IH: "apartFeeds k es" using Cons.prems by simp
        show ?thesis
        proof (cases "feedEdges allowed dispositions k es a1")
          case (Inl x)
          note refused = Cons.IH[OF IH, of a1, unfolded Inl sum.case]
          have "\<exists>b g. feeding k (e # es) b g \<and> told (asEvidence a) (efID g) \<noteq> None" if "x = evidenceConflict"
          proof -
            from refused that obtain b g where "feeding k es b g" "told (asEvidence a1) (efID g) \<noteq> None" by blast
            with same[OF this(1)] show ?thesis by (intro exI[of _ b] exI[of _ g]) simp
          qed
          then show ?thesis unfolding step Inl sum.case by blast
        next
          case (Inr a2)
          note rest = Cons.IH[OF IH, of a1, unfolded Inr sum.case]
          have "told (asEvidence a2) (efID f) = told (asEvidence a1) (efID f)" using rest sep by blast
          with rest same new now True Some show ?thesis unfolding step Inr sum.case by auto
        qed
      qed
    qed
  qed
qed simp

lemma apartFeeds_nth:
  "(\<And>i b f g. i < length es \<Longrightarrow> feeding k (take i es) b g \<Longrightarrow> egTo (es ! i) = k \<Longrightarrow> egEvidence (es ! i) = Some f \<Longrightarrow>
     efID g \<noteq> efID f) \<Longrightarrow> apartFeeds k es"
proof (induction es)
  case (Cons e es)
  have "efID g \<noteq> efID f" if b: "egTo e = k" "egEvidence e = Some f" "feeding k es b g" for f b g
  proof -
    obtain i where "i < length es" "b = es ! i" using b(3) by (auto simp: feeding_def in_set_conv_nth)
    with Cons.prems[of "Suc i" e f g] b show ?thesis by (auto simp: feeding_def)
  qed
  moreover have "apartFeeds k es"
  proof (rule Cons.IH)
    fix i b f g
    assume "i < length es" "feeding k (take i es) b g" "egTo (es ! i) = k" "egEvidence (es ! i) = Some f"
    with Cons.prems[of "Suc i" b g f] show "efID g \<noteq> efID f" by simp
  qed
  ultimately show ?case by auto
qed simp

lemma soundGraph_feeds:
  assumes "soundGraph loaded d"
  shows "apartFeeds k (gdEdges d)"
proof (rule apartFeeds_nth)
  fix i b f g
  assume i: "i < length (gdEdges d)" and b: "feeding k (take i (gdEdges d)) b g"
    and e: "egTo (gdEdges d ! i) = k" "egEvidence (gdEdges d ! i) = Some f"
  have "soundEdge d (take i (gdEdges d)) (gdEdges d ! i)" using assms i by (simp add: soundGraph_def)
  then show "efID g \<noteq> efID f"
    using b e by (auto simp: soundEdge_def feedsRequirement_def feeding_def)
qed

text \<open>The evidence of a node, whatever the facts of its edges do.\<close>

lemma assemble_evidence:
  assumes "soundGraph loaded d"
  shows "case assemble options d perNode dispositions k of
     Inl x \<Rightarrow> x = evidenceConflict \<longrightarrow> (\<exists>e f. feeding k (gdEdges d) e f \<and> told (niEvidence (perNode k)) (efID f) \<noteq> None)
   | Inr a \<Rightarrow>
       (\<forall>e f. feeding k (gdEdges d) e f \<longrightarrow> told (niEvidence (perNode k)) (efID f) = None \<and>
          told (asEvidence a) (efID f) = Some (JString (State f (upstreamKind (dispositions (egFrom e)))))) \<and>
       (\<forall>name. (\<forall>e f. feeding k (gdEdges d) e f \<longrightarrow> efID f \<noteq> name) \<longrightarrow>
          told (asEvidence a) name = told (niEvidence (perNode k)) name)"
  using feedEdges_evidence[OF soundGraph_feeds[OF assms, of k], where allowed = "injectionBudget options"
      and dispositions = dispositions and a = "startAssembly (perNode k)"]
  by (cases "assemble options d perNode dispositions k") (simp_all add: assemble_def startAssembly_def)

subsection \<open>The run\<close>

text \<open>What is assembled depends on the nodes that feed it alone.\<close>

lemma feedEdges_cong:
  "(\<And>e. e \<in> set es \<Longrightarrow> egTo e = k \<Longrightarrow> D (egFrom e) = D' (egFrom e)) \<Longrightarrow>
   feedEdges allowed D k es a = feedEdges allowed D' k es a"
proof (induction es arbitrary: a)
  case (Cons e es)
  then have "feedEdges allowed D k es = feedEdges allowed D' k es" by (auto simp: fun_eq_iff)
  with Cons.prems show ?case by (simp add: feedEdge_def)
qed simp

lemma runNode_cong:
  assumes "\<And>e. e \<in> set (gdEdges d) \<Longrightarrow> egTo e = k \<Longrightarrow> D (egFrom e) = D' (egFrom e)"
  shows "runNode H loaded options d perNode c n D k = runNode H loaded options d perNode c n D' k"
proof -
  have "assemble options d perNode D k = assemble options d perNode D' k"
    unfolding assemble_def by (rule feedEdges_cong) (rule assms)
  then show ?thesis by (simp add: runNode_def)
qed

text \<open>The dispositions of the nodes of a list.\<close>

definition dispositionIn :: "GraphNodeEvaluation list \<Rightarrow> string \<Rightarrow> Disposition option" where
  "dispositionIn nodes k = map_of (map (\<lambda>node. (gnNode node, gnDisposition node)) nodes) k"

definition recorded :: "(string \<Rightarrow> Disposition option) \<Rightarrow> GraphNodeEvaluation list \<Rightarrow> string \<Rightarrow> Disposition option" where
  "recorded D nodes = foldl (\<lambda>m node. m(gnNode node \<mapsto> gnDisposition node)) D nodes"

lemma dispositionIn_None: "dispositionIn nodes k = None \<longleftrightarrow> k \<notin> gnNode ` set nodes"
  by (simp add: dispositionIn_def map_of_eq_None_iff image_image)

lemma recorded_lookup:
  "distinct (map gnNode nodes) \<Longrightarrow> recorded D nodes k = (case dispositionIn nodes k of None \<Rightarrow> D k | Some x \<Rightarrow> Some x)"
proof (induction nodes arbitrary: D)
  case (Cons node nodes)
  have "dispositionIn nodes (gnNode node) = None"
    using Cons.prems by (simp add: dispositionIn_None)
  with Cons show ?case by (auto simp: recorded_def dispositionIn_def split: option.split)
qed (simp add: recorded_def dispositionIn_def)

lemma dispositionIn_take:
  assumes "distinct (map gnNode nodes)" "k \<in> set (map gnNode (take i nodes))"
  shows "dispositionIn (take i nodes) k = dispositionIn nodes k"
proof -
  have "dispositionIn nodes k = (map_of (map (\<lambda>node. (gnNode node, gnDisposition node)) (drop i nodes)) ++
      map_of (map (\<lambda>node. (gnNode node, gnDisposition node)) (take i nodes))) k"
    by (metis append_take_drop_id dispositionIn_def map_append map_of_append)
  moreover have "dispositionIn (take i nodes) k \<noteq> None"
    using assms(2) by (simp add: dispositionIn_None)
  ultimately show ?thesis by (auto simp: dispositionIn_def map_add_def split: option.split)
qed

lemma runNode_named:
  "runNode H loaded options d perNode c n D k = Inr (node, h, packBytes) \<Longrightarrow> gnNode node = k"
  by (auto simp: runNode_def nodeEvaluationOf_def)

lemma runNodes_exact:
  "runNodes H loaded options d perNode c n ks r = Inr r' \<Longrightarrow>
   \<exists>ns. grNodes r' = grNodes r @ ns \<and> map gnNode ns = ks \<and>
     (\<forall>i < length ns. \<exists>h packBytes.
        runNode H loaded options d perNode c (n + i) (recorded (grDispositions r) (take i ns)) (ks ! i) = Inr (ns ! i, h, packBytes))"
proof (induction ks arbitrary: n r)
  case (Cons k ks)
  then obtain node h packBytes spent records where
    node: "runNode H loaded options d perNode c n (grDispositions r) k = Inr (node, h, packBytes)" and
    rest: "runNodes H loaded options d perNode c (n + 1) ks
       \<lparr>grDispositions = (grDispositions r)(k \<mapsto> gnDisposition node), grNodes = grNodes r @ [node],
        grRecords = grRecords r @ records, grReportBytes = spent\<rparr> = Inr r'"
    by auto
  from Cons.IH[OF rest, unfolded graphRun.select_convs] obtain ns where
    ns: "grNodes r' = (grNodes r @ [node]) @ ns" "map gnNode ns = ks"
    and later: "\<forall>i < length ns. \<exists>h packBytes. runNode H loaded options d perNode c (n + 1 + i)
        (recorded ((grDispositions r)(k \<mapsto> gnDisposition node)) (take i ns)) (ks ! i) = Inr (ns ! i, h, packBytes)"
    by blast
  have k: "gnNode node = k" by (rule runNode_named[OF node])
  have runs: "\<exists>h packBytes. runNode H loaded options d perNode c (n + i) (recorded (grDispositions r) (take i (node # ns))) ((k # ks) ! i)
      = Inr ((node # ns) ! i, h, packBytes)" if "i < length (node # ns)" for i
  proof (cases i)
    case 0
    with node show ?thesis by (simp add: recorded_def)
  next
    case (Suc j)
    have "recorded (grDispositions r) (node # take j ns) = recorded ((grDispositions r)(k \<mapsto> gnDisposition node)) (take j ns)"
      by (simp add: recorded_def k)
    with Suc that later show ?thesis by simp
  qed
  have "grNodes r' = grNodes r @ node # ns" "map gnNode (node # ns) = k # ks" using ns k by simp_all
  with runs show ?case by (intro exI[of _ "node # ns"] conjI allI impI) assumption+
qed simp

lemma EvaluateWith_within: "EvaluateWith H pack facts evidenceText options = Inr ev \<Longrightarrow> \<not> oversized options ''facts''"
  by (auto simp: EvaluateWith_def EvaluateAdmitted_def evaluateInputs_def byteLimit_def Let_def case_prod_unfold
      split: option.splits if_splits)

text \<open>A node that was evaluated was handed the encoding of all of its assembled facts.\<close>

lemma runNode_handed:
  assumes "runNode H loaded options d perNode c n D k = Inr (node, h, packBytes)"
  shows "\<exists>a over ev. assemble options d perNode D k = Inr a \<and> \<not> asOversized a \<and> hEncode H (asFacts a) = Some (hdFacts h) \<and>
    EvaluateWith (host.truncate H) packBytes (hdFacts h) (hdEvidence h) (nodeOptions options c h over) = Inr ev \<and>
    gnDisposition node = evDisposition ev"
proof -
  from assms obtain over a ev where a: "assemble options d perNode D k = Inr a" and h: "handOver H (perNode k) a = Inr h"
    and ev: "EvaluateWith (host.truncate H) packBytes (hdFacts h) (hdEvidence h) (nodeOptions options c h over) = Inr ev"
    and node: "node = nodeEvaluationOf (host.truncate H) d k packBytes a ev"
    by (auto simp: runNode_def)
  have "\<not> hdFactsOversized h" using EvaluateWith_within[OF ev] by (auto simp: oversized_def nodeOptions_def)
  then have "\<not> asOversized a \<and> hEncode H (asFacts a) = Some (hdFacts h)"
    using h by (auto simp: handOver_def Let_def split: option.splits if_splits)
  with a ev node show ?thesis by (auto simp: nodeEvaluationOf_def)
qed

lemma EvaluateGraph_run:
  assumes "EvaluateGraph H iter loaded d graphPath data supplied options = Inr out"
  obtains perNode c r where "Structural iter loaded d = []" "parseInputs H data supplied d = Inr perNode"
    "callerConflicts perNode (gdEdges d) = None"
    "SelectGraphContract (host.truncate H) loaded d (fst (Order iter d)) = Inr c"
    "ecSpecVersion (goContract options) = [] \<or> goContract options = c"
    "runNodes H loaded options d perNode c (length (fst (Order iter d))) (fst (Order iter d)) startRun = Inr r"
    "out = composite H loaded options d graphPath c (grNodes r)" "conclude H options c r out = Inr out"
proof -
  have same: "conclude H options c r result = Inr out \<Longrightarrow> out = result" for c r result
    by (auto simp: conclude_def split: option.splits if_splits)
  from assms obtain perNode c r where "Structural iter loaded d = []" "parseInputs H data supplied d = Inr perNode"
    "callerConflicts perNode (gdEdges d) = None"
    "SelectGraphContract (host.truncate H) loaded d (fst (Order iter d)) = Inr c"
    "ecSpecVersion (goContract options) = [] \<or> goContract options = c"
    "runNodes H loaded options d perNode c (length (fst (Order iter d))) (fst (Order iter d)) startRun = Inr r"
    and ended: "conclude H options c r (composite H loaded options d graphPath c (grNodes r)) = Inr out"
    by (auto simp: EvaluateGraph_def Let_def split: if_splits)
  with same[OF ended] show thesis by (intro that[of perNode c r]) simp_all
qed

text \<open>A run, with the gates it has passed, and every node's result from the dispositions of the composite.\<close>

definition consistentRun :: "graphEngine \<Rightarrow> Project \<Rightarrow> GraphOptions \<Rightarrow> Document \<Rightarrow> inputs \<Rightarrow> EvaluatorContract
    \<Rightarrow> string list \<Rightarrow> GraphNodeEvaluation list \<Rightarrow> bool" where
  "consistentRun H loaded options d perNode c order nodes \<longleftrightarrow>
     map gnNode nodes = order \<and>
     (\<forall>i < length nodes. \<exists>h packBytes.
        runNode H loaded options d perNode c (length order + i) (dispositionIn nodes) (order ! i) = Inr (nodes ! i, h, packBytes))"

lemma runNodes_consistent:
  assumes iter: "\<And>xs :: string list. mset (iter xs) = mset xs" and dist: "distinct (map fst (gdNodes d))"
    and sound: "soundGraph loaded d" and order: "order = fst (Order iter d)"
    and run: "runNodes H loaded options d perNode c (length order) order startRun = Inr r"
  shows "consistentRun H loaded options d perNode c order (grNodes r)"
proof -
  have g: "gd.greedy d order"
    using Order_parts(1)[OF iter dist prod.collapse[symmetric]] by (simp add: order gd_greedy)
  from runNodes_exact[OF run] obtain ns where ns: "grNodes r = ns" "map gnNode ns = order"
    and each: "\<forall>i < length ns. \<exists>h packBytes. runNode H loaded options d perNode c (length order + i)
        (recorded (grDispositions startRun) (take i ns)) (order ! i) = Inr (ns ! i, h, packBytes)"
    by (auto simp: startRun_def)
  have dn: "distinct (map gnNode ns)" using gd.greedy_distinct[OF g] ns by simp
  have len: "length ns = length order" using ns(2) by (metis length_map)
  have "runNode H loaded options d perNode c (length order + i) (recorded (grDispositions startRun) (take i ns)) (order ! i) =
        runNode H loaded options d perNode c (length order + i) (dispositionIn ns) (order ! i)" if i: "i < length ns" for i
  proof (rule runNode_cong)
    fix e assume e: "e \<in> set (gdEdges d)" "egTo e = order ! i"
    then obtain j where "j < length (gdEdges d)" "e = gdEdges d ! j" by (auto simp: in_set_conv_nth)
    with sound have "relates d e" by (auto simp: soundGraph_def soundEdge_def relates_def)
    with e have "(egFrom e, order ! i) \<in> gd.arcs d" by (auto simp: gd_arcs feedsTo_def)
    then have "egFrom e \<in> set (take i order)" using gd.greedy_before[OF g] i len by simp
    then have u: "egFrom e \<in> set (map gnNode (take i ns))" by (simp add: ns(2)[symmetric] take_map)
    have "distinct (map gnNode (take i ns))" using dn by (simp add: take_map[symmetric])
    from recorded_lookup[OF this, of "grDispositions startRun" "egFrom e"] dispositionIn_take[OF dn u]
    show "recorded (grDispositions startRun) (take i ns) (egFrom e) = dispositionIn ns (egFrom e)"
      using u dispositionIn_None[of "take i ns" "egFrom e"] by (auto split: option.splits)
  qed
  with each ns show ?thesis by (simp add: consistentRun_def)
qed

lemma dispositionIn_result:
  assumes "distinct (map gnNode nodes)"
  shows "dispositionIn nodes k = (case filter (\<lambda>node. gnNode node = k) nodes of [] \<Rightarrow> None | ns \<Rightarrow> Some (gnDisposition (last ns)))"
  using assms
proof (induction nodes)
  case (Cons node nodes)
  have "filter (\<lambda>n. gnNode n = gnNode node) nodes = []" using Cons.prems by (auto simp: filter_empty_conv image_iff)
  with Cons show ?case by (auto simp: dispositionIn_def split: list.split)
qed (simp add: dispositionIn_def)

lemma EvaluateGraph_whole:
  assumes iter: "\<And>xs :: string list. mset (iter xs) = mset xs" and dist: "distinct (map fst (gdNodes d))"
    and plain: "plainIds d"
    and ok: "EvaluateGraph H iter loaded d graphPath data supplied options = Inr out"
  shows "soundGraph loaded d \<and> set (map gnNode (geNodes out)) = {k. declares d k} \<and>
    geDisposition out = dispositionIn (geNodes out) (gdResult d) \<and> geDisposition out \<noteq> None \<and>
    (\<exists>perNode c r. Structural iter loaded d = [] \<and> parseInputs H data supplied d = Inr perNode \<and>
       callerConflicts perNode (gdEdges d) = None \<and>
       SelectGraphContract (host.truncate H) loaded d (fst (Order iter d)) = Inr c \<and>
       (ecSpecVersion (goContract options) = [] \<or> goContract options = c) \<and>
       runNodes H loaded options d perNode c (length (fst (Order iter d))) (fst (Order iter d)) startRun = Inr r \<and>
       out = composite H loaded options d graphPath c (grNodes r) \<and> conclude H options c r out = Inr out \<and>
       consistentRun H loaded options d perNode c (fst (Order iter d)) (geNodes out))"
proof -
  from EvaluateGraph_run[OF ok] obtain perNode c r where s: "Structural iter loaded d = []"
    and p: "parseInputs H data supplied d = Inr perNode" "callerConflicts perNode (gdEdges d) = None"
      "SelectGraphContract (host.truncate H) loaded d (fst (Order iter d)) = Inr c"
      "ecSpecVersion (goContract options) = [] \<or> goContract options = c"
    and run: "runNodes H loaded options d perNode c (length (fst (Order iter d))) (fst (Order iter d)) startRun = Inr r"
    and out: "out = composite H loaded options d graphPath c (grNodes r)" and ended: "conclude H options c r out = Inr out" .
  have sound: "soundGraph loaded d" using Structural_iff[OF iter dist plain] s by simp
  have c: "consistentRun H loaded options d perNode c (fst (Order iter d)) (grNodes r)"
    by (rule runNodes_consistent[OF iter dist sound refl run])
  then have names: "map gnNode (grNodes r) = fst (Order iter d)" by (simp add: consistentRun_def)
  have g: "gd.greedy d (fst (Order iter d))" "\<And>v. \<not> gd.ready d (set (fst (Order iter d))) v"
    using Order_parts(1,2)[OF iter dist prod.collapse[symmetric]] by (auto simp: gd_greedy gd_ready)
  have "acyclic (feedsTo d)" using sound by (simp add: soundGraph_def)
  with gd.acyclic_iff_complete[OF g] have all: "set (fst (Order iter d)) = {k. declares d k}"
    by (simp add: gd_arcs) (simp add: declares_def image_def set_eq_iff)
  have dn: "distinct (map gnNode (grNodes r))" using gd.greedy_distinct[OF g(1)] names by simp
  have "gdResult d \<in> set (map gnNode (grNodes r))" using sound all names by (simp add: soundGraph_def)
  then have "dispositionIn (grNodes r) (gdResult d) \<noteq> None" by (simp add: dispositionIn_None)
  moreover have "geDisposition out = dispositionIn (grNodes r) (gdResult d)"
    using dispositionIn_result[OF dn, of "gdResult d"] by (auto simp: out composite_def Let_def split: list.splits)
  moreover have "geNodes out = grNodes r" by (simp add: out composite_def Let_def)
  moreover have "set (map gnNode (grNodes r)) = {k. declares d k}" using all names by simp
  ultimately show ?thesis using sound s p run out ended c by (intro conjI exI[of _ perNode] exI[of _ c] exI[of _ r]) simp_all
qed

text \<open>C8: A graph evaluation that succeeds has passed every gate, each with the values the later ones
  use: no structural diagnostic, inputs that parse, no caller document in the way of an edge, one
  contract for all packs that is the one asked for, every node's run, and the report's budget and
  audit trail. And it composes: it holds one result for every declared node, in the order of the
  graph, each the engine's evaluation of the node's pack against the inputs assembled from the
  results that the composite itself holds for the nodes that feed it, and its headline is the
  disposition of the declared result node.\<close>

theorem EvaluateGraph_composes:
  assumes iter: "\<And>xs :: string list. mset (iter xs) = mset xs" and dist: "distinct (map fst (gdNodes d))"
    and plain: "plainIds d"
    and ok: "EvaluateGraph H iter loaded d graphPath data supplied options = Inr out"
  shows "soundGraph loaded d \<and> set (map gnNode (geNodes out)) = {k. declares d k} \<and>
    geDisposition out = dispositionIn (geNodes out) (gdResult d) \<and> geDisposition out \<noteq> None \<and>
    (\<exists>perNode c r. Structural iter loaded d = [] \<and> parseInputs H data supplied d = Inr perNode \<and>
       callerConflicts perNode (gdEdges d) = None \<and>
       SelectGraphContract (host.truncate H) loaded d (fst (Order iter d)) = Inr c \<and>
       (ecSpecVersion (goContract options) = [] \<or> goContract options = c) \<and>
       runNodes H loaded options d perNode c (length (fst (Order iter d))) (fst (Order iter d)) startRun = Inr r \<and>
       out = composite H loaded options d graphPath c (grNodes r) \<and> conclude H options c r out = Inr out \<and>
       consistentRun H loaded options d perNode c (fst (Order iter d)) (geNodes out))"
  by (rule EvaluateGraph_whole[OF assms])

text \<open>C9: In a graph evaluation that succeeds, what a node was evaluated against is what its edges say:
  the facts handed to the engine have, at the pointer of every edge into it, the outcome that the
  composite holds for the node the edge comes from, and nothing there when that node has no outcome.\<close>

theorem EvaluateGraph_feeds:
  assumes "\<And>xs :: string list. mset (iter xs) = mset xs" "distinct (map fst (gdNodes d))" "plainIds d"
    "EvaluateGraph H iter loaded d graphPath data supplied options = Inr out" "node \<in> set (geNodes out)"
  shows "\<exists>facts packBytes factsBytes evidenceBytes given ev. hEncode H facts = Some factsBytes \<and>
    EvaluateWith (host.truncate H) packBytes factsBytes evidenceBytes given = Inr ev \<and>
    gnDisposition node = evDisposition ev \<and>
    (\<forall>e \<in> set (gdEdges d). egTo e = gnNode node \<and> egFact e \<noteq> [] \<longrightarrow>
       resolveTokens (pointerTokens (egFact e)) facts = fedValue (dispositionIn (geNodes out) (egFrom e)))"
proof -
  from EvaluateGraph_run[OF assms(4)] obtain perNode c r where s: "Structural iter loaded d = []"
    and free: "callerConflicts perNode (gdEdges d) = None"
    and run: "runNodes H loaded options d perNode c (length (fst (Order iter d))) (fst (Order iter d)) startRun = Inr r"
    and out: "out = composite H loaded options d graphPath c (grNodes r)" by metis
  have sound: "soundGraph loaded d" using Structural_iff[OF assms(1-3)] s by simp
  have nodes: "geNodes out = grNodes r" by (simp add: out composite_def Let_def)
  from assms(5) obtain i where i: "i < length (grNodes r)" "node = grNodes r ! i" by (auto simp: nodes in_set_conv_nth)
  note consistent = runNodes_consistent[OF assms(1,2) sound refl run, unfolded consistentRun_def]
  then have "fst (Order iter d) ! i = gnNode node" using i by (metis nth_map)
  with consistent i obtain h packBytes where
    "runNode H loaded options d perNode c (length (fst (Order iter d)) + i) (dispositionIn (grNodes r)) (gnNode node) =
       Inr (node, h, packBytes)" by auto
  from runNode_handed[OF this] obtain a over ev where
    a: "assemble options d perNode (dispositionIn (grNodes r)) (gnNode node) = Inr a" "\<not> asOversized a"
      "hEncode H (asFacts a) = Some (hdFacts h)"
    and ev: "EvaluateWith (host.truncate H) packBytes (hdFacts h) (hdEvidence h) (nodeOptions options c h over) = Inr ev"
      "gnDisposition node = evDisposition ev" by blast
  have "\<forall>e \<in> set (gdEdges d). egTo e = gnNode node \<and> egFact e \<noteq> [] \<longrightarrow>
       resolveTokens (path e) (asFacts a) = fedValue (dispositionIn (grNodes r) (egFrom e))"
    using assemble_parts[OF sound free, of options "dispositionIn (grNodes r)" "gnNode node"] a(1,2) by auto
  with a(3) ev show ?thesis unfolding nodes
    by (intro exI[of _ "asFacts a"] exI[of _ packBytes] exI[of _ "hdFacts h"] exI[of _ "hdEvidence h"] exI[of _ "nodeOptions options c h over"] exI[of _ ev] conjI) simp_all
qed

text \<open>C12: Once the structural checks and the collision check have passed, assembling a node's documents
  is refused exactly when an edge into the node feeds a requirement that the caller's evidence already
  sets, whatever the nodes before it decide. Otherwise, within the budget every fact edge finds its
  value, every path no edge of the node touches resolves as in the caller's facts, every fed
  requirement has the state of the node it comes from, and the rest of the evidence is the caller's.\<close>

theorem assemble_exact:
  assumes "\<And>xs :: string list. mset (iter xs) = mset xs" "distinct (map fst (gdNodes d))" "plainIds d"
    "Structural iter loaded d = []" "callerConflicts perNode (gdEdges d) = None"
  shows "case assemble options d perNode dispositions k of
     Inl f \<Rightarrow> f = evidenceConflict \<and>
       (\<exists>e g. feeding k (gdEdges d) e g \<and> told (niEvidence (perNode k)) (efID g) \<noteq> None)
   | Inr a \<Rightarrow>
       (\<forall>e g. feeding k (gdEdges d) e g \<longrightarrow>
          told (niEvidence (perNode k)) (efID g) = None \<and>
          told (asEvidence a) (efID g) = Some (JString (State g (upstreamKind (dispositions (egFrom e)))))) \<and>
       (\<forall>name. (\<forall>e g. feeding k (gdEdges d) e g \<longrightarrow> efID g \<noteq> name) \<longrightarrow>
          told (asEvidence a) name = told (niEvidence (perNode k)) name) \<and>
       (\<not> asOversized a \<longrightarrow> (\<forall>e \<in> set (gdEdges d). egTo e = k \<and> egFact e \<noteq> [] \<longrightarrow>
          resolveTokens (pointerTokens (egFact e)) (asFacts a) = fedValue (dispositions (egFrom e)))) \<and>
       (\<forall>us. (\<forall>e \<in> set (gdEdges d). egTo e = k \<and> egFact e \<noteq> [] \<longrightarrow> \<not> entangled (pointerTokens (egFact e)) us) \<longrightarrow>
          resolveTokens us (asFacts a) = resolveTokens us (asFacts (startAssembly (perNode k))))"
proof -
  have sound: "soundGraph loaded d" using Structural_iff[OF assms(1-3)] assms(4) by simp
  note facts = assemble_parts[OF sound assms(5), of options dispositions k]
    and told = assemble_evidence[OF sound, where options = options and perNode = perNode and dispositions = dispositions and k = k]
  show ?thesis
  proof (cases "assemble options d perNode dispositions k")
    case (Inl f)
    with facts have "f = evidenceConflict" by simp
    with told show ?thesis unfolding Inl sum.case by blast
  next
    case (Inr a)
    from facts[unfolded Inr] told[unfolded Inr sum.case] show ?thesis
      unfolding Inr sum.case by (elim disjE exE conjE) (simp, intro conjI, simp_all)
  qed
qed

subsection \<open>A run\<close>

text \<open>Two nodes over one pack, the second told the outcome of the first.\<close>

definition samplePair :: Document where
  "samplePair = (sampleGraph [sampleEdge ''a'' ''b''])
     \<lparr>gdNodes := map (\<lambda>k. (k, \<lparr>ndPack = k, ndDescription = []\<rparr>)) [''b'', ''a''], gdResult := ''b''\<rparr>"

definition samplePacks :: Project where
  "samplePacks = sampleProject\<lparr>pjReadPack := (\<lambda>n entry. ReadBytes samplePackText)\<rparr>"

definition sampleGraphEngine :: graphEngine where
  "sampleGraphEngine =
     \<lparr>eSets = eSets sampleHost, eSchemas = eSchemas sampleHost, eCompile = eCompile sampleHost,
      eScan = eScan sampleHost, eSprint = eSprint sampleHost, eAdvice = eAdvice sampleHost,
      hMarshal = hMarshal sampleHost, hFindingBytes = hFindingBytes sampleHost, hSha256 = hSha256 sampleHost,
      hGraphSchema = (\<lambda>v. None), hGraphSchemaCompiles = True,
      hEncode = (\<lambda>v. Some (if v = JObject [(''a'', JString ''ok'')] then sampleFactsText else ''{}'')),
      hNodeBytes = (\<lambda>n. Some 0), hHandoffBytes = (\<lambda>h. Some 0), hDispositionBytes = (\<lambda>d. Some 0),
      hGraphBytes = (\<lambda>g. Some 0)\<rparr>"

definition sampleGraphOptions :: GraphOptions where
  "sampleGraphOptions =
     \<lparr>goCommand = ''evaluate'', goSupportedExtensions = [], goContract = \<lparr>ecSpecVersion = [], ecProfile = []\<rparr>,
      goAudit = None, goLawCheck = None, goRequireComparableFacts = False, goInjectionBudget = 0\<rparr>"

abbreviation decidedOk :: "Disposition \<Rightarrow> bool" where
  "decidedOk x \<equiv> dKind x = ''outcome'' \<and> dOutcomeID x = ''ok''"

lemma sample_engine [simp]: "host.truncate sampleGraphEngine = sampleHost"
  by (simp add: sampleGraphEngine_def host.truncate_def sampleHost_def)

lemma sample_opts: "goAudit sampleGraphOptions = None" "ecSpecVersion (goContract sampleGraphOptions) = []"
  by (simp_all add: sampleGraphOptions_def)

lemma sample_gates:
  "Structural rev samplePacks samplePair = []" "Order rev samplePair = ([''a'', ''b''], [])"
  "distinct (map fst (gdNodes samplePair))" "plainIds samplePair"
proof -
  show "Structural rev samplePacks samplePair = []" "Order rev samplePair = ([''a'', ''b''], [])" by code_simp+
  show "distinct (map fst (gdNodes samplePair))" "plainIds samplePair"
    by (auto simp: samplePair_def plainIds_def declares_def)
qed

lemma sample_assembles:
  assumes "k = ''a'' \<and> facts = [] \<or> k = ''b'' \<and> facts = [(''a'', JString ''ok'')] \<and> (\<exists>u. D ''a'' = Some u \<and> decidedOk u)"
  shows "\<exists>a. assemble sampleGraphOptions samplePair (\<lambda>_. noInputs) D k = Inr a \<and> asFacts a = JObject facts \<and>
    asEvidenceFeeds a = [] \<and> \<not> asOversized a"
proof -
  have "pointerTokens ''/a'' = [''a'']" by code_simp
  then have i: "injectFact [] ''/a'' ''ok'' = Some [(''a'', JString ''ok'')]"
    by (simp add: injectFact_tokens setMember_def)
  have e: "gdEdges samplePair = [sampleEdge ''a'' ''b'']" by (simp add: samplePair_def sampleGraph_def)
  show ?thesis
    using assms i
    by (auto simp: assemble_def e sampleEdge_def startAssembly_def noInputs_def feedEdge_def feedFactEdge_def Let_def
        upstreamKind_def upstreamOutcome_def overInjectionBudget_def injectionBudget_def sampleGraphOptions_def HardMaxBytes_def)
qed

lemma sample_node:
  assumes "k = ''a'' \<and> facts = [] \<or> k = ''b'' \<and> facts = [(''a'', JString ''ok'')] \<and> (\<exists>u. D ''a'' = Some u \<and> decidedOk u)"
  shows "\<exists>node h. runNode sampleGraphEngine samplePacks sampleGraphOptions samplePair (\<lambda>_. noInputs) (contractOf ''0.2.0-draft'') n D k
     = Inr (node, h, samplePackText) \<and> decidedOk (gnDisposition node)"
proof -
  let ?bytes = "if facts = [] then ''{}'' else sampleFactsText"
  obtain a where a: "assemble sampleGraphOptions samplePair (\<lambda>_. noInputs) D k = Inr a" "asFacts a = JObject facts"
    "asEvidenceFeeds a = []" "\<not> asOversized a"
    using sample_assembles[of k facts D, OF assms] by blast
  define h where "h = \<lparr>hdFacts = ?bytes, hdEvidence = [], hdEvidenceSupplied = False, hdFactsOversized = False\<rparr>"
  have "hEncode sampleGraphEngine (asFacts a) = Some ?bytes" "length ?bytes \<le> HardMaxBytes"
    using assms a(2) by (auto simp: sampleGraphEngine_def HardMaxBytes_def sampleFactsText_def)
  then have h: "handOver sampleGraphEngine noInputs a = Inr h"
    using a(3,4) by (simp add: handOver_def h_def Let_def noInputs_def not_less)
  have d: "Decode ?bytes (eTokens sampleHost ?bytes) DefaultLimits = Inr (JObject facts)" "?bytes \<noteq> []" "length ?bytes < 100"
    using assms sample_decodes by (auto simp: sampleFactsText_def)
  have "plainOptions (nodeOptions sampleGraphOptions (contractOf ''0.2.0-draft'') h [])"
    by (simp add: plainOptions_def nodeOptions_def h_def sampleGraphOptions_def Version_def contractOf_def)
  from sample_evaluates[OF this d] obtain ev where ev: "EvaluateWith sampleHost samplePackText (hdFacts h) (hdEvidence h)
      (nodeOptions sampleGraphOptions (contractOf ''0.2.0-draft'') h []) = Inr ev" "decidedOk (evDisposition ev)"
    by (auto simp: h_def)
  have "readAdmitted sampleHost samplePacks sampleGraphOptions samplePair (contractOf ''0.2.0-draft'') n k = Inr (samplePackText, [])"
    by (simp add: readAdmitted_def readNodePack_def samplePacks_def selectNodeContract_def sample_selects lawCheck_def
        sampleGraphOptions_def)
  with a h ev show ?thesis by (simp add: runNode_def nodeEvaluationOf_def)
qed

lemma sample_runs:
  "\<exists>out. EvaluateGraph sampleGraphEngine rev samplePacks samplePair [] [] False sampleGraphOptions = Inr out \<and>
     (\<exists>u. dispositionIn (geNodes out) ''a'' = Some u \<and> decidedOk u)"
proof -
  let ?run = "runNode sampleGraphEngine samplePacks sampleGraphOptions samplePair (\<lambda>_. noInputs) (contractOf ''0.2.0-draft'')"
  obtain na ha where a: "?run 2 (\<lambda>_. None) ''a'' = Inr (na, ha, samplePackText)" "decidedOk (gnDisposition na)"
    using sample_node[of "''a''" "[]" "\<lambda>_. None" 2] by auto
  obtain nb hb where b: "?run 3 ((\<lambda>_. None)(''a'' \<mapsto> gnDisposition na)) ''b'' = Inr (nb, hb, samplePackText)"
    using sample_node[of "''b''" "[(''a'', JString ''ok'')]" "(\<lambda>_. None)(''a'' \<mapsto> gnDisposition na)" 3] a(2) by auto
  have v: "Version (contractOf ''0.2.0-draft'') \<noteq> ''0.3.0''" by code_simp
  have read: "readNodePack samplePacks n e = Inr (samplePackText, [])" for n e
    by (simp add: readNodePack_def samplePacks_def)
  have sel: "SelectGraphContract sampleHost samplePacks samplePair [''a'', ''b''] = Inr (contractOf ''0.2.0-draft'')"
    by (simp add: SelectGraphContract_def read selectNodeContract_def sample_selects)
  have free: "callerConflicts (\<lambda>_. noInputs) (gdEdges samplePair) = None"
    by (simp add: samplePair_def sampleGraph_def noInputs_def)
  obtain r where r: "runNodes sampleGraphEngine samplePacks sampleGraphOptions samplePair (\<lambda>_. noInputs)
      (contractOf ''0.2.0-draft'') (length [''a'', ''b'']) [''a'', ''b''] startRun = Inr r" "grNodes r = [na, nb]"
    using a b v by (simp add: startRun_def chargeNode_def nodeRecord_def sample_opts numeral_2_eq_2 numeral_3_eq_3)
  have named: "gnNode na = ''a''" using runNode_named[OF a(1)] .
  define out where "out = composite sampleGraphEngine samplePacks sampleGraphOptions samplePair [] (contractOf ''0.2.0-draft'') (grNodes r)"
  have c: "conclude sampleGraphEngine sampleGraphOptions (contractOf ''0.2.0-draft'') r out = Inr out"
    using v by (simp add: conclude_def sample_opts)
  have "EvaluateGraph sampleGraphEngine rev samplePacks samplePair [] [] False sampleGraphOptions = Inr out"
    unfolding EvaluateGraph_def sample_gates(1,2) Let_def fst_conv sample_engine sel parseInputs_def
    using free r(1) c by (simp add: sample_opts out_def del: runNodes.simps list.size)
  moreover have "dispositionIn (geNodes out) ''a'' = Some (gnDisposition na)"
    using named r(2) by (simp add: out_def composite_def Let_def dispositionIn_def)
  ultimately show ?thesis using a(2) by blast
qed

theorem EvaluateGraph_composes_witness:
  "\<exists>out. EvaluateGraph sampleGraphEngine rev samplePacks samplePair [] [] False sampleGraphOptions = Inr out \<and>
     set (map gnNode (geNodes out)) = {k. declares samplePair k} \<and> geDisposition out = dispositionIn (geNodes out) ''b''"
proof -
  obtain out where out: "EvaluateGraph sampleGraphEngine rev samplePacks samplePair [] [] False sampleGraphOptions = Inr out"
    using sample_runs by blast
  have "gdResult samplePair = ''b''" by (simp add: samplePair_def)
  with EvaluateGraph_composes[OF mset_rev sample_gates(3,4) out] out show ?thesis by auto
qed

theorem EvaluateGraph_feeds_witness:
  "\<exists>out node facts. EvaluateGraph sampleGraphEngine rev samplePacks samplePair [] [] False sampleGraphOptions = Inr out \<and>
     node \<in> set (geNodes out) \<and> gnNode node = ''b'' \<and> resolveTokens [''a''] facts = Some (JString ''ok'')"
proof -
  obtain out u where out: "EvaluateGraph sampleGraphEngine rev samplePacks samplePair [] [] False sampleGraphOptions = Inr out"
    and u: "dispositionIn (geNodes out) ''a'' = Some u" "decidedOk u"
    using sample_runs by blast
  from EvaluateGraph_whole[OF mset_rev sample_gates(3,4) out]
  have "''b'' \<in> set (map gnNode (geNodes out))" by (simp add: declares_def samplePair_def)
  then obtain node where node: "node \<in> set (geNodes out)" "gnNode node = ''b''" by auto
  from EvaluateGraph_feeds[OF mset_rev sample_gates(3,4) out node(1)] node(2) obtain facts where
    "\<forall>e \<in> set (gdEdges samplePair). egTo e = ''b'' \<and> egFact e \<noteq> [] \<longrightarrow>
       resolveTokens (pointerTokens (egFact e)) facts = fedValue (dispositionIn (geNodes out) (egFrom e))" by auto
  moreover have "pointerTokens ''/a'' = [''a'']" by code_simp
  ultimately have "resolveTokens [''a''] facts = Some (JString ''ok'')"
    using u by (simp add: samplePair_def sampleGraph_def sampleEdge_def fedValue_def upstreamKind_def upstreamOutcome_def)
  with out node show ?thesis by blast
qed

theorem assemble_exact_witness:
  "\<exists>a. assemble sampleGraphOptions samplePair (\<lambda>_. noInputs) (\<lambda>_. None) ''b'' = Inr a \<and> resolveTokens [''a''] (asFacts a) = None"
proof -
  have free: "callerConflicts (\<lambda>_. noInputs) (gdEdges samplePair) = None"
    by (simp add: samplePair_def sampleGraph_def noInputs_def)
  have e: "gdEdges samplePair = [sampleEdge ''a'' ''b'']" by (simp add: samplePair_def sampleGraph_def)
  obtain a where a: "assemble sampleGraphOptions samplePair (\<lambda>_. noInputs) (\<lambda>_. None) ''b'' = Inr a" "\<not> asOversized a"
    by (simp add: assemble_def e sampleEdge_def startAssembly_def noInputs_def feedEdge_def feedFactEdge_def Let_def upstreamKind_def)
  moreover have "pointerTokens ''/a'' = [''a'']" by code_simp
  ultimately show ?thesis
    using assemble_exact[where iter = rev and d = samplePair and loaded = samplePacks and perNode = "\<lambda>_. noInputs"
        and options = sampleGraphOptions and dispositions = "\<lambda>_. None" and k = "''b''"] sample_gates free
    by (simp add: e sampleEdge_def fedValue_def upstreamKind_def)
qed

end
