(* ===== verification/Overlap.thy ===== *)
theory Overlap
  imports Marshal Semantic Carrier Decimal
begin

section \<open>The overlap advice\<close>

text \<open>
  \<open>internal/validation/overlap.go\<close> and \<open>overlap_generated.go\<close>: the authoring check of Core 0.3 that
  reports pairs of rules with different outcomes which facts may satisfy together. The budget is one
  \<open>int\<close> that every part draws on. Code that draws on it is a function of what remains: a panic is
  \<open>None\<close>, and a result that the budget (or a limit of the check) cut short is \<open>Some (None, b)\<close>. The
  order in which a map of strings is walked is the parameter \<open>iter\<close>; an object is walked in the order
  of its list.
\<close>

subsection \<open>The budget\<close>

definition overlapWorkLimit :: int where "overlapWorkLimit = 1000000"
definition overlapClauseLimit :: nat where "overlapClauseLimit = 256"
definition overlapOutputLimit :: int where "overlapOutputLimit = 1048576"

type_synonym 'a charged = "int \<Rightarrow> ('a option \<times> int) option"

definition done_with :: "'a \<Rightarrow> 'a charged" where
  "done_with x b = Some (Some x, b)"

definition cut :: "'a charged" where
  "cut b = Some (None, b)"

definition panic :: "'a charged" where
  "panic b = None"

definition andPay :: "'a charged \<Rightarrow> ('a \<Rightarrow> 'b charged) \<Rightarrow> 'b charged" where
  "andPay f g b =
     (case f b of None \<Rightarrow> None | Some (None, b1) \<Rightarrow> Some (None, b1) | Some (Some x, b1) \<Rightarrow> g x b1)"

text \<open>\<open>overlapBudget.take\<close>, when all a refusal leads to is the end of the computation.\<close>

definition takeUnits :: "nat \<Rightarrow> unit charged" where
  "takeUnits n b = Some (if b - int n \<ge> 0 then Some () else None, b - int n)"

lemma andPay_cong [fundef_cong]:
  "b = b' \<Longrightarrow> f b' = f' b' \<Longrightarrow> (\<And>x b1. f' b' = Some (Some x, b1) \<Longrightarrow> g x b1 = g' x b1) \<Longrightarrow> andPay f g b = andPay f' g' b'"
  by (auto simp: andPay_def split: option.splits prod.splits)

subsection \<open>Keys of values\<close>

text \<open>\<open>strings.Cut\<close>, \<open>TrimLeft\<close> and \<open>TrimRight\<close> are those of \<open>Json_Number\<close>. The tokens of a decoded
  document have an exponent that parses.\<close>

definition overlapNumberKey :: "string \<Rightarrow> string" where
  "overlapNumberKey token0 =
     (let minus = (token0 \<noteq> [] \<and> hd token0 = CHR ''-'');
          token = (if minus then tl token0 else token0);
          mantissa = takeWhile (\<lambda>c. \<not> isExponentMark c) token;
          rest = dropWhile (\<lambda>c. \<not> isExponentMark c) token;
          expo = (case parseBigInt (if rest = [] then ''0'' else tl rest) of None \<Rightarrow> 0 | Some e \<Rightarrow> e);
          (integer, fraction, _) = cutAt (CHR ''.'') mantissa;
          ds = dropWhile isZero (integer @ fraction)
      in if ds = [] then ''n:0''
         else let trimmed = rev (dropWhile isZero (rev ds))
              in ''n:'' @ (if minus then ''-'' else []) @ trimmed @ CHR ''e'' #
                 intString (expo + (int (length ds) - int (length trimmed) - int (length fraction))))"

function overlapKey :: "json \<Rightarrow> string" where
  "overlapKey (JNumber t) = overlapNumberKey t"
| "overlapKey (JArray xs) = ''a:'' @ marshal (JArray (map (\<lambda>x. JString (overlapKey x)) xs))"
| "overlapKey (JObject m) = ''o:'' @ marshal (JObject (map (\<lambda>p. (fst p, JString (overlapKey (snd p)))) m))"
| "overlapKey JNull = ''v:'' @ marshal JNull"
| "overlapKey (JBool v) = ''v:'' @ marshal (JBool v)"
| "overlapKey (JString s) = ''v:'' @ marshal (JString s)"
  by pat_completeness auto
termination
  by (relation "measure size") (auto dest: size_element_lt size_member_lt)

definition overlapJSONCost :: "json \<Rightarrow> nat" where
  "overlapJSONCost v = length (marshal v)"

text \<open>\<open>overlapDecimal\<close> is the pattern of decimal strings; what \<open>SetString\<close> refuses is no number here
  either.\<close>

definition overlapNumber :: "json \<Rightarrow> rat option" where
  "overlapNumber v = decimalValue v"

subsection \<open>Clauses\<close>

record overlapTerm =
  otNode :: object
  otTruth :: bool

type_synonym overlapClause = "overlapTerm list"

text \<open>A formula that is not complete is the cut one.\<close>

type_synonym overlapFormula = "overlapClause list option"

fun joinRow :: "overlapClause \<Rightarrow> overlapClause list \<Rightarrow> overlapClause list charged" where
  "joinRow a [] = done_with []"
| "joinRow a (c # cs) =
     andPay (takeUnits (length a + length c + 1)) (\<lambda>_. andPay (joinRow a cs) (\<lambda>rows. done_with ((a @ c) # rows)))"

fun joinClauses :: "overlapClause list \<Rightarrow> overlapClause list \<Rightarrow> overlapClause list charged" where
  "joinClauses [] cs = done_with []"
| "joinClauses (a # as) cs =
     andPay (joinRow a cs) (\<lambda>rows. andPay (joinClauses as cs) (\<lambda>more. done_with (rows @ more)))"

lemma overlap_sizes:
  "jget m ''condition'' = JObject c \<Longrightarrow> size (JObject c) < size (JObject m)"
  "jget m ''conditions'' = JArray cs \<Longrightarrow> size_list size cs < size (JObject m)"
  using size_jget_lt[of m "''condition''"] size_array_jget[of m "''conditions''" cs] by simp_all

function (sequential)
  overlapDNF :: "object \<Rightarrow> bool \<Rightarrow> overlapClause list charged"
  and overlapChildren :: "bool \<Rightarrow> bool \<Rightarrow> json list \<Rightarrow> overlapClause list \<Rightarrow> overlapClause list charged"
where
  "overlapDNF m truth b =
     andPay (takeUnits 1) (\<lambda>_ b1.
       let op = stringOrEmpty (jget m ''op'')
       in if op = ''literal'' then done_with (if jget m ''value'' = JBool truth then [[]] else []) b1
          else if op = ''not'' then
            (case jget m ''condition'' of JObject c \<Rightarrow> overlapDNF c (\<not> truth) b1 | _ \<Rightarrow> panic b1)
          else if op \<noteq> ''all'' \<and> op \<noteq> ''any'' then done_with [[\<lparr>otNode = m, otTruth = truth\<rparr>]] b1
          else
            (let product = ((op = ''all'') = truth)
             in case jget m ''conditions'' of
                  JArray cs \<Rightarrow> overlapChildren product truth cs (if product then [[]] else []) b1
                | _ \<Rightarrow> panic b1)) b"
| "overlapChildren product truth [] clauses b = done_with clauses b"
| "overlapChildren product truth (JObject c # rest) clauses b =
     andPay (overlapDNF c truth) (\<lambda>child b1.
       if \<not> product then
         (if length clauses + length child > overlapClauseLimit then cut b1
          else overlapChildren product truth rest (clauses @ child) b1)
       else if length clauses * length child > overlapClauseLimit then cut b1
       else andPay (joinClauses clauses child) (\<lambda>joined b2. overlapChildren product truth rest joined b2) b1) b"
| "overlapChildren product truth (_ # rest) clauses b = panic b"
  by pat_completeness auto
termination
  by (relation "measure (\<lambda>x. case x of Inl (m, _) \<Rightarrow> size (JObject m) | Inr (_, _, cs, _) \<Rightarrow> size_list size cs)")
     (auto dest: overlap_sizes)

declare overlapDNF.simps [simp del]

subsection \<open>One fact condition at one value\<close>

text \<open>\<open>known\<close> and \<open>truth\<close>; an \<open>in\<close> whose operand is no array panics.\<close>

definition overlapFact :: "object \<Rightarrow> json \<Rightarrow> (bool \<times> bool) option" where
  "overlapFact m v =
     (let operand = jget m ''value''; operator = stringOrEmpty (jget m ''operator'')
      in if operator = ''equals'' then Some (True, overlapKey v = overlapKey operand)
         else if operator = ''not-equals'' then Some (True, overlapKey v \<noteq> overlapKey operand)
         else if operator = ''in'' then
           (case operand of
              JArray items \<Rightarrow> Some (True, list_ex (\<lambda>item. overlapKey v = overlapKey item) items)
            | _ \<Rightarrow> None)
         else case overlapNumber v of
                None \<Rightarrow> Some (False, False)
              | Some x \<Rightarrow>
                (case overlapNumber operand of
                   None \<Rightarrow> Some (False, False)
                 | Some y \<Rightarrow>
                   if operator = ''greater-than'' then Some (True, ratCmp x y > 0)
                   else if operator = ''greater-than-or-equal'' then Some (True, ratCmp x y \<ge> 0)
                   else if operator = ''less-than'' then Some (True, ratCmp x y < 0)
                   else if operator = ''less-than-or-equal'' then Some (True, ratCmp x y \<le> 0)
                   else Some (False, False)))"

subsection \<open>The values to try\<close>

text \<open>\<open>big.Rat.FloatString\<close>: the absolute value rounded half up to so many digits.\<close>

definition floatString :: "nat \<Rightarrow> rat \<Rightarrow> string" where
  "floatString d r =
     (let n = nat \<lfloor>\<bar>r\<bar> * 10 ^ d + 1 / 2\<rfloor>;
          frac = natString (n mod 10 ^ d)
      in (if r < 0 then ''-'' else []) @ natString (n div 10 ^ d) @
         (if d = 0 then [] else CHR ''.'' # replicate (d - length frac) (CHR ''0'') @ frac))"

record valueSet =
  vsValues :: "json list"
  vsSeen :: "string list"
  vsPoints :: "rat list"
  vsScale :: nat

definition noValues :: valueSet where
  "noValues = \<lparr>vsValues = [], vsSeen = [], vsPoints = [], vsScale = 0\<rparr>"

definition addValue :: "json \<Rightarrow> valueSet \<Rightarrow> valueSet" where
  "addValue v s =
     (if overlapKey v \<in> set (vsSeen s) then s
      else s\<lparr>vsSeen := overlapKey v # vsSeen s, vsValues := vsValues s @ [v]\<rparr>)"

definition notePoint :: "json \<Rightarrow> valueSet \<Rightarrow> valueSet" where
  "notePoint v s =
     (case overlapNumber v of
        None \<Rightarrow> s
      | Some r \<Rightarrow> s\<lparr>vsPoints := addUnique (vsPoints s) r,
                    vsScale := max (vsScale s) (fractionDigits (stringOrEmpty v))\<rparr>)"

fun addOperands :: "json list \<Rightarrow> valueSet \<Rightarrow> valueSet charged" where
  "addOperands [] s = done_with s"
| "addOperands (v # vs) s =
     andPay (takeUnits (length (marshal v))) (\<lambda>_. addOperands vs (notePoint v (addValue v s)))"

definition operandsOf :: "object \<Rightarrow> json list option" where
  "operandsOf m =
     (if jget m ''operator'' = JString ''in''
      then (case jget m ''value'' of JArray xs \<Rightarrow> Some xs | _ \<Rightarrow> None) else Some [jget m ''value''])"

fun addTerms :: "overlapClause \<Rightarrow> valueSet \<Rightarrow> valueSet charged" where
  "addTerms [] s = done_with s"
| "addTerms (t # ts) s =
     (case operandsOf (otNode t) of
        None \<Rightarrow> panic
      | Some operands \<Rightarrow>
          andPay (takeUnits (length operands + 1)) (\<lambda>_. andPay (addOperands operands s) (addTerms ts)))"

text \<open>A text that is no operand and no decimal. Each turn of the loop passes one more seen key, so
  their number is enough.\<close>

fun otherText :: "nat \<Rightarrow> string list \<Rightarrow> string \<Rightarrow> string" where
  "otherText 0 seen s = s"
| "otherText (Suc n) seen s = (if overlapKey (JString s) \<in> set seen then otherText n seen (s @ ''#'') else s)"

function extendText :: "string list \<Rightarrow> string \<Rightarrow> string charged" where
  "extendText seen s b =
     (if overlapKey (JString s) \<notin> set seen then done_with s b
      else if b - int (length s + 1) \<ge> 0
      then extendText seen (if CHR ''.'' \<in> set s then s @ ''0'' else s @ ''.0'') (b - int (length s + 1))
      else cut (b - int (length s + 1)))"
  by pat_completeness auto
termination
  by (relation "measure (\<lambda>(_, _, b). nat b)") auto

declare extendText.simps [simp del]

definition freshDecimal :: "rat \<Rightarrow> nat \<Rightarrow> valueSet \<Rightarrow> valueSet charged" where
  "freshDecimal r d s =
     andPay (takeUnits (length (floatString d r))) (\<lambda>_.
       andPay (extendText (vsSeen s) (floatString d r)) (\<lambda>text. done_with (addValue (JString text) s)))"

fun freshPoints :: "bool \<Rightarrow> rat list \<Rightarrow> valueSet \<Rightarrow> valueSet charged" where
  "freshPoints first [] s = done_with s"
| "freshPoints first (p # rest) s =
     andPay (takeUnits 1) (\<lambda>_.
     andPay (freshDecimal p (vsScale s) s) (\<lambda>s1.
     andPay (if first then freshDecimal (p - 1) (vsScale s) s1 else done_with s1) (\<lambda>s2.
     andPay (case rest of
               q # _ \<Rightarrow> freshDecimal ((p + q) / 2) (vsScale s + 1) s2
             | [] \<Rightarrow> freshDecimal (p + 1) (vsScale s) s2) (freshPoints False rest))))"

definition overlapValues :: "overlapClause \<Rightarrow> json list charged" where
  "overlapValues terms =
     andPay (addTerms terms noValues) (\<lambda>s.
       let s1 = addValue (JString (otherText (length (vsSeen s)) (vsSeen s) ''#overlap'')) s
       in andPay (freshPoints True (sort (vsPoints s1)) s1) (\<lambda>s2. done_with (vsValues s2)))"

subsection \<open>Two formulas\<close>

definition isFact :: "overlapTerm \<Rightarrow> bool" where
  "isFact t \<longleftrightarrow> jget (otNode t) ''op'' = JString ''fact''"

definition pathOf :: "overlapTerm \<Rightarrow> string" where
  "pathOf t = stringOrEmpty (jget (otNode t) ''path'')"

text \<open>The paths that occur, and whether a term is no fact.\<close>

fun scanTerms :: "overlapClause \<Rightarrow> string list \<Rightarrow> bool \<Rightarrow> (string list \<times> bool) charged" where
  "scanTerms [] paths other = done_with (paths, other)"
| "scanTerms (t # ts) paths other =
     andPay (takeUnits 1) (\<lambda>_. if isFact t then scanTerms ts (addUnique paths (pathOf t)) other else scanTerms ts paths True)"

fun symbolClash :: "overlapClause \<Rightarrow> (string \<times> bool) list \<Rightarrow> bool" where
  "symbolClash [] symbols = False"
| "symbolClash (t # ts) symbols =
     (if isFact t then symbolClash ts symbols
      else case map_of symbols (overlapKey (JObject (otNode t))) of
             Some previous \<Rightarrow> previous \<noteq> otTruth t \<or> symbolClash ts symbols
           | None \<Rightarrow> symbolClash ts ((overlapKey (JObject (otNode t)), otTruth t) # symbols))"

definition groupAt :: "overlapClause \<Rightarrow> string \<Rightarrow> overlapClause" where
  "groupAt clause p = filter (\<lambda>t. isFact t \<and> pathOf t = p) clause"

definition groupPaths :: "overlapClause \<Rightarrow> string list" where
  "groupPaths clause = uniqueList (map pathOf (filter isFact clause))"

fun matchesAll :: "json \<Rightarrow> overlapClause \<Rightarrow> bool charged" where
  "matchesAll v [] = done_with True"
| "matchesAll v (t # ts) =
     andPay (takeUnits (overlapJSONCost v + overlapJSONCost (jget (otNode t) ''value'') + 1)) (\<lambda>_.
       case overlapFact (otNode t) v of
         None \<Rightarrow> panic
       | Some (known, truth) \<Rightarrow> if \<not> known \<or> truth \<noteq> otTruth t then done_with False else matchesAll v ts)"

fun firstMatch :: "json list \<Rightarrow> overlapClause \<Rightarrow> json option charged" where
  "firstMatch [] terms = done_with None"
| "firstMatch (v # vs) terms =
     andPay (matchesAll v terms) (\<lambda>ok. if ok then done_with (Some v) else firstMatch vs terms)"

text \<open>The groups of one clause: the witness so far, or nothing when one group has no value.\<close>

fun tryGroups :: "overlapClause \<Rightarrow> bool \<Rightarrow> string list \<Rightarrow> json \<times> string \<Rightarrow> (json \<times> string) option charged" where
  "tryGroups clause single [] w = done_with (Some w)"
| "tryGroups clause single (p # ps) w =
     andPay (overlapValues (groupAt clause p)) (\<lambda>vs.
       andPay (firstMatch vs (groupAt clause p)) (\<lambda>found.
         case found of
           None \<Rightarrow> done_with None
         | Some v \<Rightarrow> tryGroups clause single ps (if single then (v, p) else w)))"

record pairVerdict =
  pvPossible :: bool
  pvExact :: bool
  pvWitness :: json
  pvPath :: string

definition excluded :: pairVerdict where
  "excluded = \<lparr>pvPossible = False, pvExact = False, pvWitness = JNull, pvPath = []\<rparr>"

definition notExcluded :: pairVerdict where
  "notExcluded = \<lparr>pvPossible = True, pvExact = False, pvWitness = JNull, pvPath = []\<rparr>"

fun tryPairs :: "(string list \<Rightarrow> string list) \<Rightarrow> bool \<Rightarrow> bool \<Rightarrow> string \<Rightarrow> (overlapClause \<times> overlapClause) list
    \<Rightarrow> pairVerdict charged" where
  "tryPairs iter single exact path [] = done_with excluded"
| "tryPairs iter single exact path ((left, right) # rest) =
     andPay (takeUnits (length left + length right + 1)) (\<lambda>_.
       let clause = left @ right
       in if symbolClash clause [] then tryPairs iter single exact path rest
          else andPay (tryGroups clause single (iter (groupPaths clause)) (JNull, path)) (\<lambda>r.
                 case r of
                   None \<Rightarrow> tryPairs iter single exact path rest
                 | Some (v, p) \<Rightarrow>
                     done_with \<lparr>pvPossible = True, pvExact = exact, pvWitness = v, pvPath = p\<rparr>))"

definition lastPath :: "string list \<Rightarrow> string" where
  "lastPath paths = (if paths = [] then [] else last paths)"

definition comparePair :: "(string list \<Rightarrow> string list) \<Rightarrow> overlapClause list \<Rightarrow> overlapClause list \<Rightarrow> pairVerdict charged" where
  "comparePair iter ca cb =
     andPay (scanTerms (concat ca @ concat cb) [] False) (\<lambda>(paths, unsupported).
       tryPairs iter (length paths = 1) (length paths \<le> 1 \<and> \<not> unsupported) (lastPath (iter paths))
         (List.product ca cb))"

definition overlapPair :: "(string list \<Rightarrow> string list) \<Rightarrow> overlapFormula \<Rightarrow> overlapFormula \<Rightarrow> int \<Rightarrow> (pairVerdict \<times> int) option" where
  "overlapPair iter a b budget =
     (if a = Some [] \<or> b = Some [] then Some (excluded, budget)
      else case (a, b) of
             (Some ca, Some cb) \<Rightarrow>
               map_option (\<lambda>(v, b1). (case v of None \<Rightarrow> notExcluded | Some v \<Rightarrow> v, b1)) (comparePair iter ca cb budget)
           | _ \<Rightarrow> Some (notExcluded, budget))"

end
