(* ===== verification/Overlap_Keys.thy ===== *)
theory Overlap_Keys
  imports Overlap
begin

section \<open>Keys are equality\<close>

text \<open>
  The overlap check compares values by texts that it builds from them. On admitted values these texts
  are the same exactly when the evaluator calls the values equal, so the check and the evaluator agree
  on every equality.
\<close>

subsection \<open>Admitted values\<close>

text \<open>What the carrier lets through: distinct names, UTF-8 texts and tokens of numbers.\<close>

fun admittedJson :: "json \<Rightarrow> bool" where
  "admittedJson (JString s) = validUtf8 s"
| "admittedJson (JNumber t) = (\<not> malformed (normalizeNumber t))"
| "admittedJson (JArray xs) = list_all admittedJson xs"
| "admittedJson (JObject m) = (distinct (map fst m) \<and> list_all (\<lambda>p. validUtf8 (fst p) \<and> admittedJson (snd p)) m)"
| "admittedJson _ = True"

lemma admitted_wf: "admittedJson v \<Longrightarrow> jsonWf v"
  by (induction v rule: admittedJson.induct) (auto simp: list_all_iff)

lemma admitted_jget: "admittedJson (JObject m) \<Longrightarrow> admittedJson (jget m k)"
  by (auto simp: jget_def list_all_iff split: option.splits dest: map_of_SomeD_set)

subsection \<open>Keys of numbers\<close>

definition formKey :: "numberNormalForm \<Rightarrow> string" where
  "formKey n =
     (if digits n = [] then ''n:0''
      else ''n:'' @ (if negative n then ''-'' else []) @ digits n @ CHR ''e'' # intString (exponent n))"

lemma overlapNumberKey_form:
  assumes "\<not> malformed (normalizeNumber t)"
  shows "overlapNumberKey t = formKey (normalizeNumber t)"
proof -
  let ?minus = "t \<noteq> [] \<and> hd t = CHR ''-''"
  let ?token = "if ?minus then tl t else t"
  let ?mantissa = "takeWhile (\<lambda>c. \<not> isExponentMark c) ?token"
  let ?rest = "dropWhile (\<lambda>c. \<not> isExponentMark c) ?token"
  obtain integer fraction found where cut: "cutAt (CHR ''.'') ?mantissa = (integer, fraction, found)" by (metis prod_cases3)
  have parts: "numberParts t = (?minus, integer, fraction, tl ?rest)"
    unfolding numberParts_def Let_def cut by simp
  have zero: "parseBigInt ''0'' = Some 0" by code_simp
  obtain e where e: "(if tl ?rest = [] then Some 0 else parseBigInt (tl ?rest)) = Some e"
  proof (cases "if tl ?rest = [] then Some 0 else parseBigInt (tl ?rest)")
    case None
    then have "malformed (normalizeNumber t)" unfolding normalizeNumber_def parts by (simp add: malformedForm_def)
    with assms show ?thesis by simp
  qed (rule that)
  have ds: "list_all isDigit (integer @ fraction)"
  proof (rule ccontr)
    assume "\<not> ?thesis"
    then have "malformed (normalizeNumber t)" unfolding normalizeNumber_def parts e by (simp add: malformedForm_def e)
    with assms show False by simp
  qed
  have expo: "(case parseBigInt (if ?rest = [] then ''0'' else tl ?rest) of None \<Rightarrow> 0 | Some e \<Rightarrow> e) = e"
    using e zero by (cases ?rest) (auto simp: parseBigInt_def split: if_splits option.splits)
  let ?ds = "dropWhile isZero (integer @ fraction)"
  let ?trimmed = "rev (dropWhile isZero (rev ?ds))"
  have n: "normalizeNumber t = \<lparr>negative = ?minus, digits = ?trimmed,
      exponent = e - int (length fraction) + int (length ?ds - length ?trimmed), malformed = False\<rparr>"
    unfolding normalizeNumber_def parts using e ds by (simp add: stripZeros_def Let_def)
  have len: "length ?trimmed \<le> length ?ds" by (metis length_dropWhile_le length_rev)
  have nil: "?trimmed = [] \<longleftrightarrow> ?ds = []"
  proof
    assume "?trimmed = []"
    then have "\<forall>c \<in> set ?ds. isZero c" by (metis dropWhile_eq_Nil_conv rev_is_Nil_conv set_rev)
    then show "?ds = []" using hd_dropWhile[of isZero "integer @ fraction"] by (metis hd_in_set)
  next
    assume none: "?ds = []"
    show "?trimmed = []" unfolding none by simp
  qed
  show ?thesis
    unfolding overlapNumberKey_def Let_def cut prod.case expo formKey_def n
    using nil len by (simp add: of_nat_diff)
qed

lemma takeWhile_digits_mark: "list_all isDigit ds \<Longrightarrow> takeWhile isDigit (ds @ CHR ''e'' # u) = ds"
proof -
  have "\<not> isDigit (CHR ''e'')" by code_simp
  then show "list_all isDigit ds \<Longrightarrow> ?thesis" by (simp add: takeWhile_append list_all_iff)
qed

lemma formKey_inject:
  assumes "\<not> malformed n" "\<not> malformed k" "strippedDigits (digits n)" "strippedDigits (digits k)"
  shows "formKey n = formKey k \<longleftrightarrow> formEquals n k"
proof -
  have e: "\<not> isDigit (CHR ''e'')" "isDigit (CHR ''0'')" "\<not> isDigit (CHR ''-'')" by code_simp+
  have split: "ds = ds' \<and> i = j" if "list_all isDigit ds" "list_all isDigit ds'"
    "ds @ CHR ''e'' # intString i = ds' @ CHR ''e'' # intString j" for ds ds' i j
    using takeWhile_digits_mark[OF that(1), of "intString i"] takeWhile_digits_mark[OF that(2), of "intString j"] that(3)
    by simp
  have zero: "formKey m \<noteq> ''n:0''" if "digits m \<noteq> []" for m
    using that by (cases "digits m"; cases "tl (digits m)") (auto simp: formKey_def)
  have d: "list_all isDigit (digits n)" "list_all isDigit (digits k)" using assms(3,4) by (simp_all add: strippedDigits_def)
  have first: "ds @ u \<noteq> CHR ''-'' # v" if "list_all isDigit ds" "ds \<noteq> []" for ds u v
    using that e by (cases ds) auto
  show ?thesis
  proof (cases "digits n = [] \<or> digits k = []")
    case True
    with zero[of n] zero[of k] assms(1,2) show ?thesis by (auto simp: formKey_def formEquals_def)
  next
    case False
    then show ?thesis
      using assms(1,2) split[OF d] first[OF d(1)] first[OF d(2)]
      by (auto simp: formKey_def formEquals_def) (metis append_Cons append_Nil)+
  qed
qed

lemma overlapNumberKey_exact:
  assumes "\<not> malformed (normalizeNumber t)" "\<not> malformed (normalizeNumber u)"
  shows "overlapNumberKey t = overlapNumberKey u \<longleftrightarrow> numbersEqual t u"
  using formKey_inject[OF assms normalizeNumber_stripped normalizeNumber_stripped] assms
  by (auto simp: overlapNumberKey_form numbersEqual_def)

subsection \<open>Keys of values\<close>

lemma validUtf8_formKey: "strippedDigits (digits n) \<Longrightarrow> validUtf8 (formKey n)"
  by (auto simp: formKey_def strippedDigits_def intString_def validUtf8_ascii_Cons validUtf8_append validUtf8_digits)

lemma validUtf8_joined:
  "(\<And>x. x \<in> set xs \<Longrightarrow> validUtf8 x) \<Longrightarrow> validUtf8 (bracketed lb rb xs)"
  if "byteOf lb < 128" "byteOf rb < 128"
proof -
  have "(\<And>x. x \<in> set xs \<Longrightarrow> validUtf8 x) \<Longrightarrow> validUtf8 (joinWith '','' xs)"
    by (induction xs rule: induct_list012) (auto simp: validUtf8_append validUtf8_ascii_Cons)
  with that show "(\<And>x. x \<in> set xs \<Longrightarrow> validUtf8 x) \<Longrightarrow> validUtf8 (bracketed lb rb xs)"
    by (simp add: bracketed_def validUtf8_ascii_Cons validUtf8_append)
qed

lemma textual_marshal: "textual v \<Longrightarrow> validUtf8 (marshal v)"
proof (induction v rule: marshal.induct)
  case (5 xs)
  then show ?case by (auto simp: list_all_iff intro!: validUtf8_joined)
next
  case (6 m)
  have "validUtf8 (goMember marshal p)" if p: "p \<in> set m" for p
  proof -
    from "6.prems" p have "validUtf8 (goQuote (fst p))" "textual (snd p)" by (auto simp: list_all_iff)
    with "6.IH"[of p] p show ?thesis by (simp add: goMember_def validUtf8_append validUtf8_ascii_Cons)
  qed
  then show ?case by (auto intro!: validUtf8_joined)
qed (simp_all add: validUtf8_ascii_Cons)

lemma validUtf8_overlapKey: "admittedJson v \<Longrightarrow> validUtf8 (overlapKey v)"
proof (induction v rule: overlapKey.induct)
  case (1 t)
  then show ?case by (simp add: overlapNumberKey_form validUtf8_formKey normalizeNumber_stripped)
next
  case (2 xs)
  then have "textual (JArray (map (\<lambda>x. JString (overlapKey x)) xs))" by (auto simp: list_all_iff)
  from textual_marshal[OF this] show ?case by (simp add: validUtf8_ascii_Cons)
next
  case (3 m)
  then have "textual (JObject (map (\<lambda>p. (fst p, JString (overlapKey (snd p)))) m))" by (auto simp: list_all_iff)
  from textual_marshal[OF this] show ?case by (simp add: validUtf8_ascii_Cons)
qed (simp_all add: validUtf8_ascii_Cons)

lemma overlapKey_kinds:
  "hd (overlapKey v) = (case v of JNumber _ \<Rightarrow> CHR ''n'' | JArray _ \<Rightarrow> CHR ''a'' | JObject _ \<Rightarrow> CHR ''o'' | _ \<Rightarrow> CHR ''v'')"
  by (cases v) (auto simp: overlapNumberKey_def Let_def split: prod.split)

lemma marshal_leaves:
  assumes "isLeaf v" "isLeaf w" "admittedJson v" "admittedJson w" "\<forall>t. v \<noteq> JNumber t" "\<forall>t. w \<noteq> JNumber t"
  shows "marshal v = marshal w \<longleftrightarrow> jsonEqual v w"
proof -
  have "textual z" if "isLeaf z" "admittedJson z" "\<forall>t. z \<noteq> JNumber t" for z
    using that by (cases z) (auto simp: isLeaf_def)
  then have "textual v" "textual w" using assms by blast+
  with marshal_identity[of v w] assms(3,4) show ?thesis by (simp add: admitted_wf)
qed

lemma overlapKey_exact:
  assumes "admittedJson v" "admittedJson w"
  shows "overlapKey v = overlapKey w \<longleftrightarrow> jsonEqual v w"
  using assms
proof (induction v arbitrary: w rule: overlapKey.induct)
  case (1 t)
  show ?case
    using 1 overlapNumberKey_exact overlapKey_kinds[of "JNumber t"] overlapKey_kinds[of w] by (cases w) auto
next
  case (2 xs)
  show ?case
  proof (cases w)
    case (JArray ys)
    let ?k = "\<lambda>zs. JArray (map (\<lambda>x. JString (overlapKey x)) zs)"
    have t: "textual (?k xs)" "textual (?k ys)" using "2.prems" JArray validUtf8_overlapKey by (auto simp: list_all_iff)
    have j: "jsonWf (?k xs)" "jsonWf (?k ys)" by (auto simp: list_all_iff)
    have "overlapKey (JArray xs) = overlapKey w \<longleftrightarrow> jsonEqual (?k xs) (?k ys)"
      using marshal_identity[OF j t] JArray by simp
    also have "\<dots> \<longleftrightarrow> length xs = length ys \<and> (\<forall>p \<in> set (zip xs ys). overlapKey (fst p) = overlapKey (snd p))"
      by (auto simp: list_all_iff zip_map_map)
    also have "\<dots> \<longleftrightarrow> length xs = length ys \<and> (\<forall>p \<in> set (zip xs ys). jsonEqual (fst p) (snd p))"
    proof -
      have "overlapKey (fst p) = overlapKey (snd p) \<longleftrightarrow> jsonEqual (fst p) (snd p)" if p: "p \<in> set (zip xs ys)" for p
      proof (rule "2.IH")
        show "fst p \<in> set xs" using p by (metis prod.collapse set_zip_leftD)
        have "fst p \<in> set xs" "snd p \<in> set ys" using p by (metis prod.collapse set_zip_leftD set_zip_rightD)+
        then show "admittedJson (fst p)" "admittedJson (snd p)" using "2.prems" JArray by (auto simp: list_all_iff)
      qed
      then show ?thesis by blast
    qed
    finally show ?thesis using JArray by (auto simp: list_all_iff)
  qed (use overlapKey_kinds[of "JArray xs"] overlapKey_kinds[of w] in \<open>auto dest!: arg_cong[where f = hd]\<close>)
next
  case (3 m)
  show ?case
  proof (cases w)
    case (JObject n)
    let ?k = "\<lambda>m. JObject (map (\<lambda>p. (fst p, JString (overlapKey (snd p)))) m)"
    have t: "textual (?k m)" "textual (?k n)" using "3.prems" JObject validUtf8_overlapKey by (auto simp: list_all_iff)
    have j: "jsonWf (?k m)" "jsonWf (?k n)" using "3.prems" JObject by (auto simp: list_all_iff comp_def)
    have look: "map_of (map (\<lambda>p. (fst p, JString (overlapKey (snd p)))) n) k = map_option (\<lambda>v. JString (overlapKey v)) (map_of n k)" for k
      by (induction n) auto
    have "overlapKey (JObject m) = overlapKey w \<longleftrightarrow> jsonEqual (?k m) (?k n)"
      using marshal_identity[OF j t] JObject by simp
    also have "\<dots> \<longleftrightarrow> length m = length n \<and>
        (\<forall>p \<in> set m. case map_of n (fst p) of None \<Rightarrow> False | Some v \<Rightarrow> overlapKey (snd p) = overlapKey v)"
      by (auto simp: list_all_iff look split: option.splits)
    also have "\<dots> \<longleftrightarrow> length m = length n \<and>
        (\<forall>p \<in> set m. case map_of n (fst p) of None \<Rightarrow> False | Some v \<Rightarrow> jsonEqual (snd p) v)"
    proof -
      have "overlapKey (snd p) = overlapKey v \<longleftrightarrow> jsonEqual (snd p) v" if "p \<in> set m" "map_of n (fst p) = Some v" for p v
      proof (rule "3.IH"[OF that(1)])
        from that(2) have "(fst p, v) \<in> set n" by (rule map_of_SomeD)
        with that(1) "3.prems" JObject show "admittedJson (snd p)" "admittedJson v"
          by (auto simp: list_all_iff)
      qed
      then show ?thesis by (auto split: option.splits)
    qed
    finally show ?thesis using JObject by (auto simp: list_all_iff)
  qed (use overlapKey_kinds[of "JObject m"] overlapKey_kinds[of w] in \<open>auto dest!: arg_cong[where f = hd]\<close>)
next
  case 4
  show ?case using 4 marshal_leaves[of JNull w] overlapKey_kinds[of w]
    by (cases w) (auto simp: isLeaf_def dest!: arg_cong[where f = hd])
next
  case (5 b)
  show ?case using 5 marshal_leaves[of "JBool b" w] overlapKey_kinds[of w]
    by (cases w) (auto simp: isLeaf_def dest!: arg_cong[where f = hd])
next
  case (6 s)
  show ?case using 6 marshal_leaves[of "JString s" w] overlapKey_kinds[of w]
    by (cases w) (auto simp: isLeaf_def dest!: arg_cong[where f = hd])
qed

end
