(* ===== verification/Overlap_Clauses.thy ===== *)
theory Overlap_Clauses
  imports Overlap_Keys Kleene
begin

section \<open>Clauses and their meaning\<close>

text \<open>
  A formula that is not cut short says exactly when its condition has the verdict asked for: when some
  clause has only terms that hold. Two symbols with one key hold together.
\<close>

subsection \<open>What the budget leaves\<close>

lemma charged_Some [simp]:
  "andPay f g b = Some (Some y, b') \<longleftrightarrow> (\<exists>x b1. f b = Some (Some x, b1) \<and> g x b1 = Some (Some y, b'))"
  "takeUnits n b = Some (Some u, b') \<longleftrightarrow> b' = b - int n \<and> b' \<ge> 0"
  "done_with x b = Some (Some y, b') \<longleftrightarrow> y = x \<and> b' = b"
  "cut b \<noteq> Some (Some y, b')" "panic b = None" "panic b \<noteq> Some r"
  by (auto simp: andPay_def takeUnits_def done_with_def cut_def panic_def split: option.splits prod.splits)

subsection \<open>Terms\<close>

definition holds :: "(string \<Rightarrow> tri option) \<Rightarrow> json \<Rightarrow> overlapTerm \<Rightarrow> bool" where
  "holds ev doc t \<longleftrightarrow> meaning False ev (JObject (otNode t)) doc = triFromBool (otTruth t)"

definition satisfied :: "(string \<Rightarrow> tri option) \<Rightarrow> json \<Rightarrow> overlapClause list \<Rightarrow> bool" where
  "satisfied ev doc cs \<longleftrightarrow> (\<exists>c \<in> set cs. \<forall>t \<in> set c. holds ev doc t)"

lemma satisfied_simps [simp]:
  "\<not> satisfied ev doc []" "satisfied ev doc (c # cs) \<longleftrightarrow> (\<forall>t \<in> set c. holds ev doc t) \<or> satisfied ev doc cs"
  "satisfied ev doc (cs @ ds) \<longleftrightarrow> satisfied ev doc cs \<or> satisfied ev doc ds"
  by (auto simp: satisfied_def)

lemma joinRow_exact:
  "joinRow a cs b = Some (Some rows, b') \<Longrightarrow> rows = map (\<lambda>c. a @ c) cs"
  by (induction cs arbitrary: b rows b') auto

lemma joinClauses_exact:
  "joinClauses as cs b = Some (Some rows, b') \<Longrightarrow> rows = concat (map (\<lambda>a. map (\<lambda>c. a @ c) cs) as)"
  by (induction as arbitrary: b rows b') (auto dest: joinRow_exact)

lemma satisfied_joined:
  "satisfied ev doc (concat (map (\<lambda>a. map (\<lambda>c. a @ c) cs) as)) \<longleftrightarrow> satisfied ev doc as \<and> satisfied ev doc cs"
  by (auto simp: satisfied_def)

lemma triFromBool_cases [simp]:
  "triFromBool b = triTrue \<longleftrightarrow> b" "triFromBool b = triFalse \<longleftrightarrow> \<not> b" "triFromBool b \<noteq> triUnknown" "triUnknown \<noteq> triFromBool b"
  "triFromBool b = triFromBool c \<longleftrightarrow> b = c"
  by (cases b; cases c; simp add: triFromBool_def)+

lemma negTri_triFromBool [simp]: "negTri t = triFromBool b \<longleftrightarrow> t = triFromBool (\<not> b)"
  by (cases t; cases b) (simp_all add: triFromBool_def)

text \<open>The verdict of \<open>all\<close> and \<open>any\<close>, by what the walk multiplies and what it adds.\<close>

lemma kleene_verdict:
  "kleeneAll (map f xs) = triTrue \<longleftrightarrow> (\<forall>x \<in> set xs. f x = triTrue)"
  "kleeneAll (map f xs) = triFalse \<longleftrightarrow> (\<exists>x \<in> set xs. f x = triFalse)"
  "kleeneAny (map f xs) = triTrue \<longleftrightarrow> (\<exists>x \<in> set xs. f x = triTrue)"
  "kleeneAny (map f xs) = triFalse \<longleftrightarrow> (\<forall>x \<in> set xs. f x = triFalse)"
proof -
  have ord: "min t u = triTrue \<longleftrightarrow> t = triTrue \<and> u = triTrue" "min t u = triFalse \<longleftrightarrow> t = triFalse \<or> u = triFalse"
    "max t u = triTrue \<longleftrightarrow> t = triTrue \<or> u = triTrue" "max t u = triFalse \<longleftrightarrow> t = triFalse \<and> u = triFalse" for t u :: tri
    by (cases t; cases u; simp add: min_def max_def)+
  show "kleeneAll (map f xs) = triTrue \<longleftrightarrow> (\<forall>x \<in> set xs. f x = triTrue)"
    "kleeneAll (map f xs) = triFalse \<longleftrightarrow> (\<exists>x \<in> set xs. f x = triFalse)"
    "kleeneAny (map f xs) = triTrue \<longleftrightarrow> (\<exists>x \<in> set xs. f x = triTrue)"
    "kleeneAny (map f xs) = triFalse \<longleftrightarrow> (\<forall>x \<in> set xs. f x = triFalse)"
    by (induction xs) (simp_all add: ord)
qed

lemma overlapDNF_exact:
  "overlapDNF m truth b = Some (Some cs, b') \<Longrightarrow>
     meaning False ev (JObject m) doc = triFromBool truth \<longleftrightarrow> satisfied ev doc cs"
  "overlapChildren product truth items clauses b = Some (Some cs, b') \<Longrightarrow>
     satisfied ev doc cs \<longleftrightarrow>
       (if product then satisfied ev doc clauses \<and> (\<forall>c \<in> set items. meaning False ev c doc = triFromBool truth)
        else satisfied ev doc clauses \<or> (\<exists>c \<in> set items. meaning False ev c doc = triFromBool truth))"
proof (induction m truth b and product truth items clauses b arbitrary: cs b' and cs b' rule: overlapDNF_overlapChildren.induct)
  case (1 m truth b)
  let ?op = "stringOrEmpty (jget m ''op'')"
  note run = "1.prems"[unfolded overlapDNF.simps[of m truth b] Let_def]
  have b1: "takeUnits 1 b = Some (Some (), b - 1)" using run by (auto simp: takeUnits_def split: if_splits)
  consider "?op = ''literal''" | "?op = ''not''" | "?op = ''all'' \<or> ?op = ''any''"
    | "?op \<noteq> ''literal''" "?op \<noteq> ''not''" "?op \<noteq> ''all''" "?op \<noteq> ''any''" by blast
  then show ?case
  proof cases
    case 1
    then have "jget m ''op'' = JString ''literal''" by (cases "jget m ''op''") auto
    with run 1 show ?thesis
      by (cases "jget m ''value''") (auto simp: literalResult_def unsupported_def split: if_splits)
  next
    case 2
    then have op: "jget m ''op'' = JString ''not''" by (cases "jget m ''op''") auto
    with run 2 obtain c where c: "jget m ''condition'' = JObject c" "overlapDNF c (\<not> truth) (b - 1) = Some (Some cs, b')"
      by (auto split: json.splits)
    from "1.IH"(1)[OF b1 refl _ _ c(1) c(2)] op c show ?thesis by simp
  next
    case 3
    then obtain word where op: "jget m ''op'' = JString word" "word = ''all'' \<or> word = ''any''"
      by (cases "jget m ''op''") auto
    let ?product = "(word = ''all'') = truth" and ?v = "\<lambda>c. meaning False ev c doc"
    from run op obtain items where items: "jget m ''conditions'' = JArray items"
      "overlapChildren ?product truth items (if ?product then [[]] else []) (b - 1) = Some (Some cs, b')"
      by (auto split: json.splits)
    have len: "stringOrEmpty (jget m ''op'') = word" using op by simp
    have IH: "satisfied ev doc cs \<longleftrightarrow>
       (if ?product then satisfied ev doc (if ?product then [[]] else []) \<and> (\<forall>c \<in> set items. ?v c = triFromBool truth)
        else satisfied ev doc (if ?product then [[]] else []) \<or> (\<exists>c \<in> set items. ?v c = triFromBool truth))"
      using "1.IH"(2)[OF b1 len[symmetric] _ _ _ refl items(1) items(2)] op(2) by auto
    show ?thesis
    proof (cases "word = ''all''"; cases truth)
    qed (use IH op items(1) in \<open>auto simp: kleene_verdict triFromBool_def\<close>)
  next
    case 4
    with run show ?thesis by (auto simp: holds_def)
  qed
next
  case (2 product truth clauses b)
  then show ?case by auto
next
  case (3 product truth c rest clauses b)
  from "3.prems" obtain child b1 where child: "overlapDNF c truth b = Some (Some child, b1)"
    and k: "(if \<not> product then
         (if length clauses + length child > overlapClauseLimit then cut b1
          else overlapChildren product truth rest (clauses @ child) b1)
       else if length clauses * length child > overlapClauseLimit then cut b1
       else andPay (joinClauses clauses child) (\<lambda>joined b2. overlapChildren product truth rest joined b2) b1) = Some (Some cs, b')"
    by auto
  note c = "3.IH"(1)[OF child]
  show ?case
  proof (cases product)
    case False
    with k have "overlapChildren product truth rest (clauses @ child) b1 = Some (Some cs, b')" "\<not> length clauses + length child > overlapClauseLimit"
      by (auto split: if_splits)
    from "3.IH"(2)[OF child _ this(2) this(1)] False c show ?thesis by auto
  next
    case True
    with k obtain joined b2 where j: "joinClauses clauses child b1 = Some (Some joined, b2)"
      "overlapChildren product truth rest joined b2 = Some (Some cs, b')" "\<not> length clauses * length child > overlapClauseLimit"
      by (auto split: if_splits)
    from "3.IH"(3)[OF child _ j(3) j(1) j(2)] True c joinClauses_exact[OF j(1)] show ?thesis
      by (auto simp: satisfied_joined)
  qed
qed simp_all

subsection \<open>Where terms come from\<close>

definition leafNode :: "object \<Rightarrow> bool" where
  "leafNode m \<longleftrightarrow> stringOrEmpty (jget m ''op'') \<notin> {''literal'', ''not'', ''all'', ''any''}"

text \<open>Every term is a leaf of the condition: an admitted node, if the condition is admitted, and one that
  keeps any property the condition has of all its leaves.\<close>

function (sequential) everyLeaf :: "(object \<Rightarrow> bool) \<Rightarrow> json \<Rightarrow> bool" where
  "everyLeaf P (JObject m) =
     (let op = stringOrEmpty (jget m ''op'')
      in if op = ''literal'' then True
         else if op = ''not'' then everyLeaf P (jget m ''condition'')
         else if op = ''all'' \<or> op = ''any'' then
           (case jget m ''conditions'' of JArray cs \<Rightarrow> \<forall>c \<in> set cs. everyLeaf P c | _ \<Rightarrow> True)
         else P m)"
| "everyLeaf P v = True"
  by pat_completeness auto
termination
  by (relation "measure (\<lambda>(P, v). size v)") (simp_all only: in_measure case_prod_conv wf_measure size_condition_item size_jget_lt)

declare everyLeaf.simps(1) [simp del]

definition termsOf :: "overlapClause list \<Rightarrow> overlapTerm set" where
  "termsOf cs = (\<Union>c \<in> set cs. set c)"

lemma termsOf_simps [simp]:
  "termsOf [] = {}" "termsOf (c # cs) = set c \<union> termsOf cs" "termsOf (cs @ ds) = termsOf cs \<union> termsOf ds"
  by (auto simp: termsOf_def)

lemma termsOf_joined: "termsOf (concat (map (\<lambda>a. map (\<lambda>c. a @ c) cs) as)) \<subseteq> termsOf as \<union> termsOf cs"
  by (auto simp: termsOf_def)

lemma overlapDNF_terms:
  "overlapDNF m truth b = Some (Some cs, b') \<Longrightarrow> everyLeaf P (JObject m) \<Longrightarrow>
     \<forall>t \<in> termsOf cs. P (otNode t) \<and> leafNode (otNode t)"
  "overlapChildren product truth items clauses b = Some (Some cs, b') \<Longrightarrow> \<forall>c \<in> set items. everyLeaf P c \<Longrightarrow>
     \<forall>t \<in> termsOf clauses. P (otNode t) \<and> leafNode (otNode t) \<Longrightarrow> \<forall>t \<in> termsOf cs. P (otNode t) \<and> leafNode (otNode t)"
proof (induction m truth b and product truth items clauses b arbitrary: cs b' and cs b' rule: overlapDNF_overlapChildren.induct)
  case (1 m truth b)
  note run = "1.prems"(1)[unfolded overlapDNF.simps[of m truth b] Let_def]
  note leaf = "1.prems"(2)[unfolded everyLeaf.simps(1) Let_def]
  have b1: "takeUnits 1 b = Some (Some (), b - 1)" using run by (auto simp: takeUnits_def split: if_splits)
  obtain word where word: "stringOrEmpty (jget m ''op'') = word" by simp
  consider "word = ''literal''" | "word = ''not''" | "word = ''all'' \<or> word = ''any''"
    | "word \<noteq> ''literal''" "word \<noteq> ''not''" "word \<noteq> ''all''" "word \<noteq> ''any''" by blast
  then show ?case
  proof cases
    case 1
    with run word show ?thesis by (auto split: if_splits)
  next
    case 2
    with run word obtain c where c: "jget m ''condition'' = JObject c" "overlapDNF c (\<not> truth) (b - 1) = Some (Some cs, b')"
      by (auto split: json.splits)
    from "1.IH"(1)[OF b1 word[symmetric] _ _ c(1) c(2)] 2 leaf word c show ?thesis by simp
  next
    case 3
    let ?product = "(word = ''all'') = truth"
    from run 3 word obtain items where items: "jget m ''conditions'' = JArray items"
      "overlapChildren ?product truth items (if ?product then [[]] else []) (b - 1) = Some (Some cs, b')"
      by (auto split: json.splits)
    have "\<forall>c \<in> set items. everyLeaf P c" using leaf 3 word items(1) by auto
    moreover have "\<forall>t \<in> termsOf (if ?product then [[]] else []). P (otNode t) \<and> leafNode (otNode t)" by simp
    ultimately show ?thesis
      using "1.IH"(2)[OF b1 word[symmetric] _ _ _ refl items(1) items(2)] 3 by blast
  next
    case 4
    with run word leaf show ?thesis by (auto simp: leafNode_def)
  qed
next
  case (3 product truth c rest clauses b)
  from "3.prems"(1) obtain child b1 where child: "overlapDNF c truth b = Some (Some child, b1)"
    and k: "(if \<not> product then
         (if length clauses + length child > overlapClauseLimit then cut b1
          else overlapChildren product truth rest (clauses @ child) b1)
       else if length clauses * length child > overlapClauseLimit then cut b1
       else andPay (joinClauses clauses child) (\<lambda>joined b2. overlapChildren product truth rest joined b2) b1) = Some (Some cs, b')"
    by auto
  have c: "\<forall>t \<in> termsOf child. P (otNode t) \<and> leafNode (otNode t)" "\<forall>c \<in> set rest. everyLeaf P c"
    using "3.IH"(1)[OF child] "3.prems"(2) by simp_all
  show ?case
  proof (cases product)
    case False
    with k have r: "overlapChildren product truth rest (clauses @ child) b1 = Some (Some cs, b')" "\<not> length clauses + length child > overlapClauseLimit"
      by (auto split: if_splits)
    show ?thesis
      by (rule "3.IH"(2)[OF child _ r(2) r(1) c(2)]) (use False c(1) "3.prems"(3) in auto)
  next
    case True
    with k obtain joined b2 where j: "joinClauses clauses child b1 = Some (Some joined, b2)"
      "overlapChildren product truth rest joined b2 = Some (Some cs, b')" "\<not> length clauses * length child > overlapClauseLimit"
      by (auto split: if_splits)
    have "termsOf joined \<subseteq> termsOf clauses \<union> termsOf child" using joinClauses_exact[OF j(1)] termsOf_joined by simp
    then have t: "\<forall>t \<in> termsOf joined. P (otNode t) \<and> leafNode (otNode t)" using c(1) "3.prems"(3) by blast
    show ?thesis by (rule "3.IH"(3)[OF child _ j(3) j(1) j(2) c(2) t]) (simp add: True)
  qed
qed simp_all

lemma everyLeaf_admitted: "admittedJson v \<Longrightarrow> everyLeaf (\<lambda>m. admittedJson (JObject m)) v"
proof (induction "\<lambda>m :: object. admittedJson (JObject m)" v rule: everyLeaf.induct)
  case (1 m)
  have "\<forall>c \<in> set cs. everyLeaf (\<lambda>m. admittedJson (JObject m)) c"
    if "stringOrEmpty (jget m ''op'') = ''all'' \<or> stringOrEmpty (jget m ''op'') = ''any''" "jget m ''conditions'' = JArray cs" for cs
    using 1 that admitted_jget[of m "''conditions''"] by (auto simp: list_all_iff)
  then show ?case
    using 1 admitted_jget[of m "''condition''"] unfolding everyLeaf.simps(1) Let_def by (auto split: json.split)
qed simp_all

subsection \<open>Symbols\<close>

text \<open>Two equal objects have the same texts; so two leaves that are no facts and have one key have one
  meaning.\<close>

lemma jsonEqual_text:
  assumes "jsonEqual (JObject m) (JObject n)" "distinct (map fst m)" "distinct (map fst n)"
  shows "asString (jget m k) = asString (jget n k)"
proof -
  have d: "card (fst ` set m) = card (fst ` set n)" using assms by (simp add: distinct_card flip: set_map)
  have found: "\<exists>w. map_of n k = Some w \<and> jsonEqual v w" if "(k, v) \<in> set m" for k v
    using assms(1) that by (auto simp: list_all_iff split: option.splits)
  have sub: "fst ` set m \<subseteq> fst ` set n"
  proof
    fix k assume "k \<in> fst ` set m"
    then obtain v where "(k, v) \<in> set m" by auto
    then show "k \<in> fst ` set n" using found by (metis map_of_eq_None_iff option.distinct(1))
  qed
  then have names: "fst ` set m = fst ` set n" using d by (simp add: card_subset_eq)
  show ?thesis
  proof (cases "map_of m k")
    case None
    then have "map_of n k = None" using names by (simp add: map_of_eq_None_iff)
    with None show ?thesis by (simp add: jget_def)
  next
    case (Some v)
    then have "(k, v) \<in> set m" by (rule map_of_SomeD)
    with found obtain w where w: "map_of n k = Some w" "jsonEqual v w" by blast
    have "asString v = asString w" using w(2) by (cases v; cases w) auto
    with w(1) Some show ?thesis by (simp add: jget_def)
  qed
qed

lemma symbol_meaning:
  assumes "leafNode m" "leafNode n" "jget m ''op'' \<noteq> JString ''fact''" "jget n ''op'' \<noteq> JString ''fact''"
    and "admittedJson (JObject m)" "admittedJson (JObject n)" "overlapKey (JObject m) = overlapKey (JObject n)"
  shows "meaning False ev (JObject m) doc = meaning False ev (JObject n) doc"
proof -
  have "jsonEqual (JObject m) (JObject n)" using overlapKey_exact[OF assms(5,6)] assms(7) by blast
  from jsonEqual_text[OF this] assms(5,6) have t: "asString (jget m k) = asString (jget n k)" for k by simp
  have leaf: "meaning False ev (JObject x) doc =
      (if asString (jget x ''op'') = Some ''evidence-present'' then fst (evidenceResult ev x) else triUnknown)"
    if "leafNode x" "jget x ''op'' \<noteq> JString ''fact''" for x
    using that by (cases "jget x ''op''") (auto simp: leafNode_def)
  show ?thesis using leaf[OF assms(1,3)] leaf[OF assms(2,4)] t[of "''op''"] t[of "''evidenceRequirement''"]
    by (simp add: evidenceResult_def)
qed

lemma symbolClash_sound:
  assumes "symbolClash clause symbols"
    and "\<And>t. t \<in> set clause \<Longrightarrow> leafNode (otNode t) \<and> admittedJson (JObject (otNode t))"
    and "\<And>k v. map_of symbols k = Some v \<Longrightarrow> \<exists>n. leafNode n \<and> admittedJson (JObject n) \<and> jget n ''op'' \<noteq> JString ''fact'' \<and>
      k = overlapKey (JObject n) \<and> meaning False ev (JObject n) doc = triFromBool v"
  shows "\<exists>t \<in> set clause. \<not> holds ev doc t"
  using assms
proof (induction clause arbitrary: symbols)
  case (Cons t ts)
  have t: "leafNode (otNode t)" "admittedJson (JObject (otNode t))" using Cons.prems(2)[of t] by auto
  show ?case
  proof (cases "isFact t \<or> \<not> holds ev doc t")
    case True
    with Cons.IH[of symbols] Cons.prems show ?thesis by (cases "isFact t") auto
  next
    case False
    then have nf: "jget (otNode t) ''op'' \<noteq> JString ''fact''" and h: "meaning False ev (JObject (otNode t)) doc = triFromBool (otTruth t)"
      by (simp_all add: isFact_def holds_def)
    show ?thesis
    proof (cases "map_of symbols (overlapKey (JObject (otNode t)))")
      case None
      with False Cons.prems(1) have "symbolClash ts ((overlapKey (JObject (otNode t)), otTruth t) # symbols)" by simp
      then have "\<exists>t \<in> set ts. \<not> holds ev doc t"
        by (rule Cons.IH) (use Cons.prems(2,3) t nf h in \<open>auto split: if_splits\<close>)
      then show ?thesis by auto
    next
      case (Some previous)
      from Cons.prems(3)[OF Some] obtain n where n: "leafNode n" "admittedJson (JObject n)" "jget n ''op'' \<noteq> JString ''fact''"
        "overlapKey (JObject (otNode t)) = overlapKey (JObject n)" "meaning False ev (JObject n) doc = triFromBool previous" by blast
      have "previous = otTruth t"
        using symbol_meaning[OF t(1) n(1) nf n(3) t(2) n(2,4), of ev doc] n(5) h by simp
      with False Cons.prems(1) Some have "symbolClash ts symbols" by simp
      from Cons.IH[OF this] Cons.prems(2,3) show ?thesis by auto
    qed
  qed
qed simp

end
