(* ===== verification/Overlap_Budget.thy ===== *)
theory Overlap_Budget
  imports Overlap
begin

section \<open>The budget of the overlap advice only shrinks\<close>

text \<open>
  Every part of the check that compares two formulas hands on a budget no larger than the one it was
  given. The check starts with \<open>overlapWorkLimit\<close> units and pays for every text it writes, so no
  decimal it writes has more digits than \<open>Rat.SetString\<close> reads.
\<close>

definition shrinks :: "'a charged \<Rightarrow> bool" where
  "shrinks f \<longleftrightarrow> (\<forall>b r b'. f b = Some (r, b') \<longrightarrow> b' \<le> b)"

named_theorems shrinks

lemma shrinksD: "shrinks f \<Longrightarrow> f b = Some (r, b') \<Longrightarrow> b' \<le> b"
  by (simp add: shrinks_def)

lemma shrinks_basic [shrinks]: "shrinks (done_with x)" "shrinks cut" "shrinks panic" "shrinks (takeUnits n)"
  by (auto simp: shrinks_def done_with_def cut_def panic_def takeUnits_def)

lemma shrinks_andPay [shrinks]: "shrinks f \<Longrightarrow> (\<And>x. shrinks (g x)) \<Longrightarrow> shrinks (andPay f g)"
  unfolding shrinks_def andPay_def by (fastforce split: option.splits prod.splits)

lemma shrinks_if [shrinks]: "(c \<Longrightarrow> shrinks f) \<Longrightarrow> (\<not> c \<Longrightarrow> shrinks g) \<Longrightarrow> shrinks (if c then f else g)"
  by simp

lemma shrinks_option [shrinks]: "shrinks f \<Longrightarrow> (\<And>x. shrinks (g x)) \<Longrightarrow> shrinks (case v of None \<Rightarrow> f | Some x \<Rightarrow> g x)"
  by (cases v) simp_all

lemma shrinks_prod [shrinks]: "(\<And>x y. shrinks (f x y)) \<Longrightarrow> shrinks (case p of (x, y) \<Rightarrow> f x y)"
  by (cases p) simp

lemma shrinks_list [shrinks]: "shrinks f \<Longrightarrow> (\<And>x xs. shrinks (g x xs)) \<Longrightarrow> shrinks (case v of [] \<Rightarrow> f | x # xs \<Rightarrow> g x xs)"
  by (cases v) simp_all

subsection \<open>Clauses\<close>

lemma shrinks_joinRow [shrinks]: "shrinks (joinRow a cs)"
  by (induction cs) (auto intro!: shrinks)

lemma shrinks_joinClauses [shrinks]: "shrinks (joinClauses as cs)"
  by (induction as) (auto intro!: shrinks)

lemma andPay_le:
  "andPay f g b = Some (r, b') \<Longrightarrow> (\<And>r b1. f b = Some (r, b1) \<Longrightarrow> b1 \<le> b) \<Longrightarrow>
     (\<And>x b1. f b = Some (Some x, b1) \<Longrightarrow> g x b1 = Some (r, b') \<Longrightarrow> b' \<le> b1) \<Longrightarrow> b' \<le> b"
  by (fastforce simp: andPay_def split: option.splits prod.splits)

lemma overlapDNF_le:
  "overlapDNF m truth b = Some (r, b') \<Longrightarrow> b' \<le> b"
  "overlapChildren product truth items clauses b = Some (r, b') \<Longrightarrow> b' \<le> b"
proof (induction m truth b and product truth items clauses b arbitrary: r b' and r b' rule: overlapDNF_overlapChildren.induct)
  case (1 m truth b)
  from "1.prems"[unfolded overlapDNF.simps[of m truth b]] show ?case
  proof (rule andPay_le)
    fix x b1
    assume t: "takeUnits 1 b = Some (Some x, b1)"
      and k: "(let op = stringOrEmpty (jget m ''op'')
       in if op = ''literal'' then done_with (if jget m ''value'' = JBool truth then [[]] else []) b1
          else if op = ''not'' then
            (case jget m ''condition'' of JObject c \<Rightarrow> overlapDNF c (\<not> truth) b1 | _ \<Rightarrow> panic b1)
          else if op \<noteq> ''all'' \<and> op \<noteq> ''any'' then done_with [[\<lparr>otNode = m, otTruth = truth\<rparr>]] b1
          else
            (let product = ((op = ''all'') = truth)
             in case jget m ''conditions'' of
                  JArray cs \<Rightarrow> overlapChildren product truth cs (if product then [[]] else []) b1
                | _ \<Rightarrow> panic b1)) = Some (r, b')"
    from k show "b' \<le> b1"
      using "1.IH"(1)[OF t refl, of _ r b'] "1.IH"(2)[OF t refl _ _ _ refl, of _ r b']
      by (auto simp: Let_def done_with_def panic_def split: if_splits json.splits)
  qed (rule shrinksD[OF shrinks_basic(4)])
next
  case (3 product truth c rest clauses b)
  from "3.prems"[unfolded overlapChildren.simps] show ?case
  proof (rule andPay_le)
    fix child b1
    assume d: "overlapDNF c truth b = Some (Some child, b1)"
      and k: "(if \<not> product then
         (if length clauses + length child > overlapClauseLimit then cut b1
          else overlapChildren product truth rest (clauses @ child) b1)
       else if length clauses * length child > overlapClauseLimit then cut b1
       else andPay (joinClauses clauses child) (\<lambda>joined b2. overlapChildren product truth rest joined b2) b1) = Some (r, b')"
    note sum = "3.IH"(2)[OF d, of r b'] and joined = "3.IH"(3)[OF d, of _ _ r b']
    show "b' \<le> b1"
    proof (cases "product \<and> \<not> length clauses * length child > overlapClauseLimit")
      case True
      with k have "andPay (joinClauses clauses child) (\<lambda>joined b2. overlapChildren product truth rest joined b2) b1 = Some (r, b')"
        by simp
      then show ?thesis
        by (rule andPay_le[OF _ shrinksD[OF shrinks_joinClauses]]) (use True joined in auto)
    next
      case False
      with k sum show ?thesis by (auto simp: cut_def split: if_splits)
    qed
  qed (rule "3.IH"(1))
qed (auto simp: done_with_def panic_def)

subsection \<open>Values\<close>

lemma shrinks_addOperands [shrinks]: "shrinks (addOperands vs s)"
  by (induction vs arbitrary: s) (auto intro!: shrinks)

lemma shrinks_addTerms [shrinks]: "shrinks (addTerms ts s)"
  by (induction ts arbitrary: s) (auto intro!: shrinks)

lemma shrinks_extendText [shrinks]: "shrinks (extendText seen s)"
  unfolding shrinks_def
proof (intro allI impI)
  fix b r b' assume "extendText seen s b = Some (r, b')"
  then show "b' \<le> b"
    by (induction seen s b arbitrary: r b' rule: extendText.induct)
       (subst (asm) (2) extendText.simps, fastforce simp: done_with_def cut_def split: if_splits)
qed

lemma shrinks_freshDecimal [shrinks]: "shrinks (freshDecimal r d s)"
  unfolding freshDecimal_def by (intro shrinks)

lemma shrinks_freshPoints [shrinks]: "shrinks (freshPoints first ps s)"
  by (induction ps arbitrary: first s) (auto intro!: shrinks)

lemma shrinks_overlapValues [shrinks]: "shrinks (overlapValues ts)"
  unfolding overlapValues_def Let_def by (intro shrinks)

subsection \<open>Pairs\<close>

lemma shrinks_matchesAll [shrinks]: "shrinks (matchesAll v ts)"
  by (induction ts) (auto intro!: shrinks)

lemma shrinks_firstMatch [shrinks]: "shrinks (firstMatch vs ts)"
  by (induction vs) (auto intro!: shrinks)

lemma shrinks_tryGroups [shrinks]: "shrinks (tryGroups clause single ps w)"
  by (induction ps arbitrary: w) (auto intro!: shrinks)

lemma shrinks_tryPairs [shrinks]: "shrinks (tryPairs iter single exact p prs)"
  by (induction iter single exact p prs rule: tryPairs.induct) (auto intro!: shrinks simp: Let_def)

lemma shrinks_scanTerms [shrinks]: "shrinks (scanTerms ts ps other)"
  by (induction ts arbitrary: ps other) (auto intro!: shrinks)

lemma shrinks_comparePair [shrinks]: "shrinks (comparePair iter ca cb)"
  unfolding comparePair_def by (intro shrinks)

lemma overlapPair_le: "overlapPair iter a b n = Some (v, n') \<Longrightarrow> n' \<le> n"
  by (auto simp: overlapPair_def dest: shrinksD[OF shrinks_comparePair] split: if_splits option.splits)

end
