(* ===== verification/Overlap_Values.thy ===== *)
theory Overlap_Values
  imports Overlap_Clauses Overlap_Budget
begin

section \<open>The values to try are enough\<close>

text \<open>
  The finite set of values that \<open>overlapValues\<close> builds for the terms of one path represents every value
  a document may hold there: whatever the terms say of that value, they say of some value tried. The
  decimals among the operands cut the line into points and intervals, and each of them has a fresh
  spelling.
\<close>

subsection \<open>Spellings of decimals\<close>

definition spells :: "rat \<Rightarrow> string \<Rightarrow> bool" where
  "spells r s \<longleftrightarrow>
     (\<exists>neg ds fs. wholePart ds \<and> list_all isDigit fs \<and>
        s = (if neg then ''-'' else []) @ ds @ (if fs = [] then [] else CHR ''.'' # fs) \<and>
        r = signOf neg * of_nat (digitsVal (ds @ fs)) / 10 ^ length fs)"

lemma fractionDigits_le: "fractionDigits s \<le> length s"
proof (cases "CHR ''.'' \<in> set s")
  case True
  then obtain a b where "s = a @ CHR ''.'' # b" "CHR ''.'' \<notin> set a" by (metis split_list_first)
  then show ?thesis by (simp add: fractionDigits_def cutAt_append)
qed (simp add: fractionDigits_def cutAt_no_sep)

lemma spells_reads: "spells r s \<Longrightarrow> decimalPattern s \<and> ratOfDecimal s = r \<and> fractionDigits s \<le> length s"
proof -
  assume "spells r s"
  then obtain neg ds fs where s: "wholePart ds" "list_all isDigit fs"
    "s = (if neg then ''-'' else []) @ ds @ (if fs = [] then [] else CHR ''.'' # fs)"
    "r = signOf neg * of_nat (digitsVal (ds @ fs)) / 10 ^ length fs" by (auto simp: spells_def)
  show ?thesis
    using read_whole[OF s(1), of neg] read_fraction[OF s(1,2), of neg] fractionDigits_le[of s] s(3,4)
    by (cases "fs = []") simp_all
qed

lemma spells_dot:
  assumes "wholePart ds" "list_all isDigit fs" "s = (if neg then ''-'' else []) @ ds @ (if fs = [] then [] else CHR ''.'' # fs)"
  shows "CHR ''.'' \<in> set s \<longleftrightarrow> fs \<noteq> []"
  using assms digits_no_dot[of ds] by (auto simp: wholePart_def)

lemma spells_extend: "spells r s \<Longrightarrow> spells r (if CHR ''.'' \<in> set s then s @ ''0'' else s @ ''.0'')"
proof -
  assume "spells r s"
  then obtain neg ds fs where s: "wholePart ds" "list_all isDigit fs"
    "s = (if neg then ''-'' else []) @ ds @ (if fs = [] then [] else CHR ''.'' # fs)"
    "r = signOf neg * of_nat (digitsVal (ds @ fs)) / 10 ^ length fs" by (auto simp: spells_def)
  have z: "isDigit (CHR ''0'')" by code_simp
  have v: "r = signOf neg * of_nat (digitsVal (ds @ fs @ ''0'')) / 10 ^ length (fs @ ''0'')"
    using s(4) digitsVal_snoc[of "ds @ fs" "CHR ''0''"] by simp
  have t: "(if CHR ''.'' \<in> set s then s @ ''0'' else s @ ''.0'') =
      (if neg then ''-'' else []) @ ds @ (if fs @ ''0'' = [] then [] else CHR ''.'' # fs @ ''0'')"
    using spells_dot[OF s(1-3)] s(3) by auto
  show ?thesis unfolding spells_def
    by (rule exI[of _ neg], rule exI[of _ ds], rule exI[of _ "fs @ ''0''"]) (use s(1,2) z v t in simp)
qed

lemma natString_length: "n < 10 ^ d \<Longrightarrow> 0 < d \<Longrightarrow> length (natString n) \<le> d"
proof (induction n arbitrary: d rule: natString.induct)
  case (1 n)
  show ?case
  proof (cases "n < 10")
    case True
    then show ?thesis using "1.prems" by (simp add: natString.simps[of n])
  next
    case False
    obtain k where d: "d = Suc k" using "1.prems"(2) by (cases d) auto
    have "0 < k" using False "1.prems"(1) d by (cases k) auto
    moreover have "n div 10 < 10 ^ k" using "1.prems"(1) d by (simp add: div_less_iff_less_mult mult.commute)
    ultimately have "length (natString (n div 10)) \<le> k" using "1.IH" False by blast
    with False d show ?thesis by (simp add: natString.simps[of n])
  qed
qed

lemma floatString_spells:
  assumes "r * 10 ^ d \<in> \<int>"
  shows "spells r (floatString d r)"
proof -
  obtain k where k: "r * 10 ^ d = of_int k" using assms by (auto elim: Ints_cases)
  let ?n = "nat \<bar>k\<bar>" and ?P = "(10::nat) ^ d"
  have "\<bar>r\<bar> * 10 ^ d = of_int \<bar>k\<bar>" using k by (metis abs_mult abs_of_nonneg of_int_abs power_eq_0_iff zero_le_numeral zero_le_power)
  moreover have "\<lfloor>of_int \<bar>k\<bar> + (1 / 2 :: rat)\<rfloor> = \<bar>k\<bar>" by (rule floor_unique) simp_all
  ultimately have n: "nat \<lfloor>\<bar>r\<bar> * 10 ^ d + 1 / 2\<rfloor> = ?n" by simp
  let ?frac = "natString (?n mod ?P)"
  let ?fs = "if d = 0 then [] else replicate (d - length ?frac) (CHR ''0'') @ ?frac"
  have z: "isDigit (CHR ''0'')" by code_simp
  have digits: "list_all isDigit ?fs" using natString_digits z by (auto simp: list_all_iff)
  have len: "length ?fs = d" using natString_length[of "?n mod ?P" d] by auto
  have val: "digitsVal (natString (?n div ?P) @ ?fs) = ?n"
  proof -
    have "digitsVal ?fs = ?n mod ?P" by simp
    then show ?thesis
      by (simp only: digitsVal_append[of _ ?fs] len digitsVal_natString div_mult_mod_eq)
  qed
  have sgn: "signOf (r < 0) * of_nat ?n = of_int k"
  proof -
    have "r < 0 \<longleftrightarrow> k < 0" using k by (metis mult_less_0_iff not_less of_int_0_less_iff of_int_less_0_iff zero_le_numeral zero_le_power zero_less_numeral zero_less_power)
    then show ?thesis by (auto simp: signOf_def)
  qed
  have "r = of_int k / 10 ^ d" using k by (simp add: field_simps)
  then have r: "r = signOf (r < 0) * of_nat (digitsVal (natString (?n div ?P) @ ?fs)) / 10 ^ length ?fs"
    unfolding val len sgn .
  have "floatString d r = (if r < 0 then ''-'' else []) @ natString (?n div ?P) @ (if ?fs = [] then [] else CHR ''.'' # ?fs)"
    unfolding floatString_def n Let_def using len by auto
  with digits wholePart_natString r show ?thesis unfolding spells_def by blast
qed

lemma cutAt_Cons: "x \<noteq> c \<Longrightarrow> cutAt c (x # xs) = (case cutAt c xs of (a, b, f) \<Rightarrow> (x # a, b, f))"
proof (cases "c \<in> set xs")
  case True
  assume x: "x \<noteq> c"
  from True obtain a b where "xs = a @ c # b" "c \<notin> set a" by (metis split_list_first)
  with x cutAt_append[of c a b] cutAt_append[of c "x # a" b] show ?thesis by simp
qed (simp add: cutAt_no_sep)

lemma decimal_scaled:
  assumes "decimalPattern s" "fractionDigits s \<le> d"
  shows "ratOfDecimal s * 10 ^ d \<in> \<int>"
proof -
  let ?neg = "s \<noteq> [] \<and> hd s = CHR ''-''"
  let ?body = "if ?neg then tl s else s"
  obtain integer fraction found where c: "cutAt (CHR ''.'') ?body = (integer, fraction, found)" by (metis prod_cases3)
  have "cutAt (CHR ''.'') s = (if ?neg then CHR ''-'' # integer else integer, fraction, found)"
    using c cutAt_Cons[of "CHR ''-''" "CHR ''.''" "tl s"] by (cases s) auto
  then have f: "length fraction \<le> d" using assms(2) by (simp add: fractionDigits_def)
  then obtain k where k: "d = length fraction + k" by (metis le_add_diff_inverse)
  have "ratOfDecimal s * 10 ^ d = signOf ?neg * of_nat (digitsVal (integer @ fraction)) * 10 ^ k"
    unfolding ratOfDecimal_def Let_def c k by (simp add: power_add)
  also have "\<dots> \<in> \<int>" by (auto simp: signOf_def)
  finally show ?thesis .
qed

subsection \<open>Collecting values\<close>

definition wellCollected :: "valueSet \<Rightarrow> bool" where
  "wellCollected s \<longleftrightarrow>
     set (vsSeen s) = overlapKey ` set (vsValues s) \<and> distinct (vsSeen s) \<and> (\<forall>v \<in> set (vsValues s). admittedJson v) \<and>
     distinct (vsPoints s) \<and> (\<forall>p \<in> set (vsPoints s). p * 10 ^ vsScale s \<in> \<int>)"

lemma wellCollected_none [simp]: "wellCollected noValues"
  by (simp add: wellCollected_def noValues_def)

lemma addValue_simps [simp]:
  "vsPoints (addValue v s) = vsPoints s" "vsScale (addValue v s) = vsScale s"
  "set (vsSeen (addValue v s)) = insert (overlapKey v) (set (vsSeen s))"
  "set (vsValues s) \<subseteq> set (vsValues (addValue v s))"
  by (auto simp: addValue_def)

lemma addValue_well: "wellCollected s \<Longrightarrow> admittedJson v \<Longrightarrow> wellCollected (addValue v s)"
  by (auto simp: wellCollected_def addValue_def)

lemma scaled_up: "(p::rat) * 10 ^ d \<in> \<int> \<Longrightarrow> d \<le> e \<Longrightarrow> p * 10 ^ e \<in> \<int>"
proof -
  assume "p * 10 ^ d \<in> \<int>" "d \<le> e"
  then obtain k where "e = d + k" "p * 10 ^ d \<in> \<int>" by (metis le_add_diff_inverse)
  then show ?thesis by (simp add: power_add mult.assoc[symmetric])
qed

lemma notePoint_simps [simp]:
  "vsSeen (notePoint v s) = vsSeen s" "vsValues (notePoint v s) = vsValues s"
  "set (vsPoints (notePoint v s)) = set (vsPoints s) \<union> {r. overlapNumber v = Some r}"
  by (auto simp: notePoint_def split: option.splits)

lemma notePoint_well: "wellCollected s \<Longrightarrow> wellCollected (notePoint v s)"
proof (cases "overlapNumber v")
  case (Some r)
  assume w: "wellCollected s"
  from Some obtain t where t: "v = JString t" "decimalPattern t" "r = ratOfDecimal t"
    using decimalValue_string unfolding overlapNumber_def by blast
  have "r * 10 ^ max (vsScale s) (fractionDigits t) \<in> \<int>" using decimal_scaled[OF t(2)] t(3) by simp
  with w Some t show ?thesis
    by (auto simp: wellCollected_def notePoint_def intro: scaled_up[OF _ max.cobounded1])
qed (simp add: notePoint_def)

definition holdsOperand :: "valueSet \<Rightarrow> json \<Rightarrow> bool" where
  "holdsOperand s v \<longleftrightarrow> overlapKey v \<in> set (vsSeen s) \<and> (\<forall>r. overlapNumber v = Some r \<longrightarrow> r \<in> set (vsPoints s))"

definition grows :: "valueSet \<Rightarrow> valueSet \<Rightarrow> bool" where
  "grows s s' \<longleftrightarrow> set (vsSeen s) \<subseteq> set (vsSeen s') \<and> set (vsPoints s) \<subseteq> set (vsPoints s')"

lemma valuesGrow_refl [simp]: "grows s s" and valuesGrow_trans: "grows s t \<Longrightarrow> grows t u \<Longrightarrow> grows s u"
  by (auto simp: grows_def)

lemma grows_holds: "grows s s' \<Longrightarrow> holdsOperand s v \<Longrightarrow> holdsOperand s' v"
  by (auto simp: grows_def holdsOperand_def)

lemma addOperands_exact:
  "addOperands vs s b = Some (Some s', b') \<Longrightarrow> wellCollected s \<Longrightarrow> list_all admittedJson vs \<Longrightarrow>
     wellCollected s' \<and> grows s s' \<and> (\<forall>v \<in> set vs. holdsOperand s' v)"
proof (induction vs arbitrary: s b)
  case (Cons v vs)
  then obtain b1 where r: "addOperands vs (notePoint v (addValue v s)) b1 = Some (Some s', b')" by auto
  have w: "wellCollected (notePoint v (addValue v s))" using Cons.prems by (simp add: notePoint_well addValue_well)
  have h: "holdsOperand (notePoint v (addValue v s)) v" "grows s (notePoint v (addValue v s))"
    by (auto simp: holdsOperand_def grows_def)
  from Cons.IH[OF r w] Cons.prems(3) h show ?case by (auto intro: valuesGrow_trans grows_holds)
qed simp

lemma addTerms_exact:
  "addTerms ts s b = Some (Some s', b') \<Longrightarrow> wellCollected s \<Longrightarrow> \<forall>t \<in> set ts. admittedJson (JObject (otNode t)) \<Longrightarrow>
     wellCollected s' \<and> grows s s' \<and>
     (\<forall>t \<in> set ts. \<exists>operands. operandsOf (otNode t) = Some operands \<and> (\<forall>v \<in> set operands. holdsOperand s' v))"
proof (induction ts arbitrary: s b)
  case (Cons t ts)
  from Cons.prems(1) obtain operands s1 b1 b2 where r: "operandsOf (otNode t) = Some operands"
    "addOperands operands s b1 = Some (Some s1, b2)" "addTerms ts s1 b2 = Some (Some s', b')"
    by (auto split: option.splits)
  have "list_all admittedJson operands"
    using r(1) Cons.prems(3) admitted_jget[of "otNode t" "''value''"] by (auto simp: operandsOf_def split: if_splits json.splits)
  from addOperands_exact[OF r(2) Cons.prems(2) this]
  have a: "wellCollected s1" "grows s s1" "\<forall>v \<in> set operands. holdsOperand s1 v" by auto
  from Cons.IH[OF r(3) a(1)] Cons.prems(3) a(2,3) r(1) show ?case by (auto intro: valuesGrow_trans grows_holds)
qed simp

subsection \<open>Fresh spellings\<close>

lemma fractionDigits_extend:
  "fractionDigits (if CHR ''.'' \<in> set s then s @ ''0'' else s @ ''.0'') \<le> length s + 1"
proof (cases "CHR ''.'' \<in> set s")
  case True
  then show ?thesis using fractionDigits_le[of "s @ ''0''"] by simp
next
  case False
  then show ?thesis using cutAt_append[of "CHR ''.''" s "''0''"] by (simp add: fractionDigits_def)
qed

text \<open>Every digit of a spelling has been charged, so it is read back when the budget is within its
  limit.\<close>

lemma extendText_exact:
  "extendText seen s b = Some (Some t, b') \<Longrightarrow> spells r s \<Longrightarrow>
     spells r t \<and> overlapKey (JString t) \<notin> set seen \<and> int (fractionDigits t) \<le> max b (int (fractionDigits s))"
proof (induction seen s b rule: extendText.induct)
  case (1 seen s b)
  show ?case
  proof (cases "overlapKey (JString s) \<in> set seen")
    case True
    with "1.prems"(1)[unfolded extendText.simps[of seen s b]]
    have "b - int (length s + 1) \<ge> 0"
      "extendText seen (if CHR ''.'' \<in> set s then s @ ''0'' else s @ ''.0'') (b - int (length s + 1)) = Some (Some t, b')"
      by (auto split: if_splits)
    with "1.IH" True spells_extend[OF "1.prems"(2)] fractionDigits_extend[of s] show ?thesis by fastforce
  next
    case False
    with "1.prems" show ?thesis by (auto simp: extendText.simps[of seen s b])
  qed
qed

lemma spells_ascii: "spells r s \<Longrightarrow> validUtf8 s"
proof -
  assume "spells r s"
  then obtain neg ds fs where s: "wholePart ds" "list_all isDigit fs"
    "s = (if neg then ''-'' else []) @ ds @ (if fs = [] then [] else CHR ''.'' # fs)" by (auto simp: spells_def)
  then have "validUtf8 ds" "validUtf8 fs" by (auto simp: wholePart_def validUtf8_digits)
  with s(3) show ?thesis by (auto simp: validUtf8_append validUtf8_ascii_Cons)
qed

text \<open>A fresh spelling of a number: its key is none seen before.\<close>

definition freshFor :: "valueSet \<Rightarrow> valueSet \<Rightarrow> rat \<Rightarrow> bool" where
  "freshFor s s' r \<longleftrightarrow>
     (\<exists>t. JString t \<in> set (vsValues s') \<and> overlapNumber (JString t) = Some r \<and> overlapKey (JString t) \<notin> set (vsSeen s))"

definition extends :: "valueSet \<Rightarrow> valueSet \<Rightarrow> bool" where
  "extends s s' \<longleftrightarrow> wellCollected s' \<and> vsScale s' = vsScale s \<and> set (vsSeen s) \<subseteq> set (vsSeen s') \<and>
     set (vsValues s) \<subseteq> set (vsValues s')"

lemma extends_refl: "wellCollected s \<Longrightarrow> extends s s" and extends_trans: "extends s t \<Longrightarrow> extends t u \<Longrightarrow> extends s u"
  by (auto simp: extends_def)

lemma freshFor_mono: "freshFor s1 s2 r \<Longrightarrow> extends s s1 \<Longrightarrow> extends s2 s3 \<Longrightarrow> freshFor s s3 r"
  by (fastforce simp: freshFor_def extends_def)

lemma freshDecimal_exact:
  assumes "freshDecimal r d s b = Some (Some s', b')" "wellCollected s" "r * 10 ^ d \<in> \<int>"
  shows "extends s s' \<and> (b \<le> overlapWorkLimit \<longrightarrow> freshFor s s' r)"
proof -
  from assms(1) obtain t b1 where t: "extendText (vsSeen s) (floatString d r) b1 = Some (Some t, b')" "s' = addValue (JString t) s"
    and b1: "b1 \<le> b" "int (length (floatString d r)) \<le> b"
    by (auto simp: freshDecimal_def andPay_def takeUnits_def done_with_def split: option.splits prod.splits if_splits)
  note e = extendText_exact[OF t(1) floatString_spells[OF assms(3)]]
  have "int (fractionDigits t) \<le> b"
    using e b1 fractionDigits_le[of "floatString d r"] by linarith
  then have reads: "overlapNumber (JString t) = Some r" if "b \<le> overlapWorkLimit"
    using that e spells_reads[of r t]
    by (auto simp: overlapNumber_def ratSetString_Some overlapWorkLimit_def ratExponentLimit_def)
  have "admittedJson (JString t)" using e spells_ascii[of r t] by simp
  then have "wellCollected s'" using t(2) addValue_well[OF assms(2)] by simp
  moreover have "JString t \<in> set (vsValues s')" using e t(2) by (simp add: addValue_def)
  ultimately show ?thesis
    using t(2) e reads addValue_simps(3,4)[where v = "JString t" and s = s] by (auto simp: extends_def freshFor_def)
qed

text \<open>Two numbers no point tells apart.\<close>

definition sameCell :: "rat set \<Rightarrow> rat \<Rightarrow> rat \<Rightarrow> bool" where
  "sameCell P r q \<longleftrightarrow> (\<forall>p \<in> P. (q < p \<longleftrightarrow> r < p) \<and> (q = p \<longleftrightarrow> r = p))"

lemma freshPoints_exact:
  assumes "freshPoints first ps s b = Some (Some s', b')" "wellCollected s"
    and "sorted_wrt (<) ps" "\<forall>p \<in> set ps. p * 10 ^ vsScale s \<in> \<int>"
  shows "extends s s' \<and>
    (\<forall>r. b \<le> overlapWorkLimit \<and> ps \<noteq> [] \<and> (first \<or> hd ps \<le> r) \<longrightarrow> (\<exists>q. sameCell (set ps) r q \<and> freshFor s s' q))"
  using assms
proof (induction ps arbitrary: first s b)
  case Nil
  then show ?case by (auto simp: extends_refl)
next
  case (Cons p rest)
  let ?d = "vsScale s"
  obtain s1 s2 s3 b1 b2 b3 b4 where r1: "freshDecimal p ?d s b1 = Some (Some s1, b2)"
    and r2: "(if first then freshDecimal (p - 1) ?d s1 else done_with s1) b2 = Some (Some s2, b3)"
    and r3: "(case rest of q # _ \<Rightarrow> freshDecimal ((p + q) / 2) (?d + 1) s2 | [] \<Rightarrow> freshDecimal (p + 1) ?d s2) b3 = Some (Some s3, b4)"
    and r4: "freshPoints False rest s3 b4 = Some (Some s', b')" and b1: "b1 \<le> b"
    using Cons.prems(1) by auto
  have "b2 \<le> b1" by (rule shrinksD[of "freshDecimal p ?d s", OF _ r1]) (intro shrinks)
  moreover have "b3 \<le> b2"
    by (rule shrinksD[of "if first then freshDecimal (p - 1) ?d s1 else done_with s1", OF _ r2]) (intro shrinks)
  moreover have "b4 \<le> b3"
    by (rule shrinksD[of "case rest of q # _ \<Rightarrow> freshDecimal ((p + q) / 2) (?d + 1) s2 | [] \<Rightarrow> freshDecimal (p + 1) ?d s2", OF _ r3])
      (intro shrinks)
  ultimately have in_limit: "b1 \<le> overlapWorkLimit \<and> b2 \<le> overlapWorkLimit \<and> b3 \<le> overlapWorkLimit \<and> b4 \<le> overlapWorkLimit"
    if "b \<le> overlapWorkLimit" using that b1 by linarith
  have p: "p * 10 ^ ?d \<in> \<int>" using Cons.prems(4) by simp
  have p1: "(p - 1) * 10 ^ ?d \<in> \<int>" "(p + 1) * 10 ^ ?d \<in> \<int>" using p by (simp_all add: algebra_simps)
  have e1: "extends s s1" "b \<le> overlapWorkLimit \<Longrightarrow> freshFor s s1 p" using in_limit freshDecimal_exact[OF r1 Cons.prems(2) p] by auto
  have e2: "extends s1 s2" "b \<le> overlapWorkLimit \<Longrightarrow> first \<Longrightarrow> freshFor s1 s2 (p - 1)"
    using in_limit r2 freshDecimal_exact[OF _ _ p1(1), of s1 b2 s2 b3] e1(1) by (auto simp: extends_refl extends_def split: if_splits)
  have e3: "extends s2 s3" "b \<le> overlapWorkLimit \<Longrightarrow> rest = [] \<Longrightarrow> freshFor s2 s3 (p + 1)"
    "\<And>q qs. b \<le> overlapWorkLimit \<Longrightarrow> rest = q # qs \<Longrightarrow> freshFor s2 s3 ((p + q) / 2)"
  proof -
    have "extends s2 s3 \<and> (b \<le> overlapWorkLimit \<longrightarrow> freshFor s2 s3 (case rest of [] \<Rightarrow> p + 1 | q # _ \<Rightarrow> (p + q) / 2))"
    proof (cases rest)
      case Nil
      with r3 freshDecimal_exact[OF _ _ p1(2), of s2 b3 s3 b4] e2(1) in_limit show ?thesis by (simp add: extends_def)
    next
      case (Cons q qs)
      then have "q * 10 ^ ?d \<in> \<int>" using \<open>\<forall>p \<in> set (p # rest). p * 10 ^ ?d \<in> \<int>\<close> by simp
      with p have "p * 10 ^ ?d + q * 10 ^ ?d \<in> \<int>" by (rule_tac Ints_add)
      then have "5 * (p * 10 ^ ?d + q * 10 ^ ?d) \<in> \<int>" by (rule_tac Ints_mult) simp_all
      moreover have "(p + q) / 2 * 10 ^ (?d + 1) = 5 * (p * 10 ^ ?d + q * 10 ^ ?d)" by (simp add: field_simps)
      ultimately have "(p + q) / 2 * 10 ^ (?d + 1) \<in> \<int>" by (simp only:)
      from freshDecimal_exact[OF _ _ this, of s2 b3 s3 b4] Cons r3 e2(1) in_limit show ?thesis by (simp add: extends_def)
    qed
    then show "extends s2 s3" "b \<le> overlapWorkLimit \<Longrightarrow> rest = [] \<Longrightarrow> freshFor s2 s3 (p + 1)"
      "\<And>q qs. b \<le> overlapWorkLimit \<Longrightarrow> rest = q # qs \<Longrightarrow> freshFor s2 s3 ((p + q) / 2)"
      by auto
  qed
  have s3: "extends s s3" using e1(1) e2(1) e3(1) by (blast intro: extends_trans)
  have "vsScale s3 = ?d" "wellCollected s3" using s3 by (simp_all add: extends_def)
  with Cons.IH[OF r4] Cons.prems(3,4) have IH: "extends s3 s'"
    "\<And>r. b \<le> overlapWorkLimit \<Longrightarrow> rest \<noteq> [] \<Longrightarrow> hd rest \<le> r \<Longrightarrow> \<exists>q. sameCell (set rest) r q \<and> freshFor s3 s' q"
    using in_limit by auto
  have grown: "freshFor s s' q" if "freshFor u v q" "extends s u" "extends v s3" for u v q
    using freshFor_mono[OF that(1,2)] IH(1) that(3) extends_trans by blast
  have less: "p < q" if "q \<in> set rest" for q using Cons.prems(3) that by simp
  have "\<exists>q. sameCell (set (p # rest)) r q \<and> freshFor s s' q" if b: "b \<le> overlapWorkLimit" and r: "first \<or> p \<le> r" for r
  proof -
    consider "r = p" | "r < p" | "p < r" "rest = []" | q qs where "p < r" "rest = q # qs" "r < q"
      | q qs where "p < r" "rest = q # qs" "q \<le> r"
      by (cases rest) (metis linorder_neqE not_less)+
    then show ?thesis
    proof cases
      case 1
      have "freshFor s s' p" using grown[OF e1(2)[OF b]] Cons.prems(2) e2(1) e3(1) extends_refl extends_trans by blast
      with 1 show ?thesis by (auto simp: sameCell_def)
    next
      case 2
      with r have "freshFor s s' (p - 1)" using grown[OF e2(2)[OF b]] e1(1) e3(1) by auto
      moreover have "sameCell (set (p # rest)) r (p - 1)" using 2 less by (fastforce simp: sameCell_def)
      ultimately show ?thesis by blast
    next
      case 3
      then have "freshFor s s' (p + 1)"
        using grown[OF e3(2)[OF b]] e1(1) e2(1) extends_trans extends_refl s3 by (metis extends_def)
      with 3 show ?thesis by (intro exI[of _ "p + 1"]) (simp add: sameCell_def)
    next
      case (4 q qs)
      then have "freshFor s s' ((p + q) / 2)"
        using grown[OF e3(3)[OF b]] e1(1) e2(1) extends_trans extends_refl s3 by (metis extends_def)
      moreover have "sameCell (set (p # rest)) r ((p + q) / 2)"
      proof -
        have "q \<le> x" if "x \<in> set rest" for x using that 4 Cons.prems(3) by auto
        moreover have "p < (p + q) / 2" "(p + q) / 2 < q" using 4 by simp_all
        ultimately show ?thesis using 4 by (fastforce simp: sameCell_def)
      qed
      ultimately show ?thesis by blast
    next
      case (5 q qs)
      with IH(2)[OF b, of r] obtain x where x: "sameCell (set rest) r x" "freshFor s3 s' x" by auto
      have "q \<le> x" using x(1) 5 by (auto simp: sameCell_def not_less)
      moreover have "p < q" using less 5 by simp
      ultimately have "p < x" by simp
      with x(1) 5 have "sameCell (set (p # rest)) r x" by (auto simp: sameCell_def)
      moreover have "freshFor s s' x" using freshFor_mono[OF x(2) s3] IH(1) extends_refl by (metis extends_def)
      ultimately show ?thesis by blast
    qed
  qed
  then show ?case using extends_trans[OF s3 IH(1)] by simp
qed

text \<open>The text for every other value.\<close>

lemma otherText_hash: "s = ''#overlap'' @ replicate k (CHR ''#'') \<Longrightarrow> \<exists>j. otherText n seen s = ''#overlap'' @ replicate j (CHR ''#'')"
proof (induction n arbitrary: s k)
  case (Suc n)
  have "s @ ''#'' = ''#overlap'' @ replicate (Suc k) (CHR ''#'')" using Suc.prems by (simp add: replicate_append_same)
  from Suc.IH[OF this] Suc.prems show ?case by auto
qed auto

lemma otherText_all_seen:
  "overlapKey (JString (otherText n seen s)) \<in> set seen \<Longrightarrow> i \<le> n \<Longrightarrow>
     overlapKey (JString (s @ replicate i (CHR ''#''))) \<in> set seen"
proof (induction n arbitrary: s i)
  case (Suc n)
  show ?case
  proof (cases "overlapKey (JString s) \<in> set seen")
    case True
    with Suc.prems(1) have "overlapKey (JString (otherText n seen (s @ ''#''))) \<in> set seen" by simp
    with True Suc.IH[of "s @ ''#''" "i - 1"] Suc.prems(2) show ?thesis by (cases i) auto
  next
    case False
    with Suc.prems(1) show ?thesis by simp
  qed
qed simp

lemma validUtf8_hashes: "validUtf8 (''#overlap'' @ replicate i (CHR ''#''))"
  by (rule validUtf8_ascii) (auto simp: list_all_iff)

lemma otherText_fresh:
  "overlapKey (JString (otherText (length seen) seen ''#overlap'')) \<notin> set seen"
proof
  let ?key = "\<lambda>i. overlapKey (JString (''#overlap'' @ replicate i (CHR ''#'')))"
  assume h: "overlapKey (JString (otherText (length seen) seen ''#overlap'')) \<in> set seen"
  have "inj_on ?key {..length seen}"
  proof (rule inj_onI)
    fix i j assume "?key i = ?key j"
    then have "jsonEqual (JString (''#overlap'' @ replicate i (CHR ''#''))) (JString (''#overlap'' @ replicate j (CHR ''#'')))"
      using overlapKey_exact[of "JString (''#overlap'' @ replicate i (CHR ''#''))" "JString (''#overlap'' @ replicate j (CHR ''#''))"]
        validUtf8_hashes by (simp del: overlapKey.simps jsonEqual.simps append.simps)
    then show "i = j" by (simp add: replicate_eq_replicate)
  qed
  moreover have "?key ` {..length seen} \<subseteq> set seen" using otherText_all_seen[OF h] by (intro image_subsetI) (simp only: atMost_iff)
  ultimately have "card {..length seen} \<le> card (set seen)" by (metis card_image card_mono finite_set)
  then show False using card_length[of seen] by simp
qed

lemma otherText_plain:
  "\<not> decimalPattern (otherText n seen ''#overlap'')" "validUtf8 (otherText n seen ''#overlap'')"
proof -
  obtain j where j: "otherText n seen ''#overlap'' = ''#overlap'' @ replicate j (CHR ''#'')"
    using otherText_hash[of "''#overlap''" 0] by auto
  have "\<not> isDigit (CHR ''#'')" by code_simp
  then show "\<not> decimalPattern (otherText n seen ''#overlap'')" by (simp add: j decimalPattern_def)
  show "validUtf8 (otherText n seen ''#overlap'')" unfolding j by (rule validUtf8_hashes)
qed

subsection \<open>Representatives\<close>

text \<open>What a term says of a value only depends on which operands the value equals, and on where it
  stands among them when it is a decimal.\<close>

definition sameAnswers :: "json list \<Rightarrow> json \<Rightarrow> json \<Rightarrow> bool" where
  "sameAnswers operands v w \<longleftrightarrow>
     (\<forall>u \<in> set operands. overlapKey v = overlapKey u \<longleftrightarrow> overlapKey w = overlapKey u) \<and>
     (\<forall>u \<in> set operands. \<forall>x y. overlapNumber v = Some x \<longrightarrow> overlapNumber u = Some y \<longrightarrow>
        (\<exists>z. overlapNumber w = Some z \<and> ratCmp z y = ratCmp x y))"

lemma sameAnswers_fact:
  assumes "operandsOf m = Some operands" "sameAnswers operands v w" "overlapFact m v = Some (True, truth)"
  shows "overlapFact m w = Some (True, truth)"
proof (cases "jget m ''operator'' = JString ''in''")
  case True
  with assms(1) have items: "jget m ''value'' = JArray operands" by (auto simp: operandsOf_def split: json.splits)
  have "list_ex (\<lambda>u. overlapKey w = overlapKey u) operands \<longleftrightarrow> list_ex (\<lambda>u. overlapKey v = overlapKey u) operands"
    using assms(2) by (auto simp: sameAnswers_def list_ex_iff)
  with True items assms(3) show ?thesis by (simp add: overlapFact_def)
next
  case False
  then have o: "operands = [jget m ''value'']" using assms(1) by (simp add: operandsOf_def)
  have "stringOrEmpty (jget m ''operator'') \<noteq> ''in''" using False by (cases "jget m ''operator''") auto
  with assms(2,3) o show ?thesis
    by (auto simp: overlapFact_def sameAnswers_def Let_def simp del: ratCmp_simps split: if_splits option.splits)
qed

lemma sameCell_ratCmp: "sameCell P r q \<Longrightarrow> y \<in> P \<Longrightarrow> ratCmp q y = ratCmp r y"
  by (auto simp: sameCell_def ratCmp_def)

lemma sorted_points: "distinct (ps :: rat list) \<Longrightarrow> sorted_wrt (<) (sort ps)"
  by (simp add: strict_sorted_iff)

lemma overlapValues_collected:
  assumes "overlapValues terms b = Some (Some vs, b')" "\<forall>t \<in> set terms. admittedJson (JObject (otNode t))"
  obtains s b1 s2 b2 where "addTerms terms noValues b = Some (Some s, b1)" "vs = vsValues s2"
    "freshPoints True (sort (vsPoints s)) (addValue (JString (otherText (length (vsSeen s)) (vsSeen s) ''#overlap'')) s) b1 = Some (Some s2, b2)"
    "wellCollected s" "wellCollected (addValue (JString (otherText (length (vsSeen s)) (vsSeen s) ''#overlap'')) s)"
    "sorted_wrt (<) (sort (vsPoints s))" "\<forall>p \<in> set (sort (vsPoints s)). p * 10 ^ vsScale s \<in> \<int>"
proof -
  from assms(1) obtain s b1 s2 b2 where s: "addTerms terms noValues b = Some (Some s, b1)"
    and f: "freshPoints True (sort (vsPoints s)) (addValue (JString (otherText (length (vsSeen s)) (vsSeen s) ''#overlap'')) s) b1 = Some (Some s2, b2)"
    and vs: "vs = vsValues s2"
    by (auto simp: overlapValues_def Let_def)
  from addTerms_exact[OF s wellCollected_none assms(2)] have w: "wellCollected s" by blast
  have "wellCollected (addValue (JString (otherText (length (vsSeen s)) (vsSeen s) ''#overlap'')) s)"
    using addValue_well[OF w] otherText_plain(2) by simp
  moreover have "sorted_wrt (<) (sort (vsPoints s))" "\<forall>p \<in> set (sort (vsPoints s)). p * 10 ^ vsScale s \<in> \<int>"
    using w by (auto simp: wellCollected_def sorted_points)
  ultimately show thesis by (rule that[OF s vs f w])
qed

lemma overlapValues_admitted:
  assumes "overlapValues terms b = Some (Some vs, b')" "\<forall>t \<in> set terms. admittedJson (JObject (otNode t))" "v \<in> set vs"
  shows "admittedJson v"
proof (rule overlapValues_collected[OF assms(1,2)])
  fix s b1 s2 b2
  assume "freshPoints True (sort (vsPoints s)) (addValue (JString (otherText (length (vsSeen s)) (vsSeen s) ''#overlap'')) s) b1 = Some (Some s2, b2)"
    and "wellCollected (addValue (JString (otherText (length (vsSeen s)) (vsSeen s) ''#overlap'')) s)"
    and "sorted_wrt (<) (sort (vsPoints s))" "\<forall>p \<in> set (sort (vsPoints s)). p * 10 ^ vsScale s \<in> \<int>" "vs = vsValues s2"
  with freshPoints_exact have "wellCollected s2" by (fastforce simp: extends_def)
  with assms(3) \<open>vs = vsValues s2\<close> show ?thesis by (simp add: wellCollected_def)
qed

lemma overlapValues_represent:
  assumes "overlapValues terms b = Some (Some vs, b')" "\<forall>t \<in> set terms. admittedJson (JObject (otNode t))" "admittedJson v"
    and limit: "b \<le> overlapWorkLimit"
  shows "\<exists>w \<in> set vs. admittedJson w \<and>
    (\<forall>t \<in> set terms. \<forall>truth. overlapFact (otNode t) v = Some (True, truth) \<longrightarrow> overlapFact (otNode t) w = Some (True, truth))"
proof -
  from assms(1) obtain s b1 s2 b2 where s: "addTerms terms noValues b = Some (Some s, b1)"
    and f: "freshPoints True (sort (vsPoints s)) (addValue (JString (otherText (length (vsSeen s)) (vsSeen s) ''#overlap'')) s) b1 = Some (Some s2, b2)"
    and vs: "vs = vsValues s2"
    by (auto simp: overlapValues_def Let_def)
  let ?o = "otherText (length (vsSeen s)) (vsSeen s) ''#overlap''"
  let ?s1 = "addValue (JString ?o) s"
  from addTerms_exact[OF s wellCollected_none assms(2)] have w: "wellCollected s"
    and h: "\<forall>t \<in> set terms. \<exists>operands. operandsOf (otNode t) = Some operands \<and> (\<forall>v \<in> set operands. holdsOperand s v)" by auto
  have w1: "wellCollected ?s1" using addValue_well[OF w] otherText_plain(2) by simp
  have pts: "sorted_wrt (<) (sort (vsPoints s))" "\<forall>p \<in> set (sort (vsPoints s)). p * 10 ^ vsScale ?s1 \<in> \<int>"
    using w sorted_points by (simp_all add: wellCollected_def)
  note fp = freshPoints_exact[OF f w1 pts]
  have b1: "b1 \<le> overlapWorkLimit" using limit shrinksD[OF shrinks_addTerms s] by simp
  have sub: "set (vsValues ?s1) \<subseteq> set vs" and admitted: "\<forall>u \<in> set vs. admittedJson u"
    using fp vs by (auto simp: extends_def wellCollected_def)
  have enough: ?thesis if u: "u \<in> set vs" "\<And>t operands. t \<in> set terms \<Longrightarrow> operandsOf (otNode t) = Some operands \<Longrightarrow> sameAnswers operands v u" for u
  proof (rule bexI[OF _ u(1)], intro conjI ballI allI impI)
    show "admittedJson u" using u(1) admitted by blast
    fix t truth assume t: "t \<in> set terms" "overlapFact (otNode t) v = Some (True, truth)"
    with h obtain operands where "operandsOf (otNode t) = Some operands" by blast
    with sameAnswers_fact u(2) t show "overlapFact (otNode t) u = Some (True, truth)" by blast
  qed
  show ?thesis
  proof (cases "overlapKey v \<in> set (vsSeen s)")
    case True
    then obtain u where u: "u \<in> set (vsValues s)" "overlapKey u = overlapKey v" using w by (auto simp: wellCollected_def)
    have "jsonEqual v u" using overlapKey_exact[OF assms(3), of u] u w by (auto simp: wellCollected_def)
    then have "overlapNumber u = overlapNumber v" by (cases v; cases u) (auto simp: overlapNumber_def)
    moreover have "u \<in> set vs" using u(1) addValue_simps(4)[where v = "JString ?o" and s = s] sub by blast
    ultimately show ?thesis using u(2) by (intro enough[of u]) (auto simp: sameAnswers_def)
  next
    case False
    have apart: "overlapKey v \<noteq> overlapKey u" if "t \<in> set terms" "operandsOf (otNode t) = Some operands" "u \<in> set operands" for t operands u
      using h that False by (fastforce simp: holdsOperand_def)
    show ?thesis
    proof (cases "\<exists>x. overlapNumber v = Some x \<and> vsPoints s \<noteq> []")
      case True
      then obtain x where x: "overlapNumber v = Some x" "sort (vsPoints s) \<noteq> []" by (metis length_0_conv length_sort)
      with fp b1 obtain q where q: "sameCell (set (vsPoints s)) x q" "freshFor ?s1 s2 q" by auto
      then obtain t where t: "JString t \<in> set vs" "overlapNumber (JString t) = Some q" "overlapKey (JString t) \<notin> set (vsSeen ?s1)"
        using vs by (auto simp: freshFor_def)
      show ?thesis
      proof (rule enough[OF t(1)])
        fix t' operands assume o: "t' \<in> set terms" "operandsOf (otNode t') = Some operands"
        have "holdsOperand s u" if "u \<in> set operands" for u using h o that by fastforce
        then have "overlapKey (JString t) \<noteq> overlapKey u" "\<And>y. overlapNumber u = Some y \<Longrightarrow> ratCmp q y = ratCmp x y"
          if "u \<in> set operands" for u
          using that t(3) sameCell_ratCmp[OF q(1)] by (auto simp: holdsOperand_def)
        with apart[OF o] x t show "sameAnswers operands v (JString t)"
          by (auto simp: sameAnswers_def simp del: overlapKey.simps)
      qed
    next
      case none: False
      have o_in: "JString ?o \<in> set vs" using sub otherText_fresh[of "vsSeen s"] by (auto simp: addValue_def)
      show ?thesis
      proof (rule enough[OF o_in])
        fix t' operands assume o: "t' \<in> set terms" "operandsOf (otNode t') = Some operands"
        have held: "holdsOperand s u" if "u \<in> set operands" for u using h o that by fastforce
        then have "overlapKey (JString ?o) \<noteq> overlapKey u" if "u \<in> set operands" for u
          using that otherText_fresh[of "vsSeen s"] by (metis holdsOperand_def)
        moreover have "overlapNumber v = None \<or> overlapNumber u = None" if "u \<in> set operands" for u
          using none held[OF that] by (cases "overlapNumber u") (auto simp: holdsOperand_def)
        ultimately show "sameAnswers operands v (JString ?o)" using apart[OF o] by (fastforce simp: sameAnswers_def)
      qed
    qed
  qed
qed

end
