(* ===== verification/Overlap_Advice.thy ===== *)
theory Overlap_Advice
  imports Overlap
begin

section \<open>What the overlap advice says\<close>

text \<open>
  The regions, the exclusive rewrites and the witness documents of \<open>overlap.go\<close> and
  \<open>overlap_generated.go\<close>, the walk that holds a generated document to the carrier's limits before it
  is written, and \<open>ruleOverlapDiagnosticsWithLimits\<close>. The tokens of a written document and the size of
  an encoded diagnostic are arguments; a sentence is kept as its parts.
  The preflight walks the members of an object in the order of its list. The language varies the order
  from walk to walk; by the exact counts of \<open>Overlap_Measure\<close> that changes neither what is let through nor what it
  costs, only how much of the budget is left after a refusal.
\<close>

subsection \<open>Regions and rewrites\<close>

text \<open>Equality of two interface values, which panics on two maps or two slices.\<close>

fun sameInterface :: "json \<Rightarrow> json \<Rightarrow> bool option" where
  "sameInterface (JArray xs) (JArray ys) = None"
| "sameInterface (JObject m) (JObject n) = None"
| "sameInterface v w = Some (v = w)"

definition ascendingFact :: "object \<Rightarrow> bool" where
  "ascendingFact c \<longleftrightarrow>
     jget c ''op'' = JString ''fact'' \<and>
     (jget c ''operator'' = JString ''greater-than'' \<or> jget c ''operator'' = JString ''greater-than-or-equal'')"

text \<open>Two ascending facts over one path; then both operands are compared, which panics when one is no
  decimal.\<close>

definition ascendingPair :: "object \<Rightarrow> object \<Rightarrow> bool option" where
  "ascendingPair ac bc =
     (if ascendingFact ac \<and> ascendingFact bc then sameInterface (jget ac ''path'') (jget bc ''path'') else Some False)"

definition compareOperands :: "object \<Rightarrow> object \<Rightarrow> int option" where
  "compareOperands ac bc =
     (case (overlapNumber (jget ac ''value''), overlapNumber (jget bc ''value'')) of
        (Some ar, Some br) \<Rightarrow> Some (ratCmp ar br)
      | _ \<Rightarrow> None)"

definition allOf :: "json \<Rightarrow> json \<Rightarrow> object" where
  "allOf c d = [(''op'', JString ''all''), (''conditions'', JArray [c, d])]"

definition exclusiveRewrite :: "object \<Rightarrow> object \<Rightarrow> OverlapRewrite option" where
  "exclusiveRewrite a b =
     (case (asObject (jget a ''when''), asObject (jget b ''when'')) of
        (Some ac, Some bc) \<Rightarrow>
          Option.bind (ascendingPair ac bc) (\<lambda>bands.
            if bands then
              map_option (\<lambda>c.
                let (low, lc, hc) = (if c > 0 then (b, bc, ac) else (a, ac, bc));
                    operator = (if jget hc ''operator'' = JString ''greater-than'' then ''less-than-or-equal'' else ''less-than'')
                in \<lparr>owRuleID = stringOrEmpty (jget low ''id''),
                    owWhen = allOf (JObject lc)
                      (JObject [(''op'', JString ''fact''), (''path'', jget hc ''path''), (''operator'', JString operator),
                                (''value'', jget hc ''value'')])\<rparr>)
                (compareOperands ac bc)
            else
              Some \<lparr>owRuleID = stringOrEmpty (jget a ''id''),
                    owWhen = allOf (jget a ''when'')
                      (JObject [(''op'', JString ''not''), (''condition'', jget b ''when'')])\<rparr>)
      | _ \<Rightarrow> None)"

text \<open>The region above the higher of two thresholds. The outer option is a panic.\<close>

definition ascendingOverlap :: "object \<Rightarrow> object \<Rightarrow> OverlapRegion option option" where
  "ascendingOverlap ac bc =
     Option.bind (ascendingPair ac bc) (\<lambda>bands.
       if \<not> bands then Some None
       else map_option (\<lambda>c.
              let top = (if c < 0 then bc else ac);
                  inclusive0 = (jget top ''operator'' = JString ''greater-than-or-equal'');
                  inclusive = (if c = 0 then inclusive0 \<and> jget bc ''operator'' = JString ''greater-than-or-equal''
                               else inclusive0)
              in Some \<lparr>ogSharedValues = [], ogPath = stringOrEmpty (jget top ''path''),
                       ogFrom = stringOrEmpty (jget top ''value''), ogFromInclusive = Some inclusive\<rparr>)
            (compareOperands ac bc))"

text \<open>The values of an equality or a membership; an \<open>in\<close> without an array panics.\<close>

definition finiteValues :: "object \<Rightarrow> json list option option" where
  "finiteValues c =
     (if jget c ''operator'' = JString ''equals'' then Some (Some [jget c ''value''])
      else if jget c ''operator'' = JString ''in''
      then (case jget c ''value'' of JArray xs \<Rightarrow> Some (Some xs) | _ \<Rightarrow> None)
      else Some None)"

fun sharedValues :: "object \<Rightarrow> json list \<Rightarrow> string list \<Rightarrow> json list option" where
  "sharedValues c [] seen = Some []"
| "sharedValues c (v # vs) seen =
     Option.bind (overlapFact c v) (\<lambda>(known, truth).
       if known \<and> truth \<and> overlapKey v \<notin> set seen
       then map_option (Cons v) (sharedValues c vs (overlapKey v # seen)) else sharedValues c vs seen)"

definition sharedRegion :: "object \<Rightarrow> object \<Rightarrow> json list \<Rightarrow> OverlapRegion option option" where
  "sharedRegion ac bc values =
     map_option (\<lambda>shared.
       if shared = [] then None
       else Some \<lparr>ogSharedValues = shared, ogPath = stringOrEmpty (jget ac ''path''), ogFrom = [], ogFromInclusive = None\<rparr>)
     (sharedValues bc values [])"

definition simpleOverlap :: "object \<Rightarrow> object \<Rightarrow> OverlapRegion option option" where
  "simpleOverlap a b =
     (case (asObject (jget a ''when''), asObject (jget b ''when'')) of
        (Some ac, Some bc) \<Rightarrow>
          Option.bind (ascendingOverlap ac bc) (\<lambda>region.
            if region \<noteq> None then Some region
            else if jget ac ''op'' \<noteq> JString ''fact'' \<or> jget bc ''op'' \<noteq> JString ''fact'' then Some None
            else Option.bind (sameInterface (jget ac ''path'') (jget bc ''path'')) (\<lambda>same.
              if \<not> same then Some None
              else Option.bind (finiteValues ac) (\<lambda>left.
                case left of
                  Some values \<Rightarrow> sharedRegion ac bc values
                | None \<Rightarrow>
                    Option.bind (finiteValues bc) (\<lambda>right.
                      case right of Some values \<Rightarrow> sharedRegion bc ac values | None \<Rightarrow> Some None))))
      | _ \<Rightarrow> None)"

subsection \<open>The shape of a generated document\<close>

record overlapShape =
  shLimits :: Limits
  shBudget :: int
  shNodes :: nat
  shBytes :: nat

type_synonym shapeStep = "overlapShape \<Rightarrow> bool \<times> overlapShape"

definition shapeSize :: "nat \<Rightarrow> shapeStep" where
  "shapeSize n s = (shBytes s + n \<le> HardMaxBytes, s\<lparr>shBytes := shBytes s + n\<rparr>)"

definition shapeTake :: "nat \<Rightarrow> shapeStep" where
  "shapeTake n s = (shBudget s - int n \<ge> 0, s\<lparr>shBudget := shBudget s - int n\<rparr>)"

definition alsoShape :: "shapeStep \<Rightarrow> shapeStep \<Rightarrow> shapeStep" where
  "alsoShape f g s = (let (ok, s1) = f s in if ok then g s1 else (False, s1))"

lemma alsoShape_cong [fundef_cong]:
  "s = s' \<Longrightarrow> f s' = f' s' \<Longrightarrow> (\<And>s1. f' s' = (True, s1) \<Longrightarrow> g s1 = g' s1) \<Longrightarrow> alsoShape f g s = alsoShape f' g' s'"
  by (auto simp: alsoShape_def Let_def split: prod.split)

text \<open>The bytes an escaped text takes, byte by byte.\<close>

definition spelledBytes :: "char \<Rightarrow> nat" where
  "spelledBytes c =
     (if c \<in> {CHR 0x22, CHR 0x5C, CHR 0x08, CHR 0x0C, CHR 0x0A, CHR 0x0D, CHR 0x09} then 2
      else if c \<in> {CHR ''<'', CHR ''>'', CHR ''&''} then 6
      else if byteOf c < 32 then 6 else 1)"

fun shapeBytes :: "string \<Rightarrow> shapeStep" where
  "shapeBytes [] s = (True, s)"
| "shapeBytes (c # cs) s =
     (case cs of
        d # e # rest \<Rightarrow>
          if c = CHR 0xE2 \<and> d = CHR 0x80 \<and> e \<in> {CHR 0xA8, CHR 0xA9}
          then alsoShape (shapeSize 6) (shapeBytes rest) s
          else alsoShape (shapeSize (spelledBytes c)) (shapeBytes cs) s
      | _ \<Rightarrow> alsoShape (shapeSize (spelledBytes c)) (shapeBytes cs) s)"

definition shapeString :: "string \<Rightarrow> shapeStep" where
  "shapeString v s =
     (if length v > MaxStringBytes (shLimits s) then (False, s)
      else alsoShape (shapeTake (length v + 1)) (alsoShape (shapeSize 2) (shapeBytes v)) s)"

definition shapeNode :: shapeStep where
  "shapeNode s =
     (if shNodes s \<ge> MaxNodes (shLimits s) then (False, s)
      else alsoShape (shapeTake 1) (\<lambda>s1. (True, s1\<lparr>shNodes := Suc (shNodes s1)\<rparr>)) s)"

definition openShape :: "nat \<Rightarrow> shapeStep" where
  "openShape depth s = (if depth \<ge> MaxDepth (shLimits s) then (False, s) else shapeSize 2 s)"

definition commas :: "nat \<Rightarrow> shapeStep" where
  "commas n s = (if n = 0 then (True, s) else shapeSize (n - 1) s)"

function shapeValue :: "nat \<Rightarrow> json \<Rightarrow> shapeStep"
  and shapeItems :: "nat \<Rightarrow> json list \<Rightarrow> shapeStep"
  and shapeMembers :: "nat \<Rightarrow> object \<Rightarrow> shapeStep"
where
  "shapeValue depth v s =
     alsoShape shapeNode (\<lambda>s1.
       case v of
         JObject m \<Rightarrow> alsoShape (openShape depth) (alsoShape (shapeMembers (Suc depth) m) (commas (length m))) s1
       | JArray xs \<Rightarrow> alsoShape (openShape depth) (alsoShape (shapeItems (Suc depth) xs) (commas (length xs))) s1
       | JString t \<Rightarrow> shapeString t s1
       | JNumber t \<Rightarrow>
           if length t > MaxStringBytes (shLimits s1) then (False, s1)
           else alsoShape (shapeTake (length t + 1)) (shapeSize (length t)) s1
       | JBool b \<Rightarrow> shapeSize (if b then 4 else 5) s1
       | JNull \<Rightarrow> shapeSize 4 s1) s"
| "shapeItems depth [] s = (True, s)"
| "shapeItems depth (x # xs) s = alsoShape (shapeValue depth x) (shapeItems depth xs) s"
| "shapeMembers depth [] s = (True, s)"
| "shapeMembers depth (p # m) s =
     alsoShape (shapeString (fst p)) (alsoShape (shapeSize 1) (alsoShape (shapeValue depth (snd p)) (shapeMembers depth m))) s"
  by pat_completeness auto
termination
  by (relation "measure (\<lambda>x. case x of Inl (_, v, _) \<Rightarrow> size v
        | Inr (Inl (_, xs, _)) \<Rightarrow> size_list size xs
        | Inr (Inr (_, m, _)) \<Rightarrow> size_list (size_prod (\<lambda>x. 0) size) m)") (auto split: prod.split)

declare shapeValue.simps [simp del]

definition newShape :: "Limits \<Rightarrow> int \<Rightarrow> nat \<Rightarrow> overlapShape" where
  "newShape limits budget nodes = \<lparr>shLimits = limits, shBudget = budget, shNodes = nodes, shBytes = 0\<rparr>"

subsection \<open>Generated documents\<close>

definition admitsText :: "(string \<Rightarrow> token list) \<Rightarrow> Limits \<Rightarrow> string \<Rightarrow> bool" where
  "admitsText scan limits encoded = (case Decode encoded (scan encoded) limits of Inl f \<Rightarrow> False | Inr v \<Rightarrow> True)"

text \<open>The scan for the rule: its index, or nothing when the budget or the rules end first.\<close>

fun ruleIndex :: "json list \<Rightarrow> string \<Rightarrow> nat charged" where
  "ruleIndex [] k = cut"
| "ruleIndex (raw # rest) k =
     andPay (takeUnits 1) (\<lambda>_.
       case raw of
         JObject m \<Rightarrow> if jget m ''id'' = JString k then done_with 0
                      else andPay (ruleIndex rest k) (\<lambda>i. done_with (Suc i))
       | _ \<Rightarrow> panic)"

definition rewrittenPack :: "object \<Rightarrow> json list \<Rightarrow> nat \<Rightarrow> object \<Rightarrow> OverlapRewrite \<Rightarrow> object" where
  "rewrittenPack m rules i rule candidate =
     setMember m ''rules'' (JArray (rules[i := JObject (setMember rule ''when'' (JObject (owWhen candidate)))]))"

definition boundedExclusiveRewrite :: "(string \<Rightarrow> token list) \<Rightarrow> object \<Rightarrow> OverlapRewrite \<Rightarrow> Limits \<Rightarrow> OverlapRewrite charged" where
  "boundedExclusiveRewrite scan m candidate limits =
     (case jget m ''rules'' of
        JArray rules \<Rightarrow>
          andPay (ruleIndex rules (owRuleID candidate)) (\<lambda>i.
            case rules ! i of
              JObject rule \<Rightarrow>
                andPay (takeUnits (length m + length rules + length rule + 1)) (\<lambda>_ b.
                  let pack = rewrittenPack m rules i rule candidate;
                      (ok, s) = shapeValue 0 (JObject pack) (newShape limits b 0);
                      encoded = marshal (JObject pack)
                  in Some (if ok \<and> length encoded \<le> HardMaxBytes \<and> admitsText scan limits encoded
                           then Some candidate else None, shBudget s))
            | _ \<Rightarrow> panic)
      | _ \<Rightarrow> panic)"

definition unescapeToken :: "string \<Rightarrow> string" where
  "unescapeToken token = replacePair (CHR ''~'') (CHR ''0'') (CHR ''~'') (replacePair (CHR ''~'') (CHR ''1'') (CHR ''/'') token)"

definition sourceTokens :: "string \<Rightarrow> string list" where
  "sourceTokens path = (if path = [] then [] else map unescapeToken (splitOn (CHR ''/'') (tl path)))"

fun shapeTokens :: "string list \<Rightarrow> shapeStep" where
  "shapeTokens [] s = (True, s)"
| "shapeTokens (t # ts) s = alsoShape (shapeString t) (alsoShape (shapeSize 3) (shapeTokens ts)) s"

definition pointerText :: "string list \<Rightarrow> string \<Rightarrow> string" where
  "pointerText keys leaf =
     concat (map (\<lambda>t. CHR ''{'' # goQuote t @ '':'') keys) @ leaf @ replicate (length keys) (CHR ''}'')"

definition boundedOverlapFacts :: "(string \<Rightarrow> token list) \<Rightarrow> string \<Rightarrow> json \<Rightarrow> Limits \<Rightarrow> string charged" where
  "boundedOverlapFacts scan path v limits =
     andPay (takeUnits (length path + 1)) (\<lambda>_.
       let n = length (filter (\<lambda>c. c = CHR ''/'') path)
       in if n > MaxDepth limits \<or> n \<ge> MaxNodes limits then cut
          else andPay (takeUnits n) (\<lambda>_ b.
            let ts = sourceTokens path;
                (ok, s) = alsoShape (shapeTokens ts) (shapeValue n v) (newShape limits b n);
                encoded = pointerText ts (marshal v)
            in Some (if ok \<and> admitsText scan limits encoded then Some encoded else None, shBudget s)))"

subsection \<open>The advice\<close>

record adviceState =
  asCollector :: diagnosticCollector
  asOutput :: int
  asBudget :: int

definition overlapEffect :: string where
  "overlapEffect = ''Core '' @ [CHR 0xC2, CHR 0xA7] @ ''8 records conflict; the disposition is unresolved.''"

definition overlapRewriteUnavailable :: string where
  "overlapRewriteUnavailable =
     ''The exclusive replacement exceeds the configured carrier limits or advisory generation budget.''"

definition rulePath :: "nat \<Rightarrow> string" where
  "rulePath i = ''/rules/'' @ natString i @ ''/when''"

text \<open>The advice on one pair that is not excluded: what is exact about it, and how it could be rewritten.\<close>

definition exactAdvice :: "(string \<Rightarrow> token list) \<Rightarrow> Limits \<Rightarrow> object \<Rightarrow> object \<Rightarrow> pairVerdict \<Rightarrow> int
    \<Rightarrow> ((OverlapRegion option \<times> string) \<times> int) option" where
  "exactAdvice scan limits a b v budget =
     (if \<not> pvExact v then Some ((None, []), budget)
      else Option.bind (simpleOverlap a b) (\<lambda>region.
             map_option (\<lambda>(facts, b1). ((region, case facts of Some t \<Rightarrow> t | None \<Rightarrow> []), b1))
               (boundedOverlapFacts scan (pvPath v) (pvWitness v) limits budget)))"

definition pairAdvice :: "(string \<Rightarrow> token list) \<Rightarrow> object \<Rightarrow> Limits \<Rightarrow> nat \<Rightarrow> object \<Rightarrow> object \<Rightarrow> pairVerdict \<Rightarrow> int
    \<Rightarrow> (Diagnostic \<times> int) option" where
  "pairAdvice scan m limits i a b v budget =
     Option.bind (exactAdvice scan limits a b v budget) (\<lambda>((region, facts), b1).
     Option.bind (exclusiveRewrite a b) (\<lambda>candidate.
     Option.bind (boundedExclusiveRewrite scan m candidate limits b1) (\<lambda>(rewrite, b2).
       let certainty = (if facts \<noteq> [] \<or> region \<noteq> None then ''exact'' else ''not-excluded'');
           unavailable = (if rewrite = None then overlapRewriteUnavailable else []);
           suggestion = (case rewrite of
                           Some r \<Rightarrow> ''Suggested exclusive rewrite: '' @
                             marshal (JObject [(''ruleId'', JString (owRuleID r)), (''when'', JObject (owWhen r))])
                         | None \<Rightarrow> ''Exclusive rewrite unavailable: '' @ unavailable);
           d = ErrorDiagnostic ''JPS-RULES-OVERLAP'' ''advisory'' (rulePath i)
                 [stringOrEmpty (jget a ''id''), stringOrEmpty (jget a ''outcome''), stringOrEmpty (jget b ''id''),
                  stringOrEmpty (jget b ''outcome''), certainty, overlapEffect, suggestion]
       in Some (d\<lparr>dgSeverity := ''warning'',
                  dgOverlapAdvice := Some
                    \<lparr>oaCertainty = certainty,
                     oaRules = [\<lparr>ovID = stringOrEmpty (jget a ''id''), ovOutcome = stringOrEmpty (jget a ''outcome'')\<rparr>,
                                \<lparr>ovID = stringOrEmpty (jget b ''id''), ovOutcome = stringOrEmpty (jget b ''outcome'')\<rparr>],
                     oaOverlap = region, oaWitnessFacts = facts, oaEffect = overlapEffect,
                     oaSuggestedRewrite = rewrite, oaRewriteUnavailable = unavailable\<rparr>\<rparr>, b2))))"

text \<open>One pair of rules: whether the walk goes on.\<close>

definition pairStep :: "(Diagnostic \<Rightarrow> nat) \<Rightarrow> (string list \<Rightarrow> string list) \<Rightarrow> (string \<Rightarrow> token list) \<Rightarrow> object \<Rightarrow> Limits
    \<Rightarrow> (nat \<times> object \<times> overlapFormula) \<Rightarrow> (nat \<times> object \<times> overlapFormula) \<Rightarrow> adviceState \<Rightarrow> (bool \<times> adviceState) option" where
  "pairStep bytes iter scan m limits l r s =
     (let (i, a, fa) = l; (j, b, fb) = r
      in Option.bind (sameInterface (jget a ''outcome'') (jget b ''outcome'')) (\<lambda>same.
         if same then Some (True, s)
         else Option.bind (overlapPair iter fa fb (asBudget s)) (\<lambda>(v, b1).
           if \<not> pvPossible v then Some (True, s\<lparr>asBudget := b1\<rparr>)
           else map_option (\<lambda>(d, b2).
             let s1 = s\<lparr>asBudget := b2, asOutput := asOutput s - int (bytes d)\<rparr>
             in if asOutput s1 < 0 then (False, s1)
                else let (ok, c) = addDiagnostic d (asCollector s) in (ok, s1\<lparr>asCollector := c\<rparr>))
             (pairAdvice scan m limits i a b v b1))))"

fun pairSteps :: "(Diagnostic \<Rightarrow> nat) \<Rightarrow> (string list \<Rightarrow> string list) \<Rightarrow> (string \<Rightarrow> token list) \<Rightarrow> object \<Rightarrow> Limits
    \<Rightarrow> ((nat \<times> object \<times> overlapFormula) \<times> (nat \<times> object \<times> overlapFormula)) list \<Rightarrow> adviceState \<Rightarrow> (bool \<times> adviceState) option" where
  "pairSteps bytes iter scan m limits [] s = Some (True, s)"
| "pairSteps bytes iter scan m limits ((l, r) # rest) s =
     Option.bind (pairStep bytes iter scan m limits l r s) (\<lambda>(ok, s1).
       if ok then pairSteps bytes iter scan m limits rest s1 else Some (False, s1))"

text \<open>The formula of every rule, in order.\<close>

fun ruleFormulas :: "object list \<Rightarrow> int \<Rightarrow> ((object \<times> overlapFormula) list \<times> int) option" where
  "ruleFormulas [] b = Some ([], b)"
| "ruleFormulas (rule # rest) b =
     (case jget rule ''when'' of
        JObject c \<Rightarrow>
          Option.bind (overlapDNF c True b) (\<lambda>(f, b1). map_option (\<lambda>(fs, b2). ((rule, f) # fs, b2)) (ruleFormulas rest b1))
      | _ \<Rightarrow> None)"

text \<open>All pairs of two places, the first before the second.\<close>

fun laterPairs :: "'a list \<Rightarrow> ('a \<times> 'a) list" where
  "laterPairs [] = []"
| "laterPairs (x # xs) = map (Pair x) xs @ laterPairs xs"

definition ruleOverlapDiagnostics :: "(Diagnostic \<Rightarrow> nat) \<Rightarrow> (string list \<Rightarrow> string list) \<Rightarrow> (string \<Rightarrow> token list) \<Rightarrow> object \<Rightarrow> Limits
    \<Rightarrow> (Diagnostic list \<times> bool) option" where
  "ruleOverlapDiagnostics bytes iter scan m limits =
     (let rules = objectList (jget m ''rules'')
      in if length (uniqueList (map (\<lambda>rule. stringOrEmpty (jget rule ''outcome'')) rules)) < 2 then Some ([], False)
         else Option.bind (ruleFormulas rules overlapWorkLimit) (\<lambda>(fs, b).
           map_option (\<lambda>(finished, s).
               (sortedDiagnostics (dcItems (asCollector s)), \<not> finished \<or> dcTruncated (asCollector s)))
             (pairSteps bytes iter scan m limits (laterPairs (indexed fs))
                \<lparr>asCollector = newDiagnosticCollector, asOutput = overlapOutputLimit, asBudget = b\<rparr>)))"

text \<open>The advice as the validation engine calls it; a document that has passed the layers before it
  does not panic.\<close>

definition overlapAdvice :: "(Diagnostic \<Rightarrow> nat) \<Rightarrow> (string list \<Rightarrow> string list) \<Rightarrow> (string \<Rightarrow> token list) \<Rightarrow> object \<Rightarrow> Limits
    \<Rightarrow> Diagnostic list \<times> bool" where
  "overlapAdvice bytes iter scan m limits =
     (case ruleOverlapDiagnostics bytes iter scan m limits of None \<Rightarrow> ([], False) | Some r \<Rightarrow> r)"

end
