(* ===== verification/Overlap_Laws.thy ===== *)
theory Overlap_Laws
  imports Overlap_Values Overlap_Advice
begin

section \<open>What the overlap advice promises\<close>

text \<open>
  A pair the check excludes is one no facts and no evidence can satisfy together; a pair it calls exact
  is one that its witness satisfies. So a pack without advice never has two rules with different
  outcomes that apply at once, and every rewrite it suggests makes its pair exclusive.
\<close>

subsection \<open>A fact at a value\<close>

lemma admitted_resolveTokens:
  "admittedJson v \<Longrightarrow> resolveTokens ts v = Some w \<Longrightarrow> admittedJson w"
proof (induction ts arbitrary: v)
  case (Cons t ts)
  show ?case
  proof (cases v)
    case (JObject m)
    with Cons.prems(2) obtain u where u: "map_of m t = Some u" "resolveTokens ts u = Some w" by (auto split: option.splits)
    with Cons.prems(1) JObject have "admittedJson u" by (auto simp: list_all_iff dest: map_of_SomeD)
    with Cons.IH u(2) show ?thesis by blast
  next
    case (JArray xs)
    with Cons.prems(2) obtain i where i: "arrayIndex t (length xs) = Some i" "resolveTokens ts (xs ! i) = Some w"
      by (auto split: option.splits)
    have "i < length xs" using i(1) by (auto simp: arrayIndex_def split: if_splits)
    with Cons.prems(1) JArray have "admittedJson (xs ! i)" by (auto simp: list_all_iff)
    with Cons.IH i(2) show ?thesis by blast
  qed (use Cons.prems in auto)
qed simp

lemma admitted_resolvePointer: "admittedJson v \<Longrightarrow> resolvePointer v p = Some w \<Longrightarrow> admittedJson w"
  by (auto simp: resolvePointer_def resolveCompiled_def admitted_resolveTokens split: if_splits)

lemma fact_at_value:
  assumes "jget m ''path'' = JString p" "resolvePointer doc p = Some v" "admittedJson (JObject m)" "admittedJson v"
    and "overlapFact m v \<noteq> None"
  shows "fst (factResult m doc) = triFromBool b \<longleftrightarrow> overlapFact m v = Some (True, b)"
proof -
  have operand: "admittedJson (jget m ''value'')" using assms(3) by (rule admitted_jget)
  have eq: "overlapKey v = overlapKey (jget m ''value'') \<longleftrightarrow> jsonEqual v (jget m ''value'')"
    by (rule overlapKey_exact[OF assms(4) operand])
  have items: "(\<exists>item \<in> set xs. jsonEqual v item) \<longleftrightarrow> list_ex (\<lambda>item. overlapKey v = overlapKey item) xs"
    if "jget m ''value'' = JArray xs" for xs
    using operand that overlapKey_exact[OF assms(4)] by (auto simp: list_ex_iff list_all_iff)
  let ?o = "stringOrEmpty (jget m ''operator'')"
  consider "?o = ''equals''" | "?o = ''not-equals''" | "?o = ''in''" | "OrderedOperator ?o"
    | "?o \<noteq> ''equals''" "?o \<noteq> ''not-equals''" "?o \<noteq> ''in''" "\<not> OrderedOperator ?o" by blast
  then show ?thesis
  proof cases
    case 3
    then obtain xs where xs: "jget m ''value'' = JArray xs"
      using assms(5) by (cases "jget m ''value''") (simp_all add: overlapFact_def)
    have "\<not> OrderedOperator ''in''" by (simp add: OrderedOperator_def)
    with 3 xs items[OF xs] assms(1,2) show ?thesis by (simp add: factResult_def overlapFact_def)
  next
    case 4
    then show ?thesis using assms(1,2)
      by (auto simp: OrderedOperator_def factResult_def overlapFact_def overlapNumber_def decimalCompare_def orderedVerdict_def
          split: option.splits)
  next
    case 5
    then show ?thesis using assms(1,2)
      by (auto simp: OrderedOperator_def factResult_def overlapFact_def Let_def split: option.splits)
  qed (use assms(1,2) eq in \<open>auto simp: OrderedOperator_def factResult_def overlapFact_def\<close>)
qed

lemma meaning_fact: "isFact t \<Longrightarrow> meaning False ev (JObject (otNode t)) doc = fst (factResult (otNode t) doc)"
  by (simp add: isFact_def)

text \<open>A fact that holds has a path, and there a value.\<close>

lemma fact_holds:
  assumes "isFact t" "holds ev doc t"
  obtains p v where "jget (otNode t) ''path'' = JString p" "resolvePointer doc p = Some v" "pathOf t = p"
proof -
  have "fst (factResult (otNode t) doc) \<noteq> triUnknown"
    using assms(2) unfolding holds_def meaning_fact[OF assms(1)] by auto
  then obtain p v where "jget (otNode t) ''path'' = JString p" "resolvePointer doc p = Some v"
    by (auto simp: factResult_def unsupported_def split: option.splits)
  then show thesis using that by (simp add: pathOf_def)
qed

subsection \<open>Matching\<close>

definition matched :: "json \<Rightarrow> overlapClause \<Rightarrow> bool" where
  "matched v terms \<longleftrightarrow> (\<forall>t \<in> set terms. overlapFact (otNode t) v = Some (True, otTruth t))"

lemma matchesAll_exact: "matchesAll v terms b = Some (Some ok, b') \<Longrightarrow> ok \<longleftrightarrow> matched v terms"
  by (induction terms arbitrary: b) (auto simp: matched_def split: option.splits if_splits)

lemma firstMatch_exact:
  "firstMatch vs terms b = Some (Some found, b') \<Longrightarrow>
     (case found of None \<Rightarrow> \<forall>v \<in> set vs. \<not> matched v terms | Some v \<Rightarrow> v \<in> set vs \<and> matched v terms)"
proof (induction vs arbitrary: b)
  case (Cons v vs)
  then obtain ok b1 where ok: "matchesAll v terms b = Some (Some ok, b1)"
    and k: "(if ok then done_with (Some v) else firstMatch vs terms) b1 = Some (Some found, b')" by auto
  note m = matchesAll_exact[OF ok]
  show ?case
  proof (cases ok)
    case True
    with k m show ?thesis by auto
  next
    case False
    with k have "firstMatch vs terms b1 = Some (Some found, b')" by simp
    from Cons.IH[OF this] m False show ?thesis by (cases found) auto
  qed
qed simp

text \<open>What a group promises: nothing matches, or the value found is one of an admitted few.\<close>

lemma tryGroups_exact:
  "tryGroups clause single ps w b = Some (Some r, b') \<Longrightarrow>
     (case r of
        None \<Rightarrow> \<exists>p \<in> set ps. \<exists>vs b1 b2. b1 \<le> b \<and> overlapValues (groupAt clause p) b1 = Some (Some vs, b2) \<and>
          (\<forall>v \<in> set vs. \<not> matched v (groupAt clause p))
      | Some w' \<Rightarrow> (if single \<and> ps \<noteq> [] then matched (fst w') (groupAt clause (last ps)) \<and> snd w' = last ps \<and>
            (\<exists>vs b1 b2. overlapValues (groupAt clause (last ps)) b1 = Some (Some vs, b2) \<and> fst w' \<in> set vs)
          else w' = w))"
proof (induction ps arbitrary: w b)
  case (Cons p ps)
  from Cons.prems obtain vs b1 found b2 where v: "overlapValues (groupAt clause p) b = Some (Some vs, b1)"
    and f: "firstMatch vs (groupAt clause p) b1 = Some (Some found, b2)"
    and k: "(case found of None \<Rightarrow> done_with None | Some v \<Rightarrow> tryGroups clause single ps (if single then (v, p) else w)) b2 = Some (Some r, b')"
    by auto
  note fm = firstMatch_exact[OF f]
  show ?case
  proof (cases found)
    case None
    with k fm v show ?thesis by fastforce
  next
    case (Some u)
    with k have "tryGroups clause single ps (if single then (u, p) else w) b2 = Some (Some r, b')" by simp
    note IH = Cons.IH[OF this]
    have b2: "b2 \<le> b" using shrinksD[OF shrinks_overlapValues v] shrinksD[OF shrinks_firstMatch f] by simp
    show ?thesis
    proof (cases r)
      case None
      with IH obtain q ws b3 b4 where "q \<in> set ps" "b3 \<le> b2" "overlapValues (groupAt clause q) b3 = Some (Some ws, b4)"
        "\<forall>v \<in> set ws. \<not> matched v (groupAt clause q)" by auto
      moreover from this b2 have "b3 \<le> b" by simp
      ultimately show ?thesis unfolding None option.case by (metis list.set_intros(2))
    next
      case (Some w')
      with IH \<open>found = Some u\<close> fm v show ?thesis
        by (cases "ps = []") (auto split: if_splits)
    qed
  qed
qed simp

lemma set_groupPaths: "p \<in> set (groupPaths clause) \<longleftrightarrow> (\<exists>t \<in> set clause. isFact t \<and> pathOf t = p)"
  by (auto simp: groupPaths_def)

text \<open>A clause all of whose terms hold has a value for every group, and no clash.\<close>

lemma group_holds:
  assumes "\<forall>t \<in> set clause. holds ev doc t" "\<forall>t \<in> set clause. admittedJson (JObject (otNode t))" "admittedJson doc"
    and "p \<in> set (groupPaths clause)" "overlapValues (groupAt clause p) b = Some (Some vs, b')" "b \<le> overlapWorkLimit"
  shows "\<exists>v \<in> set vs. matched v (groupAt clause p)"
proof -
  let ?g = "groupAt clause p"
  have g: "isFact t \<and> pathOf t = p \<and> holds ev doc t \<and> admittedJson (JObject (otNode t))" if "t \<in> set ?g" for t
    using that assms(1,2) by (auto simp: groupAt_def)
  obtain t0 where t0: "t0 \<in> set ?g" using assms(4) by (auto simp: set_groupPaths groupAt_def)
  from g[OF t0] obtain v where v: "resolvePointer doc p = Some v" by (metis fact_holds)
  have av: "admittedJson v" using admitted_resolvePointer[OF assms(3) v] .
  have known: "operandsOf (otNode t) \<noteq> None" if "t \<in> set ?g" for t
  proof -
    from assms(5) obtain s b1 where "addTerms ?g noValues b = Some (Some s, b1)" by (auto simp: overlapValues_def)
    from addTerms_exact[OF this wellCollected_none] assms(2) that show ?thesis by (auto simp: groupAt_def)
  qed
  have "overlapFact (otNode t) v = Some (True, otTruth t)" if t: "t \<in> set ?g" for t
  proof -
    from g[OF t] obtain q where q: "jget (otNode t) ''path'' = JString p" by (metis fact_holds)
    have "overlapFact (otNode t) v \<noteq> None"
    proof
      assume none: "overlapFact (otNode t) v = None"
      then have "stringOrEmpty (jget (otNode t) ''operator'') = ''in''"
        by (auto simp: overlapFact_def Let_def split: if_splits option.splits)
      then have "jget (otNode t) ''operator'' = JString ''in''" by (cases "jget (otNode t) ''operator''") auto
      with known[OF t] obtain xs where "jget (otNode t) ''value'' = JArray xs" by (auto simp: operandsOf_def split: json.splits)
      with none show False by (auto simp: overlapFact_def Let_def split: if_splits option.splits)
    qed
    moreover have "fst (factResult (otNode t) doc) = triFromBool (otTruth t)"
      using g[OF t] meaning_fact[of t ev doc] by (simp only: holds_def)
    ultimately show ?thesis using fact_at_value[OF q v _ av] g[OF t] by blast
  qed
  with overlapValues_represent[OF assms(5) _ av assms(6)] g show ?thesis by (auto simp: matched_def)
qed

subsection \<open>Pairs\<close>

definition goodTerms :: "overlapClause list \<Rightarrow> bool" where
  "goodTerms cs \<longleftrightarrow> (\<forall>t \<in> termsOf cs. leafNode (otNode t) \<and> admittedJson (JObject (otNode t)))"

lemma overlapDNF_good: "overlapDNF m truth b = Some (Some cs, b') \<Longrightarrow> admittedJson (JObject m) \<Longrightarrow> goodTerms cs"
  using overlapDNF_terms(1)[where P = "\<lambda>m. admittedJson (JObject m)"] everyLeaf_admitted unfolding goodTerms_def by blast

lemma tryPairs_excludes:
  assumes iter: "\<And>xs. mset (iter xs) = mset (xs :: string list)"
  shows "tryPairs iter single exact path prs b = Some (Some r, b') \<Longrightarrow> \<not> pvPossible r \<Longrightarrow> b \<le> overlapWorkLimit \<Longrightarrow>
    \<forall>(l, k) \<in> set prs. \<forall>t \<in> set l \<union> set k. leafNode (otNode t) \<and> admittedJson (JObject (otNode t)) \<Longrightarrow> admittedJson doc \<Longrightarrow>
    \<forall>(l, k) \<in> set prs. \<exists>t \<in> set l \<union> set k. \<not> holds ev doc t"
proof (induction prs arbitrary: b)
  case (Cons pr rest)
  obtain left right where pr: "pr = (left, right)" by (cases pr)
  let ?clause = "left @ right"
  have good: "\<forall>t \<in> set ?clause. leafNode (otNode t) \<and> admittedJson (JObject (otNode t))" using Cons.prems(4) pr by auto
  have iters: "set (iter xs) = set xs" for xs by (metis iter mset_eq_setD)
  show ?case
  proof (cases "symbolClash ?clause []")
    case True
    then have "\<exists>t \<in> set ?clause. \<not> holds ev doc t" using good by (intro symbolClash_sound[of _ "[]"]) auto
    moreover from Cons.prems(1) True pr obtain b1 where "tryPairs iter single exact path rest b1 = Some (Some r, b')" "b1 \<le> b"
      by (auto simp: andPay_def takeUnits_def split: if_splits)
    ultimately show ?thesis using Cons.IH[of b1] Cons.prems(2-5) pr by auto
  next
    case False
    with Cons.prems(1) pr obtain b1 g b2 where g: "tryGroups ?clause single (iter (groupPaths ?clause)) (JNull, path) b1 = Some (Some g, b2)"
      and k: "(case g of None \<Rightarrow> tryPairs iter single exact path rest
          | Some (v, p) \<Rightarrow> done_with \<lparr>pvPossible = True, pvExact = exact, pvWitness = v, pvPath = p\<rparr>) b2 = Some (Some r, b')"
      and b1: "b1 \<le> b"
      by (auto simp: Let_def)
    with Cons.prems(2) have none: "g = None" by (auto split: option.splits)
    with tryGroups_exact[OF g] obtain p vs b3 b4 where b3: "b3 \<le> b1" and p: "p \<in> set (groupPaths ?clause)"
      "overlapValues (groupAt ?clause p) b3 = Some (Some vs, b4)" "\<forall>v \<in> set vs. \<not> matched v (groupAt ?clause p)"
      by (auto simp: iters)
    have "\<exists>t \<in> set ?clause. \<not> holds ev doc t"
      using group_holds[OF _ _ Cons.prems(5) p(1,2), of ev] p(3) good b1 b3 Cons.prems(3) by fastforce
    moreover from k none have "tryPairs iter single exact path rest b2 = Some (Some r, b')" by simp
    moreover have "b2 \<le> overlapWorkLimit" using shrinksD[OF shrinks_tryGroups g] b1 Cons.prems(3) by simp
    ultimately show ?thesis using Cons.IH[of b2] Cons.prems(2-5) none pr by auto
  qed
qed simp

lemma scanTerms_exact:
  "scanTerms ts paths other b = Some (Some (ps, u), b') \<Longrightarrow>
     set ps = set paths \<union> pathOf ` {t \<in> set ts. isFact t} \<and> (distinct paths \<longrightarrow> distinct ps) \<and>
     (u \<longleftrightarrow> other \<or> (\<exists>t \<in> set ts. \<not> isFact t))"
  by (induction ts arbitrary: paths other b) (auto split: if_splits)

lemma scanTerms_paths:
  "scanTerms ts [] False b = Some (Some (ps, u), b') \<Longrightarrow> p \<in> set ps \<Longrightarrow> \<exists>t. t \<in> set ts \<and> isFact t \<and> pathOf t = p"
  using scanTerms_exact[of ts "[]" False b ps u b'] by auto

definition pathedFact :: "object \<Rightarrow> bool" where
  "pathedFact m \<longleftrightarrow> (jget m ''op'' = JString ''fact'' \<longrightarrow> (\<exists>p. jget m ''path'' = JString p \<and> rooted (compilePointer p)))"

definition witnessed :: "pairVerdict \<Rightarrow> overlapClause \<Rightarrow> bool" where
  "witnessed r terms \<longleftrightarrow>
     (\<forall>t \<in> set terms. pathOf t = pvPath r) \<and>
     (terms = [] \<or> matched (pvWitness r) terms \<and>
        (\<exists>vs b1 b2. overlapValues terms b1 = Some (Some vs, b2) \<and> pvWitness r \<in> set vs))"

text \<open>The clause a verdict was reached on: with one path and facts alone, its witness matches all of it.\<close>

lemma tryPairs_witness:
  assumes iter: "\<And>xs. mset (iter xs) = mset (xs :: string list)"
    and facts: "\<forall>(l, k) \<in> set prs. \<forall>t \<in> set l \<union> set k. isFact t \<and> pathOf t \<in> set ps" and ps: "distinct ps" "length ps \<le> 1"
  shows "tryPairs iter (length ps = 1) exact (lastPath ps) prs b = Some (Some r, b') \<Longrightarrow> pvPossible r \<Longrightarrow>
    pvPath r = lastPath ps \<and> (\<exists>(l, k) \<in> set prs. witnessed r (l @ k))"
  using facts
proof (induction prs arbitrary: b)
  case (Cons pr rest)
  obtain left right where pr: "pr = (left, right)" by (cases pr)
  let ?clause = "left @ right"
  have iters: "set (iter xs) = set xs" "length (iter xs) = length xs" for xs by (metis iter mset_eq_setD, metis iter size_mset)
  have cf: "\<forall>t \<in> set ?clause. isFact t \<and> pathOf t \<in> set ps" using Cons.prems(3) pr by auto
  have later: ?case if "tryPairs iter (length ps = 1) exact (lastPath ps) rest b0 = Some (Some r, b')" for b0
    using Cons.IH[OF that Cons.prems(2)] Cons.prems(3) by auto
  show ?case
  proof (cases "symbolClash ?clause []")
    case True
    with Cons.prems(1) pr later show ?thesis by auto
  next
    case False
    with Cons.prems(1) pr obtain b1 g b2 where
      g: "tryGroups ?clause (length ps = 1) (iter (groupPaths ?clause)) (JNull, lastPath ps) b1 = Some (Some g, b2)"
      and k: "(case g of None \<Rightarrow> tryPairs iter (length ps = 1) exact (lastPath ps) rest
          | Some (v, p) \<Rightarrow> done_with \<lparr>pvPossible = True, pvExact = exact, pvWitness = v, pvPath = p\<rparr>) b2 = Some (Some r, b')"
      by (auto simp: Let_def simp del: One_nat_def)
    show ?thesis
    proof (cases g)
      case None
      with k later show ?thesis by simp
    next
      case (Some w)
      with k have r: "pvWitness r = fst w" "pvPath r = snd w" by (auto split: prod.splits)
      show ?thesis
      proof (cases "?clause = []")
        case True
        then have "iter (groupPaths ?clause) = []" using iters(2)[of "groupPaths ?clause"] by (simp add: groupPaths_def uniqueList_def)
        with tryGroups_exact[OF g] Some r have "pvPath r = lastPath ps" by simp
        with True pr show ?thesis by (auto simp: witnessed_def)
      next
        case nonempty: False
        then obtain t0 where t0: "t0 \<in> set ?clause" by (cases ?clause) auto
        then obtain p0 where p0: "ps = [p0]" using cf ps by (cases ps) auto
        have all: "groupAt ?clause p0 = ?clause" "\<forall>t \<in> set ?clause. pathOf t = p0"
          using cf p0 by (auto simp: groupAt_def filter_id_conv)
        have "set (groupPaths ?clause) = {p0}" using t0 cf p0 by (auto simp: set_groupPaths)
        moreover have "distinct (groupPaths ?clause)" by (simp add: groupPaths_def)
        ultimately have "length (groupPaths ?clause) = 1" by (metis distinct_card card.empty card_insert_if empty_iff finite.emptyI One_nat_def)
        then obtain q where q: "iter (groupPaths ?clause) = [q]" using iters(2)[of "groupPaths ?clause"]
          by (metis One_nat_def length_0_conv length_Suc_conv)
        then have "q = p0" using iters(1)[of "groupPaths ?clause"] \<open>set (groupPaths ?clause) = {p0}\<close> by simp
        with tryGroups_exact[OF g] Some q p0 all r pr show ?thesis by (auto simp: witnessed_def lastPath_def)
      qed
    qed
  qed
qed (simp add: excluded_def)

lemma tryPairs_exact:
  "tryPairs iter single e path prs b = Some (Some r, b') \<Longrightarrow> pvExact r \<Longrightarrow> e \<and> pvPossible r"
proof (induction prs arbitrary: b)
  case (Cons pr prs)
  obtain l k where pr: "pr = (l, k)" by (cases pr)
  from Cons.prems(1) pr consider b1 where "tryPairs iter single e path prs b1 = Some (Some r, b')"
    | w p where "r = \<lparr>pvPossible = True, pvExact = e, pvWitness = w, pvPath = p\<rparr>"
    by (auto simp: Let_def split: if_splits option.splits prod.splits)
  then show ?case using Cons.IH Cons.prems(2) by cases auto
qed (simp add: excluded_def)

lemma matched_holds:
  assumes "matched v terms" "admittedJson v" "resolvePointer doc p = Some v"
    and "\<forall>t \<in> set terms. isFact t \<and> pathOf t = p \<and> pathedFact (otNode t) \<and> admittedJson (JObject (otNode t))"
  shows "\<forall>t \<in> set terms. holds ev doc t"
proof
  fix t assume t: "t \<in> set terms"
  with assms(4) have f: "isFact t" "pathOf t = p" "pathedFact (otNode t)" "admittedJson (JObject (otNode t))" by blast+
  then have path: "jget (otNode t) ''path'' = JString p" by (auto simp: pathedFact_def isFact_def pathOf_def)
  have m: "overlapFact (otNode t) v = Some (True, otTruth t)" using assms(1) t by (simp add: matched_def)
  with fact_at_value[OF path assms(3) f(4) assms(2)] show "holds ev doc t"
    unfolding holds_def meaning_fact[OF f(1)] by simp
qed

lemma in_product_terms: "(l, k) \<in> set (List.product ca cb) \<longleftrightarrow> l \<in> set ca \<and> k \<in> set cb"
  by simp

lemma overlapPair_excludes:
  assumes iter: "\<And>xs. mset (iter xs) = mset (xs :: string list)"
    and f: "overlapDNF ma True b1 = Some (fa, b2)" "overlapDNF mb True b3 = Some (fb, b4)"
    and adm: "admittedJson (JObject ma)" "admittedJson (JObject mb)" "admittedJson doc"
    and p: "overlapPair iter fa fb b5 = Some (v, b6)" "\<not> pvPossible v" "b5 \<le> overlapWorkLimit"
  shows "\<not> (meaning False ev (JObject ma) doc = triTrue \<and> meaning False ev (JObject mb) doc = triTrue)"
proof
  assume both: "meaning False ev (JObject ma) doc = triTrue \<and> meaning False ev (JObject mb) doc = triTrue"
  have sat: "satisfied ev doc cs" if "overlapDNF m True b = Some (Some cs, b')" "meaning False ev (JObject m) doc = triTrue" for m b cs b'
    using overlapDNF_exact(1)[OF that(1), of ev doc] that(2) by (simp add: triFromBool_def)
  show False
  proof (cases "fa = Some [] \<or> fb = Some []")
    case True
    then show False using sat[of ma b1 "[]" b2] sat[of mb b3 "[]" b4] f both by auto
  next
    case False
    have "pvPossible notExcluded" by (simp add: notExcluded_def)
    with p False obtain ca cb where c: "fa = Some ca" "fb = Some cb" "comparePair iter ca cb b5 = Some (Some v, b6)"
      by (auto simp: overlapPair_def split: option.splits)
    from c(3) obtain paths u b7 where t: "tryPairs iter (length paths = 1) (length paths \<le> 1 \<and> \<not> u) (lastPath (iter paths))
        (List.product ca cb) b7 = Some (Some v, b6)"
      and sc: "scanTerms (concat ca @ concat cb) [] False b5 = Some (Some (paths, u), b7)"
      by (auto simp: comparePair_def)
    have b7: "b7 \<le> overlapWorkLimit" using shrinksD[OF shrinks_scanTerms sc] p(3) by simp
    have good: "goodTerms ca" "goodTerms cb" using overlapDNF_good f c(1,2) adm by blast+
    have g: "\<forall>(l, k) \<in> set (List.product ca cb). \<forall>t \<in> set l \<union> set k. leafNode (otNode t) \<and> admittedJson (JObject (otNode t))"
      using good by (fastforce simp: goodTerms_def termsOf_def)
    from sat f c both have "satisfied ev doc ca" "satisfied ev doc cb" by blast+
    then obtain l k where lk: "l \<in> set ca" "k \<in> set cb" "\<forall>t \<in> set l. holds ev doc t" "\<forall>t \<in> set k. holds ev doc t"
      by (auto simp: satisfied_def)
    from tryPairs_excludes[OF iter t p(2) b7 g adm(3), of ev] lk show False by auto
  qed
qed

lemma overlapPair_witness:
  assumes iter: "\<And>xs. mset (iter xs) = mset (xs :: string list)"
    and f: "overlapDNF ma True b1 = Some (fa, b2)" "overlapDNF mb True b3 = Some (fb, b4)"
    and adm: "admittedJson (JObject ma)" "admittedJson (JObject mb)"
    and path: "everyLeaf pathedFact (JObject ma)" "everyLeaf pathedFact (JObject mb)"
    and p: "overlapPair iter fa fb b5 = Some (v, b6)" "pvExact v"
  shows "rooted (compilePointer (pvPath v)) \<and>
    (resolvePointer doc (pvPath v) = Some (pvWitness v) \<longrightarrow>
       meaning False ev (JObject ma) doc = triTrue \<and> meaning False ev (JObject mb) doc = triTrue)"
proof -
  have "\<not> pvExact excluded" "\<not> pvExact notExcluded" by (simp_all add: excluded_def notExcluded_def)
  with p obtain ca cb where c: "fa = Some ca" "fb = Some cb" "comparePair iter ca cb b5 = Some (Some v, b6)"
    by (auto simp: overlapPair_def split: option.splits if_splits)
  from c(3) obtain paths u b7 where sc: "scanTerms (concat ca @ concat cb) [] False b5 = Some (Some (paths, u), b7)"
    and t: "tryPairs iter (length paths = 1) (length paths \<le> 1 \<and> \<not> u) (lastPath (iter paths))
        (List.product ca cb) b7 = Some (Some v, b6)"
    by (auto simp: comparePair_def)
  from tryPairs_exact[OF t p(2)] have one: "length paths \<le> 1" "\<not> u" "pvPossible v" by auto
  from scanTerms_exact[OF sc] one(2) have s: "distinct paths" "\<forall>t \<in> set (concat ca @ concat cb). isFact t \<and> pathOf t \<in> set paths" by auto
  have same: "iter paths = paths"
  proof (cases paths)
    case Nil
    then show ?thesis using iter[of paths] by simp
  next
    case (Cons q qs)
    with one(1) have "paths = [q]" by simp
    then show ?thesis using iter[of paths] by (simp add: mset_single_iff_right)
  qed
  have prs: "\<forall>(l, k) \<in> set (List.product ca cb). \<forall>t \<in> set l \<union> set k. isFact t \<and> pathOf t \<in> set paths" using s(2) by auto
  from tryPairs_witness[OF iter prs s(1) one(1) t[unfolded same] one(3)] obtain l k where lk: "l \<in> set ca" "k \<in> set cb"
    and w: "witnessed v (l @ k)" and last: "pvPath v = lastPath paths" by auto
  have good: "goodTerms ca" "goodTerms cb" using overlapDNF_good f c(1,2) adm by blast+
  have paths: "\<forall>t \<in> termsOf ca \<union> termsOf cb. pathedFact (otNode t)"
    using overlapDNF_terms(1)[OF f(1)[unfolded c(1)] path(1)] overlapDNF_terms(1)[OF f(2)[unfolded c(2)] path(2)] by blast
  have root: "rooted (compilePointer (pvPath v))"
  proof (cases "paths = []")
    case True
    then show ?thesis by (simp add: last lastPath_def compilePointer_def)
  next
    case False
    then have "pvPath v \<in> set paths" by (simp add: last lastPath_def)
    from scanTerms_paths[OF sc this] obtain t where t: "t \<in> set (concat ca @ concat cb)" "isFact t" "pathOf t = pvPath v" by blast
    with paths have "pathedFact (otNode t)" by (auto simp: termsOf_def)
    with t(2,3) show ?thesis by (auto simp: pathedFact_def isFact_def pathOf_def)
  qed
  have "\<forall>t \<in> set (l @ k). holds ev doc t" if doc: "resolvePointer doc (pvPath v) = Some (pvWitness v)"
  proof (cases "l @ k = []")
    case False
    with w obtain vs b8 b9 where m: "matched (pvWitness v) (l @ k)" "overlapValues (l @ k) b8 = Some (Some vs, b9)" "pvWitness v \<in> set vs"
      by (auto simp: witnessed_def)
    have terms: "\<forall>t \<in> set (l @ k). isFact t \<and> pathOf t = pvPath v \<and> pathedFact (otNode t) \<and> admittedJson (JObject (otNode t))"
      using lk s(2) w good paths by (fastforce simp: goodTerms_def termsOf_def witnessed_def)
    have "admittedJson (pvWitness v)" using overlapValues_admitted[OF m(2)] terms m(3) by blast
    from matched_holds[OF m(1) this doc terms] show ?thesis .
  qed simp
  then have "satisfied ev doc ca \<and> satisfied ev doc cb" if "resolvePointer doc (pvPath v) = Some (pvWitness v)"
    using that lk by (force simp: satisfied_def)
  then show ?thesis using root overlapDNF_exact(1)[OF f(1)[unfolded c(1)], of ev doc] overlapDNF_exact(1)[OF f(2)[unfolded c(2)], of ev doc]
    by (simp add: triFromBool_def)
qed

subsection \<open>A pack without advice\<close>

lemma laterPairs_nth: "i < j \<Longrightarrow> j < length xs \<Longrightarrow> (xs ! i, xs ! j) \<in> set (laterPairs xs)"
proof (induction xs arbitrary: i j)
  case (Cons x xs)
  then obtain k where k: "j = Suc k" "k < length xs" by (cases j) auto
  with Cons show ?case by (cases i) (auto simp: image_iff)
qed simp

lemma ruleFormulas_exact:
  "ruleFormulas rules b = Some (fs, b') \<Longrightarrow>
     map fst fs = rules \<and>
     (\<forall>(rule, f) \<in> set fs. \<exists>c b1 b2. jget rule ''when'' = JObject c \<and> overlapDNF c True b1 = Some (f, b2))"
proof (induction rules arbitrary: b fs)
  case (Cons rule rest)
  from Cons.prems obtain c f b1 fs1 where c: "jget rule ''when'' = JObject c" "overlapDNF c True b = Some (f, b1)"
    "ruleFormulas rest b1 = Some (fs1, b')" "fs = (rule, f) # fs1"
    by (auto simp: bind_eq_Some_conv split: json.splits)
  with Cons.IH[OF c(3)] show ?case by auto
qed simp

lemma ruleFormulas_le: "ruleFormulas rules b = Some (fs, b') \<Longrightarrow> b' \<le> b"
proof (induction rules arbitrary: b fs)
  case (Cons rule rest)
  from Cons.prems obtain c f b1 fs1 where "overlapDNF c True b = Some (f, b1)" "ruleFormulas rest b1 = Some (fs1, b')"
    by (auto simp: bind_eq_Some_conv split: json.splits)
  with Cons.IH overlapDNF_le(1) show ?case by fastforce
qed simp

text \<open>What a pair is when nothing is said of it.\<close>

definition quiet :: "(string list \<Rightarrow> string list) \<Rightarrow> nat \<times> object \<times> overlapFormula \<Rightarrow> nat \<times> object \<times> overlapFormula \<Rightarrow> bool" where
  "quiet iter l r \<longleftrightarrow>
     sameInterface (jget (fst (snd l)) ''outcome'') (jget (fst (snd r)) ''outcome'') = Some True \<or>
     (\<exists>v b1 b2. b1 \<le> overlapWorkLimit \<and> overlapPair iter (snd (snd l)) (snd (snd r)) b1 = Some (v, b2) \<and> \<not> pvPossible v)"

text \<open>What is said of a pair.\<close>

definition said :: "(string list \<Rightarrow> string list) \<Rightarrow> (string \<Rightarrow> token list) \<Rightarrow> object \<Rightarrow> Limits
    \<Rightarrow> nat \<times> object \<times> overlapFormula \<Rightarrow> nat \<times> object \<times> overlapFormula \<Rightarrow> Diagnostic \<Rightarrow> bool" where
  "said iter scan m limits l r d \<longleftrightarrow>
     sameInterface (jget (fst (snd l)) ''outcome'') (jget (fst (snd r)) ''outcome'') = Some False \<and>
     (\<exists>v b1 b2 b3. overlapPair iter (snd (snd l)) (snd (snd r)) b1 = Some (v, b2) \<and> pvPossible v \<and>
        pairAdvice scan m limits (fst l) (fst (snd l)) (fst (snd r)) v b2 = Some (d, b3))"

lemma addDiagnostic_items: "addDiagnostic d c = (ok, c') \<Longrightarrow> length (dcItems c) \<le> length (dcItems c')"
  by (auto simp: addDiagnostic_def split: if_splits)

lemma addDiagnostic_first: "addDiagnostic d c = (True, c') \<Longrightarrow> dcSeen c = [] \<Longrightarrow> dcItems c' \<noteq> []"
  by (auto simp: addDiagnostic_def split: if_splits)

lemma pairStep_cases:
  assumes "pairStep bytes iter scan m limits l r s = Some (ok, s')"
  obtains "ok" "asBudget s \<le> overlapWorkLimit \<longrightarrow> quiet iter l r" "asCollector s' = asCollector s"
      "asOutput s' = asOutput s" "asBudget s' \<le> asBudget s"
  | "\<not> ok" "asCollector s' = asCollector s"
  | d where "said iter scan m limits l r d" "addDiagnostic d (asCollector s) = (ok, asCollector s')"
      "asOutput s' = asOutput s - int (bytes d)" "asOutput s' \<ge> 0"
proof -
  obtain i a fa j b fb where lr: "l = (i, a, fa)" "r = (j, b, fb)" by (metis prod_cases3)
  from assms lr obtain same where same: "sameInterface (jget a ''outcome'') (jget b ''outcome'') = Some same"
    and k: "(if same then Some (True, s)
         else Option.bind (overlapPair iter fa fb (asBudget s)) (\<lambda>(v, b1).
           if \<not> pvPossible v then Some (True, s\<lparr>asBudget := b1\<rparr>)
           else map_option (\<lambda>(d, b2).
             let s1 = s\<lparr>asBudget := b2, asOutput := asOutput s - int (bytes d)\<rparr>
             in if asOutput s1 < 0 then (False, s1)
                else let (ok, c) = addDiagnostic d (asCollector s) in (ok, s1\<lparr>asCollector := c\<rparr>))
             (pairAdvice scan m limits i a b v b1))) = Some (ok, s')"
    by (auto simp: pairStep_def bind_eq_Some_conv)
  show thesis
  proof (cases same)
    case True
    with same k lr show thesis by (intro that(1)) (auto simp: quiet_def)
  next
    case False
    with k obtain v b1 where v: "overlapPair iter fa fb (asBudget s) = Some (v, b1)"
      and k1: "(if \<not> pvPossible v then Some (True, s\<lparr>asBudget := b1\<rparr>)
           else map_option (\<lambda>(d, b2).
             let s1 = s\<lparr>asBudget := b2, asOutput := asOutput s - int (bytes d)\<rparr>
             in if asOutput s1 < 0 then (False, s1)
                else let (ok, c) = addDiagnostic d (asCollector s) in (ok, s1\<lparr>asCollector := c\<rparr>))
             (pairAdvice scan m limits i a b v b1)) = Some (ok, s')"
      by (auto simp: bind_eq_Some_conv)
    show thesis
    proof (cases "pvPossible v")
      case False
      with v k1 lr overlapPair_le[OF v] show thesis by (intro that(1)) (auto simp: quiet_def)
    next
      case True
      with k1 obtain d b2 where "pairAdvice scan m limits i a b v b1 = Some (d, b2)" by auto
      moreover from this have "said iter scan m limits l r d" using same False v True lr unfolding said_def by auto
      ultimately show thesis using True k1 that(2) that(3)[of d] by (auto simp: Let_def split: if_splits prod.splits)
    qed
  qed
qed

lemma pairSteps_Cons:
  assumes "pairSteps bytes iter scan m limits ((l, r) # prs) s = Some (ok, s')"
  obtains ok1 s1 where "pairStep bytes iter scan m limits l r s = Some (ok1, s1)"
    "if ok1 then pairSteps bytes iter scan m limits prs s1 = Some (ok, s') else s' = s1 \<and> \<not> ok"
  using assms by (auto simp: bind_eq_Some_conv split: if_splits)

lemma pairSteps_items:
  "pairSteps bytes iter scan m limits prs s = Some (ok, s') \<Longrightarrow>
     length (dcItems (asCollector s)) \<le> length (dcItems (asCollector s'))"
proof (induction prs arbitrary: s)
  case (Cons pr prs)
  obtain l r where pr: "pr = (l, r)" by (cases pr)
  from Cons.prems pr obtain ok1 s1 where s: "pairStep bytes iter scan m limits l r s = Some (ok1, s1)"
    and k: "if ok1 then pairSteps bytes iter scan m limits prs s1 = Some (ok, s') else s' = s1"
    by (auto simp: bind_eq_Some_conv split: if_splits)
  have "length (dcItems (asCollector s)) \<le> length (dcItems (asCollector s1))"
    using s by (cases rule: pairStep_cases) (auto dest: addDiagnostic_items)
  with Cons.IH[of s1] k show ?case by (auto split: if_splits)
qed simp

lemma pairSteps_quiet:
  "pairSteps bytes iter scan m limits prs s = Some (True, s') \<Longrightarrow> dcItems (asCollector s') = [] \<Longrightarrow>
     dcSeen (asCollector s) = [] \<Longrightarrow> asBudget s \<le> overlapWorkLimit \<Longrightarrow> \<forall>(l, r) \<in> set prs. quiet iter l r"
proof (induction prs arbitrary: s)
  case (Cons pr prs)
  obtain l r where pr: "pr = (l, r)" by (cases pr)
  from Cons.prems(1) pr obtain s1 where s: "pairStep bytes iter scan m limits l r s = Some (True, s1)"
    and k: "pairSteps bytes iter scan m limits prs s1 = Some (True, s')"
    by (auto simp: bind_eq_Some_conv split: if_splits)
  have none: "dcItems (asCollector s1) = []" using pairSteps_items[OF k] Cons.prems(2) by simp
  from s have "quiet iter l r \<and> asCollector s1 = asCollector s \<and> asBudget s1 \<le> asBudget s"
    by (cases rule: pairStep_cases) (use none Cons.prems(3,4) addDiagnostic_first in auto)
  with Cons.IH[OF k Cons.prems(2)] Cons.prems(3,4) pr show ?case by simp
qed simp

lemma silent_quiet:
  assumes "ruleOverlapDiagnostics bytes iter scan m limits = Some ([], False)"
    and "i < j" "j < length rules" "rules = objectList (jget m ''rules'')"
    and "jget (rules ! i) ''outcome'' = JString p" "jget (rules ! j) ''outcome'' = JString q" "p \<noteq> q"
  obtains ca cb fa fb v b1 b2 b3 b4 b5 b6 where "jget (rules ! i) ''when'' = JObject ca" "jget (rules ! j) ''when'' = JObject cb"
    "overlapDNF ca True b1 = Some (fa, b2)" "overlapDNF cb True b3 = Some (fb, b4)"
    "overlapPair iter fa fb b5 = Some (v, b6)" "\<not> pvPossible v" "b5 \<le> overlapWorkLimit"
proof -
  let ?texts = "map (\<lambda>rule. stringOrEmpty (jget rule ''outcome'')) rules"
  have "{p, q} \<subseteq> set (uniqueList ?texts)"
  proof -
    have "rules ! i \<in> set rules" "rules ! j \<in> set rules" using assms(2,3) by auto
    then have "stringOrEmpty (jget (rules ! i) ''outcome'') \<in> set ?texts" "stringOrEmpty (jget (rules ! j) ''outcome'') \<in> set ?texts"
      by simp_all
    with assms(5,6) show ?thesis by simp
  qed
  then have "card {p, q} \<le> length (uniqueList ?texts)"
    by (metis card_mono List.finite_set distinct_card distinct_uniqueList)
  then have two: "\<not> length (uniqueList ?texts) < 2" using assms(7) by simp
  from assms(1) two assms(4) obtain fs b s' where fs: "ruleFormulas rules overlapWorkLimit = Some (fs, b)"
    and st: "pairSteps bytes iter scan m limits (laterPairs (indexed fs))
        \<lparr>asCollector = newDiagnosticCollector, asOutput = overlapOutputLimit, asBudget = b\<rparr> = Some (True, s')"
      "sortedDiagnostics (dcItems (asCollector s')) = []"
    by (auto simp: ruleOverlapDiagnostics_def Let_def bind_eq_Some_conv)
  have "dcItems (asCollector s') = []" using st(2) by (simp add: sortedDiagnostics_def flip: length_0_conv)
  moreover have "b \<le> overlapWorkLimit" by (rule ruleFormulas_le[OF fs])
  ultimately have quiet: "\<forall>(l, r) \<in> set (laterPairs (indexed fs)). quiet iter l r"
    using pairSteps_quiet[OF st(1)] by (simp add: newDiagnosticCollector_def)
  from ruleFormulas_exact[OF fs] have f: "map fst fs = rules"
    "\<And>k. k < length fs \<Longrightarrow> \<exists>c b1 b2. jget (fst (fs ! k)) ''when'' = JObject c \<and> overlapDNF c True b1 = Some (snd (fs ! k), b2)"
    by (auto dest!: nth_mem simp: case_prod_unfold)
  have len: "length fs = length rules" using f(1) by (metis length_map)
  have nth: "fst (fs ! k) = rules ! k" "indexed fs ! k = (k, fs ! k)" if "k < length rules" for k
    using that len f(1) nth_map[of k fs fst] by (simp_all add: indexed_def)
  have "(indexed fs ! i, indexed fs ! j) \<in> set (laterPairs (indexed fs))"
    using assms(2,3) len by (intro laterPairs_nth) (simp_all add: indexed_def)
  with quiet nth assms(2,3) have "quiet iter (i, fs ! i) (j, fs ! j)" by auto
  with assms(2,3,5-7) nth obtain v b5 b6 where v: "overlapPair iter (snd (fs ! i)) (snd (fs ! j)) b5 = Some (v, b6)" "\<not> pvPossible v" "b5 \<le> overlapWorkLimit"
    by (auto simp: quiet_def)
  obtain ca b1 b2 where a: "jget (rules ! i) ''when'' = JObject ca" "overlapDNF ca True b1 = Some (snd (fs ! i), b2)"
    using f(2)[of i] nth(1)[of i] assms(2,3) len by auto
  obtain cb b3 b4 where b: "jget (rules ! j) ''when'' = JObject cb" "overlapDNF cb True b3 = Some (snd (fs ! j), b4)"
    using f(2)[of j] nth(1)[of j] assms(3) len by auto
  show thesis by (rule that[OF a(1) b(1) a(2) b(2) v])
qed

lemma silent_excludes:
  assumes iter: "\<And>xs. mset (iter xs) = mset (xs :: string list)"
    and silent: "ruleOverlapDiagnostics bytes iter scan m limits = Some ([], False)"
    and adm: "admittedJson (JObject m)" "admittedJson doc"
    and rules: "i < j" "j < length rules" "rules = objectList (jget m ''rules'')"
    and outs: "jget (rules ! i) ''outcome'' = JString p" "jget (rules ! j) ''outcome'' = JString q" "p \<noteq> q"
  shows "\<not> (meaning False ev (jget (rules ! i) ''when'') doc = triTrue \<and> meaning False ev (jget (rules ! j) ''when'') doc = triTrue)"
proof -
  have "admittedJson (jget (rules ! k) ''when'')" if "k < length rules" for k
  proof -
    have "JObject (rules ! k) \<in> set (asArray (jget m ''rules''))"
      using that rules(3) nth_mem[OF that] by (auto simp: objectList_def map_filter_def asObject_Some)
    then have "admittedJson (JObject (rules ! k))"
      using admitted_jget[OF adm(1), of "''rules''"] by (cases "jget m ''rules''") (auto simp: list_all_iff simp del: admittedJson.simps(4))
    then show ?thesis by (rule admitted_jget)
  qed
  then have w: "admittedJson (jget (rules ! i) ''when'')" "admittedJson (jget (rules ! j) ''when'')" using rules(1,2) by auto
  show ?thesis
  proof (rule silent_quiet[OF silent rules outs])
    fix ca cb fa fb v b1 b2 b3 b4 b5 b6
    assume c: "jget (rules ! i) ''when'' = JObject ca" "jget (rules ! j) ''when'' = JObject cb"
      "overlapDNF ca True b1 = Some (fa, b2)" "overlapDNF cb True b3 = Some (fb, b4)"
      "overlapPair iter fa fb b5 = Some (v, b6)" "\<not> pvPossible v" "b5 \<le> overlapWorkLimit"
    from overlapPair_excludes[OF iter c(3,4) w[unfolded c(1,2)] adm(2) c(5-7), of ev] c(1,2) show ?thesis by simp
  qed
qed

end
