(* ===== verification/Overlap_Total.thy ===== *)
theory Overlap_Total
  imports Overlap_Advice Overlap_Clauses
begin

section \<open>The overlap advice answers\<close>

text \<open>
  The type assertions of \<open>overlap.go\<close> that are not checked, and where a document that the layers before
  the advice accepted cannot fail them. \<open>answers\<close> is the absence of a panic, whatever the budget.
\<close>

subsection \<open>Documents that the layers before accept\<close>

definition factForm :: "object \<Rightarrow> bool" where
  "factForm m \<longleftrightarrow>
     (jget m ''op'' = JString ''fact'' \<longrightarrow>
        (\<exists>p. jget m ''path'' = JString p \<and> rooted (compilePointer p)) \<and>
        (jget m ''operator'' = JString ''in'' \<longrightarrow> (\<exists>xs. jget m ''value'' = JArray xs)) \<and>
        (OrderedOperator (stringOrEmpty (jget m ''operator'')) \<longrightarrow>
           (\<exists>s. jget m ''value'' = JString s \<and> decimalPattern s)))"

text \<open>The layers before look at the grammar of a threshold only. The advice compares two of them without
  asking whether they were read, so the ones \<open>SetString\<close> refuses for their length are left out apart.\<close>

definition thresholdRead :: "object \<Rightarrow> bool" where
  "thresholdRead m \<longleftrightarrow>
     (jget m ''op'' = JString ''fact'' \<and> OrderedOperator (stringOrEmpty (jget m ''operator'')) \<longrightarrow>
        overlapNumber (jget m ''value'') \<noteq> None)"

function (sequential) structured :: "json \<Rightarrow> bool" where
  "structured (JObject m) =
     (let op = stringOrEmpty (jget m ''op'')
      in if op = ''literal'' then True
         else if op = ''not'' then structured (jget m ''condition'')
         else if op = ''all'' \<or> op = ''any'' then
           (case jget m ''conditions'' of JArray cs \<Rightarrow> \<forall>c \<in> set cs. structured c | _ \<Rightarrow> False)
         else factForm m)"
| "structured v = False"
  by pat_completeness auto
termination
  by (relation "measure size") (simp_all only: in_measure case_prod_conv wf_measure size_condition_item size_jget_lt)

declare structured.simps(1) [simp del]

lemma structured_object: "structured v \<Longrightarrow> \<exists>m. v = JObject m"
  by (cases v) auto

lemma structured_everyLeaf: "structured v \<Longrightarrow> everyLeaf factForm v"
proof (induction v rule: structured.induct)
  case (1 m)
  then show ?case
    unfolding structured.simps(1) everyLeaf.simps(1) Let_def by (auto split: if_splits json.splits)
qed simp_all

definition overlapReady :: "object \<Rightarrow> bool" where
  "overlapReady m \<longleftrightarrow>
     (\<exists>entries. jget m ''rules'' = JArray entries \<and>
        (\<forall>entry \<in> set entries. \<exists>rule p. entry = JObject rule \<and> jget rule ''outcome'' = JString p \<and>
           structured (jget rule ''when'')))"

definition thresholdsRead :: "object \<Rightarrow> bool" where
  "thresholdsRead m \<longleftrightarrow> (\<forall>rule \<in> set (objectList (jget m ''rules'')). everyLeaf thresholdRead (jget rule ''when''))"

subsection \<open>Answers\<close>

definition answers :: "'a charged \<Rightarrow> bool" where
  "answers f \<longleftrightarrow> (\<forall>b. f b \<noteq> None)"

named_theorems answers

lemma answers_basic [answers]: "answers (done_with x)" "answers cut" "answers (takeUnits n)"
  by (simp_all add: answers_def done_with_def cut_def takeUnits_def)

lemma answers_Some:
  assumes "answers f" obtains r b1 where "f b = Some (r, b1)"
  using assms unfolding answers_def by (metis option.exhaust surj_pair)

lemma answers_andPay [answers]:
  assumes "answers f" "\<And>x b b1. f b = Some (Some x, b1) \<Longrightarrow> answers (g x)"
  shows "answers (andPay f g)"
  unfolding answers_def
proof
  fix b
  obtain r b1 where "f b = Some (r, b1)" using assms(1) by (rule answers_Some)
  then show "andPay f g b \<noteq> None" using assms(2)[of b _ b1] by (cases r) (auto simp: andPay_def answers_def)
qed

lemma answers_if [answers]: "(c \<Longrightarrow> answers f) \<Longrightarrow> (\<not> c \<Longrightarrow> answers g) \<Longrightarrow> answers (if c then f else g)"
  by simp

lemma answers_joinRow [answers]: "answers (joinRow a cs)"
  by (induction cs) (auto intro!: answers)

lemma answers_joinClauses [answers]: "answers (joinClauses as cs)"
  by (induction as) (auto intro!: answers)

lemma andPay_total: "f b \<noteq> None \<Longrightarrow> (\<And>x b1. f b = Some (Some x, b1) \<Longrightarrow> g x b1 \<noteq> None) \<Longrightarrow> andPay f g b \<noteq> None"
  by (auto simp: andPay_def split: option.splits)

lemma takeUnits_total: "takeUnits n b \<noteq> None"
  by (simp add: takeUnits_def)

lemma overlapDNF_total:
  "structured (JObject m) \<Longrightarrow> overlapDNF m truth b \<noteq> None"
  "\<forall>c \<in> set items. structured c \<Longrightarrow> overlapChildren product truth items clauses b \<noteq> None"
proof (induction m truth b and product truth items clauses b rule: overlapDNF_overlapChildren.induct)
  case (1 m truth b)
  note s = "1.prems"[unfolded structured.simps(1) Let_def]
  obtain word where word: "stringOrEmpty (jget m ''op'') = word" by simp
  show ?case
    unfolding overlapDNF.simps[of m truth b] Let_def word
  proof (rule andPay_total[OF takeUnits_total])
    fix x :: unit and b1 assume b1: "takeUnits 1 b = Some (Some x, b1)"
    consider "word = ''literal''" | "word = ''not''" | "word = ''all'' \<or> word = ''any''"
      | "word \<noteq> ''literal''" "word \<noteq> ''not''" "word \<noteq> ''all''" "word \<noteq> ''any''" by blast
    then show "(if word = ''literal'' then done_with (if jget m ''value'' = JBool truth then [[]] else []) b1
          else if word = ''not'' then
            (case jget m ''condition'' of JObject c \<Rightarrow> overlapDNF c (\<not> truth) b1 | _ \<Rightarrow> panic b1)
          else if word \<noteq> ''all'' \<and> word \<noteq> ''any'' then done_with [[\<lparr>otNode = m, otTruth = truth\<rparr>]] b1
          else
             case jget m ''conditions'' of
                  JArray cs \<Rightarrow> overlapChildren ((word = ''all'') = truth) truth cs (if (word = ''all'') = truth then [[]] else []) b1
                | _ \<Rightarrow> panic b1) \<noteq> None"
    proof cases
      case 2
      with s word have c: "structured (jget m ''condition'')" by simp
      with structured_object obtain c where c': "jget m ''condition'' = JObject c" by blast
      from "1.IH"(1)[OF b1 word[symmetric] _ _ c'] 2 c c' show ?thesis by simp
    next
      case 3
      with s word obtain cs where cs: "jget m ''conditions'' = JArray cs" "\<forall>c \<in> set cs. structured c"
        by (auto split: json.splits)
      from "1.IH"(2)[OF b1 word[symmetric] _ _ _ refl cs(1) cs(2)] 3 cs(1) show ?thesis by auto
    qed (simp_all add: done_with_def)
  qed
next
  case (3 product truth c rest clauses b)
  show ?case unfolding overlapChildren.simps
  proof (rule andPay_total)
    show "overlapDNF c truth b \<noteq> None" using "3.IH"(1) "3.prems" by simp
    fix child b1 assume child: "overlapDNF c truth b = Some (Some child, b1)"
    have rest: "\<forall>c \<in> set rest. structured c" using "3.prems" by simp
    show "(if \<not> product then
         (if length clauses + length child > overlapClauseLimit then cut b1
          else overlapChildren product truth rest (clauses @ child) b1)
       else if length clauses * length child > overlapClauseLimit then cut b1
       else andPay (joinClauses clauses child) (\<lambda>joined b2. overlapChildren product truth rest joined b2) b1) \<noteq> None"
    proof (cases product)
      case False
      with "3.IH"(2)[OF child _ _ rest] show ?thesis by (simp add: cut_def)
    next
      case True
      have "andPay (joinClauses clauses child) (\<lambda>joined b2. overlapChildren product truth rest joined b2) b1 \<noteq> None"
        if "\<not> length clauses * length child > overlapClauseLimit"
        using "3.IH"(3)[OF child _ _ _ rest] True that answers_joinClauses[of clauses child]
        by (intro andPay_total) (auto simp: answers_def simp del: not_None_eq)
      with True show ?thesis by (simp add: cut_def)
    qed
  qed
next
  case (2 product truth clauses b)
  then show ?case by (simp add: done_with_def)
qed auto

subsection \<open>Values and pairs\<close>

definition readyTerm :: "overlapTerm \<Rightarrow> bool" where
  "readyTerm t \<longleftrightarrow> factForm (otNode t)"

lemma answers_addOperands [answers]: "answers (addOperands vs s)"
  by (induction vs arbitrary: s) (auto intro!: answers)

lemma ready_operands:
  assumes "readyTerm t" "isFact t" obtains vs where "operandsOf (otNode t) = Some vs"
proof (cases "jget (otNode t) ''operator'' = JString ''in''")
  case True
  with assms obtain xs where "jget (otNode t) ''value'' = JArray xs" by (auto simp: readyTerm_def isFact_def factForm_def)
  with True that[of xs] show thesis by (simp add: operandsOf_def)
next
  case False
  with that show thesis by (simp add: operandsOf_def)
qed

lemma answers_addTerms: "\<forall>t \<in> set ts. readyTerm t \<and> isFact t \<Longrightarrow> answers (addTerms ts s)"
proof (induction ts arbitrary: s)
  case (Cons t ts)
  then have "readyTerm t" "isFact t" by auto
  then obtain vs where "operandsOf (otNode t) = Some vs" by (rule ready_operands)
  with Cons show ?case by (auto intro!: answers)
qed (simp add: answers)

lemma answers_extendText [answers]: "answers (extendText seen s)"
  unfolding answers_def
proof
  fix b show "extendText seen s b \<noteq> None"
    by (induction seen s b rule: extendText.induct) (subst extendText.simps, auto simp: done_with_def cut_def)
qed

lemma answers_freshDecimal [answers]: "answers (freshDecimal r d s)"
  unfolding freshDecimal_def by (intro answers)

lemma answers_freshPoints [answers]: "answers (freshPoints first ps s)"
  by (induction first ps s rule: freshPoints.induct) (auto intro!: answers split: list.split)

lemma answers_overlapValues: "\<forall>t \<in> set ts. readyTerm t \<and> isFact t \<Longrightarrow> answers (overlapValues ts)"
  unfolding overlapValues_def Let_def by (intro answers answers_addTerms)

lemma ready_fact:
  assumes "readyTerm t" "isFact t" obtains known truth where "overlapFact (otNode t) v = Some (known, truth)"
proof -
  have "overlapFact (otNode t) v \<noteq> None"
  proof
    assume none: "overlapFact (otNode t) v = None"
    then have w: "stringOrEmpty (jget (otNode t) ''operator'') = ''in''"
      by (auto simp: overlapFact_def Let_def split: if_splits option.splits)
    then have "jget (otNode t) ''operator'' = JString ''in''" by (cases "jget (otNode t) ''operator''") auto
    with assms obtain xs where "jget (otNode t) ''value'' = JArray xs" by (auto simp: readyTerm_def isFact_def factForm_def)
    with none w show False by (simp add: overlapFact_def)
  qed
  then show thesis using that by fast
qed

lemma answers_matchesAll: "\<forall>t \<in> set ts. readyTerm t \<and> isFact t \<Longrightarrow> answers (matchesAll v ts)"
proof (induction ts)
  case (Cons t ts)
  then have "readyTerm t" "isFact t" by auto
  then obtain known truth where "overlapFact (otNode t) v = Some (known, truth)" by (rule ready_fact)
  with Cons show ?case by (auto intro!: answers)
qed (simp add: answers)

lemma answers_firstMatch: "\<forall>t \<in> set ts. readyTerm t \<and> isFact t \<Longrightarrow> answers (firstMatch vs ts)"
  by (induction vs) (auto intro!: answers answers_matchesAll)

lemma answers_tryGroups: "\<forall>t \<in> set clause. readyTerm t \<Longrightarrow> answers (tryGroups clause single ps w)"
proof (induction ps arbitrary: single w)
  case (Cons p ps)
  have "\<forall>t \<in> set (groupAt clause p). readyTerm t \<and> isFact t" using Cons.prems by (auto simp: groupAt_def)
  then show ?case
    by (auto intro!: answers answers_overlapValues answers_firstMatch Cons.IH[OF Cons.prems] split: option.split)
qed (simp add: answers)

lemma answers_tryPairs:
  "\<forall>(l, k) \<in> set prs. \<forall>t \<in> set l \<union> set k. readyTerm t \<Longrightarrow> answers (tryPairs iter single exact path prs)"
proof (induction prs)
  case (Cons pr prs)
  obtain l k where pr: "pr = (l, k)" by (cases pr)
  have "\<forall>t \<in> set (l @ k). readyTerm t" using Cons.prems pr by auto
  with Cons pr show ?case by (auto simp: Let_def intro!: answers answers_tryGroups split: option.split)
qed (simp add: answers)

lemma answers_scanTerms [answers]: "answers (scanTerms ts paths other)"
  by (induction ts arbitrary: paths other) (auto intro!: answers)

lemma overlapPair_total:
  assumes "\<And>cs. fa = Some cs \<Longrightarrow> \<forall>t \<in> termsOf cs. readyTerm t" "\<And>cs. fb = Some cs \<Longrightarrow> \<forall>t \<in> termsOf cs. readyTerm t"
  obtains v b' where "overlapPair iter fa fb b = Some (v, b')"
proof -
  have "answers (comparePair iter ca cb)" if "fa = Some ca" "fb = Some cb" for ca cb
  proof -
    have "\<forall>(l, k) \<in> set (List.product ca cb). \<forall>t \<in> set l \<union> set k. readyTerm t"
      using assms that by (fastforce simp: termsOf_def)
    then show ?thesis unfolding comparePair_def by (auto intro!: answers answers_tryPairs)
  qed
  then have "overlapPair iter fa fb b \<noteq> None"
    by (auto simp: overlapPair_def answers_def simp del: not_None_eq split: option.splits)
  then show thesis using that by fast
qed

subsection \<open>Regions, rewrites and documents\<close>

lemma readyFact_values:
  assumes "factForm m" "jget m ''op'' = JString ''fact''"
  shows "\<exists>p. jget m ''path'' = JString p" "finiteValues m \<noteq> None" "overlapFact m v \<noteq> None"
proof -
  have t: "readyTerm \<lparr>otNode = m, otTruth = True\<rparr>" "isFact \<lparr>otNode = m, otTruth = True\<rparr>"
    using assms by (simp_all add: readyTerm_def isFact_def)
  show "overlapFact m v \<noteq> None" by (rule ready_fact[OF t, of v]) simp
  show "\<exists>p. jget m ''path'' = JString p" "finiteValues m \<noteq> None"
    using assms by (auto simp: factForm_def finiteValues_def simp del: not_None_eq)
qed

lemma ascendingPair_total:
  assumes "ascendingFact ac \<Longrightarrow> factForm ac \<and> thresholdRead ac" "ascendingFact bc \<Longrightarrow> factForm bc \<and> thresholdRead bc"
  obtains bands where "ascendingPair ac bc = Some bands"
    "\<not> bands \<or> compareOperands ac bc \<noteq> None"
proof -
  have num: "\<exists>x. overlapNumber (jget c ''value'') = Some x" if "thresholdRead c" "ascendingFact c" for c
    using that by (auto simp: ascendingFact_def thresholdRead_def OrderedOperator_def)
  have c: "compareOperands ac bc \<noteq> None" if asc: "ascendingFact ac" "ascendingFact bc"
  proof -
    from num assms asc obtain x y where "overlapNumber (jget ac ''value'') = Some x" "overlapNumber (jget bc ''value'') = Some y"
      by metis
    then show ?thesis by (simp add: compareOperands_def)
  qed
  show thesis
  proof (cases "ascendingFact ac \<and> ascendingFact bc")
    case True
    then obtain p q where "jget ac ''path'' = JString p" "jget bc ''path'' = JString q"
      using assms readyFact_values(1) by (metis ascendingFact_def)
    with True c that[of "p = q"] show thesis by (simp add: ascendingPair_def)
  next
    case False
    with that[of False] show thesis by (auto simp: ascendingPair_def)
  qed
qed

lemma leaf_form:
  assumes "structured (JObject c)" "jget c ''op'' = JString ''fact''" shows "factForm c"
  using assms by (simp add: structured.simps(1) Let_def)

lemma leaf_read:
  assumes "everyLeaf thresholdRead (JObject c)" "jget c ''op'' = JString ''fact''" shows "thresholdRead c"
  using assms by (simp add: everyLeaf.simps(1) Let_def)

lemma exclusiveRewrite_total:
  assumes "structured (jget a ''when'')" "structured (jget b ''when'')"
    and "everyLeaf thresholdRead (jget a ''when'')" "everyLeaf thresholdRead (jget b ''when'')"
  obtains r where "exclusiveRewrite a b = Some r"
proof -
  from assms structured_object obtain ac bc where c: "jget a ''when'' = JObject ac" "jget b ''when'' = JObject bc" by metis
  with assms have "ascendingFact ac \<Longrightarrow> factForm ac \<and> thresholdRead ac" "ascendingFact bc \<Longrightarrow> factForm bc \<and> thresholdRead bc"
    by (auto simp: ascendingFact_def leaf_form leaf_read)
  then obtain bands where "ascendingPair ac bc = Some bands" "\<not> bands \<or> compareOperands ac bc \<noteq> None" by (rule ascendingPair_total)
  with c have "exclusiveRewrite a b \<noteq> None" by (auto simp: exclusiveRewrite_def simp del: not_None_eq)
  then show thesis using that by fast
qed

lemma sharedValues_total: "(\<And>v. overlapFact c v \<noteq> None) \<Longrightarrow> sharedValues c vs seen \<noteq> None"
proof (induction vs arbitrary: seen)
  case (Cons v vs)
  obtain known truth where "overlapFact c v = Some (known, truth)" using Cons.prems[of v] by fast
  with Cons show ?case by (auto simp del: not_None_eq)
qed simp

lemma simpleOverlap_total:
  assumes "structured (jget a ''when'')" "structured (jget b ''when'')"
    and "everyLeaf thresholdRead (jget a ''when'')" "everyLeaf thresholdRead (jget b ''when'')"
  shows "simpleOverlap a b \<noteq> None"
proof -
  from assms structured_object obtain ac bc where c: "jget a ''when'' = JObject ac" "jget b ''when'' = JObject bc" by metis
  with assms have form: "jget ac ''op'' = JString ''fact'' \<Longrightarrow> factForm ac" "jget bc ''op'' = JString ''fact'' \<Longrightarrow> factForm bc"
    by (auto simp: leaf_form)
  with assms(3,4) c have "ascendingFact ac \<Longrightarrow> factForm ac \<and> thresholdRead ac" "ascendingFact bc \<Longrightarrow> factForm bc \<and> thresholdRead bc"
    by (auto simp: ascendingFact_def leaf_read)
  then obtain bands where "ascendingPair ac bc = Some bands" "\<not> bands \<or> compareOperands ac bc \<noteq> None" by (rule ascendingPair_total)
  then have "ascendingOverlap ac bc \<noteq> None" by (auto simp: ascendingOverlap_def simp del: not_None_eq)
  then obtain region where region: "ascendingOverlap ac bc = Some region" by fast
  have shared: "sharedRegion xc yc vs \<noteq> None" if "factForm yc" "jget yc ''op'' = JString ''fact''" for xc yc vs
    using sharedValues_total[OF readyFact_values(3)[OF that]] by (simp add: sharedRegion_def)
  show ?thesis
  proof (cases "region = None \<and> jget ac ''op'' = JString ''fact'' \<and> jget bc ''op'' = JString ''fact''")
    case False
    with c region show ?thesis by (auto simp: simpleOverlap_def simp del: not_None_eq)
  next
    case True
    note fa = form(1)[OF True[THEN conjunct2, THEN conjunct1]] and fb = form(2)[OF True[THEN conjunct2, THEN conjunct2]]
    obtain p q where "jget ac ''path'' = JString p" "jget bc ''path'' = JString q" using True fa fb readyFact_values(1) by metis
    moreover obtain left where "finiteValues ac = Some left" using True fa readyFact_values(2) by fast
    moreover obtain right where "finiteValues bc = Some right" using True fb readyFact_values(2) by fast
    ultimately show ?thesis using c region True shared[of ac] shared[of bc] fa fb
      by (auto simp: simpleOverlap_def simp del: not_None_eq split: option.split)
  qed
qed

lemma answers_boundedOverlapFacts: "answers (boundedOverlapFacts scan p v limits)"
  unfolding boundedOverlapFacts_def Let_def
  by (intro answers) (auto simp: answers_def split: prod.split)

lemma ruleIndex_bound: "ruleIndex entries k b = Some (Some i, b1) \<Longrightarrow> i < length entries"
proof (induction entries arbitrary: b i b1)
  case (Cons entry entries)
  then show ?case by (cases entry) (auto simp: andPay_def done_with_def takeUnits_def panic_def split: option.splits if_splits)
qed (simp add: cut_def)

lemma answers_ruleIndex: "\<forall>entry \<in> set entries. \<exists>rule. entry = JObject rule \<Longrightarrow> answers (ruleIndex entries k)"
  by (induction entries) (auto intro!: answers)

lemma boundedExclusiveRewrite_total:
  assumes "overlapReady m"
  shows "answers (boundedExclusiveRewrite scan m candidate limits)"
proof -
  from assms obtain entries where e: "jget m ''rules'' = JArray entries"
    "\<forall>entry \<in> set entries. \<exists>rule. entry = JObject rule"
    unfolding overlapReady_def by metis
  have "answers (andPay (ruleIndex entries (owRuleID candidate)) (\<lambda>i.
            case entries ! i of
              JObject rule \<Rightarrow>
                andPay (takeUnits (length m + length entries + length rule + 1)) (\<lambda>_ b.
                  let pack = rewrittenPack m entries i rule candidate;
                      (ok, s) = shapeValue 0 (JObject pack) (newShape limits b 0);
                      encoded = marshal (JObject pack)
                  in Some (if ok \<and> length encoded \<le> HardMaxBytes \<and> admitsText scan limits encoded
                           then Some candidate else None, shBudget s))
            | _ \<Rightarrow> panic))"
  proof (rule answers_andPay)
    fix i b b1 assume "ruleIndex entries (owRuleID candidate) b = Some (Some i, b1)"
    then have "i < length entries" by (rule ruleIndex_bound)
    then obtain rule where rule: "entries ! i = JObject rule" using e(2) nth_mem by blast
    show "answers (case entries ! i of
              JObject rule \<Rightarrow>
                andPay (takeUnits (length m + length entries + length rule + 1)) (\<lambda>_ b.
                  let pack = rewrittenPack m entries i rule candidate;
                      (ok, s) = shapeValue 0 (JObject pack) (newShape limits b 0);
                      encoded = marshal (JObject pack)
                  in Some (if ok \<and> length encoded \<le> HardMaxBytes \<and> admitsText scan limits encoded
                           then Some candidate else None, shBudget s))
            | _ \<Rightarrow> panic)"
      unfolding rule json.case by (intro answers) (auto simp: answers_def Let_def split: prod.split)
  qed (rule answers_ruleIndex[OF e(2)])
  then show ?thesis using e(1) by (simp add: boundedExclusiveRewrite_def)
qed

end
