(* ===== verification/Overlap_Promises.thy ===== *)
theory Overlap_Promises
  imports Overlap_Laws Overlap_Total Resolution_Laws
begin

section \<open>Properties of the overlap advice\<close>

text \<open>
  What the advice means for the resolution walk and for the author: no advice, no conflict between
  rules; a witness document on which both rules apply; a rewrite that keeps every verdict of the pair
  but the common one.
\<close>

subsection \<open>Rewrites\<close>

lemma negTri_truth: "negTri (triFromBool x) = triFromBool (\<not> x)"
  by (simp add: triFromBool_def)

lemma complement_fact:
  assumes "ascendingFact c" "overlapNumber (jget c ''value'') \<noteq> None"
  shows "fst (factResult [(''op'', JString ''fact''), (''path'', jget c ''path''),
      (''operator'', JString (if jget c ''operator'' = JString ''greater-than'' then ''less-than-or-equal'' else ''less-than'')),
      (''value'', jget c ''value'')] doc) = negTri (fst (factResult c doc))"
  using assms
  by (auto simp: ascendingFact_def factResult_def jget_def OrderedOperator_def orderedVerdict_def unsupported_def
      decimalCompare_def negTri_truth not_less not_le split: option.splits json.splits)

lemma meaning_allOf:
  "meaning q ev (JObject (allOf c d)) doc = kleeneAll [meaning q ev c doc, meaning q ev d doc]"
  by (simp add: allOf_def jget_def)

lemma meaning_not: "meaning q ev (JObject [(''op'', JString ''not''), (''condition'', c)]) doc = negTri (meaning q ev c doc)"
  by (simp add: jget_def)

lemma rewrite_exact:
  assumes "exclusiveRewrite a b = Some r"
  obtains low high where "{low, high} = {a, b}" "owRuleID r = stringOrEmpty (jget low ''id'')"
    "\<And>q ev doc. meaning q ev (JObject (owWhen r)) doc =
       kleeneAll [meaning q ev (jget low ''when'') doc, negTri (meaning q ev (jget high ''when'') doc)]"
proof -
  from assms obtain ac bc bands where c: "jget a ''when'' = JObject ac" "jget b ''when'' = JObject bc"
    "ascendingPair ac bc = Some bands"
    by (auto simp: exclusiveRewrite_def bind_eq_Some_conv split: option.splits)
  show thesis
  proof (cases bands)
    case False
    with assms c have r: "r = \<lparr>owRuleID = stringOrEmpty (jget a ''id''),
        owWhen = allOf (jget a ''when'') (JObject [(''op'', JString ''not''), (''condition'', jget b ''when'')])\<rparr>"
      by (simp add: exclusiveRewrite_def)
    show thesis by (rule that[of a b]) (simp_all only: r OverlapRewrite.simps meaning_allOf meaning_not refl)
  next
    case True
    then have asc: "ascendingFact ac" "ascendingFact bc" using c(3) by (auto simp: ascendingPair_def split: if_splits)
    from True assms c obtain k where k: "compareOperands ac bc = Some k"
      and r: "r = (let (low, lc, hc) = (if k > 0 then (b, bc, ac) else (a, ac, bc));
                    operator = (if jget hc ''operator'' = JString ''greater-than'' then ''less-than-or-equal'' else ''less-than'')
                in \<lparr>owRuleID = stringOrEmpty (jget low ''id''),
                    owWhen = allOf (JObject lc)
                      (JObject [(''op'', JString ''fact''), (''path'', jget hc ''path''), (''operator'', JString operator),
                                (''value'', jget hc ''value'')])\<rparr>)"
      by (auto simp: exclusiveRewrite_def)
    from k have num: "overlapNumber (jget ac ''value'') \<noteq> None" "overlapNumber (jget bc ''value'') \<noteq> None"
      by (auto simp: compareOperands_def split: option.splits)
    have m: "meaning q ev (JObject h) doc = fst (factResult h doc)" if "jget h ''op'' = JString ''fact''" for q ev h doc
      using that by simp
    have op: "jget ac ''op'' = JString ''fact''" "jget bc ''op'' = JString ''fact''" using asc by (simp_all add: ascendingFact_def)
    have f: "jget ((''op'', JString ''fact'') # more) ''op'' = JString ''fact''" for more by (simp add: jget_def)
    show thesis
    proof (cases "k > 0")
      case True
      show thesis
        by (rule that[of b a])
          (use True in \<open>auto simp: r meaning_allOf c m[OF f] m[OF op(1)] complement_fact[OF asc(1) num(1)]
            simp del: meaning.simps kleeneAll_simps\<close>)
    next
      case False
      show thesis
        by (rule that[of a b])
          (use False in \<open>auto simp: r meaning_allOf c m[OF f] m[OF op(2)] complement_fact[OF asc(2) num(2)]
            simp del: meaning.simps kleeneAll_simps\<close>)
    qed
  qed
qed

subsection \<open>Witness documents\<close>

fun nestDoc :: "string list \<Rightarrow> json \<Rightarrow> json" where
  "nestDoc [] v = v"
| "nestDoc (t # ts) v = JObject [(t, nestDoc ts v)]"

lemma marshal_nestDoc: "marshal (nestDoc ts v) = pointerText ts (marshal v)"
proof (induction ts)
  case (Cons t ts)
  then show ?case by (simp add: pointerText_def goMember_def bracketed_def replicate_append_same)
qed (simp add: pointerText_def)

lemma resolve_nestDoc: "resolveTokens ts (nestDoc ts v) = Some v"
  by (induction ts) simp_all

lemma sourceTokens_compiled: "rooted (compilePointer p) \<Longrightarrow> tokens (compilePointer p) = sourceTokens p"
proof -
  have "Pointer.unescapeToken = Overlap_Advice.unescapeToken"
    by (rule ext) (simp add: Pointer.unescapeToken_def Overlap_Advice.unescapeToken_def)
  then show "rooted (compilePointer p) \<Longrightarrow> tokens (compilePointer p) = sourceTokens p"
    by (auto simp: compilePointer_def sourceTokens_def Let_def split: if_splits)
qed

lemma resolvePointer_nestDoc: "rooted (compilePointer p) \<Longrightarrow> resolvePointer (nestDoc (sourceTokens p) v) p = Some v"
  by (simp add: resolvePointer_def resolveCompiled_def sourceTokens_compiled resolve_nestDoc)

lemma boundedOverlapFacts_text:
  assumes "boundedOverlapFacts scan p v limits b = Some (Some t, b')"
  shows "t = marshal (nestDoc (sourceTokens p) v) \<and> admitsText scan limits t"
  using assms unfolding boundedOverlapFacts_def
  by (auto simp: andPay_def takeUnits_def cut_def Let_def marshal_nestDoc split: if_splits option.splits prod.splits)

subsection \<open>Where a diagnostic comes from\<close>

lemma laterPairs_places: "(x, y) \<in> set (laterPairs xs) \<Longrightarrow> \<exists>i j. i < j \<and> j < length xs \<and> x = xs ! i \<and> y = xs ! j"
proof (induction xs)
  case (Cons z zs)
  then consider "x = z" "y \<in> set zs" | "(x, y) \<in> set (laterPairs zs)" by auto
  then show ?case
  proof cases
    case 1
    then obtain j where "j < length zs" "y = zs ! j" by (auto simp: in_set_conv_nth)
    with 1 show ?thesis by (intro exI[of _ 0] exI[of _ "Suc j"]) simp
  next
    case 2
    with Cons.IH obtain i j where "i < j" "j < length zs" "x = zs ! i" "y = zs ! j" by blast
    then show ?thesis by (intro exI[of _ "Suc i"] exI[of _ "Suc j"]) simp
  qed
qed simp

lemma addDiagnostic_items_cases:
  "addDiagnostic e c = (ok, c') \<Longrightarrow>
     dcItems c' = dcItems c \<or> dcItems c' = dcItems c @ [e] \<and> length (dcItems c) < MaxDiagnostics"
  by (auto simp: addDiagnostic_def split: if_splits)

lemma pairStep_origin:
  assumes "pairStep bytes iter scan m limits l r s = Some (ok, s')" "d \<in> set (dcItems (asCollector s'))"
  shows "d \<in> set (dcItems (asCollector s)) \<or> said iter scan m limits l r d"
  using assms(1)
proof (cases rule: pairStep_cases)
  case (3 e)
  then show ?thesis using assms(2) addDiagnostic_items_cases[OF 3(2)] by auto
qed (use assms(2) in auto)

lemma pairSteps_origin:
  "pairSteps bytes iter scan m limits prs s = Some (ok, s') \<Longrightarrow> d \<in> set (dcItems (asCollector s')) \<Longrightarrow>
     d \<in> set (dcItems (asCollector s)) \<or> (\<exists>(l, r) \<in> set prs. said iter scan m limits l r d)"
proof (induction prs arbitrary: s)
  case (Cons pr prs)
  obtain l r where pr: "pr = (l, r)" by (cases pr)
  from Cons.prems(1)[unfolded pr] show ?case
  proof (cases rule: pairSteps_Cons)
    case (1 ok1 s1)
    then have "d \<in> set (dcItems (asCollector s1)) \<or> (\<exists>(l, r) \<in> set prs. said iter scan m limits l r d)"
      using Cons.IH[of s1] Cons.prems(2) by (auto split: if_splits)
    with pairStep_origin[OF 1(1)] pr show ?thesis by auto
  qed
qed simp

lemma advice_origin:
  assumes "ruleOverlapDiagnostics bytes iter scan m limits = Some (ds, t)" "d \<in> set ds" "rules = objectList (jget m ''rules'')"
  obtains i j ca cb fa fb b1 b2 b3 b4 where "i < j" "j < length rules"
    "jget (rules ! i) ''when'' = JObject ca" "jget (rules ! j) ''when'' = JObject cb"
    "overlapDNF ca True b1 = Some (fa, b2)" "overlapDNF cb True b3 = Some (fb, b4)"
    "said iter scan m limits (i, rules ! i, fa) (j, rules ! j, fb) d"
proof -
  from assms obtain fs b ok s' where fs: "ruleFormulas rules overlapWorkLimit = Some (fs, b)"
    and st: "pairSteps bytes iter scan m limits (laterPairs (indexed fs))
        \<lparr>asCollector = newDiagnosticCollector, asOutput = overlapOutputLimit, asBudget = b\<rparr> = Some (ok, s')"
      "ds = sortedDiagnostics (dcItems (asCollector s'))"
    by (auto simp: ruleOverlapDiagnostics_def Let_def bind_eq_Some_conv split: if_splits)
  have "d \<in> set (dcItems (asCollector s'))" using assms(2) st(2) by (simp add: sortedDiagnostics_def)
  from pairSteps_origin[OF st(1) this] obtain l r where lr: "(l, r) \<in> set (laterPairs (indexed fs))" "said iter scan m limits l r d"
    by (auto simp: newDiagnosticCollector_def)
  from laterPairs_places[OF lr(1)] obtain i j where ij: "i < j" "j < length fs" "l = (i, fs ! i)" "r = (j, fs ! j)"
    by (auto simp: indexed_def)
  from ruleFormulas_exact[OF fs] have f: "map fst fs = rules"
    "\<And>k. k < length fs \<Longrightarrow> \<exists>c b1 b2. jget (fst (fs ! k)) ''when'' = JObject c \<and> overlapDNF c True b1 = Some (snd (fs ! k), b2)"
    by (auto dest!: nth_mem simp: case_prod_unfold)
  have place: "\<exists>f c b1 b2. fs ! k = (rules ! k, f) \<and> jget (rules ! k) ''when'' = JObject c \<and> overlapDNF c True b1 = Some (f, b2)"
    if "k < length fs" for k
  proof -
    have "fst (fs ! k) = rules ! k" using nth_map[OF that, of fst] f(1) by simp
    then have "fs ! k = (rules ! k, snd (fs ! k))" by (simp add: prod_eq_iff)
    with f(2)[OF that] \<open>fst (fs ! k) = rules ! k\<close> show ?thesis by metis
  qed
  have "i < length fs" using ij(1,2) by simp
  from place[OF this] obtain fa ca b1 b2 where a: "fs ! i = (rules ! i, fa)" "jget (rules ! i) ''when'' = JObject ca"
    "overlapDNF ca True b1 = Some (fa, b2)" by blast
  from place[OF ij(2)] obtain fb cb b3 b4 where b: "fs ! j = (rules ! j, fb)" "jget (rules ! j) ''when'' = JObject cb"
    "overlapDNF cb True b3 = Some (fb, b4)" by blast
  have "said iter scan m limits (i, rules ! i, fa) (j, rules ! j, fb) d"
    using lr(2) unfolding ij(3,4) a(1) b(1) .
  moreover have "length fs = length rules" using f(1) by (metis length_map)
  ultimately show thesis using that[of i j] ij(1,2) a(2,3) b(2,3) by simp
qed

text \<open>What a diagnostic carries.\<close>

lemma pairAdvice_carries:
  assumes "pairAdvice scan m limits i a b v b0 = Some (d, b1)"
  obtains advice where "dgOverlapAdvice d = Some advice"
    "oaRules advice = [\<lparr>ovID = stringOrEmpty (jget a ''id''), ovOutcome = stringOrEmpty (jget a ''outcome'')\<rparr>,
                       \<lparr>ovID = stringOrEmpty (jget b ''id''), ovOutcome = stringOrEmpty (jget b ''outcome'')\<rparr>]"
    "oaWitnessFacts advice \<noteq> [] \<Longrightarrow> pvExact v \<and>
       (\<exists>b2 b3. boundedOverlapFacts scan (pvPath v) (pvWitness v) limits b2 = Some (Some (oaWitnessFacts advice), b3))"
    "\<And>r. oaSuggestedRewrite advice = Some r \<Longrightarrow> exclusiveRewrite a b = Some r"
    "dgSeverity d = ''warning''"
proof -
  from assms obtain region facts b2 candidate rewrite b3 where
    e: "exactAdvice scan limits a b v b0 = Some ((region, facts), b2)"
    and c: "exclusiveRewrite a b = Some candidate"
    and r: "boundedExclusiveRewrite scan m candidate limits b2 = Some (rewrite, b3)"
    and d: "dgSeverity d = ''warning''" "\<exists>certainty unavailable. dgOverlapAdvice d = Some
                    \<lparr>oaCertainty = certainty,
                     oaRules = [\<lparr>ovID = stringOrEmpty (jget a ''id''), ovOutcome = stringOrEmpty (jget a ''outcome'')\<rparr>,
                                \<lparr>ovID = stringOrEmpty (jget b ''id''), ovOutcome = stringOrEmpty (jget b ''outcome'')\<rparr>],
                     oaOverlap = region, oaWitnessFacts = facts, oaEffect = overlapEffect,
                     oaSuggestedRewrite = rewrite, oaRewriteUnavailable = unavailable\<rparr>"
    by (auto simp: pairAdvice_def bind_eq_Some_conv Let_def)
  have f: "pvExact v \<and> (\<exists>b2 b3. boundedOverlapFacts scan (pvPath v) (pvWitness v) limits b2 = Some (Some facts, b3))"
    if "facts \<noteq> []"
    using e that by (auto simp: exactAdvice_def bind_eq_Some_conv split: if_splits option.splits)
  have w: "rewrite = Some x \<Longrightarrow> x = candidate" for x
    using r unfolding boundedExclusiveRewrite_def
    by (auto simp: andPay_def takeUnits_def panic_def Let_def split: json.splits option.splits prod.splits if_splits)
  from d(2) obtain advice where "dgOverlapAdvice d = Some advice" "oaWitnessFacts advice = facts"
    "oaSuggestedRewrite advice = rewrite"
    "oaRules advice = [\<lparr>ovID = stringOrEmpty (jget a ''id''), ovOutcome = stringOrEmpty (jget a ''outcome'')\<rparr>,
                       \<lparr>ovID = stringOrEmpty (jget b ''id''), ovOutcome = stringOrEmpty (jget b ''outcome'')\<rparr>]"
    by auto
  with f w c d(1) that show thesis by auto
qed

subsection \<open>Answers and bounds\<close>

lemma pairAdvice_total:
  assumes "overlapReady m" "structured (jget a ''when'')" "structured (jget b ''when'')"
    and "everyLeaf thresholdRead (jget a ''when'')" "everyLeaf thresholdRead (jget b ''when'')"
  obtains d b1 where "pairAdvice scan m limits i a b v b0 = Some (d, b1)"
proof -
  have "exactAdvice scan limits a b v b0 \<noteq> None"
  proof -
    obtain f b2 where "boundedOverlapFacts scan (pvPath v) (pvWitness v) limits b0 = Some (f, b2)"
      by (rule answers_Some[OF answers_boundedOverlapFacts])
    with simpleOverlap_total[OF assms(2-5)] show ?thesis by (auto simp: exactAdvice_def)
  qed
  then obtain region facts b2 where e: "exactAdvice scan limits a b v b0 = Some ((region, facts), b2)" by fast
  obtain candidate where c: "exclusiveRewrite a b = Some candidate" by (rule exclusiveRewrite_total[OF assms(2-5)])
  obtain rewrite b3 where "boundedExclusiveRewrite scan m candidate limits b2 = Some (rewrite, b3)"
    by (rule answers_Some[OF boundedExclusiveRewrite_total[OF assms(1)]])
  with e c that show thesis by (auto simp: pairAdvice_def Let_def)
qed

definition readyRule :: "nat \<times> object \<times> overlapFormula \<Rightarrow> bool" where
  "readyRule l \<longleftrightarrow>
     (\<exists>p. jget (fst (snd l)) ''outcome'' = JString p) \<and> structured (jget (fst (snd l)) ''when'') \<and>
     everyLeaf thresholdRead (jget (fst (snd l)) ''when'') \<and>
     (\<forall>cs. snd (snd l) = Some cs \<longrightarrow> (\<forall>t \<in> termsOf cs. readyTerm t))"

lemma pairStep_total:
  assumes "overlapReady m" "readyRule l" "readyRule r"
  obtains ok s' where "pairStep bytes iter scan m limits l r s = Some (ok, s')"
proof -
  obtain i a fa j b fb where lr: "l = (i, a, fa)" "r = (j, b, fb)" by (metis prod_cases3)
  from assms lr obtain p q where o: "jget a ''outcome'' = JString p" "jget b ''outcome'' = JString q"
    and s: "structured (jget a ''when'')" "structured (jget b ''when'')"
      "everyLeaf thresholdRead (jget a ''when'')" "everyLeaf thresholdRead (jget b ''when'')"
    and t: "\<And>cs. fa = Some cs \<Longrightarrow> \<forall>t \<in> termsOf cs. readyTerm t" "\<And>cs. fb = Some cs \<Longrightarrow> \<forall>t \<in> termsOf cs. readyTerm t"
    by (auto simp: readyRule_def)
  obtain v b1 where v: "overlapPair iter fa fb (asBudget s) = Some (v, b1)" by (rule overlapPair_total[OF t])
  obtain d b2 where d: "pairAdvice scan m limits i a b v b1 = Some (d, b2)" by (rule pairAdvice_total[OF assms(1) s])
  have "pairStep bytes iter scan m limits l r s \<noteq> None"
    by (auto simp: pairStep_def lr o v d Let_def simp del: not_None_eq split: prod.splits)
  then show thesis using that by fast
qed

lemma pairSteps_total:
  "overlapReady m \<Longrightarrow> \<forall>(l, r) \<in> set prs. readyRule l \<and> readyRule r \<Longrightarrow>
     \<exists>ok s'. pairSteps bytes iter scan m limits prs s = Some (ok, s')"
proof (induction prs arbitrary: s)
  case (Cons pr prs)
  obtain l r where pr: "pr = (l, r)" by (cases pr)
  with Cons.prems(2) have "readyRule l" "readyRule r" by auto
  then obtain ok s1 where "pairStep bytes iter scan m limits l r s = Some (ok, s1)" by (rule pairStep_total[OF Cons.prems(1)])
  with Cons pr show ?case by (cases ok) auto
qed auto

lemma ruleFormulas_total: "\<forall>rule \<in> set rules. structured (jget rule ''when'') \<Longrightarrow> \<exists>fs b'. ruleFormulas rules b = Some (fs, b')"
proof (induction rules arbitrary: b)
  case (Cons rule rest)
  then obtain c where c: "jget rule ''when'' = JObject c" "structured (JObject c)" using structured_object by fastforce
  then have "overlapDNF c True b \<noteq> None" by (intro overlapDNF_total(1))
  then obtain f b1 where f: "overlapDNF c True b = Some (f, b1)" by fast
  from Cons.IH[of b1] Cons.prems obtain fs b2 where "ruleFormulas rest b1 = Some (fs, b2)" by auto
  with c f show ?case by simp
qed simp

lemma ready_rules:
  assumes "overlapReady m" "rule \<in> set (objectList (jget m ''rules''))"
  shows "(\<exists>p. jget rule ''outcome'' = JString p) \<and> structured (jget rule ''when'')"
  using assms by (fastforce simp: overlapReady_def objectList_def map_filter_def)

lemma overlap_total:
  assumes "overlapReady m" "thresholdsRead m"
  obtains ds t where "ruleOverlapDiagnostics bytes iter scan m limits = Some (ds, t)"
proof -
  let ?rules = "objectList (jget m ''rules'')"
  obtain fs b where fs: "ruleFormulas ?rules overlapWorkLimit = Some (fs, b)"
    using ruleFormulas_total[of ?rules] ready_rules[OF assms(1)] by blast
  note f = ruleFormulas_exact[OF fs]
  have "readyRule (k, fs ! k)" if "k < length fs" for k
  proof -
    obtain rule form where rf: "fs ! k = (rule, form)" by (cases "fs ! k")
    have mem: "(rule, form) \<in> set fs" using nth_mem[OF that] rf by simp
    then have "rule \<in> set (map fst fs)" by force
    then have "rule \<in> set ?rules" unfolding f[THEN conjunct1] .
    note r = ready_rules[OF assms(1) this]
    have read: "everyLeaf thresholdRead (jget rule ''when'')" using assms(2) \<open>rule \<in> set ?rules\<close> by (simp add: thresholdsRead_def)
    from f[THEN conjunct2] mem obtain c b1 b2 where c: "jget rule ''when'' = JObject c" "overlapDNF c True b1 = Some (form, b2)"
      by fast
    have "\<forall>t \<in> termsOf cs. readyTerm t" if "form = Some cs" for cs
      using overlapDNF_terms(1)[of c True b1 cs b2 factForm] c that structured_everyLeaf[of "JObject c"] r
      by (auto simp: readyTerm_def)
    with r rf read show ?thesis by (simp add: readyRule_def)
  qed
  then have places: "readyRule (indexed fs ! k)" if "k < length fs" for k using that by (simp add: indexed_def)
  have "readyRule l \<and> readyRule r" if "(l, r) \<in> set (laterPairs (indexed fs))" for l r
  proof -
    from laterPairs_places[OF that] obtain i j where "i < j" "j < length fs" "l = indexed fs ! i" "r = indexed fs ! j"
      by (auto simp: indexed_def)
    with places show ?thesis by simp
  qed
  then have "\<forall>(l, r) \<in> set (laterPairs (indexed fs)). readyRule l \<and> readyRule r" by blast
  from pairSteps_total[OF assms(1) this] obtain ok s' where "pairSteps bytes iter scan m limits (laterPairs (indexed fs))
      \<lparr>asCollector = newDiagnosticCollector, asOutput = overlapOutputLimit, asBudget = b\<rparr> = Some (ok, s')" by blast
  with fs have "ruleOverlapDiagnostics bytes iter scan m limits \<noteq> None"
    by (auto simp: ruleOverlapDiagnostics_def Let_def)
  then show thesis using that by fast
qed

definition boundedOutput :: "(Diagnostic \<Rightarrow> nat) \<Rightarrow> adviceState \<Rightarrow> bool" where
  "boundedOutput bytes s \<longleftrightarrow>
     length (dcItems (asCollector s)) \<le> MaxDiagnostics \<and>
     int (sum_list (map bytes (dcItems (asCollector s)))) \<le> overlapOutputLimit - max 0 (asOutput s)"

lemma pairStep_bounded:
  assumes "pairStep bytes iter scan m limits l r s = Some (ok, s')" "boundedOutput bytes s"
  shows "length (dcItems (asCollector s')) \<le> MaxDiagnostics \<and>
    int (sum_list (map bytes (dcItems (asCollector s')))) \<le> overlapOutputLimit \<and> (ok \<longrightarrow> boundedOutput bytes s')"
  using assms(1)
proof (cases rule: pairStep_cases)
  case (3 d)
  then show ?thesis using assms(2) addDiagnostic_items_cases[OF 3(2)] by (auto simp: boundedOutput_def)
qed (use assms(2) in \<open>auto simp: boundedOutput_def\<close>)

lemma pairSteps_bounded:
  "pairSteps bytes iter scan m limits prs s = Some (ok, s') \<Longrightarrow> boundedOutput bytes s \<Longrightarrow>
     length (dcItems (asCollector s')) \<le> MaxDiagnostics \<and>
     int (sum_list (map bytes (dcItems (asCollector s')))) \<le> overlapOutputLimit"
proof (induction prs arbitrary: s)
  case (Cons pr prs)
  obtain l r where pr: "pr = (l, r)" by (cases pr)
  from Cons.prems(1)[unfolded pr] show ?case
  proof (cases rule: pairSteps_Cons)
    case (1 ok1 s1)
    with pairStep_bounded[OF 1(1) Cons.prems(2)] Cons.IH[of s1] show ?thesis by (auto split: if_splits)
  qed
qed (auto simp: boundedOutput_def)

lemma sum_sortedDiagnostics:
  fixes bytes :: "Diagnostic \<Rightarrow> nat"
  shows "sum_list (map bytes (sortedDiagnostics ds)) = sum_list (map bytes ds)"
proof -
  have "mset (map bytes (sortedDiagnostics ds)) = mset (map bytes ds)" by (simp add: sortedDiagnostics_def)
  then show ?thesis by (metis sum_mset_sum_list)
qed

lemma overlap_bounded:
  assumes "ruleOverlapDiagnostics bytes iter scan m limits = Some (ds, t)"
  shows "length ds \<le> MaxDiagnostics \<and> int (sum_list (map bytes ds)) \<le> overlapOutputLimit"
proof -
  have start: "boundedOutput bytes \<lparr>asCollector = newDiagnosticCollector, asOutput = overlapOutputLimit, asBudget = b\<rparr>" for b
    by (simp add: boundedOutput_def newDiagnosticCollector_def overlapOutputLimit_def)
  have "0 \<le> overlapOutputLimit" by (simp add: overlapOutputLimit_def)
  moreover have "length (sortedDiagnostics xs) = length xs" for xs by (simp add: sortedDiagnostics_def)
  ultimately show ?thesis
    using assms
    by (auto simp: ruleOverlapDiagnostics_def Let_def bind_eq_Some_conv sum_sortedDiagnostics split: if_splits
        dest!: pairSteps_bounded[OF _ start])
qed

subsection \<open>Conflicts\<close>

lemma candidates_unique:
  assumes iter: "\<And>xs. mset (iter xs) = mset (xs :: string list)"
    and silent: "ruleOverlapDiagnostics bytes iter scan m limits = Some ([], False)"
    and adm: "admittedJson (JObject m)" "admittedJson facts"
  shows "conflictOf (candidatesOf (verdictOf False ev facts) (activeRules S (membersOf m ''rules''))) = {}"
proof -
  define rules where "rules = objectList (jget m ''rules'')"
  have "p = q" if pq: "p \<in> candidatesOf (verdictOf False ev facts) (activeRules S rules)"
    "q \<in> candidatesOf (verdictOf False ev facts) (activeRules S rules)" for p q
  proof (rule ccontr)
    assume ne: "p \<noteq> q"
    from pq(1) obtain a where a: "a \<in> set rules" "meaning False ev (jget a ''when'') facts = triTrue" "jget a ''outcome'' = JString p"
      by (auto simp: candidatesOf_def activeRules_def verdictOf_def whenOf_def set_stringAt split: if_splits)
    from pq(2) obtain b where b: "b \<in> set rules" "meaning False ev (jget b ''when'') facts = triTrue" "jget b ''outcome'' = JString q"
      by (auto simp: candidatesOf_def activeRules_def verdictOf_def whenOf_def set_stringAt split: if_splits)
    from a b obtain i j where ij: "i < length rules" "j < length rules" "a = rules ! i" "b = rules ! j" by (auto simp: in_set_conv_nth)
    with a(3) b(3) ne have "i \<noteq> j" by auto
    then consider "i < j" | "j < i" by linarith
    then show False
    proof cases
      case 1
      from silent_excludes[OF iter silent adm 1 ij(2) rules_def, of p q ev] a b ij ne show False by simp
    next
      case 2
      from silent_excludes[OF iter silent adm 2 ij(1) rules_def, of q p ev] a b ij ne show False by simp
    qed
  qed
  then have "conflictOf (candidatesOf (verdictOf False ev facts) (activeRules S rules)) = {}" by (auto simp: conflictOf_def)
  then show ?thesis by (simp add: rules_def membersOf_def objects_def objectList_def)
qed

lemma section8_conflict:
  assumes "section8 ev V m = Unresolved R" "ReasonConflict \<in> R"
    and "\<And>S. conflictOf (candidatesOf V (activeRules S (membersOf m ''rules''))) = {}"
  shows "conflictOf (forcedBy V (membersOf m ''exceptions'')) \<noteq> {}"
proof -
  have "ReasonConflict \<notin> evidenceReasons ev xs" "ReasonConflict \<notin> exceptionReasons V ys" "ReasonConflict \<notin> ruleReasons V zs" for xs ys zs
    by (simp_all add: evidenceReasons_def exceptionReasons_def ruleReasons_def ReasonConflict_def ReasonUnknown_def
        ReasonMissingEvidence_def ReasonExceptionEscalation_def)
  moreover have "ReasonConflict \<noteq> ReasonUnknown" "ReasonConflict \<noteq> ReasonNoMatch"
    by (simp_all add: ReasonConflict_def ReasonUnknown_def ReasonNoMatch_def)
  ultimately show ?thesis using assms
    by (auto simp: section8_def decideRules_def Let_def split: tri.splits if_splits json.splits)
qed

end
