(* ===== verification/Overlap_Properties.thy ===== *)
theory Overlap_Properties
  imports Overlap_Promises
begin

section \<open>Properties of the overlap advice\<close>

text \<open>
  What the advice promises, over whole packs, each with a pack it applies to.
\<close>

subsection \<open>Sample packs\<close>

definition textNode :: "string \<Rightarrow> object" where
  "textNode operator = [(''op'', JString ''fact''), (''path'', JString ''/n''),
         (''operator'', JString operator), (''value'', JString ''a'')]"

definition textRule :: "string \<Rightarrow> string \<Rightarrow> string \<Rightarrow> object" where
  "textRule ident operator p =
     [(''id'', JString ident), (''outcome'', JString p), (''when'', JObject (textNode operator))]"

definition forcingException :: "string \<Rightarrow> json" where
  "forcingException p = JObject
     [(''effect'', JString ''force-outcome''), (''outcome'', JString p),
      (''when'', JObject [(''op'', JString ''literal''), (''value'', JBool True)])]"

text \<open>Two rules that exclude each other, with two exceptions that force two outcomes.\<close>

definition disjointPack :: object where
  "disjointPack =
     [(''rules'', JArray [JObject (textRule ''r1'' ''equals'' ''approve''), JObject (textRule ''r2'' ''not-equals'' ''review'')]),
      (''exceptions'', JArray [forcingException ''approve'', forcingException ''review''])]"

text \<open>Two rules that apply to the same facts.\<close>

definition sharedPack :: object where
  "sharedPack =
     [(''rules'', JArray [JObject (textRule ''r1'' ''equals'' ''approve''), JObject (textRule ''r2'' ''equals'' ''review'')])]"

lemma disjointPack_rules: "objectList (jget disjointPack ''rules'') = [textRule ''r1'' ''equals'' ''approve'', textRule ''r2'' ''not-equals'' ''review'']"
  by (simp add: disjointPack_def objectList_def jget_def map_filter_def)

lemma sharedPack_rules: "objectList (jget sharedPack ''rules'') = [textRule ''r1'' ''equals'' ''approve'', textRule ''r2'' ''equals'' ''review'']"
  by (simp add: sharedPack_def objectList_def jget_def map_filter_def)

subsection \<open>Evaluating the check on a sample\<close>

lemma goQuote_empty: "goQuote [] = [quoteMark, quoteMark]"
  by (simp add: goQuote_def)

lemma goQuote_plain:
  "32 \<le> byteOf c \<Longrightarrow> byteOf c < 128 \<Longrightarrow> byteOf c \<notin> {34, 38, 60, 62, 92} \<Longrightarrow> goQuote (c # s) = quoteMark # c # tl (goQuote s)"
  using ascii_encode[of c] by (auto simp: goQuote_def goUnits_ascii_Cons escapedGo_def encodeRune_def badByte_def)

lemma sampleKeys: "overlapKey (JString ''a'') = ''v:\"a\"''" "overlapKey (JString ''#overlap'') = ''v:\"#overlap\"''"
  by (simp_all add: goQuote_empty goQuote_plain quoteMark_def)

lemma sampleTexts: "marshal (JString ''a'') = ''\"a\"''" "marshal (JString ''#overlap'') = ''\"#overlap\"''"
  by (simp_all add: goQuote_empty goQuote_plain quoteMark_def)

lemma sampleDecimal: "decimalValue (JString ''a'') = None"
  by code_simp

lemmas charge_defs = andPay_def takeUnits_def done_with_def

lemma textNode_dnf:
  "1 \<le> b \<Longrightarrow> overlapDNF (textNode op) True b = Some (Some [[\<lparr>otNode = textNode op, otTruth = True\<rparr>]], b - 1)"
  by (simp add: overlapDNF.simps textNode_def jget_def charge_defs)

lemma sampleValues:
  "15 \<le> b \<Longrightarrow> overlapValues [\<lparr>otNode = textNode ''equals'', otTruth = True\<rparr>, \<lparr>otNode = textNode x, otTruth = True\<rparr>] b
     = Some (Some [JString ''a'', JString ''#overlap''], b - 10)" if "x \<noteq> ''in''"
  using that
  by (simp add: overlapValues_def textNode_def jget_def operandsOf_def charge_defs sampleTexts
      noValues_def addValue_def notePoint_def overlapNumber_def sampleDecimal sampleKeys Let_def
      del: overlapKey.simps marshal.simps decimalValue.simps)

lemma textTerm: "isFact \<lparr>otNode = textNode op, otTruth = True\<rparr>" "pathOf \<lparr>otNode = textNode op, otTruth = True\<rparr> = ''/n''"
  by (simp_all add: isFact_def pathOf_def textNode_def jget_def)

lemma textFact:
  "overlapFact (textNode ''equals'') v = Some (True, overlapKey v = overlapKey (JString ''a''))"
  "overlapFact (textNode ''not-equals'') v = Some (True, overlapKey v \<noteq> overlapKey (JString ''a''))"
  by (simp_all add: overlapFact_def textNode_def jget_def)

lemma textCost: "overlapJSONCost (jget (textNode op) ''value'') = 3" "overlapJSONCost (JString ''a'') = 3" "overlapJSONCost (JString ''#overlap'') = 10"
  by (simp_all add: overlapJSONCost_def textNode_def jget_def sampleTexts del: marshal.simps)

lemmas pair_defs = overlapPair_def comparePair_def textTerm charge_defs groupPaths_def uniqueList_def addUnique_def groupAt_def
  lastPath_def Let_def sampleValues textFact sampleKeys textCost

lemma disjoint_pair:
  "overlapPair (\<lambda>xs. xs) (Some [[\<lparr>otNode = textNode ''equals'', otTruth = True\<rparr>]])
     (Some [[\<lparr>otNode = textNode ''not-equals'', otTruth = True\<rparr>]]) 999998 = Some (excluded, 999955)"
  by (simp add: pair_defs del: overlapKey.simps)

lemma shared_pair:
  "overlapPair (\<lambda>xs. xs) (Some [[\<lparr>otNode = textNode ''equals'', otTruth = True\<rparr>]])
     (Some [[\<lparr>otNode = textNode ''equals'', otTruth = True\<rparr>]]) 999998 =
   Some (\<lparr>pvPossible = True, pvExact = True, pvWitness = JString ''a'', pvPath = ''/n''\<rparr>, 999969)"
  by (simp add: pair_defs del: overlapKey.simps)

lemma textRule_members:
  "jget (textRule i op p) ''outcome'' = JString p" "jget (textRule i op p) ''when'' = JObject (textNode op)"
  "jget (textRule i op p) ''id'' = JString i"
  by (simp_all add: textRule_def jget_def)

lemma disjoint_silent: "ruleOverlapDiagnostics bytes (\<lambda>xs. xs) scan disjointPack limits = Some ([], False)"
  unfolding ruleOverlapDiagnostics_def disjointPack_rules
  by (simp add: Let_def uniqueList_def addUnique_def textRule_members overlapWorkLimit_def textNode_dnf indexed_def pairStep_def
      disjoint_pair excluded_def sortedDiagnostics_def newDiagnosticCollector_def)

text \<open>The bytes of a written witness, as tokens; the check asks the decoder whether it takes them.\<close>

definition sampleScan :: "string \<Rightarrow> token list" where
  "sampleScan data = tokensOf (JObject [(''n'', JString ''a'')])"

lemma sampleDoc_decodes: "Decode ''{\"n\":\"a\"}'' (sampleScan s) DefaultLimits = Inr (JObject [(''n'', JString ''a'')])"
proof -
  have "UnpairedSurrogateEscape ''{\"n\":\"a\"}'' = None" by code_simp
  moreover have "validUtf8 ''{\"n\":\"a\"}''" by (simp add: validUtf8.simps[of "[]"] validUtf8_ascii_Cons)
  moreover have "jsonWf (JObject [(''n'', JString ''a'')])" by simp
  moreover have "fits DefaultLimits 0 (JObject [(''n'', JString ''a'')])" by (simp add: DefaultLimits_def)
  moreover have "nodesOf (JObject [(''n'', JString ''a'')]) \<le> MaxNodes DefaultLimits" by (simp add: DefaultLimits_def)
  ultimately show ?thesis unfolding sampleScan_def Decode_accepts[THEN conjunct1] by simp
qed

lemma sampleFacts:
  "boundedOverlapFacts sampleScan ''/n'' (JString ''a'') DefaultLimits 999969 = Some (Some ''{\"n\":\"a\"}'', 999960)"
proof -
  have tokens: "sourceTokens ''/n'' = [''n'']" by code_simp
  have quoted: "goQuote ''n'' = ''\"n\"''" "goQuote ''a'' = ''\"a\"''" by (simp_all add: goQuote_empty goQuote_plain quoteMark_def)
  have spelled: "pointerText [''n''] (marshal (JString ''a'')) = ''{\"n\":\"a\"}''" by (simp add: pointerText_def quoted)
  have admits: "admitsText sampleScan DefaultLimits ''{\"n\":\"a\"}''" by (simp add: admitsText_def sampleDoc_decodes)
  have limits: "MaxDepth DefaultLimits = 128" "MaxNodes DefaultLimits = 250000" "MaxStringBytes DefaultLimits = 1048576"
    by (simp_all add: DefaultLimits_def)
  show ?thesis
    by (simp add: boundedOverlapFacts_def charge_defs tokens spelled admits limits Let_def
        alsoShape_def shapeString_def shapeTake_def shapeSize_def newShape_def spelledBytes_def HardMaxBytes_def
        shapeValue.simps shapeNode_def del: marshal.simps)
qed

lemma textNode_structured: "op \<in> {''equals'', ''not-equals''} \<Longrightarrow> structured (JObject (textNode op))"
  by (auto simp: structured.simps(1) textNode_def jget_def factForm_def OrderedOperator_def compilePointer_def Let_def)

lemma samples_ready: "overlapReady sharedPack" "overlapReady disjointPack"
  using textNode_structured
  by (auto simp: overlapReady_def sharedPack_def disjointPack_def jget_def textRule_def)

lemma textNode_read: "op \<in> {''equals'', ''not-equals''} \<Longrightarrow> everyLeaf thresholdRead (JObject (textNode op))"
  by (auto simp: everyLeaf.simps(1) textNode_def jget_def thresholdRead_def OrderedOperator_def Let_def)

lemma samples_admitted: "admittedJson (JObject sharedPack)" "admittedJson (JObject disjointPack)"
  by (simp_all add: sharedPack_def disjointPack_def textRule_def textNode_def forcingException_def
      validUtf8.simps[of "[]"] validUtf8_ascii_Cons)

lemma shared_said:
  "\<exists>d t advice. ruleOverlapDiagnostics bytes (\<lambda>xs. xs) sampleScan sharedPack DefaultLimits = Some ([d], t) \<and>
     dgOverlapAdvice d = Some advice \<and> oaWitnessFacts advice = ''{\"n\":\"a\"}''"
  if "\<And>d. bytes d \<le> 100"
proof -
  let ?a = "textRule ''r1'' ''equals'' ''approve''" and ?b = "textRule ''r2'' ''equals'' ''review''"
  let ?v = "\<lparr>pvPossible = True, pvExact = True, pvWitness = JString ''a'', pvPath = ''/n''\<rparr>"
  have s: "structured (jget ?a ''when'')" "structured (jget ?b ''when'')"
    "everyLeaf thresholdRead (jget ?a ''when'')" "everyLeaf thresholdRead (jget ?b ''when'')"
    by (simp_all add: textRule_members textNode_structured textNode_read)
  obtain region where region: "simpleOverlap ?a ?b = Some region" using simpleOverlap_total[OF s] by fast
  obtain candidate where c: "exclusiveRewrite ?a ?b = Some candidate" by (rule exclusiveRewrite_total[OF s])
  obtain rewrite b3 where r: "boundedExclusiveRewrite sampleScan sharedPack candidate DefaultLimits 999960 = Some (rewrite, b3)"
    by (rule answers_Some[OF boundedExclusiveRewrite_total[OF samples_ready(1)]])
  obtain d advice where d: "pairAdvice sampleScan sharedPack DefaultLimits 0 ?a ?b ?v 999969 = Some (d, b3)"
    "dgOverlapAdvice d = Some advice" "oaWitnessFacts advice = ''{\"n\":\"a\"}''"
    using region c r by (auto simp: pairAdvice_def exactAdvice_def sampleFacts Let_def)
  have add: "addDiagnostic d newDiagnosticCollector = (True, newDiagnosticCollector\<lparr>dcSeen := [diagnosticKeyOf d], dcItems := [d]\<rparr>)"
    by (simp add: addDiagnostic_def newDiagnosticCollector_def MaxDiagnostics_def)
  have "\<not> overlapOutputLimit < int (bytes d)" using that[of d] by (simp add: overlapOutputLimit_def)
  then have "\<exists>t. ruleOverlapDiagnostics bytes (\<lambda>xs. xs) sampleScan sharedPack DefaultLimits = Some ([d], t)"
    unfolding ruleOverlapDiagnostics_def sharedPack_rules
    by (simp add: Let_def uniqueList_def addUnique_def textRule_members overlapWorkLimit_def textNode_dnf indexed_def pairStep_def
        shared_pair d(1) add sortedDiagnostics_def)
  with d(2,3) show ?thesis by blast
qed

lemma sameInterface_self: "sameInterface v v \<noteq> Some False"
  by (cases v) auto

lemma everyLeaf_mono: "everyLeaf P v \<Longrightarrow> (\<And>m. P m \<Longrightarrow> Q m) \<Longrightarrow> everyLeaf Q v"
proof (induction P v rule: everyLeaf.induct)
  case (1 P m)
  then show ?case unfolding everyLeaf.simps(1)[of Q] everyLeaf.simps(1)[of P] Let_def by (auto split: if_splits json.splits)
qed simp_all

lemma ready_when:
  assumes "overlapReady m" "admittedJson (JObject m)" "rule \<in> set (objectList (jget m ''rules''))"
  shows "admittedJson (jget rule ''when'') \<and> everyLeaf pathedFact (jget rule ''when'')"
proof
  from assms(1) obtain entries where e: "jget m ''rules'' = JArray entries" by (auto simp: overlapReady_def)
  with assms(3) have "JObject rule \<in> set entries" by (auto simp: objectList_def map_filter_def)
  with admitted_jget[OF assms(2), of "''rules''"] e have "admittedJson (JObject rule)"
    by (auto simp: list_all_iff simp del: admittedJson.simps(4))
  then show "admittedJson (jget rule ''when'')" by (rule admitted_jget)
  have "everyLeaf factForm (jget rule ''when'')" using ready_rules[OF assms(1,3)] structured_everyLeaf by blast
  then show "everyLeaf pathedFact (jget rule ''when'')"
    by (rule everyLeaf_mono) (auto simp: factForm_def pathedFact_def)
qed

subsection \<open>Properties\<close>

text \<open>C6: silence of the advice is a promise about every evaluation. When the overlap check says nothing
  about a pack, the resolution walk of the Core (both drafts off, on a meter with budget left) never ends in a conflict between its rules, whatever the facts and
  the evidence: a conflict can only come from two exceptions that force two different outcomes.\<close>

theorem silence_excludes_conflict:
  assumes "\<And>xs. mset (iter xs) = mset (xs :: string list)"
    and "ruleOverlapDiagnostics bytes iter scan m limits = Some ([], False)"
    and "admittedJson (JObject m)" "admittedJson facts"
    and "coherent e" "\<not> exceeded e" "charged e \<le> budget e" "\<not> outcomeValues e" "\<not> quantifiers e"
    and "resolvePack m facts e = (Inr (d, t), r)" "decisionOf d = Unresolved R" "ReasonConflict \<in> R"
  shows "\<exists>p q. p \<noteq> q \<and> {p, q} \<subseteq> forcedBy (verdictOf False (evidence e) facts) (membersOf m ''exceptions'')"
proof -
  have "fresh e" using assms(5-7) by (simp add: fresh_def em.within_limit_def)
  from resolvePack_decides[OF this admitted_wf[OF assms(4)] assms(8), of m, unfolded assms(10)]
  have "decisionOf d = section8 (evidence e) (verdictOf False (evidence e) facts) m"
    using decides_decision assms(9) by auto
  with assms(11) have "section8 (evidence e) (verdictOf False (evidence e) facts) m = Unresolved R" by simp
  from section8_conflict[OF this assms(12) candidates_unique[OF assms(1-4)]] show ?thesis
    by (auto simp: conflictOf_def split: if_splits)
qed

theorem silence_excludes_conflict_witness:
  "\<exists>p q. p \<noteq> q \<and> {p, q} \<subseteq> forcedBy (verdictOf False Map.empty (JObject [])) (membersOf disjointPack ''exceptions'')"
proof -
  obtain d t r where res: "resolvePack disjointPack (JObject []) sampleStart = (Inr (d, t), r)"
    and R: "decisionOf d = Unresolved {ReasonConflict}"
  proof -
    have "case fst (resolvePack disjointPack (JObject []) sampleStart) of
        Inl f \<Rightarrow> False | Inr (d, t) \<Rightarrow> decisionOf d = Unresolved {ReasonConflict}" by code_simp
    then show thesis using that by (cases "resolvePack disjointPack (JObject []) sampleStart") (auto split: sum.splits)
  qed
  from silence_excludes_conflict[OF refl disjoint_silent samples_admitted(2) _ _ _ _ _ _ res R] show ?thesis by simp
qed

text \<open>C7: every witness the advice writes is a document on which both rules apply. Its text is the
  canonical writing of facts for which the conditions of two rules, with the identifiers and outcomes
  the advice names, are both true, whatever the evidence.\<close>

theorem witness_satisfies_both:
  assumes "\<And>xs. mset (iter xs) = mset (xs :: string list)"
    and "ruleOverlapDiagnostics bytes iter scan m limits = Some (ds, t)" "d \<in> set ds"
    and "dgOverlapAdvice d = Some advice" "oaWitnessFacts advice \<noteq> []"
    and "overlapReady m" "admittedJson (JObject m)"
  shows "\<exists>doc i j. oaWitnessFacts advice = marshal doc \<and> i < j \<and> j < length (objectList (jget m ''rules'')) \<and>
    (let a = objectList (jget m ''rules'') ! i; b = objectList (jget m ''rules'') ! j
     in jget a ''outcome'' \<noteq> jget b ''outcome'' \<and>
        oaRules advice = [\<lparr>ovID = stringOrEmpty (jget a ''id''), ovOutcome = stringOrEmpty (jget a ''outcome'')\<rparr>,
                          \<lparr>ovID = stringOrEmpty (jget b ''id''), ovOutcome = stringOrEmpty (jget b ''outcome'')\<rparr>] \<and>
        (\<forall>ev. meaning False ev (jget a ''when'') doc = triTrue \<and> meaning False ev (jget b ''when'') doc = triTrue))"
proof (rule advice_origin[OF assms(2,3) refl])
  let ?rules = "objectList (jget m ''rules'')"
  fix i j ca cb fa fb b1 b2 b3 b4
  assume ij: "i < j" "j < length ?rules" and c: "jget (?rules ! i) ''when'' = JObject ca" "jget (?rules ! j) ''when'' = JObject cb"
    and f: "overlapDNF ca True b1 = Some (fa, b2)" "overlapDNF cb True b3 = Some (fb, b4)"
    and said: "said iter scan m limits (i, ?rules ! i, fa) (j, ?rules ! j, fb) d"
  from said obtain v b5 b6 b7 where o: "sameInterface (jget (?rules ! i) ''outcome'') (jget (?rules ! j) ''outcome'') = Some False"
    and v: "overlapPair iter fa fb b5 = Some (v, b6)"
    and d: "pairAdvice scan m limits i (?rules ! i) (?rules ! j) v b6 = Some (d, b7)"
    by (auto simp: said_def)
  obtain b8 b9 where carries: "pvExact v"
    "boundedOverlapFacts scan (pvPath v) (pvWitness v) limits b8 = Some (Some (oaWitnessFacts advice), b9)"
    "oaRules advice = [\<lparr>ovID = stringOrEmpty (jget (?rules ! i) ''id''), ovOutcome = stringOrEmpty (jget (?rules ! i) ''outcome'')\<rparr>,
                       \<lparr>ovID = stringOrEmpty (jget (?rules ! j) ''id''), ovOutcome = stringOrEmpty (jget (?rules ! j) ''outcome'')\<rparr>]"
  proof (rule pairAdvice_carries[OF d])
    fix other assume other: "dgOverlapAdvice d = Some other"
      "oaWitnessFacts other \<noteq> [] \<Longrightarrow> pvExact v \<and>
         (\<exists>b2 b3. boundedOverlapFacts scan (pvPath v) (pvWitness v) limits b2 = Some (Some (oaWitnessFacts other), b3))"
      "oaRules other = [\<lparr>ovID = stringOrEmpty (jget (?rules ! i) ''id''), ovOutcome = stringOrEmpty (jget (?rules ! i) ''outcome'')\<rparr>,
                       \<lparr>ovID = stringOrEmpty (jget (?rules ! j) ''id''), ovOutcome = stringOrEmpty (jget (?rules ! j) ''outcome'')\<rparr>]"
    have "other = advice" using other(1) assms(4) by simp
    with other(2,3) assms(5) that show thesis by blast
  qed
  let ?doc = "nestDoc (sourceTokens (pvPath v)) (pvWitness v)"
  have ready: "admittedJson (JObject ca) \<and> everyLeaf pathedFact (JObject ca)" if "rule \<in> set ?rules" "jget rule ''when'' = JObject ca" for rule ca
    using ready_when[OF assms(6,7) that(1)] that(2) by simp
  have "?rules ! i \<in> set ?rules" "?rules ! j \<in> set ?rules" using ij by auto
  with ready c have r: "admittedJson (JObject ca)" "admittedJson (JObject cb)"
    "everyLeaf pathedFact (JObject ca)" "everyLeaf pathedFact (JObject cb)" by blast+
  note w = overlapPair_witness[OF assms(1) f r v carries(1)]
  have "meaning False ev (JObject ca) ?doc = triTrue \<and> meaning False ev (JObject cb) ?doc = triTrue" for ev
    using w[where doc = ?doc and ev = ev] resolvePointer_nestDoc[of "pvPath v" "pvWitness v"] by simp
  moreover have "jget (?rules ! i) ''outcome'' \<noteq> jget (?rules ! j) ''outcome''"
    using o sameInterface_self by metis
  ultimately show ?thesis
    using boundedOverlapFacts_text[OF carries(2)] carries(3) ij c by (intro exI[of _ ?doc] exI[of _ i] exI[of _ j]) (simp add: Let_def)
qed

theorem witness_satisfies_both_witness:
  "\<exists>doc. ''{\"n\":\"a\"}'' = marshal doc \<and>
     meaning False Map.empty (JObject (textNode ''equals'')) doc = triTrue"
proof -
  obtain d t advice where r: "ruleOverlapDiagnostics (\<lambda>d. 7) (\<lambda>xs. xs) sampleScan sharedPack DefaultLimits = Some ([d], t)"
    "dgOverlapAdvice d = Some advice" "oaWitnessFacts advice = ''{\"n\":\"a\"}''"
    using shared_said[of "\<lambda>d. 7"] by auto
  from witness_satisfies_both[OF refl r(1) _ r(2) _ samples_ready(1) samples_admitted(1)] r(3) obtain doc i j where
    w: "''{\"n\":\"a\"}'' = marshal doc" "i < j" "j < 2"
      "meaning False Map.empty (jget (objectList (jget sharedPack ''rules'') ! i) ''when'') doc = triTrue"
    by (auto simp: Let_def sharedPack_rules)
  then have "i = 0" by simp
  with w show ?thesis by (auto simp: sharedPack_rules textRule_members)
qed

text \<open>C15: the suggested rewrite is exact. It restricts one rule of the pair, which it names, and its
  condition has on every document, under every evidence, the three-valued value of "that rule's
  condition and not the other's". So it is true only where the rule's own condition is true and the
  other's is false, and where the other's is unknown it is not true.\<close>

theorem exclusiveRewrite_exact:
  assumes "exclusiveRewrite a b = Some r"
  shows "\<exists>low high. {low, high} = {a, b} \<and> owRuleID r = stringOrEmpty (jget low ''id'') \<and>
    (\<forall>q ev doc. meaning q ev (JObject (owWhen r)) doc =
       kleeneAll [meaning q ev (jget low ''when'') doc, negTri (meaning q ev (jget high ''when'') doc)])"
  by (rule rewrite_exact[OF assms]) blast

theorem exclusiveRewrite_exact_witness:
  "\<exists>r low high. exclusiveRewrite (textRule ''r1'' ''equals'' ''approve'') (textRule ''r2'' ''equals'' ''review'') = Some r \<and>
    {low, high} = {textRule ''r1'' ''equals'' ''approve'', textRule ''r2'' ''equals'' ''review''} \<and>
    owRuleID r = stringOrEmpty (jget low ''id'') \<and>
    (\<forall>q ev doc. meaning q ev (JObject (owWhen r)) doc =
       kleeneAll [meaning q ev (jget low ''when'') doc, negTri (meaning q ev (jget high ''when'') doc)])"
proof -
  obtain r where "exclusiveRewrite (textRule ''r1'' ''equals'' ''approve'') (textRule ''r2'' ''equals'' ''review'') = Some r"
    using exclusiveRewrite_total[of "textRule ''r1'' ''equals'' ''approve''" "textRule ''r2'' ''equals'' ''review''"]
      textNode_structured textNode_read by (auto simp: textRule_members)
  with exclusiveRewrite_exact[OF this] show ?thesis by blast
qed

text \<open>C16: the check answers and stays within its bounds. On a pack whose rules are objects with an outcome
  and a well-formed condition, and whose ordered thresholds \<open>SetString\<close> reads (those of at most a
  million digits after the point), none of its unchecked type assertions and no comparison of two
  thresholds fails, whatever the limits; it reports at most a hundred diagnostics, whose encodings
  together are within the output limit.\<close>

theorem overlap_answers_within_bounds:
  assumes "overlapReady m" "thresholdsRead m"
  shows "case ruleOverlapDiagnostics bytes iter scan m limits of
      None \<Rightarrow> False
    | Some (ds, t) \<Rightarrow> length ds \<le> MaxDiagnostics \<and> int (sum_list (map bytes ds)) \<le> overlapOutputLimit"
proof -
  obtain ds t where r: "ruleOverlapDiagnostics bytes iter scan m limits = Some (ds, t)" by (rule overlap_total[OF assms])
  from overlap_bounded[OF r] r show ?thesis by simp
qed

lemma sharedPack_read: "thresholdsRead sharedPack"
  by (simp add: thresholdsRead_def sharedPack_rules textRule_members textNode_read)

theorem overlap_answers_within_bounds_witness:
  "case ruleOverlapDiagnostics (\<lambda>d. 7) (\<lambda>xs. xs) sampleScan sharedPack DefaultLimits of
     None \<Rightarrow> False
   | Some (ds, t) \<Rightarrow> length ds \<le> MaxDiagnostics \<and> int (sum_list (map (\<lambda>d. 7) ds)) \<le> overlapOutputLimit"
  by (rule overlap_answers_within_bounds[OF samples_ready(1) sharedPack_read])

text \<open>Without the last hypothesis it may panic: two ascending facts over one path are compared although a
  threshold was not read.\<close>

lemma unread_threshold_panics:
  assumes "jget a ''when'' = JObject ac" "jget b ''when'' = JObject bc" "ascendingFact ac" "ascendingFact bc"
    and "jget ac ''path'' = JString p" "jget bc ''path'' = JString p"
    and "jget ac ''value'' = JString s" "decimalPattern s" "ratOfDecimal s \<noteq> 0" "ratExponentLimit < int (fractionDigits s)"
  shows "exclusiveRewrite a b = None"
  using assms
  by (simp add: exclusiveRewrite_def ascendingPair_def compareOperands_def overlapNumber_def ratSetString_def)

text \<open>C18: the keys by which the check tells values apart are exact: two admitted values have the same
  key exactly when the evaluator's equality holds of them, whatever the spelling of their numbers and
  the order of their members.\<close>

theorem overlapKey_tells_equality:
  assumes "admittedJson v" "admittedJson w"
  shows "overlapKey v = overlapKey w \<longleftrightarrow> jsonEqual v w"
  by (rule overlapKey_exact[OF assms])

theorem overlapKey_tells_equality_witness:
  "overlapKey (JNumber ''1.50'') = overlapKey (JNumber ''15e-1'') \<and> overlapKey (JNumber ''1'') \<noteq> overlapKey (JNumber ''10'')"
proof -
  have "admittedJson (JNumber ''1.50'')" "admittedJson (JNumber ''15e-1'')" "admittedJson (JNumber ''1'')" "admittedJson (JNumber ''10'')"
    by code_simp+
  moreover have "jsonEqual (JNumber ''1.50'') (JNumber ''15e-1'')" "\<not> jsonEqual (JNumber ''1'') (JNumber ''10'')"
    by code_simp+
  ultimately show ?thesis by (simp only: overlapKey_tells_equality) simp
qed

end
