(* ===== verification/Overlap_Measure.thy ===== *)
theory Overlap_Measure
  imports Overlap_Advice Overlap_Keys
begin

section \<open>The preflight of a generated document is exact\<close>

text \<open>
  \<open>overlapShape\<close> decides, before a document is written, whether it may be. Steps on its counters have a
  cost in bytes, nodes and work units and a condition of their own, and compose by adding costs; so the
  whole walk succeeds exactly for a document that fits, and then its byte count is the length of what
  \<open>json.Marshal\<close> will write.
\<close>

subsection \<open>Steps with a cost\<close>

definition roomFor :: "Limits \<Rightarrow> nat \<Rightarrow> nat \<Rightarrow> nat \<Rightarrow> overlapShape \<Rightarrow> bool" where
  "roomFor L bytes nodes work s \<longleftrightarrow>
     shLimits s = L \<and> shBytes s + bytes \<le> HardMaxBytes \<and> shNodes s + nodes \<le> MaxNodes L \<and> int work \<le> shBudget s"

definition grownBy :: "nat \<Rightarrow> nat \<Rightarrow> nat \<Rightarrow> overlapShape \<Rightarrow> overlapShape" where
  "grownBy bytes nodes work s =
     s\<lparr>shBytes := shBytes s + bytes, shNodes := shNodes s + nodes, shBudget := shBudget s - int work\<rparr>"

definition costs :: "Limits \<Rightarrow> bool \<Rightarrow> nat \<Rightarrow> nat \<Rightarrow> nat \<Rightarrow> shapeStep \<Rightarrow> bool" where
  "costs L fit bytes nodes work f \<longleftrightarrow>
     (\<forall>s. roomFor L 0 0 0 s \<longrightarrow>
        (if fit \<and> roomFor L bytes nodes work s then f s = (True, grownBy bytes nodes work s) else \<not> fst (f s)))"

named_theorems costs

lemma costs_alsoShape [costs]:
  assumes "costs L a k n w f" "costs L a' k' n' w' g"
  shows "costs L (a \<and> a') (k + k') (n + n') (w + w') (alsoShape f g)"
  unfolding costs_def
proof (intro allI impI)
  fix s assume s: "roomFor L 0 0 0 s"
  show "if (a \<and> a') \<and> roomFor L (k + k') (n + n') (w + w') s
        then alsoShape f g s = (True, grownBy (k + k') (n + n') (w + w') s) else \<not> fst (alsoShape f g s)"
  proof (cases "a \<and> roomFor L k n w s")
    case False
    then have "\<not> fst (f s)" using assms(1) s by (auto simp: costs_def split: if_splits)
    moreover from False have "\<not> ((a \<and> a') \<and> roomFor L (k + k') (n + n') (w + w') s)" by (auto simp: roomFor_def)
    ultimately show ?thesis by (auto simp: alsoShape_def split: prod.split)
  next
    case True
    then have f: "f s = (True, grownBy k n w s)" using assms(1) s by (auto simp: costs_def split: if_splits)
    have room: "roomFor L 0 0 0 (grownBy k n w s)" using True by (simp add: roomFor_def grownBy_def)
    have "roomFor L k' n' w' (grownBy k n w s) \<longleftrightarrow> roomFor L (k + k') (n + n') (w + w') s"
      using True by (auto simp: roomFor_def grownBy_def)
    moreover have "grownBy k' n' w' (grownBy k n w s) = grownBy (k + k') (n + n') (w + w') s"
      by (simp add: grownBy_def)
    ultimately show ?thesis using assms(2) room True f by (auto simp: costs_def alsoShape_def split: if_splits)
  qed
qed

lemma costs_cong: "costs L a k n w f \<Longrightarrow> a = a' \<Longrightarrow> k = k' \<Longrightarrow> n = n' \<Longrightarrow> w = w' \<Longrightarrow> costs L a' k' n' w' f"
  by simp

lemma costs_done [costs]: "costs L True 0 0 0 (Pair True)"
  by (simp add: costs_def grownBy_def)

lemma costs_size [costs]: "costs L True k 0 0 (shapeSize k)"
  by (auto simp: costs_def roomFor_def grownBy_def shapeSize_def)

lemma costs_take [costs]: "costs L True 0 0 w (shapeTake w)"
  by (auto simp: costs_def roomFor_def grownBy_def shapeTake_def)

lemma costs_refused: "(\<And>s. shLimits s = L \<Longrightarrow> \<not> fst (f s)) \<Longrightarrow> costs L False k n w f"
  by (simp add: costs_def roomFor_def)

lemma costs_given: "(\<And>s. shLimits s = L \<Longrightarrow> f s = g s) \<Longrightarrow> costs L a k n w g \<Longrightarrow> costs L a k n w f"
  by (auto simp: costs_def roomFor_def)

lemma costs_commas [costs]: "costs L True (n - 1) 0 0 (commas n)"
proof (cases "n = 0")
  case True
  then show ?thesis using costs_done by (simp add: commas_def costs_def)
next
  case False
  then have "commas n = shapeSize (n - 1)" by (simp add: commas_def fun_eq_iff)
  then show ?thesis using costs_size by simp
qed

lemma costs_open [costs]: "costs L (depth < MaxDepth L) 2 0 0 (openShape depth)"
proof (cases "depth < MaxDepth L")
  case True
  have "costs L True 2 0 0 (openShape depth)"
    by (rule costs_given[OF _ costs_size[of L 2]]) (use True in \<open>simp add: openShape_def\<close>)
  with True show ?thesis by simp
next
  case False
  then have "costs L False 2 0 0 (openShape depth)" by (intro costs_refused) (simp add: openShape_def)
  with False show ?thesis by simp
qed

lemma costs_node [costs]: "costs L True 0 1 1 shapeNode"
  by (auto simp: costs_def roomFor_def grownBy_def shapeNode_def shapeTake_def alsoShape_def)

subsection \<open>The bytes of a text\<close>

fun spelled :: "string \<Rightarrow> nat" where
  "spelled [] = 0"
| "spelled (c # cs) =
     (case cs of
        d # e # rest \<Rightarrow>
          if c = CHR 0xE2 \<and> d = CHR 0x80 \<and> e \<in> {CHR 0xA8, CHR 0xA9} then 6 + spelled rest
          else spelledBytes c + spelled cs
      | _ \<Rightarrow> spelledBytes c + spelled cs)"

fun startsSeparator :: "string \<Rightarrow> bool" where
  "startsSeparator (c # d # e # rest) \<longleftrightarrow> c = CHR 0xE2 \<and> d = CHR 0x80 \<and> (e = CHR 0xA8 \<or> e = CHR 0xA9)"
| "startsSeparator t \<longleftrightarrow> False"

lemma spelled_step:
  "spelled (c # cs) = (if startsSeparator (c # cs) then 6 + spelled (drop 2 cs) else spelledBytes c + spelled cs)"
  by (cases "c # cs" rule: startsSeparator.cases) auto

declare spelled.simps(2) [simp del]

lemma shapeBytes_step:
  "shapeBytes (c # cs) =
     (if startsSeparator (c # cs) then alsoShape (shapeSize 6) (shapeBytes (drop 2 cs))
      else alsoShape (shapeSize (spelledBytes c)) (shapeBytes cs))"
  by (rule ext, cases "c # cs" rule: startsSeparator.cases) auto

lemma costs_bytes [costs]: "costs L True (spelled t) 0 0 (shapeBytes t)"
proof (induction "length t" arbitrary: t rule: less_induct)
  case less
  have step: "costs L True (k + spelled rest) 0 0 (alsoShape (shapeSize k) (shapeBytes rest))" if "length rest < length t" for k rest
    using costs_alsoShape[OF costs_size[of L k] less[OF that]] by simp
  show ?case
  proof (cases t)
    case Nil
    have "shapeBytes [] = Pair True" by (simp add: fun_eq_iff)
    with Nil show ?thesis using costs_done by simp
  next
    case (Cons c cs)
    then show ?thesis using step[of cs "spelledBytes c"] step[of "drop 2 cs" 6]
      unfolding Cons spelled_step shapeBytes_step by simp
  qed
qed

text \<open>On UTF-8 that is the length of the writing, rune by rune.\<close>

lemma spelledBytes_high: "128 \<le> byteOf c \<Longrightarrow> spelledBytes c = 1"
  by (auto simp: spelledBytes_def)

lemma char_code: "c = d \<longleftrightarrow> byteOf c = byteOf d" for c d :: char
  by (metis char_of_char)

lemma spelledBytes_ascii: "byteOf c < 128 \<Longrightarrow> spelledBytes c = length (escapedGo (byteOf c))"
  using ascii_encode[of c]
  by (simp add: spelledBytes_def escapedGo_def encodeRune_def unicodeEscape_def badByte_def char_code[of c])

lemma spelled_single: "c \<noteq> CHR 0xE2 \<Longrightarrow> spelled (c # cs) = spelledBytes c + spelled cs"
  by (cases "c # cs" rule: startsSeparator.cases) (auto simp: spelled_step)

lemma spelled_high: "128 \<le> byteOf c \<Longrightarrow> byteOf c \<noteq> 226 \<Longrightarrow> spelled (c # cs) = Suc (spelled cs)"
proof -
  assume c: "128 \<le> byteOf c" "byteOf c \<noteq> 226"
  have "c \<noteq> CHR 0xE2"
  proof
    assume "c = CHR 0xE2"
    with c(2) show False by simp
  qed
  with c(1) show ?thesis by (simp add: spelled_single spelledBytes_high)
qed

lemma separator_code:
  fixes r :: nat
  shows "r div 4096 = 2 \<and> r div 64 mod 64 = 0 \<and> (r mod 64 = 40 \<or> r mod 64 = 41) \<longleftrightarrow> r = 8232 \<or> r = 8233"
proof
  assume h: "r div 4096 = 2 \<and> r div 64 mod 64 = 0 \<and> (r mod 64 = 40 \<or> r mod 64 = 41)"
  have "r div 64 div 64 = 2" using h by (simp add: div_mult2_eq[symmetric])
  then have "r div 64 = 128" using h div_mult_mod_eq[of "r div 64" 64] by simp
  then show "r = 8232 \<or> r = 8233" using h div_mult_mod_eq[of r 64] by auto
qed auto

lemma spelled_rune: "scalar r \<Longrightarrow> spelled (encodeScalar r @ t) = length (escapedGo r) + spelled t"
proof -
  assume s: "scalar r"
  then have nb: "r \<noteq> badByte" by (rule scalar_not_bad)
  consider "r < 128" | "128 \<le> r" "r < 2048" | "2048 \<le> r" "r < 65536" | "65536 \<le> r" by linarith
  then show ?thesis
  proof cases
    case 1
    then have b: "byteOf (char_of r) = r" by simp
    have "char_of r \<noteq> CHR 0xE2" using 1 b by (auto simp: char_code)
    with 1 b spelledBytes_ascii[of "char_of r"] show ?thesis by (simp add: encodeScalar_def spelled_single)
  next
    case 2
    then have "192 + r div 64 < 226" "r mod 64 < 64" by simp_all
    with 2 s nb show ?thesis
      by (simp add: encodeScalar_def escapedGo_def encodeRune_def spelled_high)
  next
    case 3
    let ?a = "char_of (224 + r div 4096) :: char" and ?b = "char_of (128 + r div 64 mod 64) :: char" and ?c = "char_of (128 + r mod 64) :: char"
    have bytes: "byteOf ?a = 224 + r div 4096" "byteOf ?b = 128 + r div 64 mod 64" "byteOf ?c = 128 + r mod 64"
      using 3 by simp_all
    have tail: "spelled (?b # ?c # t) = Suc (Suc (spelled t))"
      using bytes by (subst spelled_high, simp, simp, subst spelled_high) simp_all
    have starts: "startsSeparator (?a # ?b # ?c # t) \<longleftrightarrow> r = 8232 \<or> r = 8233"
      using bytes separator_code[of r] by (simp only: startsSeparator.simps char_code[of ?a] char_code[of ?b] char_code[of ?c]) simp
    have "spelled (?a # ?b # ?c # t) = (if r = 8232 \<or> r = 8233 then 6 + spelled t else 3 + spelled t)"
      using starts tail bytes by (simp add: spelled_step[of ?a] spelledBytes_high del: startsSeparator.simps)
    with 3 s nb show ?thesis
      by (auto simp: encodeScalar_def escapedGo_def encodeRune_def unicodeEscape_def)
  next
    case 4
    have "r \<le> 1114111" using s 4 by (simp add: scalar_def between_def)
    then have "240 + r div 262144 < 256" by simp
    with 4 s nb show ?thesis
      by (simp add: encodeScalar_def escapedGo_def encodeRune_def spelled_high)
  qed
qed

lemma spelled_quote: "validUtf8 t \<Longrightarrow> length (goQuote t) = 2 + spelled t"
proof (induction rule: validUtf8_induct)
  case (rune r t)
  then show ?case by (simp add: goQuote_def spelled_rune)
qed (simp add: goQuote_def)

subsection \<open>The bytes of a value\<close>

lemma costs_guard:
  assumes "costs L a k n w f" "\<And>s. shLimits s = L \<Longrightarrow> g s = (if P then f s else (False, s))"
  shows "costs L (P \<and> a) k n w g"
proof (cases P)
  case True
  with assms(1) show ?thesis using costs_given[of L g f a k n w] assms(2) by simp
next
  case False
  then have "costs L False k n w g" by (intro costs_refused) (simp add: assms(2))
  with False show ?thesis by simp
qed

lemma costs_string:
  assumes "validUtf8 t"
  shows "costs L (length t \<le> MaxStringBytes L) (length (goQuote t)) 0 (length t + 1) (shapeString t)"
proof -
  have "costs L (length t \<le> MaxStringBytes L \<and> True \<and> True \<and> True) (0 + (2 + spelled t)) (0 + (0 + 0)) (length t + 1 + (0 + 0)) (shapeString t)"
    by (rule costs_guard[OF costs_alsoShape[OF costs_take costs_alsoShape[OF costs_size costs_bytes]]])
       (auto simp: shapeString_def)
  then show ?thesis using spelled_quote[OF assms] by simp
qed

fun workOf :: "json \<Rightarrow> nat" where
  "workOf (JString t) = length t + 2"
| "workOf (JNumber t) = length t + 2"
| "workOf (JArray xs) = Suc (sum_list (map workOf xs))"
| "workOf (JObject m) = Suc (sum_list (map (\<lambda>p. length (fst p) + 1 + workOf (snd p)) m))"
| "workOf v = 1"

definition measured :: "Limits \<Rightarrow> nat \<Rightarrow> json \<Rightarrow> bool" where
  "measured L depth v \<longleftrightarrow> costs L (fits L depth v) (length (marshal v)) (nodesOf v) (workOf v) (shapeValue depth v)"

lemma shapeItems_costs:
  assumes "\<forall>x \<in> set xs. measured L depth x"
  shows "costs L (list_all (fits L depth) xs) (sum_list (map (\<lambda>x. length (marshal x)) xs)) (sum_list (map nodesOf xs))
    (sum_list (map workOf xs)) (shapeItems depth xs)"
  using assms
proof (induction xs)
  case Nil
  have "shapeItems depth [] = Pair True" by (simp add: fun_eq_iff)
  then show ?case using costs_done by simp
next
  case (Cons x xs)
  have "shapeItems depth (x # xs) = alsoShape (shapeValue depth x) (shapeItems depth xs)" by (simp add: fun_eq_iff)
  with costs_alsoShape[of L _ _ _ _ "shapeValue depth x" _ _ _ _ "shapeItems depth xs"] Cons show ?case
    by (simp add: measured_def)
qed

lemma costs_members:
  assumes "\<forall>p \<in> set m. validUtf8 (fst p) \<and> measured L depth (snd p)"
  shows "costs L (list_all (\<lambda>p. length (fst p) \<le> MaxStringBytes L \<and> fits L depth (snd p)) m)
    (sum_list (map (\<lambda>p. length (goMember marshal p)) m)) (sum_list (map (\<lambda>p. nodesOf (snd p)) m))
    (sum_list (map (\<lambda>p. length (fst p) + 1 + workOf (snd p)) m)) (shapeMembers depth m)"
  using assms
proof (induction m)
  case Nil
  have "shapeMembers depth [] = Pair True" by (simp add: fun_eq_iff)
  then show ?case using costs_done by simp
next
  case (Cons p m)
  have e: "shapeMembers depth (p # m) =
      alsoShape (shapeString (fst p)) (alsoShape (shapeSize 1) (alsoShape (shapeValue depth (snd p)) (shapeMembers depth m)))"
    by (simp add: fun_eq_iff)
  have "costs L (length (fst p) \<le> MaxStringBytes L \<and> True \<and> fits L depth (snd p) \<and>
      list_all (\<lambda>p. length (fst p) \<le> MaxStringBytes L \<and> fits L depth (snd p)) m)
    (length (goQuote (fst p)) + (1 + (length (marshal (snd p)) + sum_list (map (\<lambda>p. length (goMember marshal p)) m))))
    (0 + (0 + (nodesOf (snd p) + sum_list (map (\<lambda>p. nodesOf (snd p)) m))))
    (length (fst p) + 1 + (0 + (workOf (snd p) + sum_list (map (\<lambda>p. length (fst p) + 1 + workOf (snd p)) m))))
    (shapeMembers depth (p # m))"
    unfolding e by (intro costs_alsoShape costs_string costs_size) (use Cons in \<open>auto simp: measured_def\<close>)
  then show ?case by (rule costs_cong) (auto simp: goMember_def)
qed

lemma length_bracketed: "length (bracketed a b parts) = 2 + (sum_list (map length parts) + (length parts - 1))"
proof (cases parts)
  case (Cons p ps)
  have "length (concat (map (\<lambda>q. '','' @ q) ps)) = sum_list (map length ps) + length ps" by (induction ps) simp_all
  with Cons show ?thesis by (simp add: bracketed_def joinWith_Cons)
qed (simp add: bracketed_def)

lemma sum_sort_key: "sum_list (map (f :: 'a \<Rightarrow> nat) (sort_key k xs)) = sum_list (map f xs)"
  by (metis mset_map mset_sort sum_mset_sum_list)

lemma costs_value: "admittedJson v \<Longrightarrow> measured L depth v"
proof (induction v arbitrary: depth)
  case JNull
  have "shapeValue depth JNull = alsoShape shapeNode (shapeSize 4)" by (rule ext) (simp add: shapeValue.simps)
  with costs_alsoShape[OF costs_node costs_size, of L 4] show ?case by (simp add: measured_def numeral_eq_Suc)
next
  case (JBool b)
  have "shapeValue depth (JBool b) = alsoShape shapeNode (shapeSize (if b then 4 else 5))" by (rule ext) (simp add: shapeValue.simps)
  with costs_alsoShape[OF costs_node costs_size, of L "if b then 4 else 5"] show ?case by (simp add: measured_def numeral_eq_Suc split: if_splits)
next
  case (JString t)
  have "shapeValue depth (JString t) = alsoShape shapeNode (shapeString t)" by (rule ext) (simp add: shapeValue.simps)
  with costs_alsoShape[OF costs_node costs_string, of t L] JString show ?case by (simp add: measured_def)
next
  case (JNumber t)
  let ?rest = "\<lambda>s1. if length t > MaxStringBytes (shLimits s1) then (False, s1) else alsoShape (shapeTake (length t + 1)) (shapeSize (length t)) s1"
  have "shapeValue depth (JNumber t) = alsoShape shapeNode ?rest" by (rule ext) (simp add: shapeValue.simps)
  moreover have "costs L (length t \<le> MaxStringBytes L \<and> True \<and> True) (0 + length t) (0 + 0) (length t + 1 + 0) ?rest"
    by (rule costs_guard[OF costs_alsoShape[OF costs_take costs_size]]) auto
  ultimately show ?case using costs_alsoShape[OF costs_node, of L _ _ _ _ ?rest] by (fastforce simp: measured_def)
next
  case (JArray xs)
  have "\<forall>x \<in> set xs. measured L (Suc depth) x" using JArray by (auto simp: list_all_iff)
  note items = shapeItems_costs[OF this]
  have "shapeValue depth (JArray xs) = alsoShape shapeNode (alsoShape (openShape depth) (alsoShape (shapeItems (Suc depth) xs) (commas (length xs))))"
    by (rule ext) (simp add: shapeValue.simps)
  with costs_alsoShape[OF costs_node costs_alsoShape[OF costs_open costs_alsoShape[OF items costs_commas]], of depth "length xs"]
  show ?case by (simp add: measured_def length_bracketed comp_def)
next
  case (JObject m)
  have "\<forall>p \<in> set m. validUtf8 (fst p) \<and> measured L (Suc depth) (snd p)" using JObject by (force simp: list_all_iff snds.simps)
  note members = costs_members[OF this]
  have "shapeValue depth (JObject m) = alsoShape shapeNode (alsoShape (openShape depth) (alsoShape (shapeMembers (Suc depth) m) (commas (length m))))"
    by (rule ext) (simp add: shapeValue.simps)
  with costs_alsoShape[OF costs_node costs_alsoShape[OF costs_open costs_alsoShape[OF members costs_commas]], of depth "length m"]
  show ?case by (simp add: measured_def length_bracketed comp_def sum_sort_key)
qed

subsection \<open>Property\<close>

text \<open>C17: the preflight of a generated document is exact. It lets a value through exactly when the value
  fits the limits on text and nesting, its nodes the node limit, its written form the hard limit on
  bytes and its traversal the work budget; and then it has counted exactly the bytes \<open>json.Marshal\<close>
  writes and spent exactly the units of the traversal.\<close>

theorem shapeValue_exact:
  assumes "admittedJson v" "0 \<le> b" "n \<le> MaxNodes L"
  shows "let (ok, s) = shapeValue depth v (newShape L b n)
    in (ok \<longleftrightarrow> fits L depth v \<and> length (marshal v) \<le> HardMaxBytes \<and> n + nodesOf v \<le> MaxNodes L \<and> int (workOf v) \<le> b) \<and>
       (ok \<longrightarrow> shBytes s = length (marshal v) \<and> shNodes s = n + nodesOf v \<and> shBudget s = b - int (workOf v))"
proof -
  have start: "roomFor L 0 0 0 (newShape L b n)" using assms(2,3) by (simp add: roomFor_def newShape_def)
  have room: "roomFor L (length (marshal v)) (nodesOf v) (workOf v) (newShape L b n) \<longleftrightarrow>
      length (marshal v) \<le> HardMaxBytes \<and> n + nodesOf v \<le> MaxNodes L \<and> int (workOf v) \<le> b"
    by (simp add: roomFor_def newShape_def)
  have walk: "if fits L depth v \<and> roomFor L (length (marshal v)) (nodesOf v) (workOf v) (newShape L b n)
      then shapeValue depth v (newShape L b n) = (True, grownBy (length (marshal v)) (nodesOf v) (workOf v) (newShape L b n))
      else \<not> fst (shapeValue depth v (newShape L b n))"
    using costs_value[OF assms(1), of L depth] start unfolding measured_def costs_def by blast
  show ?thesis
  proof (cases "fits L depth v \<and> roomFor L (length (marshal v)) (nodesOf v) (workOf v) (newShape L b n)")
    case True
    with walk have "shapeValue depth v (newShape L b n) = (True, grownBy (length (marshal v)) (nodesOf v) (workOf v) (newShape L b n))"
      by simp
    with True show ?thesis unfolding room by (simp add: Let_def grownBy_def newShape_def)
  next
    case False
    with walk have "\<not> fst (shapeValue depth v (newShape L b n))" by simp
    with False show ?thesis unfolding room by (auto simp: Let_def split: prod.split)
  qed
qed

theorem shapeValue_exact_witness:
  "let (ok, s) = shapeValue 0 (JArray [JBool True]) (newShape DefaultLimits 10 0) in ok \<and> shBytes s = 6"
  using shapeValue_exact[of "JArray [JBool True]" 10 0 DefaultLimits 0]
  by (simp add: DefaultLimits_def HardMaxBytes_def bracketed_def Let_def case_prod_unfold)

end
