(* ===== verification/Spec2Isabelle.thy ===== *)
theory Spec2Isabelle
  imports Resolution_Laws Decimal Pointer Utf8 Disposition Jps_Canon Canonical_Disposition Carrier
    Comparable Outcome_Values_Draft Semantic Validator Engine Graph_Laws
    Overlap_Properties Overlap_Measure
begin

text \<open>
  A verification library for the decision core of the Judgment Pack runtime: what the runtime does
  between the bytes of a pack, its facts and its evidence and the bytes of a canonical disposition,
  and how it composes such evaluations along a judgment graph.

  The program. A judgment pack is a JSON document of conditions, rules, exceptions and evidence
  requirements. \<open>internal/carrier\<close> decodes a document strictly; \<open>internal/validation\<close> negotiates its
  profile and holds it to its schema, its semantic rules and the capabilities it requires;
  \<open>internal/evaluation\<close> admits the pack, reads facts and evidence in a fixed order of refusal,
  evaluates the conditions in three-valued logic under a work budget and walks section 8 of the
  specification to a disposition; \<open>internal/result\<close> is the gate every disposition passes;
  \<open>internal/jcs\<close> and \<open>internal/jpscanon\<close> write canonical bytes; \<open>internal/graph\<close> runs packs one
  after another, the outcomes of one feeding the facts and the evidence of the next.

  Theories and sources, from the bottom up.
  Data. \<open>Prelude\<close> has the shared list and option lemmas and the fact collections; \<open>Utf8\<close> is the
  language's reading of byte strings as runes; \<open>Json_Value\<close>, \<open>Json_Number\<close>, \<open>Json_Equality\<close>,
  \<open>Decimal\<close> and \<open>Pointer\<close> are the value half of \<open>condition.go\<close> (number normal forms,
  \<open>jsonEqual\<close>, decimal strings, pointers) with \<open>carrier.Pointer\<close>; \<open>Carrier\<close> is \<open>decode.go\<close>
  over the token stream of the JSON tokenizer.
  Conditions. \<open>Meter\<close> states the work budget as a contract; \<open>Evaluator\<close> and \<open>Accounting\<close> are
  the evaluator of \<open>condition.go\<close> and \<open>quantifier.go\<close>; \<open>Kleene\<close> is its reference semantics,
  \<open>Verdict\<close> the proof that the stateful walk computes it, \<open>Cost\<close> the closed form of what it
  charges, \<open>Evaluation_Laws\<close> what a stage may rely on. \<open>Comparable\<close> is the static comparability
  check of \<open>comparable.go\<close> and its soundness against the evaluator.
  Decisions. \<open>Disposition\<close> is the gate of \<open>internal/result\<close>; \<open>Resolve\<close> the walk of
  \<open>resolve.go\<close>, \<open>contributors.go\<close> and the resolution step of \<open>rfc0016.go\<close>; \<open>Section8\<close> the
  abstract decision and the refinement; \<open>Resolution_Laws\<close> legality, order independence, exact
  contributors and termination within the budget.
  Canonical forms. \<open>Canonical_Writer\<close> is the locale both writers share, \<open>Jcs\<close> and \<open>Jps_Canon\<close>
  the writers, \<open>Canonical_Disposition\<close> the bytes of a disposition.
  Admission. \<open>Diagnostics\<close> is the bounded collector, \<open>Semantic\<close> the semantic layer,
  \<open>Quantifier_Draft\<close> and \<open>Outcome_Values_Draft\<close> the gates of the two drafts, \<open>Validator\<close> the
  validation engine of \<open>validator.go\<close> and \<open>profile.go\<close>, \<open>Engine\<close> the evaluation engine of
  \<open>engine.go\<close> with its memo and the mutex around it, \<open>contract.go\<close> and \<open>fact_advice.go\<close>.
  Graphs. \<open>Graph_Document\<close> is \<open>internal/graph/document.go\<close>; \<open>Graph_Order\<close> and \<open>Graph_Cycles\<close>
  verify its two loops, \<open>Graph_Checks\<close> its checks; \<open>Graph_Inputs\<close> and \<open>Graph_Evaluation\<close> are
  \<open>evaluate.go\<close>, \<open>contract.go\<close> and \<open>report.go\<close>, \<open>Graph_Laws\<close> the composition; \<open>Display\<close> is
  \<open>internal/display\<close>.

  Authoring advice. \<open>Marshal\<close> is the standard library's JSON writer; \<open>Overlap\<close> and \<open>Overlap_Advice\<close>
  are \<open>overlap.go\<close> and \<open>overlap_generated.go\<close> of \<open>internal/validation\<close>, the check of pairs of rules
  that the validation engine calls through a field; \<open>Overlap_Keys\<close> (its keys are equality),
  \<open>Overlap_Clauses\<close> (its clauses have the meaning of the condition), \<open>Overlap_Budget\<close> (no step gives budget back),
  \<open>Overlap_Values\<close> (the values it tries represent every value), \<open>Overlap_Laws\<close> (exclusion and witness of a pair), \<open>Overlap_Total\<close>
  (no unchecked assertion fails) and \<open>Overlap_Promises\<close> (whole packs) lead to
  \<open>Overlap_Properties\<close>; \<open>Overlap_Measure\<close> shows the preflight of a generated document exact.

  How the code is read. A Go string or byte slice is a \<open>string\<close>, one \<open>char\<close> for a byte. A method
  that changes its receiver is a function that returns the new state as well. An error is a value of
  a sum or option type with a code and a location; a sentence is kept as the texts it is made from,
  or not at all where only its code decides anything. A map of the language is an association list
  or a function; where the code walks a map unsorted, the order is a parameter and the theorems hold
  for every order. An integer whose range the limits bound far below 64 bits is a natural number;
  integers that can be negative are \<open>int\<close>. A decimal text is a number only when \<open>big.Rat.SetString\<close>
  reads it: it refuses every text but those of zero with more than a million digits after the point,
  and \<open>Decimal\<close> refuses them too, so a decimal that the schema admits may be not comparable
  (\<open>Comparable\<close>), not read back by its reader (\<open>Decimal\<close>), or make the suggestion of a rewrite panic
  (\<open>Overlap_Properties\<close>). The texts of the tokenizer are UTF-8 whatever the bytes read, as
  \<open>encoding/json\<close> has it (\<open>eTokens\<close> of \<open>Validator\<close>); the names a caller passes as options need not be,
  and the memo of an admitted pack takes its key from \<open>json.Marshal\<close>, which writes the replacement
  character for a byte that is not UTF-8. So two such requests may share an entry.

  Concurrency. The requests on one admitted pack are a step relation over the memo, the mutex and the
  phase of each request; taking the mutex is a step only while it is free, and letting it go is a step
  of its own on every path out.

  Fuel. Recursion over documents is structural or has a size measure. The decoder carries one unit of
  fuel for each token and turn, and is shown never to end for lack of it; Kahn's loop takes as many
  steps as there are nodes, and Tarjan's recursion goes as deep as there are nodes, and both are
  shown exact with that many. The overlap check spends one work budget of a million units, every loop
  of it charged; where the budget ends it the pair counts as not excluded.

  Interfaces. \<open>meter\<close> is the budget contract, interpreted by the evaluator and by the comparability
  check; \<open>canonical_writer\<close> is what makes a canonical form an identity, interpreted by both
  writers and, on values without numbers, by the standard library's; \<open>bounded_memo\<close> and \<open>memo_client\<close> are the admission memo, interpreted by the engine's;
  \<open>feeds\<close> is what the predecessor and successor maps of a graph promise, interpreted by the maps the
  order builds.

  What the properties show. Conditions: the evaluator computes the reference semantics, records
  exactly its causes and charges exactly the documented sum. Decisions: the walk implements section 8
  or stops for its budget, its dispositions are legal and do not depend on the order of the pack.
  Documents: the decoder, the validators and the draft gates accept exactly what their rules say, and
  what they report is exact within its bound. Canonical forms: two values have the same bytes exactly
  when they are equal. Engine: the precedence of refusals, what a successful evaluation rests on, and
  that concurrent requests on one admitted pack exclude each other from the memo, are answered as if
  alone (but for the list of extensions a validation repeats, when names are not UTF-8), never
  deadlock and always finish. Graphs:
  the order and the report of cycles are exact and deterministic, the structural checks are exact,
  assembly writes into facts and evidence what the edges say and nothing else and refuses only what the
  caller already said, and a run that succeeds has passed every gate and is the evaluation of every
  node against the results of the nodes that feed it. Overlap advice: a pack it is silent on
  never has a conflict between rules at run time, its witnesses make both rules true, its rewrites
  are exact, and it answers within its bounds on every pack whose thresholds can be read.

  Parameters, which stand for code that is not in the repository or that only copies: the tokens of
  the JSON tokenizer, the marshalling of projected packs and of assembled documents, compiled schemas
  (a function from a document to its error tree), the bundled artifacts, the printing of a value that
  is no string, SHA-256 as text, the reads of files (numbered, since a file may change between two
  reads), the writer of audit records and the sizes of encoded reports.

  Not modelled: the audit trail, its signatures and time stamps, file access and locks, the command
  line and the server, the rendering of reports, the runners over bundled cases, and the authoring
  tools outside the decision path. They are listed with their reasons in the manifest beside this
  library.
\<close>

end
